(* ===== verification/Prelude.thy ===== *)
theory Prelude
  imports Main "HOL-Library.Word" "HOL-Library.Monad_Syntax"
begin

text \<open>
  Shared vocabulary of the development: the machine integers of the Rust program at their
  widths, the checked operations of Rust's integer types, the reading of a mutable borrow,
  and the list and word lemmas every component uses.

  A \<open>panic\<close> of the program, and a loop that does not end, are the value \<open>None\<close> of an
  \<open>option\<close>; a Rust \<open>Result\<close> is a sum with the error on the left. Arithmetic without
  a check has the meaning of a release build: it wraps.
\<close>

section \<open>Machine integers\<close>

type_synonym u32 = "32 word"
type_synonym u64 = "64 word"
type_synonym u128 = "128 word"
type_synonym usize = "64 word"

text \<open>\<open>i128\<close> is an integer together with its range, so that signs read as they do in Rust.\<close>

type_synonym i128 = int

definition i128_fits :: "int \<Rightarrow> bool" where
  "i128_fits n \<longleftrightarrow> - (2 ^ 127) \<le> n \<and> n < 2 ^ 127"

definition checked_add :: "'a::len word \<Rightarrow> 'a word \<Rightarrow> 'a word option" where
  "checked_add a b = (if unat a + unat b < 2 ^ LENGTH('a) then Some (a + b) else None)"

text \<open>Evaluation compares integers, and stops a chain of operations at the first panic.\<close>

lemma checked_add_code [code]:
  "checked_add (a :: 'a::len word) b = (if uint a + uint b < 2 ^ LENGTH('a) then Some (a + b) else None)"
proof -
  have "unat a + unat b < 2 ^ LENGTH('a) \<longleftrightarrow> int (unat a + unat b) < int (2 ^ LENGTH('a))"
    by (simp only: of_nat_less_iff)
  then show ?thesis by (simp add: checked_add_def)
qed

lemma bind_case [code_unfold]: "Option.bind m f = (case m of None \<Rightarrow> None | Some x \<Rightarrow> f x)"
  by (cases m) simp_all

definition checked_sub :: "'a::len word \<Rightarrow> 'a word \<Rightarrow> 'a word option" where
  "checked_sub a b = (if b \<le> a then Some (a - b) else None)"

definition checked_mul :: "'a::len word \<Rightarrow> 'a word \<Rightarrow> 'a word option" where
  "checked_mul a b = (if unat a * unat b < 2 ^ LENGTH('a) then Some (a * b) else None)"

definition checked_div :: "'a::len word \<Rightarrow> 'a word \<Rightarrow> 'a word option" where
  "checked_div a b = (if b = 0 then None else Some (a div b))"

definition checked_mul_i128 :: "i128 \<Rightarrow> i128 \<Rightarrow> i128 option" where
  "checked_mul_i128 a b = (if i128_fits (a * b) then Some (a * b) else None)"

definition saturating_sub :: "'a::len word \<Rightarrow> 'a word \<Rightarrow> 'a word" where
  "saturating_sub a b = (if b \<le> a then a - b else 0)"

definition abs_diff :: "'a::len word \<Rightarrow> 'a word \<Rightarrow> 'a word" where
  "abs_diff a b = (if a < b then b - a else a - b)"

text \<open>\<open>n.is_multiple_of(0)\<close> is \<open>n == 0\<close> in Rust, which is what \<open>mod 0\<close> gives here.\<close>

definition is_multiple_of :: "'a::len word \<Rightarrow> 'a word \<Rightarrow> bool" where
  "is_multiple_of a b \<longleftrightarrow> a mod b = 0"

definition u128_from :: "u64 \<Rightarrow> u128" where
  "u128_from w = ucast w"

definition as_u64 :: "u128 \<Rightarrow> u64" where
  "as_u64 w = ucast w"

fun ilog2_nat :: "nat \<Rightarrow> nat" where
  "ilog2_nat n = (if n < 2 then 0 else Suc (ilog2_nat (n div 2)))"

declare ilog2_nat.simps [simp del]

definition checked_ilog2 :: "u128 \<Rightarrow> nat option" where
  "checked_ilog2 w = (if w = 0 then None else Some (ilog2_nat (unat w)))"

text \<open>The evaluator counts naturals in unary; the logarithm is evaluated on the integer instead.\<close>

function ilog2_int :: "int \<Rightarrow> nat" where
  "ilog2_int i = (if i < 2 then 0 else Suc (ilog2_int (i div 2)))"
  by pat_completeness auto
termination by (relation "measure nat") auto

declare ilog2_int.simps [simp del]

lemma ilog2_int_nat: "ilog2_int (int n) = ilog2_nat n"
  by (induction n rule: ilog2_nat.induct)
    (subst ilog2_int.simps, subst ilog2_nat.simps, auto simp: zdiv_int)

lemma checked_ilog2_code [code]:
  "checked_ilog2 w = (if w = 0 then None else Some (ilog2_int (uint w)))"
  by (simp add: checked_ilog2_def flip: ilog2_int_nat)

named_theorems u64_arith \<open>reading machine arithmetic as arithmetic on naturals\<close>

lemma unat_u64_bound [simp]: "unat (w :: u64) < 18446744073709551616"
  using unsigned_less [of w, where 'a = nat] by simp

lemma unat_u64_le [simp]: "unat (w :: u64) \<le> 18446744073709551615"
  using unat_u64_bound [of w] by linarith

lemma unat_u32_bound [simp]: "unat (w :: u32) < 4294967296"
  using unsigned_less [of w, where 'a = nat] by simp

lemma unat_u128_bound [simp]: "unat (w :: u128) < 340282366920938463463374607431768211456"
  using unsigned_less [of w, where 'a = nat] by simp

lemma unat_add_exact [u64_arith]:
  fixes a b :: "'a::len word"
  shows "unat a + unat b < 2 ^ LENGTH('a) \<Longrightarrow> unat (a + b) = unat a + unat b"
  by (simp add: unat_word_ariths)

lemma unat_mult_exact [u64_arith]:
  fixes a b :: "'a::len word"
  shows "unat a * unat b < 2 ^ LENGTH('a) \<Longrightarrow> unat (a * b) = unat a * unat b"
  by (simp add: unat_word_ariths)

lemma unat_sub_exact [u64_arith]:
  fixes a b :: "'a::len word"
  shows "unat b \<le> unat a \<Longrightarrow> unat (a - b) = unat a - unat b"
  by (simp add: unat_sub word_le_nat_alt)

lemma unat_ucast_up: "LENGTH('a::len) \<le> LENGTH('b::len) \<Longrightarrow> unat (ucast (w :: 'a word) :: 'b word) = unat w"
  by transfer (simp add: take_bit_nat_eq_self_iff take_bit_of_nat min_def)

lemma unat_u128_from [simp]: "unat (u128_from w) = unat w"
  by (simp add: u128_from_def unat_ucast_up)

lemma unat_as_u64: "unat (as_u64 w) = unat w mod 2 ^ 64"
  by (simp add: as_u64_def unsigned_ucast_eq take_bit_eq_mod)

lemma unat_as_u64_small [u64_arith]: "unat w < 2 ^ 64 \<Longrightarrow> unat (as_u64 w) = unat w"
  by (simp add: unat_as_u64)

lemma u128_from_le_iff [simp]: "u128_from a \<le> u128_from b \<longleftrightarrow> a \<le> b"
  by (simp add: word_le_nat_alt)

lemma is_multiple_of_unat: "is_multiple_of a b \<longleftrightarrow> unat b dvd unat a"
  by (simp add: is_multiple_of_def dvd_eq_mod_eq_0 flip: unat_eq_zero unat_mod)

lemma checked_add_eq_Some:
  "checked_add a b = Some c \<longleftrightarrow> unat a + unat b < 2 ^ LENGTH('a) \<and> c = a + b"
  for a b c :: "'a::len word"
  by (auto simp: checked_add_def)

lemma checked_add_unat: "checked_add a b = Some c \<Longrightarrow> unat c = unat a + unat b"
  for a b c :: "'a::len word"
  by (auto simp: checked_add_def unat_add_exact split: if_splits)

lemma checked_sub_unat: "checked_sub a b = Some c \<Longrightarrow> unat b \<le> unat a \<and> unat c = unat a - unat b"
  for a b c :: "'a::len word"
  by (auto simp: checked_sub_def unat_sub_exact word_le_nat_alt split: if_splits)

lemma checked_mul_unat: "checked_mul a b = Some c \<Longrightarrow> unat c = unat a * unat b"
  for a b c :: "'a::len word"
  by (auto simp: checked_mul_def unat_mult_exact split: if_splits)

lemma unat_abs_diff:
  "unat (abs_diff a b) = (if unat a < unat b then unat b - unat a else unat a - unat b)"
  by (auto simp: abs_diff_def word_less_nat_alt unat_sub_exact)

lemma unat_saturating_sub: "unat (saturating_sub a b) = unat a - unat b"
  by (auto simp: saturating_sub_def word_le_nat_alt unat_sub_exact)

text \<open>The integer logarithm bounds its argument.\<close>

lemma ilog2_nat_bounds: "0 < n \<Longrightarrow> 2 ^ ilog2_nat n \<le> n \<and> n < 2 ^ Suc (ilog2_nat n)"
proof (induction n rule: ilog2_nat.induct)
  case (1 n)
  show ?case
  proof (cases "n < 2")
    case True
    with 1 show ?thesis by (simp add: ilog2_nat.simps [of n])
  next
    case False
    with "1.IH" have ih: "2 ^ ilog2_nat (n div 2) \<le> n div 2 \<and> n div 2 < 2 ^ Suc (ilog2_nat (n div 2))"
      by simp
    from False have "ilog2_nat n = Suc (ilog2_nat (n div 2))"
      by (simp add: ilog2_nat.simps [of n])
    moreover have "2 * p \<le> n \<and> n < 2 * (2 * p)" if "p \<le> n div 2 \<and> n div 2 < 2 * p" for p :: nat
      using that by linarith
    ultimately show ?thesis using ih by simp
  qed
qed

section \<open>Mutable borrows\<close>

text \<open>
  A Rust function that returns \<open>&mut T\<close> into a structure lends the current value and the
  right to replace it. The model returns both: the value, and the structure that results when
  the borrow ends with a given value.
\<close>

type_synonym ('t, 's) borrow = "'t \<times> ('t \<Rightarrow> 's)"

section \<open>Lists\<close>

text \<open>Rust's checked indexing: \<open>None\<close> is the out-of-range panic.\<close>

definition nth_opt :: "'a list \<Rightarrow> nat \<Rightarrow> 'a option" where
  "nth_opt xs i = (if i < length xs then Some (xs ! i) else None)"

lemma nth_opt_simps [simp]:
  "nth_opt [] i = None"
  "nth_opt (x # xs) 0 = Some x"
  "nth_opt (x # xs) (Suc i) = nth_opt xs i"
  by (simp_all add: nth_opt_def)

lemma nth_opt_eq_Some: "nth_opt xs i = Some x \<longleftrightarrow> i < length xs \<and> xs ! i = x"
  by (auto simp: nth_opt_def)

lemma sum_list_map_le:
  fixes f g :: "'a \<Rightarrow> nat"
  shows "(\<And>x. x \<in> set xs \<Longrightarrow> f x \<le> g x) \<Longrightarrow> sum_list (map f xs) \<le> sum_list (map g xs)"
  by (induction xs) (auto intro: add_mono)

lemma dvd_sum_list: "(\<And>x. x \<in> set xs \<Longrightarrow> d dvd x) \<Longrightarrow> d dvd sum_list xs"
  for d :: nat
  by (induction xs) auto

lemma sorted_wrt_unique:
  assumes "\<And>x y. P x y \<Longrightarrow> \<not> P y x"
    and "sorted_wrt P xs" and "sorted_wrt P ys" and "set xs = set ys"
  shows "xs = ys"
  using assms(2-)
proof (induction xs arbitrary: ys)
  case Nil
  then show ?case by simp
next
  case (Cons x xs)
  then obtain y ys' where ys: "ys = y # ys'" by (cases ys) auto
  have "x = y"
  proof (rule ccontr)
    assume "x \<noteq> y"
    with Cons.prems(3) ys have "x \<in> set ys'" and "y \<in> set xs" by auto
    with Cons.prems(1,2) ys have "P y x" and "P x y" by auto
    with assms(1) show False by blast
  qed
  moreover have "x \<notin> set xs" and "y \<notin> set ys'"
    using Cons.prems(1,2) ys assms(1) by auto
  ultimately have "set xs = set ys'" using Cons.prems(3) ys by auto
  with Cons.IH Cons.prems(1,2) ys \<open>x = y\<close> show ?case by auto
qed

lemma sorted_wrt_distinct: "(\<And>x. \<not> P x x) \<Longrightarrow> sorted_wrt P xs \<Longrightarrow> distinct xs"
  by (induction xs) auto

lemma filter_id_iff: "filter P xs = xs \<longleftrightarrow> (\<forall>x\<in>set xs. P x)"
  by (induction xs) (auto, metis impossible_Cons length_filter_le)

end
