(* ===== verification/Instrument.thy ===== *)
theory Instrument
  imports Prelude "HOL-Library.Signed_Division"
begin

text \<open>
  \<^verbatim>\<open>src/src/instrument.rs\<close>: prices, quantities, ticks and notionals as integers on the grid
  of an instrument, the specification that defines the grid, the conversions between decimals
  and the grid, and the admission rules.

  \<^verbatim>\<open>rust_decimal::Decimal\<close> is a crate outside the repository. It is the type variable \<open>'d\<close>
  with a record of the three functions the code calls; what the code relies on of them is the
  predicate \<open>decimal_laws\<close>.
\<close>

section \<open>The newtypes\<close>

datatype side = Ask | Bid

datatype price = Price (minor: u64)

instantiation price :: linorder
begin

definition less_eq_price :: "price \<Rightarrow> price \<Rightarrow> bool" where
  "less_eq_price a b \<longleftrightarrow> minor a \<le> minor b"

definition less_price :: "price \<Rightarrow> price \<Rightarrow> bool" where
  "less_price a b \<longleftrightarrow> minor a < minor b"

instance
  by standard (auto simp: less_eq_price_def less_price_def intro: price.expand)

end

lemma Price_order [simp]:
  "Price a \<le> Price b \<longleftrightarrow> a \<le> b"
  "Price a < Price b \<longleftrightarrow> a < b"
  by (simp_all add: less_eq_price_def less_price_def)

text \<open>
  \<open>Qty\<close> carries the operators of its \<open>u64\<close>; \<open>sum_list\<close> is the fold of \<open>Sum\<close>. Addition and
  subtraction wrap, as they do in a release build.
\<close>

datatype qty = Qty (base: u64)

definition qty_add :: "qty \<Rightarrow> qty \<Rightarrow> qty" where
  "qty_add a b = Qty (base a + base b)"

definition qty_sub :: "qty \<Rightarrow> qty \<Rightarrow> qty" where
  "qty_sub a b = Qty (base a - base b)"

lemmas qty_arith_defs = qty_add_def qty_sub_def

instantiation qty :: "{linorder, comm_monoid_add, minus}"
begin

definition less_eq_qty :: "qty \<Rightarrow> qty \<Rightarrow> bool" where
  "less_eq_qty a b \<longleftrightarrow> base a \<le> base b"

definition less_qty :: "qty \<Rightarrow> qty \<Rightarrow> bool" where
  "less_qty a b \<longleftrightarrow> base a < base b"

definition zero_qty :: qty where
  "zero_qty = Qty 0"

definition plus_qty :: "qty \<Rightarrow> qty \<Rightarrow> qty" where
  "plus_qty = qty_add"

definition minus_qty :: "qty \<Rightarrow> qty \<Rightarrow> qty" where
  "minus_qty = qty_sub"

instance
  by standard
    (auto simp: less_eq_qty_def less_qty_def zero_qty_def plus_qty_def minus_qty_def qty_arith_defs intro: qty.expand)

end

lemma qty_plus: "a + b = Qty (base a + base b)"
  by (simp add: plus_qty_def qty_add_def)

lemma qty_minus: "a - b = Qty (base a - base b)"
  by (simp add: minus_qty_def qty_sub_def)

definition qty_is_zero :: "qty \<Rightarrow> bool" where
  "qty_is_zero q \<longleftrightarrow> base q = 0"

definition qty_sum :: "qty list \<Rightarrow> qty" where
  "qty_sum qs = fold (\<lambda>q acc. acc + q) qs 0"

datatype ticks = Ticks (count: u64)

datatype notional = Notional (raw: u128)

instantiation notional :: linorder
begin

definition less_eq_notional :: "notional \<Rightarrow> notional \<Rightarrow> bool" where
  "less_eq_notional a b \<longleftrightarrow> raw a \<le> raw b"

definition less_notional :: "notional \<Rightarrow> notional \<Rightarrow> bool" where
  "less_notional a b \<longleftrightarrow> raw a < raw b"

instance
  by standard (auto simp: less_eq_notional_def less_notional_def intro: notional.expand)

end

text \<open>The number of base units of a quantity, for specifications.\<close>

abbreviation units :: "qty \<Rightarrow> nat" where
  "units q \<equiv> unat (base q)"

lemma Qty_simps [simp]:
  "Qty a \<le> Qty b \<longleftrightarrow> a \<le> b"
  "Qty a < Qty b \<longleftrightarrow> a < b"
  "Qty a + Qty b = Qty (a + b)"
  "Qty a - Qty b = Qty (a - b)"
  "base (p + q) = base p + base q"
  "base (p - q) = base p - base q"
  "base 0 = 0"
  by (simp_all add: less_eq_qty_def less_qty_def qty_plus qty_minus zero_qty_def)

lemma qty_is_zero_iff [simp]: "qty_is_zero q \<longleftrightarrow> q = 0"
  by (cases q) (simp add: qty_is_zero_def zero_qty_def)

lemma units_eq_0_iff [simp]: "units q = 0 \<longleftrightarrow> q = 0"
  by (cases q) (simp add: zero_qty_def unat_eq_zero)

lemma qty_le_units: "p \<le> q \<longleftrightarrow> units p \<le> units q"
  by (simp add: less_eq_qty_def word_le_nat_alt)

lemma qty_less_units: "p < q \<longleftrightarrow> units p < units q"
  by (simp add: less_qty_def word_less_nat_alt)

lemma qty_eq_units: "p = q \<longleftrightarrow> units p = units q"
  by (cases p; cases q) (simp add: word_unat_eq_iff)

lemma qty_pos_units: "q \<noteq> 0 \<longleftrightarrow> 0 < units q"
  using units_eq_0_iff [of q] by linarith

lemma units_add: "units p + units q < 2 ^ 64 \<Longrightarrow> units (p + q) = units p + units q"
  by (simp add: unat_add_exact)

lemma units_diff: "q \<le> p \<Longrightarrow> units (p - q) = units p - units q"
  by (simp add: qty_le_units unat_sub_exact)

lemma qty_sum_eq: "qty_sum qs = sum_list qs"
proof -
  have "fold (\<lambda>q acc. acc + q) qs a = a + sum_list qs" for a
    by (induction qs arbitrary: a) (simp_all add: add.assoc)
  then show ?thesis by (simp add: qty_sum_def)
qed

lemma units_sum_list:
  "sum_list (map units qs) < 2 ^ 64 \<Longrightarrow> units (sum_list qs) = sum_list (map units qs)"
  by (induction qs) (auto simp: unat_add_exact)

section \<open>Decimals\<close>

text \<open>
  \<open>mantissa\<close> and \<open>scale\<close> read a decimal as \<open>mantissa / 10 ^ scale\<close>;
  \<open>from_i128_with_scale\<close> builds one and panics (\<open>None\<close>) outside what the type can hold.
\<close>

record 'd decimal_ops =
  mantissa :: "'d \<Rightarrow> i128"
  decimal_scale :: "'d \<Rightarrow> u32"
  from_i128_with_scale :: "i128 \<Rightarrow> u32 \<Rightarrow> 'd option"

text \<open>
  The documented behaviour the code relies on: a mantissa has 96 bits and a scale is at most 28,
  and a number within those bounds is represented exactly.
\<close>

definition decimal_laws :: "'d decimal_ops \<Rightarrow> bool" where
  "decimal_laws D \<longleftrightarrow>
     (\<forall>d. \<bar>mantissa D d\<bar> < 2 ^ 96 \<and> unat (decimal_scale D d) \<le> 28) \<and>
     (\<forall>m s. \<bar>m\<bar> < 2 ^ 96 \<and> unat s \<le> 28 \<longrightarrow>
        (\<exists>d. from_i128_with_scale D m s = Some d \<and> mantissa D d = m \<and> decimal_scale D d = s))"

text \<open>
  An instance for closed examples: decimals as pairs of a 96-bit mantissa and a scale.
\<close>

typedef pair_decimal = "{(m :: int, s :: u32). \<bar>m\<bar> < 2 ^ 96 \<and> unat s \<le> 28}"
  by (intro exI [of _ "(0, 0)"]) simp

definition pair_mantissa :: "pair_decimal \<Rightarrow> i128" where
  "pair_mantissa d = fst (Rep_pair_decimal d)"

definition pair_scale :: "pair_decimal \<Rightarrow> u32" where
  "pair_scale d = snd (Rep_pair_decimal d)"

definition pair_decimal_of :: "i128 \<Rightarrow> u32 \<Rightarrow> pair_decimal" where
  "pair_decimal_of m s = Abs_pair_decimal (m, s)"

definition pair_decimal_ops :: "pair_decimal decimal_ops" where
  "pair_decimal_ops =
     \<lparr>mantissa = pair_mantissa, decimal_scale = pair_scale,
      from_i128_with_scale =
        (\<lambda>m s. if \<bar>m\<bar> < 2 ^ 96 \<and> unat s \<le> 28 then Some (pair_decimal_of m s) else None)\<rparr>"

lemma pair_decimal_of_simps [simp]:
  "\<bar>m\<bar> < 2 ^ 96 \<Longrightarrow> unat s \<le> 28 \<Longrightarrow> pair_mantissa (pair_decimal_of m s) = m"
  "\<bar>m\<bar> < 2 ^ 96 \<Longrightarrow> unat s \<le> 28 \<Longrightarrow> pair_scale (pair_decimal_of m s) = s"
  by (simp_all add: pair_mantissa_def pair_scale_def pair_decimal_of_def Abs_pair_decimal_inverse)

lemma pair_decimal_laws: "decimal_laws pair_decimal_ops"
proof -
  have "\<bar>pair_mantissa d\<bar> < 2 ^ 96 \<and> unat (pair_scale d) \<le> 28" for d
    using Rep_pair_decimal [of d] by (auto simp: pair_mantissa_def pair_scale_def)
  then show ?thesis
    by (auto simp: decimal_laws_def pair_decimal_ops_def)
qed

text \<open>\<open>10^n\<close> as an \<open>i128\<close>, and \<open>10u128.checked_pow(n)\<close>.\<close>

definition pow10 :: "u32 \<Rightarrow> i128 option" where
  "pow10 n =
     (if 38 < n then None
      else if i128_fits (10 ^ unat n) then Some (10 ^ unat n) else None)"

definition checked_pow10_u128 :: "u32 \<Rightarrow> u128 option" where
  "checked_pow10_u128 n = (if (10 :: nat) ^ unat n < 2 ^ 128 then Some (10 ^ unat n) else None)"

datatype sign = Negative | TooLarge

definition split_minor :: "'d decimal_ops \<Rightarrow> 'd \<Rightarrow> u32 \<Rightarrow> sign + (u64 \<times> bool)" where
  "split_minor D d scale =
     (let m = mantissa D d; value_scale = decimal_scale D d in
      if m < 0 then Inl Negative
      else
        case (if value_scale \<le> scale
              then do { shift \<leftarrow> pow10 (scale - value_scale);
                        quot \<leftarrow> checked_mul_i128 m shift;
                        Some (quot, 0) }
              else do { shift \<leftarrow> pow10 (value_scale - scale);
                        Some (m sdiv shift, m smod shift) }) of
          None \<Rightarrow> Inl TooLarge
        | Some (quot, rmd) \<Rightarrow>
            if 0 \<le> quot \<and> quot < 2 ^ 64
            then Inr (word_of_int quot, rmd \<noteq> 0)
            else Inl TooLarge)"

definition ceil_scaled :: "'d decimal_ops \<Rightarrow> 'd \<Rightarrow> u32 \<Rightarrow> u128 option" where
  "ceil_scaled D d scale =
     (if mantissa D d < 0 then None
      else
        let m = word_of_int (mantissa D d) :: u128; value_scale = decimal_scale D d in
        if value_scale \<le> scale
        then do { shift \<leftarrow> checked_pow10_u128 (scale - value_scale); checked_mul m shift }
        else do { shift \<leftarrow> checked_pow10_u128 (value_scale - scale);
                  (let quot = m div shift; rmd = m mod shift in
                   if 0 < rmd then checked_add quot 1 else Some quot) })"

section \<open>The specification of an instrument\<close>

datatype rounding = Down | Up | TowardPassive side

datatype 'd spec_error =
    PriceNegative 'd
  | PriceTooPrecise 'd u32
  | PriceOffTick 'd 'd
  | PriceOutOfRange 'd
  | QtyNegative 'd
  | QtyTooPrecise 'd u32
  | QtyOffLot 'd 'd
  | QtyOutOfRange 'd
  | InvalidSpec string

datatype reject_reason =
    PriceBelowMinimum price price
  | PriceAboveMaximum price price
  | QuantityBelowMinimum qty qty
  | QuantityAboveMaximum qty qty
  | NotionalBelowMinimum notional notional

record instrument_spec =
  price_scale :: u32
  qty_scale :: u32
  tick_size :: u64
  lot_size :: u64
  min_price :: price
  max_price :: "price option"
  min_qty :: qty
  max_qty :: "qty option"
  min_notional :: "notional option"

definition MAX_SCALE :: u32 where
  "MAX_SCALE = 28"

definition spec_new :: "u32 \<Rightarrow> u32 \<Rightarrow> u64 \<Rightarrow> u64 \<Rightarrow> 'd spec_error + instrument_spec" where
  "spec_new ps qs tick lot =
     (if MAX_SCALE < ps \<or> MAX_SCALE < qs then
        Inl (InvalidSpec ''scale exceeds the 28 decimal places rust_decimal can carry'')
      else if tick = 0 then Inl (InvalidSpec ''tick_size must be non-zero'')
      else if lot = 0 then Inl (InvalidSpec ''lot_size must be non-zero'')
      else Inr \<lparr>price_scale = ps, qty_scale = qs, tick_size = tick, lot_size = lot,
                min_price = Price tick, max_price = None,
                min_qty = Qty lot, max_qty = None, min_notional = None\<rparr>)"

text \<open>\<open>cents\<close> unwraps the result; \<open>None\<close> is the panic of \<open>expect\<close>.\<close>

definition cents :: "instrument_spec option" where
  "cents = (case (spec_new 2 0 1 1 :: unit spec_error + instrument_spec) of
              Inl _ \<Rightarrow> None | Inr spec \<Rightarrow> Some spec)"

definition with_price_range ::
    "instrument_spec \<Rightarrow> price \<Rightarrow> price option \<Rightarrow> 'd spec_error + instrument_spec" where
  "with_price_range spec mn mx =
     (if \<not> is_multiple_of (minor mn) (tick_size spec) then
        Inl (InvalidSpec ''min_price is not on the tick grid'')
      else
        case mx of
          None \<Rightarrow> Inr (spec\<lparr>min_price := mn, max_price := mx\<rparr>)
        | Some m \<Rightarrow>
            if \<not> is_multiple_of (minor m) (tick_size spec) then
              Inl (InvalidSpec ''max_price is not on the tick grid'')
            else if m < mn then Inl (InvalidSpec ''max_price below min_price'')
            else Inr (spec\<lparr>min_price := mn, max_price := mx\<rparr>))"

definition with_min_notional ::
    "'d decimal_ops \<Rightarrow> instrument_spec \<Rightarrow> 'd \<Rightarrow> 'd spec_error + instrument_spec" where
  "with_min_notional D spec d =
     (case checked_add (price_scale spec) (qty_scale spec) of
        None \<Rightarrow> Inl (InvalidSpec ''price_scale + qty_scale overflows'')
      | Some scale \<Rightarrow>
          (case ceil_scaled D d scale of
             None \<Rightarrow> Inl (InvalidSpec
               ''min_notional is negative or too large for the notional lattice'')
           | Some r \<Rightarrow> Inr (spec\<lparr>min_notional := Some (Notional r)\<rparr>)))"

definition with_qty_range ::
    "instrument_spec \<Rightarrow> qty \<Rightarrow> qty option \<Rightarrow> 'd spec_error + instrument_spec" where
  "with_qty_range spec mn mx =
     (if \<not> is_multiple_of (base mn) (lot_size spec) then
        Inl (InvalidSpec ''min_qty is not on the lot grid'')
      else
        case mx of
          None \<Rightarrow> Inr (spec\<lparr>min_qty := mn, max_qty := mx\<rparr>)
        | Some m \<Rightarrow>
            if \<not> is_multiple_of (base m) (lot_size spec) then
              Inl (InvalidSpec ''max_qty is not on the lot grid'')
            else if m < mn then Inl (InvalidSpec ''max_qty below min_qty'')
            else Inr (spec\<lparr>min_qty := mn, max_qty := mx\<rparr>))"

section \<open>Onto and off the grid\<close>

definition to_decimal :: "'d decimal_ops \<Rightarrow> instrument_spec \<Rightarrow> price \<Rightarrow> 'd option" where
  "to_decimal D spec p = from_i128_with_scale D (uint (minor p)) (price_scale spec)"

definition qty_to_decimal :: "'d decimal_ops \<Rightarrow> instrument_spec \<Rightarrow> qty \<Rightarrow> 'd option" where
  "qty_to_decimal D spec q = from_i128_with_scale D (uint (base q)) (qty_scale spec)"

definition tick_decimal :: "'d decimal_ops \<Rightarrow> instrument_spec \<Rightarrow> 'd option" where
  "tick_decimal D spec = from_i128_with_scale D (uint (tick_size spec)) (price_scale spec)"

definition lot_decimal :: "'d decimal_ops \<Rightarrow> instrument_spec \<Rightarrow> 'd option" where
  "lot_decimal D spec = from_i128_with_scale D (uint (lot_size spec)) (qty_scale spec)"

definition price_from_minor ::
    "'d decimal_ops \<Rightarrow> instrument_spec \<Rightarrow> u64 \<Rightarrow> ('d spec_error + price) option" where
  "price_from_minor D spec m =
     (if \<not> is_multiple_of m (tick_size spec) then
        do { d \<leftarrow> from_i128_with_scale D (uint m) (price_scale spec);
             t \<leftarrow> tick_decimal D spec;
             Some (Inl (PriceOffTick d t)) }
      else Some (Inr (Price m)))"

definition spec_price ::
    "'d decimal_ops \<Rightarrow> instrument_spec \<Rightarrow> 'd \<Rightarrow> ('d spec_error + price) option" where
  "spec_price D spec d =
     (case split_minor D d (price_scale spec) of
        Inr (m, False) \<Rightarrow>
          do { r \<leftarrow> price_from_minor D spec m;
               (case r of
                  Inr p \<Rightarrow> Some (Inr p)
                | Inl _ \<Rightarrow> do { t \<leftarrow> tick_decimal D spec; Some (Inl (PriceOffTick d t)) }) }
      | Inr (_, True) \<Rightarrow> Some (Inl (PriceTooPrecise d (price_scale spec)))
      | Inl Negative \<Rightarrow> Some (Inl (PriceNegative d))
      | Inl TooLarge \<Rightarrow> Some (Inl (PriceOutOfRange d)))"

definition qty_from_base ::
    "'d decimal_ops \<Rightarrow> instrument_spec \<Rightarrow> u64 \<Rightarrow> ('d spec_error + qty) option" where
  "qty_from_base D spec b =
     (if \<not> is_multiple_of b (lot_size spec) then
        do { d \<leftarrow> from_i128_with_scale D (uint b) (qty_scale spec);
             l \<leftarrow> lot_decimal D spec;
             Some (Inl (QtyOffLot d l)) }
      else Some (Inr (Qty b)))"

definition spec_qty ::
    "'d decimal_ops \<Rightarrow> instrument_spec \<Rightarrow> 'd \<Rightarrow> ('d spec_error + qty) option" where
  "spec_qty D spec d =
     (case split_minor D d (qty_scale spec) of
        Inr (b, False) \<Rightarrow>
          do { r \<leftarrow> qty_from_base D spec b;
               (case r of
                  Inr q \<Rightarrow> Some (Inr q)
                | Inl _ \<Rightarrow> do { l \<leftarrow> lot_decimal D spec; Some (Inl (QtyOffLot d l)) }) }
      | Inr (_, True) \<Rightarrow> Some (Inl (QtyTooPrecise d (qty_scale spec)))
      | Inl Negative \<Rightarrow> Some (Inl (QtyNegative d))
      | Inl TooLarge \<Rightarrow> Some (Inl (QtyOutOfRange d)))"

definition round_price ::
    "'d decimal_ops \<Rightarrow> instrument_spec \<Rightarrow> 'd \<Rightarrow> rounding \<Rightarrow> 'd spec_error + price" where
  "round_price D spec d rounding =
     (case split_minor D d (price_scale spec) of
        Inl Negative \<Rightarrow> Inl (PriceNegative d)
      | Inl TooLarge \<Rightarrow> Inl (PriceOutOfRange d)
      | Inr (floor_minor, has_rmd) \<Rightarrow>
          let up = (case rounding of
                      Down \<Rightarrow> False
                    | Up \<Rightarrow> True
                    | TowardPassive Bid \<Rightarrow> False
                    | TowardPassive Ask \<Rightarrow> True);
              down_tick = floor_minor div tick_size spec;
              exact = is_multiple_of floor_minor (tick_size spec) \<and> \<not> has_rmd
          in if up \<and> \<not> exact then
               (case do { t \<leftarrow> checked_add down_tick 1; checked_mul t (tick_size spec) } of
                  None \<Rightarrow> Inl (PriceOutOfRange d)
                | Some m \<Rightarrow> Inr (Price m))
             else Inr (Price (down_tick * tick_size spec)))"

section \<open>Grid arithmetic and admission\<close>

definition ticks_between :: "instrument_spec \<Rightarrow> price \<Rightarrow> price \<Rightarrow> ticks" where
  "ticks_between spec a b = Ticks (abs_diff (minor a) (minor b) div tick_size spec)"

definition spec_notional :: "price \<Rightarrow> qty \<Rightarrow> notional" where
  "spec_notional p q = Notional (u128_from (minor p) * u128_from (base q))"

definition admits_price :: "instrument_spec \<Rightarrow> price \<Rightarrow> reject_reason + unit" where
  "admits_price spec p =
     (if p < min_price spec then Inl (PriceBelowMinimum p (min_price spec))
      else case max_price spec of
             Some mx \<Rightarrow> if mx < p then Inl (PriceAboveMaximum p mx) else Inr ()
           | None \<Rightarrow> Inr ())"

definition admits_qty :: "instrument_spec \<Rightarrow> qty \<Rightarrow> reject_reason + unit" where
  "admits_qty spec q =
     (if q < min_qty spec then Inl (QuantityBelowMinimum q (min_qty spec))
      else case max_qty spec of
             Some mx \<Rightarrow> if mx < q then Inl (QuantityAboveMaximum q mx) else Inr ()
           | None \<Rightarrow> Inr ())"

definition admits_notional :: "instrument_spec \<Rightarrow> price \<Rightarrow> qty \<Rightarrow> reject_reason + unit" where
  "admits_notional spec p q =
     (case min_notional spec of
        None \<Rightarrow> Inr ()
      | Some mn \<Rightarrow>
          let n = spec_notional p q in
          if n < mn then Inl (NotionalBelowMinimum n mn) else Inr ())"

text \<open>\<open>notional.0 as i128\<close> reinterprets the bits, so the upper half of \<open>u128\<close> turns negative.\<close>

definition notional_to_decimal ::
    "'d decimal_ops \<Rightarrow> instrument_spec \<Rightarrow> notional \<Rightarrow> 'd option" where
  "notional_to_decimal D spec n =
     from_i128_with_scale D (sint (raw n)) (price_scale spec + qty_scale spec)"

end
