(* ===== verification/Instrument_Facts.thy ===== *)
theory Instrument_Facts
  imports Instrument
begin

text \<open>
  What the instrument module promises: every constructed specification is well formed, the
  conversions between decimals and the grid are exact, rounding moves to the neighbouring grid
  point in the named direction, and the minimum-notional rule compares exact values.
\<close>

section \<open>Specifications are well formed\<close>

definition spec_ok :: "instrument_spec \<Rightarrow> bool" where
  "spec_ok spec \<longleftrightarrow>
     unat (price_scale spec) \<le> 28 \<and> unat (qty_scale spec) \<le> 28 \<and>
     tick_size spec \<noteq> 0 \<and> lot_size spec \<noteq> 0 \<and>
     is_multiple_of (minor (min_price spec)) (tick_size spec) \<and>
     (case max_price spec of None \<Rightarrow> True
      | Some mx \<Rightarrow> is_multiple_of (minor mx) (tick_size spec) \<and> min_price spec \<le> mx) \<and>
     is_multiple_of (base (min_qty spec)) (lot_size spec) \<and>
     (case max_qty spec of None \<Rightarrow> True
      | Some mx \<Rightarrow> is_multiple_of (base mx) (lot_size spec) \<and> min_qty spec \<le> mx)"

lemma spec_ok_new: "spec_new ps qs tick lot = Inr spec \<Longrightarrow> spec_ok spec"
  by (auto simp: spec_new_def spec_ok_def MAX_SCALE_def is_multiple_of_def word_less_nat_alt
      split: if_splits)

lemma spec_ok_with_price_range:
  "spec_ok spec \<Longrightarrow> with_price_range spec mn mx = Inr spec' \<Longrightarrow> spec_ok spec'"
  by (auto simp: with_price_range_def spec_ok_def split: if_splits option.splits)

lemma spec_ok_with_qty_range:
  "spec_ok spec \<Longrightarrow> with_qty_range spec mn mx = Inr spec' \<Longrightarrow> spec_ok spec'"
  by (auto simp: with_qty_range_def spec_ok_def split: if_splits option.splits)

lemma spec_ok_with_min_notional:
  "spec_ok spec \<Longrightarrow> with_min_notional D spec d = Inr spec' \<Longrightarrow> spec_ok spec'"
  by (auto simp: with_min_notional_def spec_ok_def split: option.splits)

lemma cents_ok: "\<exists>spec. cents = Some spec \<and> spec_ok spec \<and> lot_size spec = 1 \<and> tick_size spec = 1"
  by (simp add: cents_def spec_new_def MAX_SCALE_def spec_ok_def is_multiple_of_def)

section \<open>The conversions are exact\<close>

lemma i128_fits_nonneg: "0 \<le> n \<Longrightarrow> i128_fits n \<longleftrightarrow> n < 2 ^ 127"
  unfolding i128_fits_def by (auto intro: order_trans [of _ 0])

lemma pow10_small: "unat n \<le> 28 \<Longrightarrow> pow10 n = Some (10 ^ unat n)"
proof -
  assume n: "unat n \<le> 28"
  then have "(10 :: int) ^ unat n \<le> 10 ^ 28" by (intro power_increasing) auto
  then have "(10 :: int) ^ unat n < 2 ^ 127" by (rule order.strict_trans1) simp
  then have "i128_fits (10 ^ unat n)" by (simp add: i128_fits_nonneg)
  with n show ?thesis by (simp add: pow10_def word_less_nat_alt)
qed

lemma split_minor_correct:
  fixes d :: "'d"
  assumes laws: "decimal_laws D" and sc: "unat scale \<le> 28"
  defines "m \<equiv> mantissa D d"
  defines "V \<equiv> m * 10 ^ unat scale" and "den \<equiv> (10 :: int) ^ unat (decimal_scale D d)"
  shows "split_minor D d scale =
    (if m < 0 then Inl Negative
     else if V div den < 2 ^ 64 then Inr (word_of_int (V div den), V mod den \<noteq> 0)
     else Inl TooLarge)"
proof (cases "m < 0")
  case True
  then show ?thesis by (simp add: split_minor_def m_def)
next
  case m: False
  let ?vs = "decimal_scale D d"
  have vs: "unat ?vs \<le> 28" using laws by (simp add: decimal_laws_def)
  show ?thesis
  proof (cases "?vs \<le> scale")
    case True
    define k where "k = unat scale - unat ?vs"
    have k: "unat (scale - ?vs) = k" using True by (simp add: k_def unat_sub)
    have "unat scale = k + unat ?vs" using True by (simp add: k_def word_le_nat_alt)
    then have V: "V = (m * 10 ^ k) * den" by (simp add: V_def den_def power_add)
    have den: "den \<noteq> 0" by (simp add: den_def)
    have "pow10 (scale - ?vs) = Some (10 ^ k)" using k sc by (simp add: pow10_small k_def)
    moreover have "0 \<le> m * 10 ^ k" using m by simp
    ultimately show ?thesis
      using True m V den
      by (auto simp: split_minor_def m_def [symmetric] checked_mul_i128_def i128_fits_nonneg Let_def)
  next
    case False
    define k where "k = unat ?vs - unat scale"
    have le: "scale \<le> ?vs" using False by simp
    have k: "unat (?vs - scale) = k" using le by (simp add: k_def unat_sub)
    have "unat ?vs = k + unat scale" using le by (simp add: k_def word_le_nat_alt)
    then have den: "den = 10 ^ k * 10 ^ unat scale" by (simp add: den_def power_add)
    have "V div den = m div 10 ^ k" and "V mod den = (m mod 10 ^ k) * 10 ^ unat scale"
      by (simp_all add: V_def den flip: mult_mod_left)
    moreover have "pow10 (?vs - scale) = Some (10 ^ k)" using k vs by (simp add: pow10_small k_def)
    moreover have "m sdiv 10 ^ k = m div 10 ^ k" and "m smod 10 ^ k = m mod 10 ^ k"
      using m by (auto simp: signed_divide_int_def signed_modulo_int_def sgn_if
          minus_div_mult_eq_mod mult.commute)
    moreover have "0 \<le> m div 10 ^ k" using m by (simp add: pos_imp_zdiv_nonneg_iff)
    ultimately show ?thesis
      using False m by (simp add: split_minor_def m_def [symmetric] Let_def)
  qed
qed

text \<open>
  The value of a decimal in minor units of a scale, as the fraction \<open>scaled D d s / 10 ^ s'\<close>:
  the two integers a specification compares.
\<close>

definition scaled :: "'d decimal_ops \<Rightarrow> 'd \<Rightarrow> u32 \<Rightarrow> int" where
  "scaled D d scale = mantissa D d * 10 ^ unat scale"

definition denom :: "'d decimal_ops \<Rightarrow> 'd \<Rightarrow> int" where
  "denom D d = 10 ^ unat (decimal_scale D d)"

lemma denom_pos [simp]: "0 < denom D d" "denom D d \<noteq> 0" "0 \<le> denom D d"
  by (simp_all add: denom_def)

lemma scaled_neg_iff [simp]: "scaled D d scale < 0 \<longleftrightarrow> mantissa D d < 0"
  by (simp add: scaled_def mult_less_0_iff)

lemma scaled_nonneg_iff [simp]: "0 \<le> scaled D d scale \<longleftrightarrow> 0 \<le> mantissa D d"
  using scaled_neg_iff [of D d scale] by linarith

lemma split_minor_eq:
  assumes "decimal_laws D" and "unat scale \<le> 28"
  shows "split_minor D d scale =
    (if mantissa D d < 0 then Inl Negative
     else if scaled D d scale div denom D d < 2 ^ 64
       then Inr (word_of_int (scaled D d scale div denom D d), \<not> denom D d dvd scaled D d scale)
     else Inl TooLarge)"
  using split_minor_correct [OF assms, of d] by (simp add: scaled_def denom_def dvd_eq_mod_eq_0)

lemma decimal_of_int:
  "decimal_laws D \<Longrightarrow> \<bar>m\<bar> < 2 ^ 96 \<Longrightarrow> unat s \<le> 28 \<Longrightarrow>
    \<exists>d. from_i128_with_scale D m s = Some d \<and> mantissa D d = m \<and> decimal_scale D d = s"
  unfolding decimal_laws_def by blast

lemma decimal_of_u64:
  assumes "decimal_laws D" and "unat s \<le> 28"
  shows "\<exists>d. from_i128_with_scale D (uint (w :: u64)) s = Some d \<and> mantissa D d = uint w \<and> decimal_scale D d = s"
proof -
  have "uint w < 2 ^ 64" using uint_bounded [of w] by simp
  then have "\<bar>uint w\<bar> < 2 ^ 96" by simp
  with assms show ?thesis by (simp add: decimal_laws_def)
qed

lemma split_minor_exact_iff:
  assumes "decimal_laws D" and "unat scale \<le> 28"
  shows "split_minor D d scale = Inr (w, False) \<longleftrightarrow> scaled D d scale = uint w * denom D d"
proof -
  let ?V = "scaled D d scale" and ?den = "denom D d"
  have w: "uint w < 2 ^ 64" using uint_bounded [of w] by simp
  have "\<not> mantissa D d < 0 \<and> ?V div ?den < 2 ^ 64 \<and> ?den dvd ?V \<and> word_of_int (?V div ?den) = w
      \<longleftrightarrow> ?V = uint w * ?den" (is "?L \<longleftrightarrow> ?R")
  proof
    assume ?L
    then have "0 \<le> ?V" using scaled_neg_iff [of D d scale] by linarith
    with \<open>?L\<close> have "uint w = ?V div ?den" by (auto simp: uint_word_of_int pos_imp_zdiv_nonneg_iff)
    with \<open>?L\<close> show ?R by simp
  next
    assume R: ?R
    then have "0 \<le> ?V" by simp
    then have "\<not> mantissa D d < 0" using scaled_neg_iff [of D d scale] by linarith
    with R w show ?L by simp
  qed
  then show ?thesis by (auto simp: split_minor_eq [OF assms])
qed

lemma price_from_minor_cases:
  assumes "decimal_laws D" and "spec_ok spec"
  obtains e t where "tick_decimal D spec = Some t"
    and "\<And>m. price_from_minor D spec m =
      Some (if is_multiple_of m (tick_size spec) then Inr (Price m) else Inl (e m))"
proof -
  have ps: "unat (price_scale spec) \<le> 28" using assms by (simp add: spec_ok_def)
  obtain t where t: "tick_decimal D spec = Some t"
    using decimal_of_u64 [OF assms(1) ps] by (auto simp: tick_decimal_def)
  have "\<exists>e. price_from_minor D spec m =
      Some (if is_multiple_of m (tick_size spec) then Inr (Price m) else Inl e)" for m
    using decimal_of_u64 [OF assms(1) ps, of m] t by (auto simp: price_from_minor_def)
  with t that show ?thesis by metis
qed

lemma qty_from_base_cases:
  assumes "decimal_laws D" and "spec_ok spec"
  obtains e l where "lot_decimal D spec = Some l"
    and "\<And>b. qty_from_base D spec b =
      Some (if is_multiple_of b (lot_size spec) then Inr (Qty b) else Inl (e b))"
proof -
  have qs: "unat (qty_scale spec) \<le> 28" using assms by (simp add: spec_ok_def)
  obtain l where l: "lot_decimal D spec = Some l"
    using decimal_of_u64 [OF assms(1) qs] by (auto simp: lot_decimal_def)
  have "\<exists>e. qty_from_base D spec b =
      Some (if is_multiple_of b (lot_size spec) then Inr (Qty b) else Inl e)" for b
    using decimal_of_u64 [OF assms(1) qs, of b] l by (auto simp: qty_from_base_def)
  with l that show ?thesis by metis
qed

text \<open>
  A decimal converts to the price \<open>p\<close> exactly when it denotes the same number and \<open>p\<close> is on
  the tick grid; no conversion panics.
\<close>

lemma spec_price_iff:
  assumes "decimal_laws D" and "spec_ok spec"
  shows "spec_price D spec d = Some (Inr p) \<longleftrightarrow>
    scaled D d (price_scale spec) = uint (minor p) * denom D d \<and>
    is_multiple_of (minor p) (tick_size spec)"
proof -
  have ps: "unat (price_scale spec) \<le> 28" using assms by (simp add: spec_ok_def)
  obtain e t where "tick_decimal D spec = Some t" and "\<And>m. price_from_minor D spec m =
      Some (if is_multiple_of m (tick_size spec) then Inr (Price m) else Inl (e m))"
    using price_from_minor_cases [OF assms] by blast
  then have "spec_price D spec d = Some (Inr p) \<longleftrightarrow>
      split_minor D d (price_scale spec) = Inr (minor p, False) \<and>
      is_multiple_of (minor p) (tick_size spec)"
    by (cases p) (auto simp: spec_price_def split: sum.splits sign.splits bool.splits prod.splits)
  then show ?thesis by (simp add: split_minor_exact_iff [OF assms(1) ps])
qed

lemma spec_qty_iff:
  assumes "decimal_laws D" and "spec_ok spec"
  shows "spec_qty D spec d = Some (Inr q) \<longleftrightarrow>
    scaled D d (qty_scale spec) = uint (base q) * denom D d \<and>
    is_multiple_of (base q) (lot_size spec)"
proof -
  have qs: "unat (qty_scale spec) \<le> 28" using assms by (simp add: spec_ok_def)
  obtain e l where "lot_decimal D spec = Some l" and "\<And>b. qty_from_base D spec b =
      Some (if is_multiple_of b (lot_size spec) then Inr (Qty b) else Inl (e b))"
    using qty_from_base_cases [OF assms] by blast
  then have "spec_qty D spec d = Some (Inr q) \<longleftrightarrow>
      split_minor D d (qty_scale spec) = Inr (base q, False) \<and>
      is_multiple_of (base q) (lot_size spec)"
    by (cases q) (auto simp: spec_qty_def split: sum.splits sign.splits bool.splits prod.splits)
  then show ?thesis by (simp add: split_minor_exact_iff [OF assms(1) qs])
qed

lemma spec_price_total:
  assumes "decimal_laws D" and "spec_ok spec"
  shows "spec_price D spec d \<noteq> None"
proof -
  obtain e t where "tick_decimal D spec = Some t" and "\<And>m. price_from_minor D spec m =
      Some (if is_multiple_of m (tick_size spec) then Inr (Price m) else Inl (e m))"
    using price_from_minor_cases [OF assms] by blast
  then show ?thesis
    by (auto simp: spec_price_def split: sum.splits sign.splits bool.splits prod.splits)
qed

lemma spec_qty_total:
  assumes "decimal_laws D" and "spec_ok spec"
  shows "spec_qty D spec d \<noteq> None"
proof -
  obtain e l where "lot_decimal D spec = Some l" and "\<And>b. qty_from_base D spec b =
      Some (if is_multiple_of b (lot_size spec) then Inr (Qty b) else Inl (e b))"
    using qty_from_base_cases [OF assms] by blast
  then show ?thesis
    by (auto simp: spec_qty_def split: sum.splits sign.splits bool.splits prod.splits)
qed

section \<open>Rounding\<close>

definition rounds_up :: "rounding \<Rightarrow> bool" where
  "rounds_up r \<longleftrightarrow> r = Up \<or> r = TowardPassive Ask"

lemma round_price_unfold:
  assumes "split_minor D d (price_scale spec) = Inr (w, rmd)"
  shows "round_price D spec d r =
    (if rounds_up r \<and> \<not> (is_multiple_of w (tick_size spec) \<and> \<not> rmd) then
       (case do { t \<leftarrow> checked_add (w div tick_size spec) 1; checked_mul t (tick_size spec) } of
          None \<Rightarrow> Inl (PriceOutOfRange d) | Some m \<Rightarrow> Inr (Price m))
     else Inr (Price (w div tick_size spec * tick_size spec)))"
  by (cases r) (auto simp: round_price_def assms rounds_up_def Let_def split: side.splits)

lemma unat_div_mult [simp]: "unat (w div t * t) = unat w div unat t * unat t"
  for w t :: "'a::len word"
proof -
  have "unat w div unat t * unat t < 2 ^ LENGTH('a)"
    by (rule order.strict_trans1 [OF div_times_less_eq_dividend unsigned_less])
  then show ?thesis by (simp add: unat_mult_exact unat_div)
qed

lemma floor_bounds:
  fixes V den :: int
  assumes "0 < den"
  shows "V div den * den \<le> V \<and> V < (V div den + 1) * den \<and> (\<not> den dvd V \<longrightarrow> V div den * den < V)"
proof -
  have V: "V = V div den * den + V mod den" by simp
  have "V mod den < den" and "0 \<le> V mod den" using assms by simp_all
  moreover have "V mod den \<noteq> 0" if "\<not> den dvd V" using that by (simp add: dvd_eq_mod_eq_0)
  moreover have "(V div den + 1) * den = V div den * den + den" by (simp add: distrib_right)
  ultimately show ?thesis using V by linarith
qed

text \<open>The grid point a rounding must produce, with the value lying between it and its neighbour.\<close>

definition rounded_to :: "int \<Rightarrow> int \<Rightarrow> int \<Rightarrow> bool \<Rightarrow> int \<Rightarrow> bool" where
  "rounded_to V den tick up r \<longleftrightarrow>
     tick dvd r \<and>
     (if up then (r - tick) * den < V \<and> V \<le> r * den
      else r * den \<le> V \<and> V < (r + tick) * den)"

lemma rounded_to_down:
  fixes w tick :: nat
  assumes "0 < den" and "0 < tick" and w: "int w * den \<le> V" "V < (int w + 1) * den"
  shows "rounded_to V den (int tick) False (int (w div tick * tick))"
proof -
  let ?r = "w div tick * tick"
  have r: "?r \<le> w" "w + 1 \<le> ?r + tick"
    using assms(2) dividend_less_div_times [of tick w] by (simp_all add: Suc_le_eq)
  have "int ?r \<le> int w" using r(1) by (simp only: of_nat_le_iff)
  then have "int ?r * den \<le> int w * den" using assms(1) by (intro mult_right_mono) auto
  moreover have "(int w + 1) * den \<le> (int ?r + int tick) * den"
    using r(2) assms(1) by (intro mult_right_mono) (auto simp del: of_nat_mult)
  ultimately show ?thesis using w by (simp add: rounded_to_def del: of_nat_mult)
qed

lemma rounded_to_up:
  fixes w tick :: nat
  assumes "0 < den" and "0 < tick" and w: "int w * den \<le> V" "V < (int w + 1) * den"
    and inexact: "\<not> (tick dvd w \<and> V = int w * den)"
  shows "rounded_to V den (int tick) True (int ((w div tick + 1) * tick))"
proof -
  let ?r = "w div tick * tick"
  have r: "?r \<le> w" "w + 1 \<le> ?r + tick"
    using assms(2) dividend_less_div_times [of tick w] by (simp_all add: Suc_le_eq)
  have "int ?r \<le> int w" using r(1) by (simp only: of_nat_le_iff)
  then have le: "int ?r * den \<le> int w * den" using assms(1) by (intro mult_right_mono) auto
  have "int ?r * den < V"
  proof (cases "tick dvd w")
    case True
    with inexact w le show ?thesis by simp
  next
    case False
    then have "?r \<noteq> w" by (metis dvd_triv_right)
    with r(1) have "int ?r < int w" by (simp only: of_nat_less_iff)
    then have "int ?r * den < int w * den" using assms(1) by simp
    with w show ?thesis by linarith
  qed
  moreover have "(int w + 1) * den \<le> (int ?r + int tick) * den"
    using r(2) assms(1) by (intro mult_right_mono) (auto simp del: of_nat_mult)
  moreover have up: "int ((w div tick + 1) * tick) = int ?r + int tick" by (simp add: distrib_right)
  moreover have "int tick dvd int ?r + int tick" by simp
  ultimately show ?thesis unfolding rounded_to_def up using w by simp
qed

lemma rounded_to_exact:
  "0 < den \<Longrightarrow> 0 < tick \<Longrightarrow> tick dvd r \<Longrightarrow> rounded_to (r * den) den tick up r"
  by (simp add: rounded_to_def distrib_right left_diff_distrib)

lemma split_minor_Inr:
  assumes "decimal_laws D" and "unat scale \<le> 28" and "split_minor D d scale = Inr (w, rmd)"
  shows "uint w = scaled D d scale div denom D d" and "rmd \<longleftrightarrow> \<not> denom D d dvd scaled D d scale"
proof -
  have "\<not> scaled D d scale < 0" and lt: "scaled D d scale div denom D d < 2 ^ 64"
    using assms by (auto simp: split_minor_eq split: if_splits)
  then have "0 \<le> scaled D d scale div denom D d" by (simp add: pos_imp_zdiv_nonneg_iff)
  with assms lt show "uint w = scaled D d scale div denom D d"
    by (auto simp: split_minor_eq uint_word_of_int split: if_splits)
  show "rmd \<longleftrightarrow> \<not> denom D d dvd scaled D d scale"
    using assms by (auto simp: split_minor_eq split: if_splits)
qed

lemma round_price_sound:
  assumes laws: "decimal_laws D" and ok: "spec_ok spec"
    and ret: "round_price D spec d r = Inr p"
  shows "rounded_to (scaled D d (price_scale spec)) (denom D d) (uint (tick_size spec))
    (rounds_up r) (uint (minor p))"
proof -
  let ?V = "scaled D d (price_scale spec)" and ?den = "denom D d" and ?t = "tick_size spec"
  have ps: "unat (price_scale spec) \<le> 28" and t: "0 < unat ?t"
    using ok by (simp_all add: spec_ok_def unat_gt_0)
  from ret obtain w rmd where split: "split_minor D d (price_scale spec) = Inr (w, rmd)"
    by (auto simp: round_price_def split: sum.splits sign.splits)
  note w = split_minor_Inr [OF laws ps split]
  have low: "int (unat w) * ?den \<le> ?V" "?V < (int (unat w) + 1) * ?den"
    using floor_bounds [OF denom_pos(1), of ?V D d] by (simp_all add: w(1))
  have exact: "is_multiple_of w ?t \<and> \<not> rmd \<longleftrightarrow> unat ?t dvd unat w \<and> ?V = int (unat w) * ?den"
    using w floor_bounds [OF denom_pos(1), of ?V D d] by (auto simp: is_multiple_of_unat)
  show ?thesis
  proof (cases "rounds_up r \<and> \<not> (is_multiple_of w ?t \<and> \<not> rmd)")
    case True
    with ret split obtain c m where "checked_add (w div ?t) 1 = Some c" "checked_mul c ?t = Some m"
      and p: "p = Price m"
      by (auto simp: round_price_unfold split: option.splits Option.bind_splits)
    then have "unat m = (unat w div unat ?t + 1) * unat ?t"
      by (auto dest!: checked_add_unat checked_mul_unat simp: unat_div)
    then have "uint m = int ((unat w div unat ?t + 1) * unat ?t)" by (metis uint_nat)
    with True p exact show ?thesis
      using rounded_to_up [OF denom_pos(1) t low] by (simp del: of_nat_mult of_nat_add)
  next
    case False
    with ret split have p: "p = Price (w div ?t * ?t)" by (auto simp: round_price_unfold)
    show ?thesis
    proof (cases "rounds_up r")
      case True
      with False exact have "unat ?t dvd unat w" "?V = int (unat w) * ?den" by auto
      then have "w div ?t * ?t = w" by (simp add: word_unat_eq_iff)
      moreover have "uint ?t dvd uint w"
        using \<open>unat ?t dvd unat w\<close> by (metis int_dvd_int_iff uint_nat)
      moreover have "0 < uint ?t" using t by (metis of_nat_0_less_iff uint_nat)
      ultimately show ?thesis
        using \<open>?V = int (unat w) * ?den\<close> p by (simp add: rounded_to_exact)
    next
      case up: False
      have "uint (w div ?t * ?t) = int (unat w div unat ?t * unat ?t)"
        by (metis uint_nat unat_div_mult)
      with up p show ?thesis
        using rounded_to_down [OF denom_pos(1) t low] by (simp del: of_nat_mult)
    qed
  qed
qed

section \<open>Ticks and notionals\<close>

lemma spec_notional_exact: "unat (raw (spec_notional p q)) = unat (minor p) * unat (base q)"
proof -
  have "unat (minor p) * unat (base q) \<le> (2 ^ 64 - 1) * (2 ^ 64 - 1)"
    by (intro mult_le_mono) auto
  also have "\<dots> < 2 ^ 128" by simp
  finally show ?thesis by (simp add: spec_notional_def unat_mult_exact)
qed

lemma checked_pow10_u128_Some:
  assumes "checked_pow10_u128 n = Some s"
  shows "unat s = 10 ^ unat n"
proof -
  have "s = of_nat (10 ^ unat n)" and "(10 :: nat) ^ unat n < 2 ^ LENGTH(128)"
    using assms by (auto simp: checked_pow10_u128_def split: if_splits)
  then show ?thesis by (simp only: unat_of_nat mod_less)
qed

lemma ceil_quotient:
  fixes m shift :: "'a::len word"
  assumes "shift \<noteq> 0"
    and "(if 0 < m mod shift then checked_add (m div shift) 1 else Some (m div shift)) = Some r"
  shows "unat m \<le> x * unat shift \<longleftrightarrow> unat r \<le> x"
proof -
  have s: "0 < unat shift" using assms(1) by (simp add: unat_gt_0)
  have r: "unat r = (if unat m mod unat shift = 0 then unat m div unat shift
      else unat m div unat shift + 1)"
    using assms(2) checked_add_unat [of "m div shift" 1 r]
    by (auto simp: word_gt_0 unat_div unat_eq_zero [symmetric] unat_mod split: if_splits)
  have m: "unat m = unat m div unat shift * unat shift + unat m mod unat shift" by simp
  show ?thesis
  proof (cases "unat m mod unat shift = 0")
    case True
    with m have "unat m = unat r * unat shift" using r by simp
    with s show ?thesis by simp
  next
    case False
    have "unat m \<le> x * unat shift \<longleftrightarrow> unat m div unat shift < x"
    proof
      assume "unat m \<le> x * unat shift"
      with False m have "unat m div unat shift * unat shift < x * unat shift" by linarith
      then show "unat m div unat shift < x" using s by simp
    next
      assume "unat m div unat shift < x"
      then have "(unat m div unat shift + 1) * unat shift \<le> x * unat shift"
        by (intro mult_right_mono) auto
      moreover have "unat m mod unat shift < unat shift" using s by simp
      ultimately show "unat m \<le> x * unat shift"
        using m unfolding distrib_right mult_1 by linarith
    qed
    with False r show ?thesis by (simp add: Suc_le_eq)
  qed
qed

lemma ceil_scaled_iff:
  assumes "decimal_laws D" and "ceil_scaled D d scale = Some r"
  shows "scaled D d scale \<le> int x * denom D d \<longleftrightarrow> unat r \<le> x"
proof -
  let ?m = "word_of_int (mantissa D d) :: u128" and ?vs = "decimal_scale D d"
  have nn: "0 \<le> mantissa D d" using assms(2) by (simp add: ceil_scaled_def split: if_splits)
  have "\<bar>mantissa D d\<bar> < 2 ^ 96" using assms(1) by (simp add: decimal_laws_def)
  with nn have "uint ?m = mantissa D d" by (simp add: uint_word_of_int)
  then have m: "int (unat ?m) = mantissa D d" by simp
  show ?thesis
  proof (cases "?vs \<le> scale")
    case True
    then obtain s where "checked_pow10_u128 (scale - ?vs) = Some s" and "checked_mul ?m s = Some r"
      using assms(2) nn by (auto simp: ceil_scaled_def Let_def split: Option.bind_splits)
    then have r: "unat r = unat ?m * 10 ^ (unat scale - unat ?vs)"
      using True by (auto dest!: checked_pow10_u128_Some checked_mul_unat simp: unat_sub)
    have "unat scale = (unat scale - unat ?vs) + unat ?vs" using True by (simp add: word_le_nat_alt)
    then have "(10 :: int) ^ unat scale = 10 ^ (unat scale - unat ?vs) * 10 ^ unat ?vs"
      by (metis power_add)
    moreover have "int (unat r) = mantissa D d * 10 ^ (unat scale - unat ?vs)"
      unfolding r using m by (simp only: of_nat_mult of_nat_power of_nat_numeral)
    ultimately have "scaled D d scale = int (unat r) * denom D d"
      by (simp only: scaled_def denom_def mult.assoc)
    then have "scaled D d scale \<le> int x * denom D d \<longleftrightarrow> int (unat r) \<le> int x"
      by (simp only: mult_le_cancel_right_pos [OF denom_pos(1)])
    then show ?thesis by (simp only: of_nat_le_iff)
  next
    case False
    then obtain s where s: "checked_pow10_u128 (?vs - scale) = Some s"
      and r: "(if 0 < ?m mod s then checked_add (?m div s) 1 else Some (?m div s)) = Some r"
      using assms(2) nn by (auto simp: ceil_scaled_def Let_def split: Option.bind_splits)
    have us: "unat s = 10 ^ (unat ?vs - unat scale)"
      using checked_pow10_u128_Some [OF s] False by (simp add: unat_sub)
    then have "s \<noteq> 0" by (metis power_not_zero unat_0 zero_neq_numeral)
    have "unat ?vs = (unat ?vs - unat scale) + unat scale" using False by (simp add: word_le_nat_alt)
    then have den: "denom D d = int (unat s) * 10 ^ unat scale"
      unfolding denom_def us by (metis of_nat_numeral of_nat_power power_add)
    have "scaled D d scale \<le> int x * denom D d \<longleftrightarrow> mantissa D d \<le> int x * int (unat s)"
      unfolding scaled_def den by (simp flip: mult.assoc)
    also have "\<dots> \<longleftrightarrow> int (unat ?m) \<le> int (x * unat s)" by (simp only: m of_nat_mult)
    also have "\<dots> \<longleftrightarrow> unat ?m \<le> x * unat s" by (simp only: of_nat_le_iff)
    also have "\<dots> \<longleftrightarrow> unat r \<le> x" by (rule ceil_quotient [OF \<open>s \<noteq> 0\<close> r])
    finally show ?thesis .
  qed
qed

lemma on_tick_difference:
  fixes a b t :: nat
  assumes "t dvd a" and "t dvd b"
  shows "(if a < b then b - a else a - b) div t * t = (if a < b then b - a else a - b)"
  using assms by (auto simp: dvd_diff_nat)

section \<open>Properties\<close>

text \<open>A specification for closed examples: cents, a quarter tick, lots of five.\<close>

definition quarter_lot_five :: instrument_spec where
  "quarter_lot_five =
     \<lparr>price_scale = 2, qty_scale = 0, tick_size = 25, lot_size = 5,
      min_price = Price 25, max_price = None, min_qty = Qty 5, max_qty = None,
      min_notional = None\<rparr>"

lemma quarter_lot_five_new: "spec_new 2 0 25 5 = Inr quarter_lot_five"
  by (simp add: spec_new_def MAX_SCALE_def quarter_lot_five_def)

lemma quarter_lot_five_ok: "spec_ok quarter_lot_five"
  by (rule spec_ok_new [OF quarter_lot_five_new])

text \<open>The specifications a client can build: \<open>new\<close>, then any of the \<open>with_\<close> builders.\<close>

inductive constructed_spec :: "'d decimal_ops \<Rightarrow> instrument_spec \<Rightarrow> bool"
  for D :: "'d decimal_ops" where
  new: "(spec_new ps qs tick lot :: 'd spec_error + instrument_spec) = Inr spec \<Longrightarrow>
    constructed_spec D spec"
| price_range: "constructed_spec D spec \<Longrightarrow>
    (with_price_range spec mn mx :: 'd spec_error + instrument_spec) = Inr spec' \<Longrightarrow>
    constructed_spec D spec'"
| qty_range: "constructed_spec D spec \<Longrightarrow>
    (with_qty_range spec mnq mxq :: 'd spec_error + instrument_spec) = Inr spec' \<Longrightarrow>
    constructed_spec D spec'"
| min_notional: "constructed_spec D spec \<Longrightarrow> with_min_notional D spec d = Inr spec' \<Longrightarrow>
    constructed_spec D spec'"

text \<open>
  C32. Every specification a client can build is well formed: scales the decimal type can carry,
  a non-zero tick and lot, and every bound on its own grid with no maximum below its minimum.
\<close>

theorem specs_well_formed: "constructed_spec D spec \<Longrightarrow> spec_ok spec"
  by (induction rule: constructed_spec.induct)
    (auto intro: spec_ok_new spec_ok_with_price_range spec_ok_with_qty_range
      spec_ok_with_min_notional)

theorem specs_well_formed_witness:
  "spec_ok (quarter_lot_five\<lparr>min_price := Price 50, max_price := Some (Price 100)\<rparr>)"
proof (rule specs_well_formed)
  have "with_price_range quarter_lot_five (Price 50) (Some (Price 100)) =
      Inr (quarter_lot_five\<lparr>min_price := Price 50, max_price := Some (Price 100)\<rparr>)"
    by (simp add: with_price_range_def quarter_lot_five_def is_multiple_of_def)
  with quarter_lot_five_new
  show "constructed_spec pair_decimal_ops
      (quarter_lot_five\<lparr>min_price := Price 50, max_price := Some (Price 100)\<rparr>)"
    by (blast intro: constructed_spec.intros)
qed

text \<open>
  C31. A decimal is accepted as the price \<open>p\<close> exactly when it denotes the same number as \<open>p\<close>
  (mantissa times a power of ten against minor units, compared exactly) and \<open>p\<close> is a whole
  number of ticks; the conversion never panics, so every other decimal is refused with a reason.
\<close>

theorem price_conversion_exact:
  assumes "decimal_laws D" and "spec_ok spec"
  shows "(spec_price D spec d = Some (Inr p) \<longleftrightarrow>
      scaled D d (price_scale spec) = uint (minor p) * denom D d \<and>
      is_multiple_of (minor p) (tick_size spec)) \<and>
    spec_price D spec d \<noteq> None"
  using spec_price_iff [OF assms] spec_price_total [OF assms] by blast

theorem price_conversion_exact_witness:
  "spec_price pair_decimal_ops quarter_lot_five (pair_decimal_of 1005 1) =
     Some (Inr (Price 10050))"
  using price_conversion_exact
      [OF pair_decimal_laws quarter_lot_five_ok, of "pair_decimal_of 1005 1" "Price 10050"]
  by (simp add: scaled_def denom_def pair_decimal_ops_def quarter_lot_five_def is_multiple_of_def)

text \<open>
  C33. Round trips: a price on the tick grid and a quantity on the lot grid survive the
  conversion to a decimal and back.
\<close>

theorem grid_values_round_trip:
  assumes "decimal_laws D" and "spec_ok spec"
    and "is_multiple_of (minor p) (tick_size spec)" and "is_multiple_of (base q) (lot_size spec)"
  shows "Option.bind (to_decimal D spec p) (spec_price D spec) = Some (Inr p) \<and>
    Option.bind (qty_to_decimal D spec q) (spec_qty D spec) = Some (Inr q)"
proof -
  have "unat (price_scale spec) \<le> 28" and "unat (qty_scale spec) \<le> 28"
    using assms(2) by (simp_all add: spec_ok_def)
  with decimal_of_u64 [OF assms(1)] obtain d e
    where "to_decimal D spec p = Some d" "mantissa D d = uint (minor p)"
      "decimal_scale D d = price_scale spec"
    and "qty_to_decimal D spec q = Some e" "mantissa D e = uint (base q)"
      "decimal_scale D e = qty_scale spec"
    unfolding to_decimal_def qty_to_decimal_def by metis
  with assms show ?thesis
    by (simp add: spec_price_iff spec_qty_iff scaled_def denom_def)
qed

theorem grid_values_round_trip_witness:
  "Option.bind (to_decimal pair_decimal_ops quarter_lot_five (Price 10025))
     (spec_price pair_decimal_ops quarter_lot_five) = Some (Inr (Price 10025)) \<and>
   Option.bind (qty_to_decimal pair_decimal_ops quarter_lot_five (Qty 35))
     (spec_qty pair_decimal_ops quarter_lot_five) = Some (Inr (Qty 35))"
  by (rule grid_values_round_trip [OF pair_decimal_laws quarter_lot_five_ok])
    (simp_all add: is_multiple_of_def quarter_lot_five_def)

text \<open>
  Rounding moves to the neighbouring grid point in the named direction: up to the least
  grid point not below the value, down to the greatest not above it. A passive bid rounds down
  and a passive ask rounds up, so a rounded order never improves on the price its sender named.
\<close>

theorem round_price_neighbour:
  assumes "decimal_laws D" and "spec_ok spec" and "round_price D spec d r = Inr p"
  shows "rounded_to (scaled D d (price_scale spec)) (denom D d) (uint (tick_size spec))
      (rounds_up r) (uint (minor p))"
  using round_price_sound [OF assms] .

theorem round_price_neighbour_witness:
  "round_price pair_decimal_ops quarter_lot_five (pair_decimal_of 100265 3) Up =
     Inr (Price 10050) \<and>
   rounded_to 10026500 1000 25 True 10050"
proof -
  let ?d = "pair_decimal_of 100265 3"
  have facts: "scaled pair_decimal_ops ?d (price_scale quarter_lot_five) = 10026500"
    "denom pair_decimal_ops ?d = 1000"
    by (simp_all add: scaled_def denom_def pair_decimal_ops_def quarter_lot_five_def)
  have "split_minor pair_decimal_ops ?d (price_scale quarter_lot_five) = Inr (10026, True)"
    using facts split_minor_eq [OF pair_decimal_laws, of "price_scale quarter_lot_five" ?d]
    by (simp add: quarter_lot_five_def, simp add: pair_decimal_ops_def)
  then have ret: "round_price pair_decimal_ops quarter_lot_five ?d Up = Inr (Price 10050)"
    by (simp add: round_price_unfold rounds_up_def quarter_lot_five_def checked_add_def
        checked_mul_def)
  with round_price_neighbour [OF pair_decimal_laws quarter_lot_five_ok ret] facts show ?thesis
    by (simp add: rounds_up_def quarter_lot_five_def)
qed

text \<open>
  C34. The minimum notional is exact: a floor given as a decimal, converted once and rounded up,
  admits an order exactly when price times quantity, as the numbers they denote, is at least the
  stated floor. No order below the published floor is admitted and none at or above it refused.
\<close>

theorem min_notional_exact:
  assumes "decimal_laws D"
    and "with_min_notional D spec d = Inr spec'"
    and "unat (price_scale spec) + unat (qty_scale spec) < 2 ^ 32"
  shows "admits_notional spec' p q = Inr () \<longleftrightarrow>
    mantissa D d * 10 ^ (unat (price_scale spec) + unat (qty_scale spec))
      \<le> int (unat (minor p) * unat (base q)) * denom D d"
proof -
  let ?scale = "price_scale spec + qty_scale spec"
  from assms(2) obtain r where r: "ceil_scaled D d ?scale = Some r"
    and mn: "min_notional spec' = Some (Notional r)"
    by (auto simp: with_min_notional_def checked_add_def split: option.splits if_splits)
  have scale: "unat ?scale = unat (price_scale spec) + unat (qty_scale spec)"
    using assms(3) by (simp add: unat_add_exact)
  have "admits_notional spec' p q = Inr () \<longleftrightarrow> unat r \<le> unat (raw (spec_notional p q))"
    by (auto simp: admits_notional_def mn Let_def less_notional_def word_less_nat_alt)
  also have "\<dots> \<longleftrightarrow> scaled D d ?scale \<le> int (unat (minor p) * unat (base q)) * denom D d"
    unfolding spec_notional_exact by (rule ceil_scaled_iff [OF assms(1) r, symmetric])
  finally show ?thesis by (simp add: scaled_def scale)
qed

theorem min_notional_exact_witness:
  "with_min_notional pair_decimal_ops quarter_lot_five (pair_decimal_of 10001 3) =
     (Inr (quarter_lot_five\<lparr>min_notional := Some (Notional 1001)\<rparr>) ::
        pair_decimal spec_error + instrument_spec) \<and>
   admits_notional (quarter_lot_five\<lparr>min_notional := Some (Notional 1001)\<rparr>) (Price 25) (Qty 40)
     \<noteq> Inr () \<and>
   admits_notional (quarter_lot_five\<lparr>min_notional := Some (Notional 1001)\<rparr>) (Price 25) (Qty 45)
     = Inr ()"
proof -
  let ?d = "pair_decimal_of 10001 3"
  let ?spec = "quarter_lot_five\<lparr>min_notional := Some (Notional 1001)\<rparr>"
  have ret: "with_min_notional pair_decimal_ops quarter_lot_five ?d = Inr ?spec"
    by (simp add: with_min_notional_def ceil_scaled_def pair_decimal_ops_def quarter_lot_five_def
        checked_add_def checked_pow10_u128_def Let_def)
  have scales: "unat (price_scale quarter_lot_five) + unat (qty_scale quarter_lot_five) < 2 ^ 32"
    by (simp add: quarter_lot_five_def)
  note rule = min_notional_exact [OF pair_decimal_laws ret scales]
  show ?thesis
    using ret rule [of "Price 25" "Qty 40"] rule [of "Price 25" "Qty 45"]
    by (simp add: denom_def pair_decimal_ops_def quarter_lot_five_def)
qed

text \<open>
  The spread in ticks is exact and symmetric: for two prices on the grid, the count times
  the tick size is their distance, with nothing left over.
\<close>

theorem ticks_between_exact:
  assumes "is_multiple_of (minor a) (tick_size spec)" and "is_multiple_of (minor b) (tick_size spec)"
  shows "int (unat (count (ticks_between spec a b)) * unat (tick_size spec)) =
      \<bar>int (unat (minor a)) - int (unat (minor b))\<bar> \<and>
    ticks_between spec a b = ticks_between spec b a"
proof
  have "unat (count (ticks_between spec a b)) * unat (tick_size spec) =
      (if unat (minor a) < unat (minor b) then unat (minor b) - unat (minor a)
       else unat (minor a) - unat (minor b))"
    using on_tick_difference [of "unat (tick_size spec)" "unat (minor a)" "unat (minor b)"] assms
    by (simp add: ticks_between_def unat_div unat_abs_diff is_multiple_of_unat)
  moreover have "int (if m < n then n - m else m - n) = \<bar>int m - int n\<bar>" for m n :: nat by auto
  ultimately show "int (unat (count (ticks_between spec a b)) * unat (tick_size spec)) =
      \<bar>int (unat (minor a)) - int (unat (minor b))\<bar>"
    by (simp only:)
  show "ticks_between spec a b = ticks_between spec b a"
    by (simp add: ticks_between_def word_unat_eq_iff unat_div unat_abs_diff)
qed

theorem ticks_between_exact_witness:
  "ticks_between quarter_lot_five (Price 10000) (Price 10075) = Ticks 3 \<and>
   int (unat (count (Ticks 3)) * 25) = 75"
proof -
  have t: "ticks_between quarter_lot_five (Price 10000) (Price 10075) = Ticks 3"
    by (simp add: ticks_between_def quarter_lot_five_def abs_diff_def)
  have "is_multiple_of (minor (Price 10000)) (tick_size quarter_lot_five)"
    and "is_multiple_of (minor (Price 10075)) (tick_size quarter_lot_five)"
    by (simp_all add: is_multiple_of_def quarter_lot_five_def)
  note ticks_between_exact [OF this, THEN conjunct1]
  then have "int (unat (count (Ticks 3)) * 25) = 75"
    unfolding t by (simp add: quarter_lot_five_def)
  with t show ?thesis by blast
qed

text \<open>
  The notional of a price and a quantity is their exact product, at every width: two
  \<open>u64\<close> values never overflow the \<open>u128\<close> they are multiplied in.
\<close>

theorem notional_never_overflows:
  "unat (raw (spec_notional p q)) = unat (minor p) * unat (base q)"
  by (rule spec_notional_exact)

text \<open>Reading 128 bits as signed.\<close>

lemma sint_u128:
  "sint (w :: u128) = (if unat w < 2 ^ 127 then int (unat w) else int (unat w) - 2 ^ 128)"
proof -
  have "sint w = (int (unat w) + 2 ^ 127) mod 2 ^ 128 - 2 ^ 127"
    unfolding sint_uint signed_take_bit_eq_take_bit_shift take_bit_eq_mod uint_nat by simp
  moreover have "uint w < 2 ^ LENGTH(128)" by (rule unsigned_less)
  then have "int (unat w) < 2 ^ 128" by simp
  moreover have "(x + 2 ^ 127) mod 2 ^ 128 - 2 ^ 127 = (if x < 2 ^ 127 then x else x - 2 ^ 128)"
    if "0 \<le> x" "x < 2 ^ 128" for x :: int
  proof (cases "x < 2 ^ 127")
    case True
    with that show ?thesis by simp
  next
    case False
    have "(x + 2 ^ 127) mod 2 ^ 128 = (x + 2 ^ 127 - 2 ^ 128) mod 2 ^ 128" by (rule minus_mod_self2 [symmetric])
    also have "\<dots> = x + 2 ^ 127 - 2 ^ 128" by (rule mod_pos_pos_trivial) (use that False in simp_all)
    finally show ?thesis using False by simp
  qed
  moreover have "int (unat w) < int (2 ^ 127) \<longleftrightarrow> unat w < 2 ^ 127" by (rule of_nat_less_iff)
  then have "unat w < 2 ^ 127 \<longleftrightarrow> int (unat w) < 2 ^ 127" by (simp only: of_nat_power of_nat_numeral)
  ultimately show ?thesis by presburger
qed

text \<open>
  C40. Where a notional can be rendered. The type promises every product of two \<open>u64\<close>; the decimal
  library takes a mantissa below \<open>2 ^ 96\<close> and a scale of at most 28 and, as its documentation says,
  panics beyond (here a hypothesis). So, for every price and quantity: the product is rendered exactly
  when it is below \<open>2 ^ 96\<close>; from there to \<open>2 ^ 128 - 2 ^ 96\<close> the call panics; above, where \<open>as i128\<close>
  reinterprets the upper half of \<open>u128\<close>, the positive product is rendered as the negative decimal
  \<open>2 ^ 128\<close> below it; and the call panics for every product when the scales of price and quantity
  add up to more than 28, which the constructors of the specification allow.
\<close>

theorem notional_rendering_range:
  fixes p q spec
  defines "n \<equiv> unat (minor p) * unat (base q)" and "s \<equiv> price_scale spec + qty_scale spec"
  assumes "decimal_laws D" and "\<forall>m t. 2 ^ 96 \<le> \<bar>m\<bar> \<or> 28 < unat t \<longrightarrow> from_i128_with_scale D m t = None"
  shows "if 28 < unat s \<or> 2 ^ 96 \<le> n \<and> n \<le> 2 ^ 128 - 2 ^ 96
    then notional_to_decimal D spec (spec_notional p q) = None
    else \<exists>d. notional_to_decimal D spec (spec_notional p q) = Some d \<and> decimal_scale D d = s \<and>
      mantissa D d = (if n < 2 ^ 96 then int n else int n - 2 ^ 128) \<and> (mantissa D d < 0 \<longleftrightarrow> 2 ^ 96 \<le> n)"
proof -
  let ?w = "raw (spec_notional p q)"
  have w: "unat ?w = n" by (simp add: n_def spec_notional_exact)
  moreover have "unat ?w < 2 ^ LENGTH(128)" by (rule unsigned_less)
  ultimately have top: "n < 2 ^ 128" by simp
  have call: "notional_to_decimal D spec (spec_notional p q) = from_i128_with_scale D (sint ?w) s"
    by (simp add: notional_to_decimal_def s_def)
  have sint: "sint ?w = (if n < 2 ^ 127 then int n else int n - 2 ^ 128)" by (simp only: sint_u128 w)
  show ?thesis
  proof (cases "28 < unat s \<or> 2 ^ 96 \<le> n \<and> n \<le> 2 ^ 128 - 2 ^ 96")
    case True
    then have "2 ^ 96 \<le> \<bar>sint ?w\<bar> \<or> 28 < unat s" unfolding sint by auto
    with assms(4) have "from_i128_with_scale D (sint ?w) s = None" by blast
    with True show ?thesis by (simp add: call)
  next
    case False
    then have shown: "sint ?w = (if n < 2 ^ 96 then int n else int n - 2 ^ 128)" "unat s \<le> 28"
      unfolding sint by auto
    have "\<bar>sint ?w\<bar> < 2 ^ 96" unfolding shown(1) using False top by auto
    from decimal_of_int [OF assms(3) this shown(2)] obtain d where
      "from_i128_with_scale D (sint ?w) s = Some d" "mantissa D d = sint ?w" "decimal_scale D d = s" by blast
    moreover have "sint ?w < 0 \<longleftrightarrow> 2 ^ 96 \<le> n" unfolding shown(1) using top by auto
    ultimately show ?thesis using False shown(1) by (auto simp: call)
  qed
qed

text \<open>The widest price and quantity come out negative; \<open>2 ^ 48\<close> of each cannot be rendered.\<close>

theorem notional_rendering_range_witness:
  "(\<exists>d. notional_to_decimal pair_decimal_ops quarter_lot_five
      (spec_notional (Price 0xFFFFFFFFFFFFFFFF) (Qty 0xFFFFFFFFFFFFFFFF)) = Some d \<and>
      mantissa pair_decimal_ops d = - 36893488147419103231) \<and>
   notional_to_decimal pair_decimal_ops quarter_lot_five (spec_notional (Price 0x1000000000000) (Qty 0x1000000000000)) = None \<and>
   (\<exists>d. notional_to_decimal pair_decimal_ops quarter_lot_five (spec_notional (Price 25) (Qty 40)) = Some d \<and>
      mantissa pair_decimal_ops d = 1000)"
proof -
  have panics: "\<forall>m t. 2 ^ 96 \<le> \<bar>m\<bar> \<or> 28 < unat t \<longrightarrow> from_i128_with_scale pair_decimal_ops m t = None"
    by (auto simp: pair_decimal_ops_def)
  have scale: "\<not> 28 < unat (price_scale quarter_lot_five + qty_scale quarter_lot_five)" by (simp add: quarter_lot_five_def)
  note range = notional_rendering_range [OF pair_decimal_laws panics, where spec = quarter_lot_five]
  show ?thesis
    using range [of "Price 0xFFFFFFFFFFFFFFFF" "Qty 0xFFFFFFFFFFFFFFFF"] range [of "Price 0x1000000000000" "Qty 0x1000000000000"]
      range [of "Price 25" "Qty 40"] scale by auto
qed

end
