(* ===== verification/Allocation.thy ===== *)
theory Allocation
  imports Instrument
begin

text \<open>
  \<^verbatim>\<open>src/src/allocation.rs\<close>, the interface: what an allocation policy sees of a price
  level, what it answers, and the contract between it and the engine. The contract is the
  locale \<open>matching_algorithm\<close>; the three policies of the crate are its interpretations, in the
  theories \<open>Fifo_Matcher\<close>, \<open>Pro_Rata_Matcher\<close> and \<open>Time_Pro_Rata_Matcher\<close>.
\<close>

lemma units_pos_iff [simp]: "0 < units q \<longleftrightarrow> q \<noteq> 0"
  using units_eq_0_iff [of q] by linarith

record fill =
  order_index :: nat
  fill_quantity :: qty

record maker =
  maker_remaining :: qty
  maker_arrival :: u128

text \<open>The trait \<open>MatchingAlgorithm\<close>: a policy is the record of its two methods.\<close>

record matcher =
  allocate :: "qty \<Rightarrow> maker list \<Rightarrow> u128 \<Rightarrow> fill list"
  matcher_lot_size :: "u64 option"

text \<open>The total a level holds, in \<open>u128\<close>.\<close>

definition level_total :: "maker list \<Rightarrow> u128" where
  "level_total makers = sum_list (map (\<lambda>m. u128_from (base (maker_remaining m))) makers)"

text \<open>
  \<open>debug_assert_fills\<close> of \<^verbatim>\<open>src/src/matching.rs\<close>: its loop over the fills, with
  \<open>None\<close> for a failed assertion, and the final comparison.
\<close>

fun assert_fills_loop ::
    "fill list \<Rightarrow> maker list \<Rightarrow> u64 \<Rightarrow> nat option \<Rightarrow> u128 \<Rightarrow> u128 option" where
  "assert_fills_loop [] makers lot prev allocated = Some allocated"
| "assert_fills_loop (f # fs) makers lot prev allocated =
     (if order_index f < length makers \<and>
         (case prev of None \<Rightarrow> True | Some p \<Rightarrow> p < order_index f) \<and>
         \<not> qty_is_zero (fill_quantity f) \<and>
         fill_quantity f \<le> maker_remaining (makers ! order_index f) \<and>
         is_multiple_of (base (fill_quantity f)) lot
      then assert_fills_loop fs makers lot (Some (order_index f))
             (allocated + u128_from (base (fill_quantity f)))
      else None)"

definition debug_assert_fills :: "fill list \<Rightarrow> qty \<Rightarrow> maker list \<Rightarrow> u64 \<Rightarrow> bool" where
  "debug_assert_fills fills available makers lot \<longleftrightarrow>
     (case assert_fills_loop fills makers lot None 0 of
        None \<Rightarrow> False
      | Some allocated \<Rightarrow> allocated = min (u128_from (base available)) (level_total makers))"

text \<open>The sweep that hands out one lot at a time, shared by the two weighted policies.\<close>

fun crumb_sweep :: "u64 \<Rightarrow> u64 \<Rightarrow> maker list \<Rightarrow> u64 list \<Rightarrow> u64 list \<times> u64" where
  "crumb_sweep lot left (m # ms) (s # ss) =
     (if left = 0 then (s # ss, left)
      else if lot \<le> base (maker_remaining m) - s then
        let (ss', left') = crumb_sweep lot (left - lot) ms ss in ((s + lot) # ss', left')
      else
        let (ss', left') = crumb_sweep lot left ms ss in (s # ss', left'))"
| "crumb_sweep lot left ms ss = (ss, left)"

text \<open>The fills of a list of shares: makers allocated nothing are absent.\<close>

definition collect_from :: "nat \<Rightarrow> u64 list \<Rightarrow> fill list" where
  "collect_from n shares =
     map (\<lambda>(i, q). \<lparr>order_index = i, fill_quantity = Qty q\<rparr>)
       (filter (\<lambda>(i, q). 0 < q) (enumerate n shares))"

definition collect_shares :: "u64 list \<Rightarrow> fill list" where
  "collect_shares shares = collect_from 0 shares"

definition take_everything :: "maker list \<Rightarrow> fill list" where
  "take_everything makers =
     map (\<lambda>(i, m). \<lparr>order_index = i, fill_quantity = maker_remaining m\<rparr>)
       (filter (\<lambda>(i, m). \<not> qty_is_zero (maker_remaining m)) (enumerate 0 makers))"

section \<open>The contract\<close>

definition total_units :: "maker list \<Rightarrow> nat" where
  "total_units makers = sum_list (map (\<lambda>m. units (maker_remaining m)) makers)"

definition filled_units :: "fill list \<Rightarrow> nat" where
  "filled_units fills = sum_list (map (\<lambda>f. units (fill_quantity f)) fills)"

text \<open>
  The five clauses: strictly increasing indices within the level, no empty fill, no maker over
  its remaining quantity, the total exactly what the taker and the level allow, whole lots.
\<close>

definition fills_ok :: "fill list \<Rightarrow> qty \<Rightarrow> maker list \<Rightarrow> u64 \<Rightarrow> bool" where
  "fills_ok fills available makers lot \<longleftrightarrow>
     sorted_wrt (<) (map order_index fills) \<and>
     (\<forall>f\<in>set fills. order_index f < length makers \<and> fill_quantity f \<noteq> 0 \<and>
        fill_quantity f \<le> maker_remaining (makers ! order_index f) \<and>
        is_multiple_of (base (fill_quantity f)) lot) \<and>
     filled_units fills = min (units available) (total_units makers)"

text \<open>What a caller owes: a non-zero lot, whole lots everywhere, and a slice Rust can hold.\<close>

definition alloc_inputs_ok :: "u64 \<Rightarrow> qty \<Rightarrow> maker list \<Rightarrow> bool" where
  "alloc_inputs_ok lot available makers \<longleftrightarrow>
     lot \<noteq> 0 \<and> is_multiple_of (base available) lot \<and> length makers < 2 ^ 63 \<and>
     (\<forall>m\<in>set makers. is_multiple_of (base (maker_remaining m)) lot)"

lemma fills_okD:
  assumes "fills_ok fills available makers lot"
  shows "sorted_wrt (<) (map order_index fills)"
    and "f \<in> set fills \<Longrightarrow> order_index f < length makers"
    and "f \<in> set fills \<Longrightarrow> fill_quantity f \<noteq> 0"
    and "f \<in> set fills \<Longrightarrow> fill_quantity f \<le> maker_remaining (makers ! order_index f)"
    and "f \<in> set fills \<Longrightarrow> is_multiple_of (base (fill_quantity f)) lot"
    and "filled_units fills = min (units available) (total_units makers)"
  using assms by (auto simp: fills_ok_def)

lemma total_units_bound:
  assumes "length makers < 2 ^ 63"
  shows "total_units makers < 2 ^ 127"
proof -
  have "total_units makers \<le> sum_list (map (\<lambda>m. 18446744073709551615) makers)"
    unfolding total_units_def by (rule sum_list_map_le) simp
  also have "\<dots> = length makers * 18446744073709551615"
    by (simp add: sum_list_triv)
  finally show ?thesis using assms by simp
qed

lemma unat_sum_list_exact:
  fixes ws :: "'a::len word list"
  shows "sum_list (map unat ws) < 2 ^ LENGTH('a) \<Longrightarrow> unat (sum_list ws) = sum_list (map unat ws)"
  by (induction ws) (auto simp: unat_add_exact)

lemma unat_level_total:
  "length makers < 2 ^ 63 \<Longrightarrow> unat (level_total makers) = total_units makers"
  using total_units_bound [of makers]
    unat_sum_list_exact [of "map (\<lambda>m. u128_from (base (maker_remaining m))) makers"]
  by (simp add: level_total_def total_units_def comp_def)

section \<open>From shares to fills\<close>

text \<open>A share a maker may be given: whole lots, at most what it holds.\<close>

definition share_ok :: "u64 \<Rightarrow> maker \<Rightarrow> u64 \<Rightarrow> bool" where
  "share_ok lot m s \<longleftrightarrow> unat lot dvd unat s \<and> unat s \<le> units (maker_remaining m)"

lemma total_units_simps [simp]:
  "total_units [] = 0"
  "total_units (m # ms) = units (maker_remaining m) + total_units ms"
  by (simp_all add: total_units_def)

lemma filled_units_simps [simp]:
  "filled_units [] = 0"
  "filled_units (f # fs) = units (fill_quantity f) + filled_units fs"
  by (simp_all add: filled_units_def)

lemma collect_from_simps [simp]:
  "collect_from n [] = []"
  "collect_from n (s # ss) =
     (if s = 0 then [] else [\<lparr>order_index = n, fill_quantity = Qty s\<rparr>]) @ collect_from (Suc n) ss"
  by (simp_all add: collect_from_def word_neq_0_conv)

lemma filled_units_collect: "filled_units (collect_from n ss) = sum_list (map unat ss)"
  by (induction ss arbitrary: n) auto

lemma collect_from_sorted:
  "sorted_wrt (<) (map order_index (collect_from n ss)) \<and>
   (\<forall>f\<in>set (collect_from n ss). n \<le> order_index f)"
  by (induction ss arbitrary: n) (force simp: Suc_le_eq)+

lemma collect_from_share:
  "f \<in> set (collect_from n ss) \<Longrightarrow>
     n \<le> order_index f \<and> order_index f < n + length ss \<and>
     base (fill_quantity f) = ss ! (order_index f - n) \<and> fill_quantity f \<noteq> 0"
proof (induction ss arbitrary: n)
  case (Cons s ss)
  show ?case
  proof (cases "f \<in> set (collect_from (Suc n) ss)")
    case True
    from Cons.IH [OF this] have "Suc n \<le> order_index f"
      and "order_index f < Suc n + length ss"
      and "base (fill_quantity f) = ss ! (order_index f - Suc n)" and "fill_quantity f \<noteq> 0"
      by auto
    moreover from this(1) have "order_index f - n = Suc (order_index f - Suc n)" by simp
    ultimately show ?thesis by simp
  next
    case False
    with Cons.prems show ?thesis by (auto simp: zero_qty_def split: if_splits)
  qed
qed simp

lemma collect_shares_ok:
  assumes "list_all2 (share_ok lot) makers ss"
    and "sum_list (map unat ss) = min (units available) (total_units makers)"
  shows "fills_ok (collect_shares ss) available makers lot"
  unfolding fills_ok_def collect_shares_def
proof (intro conjI ballI)
  show "sorted_wrt (<) (map order_index (collect_from 0 ss))"
    by (simp add: collect_from_sorted)
  show "filled_units (collect_from 0 ss) = min (units available) (total_units makers)"
    using assms(2) by (simp add: filled_units_collect)
next
  fix f assume "f \<in> set (collect_from 0 ss)"
  from collect_from_share [OF this]
  have i: "order_index f < length ss" and q: "base (fill_quantity f) = ss ! order_index f"
    and "fill_quantity f \<noteq> 0" by auto
  from assms(1) i have "share_ok lot (makers ! order_index f) (ss ! order_index f)"
    by (simp add: list_all2_conv_all_nth)
  then show "fill_quantity f \<le> maker_remaining (makers ! order_index f)"
    and "is_multiple_of (base (fill_quantity f)) lot"
    by (simp_all add: share_ok_def qty_le_units is_multiple_of_unat q)
  show "order_index f < length makers" using assms(1) i by (simp add: list_all2_lengthD)
  show "fill_quantity f \<noteq> 0" by fact
qed

lemma take_everything_collect:
  "take_everything makers = collect_shares (map (\<lambda>m. base (maker_remaining m)) makers)"
proof -
  have "map (\<lambda>(i, m). \<lparr>order_index = i, fill_quantity = maker_remaining m\<rparr>)
          (filter (\<lambda>(i, m). \<not> qty_is_zero (maker_remaining m)) (enumerate n makers)) =
        collect_from n (map (\<lambda>m. base (maker_remaining m)) makers)" for n
  proof (induction makers arbitrary: n)
    case (Cons m ms)
    then show ?case by (cases "maker_remaining m") (simp add: zero_qty_def)
  qed simp
  then show ?thesis by (simp add: take_everything_def collect_shares_def)
qed

lemma take_everything_ok:
  assumes "alloc_inputs_ok lot available makers" and "total_units makers \<le> units available"
  shows "fills_ok (take_everything makers) available makers lot"
  unfolding take_everything_collect
proof (rule collect_shares_ok)
  show "list_all2 (share_ok lot) makers (map (\<lambda>m. base (maker_remaining m)) makers)"
    using assms(1)
    by (auto simp: alloc_inputs_ok_def share_ok_def is_multiple_of_unat list_all2_conv_all_nth)
  show "sum_list (map unat (map (\<lambda>m. base (maker_remaining m)) makers)) =
      min (units available) (total_units makers)"
    using assms(2) by (simp add: total_units_def comp_def)
qed

section \<open>Proportional shares and the crumb sweep\<close>

text \<open>A proportional share, floored to whole lots.\<close>

definition lot_share :: "nat \<Rightarrow> nat \<Rightarrow> nat \<Rightarrow> nat \<Rightarrow> nat" where
  "lot_share pool W lot w = pool * w div W div lot * lot"

lemma lot_share_simps [simp]:
  "lot_share pool W lot 0 = 0" "lot dvd lot_share pool W lot w"
  by (simp_all add: lot_share_def)

lemma lot_share_le: "lot_share pool W lot w \<le> pool * w div W"
  by (simp add: lot_share_def)

lemma lot_share_bounds:
  assumes "0 < W" and "0 < lot"
  shows "W * lot_share pool W lot w \<le> pool * w"
    and "pool * w < W * (lot_share pool W lot w + lot)"
proof -
  define k where "k = pool * w div (W * lot)"
  have share: "lot_share pool W lot w = k * lot"
    by (simp add: lot_share_def k_def div_mult2_eq)
  have "pool * w = (W * lot) * k + pool * w mod (W * lot)"
    by (simp add: k_def)
  moreover have "pool * w mod (W * lot) < W * lot" using assms by simp
  ultimately show "W * lot_share pool W lot w \<le> pool * w"
    and "pool * w < W * (lot_share pool W lot w + lot)"
    unfolding share by (auto simp: algebra_simps)
qed

lemma sum_lot_share_le:
  assumes "0 < sum_list ws" and "0 < lot"
  shows "sum_list (map (lot_share pool (sum_list ws) lot) ws) \<le> pool"
proof -
  define W where "W = sum_list ws"
  have "W * sum_list (map (lot_share pool W lot) ws) \<le> pool * sum_list ws"
  proof -
    have "W * sum_list (map (lot_share pool W lot) vs) \<le> pool * sum_list vs" for vs
      using lot_share_bounds(1) [of W lot pool] assms
      by (induction vs) (auto simp: W_def distrib_left intro: add_mono)
    then show ?thesis .
  qed
  with assms show ?thesis by (simp add: W_def mult.commute)
qed

lemma le_sum_lot_share:
  assumes "0 < sum_list ws" and "0 < lot"
  shows "pool \<le> sum_list (map (lot_share pool (sum_list ws) lot) ws) + lot * length (filter ((<) 0) ws)"
proof -
  define W where "W = sum_list ws"
  have "pool * sum_list vs \<le>
      W * (sum_list (map (lot_share pool W lot) vs) + lot * length (filter ((<) 0) vs))" for vs
  proof (induction vs)
    case (Cons v vs)
    have "pool * v \<le> W * (lot_share pool W lot v + (if 0 < v then lot else 0))"
      using lot_share_bounds(2) [of W lot pool v] assms by (auto simp: W_def)
    with Cons.IH show ?case by (auto simp: algebra_simps)
  qed simp
  from this [of ws] assms show ?thesis by (simp add: W_def mult.commute)
qed

text \<open>The makers a lot can still be given to.\<close>

definition headroom_count :: "maker list \<Rightarrow> u64 list \<Rightarrow> nat" where
  "headroom_count ms ss =
     length (filter (\<lambda>(m, s). unat s < units (maker_remaining m)) (zip ms ss))"

lemma headroom_count_simps [simp]:
  "headroom_count [] ss = 0"
  "headroom_count (m # ms) (s # ss) =
     (if unat s < units (maker_remaining m) then Suc (headroom_count ms ss) else headroom_count ms ss)"
  by (simp_all add: headroom_count_def)

lemma dvd_gap: "(d :: nat) dvd a \<Longrightarrow> d dvd b \<Longrightarrow> a < b \<Longrightarrow> a + d \<le> b"
  by (metis add_le_cancel_left dvd_diff_nat dvd_imp_le le_add_diff_inverse less_imp_le zero_less_diff)

lemma crumb_sweep_places_all:
  assumes "list_all2 (share_ok lot) ms ss" and "lot \<noteq> 0"
    and "\<forall>m\<in>set ms. unat lot dvd units (maker_remaining m)"
    and "unat lot dvd unat left" and "unat left \<le> unat lot * headroom_count ms ss"
  shows "\<exists>ss'. crumb_sweep lot left ms ss = (ss', 0) \<and> list_all2 (share_ok lot) ms ss' \<and>
    list_all2 (\<lambda>s s'. s' = s \<or> unat s' = unat s + unat lot) ss ss' \<and>
    sum_list (map unat ss') = sum_list (map unat ss) + unat left"
  using assms(1,3-)
proof (induction ms ss arbitrary: left rule: list_all2_induct)
  case Nil
  then show ?case by (simp add: unat_eq_zero)
next
  case (Cons m ms s ss)
  have same: "list_all2 (\<lambda>s s'. s' = s \<or> unat s' = unat s + unat lot) xs xs" for xs :: "u64 list"
    by (simp add: list_all2_same)
  have s: "unat lot dvd unat s" "unat s \<le> units (maker_remaining m)"
    using Cons.hyps(1) by (simp_all add: share_ok_def)
  have lot: "0 < unat lot" using assms(2) by (simp add: unat_gt_0)
  have gap: "unat s + unat lot \<le> units (maker_remaining m)" if "unat s < units (maker_remaining m)"
    using dvd_gap [OF s(1) _ that] Cons.prems(1) by simp
  have "lot \<le> base (maker_remaining m) - s \<longleftrightarrow> unat lot \<le> units (maker_remaining m) - unat s"
    using s(2) by (simp only: word_le_nat_alt unat_sub_exact)
  also have "\<dots> \<longleftrightarrow> unat s < units (maker_remaining m)"
    using gap lot by linarith
  finally have room: "lot \<le> base (maker_remaining m) - s \<longleftrightarrow> unat s < units (maker_remaining m)" .
  show ?case
  proof (cases "left = 0")
    case True
    then show ?thesis using Cons.hyps same [of "s # ss"] by simp
  next
    case left: False
    show ?thesis
    proof (cases "unat s < units (maker_remaining m)")
      case True
      with left Cons.prems(2) have "unat lot \<le> unat left"
        by (simp add: dvd_imp_le unat_gt_0)
      then have sub: "unat (left - lot) = unat left - unat lot" by (simp add: unat_sub_exact)
      have "unat lot dvd unat (left - lot)"
        using Cons.prems(2) \<open>unat lot \<le> unat left\<close> by (simp add: sub)
      moreover have "unat (left - lot) \<le> unat lot * headroom_count ms ss"
        using Cons.prems(3) True by (simp add: sub)
      ultimately obtain ss' where ss': "crumb_sweep lot (left - lot) ms ss = (ss', 0)"
        "list_all2 (share_ok lot) ms ss'"
        "list_all2 (\<lambda>s s'. s' = s \<or> unat s' = unat s + unat lot) ss ss'"
        "sum_list (map unat ss') = sum_list (map unat ss) + unat (left - lot)"
        using Cons.IH [of "left - lot"] Cons.prems(1) by auto
      have fits: "unat s + unat lot \<le> units (maker_remaining m)"
        using gap [OF True] .
      then have "unat (s + lot) = unat s + unat lot"
        using unat_u64_bound [of "base (maker_remaining m)"]
        by (intro unat_add_exact) (simp del: unat_u64_bound)
      with fits s(1) have "share_ok lot m (s + lot)" by (simp add: share_ok_def)
      with \<open>unat (s + lot) = unat s + unat lot\<close> ss' True left room sub \<open>unat lot \<le> unat left\<close>
      show ?thesis by simp
    next
      case False
      with Cons.IH [of left] Cons.prems obtain ss' where "crumb_sweep lot left ms ss = (ss', 0)"
        "list_all2 (share_ok lot) ms ss'"
        "list_all2 (\<lambda>s s'. s' = s \<or> unat s' = unat s + unat lot) ss ss'"
        "sum_list (map unat ss') = sum_list (map unat ss) + unat left" by auto
      with Cons.hyps(1) left room False show ?thesis by simp
    qed
  qed
qed

section \<open>What the debug assertion checks\<close>

lemma assert_fills_loop_eq:
  "assert_fills_loop fs makers lot prev acc =
     (if sorted_wrt (<) (map order_index fs) \<and>
         (\<forall>f\<in>set fs. (case prev of None \<Rightarrow> True | Some p \<Rightarrow> p < order_index f) \<and>
            order_index f < length makers \<and> fill_quantity f \<noteq> 0 \<and>
            fill_quantity f \<le> maker_remaining (makers ! order_index f) \<and>
            is_multiple_of (base (fill_quantity f)) lot)
      then Some (acc + sum_list (map (\<lambda>f. u128_from (base (fill_quantity f))) fs))
      else None)"
proof (induction fs arbitrary: prev acc)
  case (Cons f fs)
  show ?case
    by (subst assert_fills_loop.simps, subst Cons.IH)
      (auto simp: add.assoc split: option.splits)
qed simp

lemma length_fills_le:
  assumes "sorted_wrt (<) (map order_index fs)" and "\<forall>f\<in>set fs. order_index f < n"
  shows "length fs \<le> n"
proof -
  have "distinct (map order_index fs)"
    using assms(1) by (simp add: strict_sorted_iff)
  then have "length fs = card (order_index ` set fs)"
    by (metis distinct_card length_map list.set_map)
  also have "\<dots> \<le> card {..<n}"
    using assms(2) by (intro card_mono) auto
  finally show ?thesis by simp
qed

lemma unat_fills_total:
  assumes "length fs < 2 ^ 63"
  shows "unat (sum_list (map (\<lambda>f. u128_from (base (fill_quantity f))) fs)) = filled_units fs"
proof -
  have "filled_units fs \<le> sum_list (map (\<lambda>f. 18446744073709551615) fs)"
    unfolding filled_units_def by (rule sum_list_map_le) simp
  also have "\<dots> = length fs * 18446744073709551615"
    by (simp add: sum_list_triv)
  finally have "filled_units fs < 2 ^ 128" using assms by simp
  then show ?thesis
    using unat_sum_list_exact [of "map (\<lambda>f. u128_from (base (fill_quantity f))) fs"]
    by (simp add: filled_units_def comp_def)
qed

lemma debug_assert_fills_iff:
  assumes "length makers < 2 ^ 63"
  shows "debug_assert_fills fills available makers lot \<longleftrightarrow> fills_ok fills available makers lot"
proof -
  let ?sum = "sum_list (map (\<lambda>f. u128_from (base (fill_quantity f))) fills)"
  have total: "?sum = min (u128_from (base available)) (level_total makers) \<longleftrightarrow>
      filled_units fills = min (units available) (total_units makers)"
    if "sorted_wrt (<) (map order_index fills)" and "\<forall>f\<in>set fills. order_index f < length makers"
  proof -
    have "length fills < 2 ^ 63" using length_fills_le [OF that] assms by linarith
    then have "unat ?sum = filled_units fills" by (rule unat_fills_total)
    moreover have "unat (min (u128_from (base available)) (level_total makers)) =
        min (units available) (total_units makers)"
      using unat_level_total [OF assms] by (simp add: min_def word_le_nat_alt)
    ultimately show ?thesis by (metis word_unat_eq_iff)
  qed
  show ?thesis
    unfolding debug_assert_fills_def assert_fills_loop_eq fills_ok_def
    using total by auto
qed

text \<open>What one maker receives.\<close>

definition filled_at :: "fill list \<Rightarrow> nat \<Rightarrow> nat" where
  "filled_at fills i = sum_list (map (\<lambda>f. units (fill_quantity f)) (filter (\<lambda>f. order_index f = i) fills))"

lemma filled_at_collect_from:
  "filled_at (collect_from n ss) i = (if n \<le> i \<and> i < n + length ss then unat (ss ! (i - n)) else 0)"
proof (induction ss arbitrary: n)
  case (Cons s ss)
  show ?case
  proof (cases "i = n")
    case True
    with Cons.IH [of "Suc n"] show ?thesis by (simp add: filled_at_def)
  next
    case False
    then have "i - n = Suc (i - Suc n)" if "Suc n \<le> i" using that by simp
    with Cons.IH [of "Suc n"] False show ?thesis by (auto simp: filled_at_def)
  qed
qed (simp add: filled_at_def)

lemma filled_at_collect_shares:
  "i < length ss \<Longrightarrow> filled_at (collect_shares ss) i = unat (ss ! i)"
  by (simp add: collect_shares_def filled_at_collect_from)

section \<open>The interface\<close>

locale matching_algorithm =
  fixes algo :: matcher
    and lot :: u64
  assumes allocate_ok:
      "alloc_inputs_ok lot available makers \<Longrightarrow>
         fills_ok (allocate algo available makers now) available makers lot"
    and declared_lot: "matcher_lot_size algo = None \<or> matcher_lot_size algo = Some lot"
begin

lemma passes_debug_assert:
  assumes "alloc_inputs_ok lot available makers"
  shows "debug_assert_fills (allocate algo available makers now) available makers lot"
  using allocate_ok [OF assms] debug_assert_fills_iff [of makers] assms
  by (simp add: alloc_inputs_ok_def)

lemma allocates_total:
  "alloc_inputs_ok lot available makers \<Longrightarrow>
     filled_units (allocate algo available makers now) = min (units available) (total_units makers)"
  using allocate_ok by (blast dest: fills_okD(6))

lemma no_fills_iff:
  assumes "alloc_inputs_ok lot available makers"
  shows "allocate algo available makers now = [] \<longleftrightarrow>
    available = 0 \<or> (\<forall>m\<in>set makers. maker_remaining m = 0)"
proof -
  let ?fills = "allocate algo available makers now"
  have "?fills = [] \<longleftrightarrow> filled_units ?fills = 0"
    using fills_okD(3) [OF allocate_ok [OF assms]]
    by (auto simp: filled_units_def)
  also have "\<dots> \<longleftrightarrow> units available = 0 \<or> total_units makers = 0"
    using allocates_total [OF assms] by (auto simp: min_def)
  also have "\<dots> \<longleftrightarrow> available = 0 \<or> (\<forall>m\<in>set makers. maker_remaining m = 0)"
    by (simp add: total_units_def)
  finally show ?thesis .
qed

end

end
