(* ===== verification/Fifo_Matcher.thy ===== *)
theory Fifo_Matcher
  imports Allocation
begin

text \<open>
  \<open>FifoMatcher\<close> of \<^verbatim>\<open>src/src/allocation.rs\<close>: the makers are served in arrival order, each in
  full before the next one gets anything.
\<close>

fun fifo_loop :: "nat \<Rightarrow> qty \<Rightarrow> maker list \<Rightarrow> fill list" where
  "fifo_loop i left [] = []"
| "fifo_loop i left (m # ms) =
     (if qty_is_zero left then []
      else if qty_is_zero (maker_remaining m) then fifo_loop (Suc i) left ms
      else
        let fill = min left (maker_remaining m)
        in \<lparr>order_index = i, fill_quantity = fill\<rparr> # fifo_loop (Suc i) (left - fill) ms)"

definition fifo_matcher :: matcher where
  "fifo_matcher =
     \<lparr>allocate = (\<lambda>available makers now. fifo_loop 0 available makers), matcher_lot_size = None\<rparr>"

text \<open>The shares the loop gives out.\<close>

fun fifo_shares :: "qty \<Rightarrow> maker list \<Rightarrow> u64 list" where
  "fifo_shares left [] = []"
| "fifo_shares left (m # ms) =
     (let fill = min left (maker_remaining m) in base fill # fifo_shares (left - fill) ms)"

lemma units_min: "units (min p q) = min (units p) (units q)"
  by (simp add: min_def qty_le_units)

lemma min_qty_zero [simp]: "min (0 :: qty) q = 0" "min q (0 :: qty) = 0"
  by (simp_all add: min_def qty_le_units)

lemma qty_diff_zero [simp]: "q - (0 :: qty) = q"
  by (simp add: qty_eq_units)

lemma fifo_shares_zero: "fifo_shares 0 ms = map (\<lambda>_. 0) ms"
  by (induction ms) (simp_all add: Let_def)

lemma collect_from_zeros: "collect_from n (map (\<lambda>_. 0) ms) = []"
  by (induction ms arbitrary: n) auto

lemma fifo_loop_collect: "fifo_loop n left ms = collect_from n (fifo_shares left ms)"
proof (induction ms arbitrary: n left)
  case (Cons m ms)
  show ?case
  proof (cases "left = 0 \<or> maker_remaining m = 0")
    case True
    with Cons.IH show ?thesis
      by (auto simp: Let_def fifo_shares_zero collect_from_zeros)
  next
    case False
    then have "base (min left (maker_remaining m)) \<noteq> 0"
      by (metis units_eq_0_iff unat_eq_zero min_def)
    with False Cons.IH show ?thesis by (simp add: Let_def)
  qed
qed simp

lemma length_fifo_shares [simp]: "length (fifo_shares left ms) = length ms"
  by (induction left ms rule: fifo_shares.induct) (simp_all add: Let_def)

lemma fifo_shares_ok:
  assumes "unat lot dvd units left" and "\<forall>m\<in>set ms. unat lot dvd units (maker_remaining m)"
  shows "list_all2 (share_ok lot) ms (fifo_shares left ms) \<and>
    sum_list (map unat (fifo_shares left ms)) = min (units left) (total_units ms)"
  using assms
proof (induction ms arbitrary: left)
  case (Cons m ms)
  let ?fill = "min left (maker_remaining m)"
  have diff: "units (left - ?fill) = units left - min (units left) (units (maker_remaining m))"
    by (simp add: units_diff units_min del: Qty_simps)
  have "unat lot dvd units (left - ?fill)"
    unfolding diff using Cons.prems by (auto simp: min_def)
  moreover have "share_ok lot m (base ?fill)"
    using Cons.prems by (simp only: share_ok_def units_min) (simp add: min_def)
  ultimately show ?case
    using Cons.IH [of "left - ?fill"] Cons.prems
    by (simp add: Let_def diff units_min del: Qty_simps)
qed simp

interpretation fifo: matching_algorithm fifo_matcher lot for lot
proof
  fix available makers now
  assume "alloc_inputs_ok lot available makers"
  with fifo_shares_ok [of lot available makers]
  show "fills_ok (allocate fifo_matcher available makers now) available makers lot"
    by (simp add: fifo_matcher_def fifo_loop_collect collect_shares_ok alloc_inputs_ok_def
        is_multiple_of_unat flip: collect_shares_def)
qed (simp add: fifo_matcher_def)

lemma nth_fifo_shares:
  "i < length ms \<Longrightarrow>
     unat (fifo_shares left ms ! i) =
       min (units (maker_remaining (ms ! i))) (units left - total_units (take i ms))"
proof (induction ms arbitrary: left i)
  case (Cons m ms)
  let ?fill = "min left (maker_remaining m)"
  have diff: "units (left - ?fill) = units left - units (maker_remaining m)"
    by (simp add: units_diff units_min del: Qty_simps)
  show ?case
  proof (cases i)
    case 0
    then show ?thesis by (simp add: Let_def units_min)
  next
    case (Suc j)
    with Cons.IH [of j "left - ?fill"] Cons.prems show ?thesis
      by (simp add: Let_def diff del: Qty_simps)
  qed
qed simp

text \<open>
  C30. Price-time priority at a level: under \<open>FifoMatcher\<close> every maker receives exactly what the
  makers ahead of it leave of the incoming quantity, capped by what it holds. So nobody is
  served before everybody ahead of it is filled.
\<close>

theorem fifo_serves_in_arrival_order:
  assumes "i < length makers"
  shows "filled_at (allocate fifo_matcher available makers now) i =
    min (units (maker_remaining (makers ! i))) (units available - total_units (take i makers))"
  using filled_at_collect_shares [of i "fifo_shares available makers"] nth_fifo_shares assms
  by (simp add: fifo_matcher_def fifo_loop_collect flip: collect_shares_def)

theorem fifo_serves_in_arrival_order_witness:
  "filled_at (allocate fifo_matcher (Qty 12)
     [\<lparr>maker_remaining = Qty 5, maker_arrival = 1\<rparr>, \<lparr>maker_remaining = Qty 10, maker_arrival = 2\<rparr>] 9) 1 = 7"
  using fifo_serves_in_arrival_order [of 1
      "[\<lparr>maker_remaining = Qty 5, maker_arrival = 1\<rparr>, \<lparr>maker_remaining = Qty 10, maker_arrival = 2\<rparr>]" "Qty 12" 9]
  by simp

end
