(* ===== verification/Pro_Rata_Matcher.thy ===== *)
theory Pro_Rata_Matcher
  imports Allocation
begin

text \<open>
  \<open>ProRataMatcher\<close> of \<^verbatim>\<open>src/src/allocation.rs\<close>: proportional shares floored to whole lots, and
  a sweep that hands the remaining lots out in arrival order.
\<close>

definition pro_rata_share :: "u64 \<Rightarrow> u64 \<Rightarrow> u128 \<Rightarrow> maker \<Rightarrow> u64" where
  "pro_rata_share lot available total_qty m =
     (let exact = u128_from available * u128_from (base (maker_remaining m)) div total_qty
      in as_u64 ((exact div u128_from lot) * u128_from lot))"

definition pro_rata_sweep :: "u64 \<Rightarrow> u64 \<Rightarrow> maker list \<Rightarrow> u64 list \<times> u64" where
  "pro_rata_sweep lot available makers =
     (let shares = map (pro_rata_share lot available (level_total makers)) makers
      in crumb_sweep lot (available - sum_list shares) makers shares)"

definition pro_rata_allocate :: "u64 \<Rightarrow> qty \<Rightarrow> maker list \<Rightarrow> u128 \<Rightarrow> fill list" where
  "pro_rata_allocate lot available makers now =
     (if level_total makers \<le> u128_from (base available) then take_everything makers
      else collect_shares (fst (pro_rata_sweep lot (base available) makers)))"

definition pro_rata_matcher :: "u64 \<Rightarrow> matcher" where
  "pro_rata_matcher lot = \<lparr>allocate = pro_rata_allocate lot, matcher_lot_size = Some lot\<rparr>"

text \<open>The constructor asserts a non-zero lot.\<close>

definition pro_rata_new :: "u64 \<Rightarrow> matcher option" where
  "pro_rata_new lot = (if 0 < lot then Some (pro_rata_matcher lot) else None)"

section \<open>The floor pass\<close>

lemma unat_u128_product:
  "unat (u128_from a * u128_from b) = unat a * unat b"
proof -
  have "unat a * unat b \<le> 18446744073709551615 * 18446744073709551615"
    by (intro mult_le_mono) simp_all
  then show ?thesis by (simp add: unat_mult_exact)
qed

lemma unat_lot_floor:
  assumes "unat x < 2 ^ 64"
  shows "unat ((x div u128_from lot) * u128_from lot) = unat x div unat lot * unat lot"
    and "unat (as_u64 ((x div u128_from lot) * u128_from lot)) = unat x div unat lot * unat lot"
proof -
  have le: "unat x div unat lot * unat lot \<le> unat x" by simp
  show floor: "unat ((x div u128_from lot) * u128_from lot) = unat x div unat lot * unat lot"
    using le_less_trans [OF le assms] by (subst unat_mult_exact) (simp_all add: unat_div)
  show "unat (as_u64 ((x div u128_from lot) * u128_from lot)) = unat x div unat lot * unat lot"
    using floor le_less_trans [OF le assms] by (subst unat_as_u64_small) (simp_all only:)
qed

lemma total_units_member: "m \<in> set ms \<Longrightarrow> units (maker_remaining m) \<le> total_units ms"
  by (induction ms) auto

lemma pro_rata_exact:
  assumes "length makers < 2 ^ 63" and "unat available < total_units makers" and "m \<in> set makers"
  shows "unat (u128_from available * u128_from (base (maker_remaining m)) div level_total makers) =
      unat available * units (maker_remaining m) div total_units makers"
    and "units (maker_remaining m) \<noteq> 0 \<Longrightarrow>
      unat available * units (maker_remaining m) div total_units makers < units (maker_remaining m)"
proof -
  show "unat (u128_from available * u128_from (base (maker_remaining m)) div level_total makers) =
      unat available * units (maker_remaining m) div total_units makers"
    using assms(1) by (simp add: unat_div unat_u128_product unat_level_total)
  assume "units (maker_remaining m) \<noteq> 0"
  then show "unat available * units (maker_remaining m) div total_units makers < units (maker_remaining m)"
    using assms(2) by (auto simp: div_less_iff_less_mult mult.commute)
qed

lemma unat_pro_rata_share:
  assumes "length makers < 2 ^ 63" and "unat available < total_units makers" and "m \<in> set makers"
  shows "unat (pro_rata_share lot available (level_total makers) m) =
    lot_share (unat available) (total_units makers) (unat lot) (units (maker_remaining m))"
proof -
  let ?exact = "unat available * units (maker_remaining m) div total_units makers"
  have "?exact \<le> units (maker_remaining m)"
    using pro_rata_exact(2) [OF assms] by (cases "units (maker_remaining m) = 0") auto
  then have "?exact < 2 ^ 64"
    using unat_u64_bound [of "base (maker_remaining m)"] by (simp del: unat_u64_bound)
  then show ?thesis
    using pro_rata_exact(1) [OF assms] 
      unat_lot_floor(2) [of "u128_from available * u128_from (base (maker_remaining m)) div level_total makers" lot]
    by (simp add: pro_rata_share_def lot_share_def Let_def)
qed

section \<open>The sweep\<close>

lemma pro_rata_sweep_spec:
  assumes ok: "alloc_inputs_ok lot (Qty available) makers" and less: "unat available < total_units makers"
  defines "shares \<equiv> map (pro_rata_share lot available (level_total makers)) makers"
  shows "\<exists>ss. pro_rata_sweep lot available makers = (ss, 0) \<and> list_all2 (share_ok lot) makers ss \<and>
    list_all2 (\<lambda>s s'. s' = s \<or> unat s' = unat s + unat lot) shares ss \<and>
    sum_list (map unat ss) = unat available"
proof -
  define ws where "ws = map (\<lambda>m. units (maker_remaining m)) makers"
  have lot: "lot \<noteq> 0" "0 < unat lot" and len: "length makers < 2 ^ 63"
    and dvd: "unat lot dvd unat available" "\<forall>m\<in>set makers. unat lot dvd units (maker_remaining m)"
    using ok by (auto simp: alloc_inputs_ok_def is_multiple_of_unat unat_gt_0)
  have total: "total_units makers = sum_list ws" "0 < sum_list ws"
    using less by (simp_all add: total_units_def ws_def)
  have share: "unat (pro_rata_share lot available (level_total makers) m) =
      lot_share (unat available) (sum_list ws) (unat lot) (units (maker_remaining m))"
    if "m \<in> set makers" for m
    using unat_pro_rata_share [OF len less that] total(1) by simp
  have shares: "map unat shares = map (lot_share (unat available) (sum_list ws) (unat lot)) ws"
    using share by (simp add: shares_def ws_def)
  have below: "unat (pro_rata_share lot available (level_total makers) m) \<le> units (maker_remaining m) \<and>
      (units (maker_remaining m) \<noteq> 0 \<longrightarrow>
        unat (pro_rata_share lot available (level_total makers) m) < units (maker_remaining m))"
    if "m \<in> set makers" for m
    using share [OF that] pro_rata_exact(2) [OF len less that] total(1)
      lot_share_le [of "unat available" "sum_list ws" "unat lot" "units (maker_remaining m)"]
    by (cases "units (maker_remaining m) = 0") auto
  have ok_shares: "list_all2 (share_ok lot) makers shares"
    using below share by (auto simp: share_ok_def shares_def list_all2_conv_all_nth)
  have "headroom_count ms (map (pro_rata_share lot available (level_total makers)) ms) =
      length (filter ((<) 0) (map (\<lambda>m. units (maker_remaining m)) ms))" if "set ms \<subseteq> set makers" for ms
    using that below by (induction ms) (auto simp: not_less_eq)
  then have room: "headroom_count makers shares = length (filter ((<) 0) ws)"
    by (simp add: shares_def ws_def)
  have sum: "sum_list (map unat shares) \<le> unat available"
    using sum_lot_share_le [OF total(2) lot(2)] by (simp add: shares)
  then have "unat (sum_list shares) = sum_list (map unat shares)"
    using unat_u64_bound [of available] by (intro unat_sum_list_exact) (simp del: unat_u64_bound)
  with sum have left: "unat (available - sum_list shares) = unat available - sum_list (map unat shares)"
    by (simp add: unat_sub_exact)
  have "unat lot dvd sum_list (map unat shares)"
    unfolding shares by (intro dvd_sum_list) auto
  with left dvd have "unat lot dvd unat (available - sum_list shares)" by simp
  moreover have "unat (available - sum_list shares) \<le> unat lot * headroom_count makers shares"
    using left le_sum_lot_share [OF total(2) lot(2), of "unat available"] by (simp add: shares room)
  ultimately obtain ss where "crumb_sweep lot (available - sum_list shares) makers shares = (ss, 0)"
    "list_all2 (share_ok lot) makers ss"
    "list_all2 (\<lambda>s s'. s' = s \<or> unat s' = unat s + unat lot) shares ss"
    "sum_list (map unat ss) = sum_list (map unat shares) + unat (available - sum_list shares)"
    using crumb_sweep_places_all [OF ok_shares lot(1) dvd(2)] by blast
  with left sum show ?thesis by (auto simp: pro_rata_sweep_def shares_def Let_def)
qed

interpretation pro_rata: matching_algorithm "pro_rata_matcher lot" lot for lot
proof
  fix available makers now
  assume ok: "alloc_inputs_ok lot available makers"
  then have len: "length makers < 2 ^ 63" by (simp add: alloc_inputs_ok_def)
  show "fills_ok (allocate (pro_rata_matcher lot) available makers now) available makers lot"
  proof (cases "total_units makers \<le> units available")
    case True
    with take_everything_ok [OF ok True] unat_level_total [OF len] show ?thesis
      by (simp add: pro_rata_matcher_def pro_rata_allocate_def word_le_nat_alt)
  next
    case False
    with pro_rata_sweep_spec [of lot "base available" makers] ok obtain ss
      where "pro_rata_sweep lot (base available) makers = (ss, 0)" "list_all2 (share_ok lot) makers ss"
        "sum_list (map unat ss) = units available"
      by auto
    with False collect_shares_ok [of lot makers ss available] unat_level_total [OF len] show ?thesis
      by (simp add: pro_rata_matcher_def pro_rata_allocate_def word_le_nat_alt)
  qed
qed (simp add: pro_rata_matcher_def)

text \<open>
  C29. Proportionality: below the size of the level, \<open>ProRataMatcher\<close> gives every maker its exact
  proportional share floored to a whole lot, or one lot more; and its one crumb sweep leaves
  nothing to hand out.
\<close>

theorem pro_rata_within_one_lot:
  assumes "alloc_inputs_ok lot available makers" and "units available < total_units makers"
    and "i < length makers"
  shows "snd (pro_rata_sweep lot (base available) makers) = 0 \<and>
    filled_at (allocate (pro_rata_matcher lot) available makers now) i -
      units available * units (maker_remaining (makers ! i)) div total_units makers div unat lot * unat lot
      \<in> {0, unat lot} \<and>
    units available * units (maker_remaining (makers ! i)) div total_units makers div unat lot * unat lot
      \<le> filled_at (allocate (pro_rata_matcher lot) available makers now) i"
proof -
  from assms(1) have len: "length makers < 2 ^ 63" by (simp add: alloc_inputs_ok_def)
  let ?share = "pro_rata_share lot (base available) (level_total makers) (makers ! i)"
  from pro_rata_sweep_spec [of lot "base available" makers] assms obtain ss where ss:
    "pro_rata_sweep lot (base available) makers = (ss, 0)" "list_all2 (share_ok lot) makers ss"
    "list_all2 (\<lambda>s s'. s' = s \<or> unat s' = unat s + unat lot)
       (map (pro_rata_share lot (base available) (level_total makers)) makers) ss"
    by auto
  then have "length ss = length makers" by (simp add: list_all2_lengthD)
  with ss(3) assms(3) have "ss ! i = ?share \<or> unat (ss ! i) = unat ?share + unat lot"
    by (simp add: list_all2_conv_all_nth)
  moreover have "filled_at (allocate (pro_rata_matcher lot) available makers now) i = unat (ss ! i)"
    using ss(1) assms(2,3) \<open>length ss = length makers\<close> unat_level_total [OF len]
    by (simp add: pro_rata_matcher_def pro_rata_allocate_def word_le_nat_alt filled_at_collect_shares)
  moreover have "unat ?share = lot_share (units available) (total_units makers) (unat lot)
      (units (maker_remaining (makers ! i)))"
    using unat_pro_rata_share [OF len assms(2)] assms(3) by simp
  ultimately show ?thesis using ss(1) by (auto simp: lot_share_def)
qed

text \<open>The example of the comment on \<open>ProRataMatcher\<close>: lot 10, makers of 10 and 20, a taker of 10.\<close>

definition lot_ten_makers :: "maker list" where
  "lot_ten_makers =
     [\<lparr>maker_remaining = Qty 10, maker_arrival = 0\<rparr>, \<lparr>maker_remaining = Qty 20, maker_arrival = 1\<rparr>]"

theorem pro_rata_within_one_lot_witness:
  "snd (pro_rata_sweep 10 10 lot_ten_makers) = 0 \<and>
    filled_at (allocate (pro_rata_matcher 10) (Qty 10) lot_ten_makers 5) 0 \<in> {0, 10}"
proof -
  have "alloc_inputs_ok 10 (Qty 10) lot_ten_makers"
    by (simp add: alloc_inputs_ok_def lot_ten_makers_def is_multiple_of_def)
  from pro_rata_within_one_lot [OF this, of 0 5] show ?thesis
    by (simp add: lot_ten_makers_def)
qed

end
