(* ===== verification/Time_Pro_Rata_Matcher.thy ===== *)
theory Time_Pro_Rata_Matcher
  imports Pro_Rata_Matcher
begin

text \<open>
  \<open>TimeProRataMatcher\<close> of \<^verbatim>\<open>src/src/allocation.rs\<close>: shares in proportion to size times age,
  water-filled where a share overruns what a maker holds.
\<close>

record time_pro_rata =
  tpr_lot :: u64
  tick :: u128
  max_age_ticks :: u128

text \<open>The constructors; \<open>None\<close> is a failed \<open>assert!\<close>.\<close>

definition time_pro_rata_new :: "u64 \<Rightarrow> time_pro_rata option" where
  "time_pro_rata_new lot =
     (if 0 < lot then Some \<lparr>tpr_lot = lot, tick = 1, max_age_ticks = 65535\<rparr> else None)"

definition with_tick :: "time_pro_rata \<Rightarrow> u128 \<Rightarrow> time_pro_rata option" where
  "with_tick t n = (if 0 < n then Some (t\<lparr>tick := n\<rparr>) else None)"

definition with_max_age :: "time_pro_rata \<Rightarrow> u128 \<Rightarrow> time_pro_rata option" where
  "with_max_age t n =
     (if 0 < n \<and> n \<le> u128_from 18446744073709551615 then Some (t\<lparr>max_age_ticks := n\<rparr>) else None)"

definition age_ticks :: "time_pro_rata \<Rightarrow> maker \<Rightarrow> u128 \<Rightarrow> u128" where
  "age_ticks t m now =
     (let age = saturating_sub now (maker_arrival m) div tick t
      in if age < 1 then 1 else if max_age_ticks t < age then max_age_ticks t else age)"

definition raw_weight :: "time_pro_rata \<Rightarrow> u128 \<Rightarrow> maker \<Rightarrow> u128" where
  "raw_weight t now m = u128_from (base (maker_remaining m)) * age_ticks t m now"

definition weight_shift :: "time_pro_rata \<Rightarrow> maker list \<Rightarrow> u128 \<Rightarrow> nat" where
  "weight_shift t makers now =
     (case checked_ilog2 (fold max (map (raw_weight t now) makers) 0) of
        None \<Rightarrow> 0
      | Some bits \<Rightarrow> bits - 63)"

definition weights :: "time_pro_rata \<Rightarrow> maker list \<Rightarrow> u128 \<Rightarrow> u128 list" where
  "weights t makers now =
     map (\<lambda>m. max (drop_bit (weight_shift t makers now) (raw_weight t now m)) 1) makers"

section \<open>The water-fill\<close>

text \<open>
  The three arrays of the loop run in parallel: the weights and the makers are zipped to rows,
  the shares are the loop's state. A maker contends while its share is below what it holds.
\<close>

fun contending_weights :: "(u128 \<times> maker) list \<Rightarrow> u64 list \<Rightarrow> u128 list" where
  "contending_weights ((w, m) # rows) (s # ss) =
     (if s < base (maker_remaining m) then [w] else []) @ contending_weights rows ss"
| "contending_weights rows ss = []"

text \<open>Cap everyone whose share overruns; the new shares and the quantity handed out.\<close>

fun cap_pass :: "u128 \<Rightarrow> u128 \<Rightarrow> (u128 \<times> maker) list \<Rightarrow> u64 list \<Rightarrow> u64 list \<times> u128" where
  "cap_pass pool weight_total ((w, m) # rows) (s # ss) =
     (let (ss', capped) = cap_pass pool weight_total rows ss;
          remaining = u128_from (base (maker_remaining m))
      in if s < base (maker_remaining m) \<and> remaining \<le> pool * w div weight_total
         then (base (maker_remaining m) # ss', remaining + capped)
         else (s # ss', capped))"
| "cap_pass pool weight_total rows ss = (ss, 0)"

text \<open>Nobody overruns: commit the shares floored to lots.\<close>

fun commit_pass :: "u64 \<Rightarrow> u128 \<Rightarrow> u128 \<Rightarrow> (u128 \<times> maker) list \<Rightarrow> u64 list \<Rightarrow> u64 list \<times> u128" where
  "commit_pass lot pool weight_total ((w, m) # rows) (s # ss) =
     (let (ss', allocated) = commit_pass lot pool weight_total rows ss;
          share = (pool * w div weight_total div u128_from lot) * u128_from lot
      in if s < base (maker_remaining m)
         then (as_u64 share # ss', share + allocated)
         else (s # ss', allocated))"
| "commit_pass lot pool weight_total rows ss = (ss, 0)"

lemma cap_pass_contending:
  "length (contending_weights rows (fst (cap_pass pool wt rows ss))) \<le> length (contending_weights rows ss) \<and>
   (snd (cap_pass pool wt rows ss) \<noteq> 0 \<longrightarrow>
     length (contending_weights rows (fst (cap_pass pool wt rows ss))) < length (contending_weights rows ss))"
  by (induction pool wt rows ss rule: cap_pass.induct) (auto simp: Let_def split: prod.splits)

function water_fill :: "u64 \<Rightarrow> u128 \<Rightarrow> (u128 \<times> maker) list \<Rightarrow> u64 list \<Rightarrow> u64 list \<times> u128" where
  "water_fill lot pool rows shares =
     (let weight_total = sum_list (contending_weights rows shares)
      in if weight_total = 0 then (shares, pool)
         else
           let (shares', capped) = cap_pass pool weight_total rows shares
           in if 0 < capped then water_fill lot (pool - capped) rows shares'
              else
                let (shares'', allocated) = commit_pass lot pool weight_total rows shares'
                in (shares'', pool - allocated))"
  by pat_completeness auto

termination
proof (relation "measure (\<lambda>(lot, pool, rows, shares). length (contending_weights rows shares))")
  fix lot pool rows shares weight_total p shares' capped
  assume "weight_total = sum_list (contending_weights rows shares)" and "weight_total \<noteq> (0 :: u128)"
    and p: "p = cap_pass pool weight_total rows shares" "(shares', capped) = p" and "0 < capped"
  then show "((lot :: u64, pool - capped, rows, shares'), lot, pool, rows, shares)
      \<in> measure (\<lambda>(lot, pool, rows, shares). length (contending_weights rows shares))"
    using cap_pass_contending [of rows pool weight_total shares]
    by (simp add: word_gt_0) (metis fst_conv snd_conv)
qed simp

declare water_fill.simps [simp del]

definition time_pro_rata_sweep :: "time_pro_rata \<Rightarrow> u64 \<Rightarrow> maker list \<Rightarrow> u128 \<Rightarrow> u64 list \<times> u64" where
  "time_pro_rata_sweep t available makers now =
     (let (shares, pool) =
        water_fill (tpr_lot t) (u128_from available) (zip (weights t makers now) makers)
          (map (\<lambda>_. 0) makers)
      in crumb_sweep (tpr_lot t) (as_u64 pool) makers shares)"

definition time_pro_rata_allocate :: "time_pro_rata \<Rightarrow> qty \<Rightarrow> maker list \<Rightarrow> u128 \<Rightarrow> fill list" where
  "time_pro_rata_allocate t available makers now =
     (if level_total makers \<le> u128_from (base available) then take_everything makers
      else collect_shares (fst (time_pro_rata_sweep t (base available) makers now)))"

definition time_pro_rata_matcher :: "time_pro_rata \<Rightarrow> matcher" where
  "time_pro_rata_matcher t =
     \<lparr>allocate = time_pro_rata_allocate t, matcher_lot_size = Some (tpr_lot t)\<rparr>"

section \<open>The weights fit 64 bits\<close>

text \<open>What the constructors establish.\<close>

definition tpr_ok :: "time_pro_rata \<Rightarrow> bool" where
  "tpr_ok t \<longleftrightarrow> tpr_lot t \<noteq> 0 \<and> tick t \<noteq> 0 \<and> 0 < unat (max_age_ticks t) \<and> unat (max_age_ticks t) < 2 ^ 64"

lemma tpr_ok_constructors:
  "time_pro_rata_new lot = Some t \<Longrightarrow> tpr_ok t"
  "tpr_ok t \<Longrightarrow> with_tick t n = Some t' \<Longrightarrow> tpr_ok t'"
  "tpr_ok t \<Longrightarrow> with_max_age t n = Some t' \<Longrightarrow> tpr_ok t'"
  by (auto simp: time_pro_rata_new_def with_tick_def with_max_age_def tpr_ok_def word_le_nat_alt
      word_less_nat_alt unat_gt_0 split: if_splits)

lemma age_ticks_bounds:
  "tpr_ok t \<Longrightarrow> 0 < unat (age_ticks t m now) \<and> unat (age_ticks t m now) < 2 ^ 64"
  by (auto simp: tpr_ok_def age_ticks_def Let_def word_less_nat_alt not_less)

lemma unat_raw_weight:
  assumes "tpr_ok t"
  shows "unat (raw_weight t now m) = units (maker_remaining m) * unat (age_ticks t m now)"
proof -
  have "units (maker_remaining m) * unat (age_ticks t m now) \<le> 18446744073709551615 * 18446744073709551615"
    using age_ticks_bounds [OF assms, of m now] by (intro mult_le_mono) simp_all
  then show ?thesis by (simp add: raw_weight_def unat_mult_exact)
qed

lemma fold_max_ge: "(x :: 'a::linorder) \<in> set (a # xs) \<Longrightarrow> x \<le> fold max xs a"
proof (induction xs arbitrary: a x)
  case (Cons y ys)
  have "a \<le> fold max ys (max y a)" and "y \<le> fold max ys (max y a)"
    using Cons.IH [of "max y a" "max y a"] by (simp_all add: max.coboundedI1)
  with Cons show ?case by auto
qed simp

lemma unat_drop_bit_div: "unat (drop_bit n w) = unat w div 2 ^ n"
  by (subst unat_drop_bit_eq) (rule drop_bit_eq_div)

lemma word_of_units: "word_of_nat (unat b) = u128_from b"
  by (simp add: u128_from_def)

lemma shifted_below_word:
  "n \<le> (k :: nat) \<Longrightarrow> n div 2 ^ (ilog2_nat k - 63) < 2 ^ 64"
proof (cases "k = 0")
  case False
  assume "n \<le> k"
  with False ilog2_nat_bounds [of k] have "n < 2 ^ Suc (ilog2_nat k)" by simp
  also have "\<dots> \<le> 2 ^ (64 + (ilog2_nat k - 63))" by (intro power_increasing) auto
  finally show ?thesis by (simp add: div_less_iff_less_mult power_add mult.commute)
qed simp

lemma weights_bounds:
  assumes "w \<in> set (weights t makers now)"
  shows "0 < unat w" and "unat w < 2 ^ 64"
proof -
  let ?max = "fold max (map (raw_weight t now) makers) 0"
  from assms obtain m where m: "m \<in> set makers"
    and w: "w = max (drop_bit (weight_shift t makers now) (raw_weight t now m)) 1"
    by (auto simp: weights_def)
  have le: "unat (raw_weight t now m) \<le> unat ?max"
    using fold_max_ge [of "raw_weight t now m" 0 "map (raw_weight t now) makers"] m
    by (simp add: word_le_nat_alt)
  have "unat (drop_bit (weight_shift t makers now) (raw_weight t now m)) < 2 ^ 64"
  proof (cases "?max = 0")
    case True
    with le show ?thesis by (simp add: weight_shift_def checked_ilog2_def unat_drop_bit_div)
  next
    case False
    then have "weight_shift t makers now = ilog2_nat (unat ?max) - 63"
      by (simp add: weight_shift_def checked_ilog2_def)
    with shifted_below_word [OF le] show ?thesis by (simp add: unat_drop_bit_div)
  qed
  with w show "0 < unat w" and "unat w < 2 ^ 64"
    by (auto simp: max_def word_le_nat_alt not_le)
qed

section \<open>The passes of the water-fill\<close>

text \<open>A weight fits a product with the pool; a maker in the loop has nothing yet, or all it holds.\<close>

definition filling :: "u64 \<Rightarrow> u128 \<times> maker \<Rightarrow> u64 \<Rightarrow> bool" where
  "filling lot row s \<longleftrightarrow>
     0 < unat (fst row) \<and> unat (fst row) < 2 ^ 64 \<and> unat lot dvd units (maker_remaining (snd row)) \<and>
     (s = 0 \<or> s = base (maker_remaining (snd row)))"

fun contending_units :: "(u128 \<times> maker) list \<Rightarrow> u64 list \<Rightarrow> nat" where
  "contending_units ((w, m) # rows) (s # ss) =
     (if s < base (maker_remaining m) then units (maker_remaining m) else 0) + contending_units rows ss"
| "contending_units rows ss = 0"

abbreviation contending_weight :: "(u128 \<times> maker) list \<Rightarrow> u64 list \<Rightarrow> nat" where
  "contending_weight rows ss \<equiv> sum_list (map unat (contending_weights rows ss))"

text \<open>Nobody's proportional share reaches what it holds.\<close>

fun none_overruns :: "nat \<Rightarrow> nat \<Rightarrow> (u128 \<times> maker) list \<Rightarrow> u64 list \<Rightarrow> bool" where
  "none_overruns pool W ((w, m) # rows) (s # ss) \<longleftrightarrow>
     (s < base (maker_remaining m) \<longrightarrow> pool * unat w div W < units (maker_remaining m)) \<and>
     none_overruns pool W rows ss"
| "none_overruns pool W rows ss \<longleftrightarrow> True"

lemma unat_pool_product:
  assumes "unat pool < 2 ^ 64" and "unat w < 2 ^ 64"
  shows "unat (pool * w :: u128) = unat pool * unat w"
proof -
  have "unat pool * unat w \<le> 18446744073709551615 * 18446744073709551615"
    using assms by (intro mult_le_mono) simp_all
  then show ?thesis by (simp add: unat_mult_exact)
qed

lemma cap_pass_spec:
  assumes "list_all2 (filling lot) rows ss" and pool: "unat pool < 2 ^ 64" and "W \<noteq> 0"
  shows "\<exists>ss' h. cap_pass pool W rows ss = (ss', word_of_nat h) \<and> list_all2 (filling lot) rows ss' \<and>
    sum_list (map unat ss') = sum_list (map unat ss) + h \<and>
    contending_units rows ss = contending_units rows ss' + h \<and> unat lot dvd h \<and>
    unat W * h \<le> unat pool * contending_weight rows ss \<and>
    (h = 0 \<longrightarrow> ss' = ss \<and> none_overruns (unat pool) (unat W) rows ss)"
  using assms(1)
proof (induction rule: list_all2_induct)
  case Nil
  show ?case by simp
next
  case (Cons row rows s ss)
  obtain w m where row: "row = (w, m)" by (cases row)
  from Cons.IH obtain ss' h where ih: "cap_pass pool W rows ss = (ss', word_of_nat h)"
    "list_all2 (filling lot) rows ss'" "sum_list (map unat ss') = sum_list (map unat ss) + h"
    "contending_units rows ss = contending_units rows ss' + h" "unat lot dvd h"
    "unat W * h \<le> unat pool * contending_weight rows ss"
    "h = 0 \<longrightarrow> ss' = ss \<and> none_overruns (unat pool) (unat W) rows ss" by blast
  let ?r = "maker_remaining m"
  have hit: "u128_from (base ?r) \<le> pool * w div W \<longleftrightarrow> units ?r \<le> unat pool * unat w div unat W"
    using Cons.hyps(1) pool row by (simp add: word_le_nat_alt unat_div unat_pool_product filling_def)
  show ?case
  proof (cases "s < base ?r \<and> units ?r \<le> unat pool * unat w div unat W")
    case True
    then have s: "s = 0" using Cons.hyps(1) row by (auto simp: filling_def)
    have "unat W * units ?r \<le> unat pool * unat w"
      using True assms(3) by (simp add: less_eq_div_iff_mult_less_eq unat_gt_0 mult.commute)
    moreover have "cap_pass pool W (row # rows) (s # ss) = (base ?r # ss', word_of_nat (units ?r + h))"
      using True hit ih(1) row by (simp add: Let_def word_of_units del: of_nat_unat)
    moreover have "units ?r \<noteq> 0" using True by (auto simp: word_less_nat_alt)
    moreover have "filling lot row (base ?r)" and "unat lot dvd units ?r"
      using Cons.hyps(1) row by (simp_all add: filling_def)
    ultimately show ?thesis
      using ih(2-6) True row s
      by (intro exI [of _ "base ?r # ss'"] exI [of _ "units ?r + h"])
        (simp add: distrib_left)
  next
    case False
    with ih Cons.hyps(1) row hit show ?thesis
      by (intro exI [of _ "s # ss'"] exI [of _ h]) (auto simp: distrib_left not_le)
  qed
qed

text \<open>The total of the floored shares.\<close>

definition lot_shares :: "u128 \<Rightarrow> u128 \<Rightarrow> u64 \<Rightarrow> u128 list \<Rightarrow> nat" where
  "lot_shares pool W lot ws =
     sum_list (map (lot_share (unat pool) (unat W) (unat lot)) (map unat ws))"

lemma lot_shares_simps [simp]:
  "lot_shares pool W lot [] = 0"
  "lot_shares pool W lot (w # ws) =
     lot_share (unat pool) (unat W) (unat lot) (unat w) + lot_shares pool W lot ws"
  by (simp_all add: lot_shares_def)

lemma commit_pass_spec:
  assumes "list_all2 (filling lot) rows ss" and "none_overruns (unat pool) (unat W) rows ss"
    and pool: "unat pool < 2 ^ 64"
  shows "\<exists>ss'. commit_pass lot pool W rows ss =
      (ss', word_of_nat (lot_shares pool W lot (contending_weights rows ss))) \<and>
    list_all2 (share_ok lot) (map snd rows) ss' \<and>
    sum_list (map unat ss') = sum_list (map unat ss) +
      lot_shares pool W lot (contending_weights rows ss) \<and>
    headroom_count (map snd rows) ss' = length (contending_weights rows ss)"
  using assms(1,2)
proof (induction rule: list_all2_induct)
  case Nil
  show ?case by simp
next
  case (Cons row rows s ss)
  obtain w m where row: "row = (w, m)" by (cases row)
  let ?r = "maker_remaining m"
  let ?sum = "lot_shares pool W lot"
  from Cons row obtain ss' where ih:
    "commit_pass lot pool W rows ss = (ss', word_of_nat (?sum (contending_weights rows ss)))"
    "list_all2 (share_ok lot) (map snd rows) ss'"
    "sum_list (map unat ss') = sum_list (map unat ss) + ?sum (contending_weights rows ss)"
    "headroom_count (map snd rows) ss' = length (contending_weights rows ss)" by auto
  have fill: "unat w < 2 ^ 64" "unat lot dvd units ?r" "s = 0 \<or> s = base ?r"
    using Cons.hyps(1) row by (simp_all add: filling_def)
  show ?case
  proof (cases "s < base ?r")
    case True
    let ?share = "(pool * w div W div u128_from lot) * u128_from lot"
    let ?n = "lot_share (unat pool) (unat W) (unat lot) (unat w)"
    from True fill(3) have s: "s = 0" by auto
    have exact: "unat (pool * w div W) = unat pool * unat w div unat W"
      using pool fill(1) by (simp add: unat_div unat_pool_product)
    moreover have below: "unat pool * unat w div unat W < units ?r"
      using True Cons.prems row by simp
    ultimately have "unat (pool * w div W) < 2 ^ 64"
      using less_trans [OF _ unat_u64_bound [of "base ?r"]] by simp
    then have share: "unat ?share = ?n" "unat (as_u64 ?share) = ?n"
      by (simp_all add: unat_lot_floor exact lot_share_def)
    moreover have "?n < units ?r" using lot_share_le below by (rule le_less_trans)
    ultimately have "share_ok lot m (as_u64 ?share)" by (simp add: share_ok_def)
    moreover have "?share + word_of_nat n = word_of_nat (?n + n)" for n
      by (simp flip: share(1))
    ultimately show ?thesis
      using ih True row s share \<open>?n < units ?r\<close>
      by (intro exI [of _ "as_u64 ?share # ss'"]) (simp add: Let_def)
  next
    case False
    with fill have "s = base ?r" by (auto simp: word_gt_0)
    moreover from this fill have "share_ok lot m s" by (simp add: share_ok_def)
    ultimately show ?thesis
      using ih row by (intro exI [of _ "s # ss'"]) simp
  qed
qed

section \<open>The water-fill and the contract\<close>

lemma contending_facts:
  assumes "list_all2 (filling lot) rows ss"
  shows "length (contending_weights rows ss) \<le> length rows"
    and "set (contending_weights rows ss) \<subseteq> {w. 0 < unat w \<and> unat w < 2 ^ 64}"
    and "contending_weights rows ss = [] \<Longrightarrow> contending_units rows ss = 0"
  using assms by (induction rule: list_all2_induct) (auto simp: filling_def split: if_splits)

lemma unat_sum_contending:
  assumes "list_all2 (filling lot) rows ss" and "length rows < 2 ^ 63"
  shows "unat (sum_list (contending_weights rows ss)) = contending_weight rows ss"
proof (rule unat_sum_list_exact)
  have "contending_weight rows ss \<le> sum_list (map (\<lambda>w. 2 ^ 64) (contending_weights rows ss))"
    using contending_facts(2) [OF assms(1)] by (intro sum_list_map_le) auto
  also have "\<dots> = length (contending_weights rows ss) * 2 ^ 64" by (simp add: sum_list_triv)
  also have "\<dots> < 2 ^ LENGTH(128)"
    using contending_facts(1) [OF assms(1)] assms(2) by simp
  finally show "contending_weight rows ss < 2 ^ LENGTH(128)" .
qed

lemma water_fill_spec:
  assumes "list_all2 (filling lot) rows ss" and "unat pool < 2 ^ 64" and "unat lot dvd unat pool"
    and "unat pool < contending_units rows ss" and lot: "lot \<noteq> 0" and len: "length rows < 2 ^ 63"
  shows "\<exists>ss' p. water_fill lot pool rows ss = (ss', p) \<and>
    list_all2 (share_ok lot) (map snd rows) ss' \<and> unat p < 2 ^ 64 \<and> unat lot dvd unat p \<and>
    unat p \<le> unat lot * headroom_count (map snd rows) ss' \<and>
    sum_list (map unat ss') + unat p = sum_list (map unat ss) + unat pool"
  using assms(1-4)
proof (induction "length (contending_weights rows ss)" arbitrary: pool ss rule: less_induct)
  case less
  define W where "W = sum_list (contending_weights rows ss)"
  have W: "unat W = contending_weight rows ss"
    unfolding W_def by (rule unat_sum_contending [OF less.prems(1) len])
  have "contending_weights rows ss \<noteq> []"
    using contending_facts(3) [OF less.prems(1)] less.prems(4) by auto
  then have "contending_weight rows ss \<noteq> 0"
    using contending_facts(2) [OF less.prems(1)] by (cases "contending_weights rows ss") auto
  with W have W0: "W \<noteq> 0" by auto
  from cap_pass_spec [OF less.prems(1,2) W0] obtain ss' h where
    cap: "cap_pass pool W rows ss = (ss', word_of_nat h)" "list_all2 (filling lot) rows ss'"
      "sum_list (map unat ss') = sum_list (map unat ss) + h"
      "contending_units rows ss = contending_units rows ss' + h" "unat lot dvd h"
      "unat W * h \<le> unat pool * unat W"
      "h = 0 \<longrightarrow> ss' = ss \<and> none_overruns (unat pool) (unat W) rows ss"
    unfolding W by blast
  have h: "h \<le> unat pool" using cap(6) W0 by (simp add: mult.commute unat_gt_0)
  then have unat_h: "unat (word_of_nat h :: u128) = h"
    using less.prems(2) by (simp add: unat_of_nat)
  show ?case
  proof (cases "h = 0")
    case False
    let ?pool = "pool - word_of_nat h"
    have pool: "unat ?pool = unat pool - h" using h unat_h by (simp add: unat_sub_exact)
    have shrinks: "length (contending_weights rows ss') < length (contending_weights rows ss)"
      using cap_pass_contending [of rows pool W ss] cap(1) False unat_h by (auto simp: word_unat_eq_iff)
    have "unat ?pool < 2 ^ 64" using pool less.prems(2) by simp
    moreover have "unat lot dvd unat ?pool" using pool less.prems(3) cap(5) by simp
    moreover have "unat ?pool < contending_units rows ss'" using pool less.prems(4) cap(4) h by simp
    moreover have "water_fill lot pool rows ss = water_fill lot ?pool rows ss'"
      using False unat_h W0 cap(1)
      by (subst water_fill.simps) (simp add: Let_def word_gt_0 word_unat_eq_iff flip: W_def)
    ultimately show ?thesis
      using less.hyps [OF shrinks cap(2), of ?pool] pool h cap(3) by auto
  next
    case True
    with cap(7) have ss: "ss' = ss" and none: "none_overruns (unat pool) (unat W) rows ss" by auto
    let ?n = "lot_shares pool W lot (contending_weights rows ss)"
    from commit_pass_spec [OF less.prems(1) none less.prems(2)] obtain ss'' where
      commit: "commit_pass lot pool W rows ss = (ss'', word_of_nat ?n)"
        "list_all2 (share_ok lot) (map snd rows) ss''"
        "sum_list (map unat ss'') = sum_list (map unat ss) + ?n"
        "headroom_count (map snd rows) ss'' = length (contending_weights rows ss)" by blast
    have W': "0 < sum_list (map unat (contending_weights rows ss))"
      using W W0 by (metis unat_gt_0)
    have lot': "0 < unat lot" using lot by (simp add: unat_gt_0)
    have n: "?n \<le> unat pool"
      using sum_lot_share_le [OF W' lot', of "unat pool"] by (simp add: lot_shares_def W)
    have "filter ((<) 0) (map unat (contending_weights rows ss)) = map unat (contending_weights rows ss)"
      using contending_facts(2) [OF less.prems(1)] by (auto simp: filter_id_iff)
    then have cover: "unat pool \<le> ?n + unat lot * length (contending_weights rows ss)"
      using le_sum_lot_share [OF W' lot', of "unat pool"] by (simp add: lot_shares_def W)
    have "unat (word_of_nat ?n :: u128) = ?n" using n less.prems(2) by (simp add: unat_of_nat)
    then have p: "unat (pool - word_of_nat ?n) = unat pool - ?n" using n by (simp add: unat_sub_exact)
    have "unat lot dvd ?n" unfolding lot_shares_def by (intro dvd_sum_list) auto
    moreover have "water_fill lot pool rows ss = (ss'', pool - word_of_nat ?n)"
      using True W0 cap(1) ss commit(1)
      by (subst water_fill.simps) (simp add: Let_def flip: W_def)
    ultimately show ?thesis
      using commit p n cover less.prems(2,3) by (intro exI [of _ ss''] exI) auto
  qed
qed

lemma contending_units_start:
  "length ws = length ms \<Longrightarrow> contending_units (zip ws ms) (map (\<lambda>_. 0) ms) = total_units ms"
  by (induction ws ms rule: list_induct2) (auto simp: word_gt_0 unat_eq_zero)

lemma time_pro_rata_sweep_spec:
  assumes t: "tpr_ok t" and ok: "alloc_inputs_ok (tpr_lot t) (Qty available) makers"
    and less: "unat available < total_units makers"
  shows "\<exists>ss. time_pro_rata_sweep t available makers now = (ss, 0) \<and>
    list_all2 (share_ok (tpr_lot t)) makers ss \<and> sum_list (map unat ss) = unat available"
proof -
  let ?rows = "zip (weights t makers now) makers" and ?lot = "tpr_lot t"
  have len: "length (weights t makers now) = length makers" by (simp add: weights_def)
  have lot: "?lot \<noteq> 0" "length makers < 2 ^ 63" "unat ?lot dvd unat available"
    and dvd: "\<forall>m\<in>set makers. unat ?lot dvd units (maker_remaining m)"
    using ok by (auto simp: alloc_inputs_ok_def is_multiple_of_unat)
  have "list_all2 (filling ?lot) ?rows (map (\<lambda>_. 0) makers)"
    using weights_bounds [of _ t makers now] dvd len
    by (auto simp: list_all2_conv_all_nth filling_def)
  moreover have "unat (u128_from available) < contending_units ?rows (map (\<lambda>_. 0) makers)"
    using less len by (simp add: contending_units_start)
  ultimately obtain ss p where fill: "water_fill ?lot (u128_from available) ?rows (map (\<lambda>_. 0) makers) = (ss, p)"
    "list_all2 (share_ok ?lot) makers ss" "unat p < 2 ^ 64" "unat ?lot dvd unat p"
    "unat p \<le> unat ?lot * headroom_count makers ss"
    "sum_list (map unat ss) + unat p = unat available"
    using water_fill_spec [of ?lot ?rows "map (\<lambda>_. 0) makers" "u128_from available"] lot len
    by (auto simp: sum_list_triv comp_def)
  from fill(3) have "unat (as_u64 p) = unat p" by (simp add: unat_as_u64_small)
  with crumb_sweep_places_all [OF fill(2) lot(1) dvd, of "as_u64 p"] fill obtain ss' where
    "crumb_sweep ?lot (as_u64 p) makers ss = (ss', 0)" "list_all2 (share_ok ?lot) makers ss'"
    "sum_list (map unat ss') = unat available" by auto
  with fill(1) show ?thesis by (simp add: time_pro_rata_sweep_def)
qed

lemma time_pro_rata_algorithm:
  assumes "tpr_ok t"
  shows "matching_algorithm (time_pro_rata_matcher t) (tpr_lot t)"
proof
  fix available makers now
  assume ok: "alloc_inputs_ok (tpr_lot t) available makers"
  then have len: "length makers < 2 ^ 63" by (simp add: alloc_inputs_ok_def)
  show "fills_ok (allocate (time_pro_rata_matcher t) available makers now) available makers (tpr_lot t)"
  proof (cases "total_units makers \<le> units available")
    case True
    with take_everything_ok [OF ok True] unat_level_total [OF len] show ?thesis
      by (simp add: time_pro_rata_matcher_def time_pro_rata_allocate_def word_le_nat_alt)
  next
    case False
    with time_pro_rata_sweep_spec [of t "base available" makers now] ok assms obtain ss
      where "time_pro_rata_sweep t (base available) makers now = (ss, 0)"
        "list_all2 (share_ok (tpr_lot t)) makers ss" "sum_list (map unat ss) = units available"
      by auto
    with False collect_shares_ok [of "tpr_lot t" makers ss available] unat_level_total [OF len]
    show ?thesis
      by (simp add: time_pro_rata_matcher_def time_pro_rata_allocate_def word_le_nat_alt)
  qed
qed (simp add: time_pro_rata_matcher_def)

text \<open>The default configuration of a lot.\<close>

definition default_time_pro_rata :: "u64 \<Rightarrow> time_pro_rata" where
  "default_time_pro_rata lot = \<lparr>tpr_lot = lot, tick = 1, max_age_ticks = 65535\<rparr>"

interpretation time_pro_rata:
  matching_algorithm "time_pro_rata_matcher (default_time_pro_rata lot)" lot for lot
proof
  fix available makers now
  assume ok: "alloc_inputs_ok lot available makers"
  then have "tpr_ok (default_time_pro_rata lot)"
    by (simp add: default_time_pro_rata_def tpr_ok_def alloc_inputs_ok_def)
  from matching_algorithm.allocate_ok [OF time_pro_rata_algorithm [OF this]] ok
  show "fills_ok (allocate (time_pro_rata_matcher (default_time_pro_rata lot)) available makers now)
      available makers lot"
    by (simp add: default_time_pro_rata_def)
qed (simp add: time_pro_rata_matcher_def default_time_pro_rata_def)

text \<open>
  C27. The time-weighted policy honours the contract with any constructed configuration: the
  water-fill ends, no maker is over its remaining quantity, every fill is a whole number of lots
  and the total is exactly what the taker and the level allow; and its crumb sweep leaves nothing.
\<close>

theorem time_pro_rata_honours_contract:
  assumes "tpr_ok t" and "alloc_inputs_ok (tpr_lot t) available makers"
  shows "fills_ok (allocate (time_pro_rata_matcher t) available makers now) available makers (tpr_lot t) \<and>
    (units available < total_units makers \<longrightarrow>
       snd (time_pro_rata_sweep t (base available) makers now) = 0)"
  using matching_algorithm.allocate_ok [OF time_pro_rata_algorithm [OF assms(1)] assms(2)]
    time_pro_rata_sweep_spec [of t "base available" makers now] assms
  by auto

text \<open>The example of the comment on \<open>TimeProRataMatcher\<close>: a share of 4 for a maker of 1.\<close>

definition aged_makers :: "maker list" where
  "aged_makers =
     [\<lparr>maker_remaining = Qty 1, maker_arrival = 0\<rparr>, \<lparr>maker_remaining = Qty 100, maker_arrival = 9\<rparr>]"

theorem time_pro_rata_honours_contract_witness:
  "fills_ok (allocate (time_pro_rata_matcher (default_time_pro_rata 1)) (Qty 50) aged_makers 10)
     (Qty 50) aged_makers 1"
proof -
  have "tpr_ok (default_time_pro_rata 1)"
    by (simp add: tpr_ok_def default_time_pro_rata_def)
  moreover have "alloc_inputs_ok (tpr_lot (default_time_pro_rata 1)) (Qty 50) aged_makers"
    by (simp add: alloc_inputs_ok_def aged_makers_def is_multiple_of_def default_time_pro_rata_def)
  ultimately show ?thesis
    using time_pro_rata_honours_contract [of "default_time_pro_rata 1" "Qty 50" aged_makers 10]
    by (simp add: default_time_pro_rata_def)
qed

section \<open>Equal ages\<close>

lemma cap_pass_none:
  assumes "list_all2 (filling lot) rows ss" and "none_overruns (unat pool) (unat W) rows ss"
    and "unat pool < 2 ^ 64"
  shows "cap_pass pool W rows ss = (ss, 0)"
  using assms(1,2)
proof (induction rule: list_all2_induct)
  case (Cons row rows s ss)
  obtain w m where row: "row = (w, m)" by (cases row)
  have "u128_from (base (maker_remaining m)) \<le> pool * w div W \<longleftrightarrow>
      units (maker_remaining m) \<le> unat pool * unat w div unat W"
    using Cons.hyps(1) assms(3) row
    by (simp add: word_le_nat_alt unat_div unat_pool_product filling_def)
  with Cons row show ?case by (auto simp: Let_def)
qed simp

lemma u128_from_zero [simp]: "u128_from 0 = 0" "as_u64 0 = 0"
  by (simp_all add: u128_from_def as_u64_def)

lemma fst_commit_pass [simp]:
  "fst (commit_pass lot pool W ((w, m) # rows) (s # ss)) =
     (if s < base (maker_remaining m)
      then as_u64 ((pool * w div W div u128_from lot) * u128_from lot) else s) #
     fst (commit_pass lot pool W rows ss)"
  by (simp add: Let_def split: prod.splits)

lemma equal_age_weight:
  assumes "f m = max (g m) 1 \<and> unat (g m) = units (maker_remaining m) * a \<and> unat (g m) < 2 ^ 64 \<and> a \<noteq> 0"
    and "maker_remaining m \<noteq> 0"
  shows "f m = (g m :: u128)"
proof -
  have "0 < unat (g m)" using assms by auto
  then have "(1 :: u128) \<le> g m" by (simp only: word_le_nat_alt unat_1)
  with assms(1) show ?thesis by (simp add: max_def)
qed

lemma equal_ages_total:
  assumes "\<forall>m\<in>set ms. f m = max (g m) (1 :: u128) \<and> unat (g m) = units (maker_remaining m) * a \<and>
      unat (g m) < 2 ^ 64 \<and> a \<noteq> 0" (is "\<forall>m\<in>set ms. ?g m")
  shows "contending_weight (zip (map f ms) ms) (map (\<lambda>_. 0) ms) = total_units ms * a"
  using assms
proof (induction ms)
  case (Cons m ms)
  from Cons.prems have "\<forall>m\<in>set ms. ?g m" and m: "?g m"
    by (meson list.set_intros)+
  note ih = Cons.IH [OF this(1)]
  show ?case
  proof (cases "maker_remaining m = 0")
    case False
    then have "0 < base (maker_remaining m)" by (metis units_eq_0_iff word_gt_0 unat_eq_zero)
    moreover have "unat (f m) = units (maker_remaining m) * a"
      using equal_age_weight [of f m g a] m False by metis
    ultimately show ?thesis using ih by (simp add: add_mult_distrib)
  qed (use ih in simp)
qed simp

lemma equal_ages_commit:
  assumes "\<forall>m\<in>set ms. f m = max (g m) 1 \<and> unat (g m) = units (maker_remaining m) * a \<and>
      unat (g m) < 2 ^ 64 \<and> a \<noteq> 0" (is "\<forall>m\<in>set ms. ?g m")
    and pool: "unat pool < 2 ^ 64" and W: "unat W = T * a" and T: "unat pool < T" and "T < 2 ^ 128"
  shows "fst (commit_pass lot pool W (zip (map f ms) ms) (map (\<lambda>_. 0) ms)) =
      map (\<lambda>m. as_u64 ((pool * u128_from (base (maker_remaining m)) div word_of_nat T div u128_from lot) *
        u128_from lot)) ms"
    and "none_overruns (unat pool) (unat W) (zip (map f ms) ms) (map (\<lambda>_. 0) ms)"
proof -
  have T': "unat (word_of_nat T :: u128) = T" using assms(5) by (simp add: unat_of_nat)
  have quot: "pool * f m div W = pool * u128_from (base (maker_remaining m)) div word_of_nat T \<and>
      unat pool * unat (f m) div unat W < units (maker_remaining m) \<and>
      unat (f m) = units (maker_remaining m) * a"
    if "?g m" and m: "maker_remaining m \<noteq> 0" for m
  proof -
    have a: "a \<noteq> 0" using that(1) by blast
    have f: "f m = g m" and g: "unat (g m) = units (maker_remaining m) * a"
      using equal_age_weight [of f m g a] that by blast+
    have small: "unat (f m) < 2 ^ 64" using f that(1) by simp
    have "unat pool * (units (maker_remaining m) * a) div (T * a) = unat pool * units (maker_remaining m) div T"
      using a by (simp add: div_mult2_eq [symmetric] flip: mult.assoc)
    then have "unat (pool * f m div W) = unat pool * units (maker_remaining m) div T"
      using f g W pool small by (simp add: unat_div unat_pool_product)
    moreover have "unat (pool * u128_from (base (maker_remaining m)) div word_of_nat T) =
        unat pool * units (maker_remaining m) div T"
      using pool T' by (simp add: unat_div unat_pool_product)
    moreover have "unat pool * units (maker_remaining m) div T < units (maker_remaining m)"
      using T m by (simp add: div_less_iff_less_mult mult.commute)
    moreover have "unat pool * unat (g m) div unat W = unat pool * units (maker_remaining m) div T"
      using g W \<open>unat pool * (units (maker_remaining m) * a) div (T * a) = _\<close> by simp
    ultimately show ?thesis
      unfolding f using g by (auto simp only: word_unat_eq_iff)
  qed
  show "fst (commit_pass lot pool W (zip (map f ms) ms) (map (\<lambda>_. 0) ms)) =
      map (\<lambda>m. as_u64 ((pool * u128_from (base (maker_remaining m)) div word_of_nat T div u128_from lot) *
        u128_from lot)) ms"
    using assms(1)
  proof (induction ms)
    case (Cons m ms)
    from Cons.prems have "\<forall>m\<in>set ms. ?g m" and m: "?g m"
      by (meson list.set_intros)+
    note ih = Cons.IH [OF this(1)]
    show ?case
    proof (cases "maker_remaining m = 0")
      case True
      with ih show ?thesis
        by (simp del: commit_pass.simps)
    next
      case False
      then have "0 < base (maker_remaining m)" by (metis units_eq_0_iff word_gt_0 unat_eq_zero)
      with ih quot [OF m False] show ?thesis by (simp del: commit_pass.simps)
    qed
  qed simp
  show "none_overruns (unat pool) (unat W) (zip (map f ms) ms) (map (\<lambda>_. 0) ms)"
    using assms(1)
  proof (induction ms)
    case (Cons m ms)
    from Cons.prems have "\<forall>m\<in>set ms. ?g m" and m: "?g m"
      by (meson list.set_intros)+
    note ih = Cons.IH [OF this(1)]
    show ?case
    proof (cases "maker_remaining m = 0")
      case False
      from quot [OF m False] have "unat pool * unat (f m) div unat W < units (maker_remaining m)"
        by blast
      with ih show ?thesis by simp
    qed (use ih in simp)
  qed simp
qed

lemma equal_ages_sweep:
  assumes t: "tpr_ok t" and ok: "alloc_inputs_ok (tpr_lot t) (Qty available) makers"
    and less: "unat available < total_units makers"
    and age: "\<forall>m\<in>set makers. age_ticks t m now = a"
    and small: "\<forall>m\<in>set makers. units (maker_remaining m) * unat a < 2 ^ 64"
  shows "time_pro_rata_sweep t available makers now = pro_rata_sweep (tpr_lot t) available makers"
proof -
  let ?lot = "tpr_lot t" and ?g = "raw_weight t now" and ?zeros = "map (\<lambda>_. 0) makers"
  define f where "f = (\<lambda>m. max (?g m) 1)"
  let ?rows = "zip (map f makers) makers" and ?pool = "u128_from available"
  define shares where "shares = map (pro_rata_share ?lot available (level_total makers)) makers"
  have lot: "?lot \<noteq> 0" "0 < unat ?lot" and len: "length makers < 2 ^ 63"
    and dvd: "unat ?lot dvd unat available" "\<forall>m\<in>set makers. unat ?lot dvd units (maker_remaining m)"
    using ok by (auto simp: alloc_inputs_ok_def is_multiple_of_unat unat_gt_0)
  from less obtain m where "m \<in> set makers" by (cases makers) auto
  with age age_ticks_bounds [OF t, of m now] have a: "unat a \<noteq> 0" by auto
  have g: "unat (?g m) = units (maker_remaining m) * unat a \<and> unat (?g m) < 2 ^ 64"
    if "m \<in> set makers" for m
    using that age small unat_raw_weight [OF t, of now m] by simp
  have "fold max (map ?g ms) x \<le> 18446744073709551615" if "x \<le> 18446744073709551615" "set ms \<subseteq> set makers" for ms x
    using that
  proof (induction ms arbitrary: x)
    case (Cons m ms)
    with g [of m] Cons.IH [of "max (?g m) x"] show ?case by (simp add: word_le_nat_alt max_def)
  qed simp
  from this [of 0 makers] have "unat (fold max (map ?g makers) 0) < 2 ^ 64"
    by (simp add: word_le_nat_alt)
  then have "weight_shift t makers now = 0"
    using ilog2_nat_bounds [of "unat (fold max (map ?g makers) 0)"]
      power_less_imp_less_exp [of "2 :: nat" "ilog2_nat (unat (fold max (map ?g makers) 0))" 64]
    by (auto simp: weight_shift_def checked_ilog2_def unat_gt_0 dest: le_less_trans)
  then have weights: "weights t makers now = map f makers"
    by (simp add: weights_def f_def)
  have fill: "list_all2 (filling ?lot) ?rows ?zeros"
    using weights_bounds [of _ t makers now] dvd(2)
    unfolding weights by (auto simp: list_all2_conv_all_nth filling_def)
  let ?W = "sum_list (contending_weights ?rows ?zeros)"
  have W: "unat ?W = contending_weight ?rows ?zeros"
    using unat_sum_contending [OF fill] len by simp
  have T: "total_units makers < 2 ^ 128" using total_units_bound [OF len] by simp
  have cond: "\<forall>m\<in>set makers. f m = max (?g m) 1 \<and> unat (?g m) = units (maker_remaining m) * unat a \<and>
      unat (?g m) < 2 ^ 64 \<and> unat a \<noteq> 0"
    unfolding f_def using g a by blast
  have Wa: "unat ?W = total_units makers * unat a"
    using equal_ages_total [OF cond] W by simp
  have pool: "unat ?pool < 2 ^ 64" "unat ?pool < total_units makers" using less by simp_all
  have level: "(word_of_nat (total_units makers) :: u128) = level_total makers"
    using unat_level_total [OF len] T by (simp add: word_unat_eq_iff unat_of_nat)
  note none = equal_ages_commit(2) [OF cond pool(1) Wa pool(2) T]
  have shares: "fst (commit_pass ?lot ?pool ?W ?rows ?zeros) = shares"
    using equal_ages_commit(1) [OF cond pool(1) Wa pool(2) T, of ?lot]
    by (simp add: shares_def pro_rata_share_def Let_def level)
  from commit_pass_spec [OF fill none pool(1)] shares obtain n where
    commit: "commit_pass ?lot ?pool ?W ?rows ?zeros = (shares, word_of_nat n)"
      "sum_list (map unat shares) = n"
    by (auto simp: sum_list_triv comp_def)
  have "?W \<noteq> 0" using Wa a less by auto
  then have water: "water_fill ?lot ?pool ?rows ?zeros = (shares, ?pool - word_of_nat n)"
    using cap_pass_none [OF fill none pool(1)] commit(1)
    by (subst water_fill.simps) (simp add: Let_def)
  have n: "n \<le> unat available"
  proof -
    have "map unat shares = map (lot_share (unat available) (total_units makers) (unat ?lot))
        (map (\<lambda>m. units (maker_remaining m)) makers)"
      using unat_pro_rata_share [OF len less] by (simp add: shares_def)
    then show ?thesis
      using sum_lot_share_le [of "map (\<lambda>m. units (maker_remaining m)) makers" "unat ?lot" "unat available"]
        commit(2) less lot(2) by (simp add: total_units_def)
  qed
  then have "unat (sum_list shares) = n"
    using commit(2) unat_u64_bound [of available]
    by (subst unat_sum_list_exact) (simp_all del: unat_u64_bound)
  with n have "unat (available - sum_list shares) = unat available - n"
    by (simp add: unat_sub_exact)
  moreover have "unat (word_of_nat n :: u128) = n"
    using n unat_u64_bound [of available] by (simp add: unat_of_nat del: unat_u64_bound)
  with n have "unat (?pool - word_of_nat n) = unat available - n" by (simp add: unat_sub_exact)
  ultimately have "as_u64 (?pool - word_of_nat n) = available - sum_list shares"
    using unat_u64_bound [of available] by (simp add: word_unat_eq_iff unat_as_u64 del: unat_u64_bound)
  with water show ?thesis
    by (simp add: time_pro_rata_sweep_def pro_rata_sweep_def weights shares_def Let_def)
qed

text \<open>
  C35. Where every maker at the level has rested equally long, the time-weighted policy is
  pro-rata: the two give the same fills, as long as no size times age leaves 64 bits.
\<close>

theorem equal_ages_are_pro_rata:
  assumes "tpr_ok t" and "alloc_inputs_ok (tpr_lot t) available makers"
    and "\<forall>m\<in>set makers. age_ticks t m now = a"
    and "\<forall>m\<in>set makers. units (maker_remaining m) * unat a < 2 ^ 64"
  shows "allocate (time_pro_rata_matcher t) available makers now =
    allocate (pro_rata_matcher (tpr_lot t)) available makers now'"
proof (cases "level_total makers \<le> u128_from (base available)")
  case True
  then show ?thesis
    by (simp add: time_pro_rata_matcher_def pro_rata_matcher_def time_pro_rata_allocate_def
        pro_rata_allocate_def)
next
  case False
  moreover have "length makers < 2 ^ 63" using assms(2) by (simp add: alloc_inputs_ok_def)
  ultimately have "units available < total_units makers"
    using unat_level_total by (metis not_le unat_u128_from word_less_nat_alt)
  with equal_ages_sweep [of t "base available" makers now a] assms False show ?thesis
    by (simp add: time_pro_rata_matcher_def pro_rata_matcher_def time_pro_rata_allocate_def
        pro_rata_allocate_def)
qed

definition resting_together :: "maker list" where
  "resting_together =
     [\<lparr>maker_remaining = Qty 7, maker_arrival = 3\<rparr>, \<lparr>maker_remaining = Qty 11, maker_arrival = 3\<rparr>]"

theorem equal_ages_are_pro_rata_witness:
  "allocate (time_pro_rata_matcher (default_time_pro_rata 1)) (Qty 8) resting_together 10 =
     allocate (pro_rata_matcher 1) (Qty 8) resting_together 0 \<and>
   allocate (pro_rata_matcher 1) (Qty 8) resting_together 0 \<noteq> []"
proof -
  have "tpr_ok (default_time_pro_rata 1)"
    by (simp add: tpr_ok_def default_time_pro_rata_def)
  moreover have ok: "alloc_inputs_ok (tpr_lot (default_time_pro_rata 1)) (Qty 8) resting_together"
    by (simp add: alloc_inputs_ok_def resting_together_def is_multiple_of_def default_time_pro_rata_def)
  moreover have "\<forall>m\<in>set resting_together. age_ticks (default_time_pro_rata 1) m 10 = 7"
    by (simp add: resting_together_def age_ticks_def default_time_pro_rata_def saturating_sub_def)
  moreover have "\<forall>m\<in>set resting_together. units (maker_remaining m) * unat (7 :: u128) < 2 ^ 64"
    by (simp add: resting_together_def)
  ultimately have "allocate (time_pro_rata_matcher (default_time_pro_rata 1)) (Qty 8) resting_together 10 =
      allocate (pro_rata_matcher (tpr_lot (default_time_pro_rata 1))) (Qty 8) resting_together 0"
    by (rule equal_ages_are_pro_rata)
  moreover have "allocate (pro_rata_matcher 1) (Qty 8) resting_together 0 \<noteq> []"
    using pro_rata.no_fills_iff [of 1 "Qty 8" resting_together] ok
    by (simp add: default_time_pro_rata_def resting_together_def zero_qty_def)
  ultimately show ?thesis by (simp add: default_time_pro_rata_def)
qed

text \<open>A level where the weights of equal ages leave 64 bits, evaluated step by step.\<close>

definition huge_makers :: "maker list" where
  "huge_makers =
     [\<lparr>maker_remaining = Qty 9223372036854775808, maker_arrival = 0\<rparr>,
      \<lparr>maker_remaining = Qty 3, maker_arrival = 0\<rparr>, \<lparr>maker_remaining = Qty 3, maker_arrival = 0\<rparr>]"

lemma huge_raw_weights: "map (raw_weight (default_time_pro_rata 1) 5) huge_makers = [46116860184273879040, 15, 15]"
  by (simp add: huge_makers_def raw_weight_def age_ticks_def default_time_pro_rata_def saturating_sub_def u128_from_def)

lemma huge_log: "ilog2_nat 46116860184273879040 = 65"
  by (simp add: ilog2_nat.simps)

lemma huge_shift: "weight_shift (default_time_pro_rata 1) huge_makers 5 = 2"
  by (simp add: weight_shift_def huge_raw_weights checked_ilog2_def huge_log)

lemma huge_weights: "weights (default_time_pro_rata 1) huge_makers 5 = [11529215046068469760, 3, 3]"
proof -
  have "weights (default_time_pro_rata 1) huge_makers 5 =
    map (\<lambda>w. max (drop_bit 2 w) 1) (map (raw_weight (default_time_pro_rata 1) 5) huge_makers)"
    by (simp add: weights_def huge_shift)
  then show ?thesis by (simp add: huge_raw_weights)
qed

lemma huge_water_fill: "water_fill 1 9223372036854775808 (zip [11529215046068469760, 3, 3] huge_makers) [0,0,0] = ([9223372036854775803, 2,2], 1)"
  by (simp add: huge_makers_def water_fill.simps u128_from_def as_u64_def)

lemma huge_sweep: "time_pro_rata_sweep (default_time_pro_rata 1) 9223372036854775808 huge_makers 5 = ([9223372036854775804, 2,2], 0)"
  unfolding time_pro_rata_sweep_def huge_weights
  using huge_water_fill by (simp add: u128_from_def as_u64_def huge_makers_def default_time_pro_rata_def)

lemma huge_pro_rata: "pro_rata_sweep 1 9223372036854775808 huge_makers = ([9223372036854775803, 3,2], 0)"
  by (simp add: pro_rata_sweep_def pro_rata_share_def level_total_def huge_makers_def u128_from_def as_u64_def)

lemma huge_level: "\<not> level_total huge_makers \<le> u128_from (base (Qty 9223372036854775808))"
  by (simp add: level_total_def huge_makers_def u128_from_def)

text \<open>
  Without the size bound the two policies differ: at equal ages, makers of 2 to the 63, 3 and
  3, and a taker of 2 to the 63, the shift that fits the weights into 64 bits loses enough of the
  small weights to move whole units between makers.
\<close>

theorem equal_ages_differ_beyond_64_bits:
  "allocate (time_pro_rata_matcher (default_time_pro_rata 1)) (Qty 9223372036854775808) huge_makers 5 =
     [\<lparr>order_index = 0, fill_quantity = Qty 9223372036854775804\<rparr>,
      \<lparr>order_index = 1, fill_quantity = Qty 2\<rparr>, \<lparr>order_index = 2, fill_quantity = Qty 2\<rparr>] \<and>
   allocate (pro_rata_matcher 1) (Qty 9223372036854775808) huge_makers 5 =
     [\<lparr>order_index = 0, fill_quantity = Qty 9223372036854775803\<rparr>,
      \<lparr>order_index = 1, fill_quantity = Qty 3\<rparr>, \<lparr>order_index = 2, fill_quantity = Qty 2\<rparr>]"
  using huge_level
  by (simp add: time_pro_rata_matcher_def pro_rata_matcher_def time_pro_rata_allocate_def
      pro_rata_allocate_def huge_sweep huge_pro_rata collect_shares_def)

end
