(* ===== verification/Order_Types.thy ===== *)
theory Order_Types
  imports Allocation
begin

text \<open>
  \<^verbatim>\<open>src/src/types.rs\<close>: identifiers, order types, orders and their builder, and the owned
  price level, a FIFO list of orders.
\<close>

section \<open>Identifiers\<close>

text \<open>The decimal digits a \<open>u64\<close> is printed with.\<close>

definition digit_char :: "nat \<Rightarrow> char" where
  "digit_char d = char_of (48 + d)"

fun decimal_digits :: "nat \<Rightarrow> string" where
  "decimal_digits n =
     (if n < 10 then [digit_char n] else decimal_digits (n div 10) @ [digit_char (n mod 10)])"

declare decimal_digits.simps [simp del]

datatype exchange_id = ExchangeId string

datatype client_id = ClientId string

definition from_sequence :: "u64 \<Rightarrow> exchange_id" where
  "from_sequence seq = ExchangeId (''exchId-'' @ decimal_digits (unat seq))"

lemma digit_char_inj:
  assumes "a < 10" and "b < 10" and "digit_char a = digit_char b"
  shows "a = b"
proof -
  have "(of_char (digit_char n) :: nat) = 48 + n" if "n < 10" for n
    using that by (simp add: digit_char_def)
  with assms show ?thesis by (metis add_left_cancel)
qed

lemma decimal_digits_not_Nil [simp]: "decimal_digits n \<noteq> []"
  by (subst decimal_digits.simps) simp

lemma decimal_digits_inj: "decimal_digits a = decimal_digits b \<Longrightarrow> a = b"
proof (induction a arbitrary: b rule: decimal_digits.induct)
  case (1 a)
  have last: "last (decimal_digits n) = digit_char (n mod 10)" for n
    by (subst decimal_digits.simps) simp
  have init: "butlast (decimal_digits n) = (if n < 10 then [] else decimal_digits (n div 10))" for n
    by (subst decimal_digits.simps) simp
  from 1(2) have "digit_char (a mod 10) = digit_char (b mod 10)" by (metis last)
  then have "a mod 10 = b mod 10" by (intro digit_char_inj) simp_all
  moreover have "a div 10 = b div 10"
  proof (cases "a < 10")
    case True
    with 1(2) have "b < 10" by (metis init decimal_digits_not_Nil)
    with True show ?thesis by simp
  next
    case False
    with 1(2) have "\<not> b < 10" and "decimal_digits (a div 10) = decimal_digits (b div 10)"
      by (metis init decimal_digits_not_Nil)+
    with 1(1) [OF False] show ?thesis by blast
  qed
  ultimately show ?case by (metis div_mult_mod_eq)
qed

lemma from_sequence_inj: "from_sequence m = from_sequence n \<longleftrightarrow> m = n"
  by (auto simp: from_sequence_def word_unat_eq_iff dest: decimal_digits_inj)

section \<open>Order types\<close>

datatype time_in_force = GTC | IOC | FOK

datatype order_type =
    Limit price time_in_force
  | Market
  | StopMarket price
  | StopLimit price price time_in_force

definition limit_gtc :: "price \<Rightarrow> order_type" where
  "limit_gtc p = Limit p GTC"

definition limit_ioc :: "price \<Rightarrow> order_type" where
  "limit_ioc p = Limit p IOC"

definition limit_fok :: "price \<Rightarrow> order_type" where
  "limit_fok p = Limit p FOK"

definition stop_market :: "price \<Rightarrow> order_type" where
  "stop_market trigger = StopMarket trigger"

definition stop_limit :: "price \<Rightarrow> price \<Rightarrow> order_type" where
  "stop_limit trigger p = StopLimit trigger p GTC"

fun limit_price :: "order_type \<Rightarrow> price option" where
  "limit_price (Limit p tif) = Some p"
| "limit_price (StopLimit trigger p tif) = Some p"
| "limit_price Market = None"
| "limit_price (StopMarket trigger) = None"

fun prices :: "order_type \<Rightarrow> price option list" where
  "prices (Limit p tif) = [Some p, None]"
| "prices Market = [None, None]"
| "prices (StopMarket trigger) = [Some trigger, None]"
| "prices (StopLimit trigger p tif) = [Some trigger, Some p]"

section \<open>Orders\<close>

datatype lifecycle = New | PartiallyFilled | Filled | Cancelled

record order =
  order_id :: exchange_id
  client :: client_id
  otype :: order_type
  order_side :: side
  original_quantity :: qty
  remaining_quantity :: qty
  timestamp :: u128
  arrival :: u32
  state :: lifecycle

record order_builder =
  b_exchange_id :: "exchange_id option"
  b_client_id :: "client_id option"
  b_order_type :: "order_type option"
  b_side :: "side option"
  b_original_quantity :: "qty option"
  b_remaining_quantity :: "qty option"
  b_timestamp :: "u128 option"
  b_arrival :: "u32 option"
  b_lifecycle :: "lifecycle option"

text \<open>\<open>Default\<close> reads the system clock, a parameter here.\<close>

definition builder :: "u128 \<Rightarrow> order_builder" where
  "builder clock =
     \<lparr>b_exchange_id = None, b_client_id = None, b_order_type = None, b_side = None,
      b_original_quantity = None, b_remaining_quantity = None, b_timestamp = Some clock,
      b_arrival = Some 0, b_lifecycle = Some New\<rparr>"

text \<open>\<open>build\<close> panics on a missing field.\<close>

definition build :: "order_builder \<Rightarrow> order option" where
  "build b = do {
     original \<leftarrow> b_original_quantity b;
     exchange \<leftarrow> b_exchange_id b;
     client \<leftarrow> b_client_id b;
     cycle \<leftarrow> b_lifecycle b;
     stamp \<leftarrow> b_timestamp b;
     arr \<leftarrow> b_arrival b;
     sd \<leftarrow> b_side b;
     typ \<leftarrow> b_order_type b;
     Some \<lparr>order_id = exchange, client = client, otype = typ, order_side = sd,
       original_quantity = original,
       remaining_quantity = (case b_remaining_quantity b of None \<Rightarrow> original | Some r \<Rightarrow> r),
       timestamp = stamp, arrival = arr, state = cycle\<rparr>
   }"

definition with_timestamp :: "order_builder \<Rightarrow> u128 \<Rightarrow> order_builder" where
  "with_timestamp b t = b\<lparr>b_timestamp := Some t\<rparr>"

definition with_arrival :: "order_builder \<Rightarrow> u32 \<Rightarrow> order_builder" where
  "with_arrival b a = b\<lparr>b_arrival := Some a\<rparr>"

definition with_exchange_id :: "order_builder \<Rightarrow> string \<Rightarrow> order_builder" where
  "with_exchange_id b s = b\<lparr>b_exchange_id := Some (ExchangeId s)\<rparr>"

definition with_client_id :: "order_builder \<Rightarrow> string \<Rightarrow> order_builder" where
  "with_client_id b s = b\<lparr>b_client_id := Some (ClientId s)\<rparr>"

definition with_order_type :: "order_builder \<Rightarrow> order_type \<Rightarrow> order_builder" where
  "with_order_type b t = b\<lparr>b_order_type := Some t\<rparr>"

definition with_side :: "order_builder \<Rightarrow> side \<Rightarrow> order_builder" where
  "with_side b s = b\<lparr>b_side := Some s\<rparr>"

definition with_quantity :: "order_builder \<Rightarrow> qty \<Rightarrow> order_builder" where
  "with_quantity b q = b\<lparr>b_original_quantity := Some q\<rparr>"

definition with_remaining :: "order_builder \<Rightarrow> qty \<Rightarrow> order_builder" where
  "with_remaining b q = b\<lparr>b_remaining_quantity := Some q\<rparr>"

definition with_lifecycle :: "order_builder \<Rightarrow> lifecycle \<Rightarrow> order_builder" where
  "with_lifecycle b l = b\<lparr>b_lifecycle := Some l\<rparr>"

text \<open>What a policy sees of an order.\<close>

definition maker_of :: "order \<Rightarrow> maker" where
  "maker_of ord = \<lparr>maker_remaining = remaining_quantity ord, maker_arrival = ucast (arrival ord)\<rparr>"

section \<open>Owned price levels\<close>

record price_level =
  level_price :: price
  level_side :: side
  level_orders :: "order list"

datatype order_error = InvalidSide | DuplicateExchangeId

definition price_level_new :: "price \<Rightarrow> side \<Rightarrow> price_level" where
  "price_level_new p s = \<lparr>level_price = p, level_side = s, level_orders = []\<rparr>"

definition price_level_is_empty :: "price_level \<Rightarrow> bool" where
  "price_level_is_empty l \<longleftrightarrow> level_orders l = []"

definition price_level_add :: "price_level \<Rightarrow> order \<Rightarrow> order_error + price_level" where
  "price_level_add l ord =
     (if order_side ord \<noteq> level_side l then Inl InvalidSide
      else if \<exists>x\<in>set (level_orders l). order_id x = order_id ord then Inl DuplicateExchangeId
      else Inr (l\<lparr>level_orders := level_orders l @ [ord]\<rparr>))"

fun remove_first :: "exchange_id \<Rightarrow> order list \<Rightarrow> (order \<times> order list) option" where
  "remove_first i [] = None"
| "remove_first i (x # xs) =
     (if order_id x = i then Some (x, xs)
      else map_option (\<lambda>(y, ys). (y, x # ys)) (remove_first i xs))"

definition price_level_remove :: "price_level \<Rightarrow> exchange_id \<Rightarrow> (order \<times> price_level) option" where
  "price_level_remove l i =
     map_option (\<lambda>(x, xs). (x, l\<lparr>level_orders := xs\<rparr>)) (remove_first i (level_orders l))"

definition price_level_total :: "price_level \<Rightarrow> qty" where
  "price_level_total l = qty_sum (map remaining_quantity (level_orders l))"

definition price_level_makers :: "price_level \<Rightarrow> maker list" where
  "price_level_makers l = map maker_of (level_orders l)"

definition price_level_count :: "price_level \<Rightarrow> nat" where
  "price_level_count l = length (level_orders l)"

lemma price_level_remove_add:
  assumes "price_level_add l ord = Inr l'"
  shows "price_level_remove l' (order_id ord) = Some (ord, l)"
proof -
  have "remove_first i (xs @ [x]) = Some (x, xs)" if "order_id x = i" and "\<forall>y\<in>set xs. order_id y \<noteq> i" for i x xs
    using that by (induction xs) auto
  with assms show ?thesis
    by (auto simp: price_level_add_def price_level_remove_def split: if_splits)
qed

end
