(* ===== verification/Order_Queue.thy ===== *)
theory Order_Queue
  imports Order_Types
begin

text \<open>
  \<^verbatim>\<open>src/src/order_queue.rs\<close>: the orders of a price level as a doubly linked list threaded
  through the nodes of an arena the whole book shares.

  The arena is \<open>slotmap::SlotMap\<close>, a crate outside the repository: a record of the functions the
  code calls, over an arena type \<open>'m\<close> and a key type \<open>'k\<close>. What the code relies on of it is the
  predicate \<open>arena_laws\<close>.
\<close>

section \<open>Nodes and the arena\<close>

record 'k node =
  node_order :: order
  prev_key :: "'k option"
  next_key :: "'k option"

record ('m, 'k) arena_ops =
  arena_new :: 'm
  arena_get :: "'m \<Rightarrow> 'k \<Rightarrow> 'k node option"
  arena_get_mut :: "'m \<Rightarrow> 'k \<Rightarrow> ('k node, 'm) borrow option"
  arena_insert :: "'m \<Rightarrow> 'k node \<Rightarrow> ('k \<times> 'm) option"
  arena_remove :: "'m \<Rightarrow> 'k \<Rightarrow> ('k node \<times> 'm) option"

text \<open>
  The documented behaviour: a new arena is empty; an insertion returns a key no live node has, and
  panics (\<open>None\<close>) only when \<open>2 ^ 32 - 2\<close> slots are taken; a mutable borrow changes the value of one
  live key; a removal returns the value and frees the key.
\<close>

definition arena_laws :: "('m, 'k) arena_ops \<Rightarrow> bool" where
  "arena_laws A \<longleftrightarrow>
     (\<forall>k. arena_get A (arena_new A) k = None) \<and>
     (\<forall>m. finite (dom (arena_get A m)) \<and> card (dom (arena_get A m)) < 2 ^ 32) \<and>
     (\<forall>m v k m'. arena_insert A m v = Some (k, m') \<longrightarrow>
        arena_get A m k = None \<and> arena_get A m' = (arena_get A m)(k \<mapsto> v)) \<and>
     (\<forall>m v. card (dom (arena_get A m)) < 2 ^ 32 - 2 \<longrightarrow> arena_insert A m v \<noteq> None) \<and>
     (\<forall>m k. arena_get A m k = None \<longrightarrow> arena_get_mut A m k = None \<and> arena_remove A m k = None) \<and>
     (\<forall>m k v. arena_get A m k = Some v \<longrightarrow>
        (\<exists>put. arena_get_mut A m k = Some (v, put) \<and>
           (\<forall>v'. arena_get A (put v') = (arena_get A m)(k \<mapsto> v'))) \<and>
        (\<exists>m'. arena_remove A m k = Some (v, m') \<and> arena_get A m' = (arena_get A m)(k := None)))"

lemma arena_lawsD:
  assumes "arena_laws A"
  shows "arena_get A (arena_new A) = Map.empty"
    and "finite (dom (arena_get A m))"
    and "card (dom (arena_get A m)) < 2 ^ 32"
    and "arena_insert A m v = Some (k, m') \<Longrightarrow> arena_get A m k = None"
    and "arena_insert A m v = Some (k, m') \<Longrightarrow> arena_get A m' = (arena_get A m)(k \<mapsto> v)"
    and "card (dom (arena_get A m)) < 2 ^ 32 - 2 \<Longrightarrow> \<exists>k m'. arena_insert A m v = Some (k, m')"
    and "arena_get A m k = None \<Longrightarrow> arena_get_mut A m k = None"
    and "arena_get A m k = None \<Longrightarrow> arena_remove A m k = None"
    and "arena_get A m k = Some n \<Longrightarrow> \<exists>put. arena_get_mut A m k = Some (n, put) \<and>
      (\<forall>n'. arena_get A (put n') = (arena_get A m)(k \<mapsto> n'))"
    and "arena_get A m k = Some n \<Longrightarrow>
      \<exists>m'. arena_remove A m k = Some (n, m') \<and> arena_get A m' = (arena_get A m)(k := None)"
  using assms unfolding arena_laws_def by (auto simp: fun_eq_iff)

text \<open>\<open>nodes.get_mut(key).expect(..)\<close> followed by an assignment to the node.\<close>

definition arena_update :: "('m, 'k) arena_ops \<Rightarrow> 'm \<Rightarrow> 'k \<Rightarrow> ('k node \<Rightarrow> 'k node) \<Rightarrow> 'm option" where
  "arena_update A m k f = map_option (\<lambda>(n, put). put (f n)) (arena_get_mut A m k)"

lemma arena_update_Some:
  assumes "arena_laws A" and "arena_get A m k = Some n"
  shows "\<exists>m'. arena_update A m k f = Some m' \<and> arena_get A m' = (arena_get A m)(k \<mapsto> f n)"
  using arena_lawsD(9) [OF assms] by (auto simp: arena_update_def)

section \<open>The queue\<close>

record 'k level_queue =
  q_head :: "'k option"
  q_tail :: "'k option"
  q_len :: usize

definition queue_default :: "'k level_queue" where
  "queue_default = \<lparr>q_head = None, q_tail = None, q_len = 0\<rparr>"

definition queue_is_empty :: "'k level_queue \<Rightarrow> bool" where
  "queue_is_empty q \<longleftrightarrow> q_len q = 0"

text \<open>The operations return \<open>None\<close> where an \<open>expect\<close> fails or the arena is full.\<close>

definition push_back ::
    "('m, 'k) arena_ops \<Rightarrow> 'k level_queue \<Rightarrow> 'm \<Rightarrow> order \<Rightarrow> ('k \<times> 'k level_queue \<times> 'm) option" where
  "push_back A q nodes ord = do {
     (key, nodes) \<leftarrow> arena_insert A nodes \<lparr>node_order = ord, prev_key = q_tail q, next_key = None\<rparr>;
     (q, nodes) \<leftarrow> (case q_tail q of
         Some t \<Rightarrow> map_option (Pair q) (arena_update A nodes t (\<lambda>n. n\<lparr>next_key := Some key\<rparr>))
       | None \<Rightarrow> Some (q\<lparr>q_head := Some key\<rparr>, nodes));
     Some (key, q\<lparr>q_tail := Some key, q_len := q_len q + 1\<rparr>, nodes)
   }"

definition remove_key ::
    "('m, 'k) arena_ops \<Rightarrow> 'k level_queue \<Rightarrow> 'm \<Rightarrow> 'k \<Rightarrow> (order option \<times> 'k level_queue \<times> 'm) option" where
  "remove_key A q nodes key =
     (case arena_remove A nodes key of
        None \<Rightarrow> Some (None, q, nodes)
      | Some (node, nodes) \<Rightarrow> do {
          (q, nodes) \<leftarrow> (case prev_key node of
              Some p \<Rightarrow> map_option (Pair q) (arena_update A nodes p (\<lambda>n. n\<lparr>next_key := next_key node\<rparr>))
            | None \<Rightarrow> Some (q\<lparr>q_head := next_key node\<rparr>, nodes));
          (q, nodes) \<leftarrow> (case next_key node of
              Some s \<Rightarrow> map_option (Pair q) (arena_update A nodes s (\<lambda>n. n\<lparr>prev_key := prev_key node\<rparr>))
            | None \<Rightarrow> Some (q\<lparr>q_tail := prev_key node\<rparr>, nodes));
          Some (Some (node_order node), q\<lparr>q_len := q_len q - 1\<rparr>, nodes)
        })"

text \<open>
  The loops follow the links, and would not end on a cycle; a run that does not end is \<open>None\<close> too.
\<close>

partial_function (option) remove_client_loop ::
    "('m, 'k) arena_ops \<Rightarrow> client_id \<Rightarrow> 'k option \<Rightarrow> 'k level_queue \<Rightarrow> 'm \<Rightarrow>
       (order list \<times> 'k level_queue \<times> 'm) option" where
  "remove_client_loop A c cursor q nodes =
     (case cursor of
        None \<Rightarrow> Some ([], q, nodes)
      | Some key \<Rightarrow> do {
          node \<leftarrow> arena_get A nodes key;
          (if client (node_order node) = c
           then do {
             (gone, q, nodes) \<leftarrow> remove_key A q nodes key;
             ord \<leftarrow> gone;
             (removed, q, nodes) \<leftarrow> remove_client_loop A c (next_key node) q nodes;
             Some (ord # removed, q, nodes)
           }
           else remove_client_loop A c (next_key node) q nodes)
        })"

definition remove_client ::
    "('m, 'k) arena_ops \<Rightarrow> 'k level_queue \<Rightarrow> 'm \<Rightarrow> client_id \<Rightarrow> (order list \<times> 'k level_queue \<times> 'm) option" where
  "remove_client A q nodes c = remove_client_loop A c (q_head q) q nodes"

partial_function (option) iter_from ::
    "('m, 'k) arena_ops \<Rightarrow> 'm \<Rightarrow> 'k option \<Rightarrow> ('k \<times> order) list option" where
  "iter_from A nodes cursor =
     (case cursor of
        None \<Rightarrow> Some []
      | Some key \<Rightarrow> do {
          node \<leftarrow> arena_get A nodes key;
          rest \<leftarrow> iter_from A nodes (next_key node);
          Some ((key, node_order node) # rest)
        })"

definition iter_with_keys ::
    "('m, 'k) arena_ops \<Rightarrow> 'k level_queue \<Rightarrow> 'm \<Rightarrow> ('k \<times> order) list option" where
  "iter_with_keys A q nodes = iter_from A nodes (q_head q)"

definition queue_iter :: "('m, 'k) arena_ops \<Rightarrow> 'k level_queue \<Rightarrow> 'm \<Rightarrow> order list option" where
  "queue_iter A q nodes = map_option (map snd) (iter_with_keys A q nodes)"

definition collect_makers ::
    "('m, 'k) arena_ops \<Rightarrow> 'k level_queue \<Rightarrow> 'm \<Rightarrow> (maker list \<times> 'k list) option" where
  "collect_makers A q nodes =
     map_option (\<lambda>rows. (map (maker_of \<circ> snd) rows, map fst rows)) (iter_with_keys A q nodes)"

text \<open>The oracle of the source's own tests; the count of visited nodes bounds the walk.\<close>

function links_walk ::
    "('m, 'k) arena_ops \<Rightarrow> 'k level_queue \<Rightarrow> 'm \<Rightarrow> 'k option \<Rightarrow> 'k option \<Rightarrow> nat \<Rightarrow> bool" where
  "links_walk A q nodes previous cursor visited =
     (case cursor of
        None \<Rightarrow> previous = q_tail q \<and> visited = unat (q_len q)
      | Some key \<Rightarrow>
          (case arena_get A nodes key of
             None \<Rightarrow> False
           | Some node \<Rightarrow>
               if prev_key node \<noteq> previous then False
               else if unat (q_len q) < Suc visited then False
               else links_walk A q nodes (Some key) (next_key node) (Suc visited)))"
  by pat_completeness auto

termination
  by (relation "measure (\<lambda>(A, q, nodes, previous, cursor, visited). unat (q_len q) - visited)") auto

declare links_walk.simps [simp del]

definition links_are_consistent :: "('m, 'k) arena_ops \<Rightarrow> 'k level_queue \<Rightarrow> 'm \<Rightarrow> bool" where
  "links_are_consistent A q nodes \<longleftrightarrow>
     (if q_head q = None \<or> q_tail q = None
      then q_head q = None \<and> q_tail q = None \<and> q_len q = 0
      else links_walk A q nodes None (q_head q) 0)"

declare remove_client_loop.simps [code] iter_from.simps [code]

end
