(* ===== verification/Queue_Facts.thy ===== *)
theory Queue_Facts
  imports Order_Queue
begin

text \<open>
  The linked queue implements a list: \<open>queue_ok\<close> relates the links in the arena to the list of
  keys they thread, and every operation of \<open>Order_Queue\<close> to an operation on that list. The
  statements also say what an operation leaves alone, since all queues share the arena.
\<close>

section \<open>Segments\<close>

fun first_key :: "'k list \<Rightarrow> 'k option \<Rightarrow> 'k option" where
  "first_key [] e = e"
| "first_key (k # ks) e = Some k"

definition last_key :: "'k list \<Rightarrow> 'k option \<Rightarrow> 'k option" where
  "last_key ks p = (if ks = [] then p else Some (last ks))"

fun seg :: "('k \<Rightarrow> 'k node option) \<Rightarrow> 'k option \<Rightarrow> 'k list \<Rightarrow> 'k option \<Rightarrow> bool" where
  "seg L p [] e \<longleftrightarrow> True"
| "seg L p (k # ks) e \<longleftrightarrow>
     (\<exists>n. L k = Some n \<and> prev_key n = p \<and> next_key n = first_key ks e) \<and> seg L (Some k) ks e"

lemma last_key_simps [simp]:
  "last_key [] p = p"
  "last_key (k # ks) p = last_key ks (Some k)"
  "last_key (ks @ ls) p = last_key ls (last_key ks p)"
  by (simp_all add: last_key_def)

lemma first_key_append [simp]: "first_key (xs @ ys) e = first_key xs (first_key ys e)"
  by (cases xs) simp_all

lemma seg_append: "seg L p (xs @ ys) e \<longleftrightarrow> seg L p xs (first_key ys e) \<and> seg L (last_key xs p) ys e"
  by (induction xs arbitrary: p) auto

lemma seg_cong: "(\<And>k. k \<in> set ks \<Longrightarrow> L k = L' k) \<Longrightarrow> seg L p ks e \<longleftrightarrow> seg L' p ks e"
  by (induction ks arbitrary: p) auto

lemma seg_frame [simp]: "k \<notin> set ks \<Longrightarrow> seg (L(k := x)) p ks e \<longleftrightarrow> seg L p ks e"
  by (rule seg_cong) auto

lemma seg_live: "seg L p ks e \<Longrightarrow> k \<in> set ks \<Longrightarrow> \<exists>n. L k = Some n"
  by (induction ks arbitrary: p) auto

lemma seg_set_next:
  assumes "seg L p (ks @ [k]) e" and "k \<notin> set ks" and "L k = Some n"
  shows "seg (L(k \<mapsto> n\<lparr>next_key := e'\<rparr>)) p (ks @ [k]) e'"
  using assms by (auto simp: seg_append)

lemma seg_set_prev:
  assumes "seg L p (k # ks) e" and "k \<notin> set ks" and "L k = Some n"
  shows "seg (L(k \<mapsto> n\<lparr>prev_key := p'\<rparr>)) p' (k # ks) e"
  using assms by auto

section \<open>The queue invariant\<close>

definition queue_ok :: "('k \<Rightarrow> 'k node option) \<Rightarrow> 'k level_queue \<Rightarrow> 'k list \<Rightarrow> bool" where
  "queue_ok L q ks \<longleftrightarrow>
     seg L None ks None \<and> distinct ks \<and> q_head q = first_key ks None \<and>
     q_tail q = last_key ks None \<and> unat (q_len q) = length ks"

text \<open>The order a key leads to.\<close>

definition order_at :: "('k \<Rightarrow> 'k node option) \<Rightarrow> 'k \<Rightarrow> order option" where
  "order_at L k = map_option node_order (L k)"

abbreviation orders_at :: "('k \<Rightarrow> 'k node option) \<Rightarrow> 'k list \<Rightarrow> order list" where
  "orders_at L ks \<equiv> map (\<lambda>k. the (order_at L k)) ks"

lemma order_at_simps [simp]:
  "L k = Some n \<Longrightarrow> order_at L k = Some (node_order n)"
  "order_at (L(k \<mapsto> n)) = (order_at L)(k \<mapsto> node_order n)"
  "order_at (L(k := None)) = (order_at L)(k := None)"
  by (auto simp: order_at_def fun_eq_iff)

lemma order_at_eq_None [simp]: "order_at L k = None \<longleftrightarrow> L k = None"
  by (simp add: order_at_def)

lemma order_at_relink:
  "L k = Some n \<Longrightarrow> node_order n' = node_order n \<Longrightarrow> order_at (L(k \<mapsto> n')) = order_at L"
  by (auto simp: order_at_def fun_eq_iff)

lemma queue_ok_default [simp]: "queue_ok L queue_default []"
  by (simp add: queue_ok_def queue_default_def)

lemma queue_ok_empty: "queue_ok L q ks \<Longrightarrow> queue_is_empty q \<longleftrightarrow> ks = []"
  by (auto simp: queue_ok_def queue_is_empty_def unat_eq_zero [symmetric])

lemma queue_ok_live: "queue_ok L q ks \<Longrightarrow> k \<in> set ks \<Longrightarrow> \<exists>n. L k = Some n"
  by (auto simp: queue_ok_def dest: seg_live)

lemma queue_ok_cong: "(\<And>k. k \<in> set ks \<Longrightarrow> L k = L' k) \<Longrightarrow> queue_ok L q ks \<longleftrightarrow> queue_ok L' q ks"
  using seg_cong [of ks L L'] by (auto simp: queue_ok_def)

lemma queue_ok_length:
  assumes "arena_laws A" and "queue_ok (arena_get A m) q ks"
  shows "length ks < 2 ^ 32"
proof -
  have "set ks \<subseteq> dom (arena_get A m)" using assms(2) by (auto dest: queue_ok_live)
  then have "card (set ks) \<le> card (dom (arena_get A m))"
    by (rule card_mono [OF arena_lawsD(2) [OF assms(1)]])
  moreover have "card (set ks) = length ks" using assms(2) by (simp add: queue_ok_def distinct_card)
  ultimately show ?thesis using arena_lawsD(3) [OF assms(1), of m] by linarith
qed

section \<open>Appending\<close>

lemma push_back_spec:
  assumes laws: "arena_laws A" and ok: "queue_ok (arena_get A m) q ks"
    and room: "card (dom (arena_get A m)) < 2 ^ 32 - 2"
  shows "\<exists>k q' m'. push_back A q m ord = Some (k, q', m') \<and> arena_get A m k = None \<and>
    queue_ok (arena_get A m') q' (ks @ [k]) \<and>
    order_at (arena_get A m') = (order_at (arena_get A m))(k \<mapsto> ord) \<and>
    (\<forall>k'. k' \<notin> set ks \<longrightarrow> k' \<noteq> k \<longrightarrow> arena_get A m' k' = arena_get A m k')"
proof -
  let ?node = "\<lparr>node_order = ord, prev_key = q_tail q, next_key = None\<rparr>"
  obtain k m0 where ins: "arena_insert A m ?node = Some (k, m0)"
    using arena_lawsD(6) [OF laws room] by blast
  note fresh = arena_lawsD(4) [OF laws ins] and get = arena_lawsD(5) [OF laws ins]
  have k: "k \<notin> set ks" using queue_ok_live [OF ok] fresh by force
  have len: "length ks < 2 ^ 32" by (rule queue_ok_length [OF laws ok])
  then have len': "unat (q_len q + 1) = Suc (length ks)"
    using ok by (simp add: queue_ok_def unat_add_exact)
  show ?thesis
  proof (cases ks rule: rev_cases)
    case Nil
    with ok ins get len' fresh show ?thesis
      by (auto simp: push_back_def queue_ok_def)
  next
    case (snoc xs x)
    then have tail: "q_tail q = Some x" using ok by (simp add: queue_ok_def)
    obtain n where n: "arena_get A m x = Some n" using queue_ok_live [OF ok, of x] snoc by auto
    have "x \<noteq> k" using k snoc by auto
    with n get have "arena_get A m0 x = Some n" by simp
    from arena_update_Some [OF laws this] obtain m' where
      upd: "arena_update A m0 x (\<lambda>n. n\<lparr>next_key := Some k\<rparr>) = Some m'"
        "arena_get A m' = (arena_get A m)(k \<mapsto> ?node, x \<mapsto> n\<lparr>next_key := Some k\<rparr>)"
      using get by auto
    have "seg (arena_get A m) None (xs @ [x]) None" and "x \<notin> set xs"
      using ok snoc by (auto simp: queue_ok_def)
    from seg_set_next [OF this n]
    have "seg ((arena_get A m)(x \<mapsto> n\<lparr>next_key := Some k\<rparr>)) None (xs @ [x]) (Some k)" .
    then have "seg (arena_get A m') None (xs @ [x]) (Some k)"
      using upd(2) k snoc \<open>x \<noteq> k\<close> by (simp add: fun_upd_twist)
    then have "queue_ok (arena_get A m') (q\<lparr>q_tail := Some k, q_len := q_len q + 1\<rparr>) (ks @ [k])"
      using ok k snoc tail upd(2) \<open>x \<noteq> k\<close> len' by (auto simp: queue_ok_def seg_append)
    moreover have "order_at (arena_get A m') = (order_at (arena_get A m))(k \<mapsto> ord)"
      unfolding upd(2) using n \<open>x \<noteq> k\<close> by (subst order_at_relink) auto
    ultimately show ?thesis
      using ins tail upd fresh snoc by (auto simp: push_back_def)
  qed
qed


section \<open>Unlinking\<close>

text \<open>The three updates of \<open>remove_key\<close>, on the map a lookup reads.\<close>

lemma remove_key_spec:
  assumes laws: "arena_laws A" and ok: "queue_ok (arena_get A m) q (xs @ k # ys)"
  shows "\<exists>ord q' m'. remove_key A q m k = Some (Some ord, q', m') \<and>
    order_at (arena_get A m) k = Some ord \<and> queue_ok (arena_get A m') q' (xs @ ys) \<and>
    order_at (arena_get A m') = (order_at (arena_get A m))(k := None) \<and>
    (\<forall>k'. k' \<notin> set (xs @ k # ys) \<longrightarrow> arena_get A m' k' = arena_get A m k')"
proof -
  let ?L = "arena_get A m"
  obtain n where n: "?L k = Some n" using queue_ok_live [OF ok, of k] by auto
  have segs: "seg ?L None xs (Some k)" "seg ?L (Some k) ys None"
    and prev: "prev_key n = last_key xs None" and nxt: "next_key n = first_key ys None"
    and dist: "distinct xs" "distinct ys" "k \<notin> set xs" "k \<notin> set ys" "set xs \<inter> set ys = {}"
    using ok n by (auto simp: queue_ok_def seg_append)
  obtain m0 where rem: "arena_remove A m k = Some (n, m0)" "arena_get A m0 = ?L(k := None)"
    using arena_lawsD(10) [OF laws n] by blast
  define e where "e = first_key ys None"
  define p where "p = last_key xs None"
  obtain q1 m1 where one:
    "(case prev_key n of
        Some p \<Rightarrow> map_option (Pair q) (arena_update A m0 p (\<lambda>n'. n'\<lparr>next_key := next_key n\<rparr>))
      | None \<Rightarrow> Some (q\<lparr>q_head := next_key n\<rparr>, m0)) = Some (q1, m1)"
    "seg (arena_get A m1) None xs e" "seg (arena_get A m1) (Some k) ys None"
    "q1 = (if xs = [] then q\<lparr>q_head := e\<rparr> else q)"
    "order_at (arena_get A m1) = (order_at ?L)(k := None)"
    "\<forall>k'. k' \<notin> set xs \<longrightarrow> k' \<noteq> k \<longrightarrow> arena_get A m1 k' = ?L k'"
  proof (cases xs rule: rev_cases)
    case Nil
    show ?thesis
      by (rule that [of "q\<lparr>q_head := e\<rparr>" m0])
        (use Nil prev nxt rem(2) dist segs in \<open>simp_all add: e_def\<close>)
  next
    case (snoc zs z)
    obtain nz where nz: "?L z = Some nz" using segs(1) snoc by (auto simp: seg_append)
    have "z \<noteq> k" "z \<notin> set zs" "z \<notin> set ys" using dist snoc by auto
    with nz rem(2) have "arena_get A m0 z = Some nz" by simp
    from arena_update_Some [OF laws this] obtain m' where
      upd: "arena_update A m0 z (\<lambda>n'. n'\<lparr>next_key := next_key n\<rparr>) = Some m'"
        "arena_get A m' = (?L(k := None))(z \<mapsto> nz\<lparr>next_key := e\<rparr>)"
      using rem(2) nxt by (auto simp: e_def)
    have "seg (?L(z \<mapsto> nz\<lparr>next_key := e\<rparr>)) None (zs @ [z]) e"
      using seg_set_next [of ?L None zs z "Some k" nz e] segs(1) snoc nz \<open>z \<notin> set zs\<close> by simp
    then have "seg (arena_get A m') None (zs @ [z]) e"
      unfolding upd(2) using \<open>z \<noteq> k\<close> dist(3) snoc by (subst fun_upd_twist) simp_all
    moreover have "order_at (arena_get A m') = (order_at ?L)(k := None)"
      unfolding upd(2) using nz \<open>z \<noteq> k\<close> by (auto simp: fun_eq_iff)
    ultimately show ?thesis
      by (intro that [of q m'])
        (use upd snoc prev segs(2) dist \<open>z \<notin> set ys\<close> \<open>z \<noteq> k\<close> in \<open>simp_all add: p_def\<close>)
  qed
  obtain q2 m2 where two:
    "(case next_key n of
        Some s \<Rightarrow> map_option (Pair q1) (arena_update A m1 s (\<lambda>n'. n'\<lparr>prev_key := prev_key n\<rparr>))
      | None \<Rightarrow> Some (q1\<lparr>q_tail := prev_key n\<rparr>, m1)) = Some (q2, m2)"
    "seg (arena_get A m2) None xs e" "seg (arena_get A m2) p ys None"
    "q2 = (if ys = [] then q1\<lparr>q_tail := p\<rparr> else q1)"
    "order_at (arena_get A m2) = (order_at ?L)(k := None)"
    "\<forall>k'. k' \<notin> set ys \<longrightarrow> arena_get A m2 k' = arena_get A m1 k'"
  proof (cases ys)
    case Nil
    show ?thesis
      by (rule that [of "q1\<lparr>q_tail := p\<rparr>" m1])
        (use Nil prev nxt one in \<open>simp_all add: p_def\<close>)
  next
    case (Cons z zs)
    obtain nz where nz: "arena_get A m1 z = Some nz" using one(3) Cons by auto
    have z: "z \<notin> set zs" "z \<notin> set xs" using dist Cons by auto
    from arena_update_Some [OF laws nz] obtain m' where
      upd: "arena_update A m1 z (\<lambda>n'. n'\<lparr>prev_key := prev_key n\<rparr>) = Some m'"
        "arena_get A m' = (arena_get A m1)(z \<mapsto> nz\<lparr>prev_key := p\<rparr>)"
      using prev by (auto simp: p_def)
    have "seg (arena_get A m') p (z # zs) None"
      unfolding upd(2) using seg_set_prev [OF one(3) [unfolded Cons] z(1) nz] .
    moreover have "order_at (arena_get A m') = (order_at ?L)(k := None)"
      unfolding upd(2) using nz one(5) by (subst order_at_relink) auto
    ultimately show ?thesis
      by (intro that [of q1 m'])
        (use upd Cons nxt one(2) z in \<open>simp_all add: e_def p_def\<close>)
  qed
  have "seg (arena_get A m2) None (xs @ ys) None"
    using two(2,3) by (simp add: seg_append e_def p_def)
  moreover have "unat (q_len q - 1) = length (xs @ ys)"
    using ok by (simp add: queue_ok_def unat_sub_exact)
  ultimately have "queue_ok (arena_get A m2) (q2\<lparr>q_len := q_len q2 - 1\<rparr>) (xs @ ys)"
    using ok dist one(4) two(4) by (cases xs; cases ys) (auto simp: queue_ok_def e_def p_def)
  moreover have "remove_key A q m k = Some (Some (node_order n), q2\<lparr>q_len := q_len q2 - 1\<rparr>, m2)"
    using rem(1) one(1) two(1) by (simp add: remove_key_def)
  ultimately show ?thesis
    using two(5,6) one(6) n by auto
qed

lemma remove_key_stale:
  "arena_laws A \<Longrightarrow> arena_get A m k = None \<Longrightarrow> remove_key A q m k = Some (None, q, m)"
  using arena_lawsD(8) by (fastforce simp: remove_key_def)

section \<open>Iterating\<close>

lemma iter_from_seg:
  "seg (arena_get A m) p ks None \<Longrightarrow>
     iter_from A m (first_key ks None) = Some (map (\<lambda>k. (k, the (order_at (arena_get A m) k))) ks)"
proof (induction ks arbitrary: p)
  case Nil
  show ?case by (subst iter_from.simps) simp
next
  case (Cons k ks)
  then show ?case by (subst iter_from.simps) (auto simp: order_at_def)
qed

lemma iter_with_keys_spec:
  "queue_ok (arena_get A m) q ks \<Longrightarrow>
     iter_with_keys A q m = Some (map (\<lambda>k. (k, the (order_at (arena_get A m) k))) ks)"
  using iter_from_seg by (fastforce simp: queue_ok_def iter_with_keys_def)

lemma queue_iter_spec:
  "queue_ok (arena_get A m) q ks \<Longrightarrow> queue_iter A q m = Some (orders_at (arena_get A m) ks)"
  by (simp add: queue_iter_def iter_with_keys_spec comp_def)

lemma collect_makers_spec:
  "queue_ok (arena_get A m) q ks \<Longrightarrow>
     collect_makers A q m = Some (map maker_of (orders_at (arena_get A m) ks), ks)"
  by (simp add: collect_makers_def iter_with_keys_spec comp_def)

section \<open>Self-trade removal\<close>

lemma order_at_agree:
  "order_at L' = (order_at L)(k := None) \<Longrightarrow> k \<notin> set ks \<Longrightarrow> orders_at L' ks = orders_at L ks"
  by auto

lemma remove_client_loop_spec:
  assumes laws: "arena_laws A"
  shows "queue_ok (arena_get A m) q (xs @ ks) \<Longrightarrow>
    \<forall>k\<in>set xs. client (the (order_at (arena_get A m) k)) \<noteq> c \<Longrightarrow>
    \<exists>q' m'. remove_client_loop A c (first_key ks None) q m =
        Some (filter (\<lambda>ord. client ord = c) (orders_at (arena_get A m) ks), q', m') \<and>
      queue_ok (arena_get A m') q'
        (filter (\<lambda>k. client (the (order_at (arena_get A m) k)) \<noteq> c) (xs @ ks)) \<and>
      order_at (arena_get A m') =
        (\<lambda>k. if k \<in> set ks \<and> client (the (order_at (arena_get A m) k)) = c then None
             else order_at (arena_get A m) k) \<and>
      (\<forall>k. k \<notin> set (xs @ ks) \<longrightarrow> arena_get A m' k = arena_get A m k)"
proof (induction ks arbitrary: xs q m)
  case Nil
  then show ?case by (subst remove_client_loop.simps) (simp add: filter_id_iff)
next
  case (Cons k ks)
  let ?L = "arena_get A m"
  obtain n where n: "?L k = Some n" using queue_ok_live [OF Cons.prems(1), of k] by auto
  have link: "next_key n = first_key ks None"
    using Cons.prems(1) n by (auto simp: queue_ok_def seg_append)
  have k: "k \<notin> set xs" "k \<notin> set ks" using Cons.prems(1) by (auto simp: queue_ok_def)
  show ?case
  proof (cases "client (node_order n) = c")
    case False
    then have keep: "\<forall>k'\<in>set (xs @ [k]). client (the (order_at ?L k')) \<noteq> c"
      using Cons.prems(2) n by auto
    from Cons.IH [of m q "xs @ [k]"] Cons.prems(1) keep obtain q' m' where
      ih: "remove_client_loop A c (first_key ks None) q m =
          Some (filter (\<lambda>ord. client ord = c) (orders_at ?L ks), q', m')"
        "queue_ok (arena_get A m') q' (filter (\<lambda>k. client (the (order_at ?L k)) \<noteq> c) (xs @ k # ks))"
        "order_at (arena_get A m') =
          (\<lambda>k. if k \<in> set ks \<and> client (the (order_at ?L k)) = c then None else order_at ?L k)"
        "\<forall>k'. k' \<notin> set (xs @ k # ks) \<longrightarrow> arena_get A m' k' = ?L k'"
      by auto
    moreover have "remove_client_loop A c (first_key (k # ks) None) q m =
        remove_client_loop A c (first_key ks None) q m"
      using n link False by (subst remove_client_loop.simps) simp
    ultimately show ?thesis using False n k by (auto simp: fun_eq_iff)
  next
    case True
    from remove_key_spec [OF laws Cons.prems(1)] n obtain q1 m1 where
      rem: "remove_key A q m k = Some (Some (node_order n), q1, m1)"
        "queue_ok (arena_get A m1) q1 (xs @ ks)"
        "order_at (arena_get A m1) = (order_at ?L)(k := None)"
        "\<forall>k'. k' \<notin> set (xs @ k # ks) \<longrightarrow> arena_get A m1 k' = ?L k'"
      by auto
    have same: "order_at (arena_get A m1) k' = order_at ?L k'" if "k' \<noteq> k" for k'
      using rem(3) that by simp
    have keep: "\<forall>k'\<in>set xs. client (the (order_at (arena_get A m1) k')) \<noteq> c"
      using Cons.prems(2) same k by metis
    have keys: "filter (\<lambda>k. client (the (order_at (arena_get A m1) k)) \<noteq> c) (xs @ ks) =
        filter (\<lambda>k. client (the (order_at ?L k)) \<noteq> c) (xs @ ks)"
      using same k by (intro filter_cong refl) (metis Un_iff set_append)
    have orders: "orders_at (arena_get A m1) ks = orders_at ?L ks"
      by (rule order_at_agree [OF rem(3) k(2)])
    from Cons.IH [OF rem(2) keep] obtain q' m' where
      ih: "remove_client_loop A c (first_key ks None) q1 m1 =
          Some (filter (\<lambda>ord. client ord = c) (orders_at ?L ks), q', m')"
        "queue_ok (arena_get A m') q' (filter (\<lambda>k. client (the (order_at ?L k)) \<noteq> c) (xs @ ks))"
        "order_at (arena_get A m') = (\<lambda>k. if k \<in> set ks \<and> client (the (order_at (arena_get A m1) k)) = c
            then None else order_at (arena_get A m1) k)"
        "\<forall>k'. k' \<notin> set (xs @ ks) \<longrightarrow> arena_get A m' k' = arena_get A m1 k'"
      unfolding keys orders by blast
    have "remove_client_loop A c (first_key (k # ks) None) q m =
        Some (filter (\<lambda>ord. client ord = c) (orders_at ?L (k # ks)), q', m')"
      using n link True rem(1) ih(1) by (subst remove_client_loop.simps) simp
    moreover have "order_at (arena_get A m') = (\<lambda>k'. if k' \<in> set (k # ks) \<and>
        client (the (order_at ?L k')) = c then None else order_at ?L k')"
    proof
      fix k'
      show "order_at (arena_get A m') k' = (if k' \<in> set (k # ks) \<and>
          client (the (order_at ?L k')) = c then None else order_at ?L k')"
        using ih(3) rem(3) True n by (cases "k' = k") simp_all
    qed
    moreover have "\<forall>k'. k' \<notin> set (xs @ k # ks) \<longrightarrow> arena_get A m' k' = ?L k'"
      using ih(4) rem(4) by simp
    ultimately show ?thesis using ih(2) True n by simp
  qed
qed

lemma remove_client_spec:
  assumes "arena_laws A" and "queue_ok (arena_get A m) q ks"
  shows "\<exists>q' m'. remove_client A q m c =
      Some (filter (\<lambda>ord. client ord = c) (orders_at (arena_get A m) ks), q', m') \<and>
    queue_ok (arena_get A m') q' (filter (\<lambda>k. client (the (order_at (arena_get A m) k)) \<noteq> c) ks) \<and>
    order_at (arena_get A m') =
      (\<lambda>k. if k \<in> set ks \<and> client (the (order_at (arena_get A m) k)) = c then None
           else order_at (arena_get A m) k) \<and>
    (\<forall>k. k \<notin> set ks \<longrightarrow> arena_get A m' k = arena_get A m k)"
  using remove_client_loop_spec [OF assms(1), of m q "[]" ks c] assms(2)
  by (simp add: remove_client_def queue_ok_def)

section \<open>The consistency oracle\<close>

lemma links_walk_sound:
  "links_walk A q m p c v \<Longrightarrow>
     \<exists>ks. seg (arena_get A m) p ks None \<and> c = first_key ks None \<and> last_key ks p = q_tail q \<and>
       v + length ks = unat (q_len q)"
proof (induction A q m p c v rule: links_walk.induct)
  case (1 A q m p c v)
  show ?case
  proof (cases c)
    case None
    with "1.prems" show ?thesis by (intro exI [of _ "[]"]) (simp add: links_walk.simps)
  next
    case (Some k)
    with "1.prems" obtain n where n: "arena_get A m k = Some n" "prev_key n = p"
      "Suc v \<le> unat (q_len q)" "links_walk A q m (Some k) (next_key n) (Suc v)"
      by (subst (asm) links_walk.simps) (auto split: option.splits if_splits)
    with "1.IH" [OF Some n(1)] obtain ks where "seg (arena_get A m) (Some k) ks None"
      "next_key n = first_key ks None" "last_key ks (Some k) = q_tail q"
      "Suc v + length ks = unat (q_len q)" by auto
    with n Some show ?thesis by (intro exI [of _ "k # ks"]) simp
  qed
qed

lemma links_walk_complete:
  "seg (arena_get A m) p ks None \<Longrightarrow> last_key ks p = q_tail q \<Longrightarrow> v + length ks = unat (q_len q) \<Longrightarrow>
     links_walk A q m p (first_key ks None) v"
proof (induction ks arbitrary: p v)
  case Nil
  then show ?case by (simp add: links_walk.simps)
next
  case (Cons k ks)
  then show ?case by (subst links_walk.simps) auto
qed

text \<open>The back links alone rule out a key that occurs twice.\<close>

lemma seg_prev: "seg L p (xs @ k # ys) e \<Longrightarrow> \<exists>n. L k = Some n \<and> prev_key n = last_key xs p"
  by (auto simp: seg_append)

lemma seg_distinct: "seg L None ks e \<Longrightarrow> distinct ks"
proof (induction ks arbitrary: e rule: rev_induct)
  case (snoc k ks)
  have "distinct ks" using snoc by (auto simp: seg_append)
  moreover have "k \<notin> set ks"
  proof
    assume "k \<in> set ks"
    then obtain xs ys where ks: "ks = xs @ k # ys" by (meson split_list)
    have "last_key xs None = last_key ks None"
      using seg_prev [of L None xs k "ys @ [k]" e] seg_prev [of L None ks k "[]" e] snoc.prems ks
      by auto
    then have eq: "last_key xs None = last_key ys (Some k)" using ks by simp
    then have "xs \<noteq> []" by (auto simp: last_key_def split: if_splits)
    then obtain zs z where "xs = zs @ [z]" by (cases xs rule: rev_cases) auto
    with eq have "z \<in> set (k # ys)" by (auto simp: last_key_def split: if_splits)
    with \<open>distinct ks\<close> ks \<open>xs = zs @ [z]\<close> show False by auto
  qed
  ultimately show ?case by simp
qed simp

text \<open>A well-linked queue passes.\<close>

lemma queue_ok_consistent:
  assumes "queue_ok (arena_get A m) q ks"
  shows "links_are_consistent A q m"
proof (cases ks)
  case Nil
  with assms show ?thesis by (simp add: queue_ok_def links_are_consistent_def unat_eq_zero)
next
  case (Cons k ks')
  then have "q_head q = Some k" "q_tail q \<noteq> None"
    using assms by (auto simp: queue_ok_def last_key_def)
  with assms Cons links_walk_complete [of A m None ks q 0] show ?thesis
    by (simp add: links_are_consistent_def queue_ok_def)
qed

text \<open>
  The consistency oracle of the tests is exact: it accepts a queue if and only if the links in
  the arena thread some duplicate-free list of live keys from head to tail, forwards and
  backwards, of the recorded length.
\<close>

theorem links_are_consistent_iff:
  "links_are_consistent A q m \<longleftrightarrow> (\<exists>ks. queue_ok (arena_get A m) q ks)"
proof
  assume ok: "links_are_consistent A q m"
  show "\<exists>ks. queue_ok (arena_get A m) q ks"
  proof (cases "q_head q = None \<or> q_tail q = None")
    case True
    with ok show ?thesis
      by (intro exI [of _ "[]"]) (simp add: links_are_consistent_def queue_ok_def)
  next
    case False
    with ok have "links_walk A q m None (q_head q) 0" by (simp add: links_are_consistent_def)
    from links_walk_sound [OF this] obtain ks where "seg (arena_get A m) None ks None"
      "q_head q = first_key ks None" "last_key ks None = q_tail q" "length ks = unat (q_len q)"
      by auto
    with seg_distinct [OF this(1)] show ?thesis by (intro exI [of _ ks]) (simp add: queue_ok_def)
  qed
qed (auto intro: queue_ok_consistent)

end
