(* ===== verification/Std_Collections.thy ===== *)
theory Std_Collections
  imports Prelude "HOL-Library.AList"
begin

text \<open>
  The collections of Rust's standard library, as far as the program uses them: an ordered
  map (\<open>BTreeMap\<close>), a hash map, a binary heap, the key wrapper \<open>Reverse\<close>, and the searches
  \<open>position\<close> and \<open>rposition\<close> of slice iterators. Each comes with the laws its clients use.
\<close>

section \<open>Reverse\<close>

datatype 'a reverse = Reverse (unreverse: 'a)

instantiation reverse :: (linorder) linorder
begin

definition less_eq_reverse :: "'a reverse \<Rightarrow> 'a reverse \<Rightarrow> bool" where
  "less_eq_reverse a b \<longleftrightarrow> unreverse b \<le> unreverse a"

definition less_reverse :: "'a reverse \<Rightarrow> 'a reverse \<Rightarrow> bool" where
  "less_reverse a b \<longleftrightarrow> unreverse b < unreverse a"

instance
  by standard (auto simp: less_eq_reverse_def less_reverse_def intro: reverse.expand)

end

lemma Reverse_order [simp]:
  "Reverse a < Reverse b \<longleftrightarrow> b < a"
  "Reverse a \<le> Reverse b \<longleftrightarrow> b \<le> a"
  by (simp_all add: less_reverse_def less_eq_reverse_def)

lemma sorted_wrt_map_Reverse:
  "sorted_wrt (<) (map (Reverse \<circ> f) xs) \<longleftrightarrow> sorted_wrt (\<lambda>x y. f y < f x) xs"
  by (simp add: sorted_wrt_map)

section \<open>BTreeMap: an association list with strictly increasing keys\<close>

type_synonym ('k, 'v) btree_map = "('k \<times> 'v) list"

definition bt_ok :: "('k::linorder, 'v) btree_map \<Rightarrow> bool" where
  "bt_ok m \<longleftrightarrow> sorted_wrt (<) (map fst m)"

definition bt_get :: "('k, 'v) btree_map \<Rightarrow> 'k \<Rightarrow> 'v option" where
  "bt_get m k = map_of m k"

fun bt_put :: "'k::linorder \<Rightarrow> 'v \<Rightarrow> ('k, 'v) btree_map \<Rightarrow> ('k, 'v) btree_map" where
  "bt_put k v [] = [(k, v)]"
| "bt_put k v ((k', v') # m) =
     (if k < k' then (k, v) # (k', v') # m
      else if k = k' then (k, v) # m
      else (k', v') # bt_put k v m)"

fun bt_remove :: "'k \<Rightarrow> ('k, 'v) btree_map \<Rightarrow> ('k, 'v) btree_map" where
  "bt_remove k [] = []"
| "bt_remove k ((k', v') # m) = (if k = k' then m else (k', v') # bt_remove k m)"

text \<open>\<open>get_mut\<close>, and \<open>entry(k).or_insert_with(|| v)\<close>.\<close>

definition bt_get_mut ::
    "('k::linorder, 'v) btree_map \<Rightarrow> 'k \<Rightarrow> ('v, ('k, 'v) btree_map) borrow option" where
  "bt_get_mut m k = map_option (\<lambda>v. (v, \<lambda>v'. bt_put k v' m)) (bt_get m k)"

definition bt_entry_or ::
    "('k::linorder, 'v) btree_map \<Rightarrow> 'k \<Rightarrow> 'v \<Rightarrow> ('v, ('k, 'v) btree_map) borrow" where
  "bt_entry_or m k v = ((case bt_get m k of None \<Rightarrow> v | Some v' \<Rightarrow> v'), \<lambda>v'. bt_put k v' m)"

definition bt_first :: "('k, 'v) btree_map \<Rightarrow> ('k \<times> 'v) option" where
  "bt_first m = (case m of [] \<Rightarrow> None | kv # _ \<Rightarrow> Some kv)"

definition bt_last :: "('k, 'v) btree_map \<Rightarrow> ('k \<times> 'v) option" where
  "bt_last m = (if m = [] then None else Some (last m))"

definition bt_values :: "('k, 'v) btree_map \<Rightarrow> 'v list" where
  "bt_values m = map snd m"

lemma bt_ok_Nil [simp]: "bt_ok []"
  by (simp add: bt_ok_def)

lemma bt_ok_Cons [simp]: "bt_ok (kv # m) \<longleftrightarrow> (\<forall>kv'\<in>set m. fst kv < fst kv') \<and> bt_ok m"
  by (simp add: bt_ok_def)

lemma bt_get_Nil [simp]: "bt_get [] = Map.empty"
  by (simp add: bt_get_def fun_eq_iff)

lemma bt_put_fst: "fst ` set (bt_put k v m) = insert k (fst ` set m)"
  by (induction k v m rule: bt_put.induct) auto

lemma bt_ok_put [simp]: "bt_ok m \<Longrightarrow> bt_ok (bt_put k v m)"
proof (induction k v m rule: bt_put.induct)
  case (2 k v k' v' m)
  show ?case
  proof (cases "k < k' \<or> k = k'")
    case True
    with 2 show ?thesis by (auto dest: order.strict_trans)
  next
    case False
    then have "k' < k" and "bt_ok (bt_put k v m)" using 2 by auto
    moreover have "k' < fst kv" if "kv \<in> set (bt_put k v m)" for kv
    proof -
      from that have "fst kv \<in> insert k (fst ` set m)"
        by (metis bt_put_fst imageI)
      with 2(2) \<open>k' < k\<close> show ?thesis by auto
    qed
    ultimately show ?thesis by auto
  qed
qed simp

lemma bt_get_Cons [simp]: "bt_get (kv # m) = (bt_get m)(fst kv \<mapsto> snd kv)"
  by (simp add: bt_get_def fun_eq_iff)

lemma bt_get_put [simp]: "bt_get (bt_put k v m) = (bt_get m)(k \<mapsto> v)"
  by (induction k v m rule: bt_put.induct) (auto simp: fun_upd_twist)

lemma bt_remove_subset: "set (bt_remove k m) \<subseteq> set m"
  by (induction k m rule: bt_remove.induct) auto

lemma bt_ok_remove [simp]: "bt_ok m \<Longrightarrow> bt_ok (bt_remove k m)"
  by (induction k m rule: bt_remove.induct) (auto dest: subsetD [OF bt_remove_subset])

lemma bt_remove_set: "bt_ok m \<Longrightarrow> set (bt_remove k m) = {kv \<in> set m. fst kv \<noteq> k}"
  by (induction k m rule: bt_remove.induct) auto

lemma bt_ok_distinct: "bt_ok m \<Longrightarrow> distinct (map fst m)"
  by (simp add: bt_ok_def strict_sorted_iff)

lemma bt_get_eq_Some: "bt_ok m \<Longrightarrow> bt_get m k = Some v \<longleftrightarrow> (k, v) \<in> set m"
  by (simp add: bt_get_def bt_ok_distinct)

lemma bt_get_eq_None: "bt_get m k = None \<longleftrightarrow> k \<notin> fst ` set m"
  by (simp add: bt_get_def map_of_eq_None_iff)

lemma bt_get_remove [simp]: "bt_ok m \<Longrightarrow> bt_get (bt_remove k m) = (bt_get m)(k := None)"
proof (induction k m rule: bt_remove.induct)
  case (2 k k' v' m)
  then have none: "k = k' \<Longrightarrow> bt_get m k = None" by (auto simp: bt_get_eq_None)
  show ?case
  proof (cases "k = k'")
    case True
    with none show ?thesis by (auto simp: fun_eq_iff)
  next
    case False
    with 2 show ?thesis by (auto simp: fun_eq_iff)
  qed
qed simp

lemma bt_first_least:
  "bt_ok m \<Longrightarrow> bt_first m = Some (k, v) \<Longrightarrow> bt_get m k = Some v \<and> (\<forall>k' v'. bt_get m k' = Some v' \<longrightarrow> k \<le> k')"
  by (cases m) (auto simp: bt_first_def bt_get_eq_Some split: if_splits)

lemma bt_first_None: "bt_first m = None \<longleftrightarrow> m = []"
  by (auto simp: bt_first_def split: list.splits)

lemma bt_last_None: "bt_last m = None \<longleftrightarrow> m = []"
  by (auto simp: bt_last_def)

lemma bt_last_greatest:
  assumes "bt_ok m" and "bt_last m = Some (k, v)"
  shows "bt_get m k = Some v \<and> (\<forall>k' v'. bt_get m k' = Some v' \<longrightarrow> k' \<le> k)"
proof -
  from assms(2) obtain m' where m: "m = m' @ [(k, v)]"
    by (metis append_butlast_last_id bt_last_def option.distinct(1) option.inject)
  with assms(1) have "\<forall>kv\<in>set m'. fst kv < k" by (auto simp: bt_ok_def sorted_wrt_append)
  with m assms(1) show ?thesis
    by (auto simp: bt_get_eq_Some)
qed

section \<open>HashMap: an association list with distinct keys\<close>

text \<open>
  The order of the list stands for the order in which the hash table happens to iterate, which
  Rust leaves open; no result of the program may depend on it.
\<close>

type_synonym ('k, 'v) hash_map = "('k \<times> 'v) list"

definition hm_ok :: "('k, 'v) hash_map \<Rightarrow> bool" where
  "hm_ok m \<longleftrightarrow> distinct (map fst m)"

definition hm_get :: "('k, 'v) hash_map \<Rightarrow> 'k \<Rightarrow> 'v option" where
  "hm_get m k = map_of m k"

definition hm_insert :: "'k \<Rightarrow> 'v \<Rightarrow> ('k, 'v) hash_map \<Rightarrow> ('k, 'v) hash_map" where
  "hm_insert k v m = AList.update k v m"

definition hm_get_mut :: "('k, 'v) hash_map \<Rightarrow> 'k \<Rightarrow> ('v, ('k, 'v) hash_map) borrow option" where
  "hm_get_mut m k = map_option (\<lambda>v. (v, \<lambda>v'. hm_insert k v' m)) (hm_get m k)"

definition hm_remove :: "'k \<Rightarrow> ('k, 'v) hash_map \<Rightarrow> ('k, 'v) hash_map" where
  "hm_remove k m = AList.delete k m"

definition hm_keys :: "('k, 'v) hash_map \<Rightarrow> 'k list" where
  "hm_keys m = map fst m"

definition hm_values :: "('k, 'v) hash_map \<Rightarrow> 'v list" where
  "hm_values m = map snd m"

lemma hm_ok_Nil [simp]: "hm_ok []"
  by (simp add: hm_ok_def)

lemma hm_get_Nil [simp]: "hm_get [] = Map.empty"
  by (simp add: hm_get_def fun_eq_iff)

lemma hm_get_insert [simp]: "hm_get (hm_insert k v m) = (hm_get m)(k \<mapsto> v)"
  by (simp add: hm_get_def [abs_def] hm_insert_def update_conv')

lemma hm_get_remove [simp]: "hm_get (hm_remove k m) = (hm_get m)(k := None)"
  by (simp add: hm_get_def [abs_def] hm_remove_def delete_conv')

lemma hm_ok_insert [simp]: "hm_ok m \<Longrightarrow> hm_ok (hm_insert k v m)"
  by (simp add: hm_ok_def hm_insert_def distinct_update)

lemma hm_ok_remove [simp]: "hm_ok m \<Longrightarrow> hm_ok (hm_remove k m)"
  by (simp add: hm_ok_def hm_remove_def distinct_delete)

lemma hm_get_eq_Some: "hm_ok m \<Longrightarrow> hm_get m k = Some v \<longleftrightarrow> (k, v) \<in> set m"
  by (simp add: hm_ok_def hm_get_def)

lemma hm_keys_set: "set (hm_keys m) = dom (hm_get m)"
  by (simp add: hm_keys_def hm_get_def [abs_def] dom_map_of_conv_image_fst)

lemma hm_values_set: "hm_ok m \<Longrightarrow> v \<in> set (hm_values m) \<longleftrightarrow> (\<exists>k. hm_get m k = Some v)"
  by (auto simp: hm_values_def hm_get_eq_Some image_iff intro: rev_bexI)

section \<open>BinaryHeap: a bag with its greatest element on top\<close>

type_synonym 'a binary_heap = "'a list"

definition heap_push :: "'a \<Rightarrow> 'a binary_heap \<Rightarrow> 'a binary_heap" where
  "heap_push x h = x # h"

fun heap_peek :: "'a::linorder binary_heap \<Rightarrow> 'a option" where
  "heap_peek [] = None"
| "heap_peek (x # h) = Some (fold max h x)"

definition heap_retain :: "('a \<Rightarrow> bool) \<Rightarrow> 'a binary_heap \<Rightarrow> 'a binary_heap" where
  "heap_retain P h = filter P h"

lemma heap_peek_Max: "heap_peek h = (if h = [] then None else Some (Max (set h)))"
  by (cases h) (simp_all add: Max.set_eq_fold del: set_simps)

lemma heap_peek_eq_Some:
  "heap_peek h = Some x \<longleftrightarrow> x \<in> set h \<and> (\<forall>y\<in>set h. y \<le> x)"
  by (auto simp: heap_peek_Max intro: Max_eqI)

lemma heap_peek_eq_None: "heap_peek h = None \<longleftrightarrow> h = []"
  by (simp add: heap_peek_Max)

section \<open>Slice searches\<close>

definition is_some :: "'a option \<Rightarrow> bool" where
  "is_some x \<longleftrightarrow> x \<noteq> None"

lemma is_some_simps [simp]: "is_some (Some y)" "\<not> is_some None"
  by (simp_all add: is_some_def)

lemma is_some_iff: "is_some x \<longleftrightarrow> (\<exists>y. x = Some y)"
  by (simp add: is_some_def)

fun position :: "('a \<Rightarrow> bool) \<Rightarrow> 'a list \<Rightarrow> nat option" where
  "position P [] = None"
| "position P (x # xs) = (if P x then Some 0 else map_option Suc (position P xs))"

definition rposition :: "('a \<Rightarrow> bool) \<Rightarrow> 'a list \<Rightarrow> nat option" where
  "rposition P xs = map_option (\<lambda>i. length xs - 1 - i) (position P (rev xs))"

lemma position_eq_Some:
  "position P xs = Some i \<longleftrightarrow> i < length xs \<and> P (xs ! i) \<and> (\<forall>j<i. \<not> P (xs ! j))"
  by (induction xs arbitrary: i) (auto simp: less_Suc_eq_0_disj nth_Cons split: nat.splits)

lemma position_eq_None: "position P xs = None \<longleftrightarrow> (\<forall>x\<in>set xs. \<not> P x)"
  by (induction xs) auto

lemma rposition_eq_None: "rposition P xs = None \<longleftrightarrow> (\<forall>x\<in>set xs. \<not> P x)"
  by (simp add: rposition_def position_eq_None)

lemma rposition_eq_Some:
  assumes "rposition P xs = Some i"
  shows "i < length xs \<and> P (xs ! i) \<and> (\<forall>j<length xs. i < j \<longrightarrow> \<not> P (xs ! j))"
proof -
  from assms obtain k where k: "position P (rev xs) = Some k" and i: "i = length xs - 1 - k"
    by (auto simp: rposition_def)
  from k have len: "k < length xs" and hit: "P (rev xs ! k)" and miss: "\<forall>j<k. \<not> P (rev xs ! j)"
    by (auto simp: position_eq_Some)
  have "\<not> P (xs ! j)" if "j < length xs" and "i < j" for j
  proof -
    from that i len have "length xs - 1 - j < k" by linarith
    with miss have "\<not> P (rev xs ! (length xs - 1 - j))" by blast
    with that show ?thesis by (simp add: rev_nth)
  qed
  with hit len i show ?thesis by (simp add: rev_nth)
qed

lemma rposition_iff:
  "rposition P xs = Some i \<longleftrightarrow> i < length xs \<and> P (xs ! i) \<and> (\<forall>j<length xs. i < j \<longrightarrow> \<not> P (xs ! j))"
proof
  assume "i < length xs \<and> P (xs ! i) \<and> (\<forall>j<length xs. i < j \<longrightarrow> \<not> P (xs ! j))"
  moreover from this obtain k where "rposition P xs = Some k"
    by (metis not_None_eq nth_mem rposition_eq_None)
  ultimately show "rposition P xs = Some i"
    using rposition_eq_Some [of P xs k] by (metis linorder_neqE_nat)
qed (rule rposition_eq_Some)

text \<open>The occupied entries of a vector of options, as \<open>find_map(Option::as_ref)\<close> yields them.\<close>

primrec somes :: "'a option list \<Rightarrow> 'a list" where
  "somes [] = []"
| "somes (x # xs) = (case x of None \<Rightarrow> somes xs | Some y \<Rightarrow> y # somes xs)"

lemma somes_append [simp]: "somes (xs @ ys) = somes xs @ somes ys"
  by (induction xs) (auto split: option.splits)

lemma somes_rev [simp]: "somes (rev xs) = rev (somes xs)"
  by (induction xs) (auto split: option.splits)

lemma somes_mem: "y \<in> set (somes xs) \<longleftrightarrow> (\<exists>i<length xs. xs ! i = Some y)"
proof -
  have "y \<in> set (somes xs) \<longleftrightarrow> Some y \<in> set xs"
    by (induction xs) (auto split: option.splits)
  then show ?thesis by (simp add: in_set_conv_nth)
qed

lemma sorted_wrt_somes:
  "(\<And>i j a b. i < j \<Longrightarrow> j < length xs \<Longrightarrow> xs ! i = Some a \<Longrightarrow> xs ! j = Some b \<Longrightarrow> P a b) \<Longrightarrow>
     sorted_wrt P (somes xs)"
proof (induction xs)
  case (Cons x xs)
  have "sorted_wrt P (somes xs)"
    using Cons.prems [of "Suc _" "Suc _"] by (intro Cons.IH) simp
  moreover have "P a b" if "x = Some a" and "b \<in> set (somes xs)" for a b
    using that Cons.prems [of 0 "Suc _" a b] by (auto simp: somes_mem)
  ultimately show ?case by (auto split: option.splits)
qed simp

lemma somes_position:
  "somes xs = (case position is_some xs of
     None \<Rightarrow> [] | Some i \<Rightarrow> the (xs ! i) # somes (drop (Suc i) xs))"
  by (induction xs) (auto split: option.splits)

lemma somes_Nil: "somes xs = [] \<longleftrightarrow> (\<forall>x\<in>set xs. x = None)"
  by (induction xs) (auto split: option.splits)

lemma somes_rposition:
  "somes (rev xs) = (case rposition is_some xs of
     None \<Rightarrow> [] | Some i \<Rightarrow> the (xs ! i) # rev (somes (take i xs)))"
proof (cases "rposition is_some xs")
  case None
  then have "somes xs = []" by (simp add: rposition_eq_None somes_Nil is_some_def)
  with None show ?thesis by simp
next
  case (Some i)
  then have i: "i < length xs" "xs ! i \<noteq> None" "\<forall>j<length xs. i < j \<longrightarrow> xs ! j = None"
    by (auto simp: rposition_iff is_some_def)
  have "somes (drop (Suc i) xs) = []"
    unfolding somes_Nil using i(3) by (auto simp: in_set_conv_nth)
  have "somes xs = somes (take i xs @ xs ! i # drop (Suc i) xs)"
    by (rule arg_cong [OF id_take_nth_drop [OF i(1)]])
  also have "\<dots> = somes (take i xs) @ [the (xs ! i)]"
    using i(2) \<open>somes (drop (Suc i) xs) = []\<close> by (auto simp: is_some_def)
  finally have "somes xs = somes (take i xs) @ [the (xs ! i)]" .
  with Some show ?thesis by simp
qed

text \<open>How filling or emptying one slot moves the first and the last occupied one.\<close>

lemma position_fill:
  assumes "i < length xs"
  shows "position is_some (xs[i := Some x]) =
    Some (case position is_some xs of None \<Rightarrow> i | Some b \<Rightarrow> min i b)"
proof (cases "position is_some xs")
  case None
  then have "\<forall>j<length xs. \<not> is_some (xs ! j)" by (simp add: position_eq_None)
  with None assms show ?thesis by (simp add: position_eq_Some nth_list_update)
next
  case (Some b)
  then have "b < length xs" "is_some (xs ! b)" "\<forall>j<b. \<not> is_some (xs ! j)"
    by (simp_all add: position_eq_Some)
  then have "position is_some (xs[i := Some x]) = Some (min i b)"
    using assms by (auto simp: position_eq_Some nth_list_update min_def)
  with Some show ?thesis by simp
qed

lemma rposition_fill:
  assumes "i < length xs"
  shows "rposition is_some (xs[i := Some x]) =
    Some (case rposition is_some xs of None \<Rightarrow> i | Some b \<Rightarrow> max i b)"
proof (cases "rposition is_some xs")
  case None
  then have "\<forall>j<length xs. \<not> is_some (xs ! j)" by (simp add: rposition_eq_None)
  with None assms show ?thesis by (simp add: rposition_iff nth_list_update)
next
  case (Some b)
  then have "b < length xs" "is_some (xs ! b)" "\<forall>j<length xs. b < j \<longrightarrow> \<not> is_some (xs ! j)"
    by (simp_all add: rposition_iff)
  then have "rposition is_some (xs[i := Some x]) = Some (max i b)"
    using assms by (auto simp: rposition_iff nth_list_update max_def)
  with Some show ?thesis by simp
qed

lemma position_empty:
  assumes "i < length xs" and "is_some (xs ! i)"
  shows "position is_some (xs[i := None]) =
    (if position is_some xs = Some i
     then map_option (\<lambda>k. i + 1 + k) (position is_some (drop (i + 1) xs))
     else position is_some xs)"
proof (cases "position is_some xs = Some i")
  case True
  then have before: "\<forall>j<i. \<not> is_some (xs ! j)" by (simp add: position_eq_Some)
  show ?thesis
  proof (cases "position is_some (drop (i + 1) xs)")
    case None
    have "\<not> is_some (xs[i := None] ! j)" if "j < length xs" for j
    proof (cases "i < j")
      case True
      then have "xs ! j \<in> set (drop (i + 1) xs)"
        using that by (auto simp: in_set_conv_nth intro!: exI [of _ "j - (i + 1)"])
      with None True show ?thesis by (auto simp: position_eq_None)
    next
      case False
      with before that show ?thesis by (cases "i = j") auto
    qed
    then have "position is_some (xs[i := None]) = None"
      by (auto simp: position_eq_None in_set_conv_nth)
    with True None show ?thesis by simp
  next
    case (Some k)
    then have k: "i + 1 + k < length xs" "is_some (xs ! (i + 1 + k))"
      and miss: "\<forall>j<k. \<not> is_some (xs ! (i + 1 + j))"
      by (auto simp: position_eq_Some)
    have "\<not> is_some (xs[i := None] ! j)" if "j < i + 1 + k" for j
    proof (cases "i < j")
      case True
      then obtain d where "j = i + 1 + d" using less_imp_Suc_add by fastforce
      with that miss show ?thesis by auto
    next
      case False
      with before k that show ?thesis by (cases "i = j") auto
    qed
    with k have "position is_some (xs[i := None]) = Some (i + 1 + k)"
      by (simp add: position_eq_Some)
    with True Some show ?thesis by simp
  qed
next
  case False
  with assms obtain b where b: "position is_some xs = Some b" "b < i"
    by (metis linorder_neqE_nat not_None_eq nth_mem position_eq_None position_eq_Some)
  then have "position is_some (xs[i := None]) = Some b"
    using assms by (auto simp: position_eq_Some)
  with False b show ?thesis by simp
qed

lemma rposition_empty:
  assumes "i < length xs" and "is_some (xs ! i)"
  shows "rposition is_some (xs[i := None]) =
    (if rposition is_some xs = Some i then rposition is_some (take i xs) else rposition is_some xs)"
proof (cases "rposition is_some xs = Some i")
  case True
  then have after: "\<forall>j<length xs. i < j \<longrightarrow> \<not> is_some (xs ! j)" by (simp add: rposition_iff)
  show ?thesis
  proof (cases "rposition is_some (take i xs)")
    case None
    have "\<not> is_some (xs[i := None] ! j)" if "j < length xs" for j
    proof (cases "j < i")
      case True
      then have "xs ! j \<in> set (take i xs)"
        using that by (auto simp: in_set_conv_nth intro!: exI [of _ j])
      with None True show ?thesis by (auto simp: rposition_eq_None)
    next
      case False
      with after that show ?thesis by (cases "i = j") auto
    qed
    then have "rposition is_some (xs[i := None]) = None"
      by (auto simp: rposition_eq_None in_set_conv_nth)
    with True None show ?thesis by simp
  next
    case (Some k)
    then have k: "k < i" "is_some (xs ! k)" and miss: "\<forall>j<i. k < j \<longrightarrow> \<not> is_some (xs ! j)"
      using assms(1) by (auto simp: rposition_iff)
    have "\<not> is_some (xs[i := None] ! j)" if "j < length xs" "k < j" for j
      using miss after that by (cases "i = j"; cases "j < i") auto
    with k assms(1) have "rposition is_some (xs[i := None]) = Some k"
      by (simp add: rposition_iff)
    with True Some show ?thesis by simp
  qed
next
  case False
  with assms obtain b where b: "rposition is_some xs = Some b" "i < b"
    by (metis linorder_neqE_nat not_None_eq nth_mem rposition_eq_None rposition_iff)
  then have "rposition is_some (xs[i := None]) = Some b"
    using assms by (auto simp: rposition_iff nth_list_update)
  with False b show ?thesis by simp
qed

end
