(* ===== verification/Slot_Arena.thy ===== *)
theory Slot_Arena
  imports Queue_Facts Std_Collections
begin

text \<open>
  An executable arena that satisfies \<open>arena_laws\<close>, for closed examples: a vector of slots, an
  insertion taking the first free one. A slot carries a version that a removal advances, and a key
  names slot and version, so that a key that was removed stays dead. It stands in for the \<open>slotmap\<close>
  crate where a witness or a unit test evaluates the program on a concrete input; the properties are
  stated for every arena \<open>A\<close> with \<open>arena_laws A\<close>.
\<close>

type_synonym slot_key = "nat \<times> nat"

type_synonym slots = "(nat \<times> slot_key node option) list"

definition slot_get :: "slots \<Rightarrow> slot_key \<Rightarrow> slot_key node option" where
  "slot_get m k =
     (if fst k < 4294967294
      then case nth_opt m (fst k) of
             None \<Rightarrow> None
           | Some (version, x) \<Rightarrow> if version = snd k then x else None
      else None)"

definition slot_get_mut :: "slots \<Rightarrow> slot_key \<Rightarrow> (slot_key node, slots) borrow option" where
  "slot_get_mut m k = map_option (\<lambda>n. (n, \<lambda>n'. m[fst k := (snd k, Some n')])) (slot_get m k)"

definition slot_free :: "nat \<times> slot_key node option \<Rightarrow> bool" where
  "slot_free s \<longleftrightarrow> Option.is_none (snd s)"

definition slot_insert :: "slots \<Rightarrow> slot_key node \<Rightarrow> (slot_key \<times> slots) option" where
  "slot_insert m n =
     (case position slot_free m of
        Some i \<Rightarrow>
          if i < 4294967294 then Some ((i, fst (m ! i)), m[i := (fst (m ! i), Some n)]) else None
      | None \<Rightarrow>
          if length m < 4294967294 then Some ((length m, 0), m @ [(0, Some n)]) else None)"

definition slot_remove :: "slots \<Rightarrow> slot_key \<Rightarrow> (slot_key node \<times> slots) option" where
  "slot_remove m k = map_option (\<lambda>n. (n, m[fst k := (Suc (snd k), None)])) (slot_get m k)"

definition slot_arena :: "(slots, slot_key) arena_ops" where
  "slot_arena =
     \<lparr>arena_new = [], arena_get = slot_get, arena_get_mut = slot_get_mut,
      arena_insert = slot_insert, arena_remove = slot_remove\<rparr>"

text \<open>Small indices are in range without counting to the bound.\<close>

definition slot_index :: "nat \<Rightarrow> bool" where
  "slot_index k \<longleftrightarrow> k < 4294967294"

lemma slot_index_code [code]: "slot_index k = (if k < 64 then True else int k < 4294967294)"
  by (auto simp: slot_index_def)

lemmas slot_codes [code] = slot_get_def [folded slot_index_def] slot_insert_def [folded slot_index_def]

lemma slot_get_Some:
  "slot_get m k = Some n \<longleftrightarrow> fst k < 4294967294 \<and> fst k < length m \<and> m ! fst k = (snd k, Some n)"
  by (cases "m ! fst k") (auto simp: slot_get_def nth_opt_def)

lemma slot_get_update:
  assumes "fst k < 4294967294" and "fst k < length m" and "fst (m ! fst k) = snd k"
  shows "slot_get (m[fst k := (snd k, x)]) = (slot_get m)(k := x)"
    and "slot_get (m[fst k := (Suc (snd k), None)]) = (slot_get m)(k := None)"
  using assms
  by (auto simp: fun_eq_iff slot_get_def nth_opt_def nth_list_update split: prod.splits)

lemma slot_get_append:
  "length m < 4294967294 \<Longrightarrow> slot_get (m @ [(0, Some n)]) = (slot_get m)((length m, 0) \<mapsto> n)"
  by (auto simp: fun_eq_iff slot_get_def nth_opt_def nth_append)

text \<open>A slot has one live key, so the live keys are as many as the occupied slots.\<close>

definition key_at :: "slots \<Rightarrow> nat \<Rightarrow> slot_key" where
  "key_at m i = (i, fst (m ! i))"

lemma key_at_inj: "inj_on (key_at m) X"
  by (auto simp: inj_on_def key_at_def)

lemma slot_dom: "dom (slot_get m) \<subseteq> key_at m ` {..<4294967294}"
  by (force simp: dom_def slot_get_Some key_at_def image_iff)

lemma slot_full:
  assumes "\<And>i. i < 4294967294 \<Longrightarrow> slot_get m (key_at m i) \<noteq> None"
  shows "card (dom (slot_get m)) = 4294967294"
proof -
  have "dom (slot_get m) = key_at m ` {..<4294967294}" using assms slot_dom by fastforce
  then show ?thesis by (simp only: card_image [OF key_at_inj] card_lessThan)
qed

lemma slot_insert_Some:
  assumes "card (dom (slot_get m)) < 2 ^ 32 - 2"
  shows "slot_insert m n \<noteq> None"
proof
  assume none: "slot_insert m n = None"
  have "slot_get m (key_at m i) \<noteq> None" if i: "i < 4294967294" for i
  proof -
    have "i < length m \<and> \<not> slot_free (m ! i)"
    proof (cases "position slot_free m")
      case None
      with none have "4294967294 \<le> length m" by (auto simp: slot_insert_def split: if_splits)
      with None i show ?thesis by (auto simp: position_eq_None)
    next
      case (Some j)
      with none have "4294967294 \<le> j" by (auto simp: slot_insert_def split: if_splits)
      with Some i show ?thesis by (auto simp: position_eq_Some)
    qed
    with i show ?thesis
      by (cases "m ! i") (auto simp: slot_get_def nth_opt_def key_at_def slot_free_def Option.is_none_def)
  qed
  from slot_full [OF this] assms show False by simp
qed

lemma slot_insert_get:
  assumes "slot_insert m n = Some (k, m')"
  shows "slot_get m k = None \<and> slot_get m' = (slot_get m)(k \<mapsto> n)"
proof (cases "position slot_free m")
  case None
  with assms show ?thesis
    by (auto simp: slot_insert_def slot_get_append slot_get_def nth_opt_def split: if_splits)
next
  case (Some i)
  with assms have k: "i < 4294967294" "k = (i, fst (m ! i))" "m' = m[i := (fst (m ! i), Some n)]"
    by (auto simp: slot_insert_def split: if_splits)
  from Some have "i < length m" "snd (m ! i) = None"
    by (auto simp: position_eq_Some slot_free_def Option.is_none_def split: option.splits)
  with k slot_get_update(1) [of k m "Some n"] show ?thesis
    by (cases "m ! i") (auto simp: slot_get_def nth_opt_def)
qed

lemma slot_arena_laws: "arena_laws slot_arena"
proof -
  have fin: "finite (dom (slot_get m))" for m
    by (rule finite_subset [OF slot_dom]) simp
  have small: "card (dom (slot_get m)) < 2 ^ 32" for m
    by (rule le_less_trans [OF card_mono [OF _ slot_dom]])
      (simp_all only: card_image [OF key_at_inj] card_lessThan finite_imageI finite_lessThan, simp)
  have new: "slot_get [] k = None" for k by (simp add: slot_get_def)
  have live: "(\<exists>put. slot_get_mut m k = Some (v, put) \<and> (\<forall>v'. slot_get (put v') = (slot_get m)(k \<mapsto> v'))) \<and>
      (\<exists>m'. slot_remove m k = Some (v, m') \<and> slot_get m' = (slot_get m)(k := None))"
    if "slot_get m k = Some v" for m k v
    using that slot_get_update [of k m] by (auto simp: slot_get_mut_def slot_remove_def slot_get_Some)
  have dead: "slot_get_mut m k = None \<and> slot_remove m k = None" if "slot_get m k = None" for m k
    using that by (simp add: slot_get_mut_def slot_remove_def)
  show ?thesis
    unfolding arena_laws_def slot_arena_def arena_ops.simps
    by (intro conjI allI impI fin small new slot_insert_Some)
      (use live dead slot_insert_get in blast)+
qed

text \<open>
  C28. The linked queue is a FIFO list over the shared arena. A new queue is empty; appending to any
  queue, an empty one too, puts the order at the back under a fresh key; unlinking any key of the
  queue, wherever it stands, takes exactly that order out, and a dead key changes nothing; removing a
  client takes out exactly that client's orders, in arrival order; and the traversals return the
  remaining orders in arrival order. None of it touches a node that is not in the queue.
\<close>

theorem queue_refines_list:
  assumes "arena_laws A" and "queue_ok (arena_get A m) q ks"
  defines "os \<equiv> orders_at (arena_get A m)"
  shows "queue_ok (arena_get A m) queue_default [] \<and> queue_iter A q m = Some (os ks) \<and>
    (card (dom (arena_get A m)) < 2 ^ 32 - 2 \<longrightarrow>
      (\<exists>k q' m'. push_back A q m ord = Some (k, q', m') \<and> arena_get A m k = None \<and>
         queue_ok (arena_get A m') q' (ks @ [k]) \<and> queue_iter A q' m' = Some (os ks @ [ord]) \<and>
         (\<forall>other. other \<notin> set ks \<and> other \<noteq> k \<longrightarrow> arena_get A m' other = arena_get A m other))) \<and>
    (\<forall>xs k ys. ks = xs @ k # ys \<longrightarrow>
      (\<exists>ord q' m'. remove_key A q m k = Some (Some ord, q', m') \<and> os [k] = [ord] \<and> arena_get A m' k = None \<and>
         queue_ok (arena_get A m') q' (xs @ ys) \<and> queue_iter A q' m' = Some (os (xs @ ys)) \<and>
         (\<forall>other. other \<notin> set ks \<longrightarrow> arena_get A m' other = arena_get A m other))) \<and>
    (\<forall>k. arena_get A m k = None \<longrightarrow> remove_key A q m k = Some (None, q, m)) \<and>
    (\<exists>q' m'. remove_client A q m c = Some (filter (\<lambda>x. client x = c) (os ks), q', m') \<and>
       queue_ok (arena_get A m') q' (filter (\<lambda>k. client (hd (os [k])) \<noteq> c) ks) \<and>
       queue_iter A q' m' = Some (filter (\<lambda>x. client x \<noteq> c) (os ks)) \<and>
       (\<forall>other. other \<notin> set ks \<longrightarrow> arena_get A m' other = arena_get A m other))"
proof (intro conjI allI impI)
  let ?L = "arena_get A m"
  have dist: "distinct ks" using assms(2) by (simp add: queue_ok_def)
  show "queue_ok ?L queue_default []" by simp
  show "queue_iter A q m = Some (os ks)"
    unfolding os_def by (rule queue_iter_spec [OF assms(2)])
  show "remove_key A q m k = Some (None, q, m)" if "?L k = None" for k
    by (rule remove_key_stale [OF assms(1) that])
  show "\<exists>k q' m'. push_back A q m ord = Some (k, q', m') \<and> ?L k = None \<and>
      queue_ok (arena_get A m') q' (ks @ [k]) \<and> queue_iter A q' m' = Some (os ks @ [ord]) \<and>
      (\<forall>other. other \<notin> set ks \<and> other \<noteq> k \<longrightarrow> arena_get A m' other = ?L other)"
    if room: "card (dom ?L) < 2 ^ 32 - 2"
  proof -
    from push_back_spec [OF assms(1,2) room, of ord] obtain k q' m' where
      push: "push_back A q m ord = Some (k, q', m')" "?L k = None" "queue_ok (arena_get A m') q' (ks @ [k])"
        "order_at (arena_get A m') = (order_at ?L)(k \<mapsto> ord)"
        "\<forall>k'. k' \<notin> set ks \<longrightarrow> k' \<noteq> k \<longrightarrow> arena_get A m' k' = ?L k'"
      by blast
    have "k \<notin> set ks" using push(2) queue_ok_live [OF assms(2), of k] by auto
    then have "orders_at (arena_get A m') (ks @ [k]) = os ks @ [ord]"
      unfolding push(4) os_def by auto
    with push queue_iter_spec [OF push(3)] show ?thesis by metis
  qed
  show "\<exists>ord q' m'. remove_key A q m k = Some (Some ord, q', m') \<and> os [k] = [ord] \<and> arena_get A m' k = None \<and>
      queue_ok (arena_get A m') q' (xs @ ys) \<and> queue_iter A q' m' = Some (os (xs @ ys)) \<and>
      (\<forall>other. other \<notin> set ks \<longrightarrow> arena_get A m' other = ?L other)"
    if ks: "ks = xs @ k # ys" for xs k ys
  proof -
    from remove_key_spec [OF assms(1) assms(2) [unfolded ks]] obtain ord q' m' where
      rem: "remove_key A q m k = Some (Some ord, q', m')" "order_at ?L k = Some ord"
        "queue_ok (arena_get A m') q' (xs @ ys)" "order_at (arena_get A m') = (order_at ?L)(k := None)"
        "\<forall>k'. k' \<notin> set ks \<longrightarrow> arena_get A m' k' = ?L k'"
      unfolding ks by blast
    have "orders_at (arena_get A m') (xs @ ys) = os (xs @ ys)"
      unfolding os_def by (rule order_at_agree [OF rem(4)]) (use dist ks in auto)
    moreover have "arena_get A m' k = None" using fun_cong [OF rem(4), of k] by simp
    ultimately show ?thesis using rem queue_iter_spec [OF rem(3)] by (auto simp: os_def)
  qed
  show "\<exists>q' m'. remove_client A q m c = Some (filter (\<lambda>x. client x = c) (os ks), q', m') \<and>
      queue_ok (arena_get A m') q' (filter (\<lambda>k. client (hd (os [k])) \<noteq> c) ks) \<and>
      queue_iter A q' m' = Some (filter (\<lambda>x. client x \<noteq> c) (os ks)) \<and>
      (\<forall>other. other \<notin> set ks \<longrightarrow> arena_get A m' other = ?L other)"
  proof -
    from remove_client_spec [OF assms(1,2), of c] obtain q' m' where
      stp: "remove_client A q m c = Some (filter (\<lambda>x. client x = c) (os ks), q', m')"
        "queue_ok (arena_get A m') q' (filter (\<lambda>k. client (the (order_at ?L k)) \<noteq> c) ks)"
        "order_at (arena_get A m') = (\<lambda>k. if k \<in> set ks \<and> client (the (order_at ?L k)) = c then None
           else order_at ?L k)"
        "\<forall>k'. k' \<notin> set ks \<longrightarrow> arena_get A m' k' = ?L k'"
      unfolding os_def by blast
    have "orders_at (arena_get A m') (filter (\<lambda>k. client (the (order_at ?L k)) \<noteq> c) ks) =
        filter (\<lambda>x. client x \<noteq> c) (os ks)"
      unfolding stp(3) os_def by (simp add: filter_map comp_def)
    with queue_iter_spec [OF stp(2)]
    have "queue_iter A q' m' = Some (filter (\<lambda>x. client x \<noteq> c) (os ks))" by (simp only:)
    moreover have "(\<lambda>k. client (hd (os [k])) \<noteq> c) = (\<lambda>k. client (the (order_at ?L k)) \<noteq> c)" by (simp add: os_def)
    ultimately show ?thesis using stp(1,2,4) by metis
  qed
qed

text \<open>Two orders in a queue, and a third in another queue of the same arena.\<close>

definition sample_order :: "string \<Rightarrow> string \<Rightarrow> side \<Rightarrow> order_type \<Rightarrow> u64 \<Rightarrow> order" where
  "sample_order i c s t q =
     \<lparr>order_id = ExchangeId i, client = ClientId c, otype = t, order_side = s,
      original_quantity = Qty q, remaining_quantity = Qty q, timestamp = 0, arrival = 0, state = New\<rparr>"

definition sample_ask :: "string \<Rightarrow> order" where
  "sample_ask i = sample_order i ''m'' Ask (limit_gtc (Price 100)) 5"

definition sample_slots :: slots where
  "sample_slots =
     [(0, Some \<lparr>node_order = sample_ask ''a'', prev_key = None, next_key = Some (2, 0)\<rparr>),
      (0, Some \<lparr>node_order = sample_ask ''x'', prev_key = None, next_key = None\<rparr>),
      (0, Some \<lparr>node_order = sample_ask ''b'', prev_key = Some (0, 0), next_key = None\<rparr>)]"

definition sample_queue :: "slot_key level_queue" where
  "sample_queue = \<lparr>q_head = Some (0, 0), q_tail = Some (2, 0), q_len = 2\<rparr>"

theorem queue_refines_list_witness:
  "queue_iter slot_arena sample_queue sample_slots = Some [sample_ask ''a'', sample_ask ''b''] \<and>
   (\<exists>q' m'. remove_client slot_arena sample_queue sample_slots (ClientId ''m'') =
      Some ([sample_ask ''a'', sample_ask ''b''], q', m') \<and> queue_iter slot_arena q' m' = Some [] \<and>
      arena_get slot_arena m' (1, 0) = arena_get slot_arena sample_slots (1, 0)) \<and>
   (\<exists>k q' m'. push_back slot_arena queue_default sample_slots (sample_ask ''c'') = Some (k, q', m') \<and>
      queue_iter slot_arena q' m' = Some [sample_ask ''c''])"
proof -
  have get: "slot_get sample_slots =
      Map.empty((0, 0) \<mapsto> \<lparr>node_order = sample_ask ''a'', prev_key = None, next_key = Some (2, 0)\<rparr>,
        (1, 0) \<mapsto> \<lparr>node_order = sample_ask ''x'', prev_key = None, next_key = None\<rparr>,
        (2, 0) \<mapsto> \<lparr>node_order = sample_ask ''b'', prev_key = Some (0, 0), next_key = None\<rparr>)"
    by (auto simp: fun_eq_iff slot_get_def nth_opt_def sample_slots_def nth_Cons split: nat.splits)
  have ok: "queue_ok (arena_get slot_arena sample_slots) sample_queue [(0, 0), (2, 0)]"
    by (simp add: queue_ok_def slot_arena_def get sample_queue_def)
  have room: "card (dom (arena_get slot_arena sample_slots)) < 2 ^ 32 - 2"
    by (simp add: slot_arena_def get)
  have orders: "order_at (arena_get slot_arena sample_slots) (0, 0) = Some (sample_ask ''a'')"
      "order_at (arena_get slot_arena sample_slots) (2, 0) = Some (sample_ask ''b'')"
    by (simp_all add: slot_arena_def get order_at_def)
  have client: "client (sample_ask i) = ClientId ''m''" for i
    by (simp add: sample_ask_def sample_order_def)
  note queue = queue_refines_list [OF slot_arena_laws ok, of undefined "ClientId ''m''"]
  have content: "orders_at (arena_get slot_arena sample_slots) [(0, 0), (2, 0)] = [sample_ask ''a'', sample_ask ''b'']"
    by (simp add: orders)
  have "queue_iter slot_arena sample_queue sample_slots = Some [sample_ask ''a'', sample_ask ''b'']"
    using queue [THEN conjunct2, THEN conjunct1] unfolding content .
  moreover have "\<exists>q' m'. remove_client slot_arena sample_queue sample_slots (ClientId ''m'') =
      Some ([sample_ask ''a'', sample_ask ''b''], q', m') \<and> queue_iter slot_arena q' m' = Some [] \<and>
      arena_get slot_arena m' (1, 0) = arena_get slot_arena sample_slots (1, 0)"
    using queue [THEN conjunct2, THEN conjunct2, THEN conjunct2, THEN conjunct2, THEN conjunct2]
    unfolding content by (auto simp: client)
  moreover have "\<exists>k q' m'. push_back slot_arena queue_default sample_slots (sample_ask ''c'') = Some (k, q', m') \<and>
      queue_iter slot_arena q' m' = Some [sample_ask ''c'']"
    using queue_refines_list [OF slot_arena_laws queue_ok_default, of sample_slots "sample_ask ''c''" undefined] room by auto
  ultimately show ?thesis by blast
qed

end
