(* ===== verification/Storage.thy ===== *)
theory Storage
  imports Order_Queue Std_Collections Instrument_Facts
begin

text \<open>
  \<^verbatim>\<open>src/src/storage.rs\<close>, the interface: a price level's metadata, the errors of a store, and the
  trait \<open>OrderBookStore\<close> as a record of its methods. The contract between a store and the engine
  is the locale \<open>order_book_store\<close>; the three stores of the crate are its interpretations, in
  \<open>BTree_Store\<close>, \<open>HashMap_Store\<close> and \<open>Tick_Ladder_Store\<close>.
\<close>

datatype store_error = UnboundedPriceRange | PriceRangeTooLarge | PriceOutsideRange

record 'k book_level =
  bl_price :: price
  bl_side :: side
  bl_queue :: "'k level_queue"

definition book_level_new :: "price \<Rightarrow> side \<Rightarrow> 'k book_level" where
  "book_level_new p s = \<lparr>bl_price = p, bl_side = s, bl_queue = queue_default\<rparr>"

definition book_level_is_empty :: "'k book_level \<Rightarrow> bool" where
  "book_level_is_empty l \<longleftrightarrow> queue_is_empty (bl_queue l)"

definition book_level_count :: "'k book_level \<Rightarrow> usize" where
  "book_level_count l = q_len (bl_queue l)"

text \<open>
  The methods of the trait. The outer option of a result is a panic (an index out of range), the
  inner one Rust's own; a mutable borrow of a level is a \<open>borrow\<close>.
\<close>

record ('s, 'k) store_ops =
  new_store :: "instrument_spec \<Rightarrow> store_error + 's"
  ensure_level :: "'s \<Rightarrow> side \<Rightarrow> price \<Rightarrow> (store_error + ('k book_level, 's) borrow) option"
  level_mut :: "'s \<Rightarrow> side \<Rightarrow> price \<Rightarrow> ('k book_level, 's) borrow option option"
  get_level :: "'s \<Rightarrow> side \<Rightarrow> price \<Rightarrow> 'k book_level option option"
  best_level :: "'s \<Rightarrow> side \<Rightarrow> 'k book_level option option"
  best_level_mut :: "'s \<Rightarrow> side \<Rightarrow> ('k book_level, 's) borrow option option"
  remove_level :: "'s \<Rightarrow> side \<Rightarrow> price \<Rightarrow> ('k book_level option \<times> 's) option"
  levels_of :: "'s \<Rightarrow> side \<Rightarrow> 'k book_level list"

definition best_price :: "('s, 'k) store_ops \<Rightarrow> 's \<Rightarrow> side \<Rightarrow> price option option" where
  "best_price S s sd = map_option (map_option bl_price) (best_level S s sd)"

text \<open>A value of an association list whose key it determines.\<close>

lemma snd_image_iff: "(\<And>k. (k, v) \<in> set m \<Longrightarrow> k = k0) \<Longrightarrow> v \<in> snd ` set m \<longleftrightarrow> (k0, v) \<in> set m"
  by force

section \<open>The contract\<close>

text \<open>The levels of a store as a map, and the order of a side: best price first.\<close>

definition lookup_level :: "('s, 'k) store_ops \<Rightarrow> 's \<Rightarrow> side \<Rightarrow> price \<Rightarrow> 'k book_level option" where
  "lookup_level S s sd p = Option.bind (get_level S s sd p) (\<lambda>l. l)"

definition better :: "side \<Rightarrow> price \<Rightarrow> price \<Rightarrow> bool" where
  "better sd p q \<longleftrightarrow> (case sd of Ask \<Rightarrow> p < q | Bid \<Rightarrow> q < p)"

lemma better_simps [simp]: "better Ask p q \<longleftrightarrow> p < q" "better Bid p q \<longleftrightarrow> q < p"
  by (simp_all add: better_def)

lemma better_asym: "better sd p q \<Longrightarrow> \<not> better sd q p"
  by (cases sd) auto

lemma better_trans: "better sd p q \<Longrightarrow> better sd q r \<Longrightarrow> better sd p r"
  by (cases sd) auto

lemma better_linear: "p \<noteq> q \<Longrightarrow> better sd p q \<or> better sd q p"
  by (cases sd) auto

definition set_level ::
    "(side \<Rightarrow> price \<Rightarrow> 'k book_level option) \<Rightarrow> side \<Rightarrow> price \<Rightarrow> 'k book_level option \<Rightarrow>
       side \<Rightarrow> price \<Rightarrow> 'k book_level option" where
  "set_level f sd p l = f(sd := (f sd)(p := l))"

lemma set_level_same [simp]: "set_level f sd p l sd p = l"
  by (simp add: set_level_def)

lemma set_level_other: "sd' \<noteq> sd \<or> p' \<noteq> p \<Longrightarrow> set_level f sd p l sd' p' = f sd' p'"
  by (auto simp: set_level_def)

lemma set_level_set [simp]: "set_level (set_level f sd p l) sd p l' = set_level f sd p l'"
  by (simp add: set_level_def)

text \<open>
  What a borrow of the level at \<open>p\<close> must write back: whatever queue the engine left in it, at that
  level, and nothing else. The engine never changes the price or the side of a level.
\<close>

definition writes_level ::
    "('s, 'k) store_ops \<Rightarrow> ('s \<Rightarrow> bool) \<Rightarrow> ('s \<Rightarrow> price \<Rightarrow> bool) \<Rightarrow> 's \<Rightarrow> side \<Rightarrow> price \<Rightarrow>
       ('k book_level \<Rightarrow> 's) \<Rightarrow> bool" where
  "writes_level S ok covers s sd p put \<longleftrightarrow>
     (\<forall>l. bl_price l = p \<and> bl_side l = sd \<longrightarrow>
        ok (put l) \<and> lookup_level S (put l) = set_level (lookup_level S s) sd p (Some l) \<and>
        covers (put l) = covers s)"

lemma writes_levelD:
  assumes "writes_level S ok covers s sd p put" and "bl_price l = p" and "bl_side l = sd"
  shows "ok (put l)" and "lookup_level S (put l) = set_level (lookup_level S s) sd p (Some l)"
    and "covers (put l) = covers s"
  using assms by (auto simp: writes_level_def)

text \<open>
  \<open>ok\<close> is the store's own invariant, \<open>covers\<close> the prices it can hold. A store is the map of its
  levels: \<open>levels_of\<close> lists it best price first, the best level is the first of that list, and the
  other methods read, write and delete one entry.
\<close>

locale order_book_store =
  fixes S :: "('s, 'k) store_ops"
    and ok :: "'s \<Rightarrow> bool"
    and covers :: "'s \<Rightarrow> price \<Rightarrow> bool"
  assumes new_ok: "spec_ok spec \<Longrightarrow> new_store S spec = Inr s \<Longrightarrow> ok s"
    and new_empty: "spec_ok spec \<Longrightarrow> new_store S spec = Inr s \<Longrightarrow> lookup_level S s sd p = None"
    and new_covers: "spec_ok spec \<Longrightarrow> new_store S spec = Inr s \<Longrightarrow> admits_price spec p = Inr () \<Longrightarrow>
      is_multiple_of (minor p) (tick_size spec) \<Longrightarrow> covers s p"
    and get_total: "ok s \<Longrightarrow> get_level S s sd p = Some (lookup_level S s sd p)"
    and level_wf: "ok s \<Longrightarrow> lookup_level S s sd p = Some l \<Longrightarrow>
      bl_price l = p \<and> bl_side l = sd \<and> covers s p"
    and levels_sorted: "ok s \<Longrightarrow> sorted_wrt (better sd) (map bl_price (levels_of S s sd))"
    and levels_mem: "ok s \<Longrightarrow>
      l \<in> set (levels_of S s sd) \<longleftrightarrow> lookup_level S s sd (bl_price l) = Some l"
    and best_total: "ok s \<Longrightarrow>
      best_level S s sd = Some (case levels_of S s sd of [] \<Rightarrow> None | l # _ \<Rightarrow> Some l)"
    and best_mut_None: "ok s \<Longrightarrow> levels_of S s sd = [] \<Longrightarrow> best_level_mut S s sd = Some None"
    and best_mut_Some: "ok s \<Longrightarrow> levels_of S s sd = l # ls \<Longrightarrow>
      \<exists>put. best_level_mut S s sd = Some (Some (l, put)) \<and>
        writes_level S ok covers s sd (bl_price l) put"
    and level_mut_None: "ok s \<Longrightarrow> lookup_level S s sd p = None \<Longrightarrow> level_mut S s sd p = Some None"
    and level_mut_Some: "ok s \<Longrightarrow> lookup_level S s sd p = Some l \<Longrightarrow>
      \<exists>put. level_mut S s sd p = Some (Some (l, put)) \<and> writes_level S ok covers s sd p put"
    and ensure_refuses: "ok s \<Longrightarrow> \<not> covers s p \<Longrightarrow> \<exists>e. ensure_level S s sd p = Some (Inl e)"
    and ensure_lends: "ok s \<Longrightarrow> covers s p \<Longrightarrow>
      \<exists>put. ensure_level S s sd p =
          Some (Inr (case lookup_level S s sd p of None \<Rightarrow> book_level_new p sd | Some l \<Rightarrow> l, put)) \<and>
        writes_level S ok covers s sd p put"
    and remove_total: "ok s \<Longrightarrow>
      \<exists>s'. remove_level S s sd p = Some (lookup_level S s sd p, s') \<and> ok s' \<and>
        lookup_level S s' = set_level (lookup_level S s) sd p None \<and> covers s' = covers s"
begin

lemma levels_bl_side: "ok s \<Longrightarrow> l \<in> set (levels_of S s sd) \<Longrightarrow> bl_side l = sd"
  using level_wf levels_mem by blast

lemma levels_distinct: "ok s \<Longrightarrow> distinct (map bl_price (levels_of S s sd))"
  using better_asym by (blast intro: sorted_wrt_distinct levels_sorted)

text \<open>The listing is determined by the map, so a write or a removal acts on the list as expected.\<close>

lemma levels_unique:
  assumes "ok s" and "sorted_wrt (better sd) (map bl_price ls)"
    and "\<And>l. l \<in> set ls \<longleftrightarrow> lookup_level S s sd (bl_price l) = Some l"
  shows "levels_of S s sd = ls"
  using sorted_wrt_unique [of "\<lambda>x y. better sd (bl_price x) (bl_price y)" "levels_of S s sd" ls]
    levels_sorted [OF assms(1), of sd] levels_mem [OF assms(1)] assms(2,3) better_asym
  by (auto simp: sorted_wrt_map)

lemma levels_empty_iff: "ok s \<Longrightarrow> levels_of S s sd = [] \<longleftrightarrow> (\<forall>p. lookup_level S s sd p = None)"
  using levels_mem [of s _ sd] level_wf [of s sd]
  by (metis list.set_intros(1) neq_Nil_conv not_Some_eq empty_iff empty_set)

lemma levels_other_side:
  assumes "ok s" and "ok s'" and "lookup_level S s' sd = lookup_level S s sd"
  shows "levels_of S s' sd = levels_of S s sd"
  using assms levels_sorted levels_mem by (intro levels_unique) auto

lemma levels_write_first:
  assumes "ok s" and "levels_of S s sd = l # ls" and "ok s'"
    and "lookup_level S s' = set_level (lookup_level S s) sd (bl_price l) (Some l')"
    and "bl_price l' = bl_price l"
  shows "levels_of S s' sd = l' # ls"
proof (rule levels_unique [OF assms(3)])
  show "sorted_wrt (better sd) (map bl_price (l' # ls))"
    using levels_sorted [OF assms(1), of sd] assms(2,5) by simp
  fix x
  have "x \<in> set ls \<longleftrightarrow> bl_price x \<noteq> bl_price l \<and> lookup_level S s sd (bl_price x) = Some x"
    using levels_mem [OF assms(1), of x sd] levels_distinct [OF assms(1), of sd] assms(2)
      levels_mem [OF assms(1), of l sd] by auto
  then show "x \<in> set (l' # ls) \<longleftrightarrow> lookup_level S s' sd (bl_price x) = Some x"
    using assms(4,5) by (auto simp: set_level_def)
qed

lemma levels_remove_first:
  assumes "ok s" and "levels_of S s sd = l # ls" and "ok s'"
    and "lookup_level S s' = set_level (lookup_level S s) sd (bl_price l) None"
  shows "levels_of S s' sd = ls"
proof (rule levels_unique [OF assms(3)])
  show "sorted_wrt (better sd) (map bl_price ls)"
    using levels_sorted [OF assms(1), of sd] assms(2) by simp
  fix x
  have "x \<in> set ls \<longleftrightarrow> bl_price x \<noteq> bl_price l \<and> lookup_level S s sd (bl_price x) = Some x"
    using levels_mem [OF assms(1), of x sd] levels_distinct [OF assms(1), of sd] assms(2)
      levels_mem [OF assms(1), of l sd] by auto
  then show "x \<in> set ls \<longleftrightarrow> lookup_level S s' sd (bl_price x) = Some x"
    using assms(4) by (auto simp: set_level_def)
qed

lemma first_level_best:
  assumes "ok s" and "levels_of S s sd = l # ls" and "lookup_level S s sd p = Some l'"
  shows "p = bl_price l \<or> better sd (bl_price l) p"
proof -
  have "bl_price l' = p" using level_wf [OF assms(1,3)] by simp
  with levels_mem [OF assms(1), of l' sd] assms(2,3) have "l' \<in> set (l # ls)" by auto
  with levels_sorted [OF assms(1), of sd] assms(2) \<open>bl_price l' = p\<close> show ?thesis by auto
qed

end

end
