(* ===== verification/BTree_Store.thy ===== *)
theory BTree_Store
  imports Storage
begin

text \<open>
  \<open>BTreeStore\<close> of \<^verbatim>\<open>src/src/storage.rs\<close>: one ordered map per side, the bids keyed by the
  reversed price, so that the first entry of either map is the best level.
\<close>

record 'k btree_store =
  bt_bids :: "(price reverse, 'k book_level) btree_map"
  bt_asks :: "(price, 'k book_level) btree_map"

definition btree_try_new :: "instrument_spec \<Rightarrow> store_error + 'k btree_store" where
  "btree_try_new spec = Inr \<lparr>bt_bids = [], bt_asks = []\<rparr>"

definition btree_ensure_level ::
    "'k btree_store \<Rightarrow> side \<Rightarrow> price \<Rightarrow> (store_error + ('k book_level, 'k btree_store) borrow) option" where
  "btree_ensure_level s sd p =
     Some (Inr (case sd of
         Bid \<Rightarrow> let (l, put) = bt_entry_or (bt_bids s) (Reverse p) (book_level_new p sd)
                in (l, \<lambda>l'. s\<lparr>bt_bids := put l'\<rparr>)
       | Ask \<Rightarrow> let (l, put) = bt_entry_or (bt_asks s) p (book_level_new p sd)
                in (l, \<lambda>l'. s\<lparr>bt_asks := put l'\<rparr>)))"

definition btree_level_mut ::
    "'k btree_store \<Rightarrow> side \<Rightarrow> price \<Rightarrow> ('k book_level, 'k btree_store) borrow option option" where
  "btree_level_mut s sd p =
     Some (case sd of
         Bid \<Rightarrow> map_option (\<lambda>(l, put). (l, \<lambda>l'. s\<lparr>bt_bids := put l'\<rparr>)) (bt_get_mut (bt_bids s) (Reverse p))
       | Ask \<Rightarrow> map_option (\<lambda>(l, put). (l, \<lambda>l'. s\<lparr>bt_asks := put l'\<rparr>)) (bt_get_mut (bt_asks s) p))"

definition btree_level :: "'k btree_store \<Rightarrow> side \<Rightarrow> price \<Rightarrow> 'k book_level option option" where
  "btree_level s sd p =
     Some (case sd of Bid \<Rightarrow> bt_get (bt_bids s) (Reverse p) | Ask \<Rightarrow> bt_get (bt_asks s) p)"

definition btree_best_level :: "'k btree_store \<Rightarrow> side \<Rightarrow> 'k book_level option option" where
  "btree_best_level s sd =
     Some (case sd of
         Bid \<Rightarrow> map_option snd (bt_first (bt_bids s))
       | Ask \<Rightarrow> map_option snd (bt_first (bt_asks s)))"

definition btree_best_level_mut ::
    "'k btree_store \<Rightarrow> side \<Rightarrow> ('k book_level, 'k btree_store) borrow option option" where
  "btree_best_level_mut s sd =
     Some (case sd of
         Bid \<Rightarrow> map_option (\<lambda>(k, l). (l, \<lambda>l'. s\<lparr>bt_bids := bt_put k l' (bt_bids s)\<rparr>)) (bt_first (bt_bids s))
       | Ask \<Rightarrow> map_option (\<lambda>(k, l). (l, \<lambda>l'. s\<lparr>bt_asks := bt_put k l' (bt_asks s)\<rparr>)) (bt_first (bt_asks s)))"

definition btree_remove_level ::
    "'k btree_store \<Rightarrow> side \<Rightarrow> price \<Rightarrow> ('k book_level option \<times> 'k btree_store) option" where
  "btree_remove_level s sd p =
     Some (case sd of
         Bid \<Rightarrow> (bt_get (bt_bids s) (Reverse p), s\<lparr>bt_bids := bt_remove (Reverse p) (bt_bids s)\<rparr>)
       | Ask \<Rightarrow> (bt_get (bt_asks s) p, s\<lparr>bt_asks := bt_remove p (bt_asks s)\<rparr>))"

definition btree_levels :: "'k btree_store \<Rightarrow> side \<Rightarrow> 'k book_level list" where
  "btree_levels s sd = (case sd of Bid \<Rightarrow> bt_values (bt_bids s) | Ask \<Rightarrow> bt_values (bt_asks s))"

definition btree_store :: "('k btree_store, 'k) store_ops" where
  "btree_store =
     \<lparr>new_store = btree_try_new, ensure_level = btree_ensure_level, level_mut = btree_level_mut,
      get_level = btree_level, best_level = btree_best_level, best_level_mut = btree_best_level_mut,
      remove_level = btree_remove_level, levels_of = btree_levels\<rparr>"

lemma btree_store_simps [simp]:
  "new_store btree_store = btree_try_new" "ensure_level btree_store = btree_ensure_level"
  "level_mut btree_store = btree_level_mut" "get_level btree_store = btree_level"
  "best_level btree_store = btree_best_level" "best_level_mut btree_store = btree_best_level_mut"
  "remove_level btree_store = btree_remove_level" "levels_of btree_store = btree_levels"
  by (simp_all add: btree_store_def)

section \<open>The invariant and the contract\<close>

definition btree_ok :: "'k btree_store \<Rightarrow> bool" where
  "btree_ok s \<longleftrightarrow>
     bt_ok (bt_bids s) \<and> bt_ok (bt_asks s) \<and>
     (\<forall>p l. bt_get (bt_bids s) (Reverse p) = Some l \<longrightarrow> bl_price l = p \<and> bl_side l = Bid) \<and>
     (\<forall>p l. bt_get (bt_asks s) p = Some l \<longrightarrow> bl_price l = p \<and> bl_side l = Ask)"

lemma btree_lookup [simp]:
  "lookup_level btree_store s Bid p = bt_get (bt_bids s) (Reverse p)"
  "lookup_level btree_store s Ask p = bt_get (bt_asks s) p"
  by (simp_all add: lookup_level_def btree_store_def btree_level_def)

lemma btree_lookup_fun:
  "lookup_level btree_store s =
     (\<lambda>sd p. case sd of Bid \<Rightarrow> bt_get (bt_bids s) (Reverse p) | Ask \<Rightarrow> bt_get (bt_asks s) p)"
  by (auto simp: fun_eq_iff split: side.splits)

lemma btree_put:
  "btree_ok s \<Longrightarrow>
     writes_level btree_store btree_ok (\<lambda>_ _. True) s Bid p (\<lambda>l. s\<lparr>bt_bids := bt_put (Reverse p) l (bt_bids s)\<rparr>)"
  "btree_ok s \<Longrightarrow>
     writes_level btree_store btree_ok (\<lambda>_ _. True) s Ask p (\<lambda>l. s\<lparr>bt_asks := bt_put p l (bt_asks s)\<rparr>)"
  by (auto simp: writes_level_def btree_ok_def btree_lookup_fun set_level_def fun_eq_iff split: side.splits)

lemma btree_keys:
  assumes "btree_ok s"
  shows "(k, l) \<in> set (bt_bids s) \<Longrightarrow> k = Reverse (bl_price l)"
    and "(p, l) \<in> set (bt_asks s) \<Longrightarrow> p = bl_price l"
  using assms by (cases k; auto simp: btree_ok_def bt_get_eq_Some)+

lemma btree_bids_keys:
  assumes "btree_ok s"
  shows "map fst (bt_bids s) = map (Reverse \<circ> bl_price) (map snd (bt_bids s))"
    and "map fst (bt_asks s) = map bl_price (map snd (bt_asks s))"
  using btree_keys [OF assms] by auto

lemma btree_levels_mem:
  assumes "btree_ok s"
  shows "l \<in> set (levels_of btree_store s sd) \<longleftrightarrow> lookup_level btree_store s sd (bl_price l) = Some l"
proof (cases sd)
  case Bid
  have "l \<in> snd ` set (bt_bids s) \<longleftrightarrow> (Reverse (bl_price l), l) \<in> set (bt_bids s)"
    by (rule snd_image_iff) (rule btree_keys(1) [OF assms])
  with Bid assms show ?thesis
    by (simp add: btree_levels_def bt_values_def bt_get_eq_Some btree_ok_def
        lookup_level_def btree_level_def)
next
  case Ask
  have "l \<in> snd ` set (bt_asks s) \<longleftrightarrow> (bl_price l, l) \<in> set (bt_asks s)"
    by (rule snd_image_iff) (rule btree_keys(2) [OF assms])
  with Ask assms show ?thesis
    by (simp add: btree_levels_def bt_values_def bt_get_eq_Some btree_ok_def
        lookup_level_def btree_level_def)
qed

interpretation btree: order_book_store btree_store btree_ok "\<lambda>_ _. True"
proof
  fix spec s sd p
  assume "new_store btree_store spec = Inr (s :: 'a btree_store)"
  then have s: "s = \<lparr>bt_bids = [], bt_asks = []\<rparr>" by (simp add: btree_try_new_def)
  then show "btree_ok s" by (simp add: btree_ok_def)
  show "lookup_level btree_store s sd p = None" using s by (cases sd) simp_all
next
  fix s :: "'a btree_store" and sd p
  assume ok: "btree_ok s"
  note keys = btree_keys [OF ok]
  show "get_level btree_store s sd p = Some (lookup_level btree_store s sd p)"
    by (simp add: lookup_level_def btree_store_def btree_level_def)
  show "bl_price l = p \<and> bl_side l = sd \<and> True" if "lookup_level btree_store s sd p = Some l" for l
    using ok that by (cases sd) (auto simp: btree_ok_def)
  show "sorted_wrt (better sd) (map bl_price (levels_of btree_store s sd))"
    using ok btree_bids_keys [OF ok]
    by (cases sd) (auto simp: btree_levels_def bt_values_def btree_ok_def bt_ok_def
        sorted_wrt_map comp_def)
  show "l \<in> set (levels_of btree_store s sd) \<longleftrightarrow> lookup_level btree_store s sd (bl_price l) = Some l" for l
    by (rule btree_levels_mem [OF ok])
  show "best_level btree_store s sd = Some (case levels_of btree_store s sd of [] \<Rightarrow> None | l # _ \<Rightarrow> Some l)"
    by (cases sd) (auto simp: btree_best_level_def btree_levels_def bt_values_def
        bt_first_def split: list.splits)
  show "best_level_mut btree_store s sd = Some None" if "levels_of btree_store s sd = []"
    using that by (cases sd) (auto simp: btree_best_level_mut_def btree_levels_def
        bt_values_def bt_first_def)
  show "\<exists>put. best_level_mut btree_store s sd = Some (Some (l, put)) \<and>
      writes_level btree_store btree_ok (\<lambda>_ _. True) s sd (bl_price l) put"
    if "levels_of btree_store s sd = l # ls" for l ls
  proof (cases sd)
    case Bid
    with that obtain k m where "bt_bids s = (k, l) # m"
      by (auto simp: btree_levels_def bt_values_def)
    with keys(1) [of k l] btree_put(1) [OF ok] Bid show ?thesis
      by (simp add: btree_best_level_mut_def bt_first_def del: bt_put.simps)
  next
    case Ask
    with that obtain k m where "bt_asks s = (k, l) # m"
      by (auto simp: btree_levels_def bt_values_def)
    with keys(2) [of k l] btree_put(2) [OF ok] Ask show ?thesis
      by (simp add: btree_best_level_mut_def bt_first_def del: bt_put.simps)
  qed
  show "level_mut btree_store s sd p = Some None" if "lookup_level btree_store s sd p = None"
    using that by (cases sd) (auto simp: btree_level_mut_def bt_get_mut_def)
  show "\<exists>put. level_mut btree_store s sd p = Some (Some (l, put)) \<and>
      writes_level btree_store btree_ok (\<lambda>_ _. True) s sd p put"
    if "lookup_level btree_store s sd p = Some l" for l
    using that btree_put [OF ok, of p]
    by (cases sd) (auto simp: btree_level_mut_def bt_get_mut_def)
  show "\<exists>put. ensure_level btree_store s sd p =
      Some (Inr (case lookup_level btree_store s sd p of None \<Rightarrow> book_level_new p sd | Some l \<Rightarrow> l, put)) \<and>
      writes_level btree_store btree_ok (\<lambda>_ _. True) s sd p put"
    using btree_put [OF ok, of p]
    by (cases sd) (auto simp: btree_ensure_level_def bt_entry_or_def)
  show "\<exists>s'. remove_level btree_store s sd p = Some (lookup_level btree_store s sd p, s') \<and> btree_ok s' \<and>
      lookup_level btree_store s' = set_level (lookup_level btree_store s) sd p None \<and>
      (\<lambda>_. True) = (\<lambda>_. True)"
    using ok
    by (cases sd) (auto simp: btree_remove_level_def btree_ok_def set_level_def
        btree_lookup_fun fun_eq_iff lookup_level_def btree_level_def
        split: side.splits)
qed simp_all

end
