(* ===== verification/HashMap_Store.thy ===== *)
theory HashMap_Store
  imports Storage
begin

text \<open>
  \<open>HashMapStore\<close> of \<^verbatim>\<open>src/src/storage.rs\<close>: a hash map per side, and a heap of its prices for the
  best level.
\<close>

record 'k hash_store =
  hs_bids :: "(price, 'k book_level) hash_map"
  hs_asks :: "(price, 'k book_level) hash_map"
  hs_bids_index :: "price binary_heap"
  hs_asks_index :: "price reverse binary_heap"

definition hash_try_new :: "instrument_spec \<Rightarrow> store_error + 'k hash_store" where
  "hash_try_new spec =
     Inr \<lparr>hs_bids = [], hs_asks = [], hs_bids_index = [], hs_asks_index = []\<rparr>"

definition hash_ensure_level ::
    "'k hash_store \<Rightarrow> side \<Rightarrow> price \<Rightarrow> (store_error + ('k book_level, 'k hash_store) borrow) option" where
  "hash_ensure_level s sd p =
     Some (Inr (case sd of
         Bid \<Rightarrow>
           (case hm_get (hs_bids s) p of
              Some l \<Rightarrow> (l, \<lambda>l'. s\<lparr>hs_bids := hm_insert p l' (hs_bids s)\<rparr>)
            | None \<Rightarrow> (book_level_new p sd,
                \<lambda>l'. s\<lparr>hs_bids_index := heap_push p (hs_bids_index s), hs_bids := hm_insert p l' (hs_bids s)\<rparr>))
       | Ask \<Rightarrow>
           (case hm_get (hs_asks s) p of
              Some l \<Rightarrow> (l, \<lambda>l'. s\<lparr>hs_asks := hm_insert p l' (hs_asks s)\<rparr>)
            | None \<Rightarrow> (book_level_new p sd,
                \<lambda>l'. s\<lparr>hs_asks_index := heap_push (Reverse p) (hs_asks_index s),
                  hs_asks := hm_insert p l' (hs_asks s)\<rparr>))))"

definition hash_level ::
    "'k hash_store \<Rightarrow> side \<Rightarrow> price \<Rightarrow> 'k book_level option option" where
  "hash_level s sd p =
     Some (case sd of Bid \<Rightarrow> hm_get (hs_bids s) p | Ask \<Rightarrow> hm_get (hs_asks s) p)"

definition hash_best_level :: "'k hash_store \<Rightarrow> side \<Rightarrow> 'k book_level option option" where
  "hash_best_level s sd =
     Some (case sd of
         Bid \<Rightarrow> Option.bind (heap_peek (hs_bids_index s)) (hm_get (hs_bids s))
       | Ask \<Rightarrow> Option.bind (heap_peek (hs_asks_index s)) (\<lambda>r. hm_get (hs_asks s) (unreverse r)))"

definition hash_level_mut ::
    "'k hash_store \<Rightarrow> side \<Rightarrow> price \<Rightarrow> ('k book_level, 'k hash_store) borrow option option" where
  "hash_level_mut s sd p =
     Some (case sd of
         Bid \<Rightarrow> map_option (\<lambda>(l, put). (l, \<lambda>l'. s\<lparr>hs_bids := put l'\<rparr>)) (hm_get_mut (hs_bids s) p)
       | Ask \<Rightarrow> map_option (\<lambda>(l, put). (l, \<lambda>l'. s\<lparr>hs_asks := put l'\<rparr>)) (hm_get_mut (hs_asks s) p))"

definition hash_best_level_mut ::
    "'k hash_store \<Rightarrow> side \<Rightarrow> ('k book_level, 'k hash_store) borrow option option" where
  "hash_best_level_mut s sd =
     Some (case sd of
         Bid \<Rightarrow>
           Option.bind (heap_peek (hs_bids_index s)) (\<lambda>p.
             map_option (\<lambda>(l, put). (l, \<lambda>l'. s\<lparr>hs_bids := put l'\<rparr>)) (hm_get_mut (hs_bids s) p))
       | Ask \<Rightarrow>
           Option.bind (heap_peek (hs_asks_index s)) (\<lambda>r.
             map_option (\<lambda>(l, put). (l, \<lambda>l'. s\<lparr>hs_asks := put l'\<rparr>)) (hm_get_mut (hs_asks s) (unreverse r))))"

definition hash_remove_level ::
    "'k hash_store \<Rightarrow> side \<Rightarrow> price \<Rightarrow> ('k book_level option \<times> 'k hash_store) option" where
  "hash_remove_level s sd p =
     Some (case sd of
         Bid \<Rightarrow> (hm_get (hs_bids s) p,
           s\<lparr>hs_bids_index := heap_retain (\<lambda>el. el \<noteq> p) (hs_bids_index s), hs_bids := hm_remove p (hs_bids s)\<rparr>)
       | Ask \<Rightarrow> (hm_get (hs_asks s) p,
           s\<lparr>hs_asks_index := heap_retain (\<lambda>el. unreverse el \<noteq> p) (hs_asks_index s),
             hs_asks := hm_remove p (hs_asks s)\<rparr>))"

definition hash_levels :: "'k hash_store \<Rightarrow> side \<Rightarrow> 'k book_level list" where
  "hash_levels s sd =
     (case sd of
        Bid \<Rightarrow> sort_key (\<lambda>l. Reverse (bl_price l)) (hm_values (hs_bids s))
      | Ask \<Rightarrow> sort_key bl_price (hm_values (hs_asks s)))"

definition hash_store :: "('k hash_store, 'k) store_ops" where
  "hash_store =
     \<lparr>new_store = hash_try_new, ensure_level = hash_ensure_level, level_mut = hash_level_mut,
      get_level = hash_level, best_level = hash_best_level, best_level_mut = hash_best_level_mut,
      remove_level = hash_remove_level, levels_of = hash_levels\<rparr>"

lemma hash_store_simps [simp]:
  "new_store hash_store = hash_try_new" "ensure_level hash_store = hash_ensure_level"
  "level_mut hash_store = hash_level_mut" "get_level hash_store = hash_level"
  "best_level hash_store = hash_best_level" "best_level_mut hash_store = hash_best_level_mut"
  "remove_level hash_store = hash_remove_level" "levels_of hash_store = hash_levels"
  by (simp_all add: hash_store_def)

section \<open>The invariant and the contract\<close>

text \<open>Each heap holds exactly the prices of its map.\<close>

definition hash_ok :: "'k hash_store \<Rightarrow> bool" where
  "hash_ok s \<longleftrightarrow>
     hm_ok (hs_bids s) \<and> hm_ok (hs_asks s) \<and>
     (\<forall>p. p \<in> set (hs_bids_index s) \<longleftrightarrow> hm_get (hs_bids s) p \<noteq> None) \<and>
     (\<forall>p. Reverse p \<in> set (hs_asks_index s) \<longleftrightarrow> hm_get (hs_asks s) p \<noteq> None) \<and>
     (\<forall>p l. hm_get (hs_bids s) p = Some l \<longrightarrow> bl_price l = p \<and> bl_side l = Bid) \<and>
     (\<forall>p l. hm_get (hs_asks s) p = Some l \<longrightarrow> bl_price l = p \<and> bl_side l = Ask)"

lemma hash_index:
  "hash_ok s \<Longrightarrow> p \<in> set (hs_bids_index s) \<longleftrightarrow> hm_get (hs_bids s) p \<noteq> None"
  "hash_ok s \<Longrightarrow> Reverse p \<in> set (hs_asks_index s) \<longleftrightarrow> hm_get (hs_asks s) p \<noteq> None"
  by (auto simp only: hash_ok_def)

lemma hash_lookup [simp]:
  "lookup_level hash_store s Bid p = hm_get (hs_bids s) p"
  "lookup_level hash_store s Ask p = hm_get (hs_asks s) p"
  by (simp_all add: lookup_level_def hash_level_def)

lemma hash_lookup_fun:
  "lookup_level hash_store s =
     (\<lambda>sd. case sd of Bid \<Rightarrow> hm_get (hs_bids s) | Ask \<Rightarrow> hm_get (hs_asks s))"
  by (auto simp: fun_eq_iff split: side.splits)

lemma hash_put:
  "hash_ok s \<Longrightarrow> hm_get (hs_bids s) p \<noteq> None \<Longrightarrow>
     writes_level hash_store hash_ok (\<lambda>_ _. True) s Bid p (\<lambda>l. s\<lparr>hs_bids := hm_insert p l (hs_bids s)\<rparr>)"
  "hash_ok s \<Longrightarrow> hm_get (hs_asks s) p \<noteq> None \<Longrightarrow>
     writes_level hash_store hash_ok (\<lambda>_ _. True) s Ask p (\<lambda>l. s\<lparr>hs_asks := hm_insert p l (hs_asks s)\<rparr>)"
  by (auto simp: writes_level_def hash_ok_def hash_lookup_fun set_level_def fun_eq_iff split: side.splits)

lemma hash_put_new:
  "hash_ok s \<Longrightarrow>
     writes_level hash_store hash_ok (\<lambda>_ _. True) s Bid p
       (\<lambda>l. s\<lparr>hs_bids_index := heap_push p (hs_bids_index s), hs_bids := hm_insert p l (hs_bids s)\<rparr>)"
  "hash_ok s \<Longrightarrow>
     writes_level hash_store hash_ok (\<lambda>_ _. True) s Ask p
       (\<lambda>l. s\<lparr>hs_asks_index := heap_push (Reverse p) (hs_asks_index s), hs_asks := hm_insert p l (hs_asks s)\<rparr>)"
  by (auto simp: writes_level_def hash_ok_def hash_lookup_fun set_level_def fun_eq_iff heap_push_def
      split: side.splits)

lemma hash_keys:
  assumes "hash_ok s"
  shows "(p, l) \<in> set (hs_bids s) \<Longrightarrow> p = bl_price l" and "(p, l) \<in> set (hs_asks s) \<Longrightarrow> p = bl_price l"
  using assms by (auto simp: hash_ok_def hm_get_eq_Some)

lemma hash_levels_mem:
  assumes "hash_ok s"
  shows "l \<in> set (levels_of hash_store s sd) \<longleftrightarrow> lookup_level hash_store s sd (bl_price l) = Some l"
proof (cases sd)
  case Bid
  have "l \<in> snd ` set (hs_bids s) \<longleftrightarrow> (bl_price l, l) \<in> set (hs_bids s)"
    by (rule snd_image_iff) (rule hash_keys(1) [OF assms])
  with Bid assms show ?thesis
    by (simp add: hash_levels_def hm_values_def hm_get_eq_Some hash_ok_def)
next
  case Ask
  have "l \<in> snd ` set (hs_asks s) \<longleftrightarrow> (bl_price l, l) \<in> set (hs_asks s)"
    by (rule snd_image_iff) (rule hash_keys(2) [OF assms])
  with Ask assms show ?thesis
    by (simp add: hash_levels_def hm_values_def hm_get_eq_Some hash_ok_def)
qed

lemma hash_levels_sorted:
  assumes "hash_ok s"
  shows "sorted_wrt (better sd) (map bl_price (levels_of hash_store s sd))"
proof -
  have "map fst (hs_bids s) = map bl_price (map snd (hs_bids s))"
    and "map fst (hs_asks s) = map bl_price (map snd (hs_asks s))"
    using hash_keys [OF assms] by auto
  with assms have dist: "distinct (map bl_price (hm_values (hs_bids s)))"
      "distinct (map bl_price (hm_values (hs_asks s)))"
    by (simp_all add: hash_ok_def hm_ok_def hm_values_def)
  have strict: "sorted_wrt (<) (map f (sort_key f xs))" if "distinct (map f xs)"
    for f :: "'b \<Rightarrow> 'c::linorder" and xs
    using that distinct_map [of f xs] distinct_map [of f "sort_key f xs"]
    by (simp add: strict_sorted_iff)
  show ?thesis
  proof (cases sd)
    case Bid
    have "distinct (map (\<lambda>l. Reverse (bl_price l)) (hm_values (hs_bids s)))"
      using dist(1) by (auto simp: distinct_map inj_on_def)
    from strict [OF this] Bid show ?thesis
      by (simp add: hash_levels_def sorted_wrt_map)
  next
    case Ask
    with strict [OF dist(2)] show ?thesis by (simp add: hash_levels_def sorted_wrt_map)
  qed
qed

text \<open>The top of a heap is the price of the first level listed.\<close>

lemma hash_peek:
  assumes "hash_ok s" and "levels_of hash_store s sd = l # ls"
  shows "case sd of
      Bid \<Rightarrow> heap_peek (hs_bids_index s) = Some (bl_price l) \<and> hm_get (hs_bids s) (bl_price l) = Some l
    | Ask \<Rightarrow> heap_peek (hs_asks_index s) = Some (Reverse (bl_price l)) \<and> hm_get (hs_asks s) (bl_price l) = Some l"
proof -
  have here: "lookup_level hash_store s sd (bl_price l) = Some l"
    using hash_levels_mem [OF assms(1), of l sd] assms(2) by simp
  have best: "bl_price x = bl_price l \<or> better sd (bl_price l) (bl_price x)"
    if "lookup_level hash_store s sd (bl_price x) = Some x" for x
    using hash_levels_sorted [OF assms(1), of sd] hash_levels_mem [OF assms(1), of x sd] that assms(2)
    by auto
  show ?thesis
  proof (cases sd)
    case Bid
    have "p \<le> bl_price l" if "p \<in> set (hs_bids_index s)" for p
    proof -
      from that assms(1) obtain x where "hm_get (hs_bids s) p = Some x" "bl_price x = p"
        by (auto simp: hash_ok_def)
      with best [of x] Bid show ?thesis by auto
    qed
    moreover have "bl_price l \<in> set (hs_bids_index s)"
      using here Bid by (simp add: hash_index [OF assms(1)])
    ultimately show ?thesis using here Bid by (simp add: heap_peek_eq_Some)
  next
    case Ask
    have "r \<le> Reverse (bl_price l)" if "r \<in> set (hs_asks_index s)" for r
    proof (cases r)
      case (Reverse p)
      with that assms(1) obtain x where "hm_get (hs_asks s) p = Some x" "bl_price x = p"
        by (auto simp: hash_ok_def)
      with best [of x] Ask Reverse show ?thesis by auto
    qed
    moreover have "Reverse (bl_price l) \<in> set (hs_asks_index s)"
      using here Ask by (simp add: hash_index [OF assms(1)])
    ultimately show ?thesis using here Ask by (simp add: heap_peek_eq_Some)
  qed
qed

lemma hash_peek_empty:
  assumes "hash_ok s" and "levels_of hash_store s sd = []"
  shows "case sd of Bid \<Rightarrow> hs_bids_index s = [] | Ask \<Rightarrow> hs_asks_index s = []"
proof -
  have none: "lookup_level hash_store s sd p = None" for p
  proof (rule ccontr)
    assume "lookup_level hash_store s sd p \<noteq> None"
    then obtain x where x: "lookup_level hash_store s sd p = Some x" by auto
    with assms(1) have "bl_price x = p" by (cases sd) (auto simp: hash_ok_def)
    with x hash_levels_mem [OF assms(1), of x sd] assms(2) show False by simp
  qed
  show ?thesis
  proof (cases sd)
    case Bid
    with none have "p \<notin> set (hs_bids_index s)" for p by (simp add: hash_index [OF assms(1)])
    then have "hs_bids_index s = []" by (metis list.set_intros(1) neq_Nil_conv)
    with Bid show ?thesis by simp
  next
    case Ask
    have "r \<notin> set (hs_asks_index s)" for r
      using none Ask by (cases r) (simp add: hash_index [OF assms(1)])
    then have "hs_asks_index s = []" by (metis list.set_intros(1) neq_Nil_conv)
    with Ask show ?thesis by simp
  qed
qed

interpretation hash: order_book_store hash_store hash_ok "\<lambda>_ _. True"
proof
  fix spec s sd p
  assume "new_store hash_store spec = Inr (s :: 'a hash_store)"
  then have s: "s = \<lparr>hs_bids = [], hs_asks = [], hs_bids_index = [], hs_asks_index = []\<rparr>"
    by (simp add: hash_try_new_def)
  then show "hash_ok s" by (simp add: hash_ok_def)
  show "lookup_level hash_store s sd p = None" using s by (cases sd) simp_all
next
  fix s :: "'a hash_store" and sd p
  assume ok: "hash_ok s"
  show "get_level hash_store s sd p = Some (lookup_level hash_store s sd p)"
    by (simp add: lookup_level_def hash_level_def)
  show "bl_price l = p \<and> bl_side l = sd \<and> True" if "lookup_level hash_store s sd p = Some l" for l
    using ok that by (cases sd) (auto simp: hash_ok_def)
  show "sorted_wrt (better sd) (map bl_price (levels_of hash_store s sd))"
    by (rule hash_levels_sorted [OF ok])
  show "l \<in> set (levels_of hash_store s sd) \<longleftrightarrow> lookup_level hash_store s sd (bl_price l) = Some l" for l
    by (rule hash_levels_mem [OF ok])
  show "best_level hash_store s sd = Some (case levels_of hash_store s sd of [] \<Rightarrow> None | l # _ \<Rightarrow> Some l)"
    using hash_peek [OF ok, of sd] hash_peek_empty [OF ok, of sd]
    by (cases "levels_of hash_store s sd") (auto simp: hash_best_level_def split: side.splits)
  show "best_level_mut hash_store s sd = Some None" if "levels_of hash_store s sd = []"
    using hash_peek_empty [OF ok that] by (auto simp: hash_best_level_mut_def split: side.splits)
  show "\<exists>put. best_level_mut hash_store s sd = Some (Some (l, put)) \<and>
      writes_level hash_store hash_ok (\<lambda>_ _. True) s sd (bl_price l) put"
    if "levels_of hash_store s sd = l # ls" for l ls
    using hash_peek [OF ok that] hash_put [OF ok, of "bl_price l"]
    by (cases sd) (auto simp: hash_best_level_mut_def hm_get_mut_def)
  show "level_mut hash_store s sd p = Some None" if "lookup_level hash_store s sd p = None"
    using that by (cases sd) (auto simp: hash_level_mut_def hm_get_mut_def)
  show "\<exists>put. level_mut hash_store s sd p = Some (Some (l, put)) \<and>
      writes_level hash_store hash_ok (\<lambda>_ _. True) s sd p put"
    if "lookup_level hash_store s sd p = Some l" for l
    using that hash_put [OF ok, of p]
    by (cases sd) (auto simp: hash_level_mut_def hm_get_mut_def)
  show "\<exists>put. ensure_level hash_store s sd p =
      Some (Inr (case lookup_level hash_store s sd p of None \<Rightarrow> book_level_new p sd | Some l \<Rightarrow> l, put)) \<and>
      writes_level hash_store hash_ok (\<lambda>_ _. True) s sd p put"
    using hash_put [OF ok, of p] hash_put_new [OF ok, of p]
    by (cases sd) (auto simp: hash_ensure_level_def split: option.splits)
  show "\<exists>s'. remove_level hash_store s sd p = Some (lookup_level hash_store s sd p, s') \<and> hash_ok s' \<and>
      lookup_level hash_store s' = set_level (lookup_level hash_store s) sd p None \<and>
      (\<lambda>_. True) = (\<lambda>_. True)"
    using ok
    by (cases sd) (auto simp: hash_remove_level_def hash_ok_def set_level_def heap_retain_def
        hash_lookup_fun fun_eq_iff split: side.splits)
qed simp_all

end
