(* ===== verification/Tick_Ladder_Store.thy ===== *)
theory Tick_Ladder_Store
  imports Storage
begin

text \<open>
  \<open>TickLadderStore\<close> of \<^verbatim>\<open>src/src/storage.rs\<close>: an array with one slot per legal price and side,
  the index of a price by arithmetic, and the index of the best level of each side cached.

  Array indices are naturals, below the length of an array Rust could allocate. Whether an
  allocation succeeds is the allocator's answer, a parameter of the constructor.
\<close>

record 'k tick_ladder =
  tl_bids :: "'k book_level option list"
  tl_asks :: "'k book_level option list"
  min_minor :: u64
  tl_tick :: u64
  tl_best_bid :: "nat option"
  tl_best_ask :: "nat option"

text \<open>A range of prices is a number of slots; \<open>usize\<close> has the 64 bits of \<open>u64\<close>.\<close>

definition ladder_try_new ::
    "(usize \<Rightarrow> bool) \<Rightarrow> (usize \<Rightarrow> bool) \<Rightarrow> instrument_spec \<Rightarrow> store_error + 'k tick_ladder" where
  "ladder_try_new reserve_bids reserve_asks spec =
     (case max_price spec of
        None \<Rightarrow> Inl UnboundedPriceRange
      | Some mx \<Rightarrow>
          (case do {
             span \<leftarrow> checked_sub (minor mx) (minor (min_price spec));
             steps \<leftarrow> checked_div span (tick_size spec);
             checked_add steps 1
           } of
             None \<Rightarrow> Inl PriceRangeTooLarge
           | Some slots \<Rightarrow>
               if \<not> reserve_bids slots then Inl PriceRangeTooLarge
               else if \<not> reserve_asks slots then Inl PriceRangeTooLarge
               else Inr \<lparr>tl_bids = replicate (unat slots) None, tl_asks = replicate (unat slots) None,
                 min_minor = minor (min_price spec), tl_tick = tick_size spec,
                 tl_best_bid = None, tl_best_ask = None\<rparr>))"

definition ladder_index :: "'k tick_ladder \<Rightarrow> price \<Rightarrow> nat option" where
  "ladder_index s p = do {
     offset \<leftarrow> checked_sub (minor p) (min_minor s);
     (if \<not> is_multiple_of offset (tl_tick s) then None
      else
        let i = unat (offset div tl_tick s)
        in if i < length (tl_bids s) then Some i else None)
   }"

definition repair_best_after_removal :: "'k tick_ladder \<Rightarrow> side \<Rightarrow> nat \<Rightarrow> 'k tick_ladder" where
  "repair_best_after_removal s sd removed =
     (case sd of
        Bid \<Rightarrow> s\<lparr>tl_best_bid := rposition is_some (take removed (tl_bids s))\<rparr>
      | Ask \<Rightarrow> s\<lparr>tl_best_ask :=
          map_option (\<lambda>offset. removed + 1 + offset)
            (position is_some (drop (removed + 1) (tl_asks s)))\<rparr>)"

definition slots_per_side :: "'k tick_ladder \<Rightarrow> nat" where
  "slots_per_side s = length (tl_bids s)"

definition ladder_slots :: "'k tick_ladder \<Rightarrow> side \<Rightarrow> 'k book_level option list" where
  "ladder_slots s sd = (case sd of Bid \<Rightarrow> tl_bids s | Ask \<Rightarrow> tl_asks s)"

definition ladder_set :: "'k tick_ladder \<Rightarrow> side \<Rightarrow> nat \<Rightarrow> 'k book_level option \<Rightarrow> 'k tick_ladder" where
  "ladder_set s sd i x =
     (case sd of Bid \<Rightarrow> s\<lparr>tl_bids := (tl_bids s)[i := x]\<rparr> | Ask \<Rightarrow> s\<lparr>tl_asks := (tl_asks s)[i := x]\<rparr>)"

definition ladder_best :: "'k tick_ladder \<Rightarrow> side \<Rightarrow> nat option" where
  "ladder_best s sd = (case sd of Bid \<Rightarrow> tl_best_bid s | Ask \<Rightarrow> tl_best_ask s)"

text \<open>The cached best index moves before the slot is filled.\<close>

definition ladder_ensure_level ::
    "'k tick_ladder \<Rightarrow> side \<Rightarrow> price \<Rightarrow> (store_error + ('k book_level, 'k tick_ladder) borrow) option" where
  "ladder_ensure_level s sd p =
     (case ladder_index s p of
        None \<Rightarrow> Some (Inl PriceOutsideRange)
      | Some i \<Rightarrow>
          let s = (case sd of
              Bid \<Rightarrow> if (case tl_best_bid s of None \<Rightarrow> True | Some best \<Rightarrow> best < i)
                     then s\<lparr>tl_best_bid := Some i\<rparr> else s
            | Ask \<Rightarrow> if (case tl_best_ask s of None \<Rightarrow> True | Some best \<Rightarrow> i < best)
                     then s\<lparr>tl_best_ask := Some i\<rparr> else s)
          in map_option
               (\<lambda>slot. Inr (case slot of None \<Rightarrow> book_level_new p sd | Some l \<Rightarrow> l, \<lambda>l'. ladder_set s sd i (Some l')))
               (nth_opt (ladder_slots s sd) i))"

definition ladder_level_mut ::
    "'k tick_ladder \<Rightarrow> side \<Rightarrow> price \<Rightarrow> ('k book_level, 'k tick_ladder) borrow option option" where
  "ladder_level_mut s sd p =
     (case ladder_index s p of
        None \<Rightarrow> Some None
      | Some i \<Rightarrow>
          map_option (map_option (\<lambda>l. (l, \<lambda>l'. ladder_set s sd i (Some l')))) (nth_opt (ladder_slots s sd) i))"

definition ladder_level :: "'k tick_ladder \<Rightarrow> side \<Rightarrow> price \<Rightarrow> 'k book_level option option" where
  "ladder_level s sd p =
     (case ladder_index s p of None \<Rightarrow> Some None | Some i \<Rightarrow> nth_opt (ladder_slots s sd) i)"

definition ladder_best_level :: "'k tick_ladder \<Rightarrow> side \<Rightarrow> 'k book_level option option" where
  "ladder_best_level s sd =
     (case ladder_best s sd of None \<Rightarrow> Some None | Some i \<Rightarrow> nth_opt (ladder_slots s sd) i)"

definition ladder_best_level_mut ::
    "'k tick_ladder \<Rightarrow> side \<Rightarrow> ('k book_level, 'k tick_ladder) borrow option option" where
  "ladder_best_level_mut s sd =
     (case ladder_best s sd of
        None \<Rightarrow> Some None
      | Some i \<Rightarrow>
          map_option (map_option (\<lambda>l. (l, \<lambda>l'. ladder_set s sd i (Some l')))) (nth_opt (ladder_slots s sd) i))"

definition ladder_remove_level ::
    "'k tick_ladder \<Rightarrow> side \<Rightarrow> price \<Rightarrow> ('k book_level option \<times> 'k tick_ladder) option" where
  "ladder_remove_level s sd p =
     (case ladder_index s p of
        None \<Rightarrow> Some (None, s)
      | Some i \<Rightarrow>
          map_option (\<lambda>removed.
            let s = ladder_set s sd i None;
                removed_touch = (ladder_best s sd = Some i)
            in (removed,
                if is_some removed \<and> removed_touch then repair_best_after_removal s sd i else s))
            (nth_opt (ladder_slots s sd) i))"

definition ladder_levels :: "'k tick_ladder \<Rightarrow> side \<Rightarrow> 'k book_level list" where
  "ladder_levels s sd = (case sd of Bid \<Rightarrow> somes (rev (tl_bids s)) | Ask \<Rightarrow> somes (tl_asks s))"

definition ladder_store :: "(usize \<Rightarrow> bool) \<Rightarrow> (usize \<Rightarrow> bool) \<Rightarrow> ('k tick_ladder, 'k) store_ops" where
  "ladder_store reserve_bids reserve_asks =
     \<lparr>new_store = ladder_try_new reserve_bids reserve_asks, ensure_level = ladder_ensure_level,
      level_mut = ladder_level_mut, get_level = ladder_level, best_level = ladder_best_level,
      best_level_mut = ladder_best_level_mut, remove_level = ladder_remove_level,
      levels_of = ladder_levels\<rparr>"

lemma ladder_store_simps [simp]:
  "new_store (ladder_store rb ra) = ladder_try_new rb ra"
  "ensure_level (ladder_store rb ra) = ladder_ensure_level"
  "level_mut (ladder_store rb ra) = ladder_level_mut" "get_level (ladder_store rb ra) = ladder_level"
  "best_level (ladder_store rb ra) = ladder_best_level"
  "best_level_mut (ladder_store rb ra) = ladder_best_level_mut"
  "remove_level (ladder_store rb ra) = ladder_remove_level"
  "levels_of (ladder_store rb ra) = ladder_levels"
  by (simp_all add: ladder_store_def)

section \<open>The invariant\<close>

definition ladder_price :: "'k tick_ladder \<Rightarrow> nat \<Rightarrow> price" where
  "ladder_price s i = Price (min_minor s + word_of_nat i * tl_tick s)"

text \<open>
  Every slot has a price the type can hold, an occupied slot holds the level of its price, and the
  cached indices point at the best occupied slots; so they are in range and indexing never panics.
\<close>

definition ladder_ok :: "'k tick_ladder \<Rightarrow> bool" where
  "ladder_ok s \<longleftrightarrow>
     length (tl_asks s) = length (tl_bids s) \<and> tl_tick s \<noteq> 0 \<and>
     (\<forall>i<length (tl_bids s). unat (min_minor s) + i * unat (tl_tick s) < 2 ^ 64) \<and>
     (\<forall>sd. \<forall>i<length (tl_bids s). \<forall>l. ladder_slots s sd ! i = Some l \<longrightarrow>
        bl_price l = ladder_price s i \<and> bl_side l = sd) \<and>
     tl_best_bid s = rposition is_some (tl_bids s) \<and>
     tl_best_ask s = position is_some (tl_asks s)"

lemma ladder_slots_simps [simp]:
  "ladder_slots s Bid = tl_bids s" "ladder_slots s Ask = tl_asks s"
  by (simp_all add: ladder_slots_def)

lemma length_ladder_slots: "ladder_ok s \<Longrightarrow> length (ladder_slots s sd) = length (tl_bids s)"
  by (cases sd) (simp_all add: ladder_ok_def)

lemma unat_ladder_price:
  assumes "ladder_ok s" and "i < length (tl_bids s)"
  shows "unat (minor (ladder_price s i)) = unat (min_minor s) + i * unat (tl_tick s)"
proof -
  have bound: "unat (min_minor s) + i * unat (tl_tick s) < 2 ^ 64"
    using assms by (simp add: ladder_ok_def)
  have "0 < unat (tl_tick s)" using assms by (simp add: ladder_ok_def unat_gt_0)
  then have "i \<le> i * unat (tl_tick s)" by simp
  with bound have "i < 2 ^ 64" by linarith
  then have "unat (word_of_nat i :: u64) = i" by (simp add: unat_of_nat)
  with bound show ?thesis
    by (simp add: ladder_price_def unat_add_exact unat_mult_exact)
qed

lemma ladder_price_mono:
  assumes "ladder_ok s" and "i < j" and "j < length (tl_bids s)"
  shows "ladder_price s i < ladder_price s j"
  using assms unat_ladder_price [OF assms(1), of i] unat_ladder_price [OF assms(1), of j]
  by (simp add: less_price_def word_less_nat_alt ladder_ok_def unat_gt_0)

text \<open>The arithmetic of \<open>index\<close> inverts the price of a slot.\<close>

lemma ladder_index_iff:
  assumes "ladder_ok s"
  shows "ladder_index s p = Some i \<longleftrightarrow> i < length (tl_bids s) \<and> p = ladder_price s i"
proof
  assume "ladder_index s p = Some i"
  then obtain off where off: "checked_sub (minor p) (min_minor s) = Some off"
    "is_multiple_of off (tl_tick s)" "i = unat (off div tl_tick s)" "i < length (tl_bids s)"
    by (auto simp: ladder_index_def Let_def bind_eq_Some_conv split: if_splits)
  from checked_sub_unat [OF off(1)] have "unat (minor p) = unat (min_minor s) + unat off" by simp
  also have "unat off = i * unat (tl_tick s)"
    using off(2,3) by (simp add: is_multiple_of_unat unat_div)
  finally have "unat (minor p) = unat (minor (ladder_price s i))"
    using unat_ladder_price [OF assms off(4)] by simp
  then show "i < length (tl_bids s) \<and> p = ladder_price s i"
    using off(4) by (metis price.expand word_unat_eq_iff)
next
  assume i: "i < length (tl_bids s) \<and> p = ladder_price s i"
  let ?off = "minor p - min_minor s"
  have p: "unat (minor p) = unat (min_minor s) + i * unat (tl_tick s)"
    using unat_ladder_price [OF assms] i by simp
  then have off: "unat ?off = i * unat (tl_tick s)" by (simp add: unat_sub_exact)
  have "tl_tick s \<noteq> 0" using assms by (simp add: ladder_ok_def)
  then have "unat (?off div tl_tick s) = i" by (simp add: unat_div off unat_gt_0)
  moreover have "checked_sub (minor p) (min_minor s) = Some ?off"
    using p by (simp add: checked_sub_def word_le_nat_alt)
  ultimately show "ladder_index s p = Some i"
    using i off by (simp add: ladder_index_def is_multiple_of_unat)
qed

lemma ladder_index_eq_None:
  assumes "ladder_ok s"
  shows "ladder_index s p = None \<longleftrightarrow> (\<forall>i<length (tl_bids s). p \<noteq> ladder_price s i)"
  using ladder_index_iff [OF assms] by (metis not_Some_eq)

lemma ladder_nth:
  assumes "ladder_ok s" and "ladder_index s p = Some i"
  shows "nth_opt (ladder_slots s sd) i = Some (ladder_slots s sd ! i)"
proof -
  from assms(2) have "i < length (ladder_slots s sd)"
    by (simp add: ladder_index_iff [OF assms(1)] length_ladder_slots [OF assms(1)])
  then show ?thesis by (simp add: nth_opt_def)
qed

lemma ladder_lookup:
  assumes "ladder_ok s"
  shows "lookup_level (ladder_store rb ra) s sd p =
    (case ladder_index s p of None \<Rightarrow> None | Some i \<Rightarrow> ladder_slots s sd ! i)"
proof (cases "ladder_index s p")
  case (Some i)
  with ladder_index_iff [OF assms] have "i < length (ladder_slots s sd)"
    by (simp add: length_ladder_slots [OF assms])
  with Some show ?thesis by (simp add: lookup_level_def ladder_level_def nth_opt_def)
qed (simp add: lookup_level_def ladder_level_def)

lemma ladder_entry:
  "ladder_ok s \<Longrightarrow> i < length (tl_bids s) \<Longrightarrow> ladder_slots s sd ! i = Some l \<Longrightarrow>
     bl_price l = ladder_price s i \<and> bl_side l = sd"
  by (simp add: ladder_ok_def)

definition ladder_covers :: "'k tick_ladder \<Rightarrow> price \<Rightarrow> bool" where
  "ladder_covers s p \<longleftrightarrow> ladder_index s p \<noteq> None"

section \<open>Writing and clearing a slot\<close>

lemma ladder_set_simps [simp]:
  "ladder_slots (ladder_set s sd i x) sd' = (if sd' = sd then (ladder_slots s sd)[i := x] else ladder_slots s sd')"
  "length (tl_bids (ladder_set s sd i x)) = length (tl_bids s)"
  "length (tl_asks (ladder_set s sd i x)) = length (tl_asks s)"
  "tl_tick (ladder_set s sd i x) = tl_tick s" "min_minor (ladder_set s sd i x) = min_minor s"
  by (cases sd; cases sd'; simp add: ladder_set_def)+

lemma ladder_shape_index:
  "length (tl_bids s') = length (tl_bids s) \<Longrightarrow> tl_tick s' = tl_tick s \<Longrightarrow> min_minor s' = min_minor s \<Longrightarrow>
     ladder_index s' = ladder_index s \<and> ladder_price s' = ladder_price s"
  by (simp add: ladder_index_def ladder_price_def fun_eq_iff Let_def cong: if_cong)

lemma ladder_set_lookup:
  assumes "ladder_ok s" and "ladder_ok s'" and "ladder_index s p = Some i"
    and "ladder_index s' = ladder_index s"
    and "\<And>sd'. ladder_slots s' sd' = (if sd' = sd then (ladder_slots s sd)[i := x] else ladder_slots s sd')"
  shows "lookup_level (ladder_store rb ra) s' = set_level (lookup_level (ladder_store rb ra) s) sd p x"
proof -
  have i: "i < length (ladder_slots s sd)"
    using ladder_index_iff [OF assms(1)] assms(3) length_ladder_slots [OF assms(1)] by auto
  have inj: "p' = p" if "ladder_index s p' = Some i" for p'
    using that assms(3) ladder_index_iff [OF assms(1)] by auto
  show ?thesis
    using i inj
    by (auto simp: fun_eq_iff set_level_def ladder_lookup [OF assms(1)] ladder_lookup [OF assms(2)]
        assms(3-5) nth_list_update split: option.splits)
qed

text \<open>The cached indices after a slot is filled.\<close>

definition ladder_filled_best :: "'k tick_ladder \<Rightarrow> side \<Rightarrow> nat \<Rightarrow> 'k tick_ladder" where
  "ladder_filled_best s sd i =
     (case sd of
        Bid \<Rightarrow> s\<lparr>tl_best_bid := Some (case tl_best_bid s of None \<Rightarrow> i | Some b \<Rightarrow> max i b)\<rparr>
      | Ask \<Rightarrow> s\<lparr>tl_best_ask := Some (case tl_best_ask s of None \<Rightarrow> i | Some b \<Rightarrow> min i b)\<rparr>)"

lemma ladder_filled_simps [simp]:
  "ladder_slots (ladder_filled_best s sd i) sd' = ladder_slots s sd'"
  "tl_bids (ladder_filled_best s sd i) = tl_bids s" "tl_asks (ladder_filled_best s sd i) = tl_asks s"
  "tl_tick (ladder_filled_best s sd i) = tl_tick s" "min_minor (ladder_filled_best s sd i) = min_minor s"
  by (cases sd; cases sd'; simp add: ladder_filled_best_def)+

lemma ladder_fill:
  assumes ok: "ladder_ok s" and i: "ladder_index s p = Some i"
  shows "writes_level (ladder_store rb ra) ladder_ok ladder_covers s sd p
    (\<lambda>l. ladder_set (ladder_filled_best s sd i) sd i (Some l))"
  unfolding writes_level_def
proof (intro allI impI)
  fix l :: "'a book_level"
  assume l: "bl_price l = p \<and> bl_side l = sd"
  let ?s = "ladder_set (ladder_filled_best s sd i) sd i (Some l)"
  have range: "i < length (tl_bids s)" and p: "p = ladder_price s i"
    using i ladder_index_iff [OF ok] by auto
  have shape: "ladder_index ?s = ladder_index s \<and> ladder_price ?s = ladder_price s"
    by (rule ladder_shape_index) simp_all
  have entries: "bl_price x = ladder_price s j \<and> bl_side x = sd'"
    if "j < length (tl_bids s)" and "ladder_slots ?s sd' ! j = Some x" for sd' j x
  proof (cases "sd' = sd \<and> j = i")
    case True
    with that l p show ?thesis using length_ladder_slots [OF ok, of sd] by simp
  next
    case False
    with that have "ladder_slots s sd' ! j = Some x" by (auto split: if_splits)
    with ladder_entry [OF ok that(1)] show ?thesis by blast
  qed
  have best: "tl_best_bid ?s = rposition is_some (tl_bids ?s) \<and> tl_best_ask ?s = position is_some (tl_asks ?s)"
    using ok range
    by (cases sd) (auto simp: ladder_ok_def ladder_filled_best_def ladder_set_def position_fill rposition_fill)
  have ok': "ladder_ok ?s"
    unfolding ladder_ok_def using ok entries best shape by (simp add: ladder_ok_def)
  moreover have "lookup_level (ladder_store rb ra) ?s =
      set_level (lookup_level (ladder_store rb ra) s) sd p (Some l)"
    using shape by (intro ladder_set_lookup [OF ok ok' i]) auto
  moreover have "ladder_covers ?s = ladder_covers s"
    using shape by (simp add: ladder_covers_def fun_eq_iff)
  ultimately show "ladder_ok ?s \<and> lookup_level (ladder_store rb ra) ?s =
      set_level (lookup_level (ladder_store rb ra) s) sd p (Some l) \<and> ladder_covers ?s = ladder_covers s"
    by blast
qed

lemma ladder_best_in_slots:
  assumes "ladder_ok s" and "ladder_best s sd = Some i"
  shows "i < length (ladder_slots s sd)" and "\<exists>l. ladder_slots s sd ! i = Some l"
  using assms
  by (cases sd; auto simp: ladder_best_def ladder_ok_def rposition_iff position_eq_Some is_some_iff)+

text \<open>Filling a slot that is occupied already leaves the cached indices.\<close>

lemma ladder_filled_same:
  assumes "ladder_ok s" and "i < length (tl_bids s)" and "ladder_slots s sd ! i = Some l"
  shows "ladder_filled_best s sd i = s"
proof (cases sd)
  case Bid
  then obtain b where "rposition is_some (tl_bids s) = Some b"
    using assms by (metis is_some_simps(1) ladder_slots_simps(1) not_None_eq nth_mem rposition_eq_None)
  moreover from this have "i \<le> b"
    using assms Bid by (auto simp: rposition_iff not_le [symmetric])
  ultimately show ?thesis using assms(1) Bid by (simp add: ladder_filled_best_def ladder_ok_def max_def)
next
  case Ask
  moreover have len: "i < length (tl_asks s)" using assms(1,2) by (simp add: ladder_ok_def)
  ultimately obtain b where "position is_some (tl_asks s) = Some b"
    using assms by (metis is_some_simps(1) ladder_slots_simps(2) not_None_eq nth_mem position_eq_None)
  moreover from this have "b \<le> i"
    using assms Ask by (auto simp: position_eq_Some not_le [symmetric])
  ultimately show ?thesis using assms(1) Ask by (simp add: ladder_filled_best_def ladder_ok_def min_def)
qed

lemma ladder_clear:
  fixes s :: "'k tick_ladder" and sd :: side
  assumes ok: "ladder_ok s" and i: "ladder_index s p = Some i"
  defines "s' \<equiv> (if is_some (ladder_slots s sd ! i) \<and> ladder_best s sd = Some i
      then repair_best_after_removal (ladder_set s sd i None) sd i else ladder_set s sd i None)"
  shows "ladder_ok s' \<and> lookup_level (ladder_store rb ra) s' =
      set_level (lookup_level (ladder_store rb ra) s) sd p None \<and> ladder_covers s' = ladder_covers s"
proof -
  have range: "i < length (tl_bids s)" "i < length (tl_asks s)"
    using i ok ladder_index_iff [OF ok] by (auto simp: ladder_ok_def)
  have slots: "ladder_slots s' sd' = (if sd' = sd then (ladder_slots s sd)[i := None] else ladder_slots s sd')" for sd'
    by (cases sd; cases sd'; simp add: s'_def repair_best_after_removal_def ladder_set_def)
  have len: "length (tl_bids s') = length (tl_bids s)" "length (tl_asks s') = length (tl_asks s)"
    "tl_tick s' = tl_tick s" "min_minor s' = min_minor s"
    by (cases sd; simp add: s'_def repair_best_after_removal_def ladder_set_def)+
  note shape = ladder_shape_index [OF len(1,3,4)]
  have entries: "bl_price x = ladder_price s j \<and> bl_side x = sd'"
    if "j < length (tl_bids s)" and "ladder_slots s' sd' ! j = Some x" for sd' j x
  proof -
    have "i < length (ladder_slots s sd)" using range length_ladder_slots [OF ok] by simp
    with that have "ladder_slots s sd' ! j = Some x"
      unfolding slots by (cases "j = i") (auto split: if_splits)
    with ladder_entry [OF ok that(1)] show ?thesis by blast
  qed
  have cache: "tl_best_bid s = rposition is_some (tl_bids s)" "tl_best_ask s = position is_some (tl_asks s)"
    using ok by (simp_all add: ladder_ok_def)
  have best: "tl_best_bid s' = rposition is_some (tl_bids s') \<and> tl_best_ask s' = position is_some (tl_asks s')"
  proof (cases "is_some (ladder_slots s sd ! i)")
    case True
    then show ?thesis
      using cache range
      by (cases sd) (simp_all add: s'_def repair_best_after_removal_def ladder_set_def ladder_best_def
          rposition_empty position_empty)
  next
    case False
    then have "(ladder_slots s sd)[i := None] = ladder_slots s sd"
      by (metis is_some_def list_update_id)
    with False cache show ?thesis by (cases sd) (simp_all add: s'_def ladder_set_def)
  qed
  have ok': "ladder_ok s'"
    unfolding ladder_ok_def using ok entries best shape len by (simp add: ladder_ok_def)
  moreover have "lookup_level (ladder_store rb ra) s' =
      set_level (lookup_level (ladder_store rb ra) s) sd p None"
    using shape slots by (intro ladder_set_lookup [OF ok ok' i]) auto
  moreover have "ladder_covers s' = ladder_covers s"
    using shape by (simp add: ladder_covers_def fun_eq_iff)
  ultimately show ?thesis by blast
qed

section \<open>Construction\<close>

lemma no_slot:
  "rposition is_some (replicate k None) = None" "position is_some (replicate k None) = None"
  by (simp_all add: rposition_eq_None position_eq_None)

lemma ladder_new:
  assumes spec: "spec_ok spec" and new: "ladder_try_new rb ra spec = Inr s"
  shows "ladder_ok s" and "lookup_level (ladder_store rb ra) s sd p = None"
    and "admits_price spec q = Inr () \<Longrightarrow> is_multiple_of (minor q) (tick_size spec) \<Longrightarrow> ladder_covers s q"
proof -
  from new obtain mx span steps slots where mx: "max_price spec = Some mx"
    and span: "checked_sub (minor mx) (minor (min_price spec)) = Some span"
    and steps: "checked_div span (tick_size spec) = Some steps" and slots: "checked_add steps 1 = Some slots"
    and s: "s = \<lparr>tl_bids = replicate (unat slots) None, tl_asks = replicate (unat slots) None,
       min_minor = minor (min_price spec), tl_tick = tick_size spec, tl_best_bid = None, tl_best_ask = None\<rparr>"
    by (auto simp: ladder_try_new_def bind_eq_Some_conv split: option.splits if_splits)
  let ?min = "unat (minor (min_price spec))" and ?tick = "unat (tick_size spec)"
  have tick: "tick_size spec \<noteq> 0" "0 < ?tick" using spec by (simp_all add: spec_ok_def unat_gt_0)
  have span': "unat span = unat (minor mx) - ?min" "?min \<le> unat (minor mx)"
    using checked_sub_unat [OF span] by simp_all
  have n: "unat slots = Suc (unat span div ?tick)"
    using checked_add_unat [OF slots] steps tick by (auto simp: checked_div_def unat_div)
  have range: "?min + i * ?tick \<le> unat (minor mx)" if "i < unat slots" for i
  proof -
    have "i \<le> unat span div ?tick" using that n by simp
    then have "i * ?tick \<le> unat span div ?tick * ?tick" by (rule mult_le_mono1)
    also have "\<dots> \<le> unat span" by simp
    finally show ?thesis using span' by simp
  qed
  have fits: "?min + i * ?tick < 2 ^ 64" if "i < unat slots" for i
    using range [OF that] unat_u64_bound [of "minor mx"] by (simp del: unat_u64_bound)
  show ok: "ladder_ok s"
    unfolding ladder_ok_def s using tick(1) fits
    by (auto simp: ladder_slots_def no_slot split: side.splits)
  show "lookup_level (ladder_store rb ra) s sd p = None"
  proof (cases "ladder_index s p")
    case (Some i)
    with ladder_index_iff [OF ok] have "i < unat slots" by (simp add: s)
    then have "ladder_slots s sd ! i = None" by (cases sd) (simp_all add: s)
    with Some show ?thesis by (simp add: ladder_lookup [OF ok])
  qed (simp add: ladder_lookup [OF ok])
  assume "admits_price spec q = Inr ()" and mult: "is_multiple_of (minor q) (tick_size spec)"
  then have q: "?min \<le> unat (minor q)" "unat (minor q) \<le> unat (minor mx)"
    using mx by (auto simp: admits_price_def less_price_def word_less_nat_alt not_less split: if_splits)
  have "?tick dvd ?min" using spec by (simp add: spec_ok_def is_multiple_of_unat)
  with mult q have dvd: "?tick dvd unat (minor q) - ?min" by (simp add: is_multiple_of_unat)
  let ?i = "(unat (minor q) - ?min) div ?tick"
  have "?i < unat slots"
    unfolding n span' using q by (simp add: less_Suc_eq_le div_le_mono)
  moreover from this have "unat (minor (ladder_price s ?i)) = unat (minor q)"
    using unat_ladder_price [OF ok, of ?i] s dvd q by simp
  then have "q = ladder_price s ?i" by (metis price.expand word_unat_eq_iff)
  ultimately have "ladder_index s q = Some ?i" using ladder_index_iff [OF ok] s by simp
  then show "ladder_covers s q" by (simp add: ladder_covers_def)
qed

section \<open>The contract\<close>

lemma ladder_levels_sorted:
  assumes ok: "ladder_ok s"
  shows "sorted_wrt (better sd) (map bl_price (ladder_levels s sd))"
proof -
  have up: "sorted_wrt (\<lambda>a b. bl_price a < bl_price b) (somes (ladder_slots s sd))"
  proof (rule sorted_wrt_somes)
    fix i j a b
    assume ij: "i < j" "j < length (ladder_slots s sd)"
      and ab: "ladder_slots s sd ! i = Some a" "ladder_slots s sd ! j = Some b"
    then have "j < length (tl_bids s)" by (simp add: length_ladder_slots [OF ok])
    with ij ab ladder_entry [OF ok] ladder_price_mono [OF ok ij(1)] show "bl_price a < bl_price b"
      by (metis order.strict_trans)
  qed
  show ?thesis
    using up by (cases sd) (simp_all add: ladder_levels_def sorted_wrt_map sorted_wrt_rev)
qed

lemma ladder_levels_mem:
  assumes ok: "ladder_ok s"
  shows "l \<in> set (ladder_levels s sd) \<longleftrightarrow> lookup_level (ladder_store rb ra) s sd (bl_price l) = Some l"
proof -
  have "l \<in> set (ladder_levels s sd) \<longleftrightarrow> (\<exists>i<length (tl_bids s). ladder_slots s sd ! i = Some l)"
    using length_ladder_slots [OF ok, of sd] by (cases sd) (simp_all add: ladder_levels_def somes_mem)
  also have "\<dots> \<longleftrightarrow> lookup_level (ladder_store rb ra) s sd (bl_price l) = Some l"
  proof
    assume "\<exists>i<length (tl_bids s). ladder_slots s sd ! i = Some l"
    then obtain i where i: "i < length (tl_bids s)" "ladder_slots s sd ! i = Some l" by blast
    with ladder_entry [OF ok i] have "ladder_index s (bl_price l) = Some i"
      by (simp add: ladder_index_iff [OF ok])
    with i show "lookup_level (ladder_store rb ra) s sd (bl_price l) = Some l"
      by (simp add: ladder_lookup [OF ok])
  next
    assume "lookup_level (ladder_store rb ra) s sd (bl_price l) = Some l"
    then obtain i where "ladder_index s (bl_price l) = Some i" "ladder_slots s sd ! i = Some l"
      by (auto simp: ladder_lookup [OF ok] split: option.splits)
    then show "\<exists>i<length (tl_bids s). ladder_slots s sd ! i = Some l"
      by (auto simp: ladder_index_iff [OF ok])
  qed
  finally show ?thesis .
qed

text \<open>The cached index finds the first level listed.\<close>

lemma ladder_best_first:
  assumes ok: "ladder_ok s"
  shows "case ladder_levels s sd of
      [] \<Rightarrow> ladder_best s sd = None
    | l # _ \<Rightarrow> \<exists>i. ladder_best s sd = Some i \<and> i < length (ladder_slots s sd) \<and>
        ladder_slots s sd ! i = Some l \<and> ladder_index s (bl_price l) = Some i"
proof (cases "ladder_best s sd")
  case None
  then have "ladder_levels s sd = []"
    using ok somes_rposition [of "tl_bids s"] somes_position [of "tl_asks s"]
    by (cases sd) (simp_all add: ladder_levels_def ladder_best_def ladder_ok_def)
  with None show ?thesis by simp
next
  case (Some i)
  from ladder_best_in_slots [OF ok Some] obtain l where
    i: "i < length (ladder_slots s sd)" "ladder_slots s sd ! i = Some l" by blast
  then have "ladder_index s (bl_price l) = Some i"
    using ladder_entry [OF ok _ i(2)] ladder_index_iff [OF ok] length_ladder_slots [OF ok] by metis
  moreover have "\<exists>ls. ladder_levels s sd = l # ls"
    using ok somes_rposition [of "tl_bids s"] somes_position [of "tl_asks s"] Some i(2)
    by (cases sd) (simp_all add: ladder_levels_def ladder_best_def ladder_ok_def)
  ultimately show ?thesis using Some i by auto
qed

lemma ladder_occupied:
  assumes "ladder_ok s" and "ladder_index s p = Some i" and "ladder_slots s sd ! i = Some l"
  shows "writes_level (ladder_store rb ra) ladder_ok ladder_covers s sd p (\<lambda>l'. ladder_set s sd i (Some l'))"
  using ladder_fill [OF assms(1,2), of rb ra sd] ladder_filled_same [OF assms(1) _ assms(3)]
    ladder_index_iff [OF assms(1)] assms(2) by auto

lemma ladder_ensure_eq:
  assumes ok: "ladder_ok s" and i: "ladder_index s p = Some i"
  shows "ladder_ensure_level s sd p =
    Some (Inr (case ladder_slots s sd ! i of None \<Rightarrow> book_level_new p sd | Some l \<Rightarrow> l,
      \<lambda>l. ladder_set (ladder_filled_best s sd i) sd i (Some l)))"
proof -
  have "i < length (ladder_slots s sd)"
    using i ladder_index_iff [OF ok] length_ladder_slots [OF ok] by auto
  moreover have "(case sd of
      Bid \<Rightarrow> if (case tl_best_bid s of None \<Rightarrow> True | Some best \<Rightarrow> best < i) then s\<lparr>tl_best_bid := Some i\<rparr> else s
    | Ask \<Rightarrow> if (case tl_best_ask s of None \<Rightarrow> True | Some best \<Rightarrow> i < best) then s\<lparr>tl_best_ask := Some i\<rparr> else s)
      = ladder_filled_best s sd i"
    by (auto simp: ladder_filled_best_def max_def min_def split: side.splits option.splits)
  ultimately show ?thesis
    using i by (simp add: ladder_ensure_level_def Let_def nth_opt_def)
qed

interpretation ladder: order_book_store "ladder_store rb ra" ladder_ok ladder_covers for rb ra
proof
  fix spec s sd p
  assume "spec_ok spec" and "new_store (ladder_store rb ra) spec = Inr s"
  then have spec: "spec_ok spec" "ladder_try_new rb ra spec = Inr s" by simp_all
  note new = ladder_new [OF spec]
  show "ladder_ok s" by (rule new(1))
  show "lookup_level (ladder_store rb ra) s sd p = None" by (rule new(2))
  assume "admits_price spec p = Inr ()" and "is_multiple_of (minor p) (tick_size spec)"
  then show "ladder_covers s p" by (rule new(3))
next
  fix s :: "'a tick_ladder" and sd p
  assume ok: "ladder_ok s"
  show "get_level (ladder_store rb ra) s sd p = Some (lookup_level (ladder_store rb ra) s sd p)"
    by (cases "ladder_index s p") (simp_all add: ladder_lookup [OF ok] ladder_level_def ladder_nth [OF ok])
  show "bl_price l = p \<and> bl_side l = sd \<and> ladder_covers s p"
    if "lookup_level (ladder_store rb ra) s sd p = Some l" for l
  proof -
    from that obtain i where i: "ladder_index s p = Some i" "ladder_slots s sd ! i = Some l"
      by (auto simp: ladder_lookup [OF ok] split: option.splits)
    with ladder_entry [OF ok _ i(2)] ladder_index_iff [OF ok] show ?thesis
      by (auto simp: ladder_covers_def)
  qed
  show "sorted_wrt (better sd) (map bl_price (levels_of (ladder_store rb ra) s sd))"
    using ladder_levels_sorted [OF ok] by simp
  show "l \<in> set (levels_of (ladder_store rb ra) s sd) \<longleftrightarrow>
      lookup_level (ladder_store rb ra) s sd (bl_price l) = Some l" for l
    using ladder_levels_mem [OF ok] by simp
  show "best_level (ladder_store rb ra) s sd =
      Some (case levels_of (ladder_store rb ra) s sd of [] \<Rightarrow> None | l # _ \<Rightarrow> Some l)"
    using ladder_best_first [OF ok, of sd]
    by (cases "ladder_levels s sd") (auto simp: ladder_best_level_def nth_opt_def)
  show "best_level_mut (ladder_store rb ra) s sd = Some None"
    if "levels_of (ladder_store rb ra) s sd = []"
    using ladder_best_first [OF ok, of sd] that by (simp add: ladder_best_level_mut_def)
  show "\<exists>put. best_level_mut (ladder_store rb ra) s sd = Some (Some (l, put)) \<and>
      writes_level (ladder_store rb ra) ladder_ok ladder_covers s sd (bl_price l) put"
    if "levels_of (ladder_store rb ra) s sd = l # ls" for l ls
  proof -
    from ladder_best_first [OF ok, of sd] that obtain i where
      i: "ladder_best s sd = Some i" "i < length (ladder_slots s sd)" "ladder_slots s sd ! i = Some l"
        "ladder_index s (bl_price l) = Some i" by auto
    with ladder_occupied [OF ok i(4,3)] show ?thesis
      by (simp add: ladder_best_level_mut_def nth_opt_def)
  qed
  show "level_mut (ladder_store rb ra) s sd p = Some None"
    if "lookup_level (ladder_store rb ra) s sd p = None"
    using that
    by (cases "ladder_index s p") (simp_all add: ladder_level_mut_def ladder_lookup [OF ok] ladder_nth [OF ok])
  show "\<exists>put. level_mut (ladder_store rb ra) s sd p = Some (Some (l, put)) \<and>
      writes_level (ladder_store rb ra) ladder_ok ladder_covers s sd p put"
    if "lookup_level (ladder_store rb ra) s sd p = Some l" for l
  proof -
    from that obtain i where i: "ladder_index s p = Some i" "ladder_slots s sd ! i = Some l"
      by (auto simp: ladder_lookup [OF ok] split: option.splits)
    with ladder_occupied [OF ok i] show ?thesis by (simp add: ladder_level_mut_def ladder_nth [OF ok])
  qed
  show "\<exists>e. ensure_level (ladder_store rb ra) s sd p = Some (Inl e)" if "\<not> ladder_covers s p"
    using that by (simp add: ladder_covers_def ladder_ensure_level_def)
  show "\<exists>put. ensure_level (ladder_store rb ra) s sd p =
      Some (Inr (case lookup_level (ladder_store rb ra) s sd p of None \<Rightarrow> book_level_new p sd | Some l \<Rightarrow> l, put)) \<and>
      writes_level (ladder_store rb ra) ladder_ok ladder_covers s sd p put"
    if "ladder_covers s p"
  proof -
    from that obtain i where i: "ladder_index s p = Some i" by (auto simp: ladder_covers_def)
    from ladder_fill [OF ok i, of rb ra sd] ladder_ensure_eq [OF ok i, of sd] show ?thesis
      by (simp add: ladder_lookup [OF ok] i)
  qed
  show "\<exists>s'. remove_level (ladder_store rb ra) s sd p = Some (lookup_level (ladder_store rb ra) s sd p, s') \<and>
      ladder_ok s' \<and>
      lookup_level (ladder_store rb ra) s' = set_level (lookup_level (ladder_store rb ra) s) sd p None \<and>
      ladder_covers s' = ladder_covers s"
  proof (cases "ladder_index s p")
    case None
    then have "lookup_level (ladder_store rb ra) s sd p = None" by (simp add: ladder_lookup [OF ok])
    then have "set_level (lookup_level (ladder_store rb ra) s) sd p None = lookup_level (ladder_store rb ra) s"
      by (auto simp: set_level_def fun_eq_iff)
    with None ok show ?thesis
      by (simp add: ladder_remove_level_def ladder_lookup [OF ok])
  next
    case (Some i)
    have "i < length (ladder_slots s sd)"
      using Some ladder_index_iff [OF ok] length_ladder_slots [OF ok] by auto
    moreover have "ladder_best (ladder_set s sd i None) sd = ladder_best s sd"
      by (cases sd) (simp_all add: ladder_best_def ladder_set_def)
    ultimately show ?thesis
      using Some ladder_clear [OF ok Some, of sd rb ra]
      by (simp add: ladder_remove_level_def nth_opt_def Let_def ladder_lookup [OF ok] del: ladder_set_simps)
  qed
qed

end
