(* ===== verification/Stores_Agree.thy ===== *)
theory Stores_Agree
  imports BTree_Store HashMap_Store Tick_Ladder_Store
begin

text \<open>
  The three stores are interchangeable: driven by the same writes and removals, they list the same
  levels in the same order. The proof is done once, inside the contract \<open>order_book_store\<close>, against
  a map of levels; the three stores get it by interpretation.
\<close>

datatype 'k store_op =
    Write_Level side price "'k level_queue"
  | Drop_Level side price

fun op_price :: "'k store_op \<Rightarrow> price" where
  "op_price (Write_Level sd p q) = p"
| "op_price (Drop_Level sd p) = p"

text \<open>
  What the engine does to a store: obtain a level, leave a queue in it, remove it when it is empty.
  \<open>None\<close> is a panic or a refusal.
\<close>

fun run_store :: "('s, 'k) store_ops \<Rightarrow> 's \<Rightarrow> 'k store_op list \<Rightarrow> 's option" where
  "run_store S s [] = Some s"
| "run_store S s (Write_Level sd p q # ops) =
     (case ensure_level S s sd p of
        Some (Inr (l, put)) \<Rightarrow> run_store S (put (l\<lparr>bl_queue := q\<rparr>)) ops
      | _ \<Rightarrow> None)"
| "run_store S s (Drop_Level sd p # ops) =
     (case remove_level S s sd p of None \<Rightarrow> None | Some (l, s') \<Rightarrow> run_store S s' ops)"

text \<open>The specification: a map from sides and prices to queues.\<close>

fun run_spec ::
    "(side \<Rightarrow> price \<Rightarrow> 'k book_level option) \<Rightarrow> 'k store_op list \<Rightarrow> side \<Rightarrow> price \<Rightarrow> 'k book_level option" where
  "run_spec f [] = f"
| "run_spec f (Write_Level sd p q # ops) =
     run_spec (set_level f sd p (Some \<lparr>bl_price = p, bl_side = sd, bl_queue = q\<rparr>)) ops"
| "run_spec f (Drop_Level sd p # ops) = run_spec (set_level f sd p None) ops"

context order_book_store
begin

lemma run_store_spec:
  assumes "ok s" and "\<And>x. x \<in> set ops \<Longrightarrow> covers s (op_price x)"
  shows "\<exists>s'. run_store S s ops = Some s' \<and> ok s' \<and> lookup_level S s' = run_spec (lookup_level S s) ops"
  using assms
proof (induction ops arbitrary: s)
  case (Cons x ops)
  show ?case
  proof (cases x)
    case (Write_Level sd p q)
    let ?l = "case lookup_level S s sd p of None \<Rightarrow> book_level_new p sd | Some l \<Rightarrow> l"
    have "covers s p" using Cons.prems(2) [of x] Write_Level by simp
    from ensure_lends [OF Cons.prems(1) this, of sd] obtain put where
      put: "ensure_level S s sd p = Some (Inr (?l, put))" "writes_level S ok covers s sd p put" by blast
    have l: "bl_price ?l = p" "bl_side ?l = sd"
      using level_wf [OF Cons.prems(1), of sd p]
      by (auto simp: book_level_new_def split: option.splits)
    then have new: "?l\<lparr>bl_queue := q\<rparr> = \<lparr>bl_price = p, bl_side = sd, bl_queue = q\<rparr>"
      by (cases ?l) simp
    let ?s = "put \<lparr>bl_price = p, bl_side = sd, bl_queue = q\<rparr>"
    have s': "ok ?s" "lookup_level S ?s = set_level (lookup_level S s) sd p (Some \<lparr>bl_price = p, bl_side = sd, bl_queue = q\<rparr>)"
      "covers ?s = covers s"
      using writes_levelD [OF put(2)] by simp_all
    then have "\<exists>s'. run_store S ?s ops = Some s' \<and> ok s' \<and> lookup_level S s' = run_spec (lookup_level S ?s) ops"
      using Cons.prems(2) by (intro Cons.IH) auto
    with s' put(1) new Write_Level show ?thesis by auto
  next
    case (Drop_Level sd p)
    from remove_total [OF Cons.prems(1), of sd p] obtain s1 where
      s1: "remove_level S s sd p = Some (lookup_level S s sd p, s1)" "ok s1"
        "lookup_level S s1 = set_level (lookup_level S s) sd p None" "covers s1 = covers s" by blast
    then have "\<exists>s'. run_store S s1 ops = Some s' \<and> ok s' \<and> lookup_level S s' = run_spec (lookup_level S s1) ops"
      using Cons.prems(2) by (intro Cons.IH) auto
    with s1 Drop_Level show ?thesis by auto
  qed
qed simp

text \<open>A new store driven by the engine lists whatever the specification map holds.\<close>

lemma run_new_store:
  assumes "spec_ok spec" and "new_store S spec = Inr s"
    and "\<And>x. x \<in> set ops \<Longrightarrow> covers s (op_price x)"
  shows "\<exists>s'. run_store S s ops = Some s' \<and> ok s' \<and> lookup_level S s' = run_spec (\<lambda>_ _. None) ops"
proof -
  have "lookup_level S s = (\<lambda>_ _. None)" using new_empty [OF assms(1,2)] by (simp add: fun_eq_iff)
  with run_store_spec [OF new_ok [OF assms(1,2)] assms(3)] show ?thesis by simp
qed

text \<open>What it lists is fixed by the map.\<close>

lemma listing_of_spec:
  assumes "ok s" and "lookup_level S s = f"
    and "sorted_wrt (better sd) (map bl_price ls)" and "\<And>l. l \<in> set ls \<longleftrightarrow> f sd (bl_price l) = Some l"
  shows "levels_of S s sd = ls"
  using assms by (intro levels_unique) auto

end

text \<open>
  The storage backends are interchangeable. Whatever sequence of level writes and removals the
  engine makes, at prices the instrument admits on its tick grid, none of the ordered map, the hash
  map with heaps and the tick ladder panics or refuses, and all three then list the same levels,
  best price first, and have the same best level.
\<close>

theorem stores_agree:
  assumes "spec_ok spec" and "ladder_try_new rb ra spec = Inr l0"
    and "\<forall>x\<in>set ops. admits_price spec (op_price x) = Inr () \<and>
      is_multiple_of (minor (op_price x)) (tick_size spec)"
  shows "\<exists>b h l.
    run_store btree_store \<lparr>bt_bids = [], bt_asks = []\<rparr> ops = Some b \<and>
    run_store hash_store \<lparr>hs_bids = [], hs_asks = [], hs_bids_index = [], hs_asks_index = []\<rparr> ops = Some h \<and>
    run_store (ladder_store rb ra) l0 ops = Some l \<and>
    hash_levels h sd = btree_levels b sd \<and> ladder_levels l sd = btree_levels b sd \<and>
    hash_best_level h sd = btree_best_level b sd \<and> ladder_best_level l sd = btree_best_level b sd"
proof -
  from btree.run_new_store [OF assms(1), of _ ops] obtain b where
    b: "run_store btree_store \<lparr>bt_bids = [], bt_asks = []\<rparr> ops = Some b" "btree_ok b"
      "lookup_level btree_store b = run_spec (\<lambda>_ _. None) ops" by (auto simp: btree_try_new_def)
  from hash.run_new_store [OF assms(1), of _ ops] obtain h where
    h: "run_store hash_store \<lparr>hs_bids = [], hs_asks = [], hs_bids_index = [], hs_asks_index = []\<rparr> ops = Some h"
      "hash_ok h" "lookup_level hash_store h = run_spec (\<lambda>_ _. None) ops" by (auto simp: hash_try_new_def)
  have "ladder_covers l0 (op_price x)" if "x \<in> set ops" for x
    using assms that by (intro ladder.new_covers [of spec]) auto
  with ladder.run_new_store [OF assms(1), of rb ra l0 ops] assms(2) obtain l where
    l: "run_store (ladder_store rb ra) l0 ops = Some l" "ladder_ok l"
      "lookup_level (ladder_store rb ra) l = run_spec (\<lambda>_ _. None) ops" by auto
  note sorted = btree.levels_sorted [OF b(2), of sd] and mem = btree.levels_mem [OF b(2), of _ sd, unfolded b(3)]
  have "levels_of hash_store h sd = levels_of btree_store b sd"
    by (rule hash.listing_of_spec [OF h(2,3) sorted mem])
  moreover have "levels_of (ladder_store rb ra) l sd = levels_of btree_store b sd"
    by (rule ladder.listing_of_spec [OF l(2,3) sorted mem])
  ultimately show ?thesis
    using b(1) h(1) l(1) btree.best_total [OF b(2), of sd] hash.best_total [OF h(2), of sd]
      ladder.best_total [OF l(2), of rb ra sd]
    by simp
qed

text \<open>Two asks and a bid written, the better ask removed again, on a five-tick instrument.\<close>

definition five_tick_spec :: instrument_spec where
  "five_tick_spec =
     \<lparr>price_scale = 2, qty_scale = 0, tick_size = 5, lot_size = 1, min_price = Price 5,
      max_price = Some (Price 50), min_qty = Qty 1, max_qty = None, min_notional = None\<rparr>"

definition sample_ops :: "nat store_op list" where
  "sample_ops =
     [Write_Level Ask (Price 20) \<lparr>q_head = Some 0, q_tail = Some 0, q_len = 1\<rparr>,
      Write_Level Ask (Price 10) \<lparr>q_head = Some 1, q_tail = Some 1, q_len = 1\<rparr>,
      Write_Level Bid (Price 5) \<lparr>q_head = Some 2, q_tail = Some 2, q_len = 1\<rparr>,
      Drop_Level Ask (Price 10)]"

theorem stores_agree_witness:
  "\<exists>b l0 l.
     run_store btree_store \<lparr>bt_bids = [], bt_asks = []\<rparr> sample_ops = Some b \<and>
     ladder_try_new (\<lambda>_. True) (\<lambda>_. True) five_tick_spec = Inr l0 \<and>
     run_store (ladder_store (\<lambda>_. True) (\<lambda>_. True)) l0 sample_ops = Some l \<and>
     ladder_levels l Ask = btree_levels b Ask"
proof -
  have "spec_ok five_tick_spec"
    by (simp add: five_tick_spec_def spec_ok_def is_multiple_of_def)
  moreover obtain l0 :: "nat tick_ladder" where
    l0: "ladder_try_new (\<lambda>_. True) (\<lambda>_. True) five_tick_spec = Inr l0"
    by (simp add: ladder_try_new_def five_tick_spec_def checked_sub_def checked_div_def checked_add_def)
  moreover have "\<forall>x\<in>set sample_ops. admits_price five_tick_spec (op_price x) = Inr () \<and>
      is_multiple_of (minor (op_price x)) (tick_size five_tick_spec)"
    by (simp add: sample_ops_def five_tick_spec_def admits_price_def is_multiple_of_def)
  ultimately show ?thesis
    using stores_agree [of five_tick_spec "\<lambda>_. True" "\<lambda>_. True" l0 sample_ops Ask] by blast
qed

end
