(* ===== verification/Order_Book.thy ===== *)
theory Order_Book
  imports Storage
begin

text \<open>
  \<^verbatim>\<open>src/src/orderbook.rs\<close>: the book. Its state is a record over the type \<open>'s\<close> of the store, the type
  \<open>'m\<close> of the arena and the type \<open>'k\<close> of its keys; the operations take the methods of the store and
  of the arena as their first arguments, where Rust has the type parameter \<open>S\<close> and the crate
  \<open>slotmap\<close>. The matcher is a field of the book.

  An operation that can fail with an error returns a sum with the state after it; the option around
  it is a panic.
\<close>

section \<open>The state\<close>

datatype order_location =
    In_Book side price
  | In_Stop_Book side price

datatype 'k order_address =
    Book_Address side price 'k
  | Stop_Address side price

fun address_location :: "'k order_address \<Rightarrow> order_location" where
  "address_location (Book_Address sd p key) = In_Book sd p"
| "address_location (Stop_Address sd trigger) = In_Stop_Book sd trigger"

record ('s, 'm, 'k) order_book =
  ob_store :: 's
  ob_nodes :: 'm
  stop_bids :: "(price, order list) btree_map"
  stop_asks :: "(price, order list) btree_map"
  last_trade_price :: "price option"
  ob_index :: "(exchange_id, 'k order_address) hash_map"
  next_seq :: u64
  next_arrival :: u32
  ob_spec :: instrument_spec
  ob_matcher :: matcher

datatype order_book_error =
    Generic
  | ExchangeIdDuplicated
  | OrderNotFound
  | Unsupported
  | NotRestable
  | Rejected reject_reason
  | Storage store_error

section \<open>Construction\<close>

text \<open>A matcher that floors to a lot must floor to the lot of the instrument; otherwise a panic.\<close>

definition try_new ::
    "('s, 'k) store_ops \<Rightarrow> ('m, 'k) arena_ops \<Rightarrow> instrument_spec \<Rightarrow> matcher \<Rightarrow>
       (store_error + ('s, 'm, 'k) order_book) option" where
  "try_new S A spec mtch =
     (if case matcher_lot_size mtch of None \<Rightarrow> True | Some lot \<Rightarrow> lot = lot_size spec
      then Some (case new_store S spec of
          Inl e \<Rightarrow> Inl e
        | Inr s \<Rightarrow> Inr
            \<lparr>ob_store = s, ob_nodes = arena_new A, stop_bids = [], stop_asks = [],
             last_trade_price = None, ob_index = [], next_seq = 1, next_arrival = 1,
             ob_spec = spec, ob_matcher = mtch\<rparr>)
      else None)"

text \<open>\<open>OrderBook::new\<close> on the ordered-map store expects that construction to succeed.\<close>

definition book_new ::
    "('s, 'k) store_ops \<Rightarrow> ('m, 'k) arena_ops \<Rightarrow> instrument_spec \<Rightarrow> matcher \<Rightarrow> ('s, 'm, 'k) order_book option" where
  "book_new S A spec mtch = (case try_new S A spec mtch of Some (Inr b) \<Rightarrow> Some b | _ \<Rightarrow> None)"

definition book_lot_size :: "('s, 'm, 'k) order_book \<Rightarrow> u64" where
  "book_lot_size b = lot_size (ob_spec b)"

section \<open>Admission\<close>

fun admit_prices :: "instrument_spec \<Rightarrow> price option list \<Rightarrow> order_book_error + unit" where
  "admit_prices spec [] = Inr ()"
| "admit_prices spec (None # ps) = admit_prices spec ps"
| "admit_prices spec (Some p # ps) =
     (case admits_price spec p of Inl r \<Rightarrow> Inl (Rejected r) | Inr _ \<Rightarrow> admit_prices spec ps)"

definition admit_under :: "instrument_spec \<Rightarrow> order \<Rightarrow> order_book_error + unit" where
  "admit_under spec ord =
     (case admit_prices spec (prices (otype ord)) of
        Inl e \<Rightarrow> Inl e
      | Inr _ \<Rightarrow>
          (case admits_qty spec (original_quantity ord) of
             Inl r \<Rightarrow> Inl (Rejected r)
           | Inr _ \<Rightarrow>
               (case limit_price (otype ord) of
                  None \<Rightarrow> Inr ()
                | Some p \<Rightarrow>
                    (case admits_notional spec p (original_quantity ord) of
                       Inl r \<Rightarrow> Inl (Rejected r)
                     | Inr _ \<Rightarrow> Inr ()))))"

definition admit :: "('s, 'm, 'k) order_book \<Rightarrow> order \<Rightarrow> order_book_error + unit" where
  "admit b ord = admit_under (ob_spec b) ord"

section \<open>Resting and cancelling\<close>

text \<open>
  The arrival counter is advanced with a check, before anything is changed; the order is stamped,
  appended to its level and entered in the index.
\<close>

definition rest_order ::
    "('s, 'k) store_ops \<Rightarrow> ('m, 'k) arena_ops \<Rightarrow> ('s, 'm, 'k) order_book \<Rightarrow> order \<Rightarrow> price \<Rightarrow>
       ((order_book_error + unit) \<times> ('s, 'm, 'k) order_book) option" where
  "rest_order S A b ord p = do {
     following \<leftarrow> checked_add (next_arrival b) 1;
     lent \<leftarrow> ensure_level S (ob_store b) (order_side ord) p;
     (case lent of
        Inl e \<Rightarrow> Some (Inl (Storage e), b)
      | Inr (level, put) \<Rightarrow> do {
          (key, q, nodes) \<leftarrow> push_back A (bl_queue level) (ob_nodes b) (ord\<lparr>arrival := next_arrival b\<rparr>);
          Some (Inr (), b\<lparr>ob_store := put (level\<lparr>bl_queue := q\<rparr>), ob_nodes := nodes,
            ob_index := hm_insert (order_id ord) (Book_Address (order_side ord) p key) (ob_index b),
            next_arrival := following\<rparr>)
        })
   }"

definition add_order ::
    "('s, 'k) store_ops \<Rightarrow> ('m, 'k) arena_ops \<Rightarrow> ('s, 'm, 'k) order_book \<Rightarrow> order \<Rightarrow>
       ((order_book_error + unit) \<times> ('s, 'm, 'k) order_book) option" where
  "add_order S A b ord =
     (case otype ord of
        Limit p tif \<Rightarrow>
          (case admit b ord of
             Inl e \<Rightarrow> Some (Inl e, b)
           | Inr _ \<Rightarrow>
               (case hm_get (ob_index b) (order_id ord) of
                  Some _ \<Rightarrow> Some (Inl ExchangeIdDuplicated, b)
                | None \<Rightarrow> rest_order S A b ord p))
      | _ \<Rightarrow> Some (Inl NotRestable, b))"

definition stops_of :: "('s, 'm, 'k) order_book \<Rightarrow> side \<Rightarrow> (price, order list) btree_map" where
  "stops_of b sd = (case sd of Bid \<Rightarrow> stop_bids b | Ask \<Rightarrow> stop_asks b)"

definition set_stops ::
    "side \<Rightarrow> (price, order list) btree_map \<Rightarrow> ('s, 'm, 'k) order_book \<Rightarrow> ('s, 'm, 'k) order_book" where
  "set_stops sd stops b = (case sd of Bid \<Rightarrow> b\<lparr>stop_bids := stops\<rparr> | Ask \<Rightarrow> b\<lparr>stop_asks := stops\<rparr>)"

text \<open>Both branches of \<open>cancel_order\<close>, after the index entry is taken out.\<close>

definition cancel_in_book ::
    "('s, 'k) store_ops \<Rightarrow> ('m, 'k) arena_ops \<Rightarrow> ('s, 'm, 'k) order_book \<Rightarrow> side \<Rightarrow> price \<Rightarrow> 'k \<Rightarrow>
       ('s, 'm, 'k) order_book option" where
  "cancel_in_book S A b sd p key = do {
     found \<leftarrow> level_mut S (ob_store b) sd p;
     (level, put) \<leftarrow> found;
     (gone, q, nodes) \<leftarrow> remove_key A (bl_queue level) (ob_nodes b) key;
     ord \<leftarrow> gone;
     (if queue_is_empty q
      then do {
        (dropped, s) \<leftarrow> remove_level S (put (level\<lparr>bl_queue := q\<rparr>)) sd p;
        Some (b\<lparr>ob_store := s, ob_nodes := nodes\<rparr>)
      }
      else Some (b\<lparr>ob_store := put (level\<lparr>bl_queue := q\<rparr>), ob_nodes := nodes\<rparr>))
   }"

definition cancel_in_stops ::
    "('s, 'm, 'k) order_book \<Rightarrow> exchange_id \<Rightarrow> side \<Rightarrow> price \<Rightarrow> ('s, 'm, 'k) order_book" where
  "cancel_in_stops b i sd trigger =
     (case bt_get (stops_of b sd) trigger of
        None \<Rightarrow> b
      | Some queue \<Rightarrow>
          let queue' = filter (\<lambda>ord. order_id ord \<noteq> i) queue
          in set_stops sd
               (if queue' = [] then bt_remove trigger (stops_of b sd)
                else bt_put trigger queue' (stops_of b sd)) b)"

definition cancel_order ::
    "('s, 'k) store_ops \<Rightarrow> ('m, 'k) arena_ops \<Rightarrow> ('s, 'm, 'k) order_book \<Rightarrow> exchange_id \<Rightarrow>
       ((order_book_error + unit) \<times> ('s, 'm, 'k) order_book) option" where
  "cancel_order S A b i =
     (case hm_get (ob_index b) i of
        None \<Rightarrow> Some (Inl OrderNotFound, b)
      | Some address \<Rightarrow>
          let b = b\<lparr>ob_index := hm_remove i (ob_index b)\<rparr>
          in map_option (Pair (Inr ()))
               (case address of
                  Book_Address sd p key \<Rightarrow> cancel_in_book S A b sd p key
                | Stop_Address sd trigger \<Rightarrow> Some (cancel_in_stops b i sd trigger)))"

section \<open>Queries\<close>

definition best_bid :: "('s, 'k) store_ops \<Rightarrow> ('s, 'm, 'k) order_book \<Rightarrow> price option option" where
  "best_bid S b = best_price S (ob_store b) Bid"

definition best_ask :: "('s, 'k) store_ops \<Rightarrow> ('s, 'm, 'k) order_book \<Rightarrow> price option option" where
  "best_ask S b = best_price S (ob_store b) Ask"

definition spread :: "('s, 'k) store_ops \<Rightarrow> ('s, 'm, 'k) order_book \<Rightarrow> ticks option option" where
  "spread S b = do {
     ask \<leftarrow> best_ask S b;
     bid \<leftarrow> best_bid S b;
     Some (case (ask, bid) of
         (Some a, Some d) \<Rightarrow> Some (ticks_between (ob_spec b) a d)
       | _ \<Rightarrow> None)
   }"

text \<open>A view pairs a level with the arena, and reads the orders through it.\<close>

record ('m, 'k) level_view =
  view_price :: price
  view_side :: side
  view_level :: "'k book_level"
  view_nodes :: 'm

definition view_new :: "'k book_level \<Rightarrow> 'm \<Rightarrow> ('m, 'k) level_view" where
  "view_new l nodes = \<lparr>view_price = bl_price l, view_side = bl_side l, view_level = l, view_nodes = nodes\<rparr>"

definition view_is_empty :: "('m, 'k) level_view \<Rightarrow> bool" where
  "view_is_empty v \<longleftrightarrow> book_level_is_empty (view_level v)"

definition view_count :: "('m, 'k) level_view \<Rightarrow> usize" where
  "view_count v = book_level_count (view_level v)"

definition view_orders :: "('m, 'k) arena_ops \<Rightarrow> ('m, 'k) level_view \<Rightarrow> order list option" where
  "view_orders A v = queue_iter A (bl_queue (view_level v)) (view_nodes v)"

definition view_makers :: "('m, 'k) arena_ops \<Rightarrow> ('m, 'k) level_view \<Rightarrow> maker list option" where
  "view_makers A v = map_option (map maker_of) (view_orders A v)"

definition view_total :: "('m, 'k) arena_ops \<Rightarrow> ('m, 'k) level_view \<Rightarrow> qty option" where
  "view_total A v = map_option (\<lambda>os. qty_sum (map remaining_quantity os)) (view_orders A v)"

definition view_to_owned :: "('m, 'k) arena_ops \<Rightarrow> ('m, 'k) level_view \<Rightarrow> price_level option" where
  "view_to_owned A v =
     map_option (\<lambda>os. \<lparr>level_price = view_price v, level_side = view_side v, level_orders = os\<rparr>)
       (view_orders A v)"

definition book_levels ::
    "('s, 'k) store_ops \<Rightarrow> ('s, 'm, 'k) order_book \<Rightarrow> side \<Rightarrow> ('m, 'k) level_view list" where
  "book_levels S b sd =
     map (\<lambda>l. view_new l (ob_nodes b)) (levels_of S (ob_store b) sd)"

definition book_level_at ::
    "('s, 'k) store_ops \<Rightarrow> ('s, 'm, 'k) order_book \<Rightarrow> side \<Rightarrow> price \<Rightarrow> ('m, 'k) level_view option option" where
  "book_level_at S b sd p =
     map_option (map_option (\<lambda>l. view_new l (ob_nodes b))) (get_level S (ob_store b) sd p)"

definition book_best_level ::
    "('s, 'k) store_ops \<Rightarrow> ('s, 'm, 'k) order_book \<Rightarrow> side \<Rightarrow> ('m, 'k) level_view option option" where
  "book_best_level S b sd =
     map_option (map_option (\<lambda>l. view_new l (ob_nodes b))) (best_level S (ob_store b) sd)"

definition best_level_owned ::
    "('s, 'k) store_ops \<Rightarrow> ('m, 'k) arena_ops \<Rightarrow> ('s, 'm, 'k) order_book \<Rightarrow> side \<Rightarrow> price_level option option" where
  "best_level_owned S A b sd = do {
     best \<leftarrow> book_best_level S b sd;
     (case best of None \<Rightarrow> Some None | Some v \<Rightarrow> map_option Some (view_to_owned A v))
   }"

definition best_bid_level ::
    "('s, 'k) store_ops \<Rightarrow> ('m, 'k) arena_ops \<Rightarrow> ('s, 'm, 'k) order_book \<Rightarrow> price_level option option" where
  "best_bid_level S A b = best_level_owned S A b Bid"

definition best_ask_level ::
    "('s, 'k) store_ops \<Rightarrow> ('m, 'k) arena_ops \<Rightarrow> ('s, 'm, 'k) order_book \<Rightarrow> price_level option option" where
  "best_ask_level S A b = best_level_owned S A b Ask"

fun depth_rows :: "('m, 'k) arena_ops \<Rightarrow> ('m, 'k) level_view list \<Rightarrow> (price \<times> qty) list option" where
  "depth_rows A [] = Some []"
| "depth_rows A (v # vs) = do {
     total \<leftarrow> view_total A v;
     rows \<leftarrow> depth_rows A vs;
     Some ((view_price v, total) # rows)
   }"

definition depth ::
    "('s, 'k) store_ops \<Rightarrow> ('m, 'k) arena_ops \<Rightarrow> ('s, 'm, 'k) order_book \<Rightarrow> side \<Rightarrow> nat \<Rightarrow> (price \<times> qty) list option" where
  "depth S A b sd n = depth_rows A (take n (book_levels S b sd))"

definition order_location_of :: "('s, 'm, 'k) order_book \<Rightarrow> exchange_id \<Rightarrow> order_location option" where
  "order_location_of b i = map_option address_location (hm_get (ob_index b) i)"

definition order_count :: "('s, 'm, 'k) order_book \<Rightarrow> nat" where
  "order_count b = length (ob_index b)"

definition order_ids :: "('s, 'm, 'k) order_book \<Rightarrow> exchange_id list" where
  "order_ids b = hm_keys (ob_index b)"

definition get_order ::
    "('m, 'k) arena_ops \<Rightarrow> ('s, 'm, 'k) order_book \<Rightarrow> exchange_id \<Rightarrow> order option" where
  "get_order A b i =
     (case hm_get (ob_index b) i of
        None \<Rightarrow> None
      | Some (Book_Address sd p key) \<Rightarrow> map_option node_order (arena_get A (ob_nodes b) key)
      | Some (Stop_Address sd trigger) \<Rightarrow>
          Option.bind (bt_get (stops_of b sd) trigger) (find (\<lambda>ord. order_id ord = i)))"

definition crosses ::
    "('s, 'k) store_ops \<Rightarrow> ('s, 'm, 'k) order_book \<Rightarrow> side \<Rightarrow> price \<Rightarrow> bool option" where
  "crosses S b sd p =
     (case sd of
        Ask \<Rightarrow> map_option (\<lambda>best. case best of None \<Rightarrow> False | Some bid \<Rightarrow> p \<le> bid) (best_bid S b)
      | Bid \<Rightarrow> map_option (\<lambda>best. case best of None \<Rightarrow> False | Some ask \<Rightarrow> ask \<le> p) (best_ask S b))"

end
