(* ===== verification/Matching.thy ===== *)
theory Matching
  imports Order_Book
begin

text \<open>
  \<^verbatim>\<open>src/src/matching.rs\<close>: the sweep of a taker through the opposite side, the processing of the
  order types, the stop book with its cascade, and \<open>submit\<close>. The functions that take the store, the
  arena and the index as separate borrows take the whole book here, and change those three fields.

  Loops are \<open>partial_function (option)\<close>: a run that panics or does not end is \<open>None\<close>.
\<close>

section \<open>Reports\<close>

record trade =
  trade_price :: price
  trade_quantity :: qty
  maker_order_id :: exchange_id
  taker_order_id :: exchange_id
  maker_client :: client_id
  taker_client :: client_id
  taker_side :: side
  trade_timestamp :: u128

datatype submit_outcome = Rested | PartiallyFilledAndRested | Completed | Killed | StopPending

datatype execution_report =
  ExecutionReport (report_id: exchange_id) (report_trades: "trade list") (report_outcome: submit_outcome)
    (report_cancelled: "exchange_id list") (report_triggered: "execution_report list")

record matching_result =
  result_trades :: "trade list"
  result_cancelled :: "exchange_id list"
  result_outcome :: submit_outcome

section \<open>The sweep\<close>

definition opposite :: "side \<Rightarrow> side" where
  "opposite sd = (case sd of Bid \<Rightarrow> Ask | Ask \<Rightarrow> Bid)"

definition crosses_limit :: "side \<Rightarrow> price option \<Rightarrow> price \<Rightarrow> bool" where
  "crosses_limit taker limit p =
     (case limit of
        None \<Rightarrow> True
      | Some l \<Rightarrow> (case taker of Bid \<Rightarrow> p \<le> l | Ask \<Rightarrow> l \<le> p))"

definition trade_of :: "price \<Rightarrow> qty \<Rightarrow> order \<Rightarrow> order \<Rightarrow> trade" where
  "trade_of p q mk tk =
     \<lparr>trade_price = p, trade_quantity = q, maker_order_id = order_id mk, taker_order_id = order_id tk,
      maker_client = client mk, taker_client = client tk, taker_side = order_side tk,
      trade_timestamp = timestamp tk\<rparr>"

definition reduce :: "order \<Rightarrow> qty \<Rightarrow> order" where
  "reduce ord q = ord\<lparr>remaining_quantity := remaining_quantity ord - q\<rparr>"

text \<open>The fills are applied forward, removing nothing.\<close>

fun apply_fills ::
    "('m, 'k) arena_ops \<Rightarrow> price \<Rightarrow> 'k list \<Rightarrow> fill list \<Rightarrow> order \<Rightarrow> 'm \<Rightarrow> (trade list \<times> order \<times> 'm) option" where
  "apply_fills A p keys [] taker nodes = Some ([], taker, nodes)"
| "apply_fills A p keys (f # fs) taker nodes = do {
     key \<leftarrow> nth_opt keys (order_index f);
     (node, put) \<leftarrow> arena_get_mut A nodes key;
     (trades, taker', nodes') \<leftarrow> apply_fills A p keys fs (reduce taker (fill_quantity f))
       (put (node\<lparr>node_order := reduce (node_order node) (fill_quantity f)\<rparr>));
     Some (trade_of p (fill_quantity f) (node_order node) taker # trades, taker', nodes')
   }"

text \<open>The makers a fill exhausted are unlinked, and leave the index.\<close>

fun unlink_exhausted ::
    "('m, 'k) arena_ops \<Rightarrow> 'k list \<Rightarrow> fill list \<Rightarrow> 'k level_queue \<Rightarrow> 'm \<Rightarrow> (exchange_id, 'k order_address) hash_map \<Rightarrow>
       ('k level_queue \<times> 'm \<times> (exchange_id, 'k order_address) hash_map) option" where
  "unlink_exhausted A keys [] q nodes index = Some (q, nodes, index)"
| "unlink_exhausted A keys (f # fs) q nodes index = do {
     key \<leftarrow> nth_opt keys (order_index f);
     (if (case arena_get A nodes key of
            None \<Rightarrow> False
          | Some node \<Rightarrow> qty_is_zero (remaining_quantity (node_order node)))
      then do {
        (gone, q, nodes) \<leftarrow> remove_key A q nodes key;
        done \<leftarrow> gone;
        unlink_exhausted A keys fs q nodes (hm_remove (order_id done) index)
      }
      else unlink_exhausted A keys fs q nodes index)
   }"

definition forget :: "order list \<Rightarrow> (exchange_id, 'k order_address) hash_map \<Rightarrow> (exchange_id, 'k order_address) hash_map" where
  "forget os index = fold (\<lambda>ord. hm_remove (order_id ord)) os index"

text \<open>One pass over the best level: self-trade removal, allocation, trades, unlinking.\<close>

definition trade_level ::
    "('m, 'k) arena_ops \<Rightarrow> matcher \<Rightarrow> u128 \<Rightarrow> 'k book_level \<Rightarrow> order \<Rightarrow> 'm \<Rightarrow>
       (exchange_id, 'k order_address) hash_map \<Rightarrow>
       (trade list \<times> exchange_id list \<times> order \<times> 'k level_queue \<times> 'm \<times> (exchange_id, 'k order_address) hash_map) option" where
  "trade_level A mtch now level taker nodes index = do {
     (own, q, nodes) \<leftarrow> remove_client A (bl_queue level) nodes (client taker);
     (makers, keys) \<leftarrow> collect_makers A q nodes;
     let fills = allocate mtch (remaining_quantity taker) makers now;
     (trades, taker, nodes) \<leftarrow> apply_fills A (bl_price level) keys fills taker nodes;
     (q, nodes, index) \<leftarrow> unlink_exhausted A keys fills q nodes (forget own index);
     Some (trades, map order_id own, taker, q, nodes, index)
   }"

partial_function (option) fill_against ::
    "('s, 'k) store_ops \<Rightarrow> ('m, 'k) arena_ops \<Rightarrow> u128 \<Rightarrow> price option \<Rightarrow> order \<Rightarrow> ('s, 'm, 'k) order_book \<Rightarrow>
       (trade list \<times> exchange_id list \<times> order \<times> ('s, 'm, 'k) order_book) option" where
  "fill_against S A now limit taker b =
     (if qty_is_zero (remaining_quantity taker) then Some ([], [], taker, b)
      else do {
        best \<leftarrow> best_level_mut S (ob_store b) (opposite (order_side taker));
        (case best of
           None \<Rightarrow> Some ([], [], taker, b)
         | Some (level, put) \<Rightarrow>
             if \<not> crosses_limit (order_side taker) limit (bl_price level) then Some ([], [], taker, b)
             else do {
               (trades, cancelled, taker, q, nodes, index) \<leftarrow>
                 trade_level A (ob_matcher b) now level taker (ob_nodes b) (ob_index b);
               let b = b\<lparr>ob_store := put (level\<lparr>bl_queue := q\<rparr>), ob_nodes := nodes, ob_index := index\<rparr>;
               (if queue_is_empty q
                then do {
                  (dropped, s) \<leftarrow> remove_level S (ob_store b) (opposite (order_side taker)) (bl_price level);
                  (trades', cancelled', taker, b) \<leftarrow> fill_against S A now limit taker (b\<lparr>ob_store := s\<rparr>);
                  Some (trades @ trades', cancelled @ cancelled', taker, b)
                }
                else Some (trades, cancelled, taker, b))
             })
      })"

section \<open>The dry run of a fill-or-kill order\<close>

text \<open>The sum is a \<open>u64\<close> and wraps. The flag says that the needed quantity was reached.\<close>

fun fillable_orders :: "client_id \<Rightarrow> qty \<Rightarrow> order list \<Rightarrow> qty \<Rightarrow> qty \<times> bool" where
  "fillable_orders c needed [] available = (available, False)"
| "fillable_orders c needed (ord # os) available =
     (if client ord = c then fillable_orders c needed os available
      else
        let available = available + remaining_quantity ord
        in if needed \<le> available then (available, True)
           else fillable_orders c needed os available)"

fun fillable_levels ::
    "('m, 'k) arena_ops \<Rightarrow> 'm \<Rightarrow> order \<Rightarrow> price \<Rightarrow> 'k book_level list \<Rightarrow> qty \<Rightarrow> qty option" where
  "fillable_levels A nodes taker limit [] available = Some available"
| "fillable_levels A nodes taker limit (l # ls) available =
     (if \<not> crosses_limit (order_side taker) (Some limit) (bl_price l) then Some available
      else do {
        os \<leftarrow> queue_iter A (bl_queue l) nodes;
        (case fillable_orders (client taker) (remaining_quantity taker) os available of
           (available, reached) \<Rightarrow>
             if reached then Some available
             else fillable_levels A nodes taker limit ls available)
      })"

definition fillable_quantity ::
    "('s, 'k) store_ops \<Rightarrow> ('m, 'k) arena_ops \<Rightarrow> ('s, 'm, 'k) order_book \<Rightarrow> side \<Rightarrow> order \<Rightarrow> price \<Rightarrow> qty option" where
  "fillable_quantity S A b maker_side taker limit =
     fillable_levels A (ob_nodes b) taker limit (levels_of S (ob_store b) maker_side) 0"

section \<open>Order types\<close>

definition arrival_now :: "('s, 'm, 'k) order_book \<Rightarrow> u128" where
  "arrival_now b = ucast (next_arrival b)"

definition process_limit_order ::
    "('s, 'k) store_ops \<Rightarrow> ('m, 'k) arena_ops \<Rightarrow> ('s, 'm, 'k) order_book \<Rightarrow> order \<Rightarrow> price \<Rightarrow> time_in_force \<Rightarrow>
       ((order_book_error + matching_result) \<times> ('s, 'm, 'k) order_book) option" where
  "process_limit_order S A b ord limit tif = do {
     (trades, cancelled, ord, b) \<leftarrow> fill_against S A (arrival_now b) (Some limit) ord b;
     (if qty_is_zero (remaining_quantity ord)
      then Some (Inr \<lparr>result_trades = trades, result_cancelled = cancelled, result_outcome = Completed\<rparr>, b)
      else
        case tif of
          GTC \<Rightarrow> do {
            (added, b) \<leftarrow> add_order S A b ord;
            Some (case added of
                Inl e \<Rightarrow> Inl e
              | Inr _ \<Rightarrow> Inr \<lparr>result_trades = trades, result_cancelled = cancelled,
                  result_outcome = (if trades = [] then Rested else PartiallyFilledAndRested)\<rparr>, b)
          }
        | IOC \<Rightarrow>
            Some (Inr \<lparr>result_trades = trades, result_cancelled = cancelled, result_outcome = Killed\<rparr>, b)
        | FOK \<Rightarrow> Some (Inl Unsupported, b))
   }"

definition process_fok_limit_order ::
    "('s, 'k) store_ops \<Rightarrow> ('m, 'k) arena_ops \<Rightarrow> ('s, 'm, 'k) order_book \<Rightarrow> order \<Rightarrow> price \<Rightarrow>
       ((order_book_error + matching_result) \<times> ('s, 'm, 'k) order_book) option" where
  "process_fok_limit_order S A b ord limit = do {
     available \<leftarrow> fillable_quantity S A b (opposite (order_side ord)) ord limit;
     (if available < remaining_quantity ord
      then Some (Inr \<lparr>result_trades = [], result_cancelled = [], result_outcome = Killed\<rparr>, b)
      else do {
        (trades, cancelled, ord, b) \<leftarrow> fill_against S A (arrival_now b) (Some limit) ord b;
        Some (Inr \<lparr>result_trades = trades, result_cancelled = cancelled, result_outcome = Completed\<rparr>, b)
      })
   }"

definition process_market_order ::
    "('s, 'k) store_ops \<Rightarrow> ('m, 'k) arena_ops \<Rightarrow> ('s, 'm, 'k) order_book \<Rightarrow> order \<Rightarrow>
       ((order_book_error + matching_result) \<times> ('s, 'm, 'k) order_book) option" where
  "process_market_order S A b ord = do {
     (trades, cancelled, ord, b) \<leftarrow> fill_against S A (arrival_now b) None ord b;
     Some (Inr \<lparr>result_trades = trades, result_cancelled = cancelled,
       result_outcome = (if qty_is_zero (remaining_quantity ord) then Completed else Killed)\<rparr>, b)
   }"

section \<open>Stops\<close>

definition activate :: "order \<Rightarrow> order" where
  "activate ord =
     ord\<lparr>otype := (case otype ord of
         StopMarket trigger \<Rightarrow> Market
       | StopLimit trigger p tif \<Rightarrow> Limit p tif
       | other \<Rightarrow> other)\<rparr>"

definition already_triggered :: "price option \<Rightarrow> side \<Rightarrow> price \<Rightarrow> bool" where
  "already_triggered last_price sd trigger =
     (case last_price of
        None \<Rightarrow> False
      | Some p \<Rightarrow> (case sd of Bid \<Rightarrow> trigger \<le> p | Ask \<Rightarrow> p \<le> trigger))"

text \<open>The trigger signal is the price of the most recent trade; then the report is built.\<close>

definition finish_execution ::
    "exchange_id \<Rightarrow> (order_book_error + matching_result) \<times> ('s, 'm, 'k) order_book \<Rightarrow>
       (order_book_error + execution_report) \<times> ('s, 'm, 'k) order_book" where
  "finish_execution i res =
     (case res of
        (Inl e, b) \<Rightarrow> (Inl e, b)
      | (Inr r, b) \<Rightarrow>
          (Inr (ExecutionReport i (result_trades r) (result_outcome r) (result_cancelled r) []),
           if result_trades r = [] then b
           else b\<lparr>last_trade_price := Some (trade_price (last (result_trades r)))\<rparr>))"

definition park_stop ::
    "('s, 'm, 'k) order_book \<Rightarrow> order \<Rightarrow> price \<Rightarrow>
       (order_book_error + execution_report) \<times> ('s, 'm, 'k) order_book" where
  "park_stop b ord trigger =
     (case hm_get (ob_index b) (order_id ord) of
        Some _ \<Rightarrow> (Inl ExchangeIdDuplicated, b)
      | None \<Rightarrow>
          let queue = (case bt_get (stops_of b (order_side ord)) trigger of None \<Rightarrow> [] | Some q \<Rightarrow> q);
              b = b\<lparr>ob_index := hm_insert (order_id ord) (Stop_Address (order_side ord) trigger) (ob_index b)\<rparr>
          in (Inr (ExecutionReport (order_id ord) [] StopPending [] []),
              set_stops (order_side ord) (bt_put trigger (queue @ [ord]) (stops_of b (order_side ord))) b))"

definition is_stop :: "order \<Rightarrow> bool" where
  "is_stop ord \<longleftrightarrow> (case otype ord of StopMarket _ \<Rightarrow> True | StopLimit _ _ _ \<Rightarrow> True | _ \<Rightarrow> False)"

lemma not_stop_activate [simp]: "\<not> is_stop (activate ord)"
  by (simp add: is_stop_def activate_def split: order_type.splits)

text \<open>
  \<open>execute\<close> and \<open>park_or_activate_stop\<close> call each other, at most once: an activated order is no
  stop any more.
\<close>

function execute ::
    "('s, 'k) store_ops \<Rightarrow> ('m, 'k) arena_ops \<Rightarrow> ('s, 'm, 'k) order_book \<Rightarrow> order \<Rightarrow>
       ((order_book_error + execution_report) \<times> ('s, 'm, 'k) order_book) option"
  and park_or_activate_stop ::
    "('s, 'k) store_ops \<Rightarrow> ('m, 'k) arena_ops \<Rightarrow> ('s, 'm, 'k) order_book \<Rightarrow> order \<Rightarrow> price \<Rightarrow>
       ((order_book_error + execution_report) \<times> ('s, 'm, 'k) order_book) option" where
  "execute S A b ord =
     (case otype ord of
        Limit p tif \<Rightarrow>
          map_option (finish_execution (order_id ord))
            (case tif of
               FOK \<Rightarrow> process_fok_limit_order S A b ord p
             | _ \<Rightarrow> process_limit_order S A b ord p tif)
      | Market \<Rightarrow> map_option (finish_execution (order_id ord)) (process_market_order S A b ord)
      | StopMarket trigger \<Rightarrow> park_or_activate_stop S A b ord trigger
      | StopLimit trigger p tif \<Rightarrow> park_or_activate_stop S A b ord trigger)"
| "park_or_activate_stop S A b ord trigger =
     (if already_triggered (last_trade_price b) (order_side ord) trigger
      then execute S A b (activate ord)
      else Some (park_stop b ord trigger))"
  by pat_completeness auto

termination
  by (relation "measure (\<lambda>x. case x of
      Inl (S, A, b, ord) \<Rightarrow> if is_stop ord then 2 else 0
    | Inr (S, A, b, ord, trigger) \<Rightarrow> 1)")
    (auto simp: is_stop_def [of "_ :: order"] activate_def split: order_type.splits)

declare execute.simps [simp del] park_or_activate_stop.simps [simp del]

text \<open>
  The next pending stop the last trade price has reached: the lowest buy trigger first, then the
  highest sell trigger, first in first out within a trigger. Removing the head of an empty queue
  would panic.
\<close>

definition take_stop ::
    "('s, 'm, 'k) order_book \<Rightarrow> side \<Rightarrow> price \<Rightarrow> order list \<Rightarrow> (order option \<times> ('s, 'm, 'k) order_book) option" where
  "take_stop b sd trigger queue =
     (case queue of
        [] \<Rightarrow> None
      | ord # queue' \<Rightarrow>
          let b = set_stops sd
                (if queue' = [] then bt_remove trigger (stops_of b sd)
                 else bt_put trigger queue' (stops_of b sd)) b
          in Some (Some ord, b\<lparr>ob_index := hm_remove (order_id ord) (ob_index b)\<rparr>))"

definition pop_triggered_stop ::
    "('s, 'm, 'k) order_book \<Rightarrow> (order option \<times> ('s, 'm, 'k) order_book) option" where
  "pop_triggered_stop b =
     (case last_trade_price b of
        None \<Rightarrow> Some (None, b)
      | Some p \<Rightarrow>
          (case bt_first (stop_bids b) of
             Some (trigger, queue) \<Rightarrow>
               if trigger \<le> p then take_stop b Bid trigger queue
               else
                 (case bt_last (stop_asks b) of
                    Some (trigger, queue) \<Rightarrow> if p \<le> trigger then take_stop b Ask trigger queue else Some (None, b)
                  | None \<Rightarrow> Some (None, b))
           | None \<Rightarrow>
               (case bt_last (stop_asks b) of
                  Some (trigger, queue) \<Rightarrow> if p \<le> trigger then take_stop b Ask trigger queue else Some (None, b)
                | None \<Rightarrow> Some (None, b))))"

text \<open>The loop of \<open>submit\<close>: it ends with an error at the first activation that fails.\<close>

partial_function (option) cascade ::
    "('s, 'k) store_ops \<Rightarrow> ('m, 'k) arena_ops \<Rightarrow> ('s, 'm, 'k) order_book \<Rightarrow>
       ((order_book_error + execution_report list) \<times> ('s, 'm, 'k) order_book) option" where
  "cascade S A b = do {
     (popped, b) \<leftarrow> pop_triggered_stop b;
     (case popped of
        None \<Rightarrow> Some (Inr [], b)
      | Some stop \<Rightarrow> do {
          (res, b) \<leftarrow> execute S A b (activate stop);
          (case res of
             Inl e \<Rightarrow> Some (Inl e, b)
           | Inr report \<Rightarrow> do {
               (rest, b) \<leftarrow> cascade S A b;
               Some (map_sum id ((#) report) rest, b)
             })
        })
   }"

fun with_triggered :: "execution_report \<Rightarrow> execution_report list \<Rightarrow> execution_report" where
  "with_triggered (ExecutionReport i ts out cs tr) reports = ExecutionReport i ts out cs (tr @ reports)"

definition submit ::
    "('s, 'k) store_ops \<Rightarrow> ('m, 'k) arena_ops \<Rightarrow> ('s, 'm, 'k) order_book \<Rightarrow> order \<Rightarrow>
       ((order_book_error + execution_report) \<times> ('s, 'm, 'k) order_book) option" where
  "submit S A b ord =
     (case admit b ord of
        Inl e \<Rightarrow> Some (Inl e, b)
      | Inr _ \<Rightarrow> do {
          let i = from_sequence (next_seq b);
          (res, b) \<leftarrow> execute S A (b\<lparr>next_seq := next_seq b + 1\<rparr>) (ord\<lparr>order_id := i\<rparr>);
          (case res of
             Inl e \<Rightarrow> Some (Inl e, b)
           | Inr report \<Rightarrow> do {
               (triggered, b) \<leftarrow> cascade S A b;
               Some (map_sum id (with_triggered report) triggered, b)
             })
        })"

declare fill_against.simps [code] cascade.simps [code]

end
