(* ===== verification/Engine_Spec.thy ===== *)
theory Engine_Spec
  imports Matching
begin

text \<open>
  The abstract engine: what the book promises, with no store, no arena and no index. A side is the
  list of its levels, best price first, each with its orders in time priority; the stop book is
  kept as it is in the code. Every operation is a total function. \<open>Book_Refinement\<close>,
  \<open>Sweep_Refinement\<close> and \<open>Engine_Refinement\<close> show that the operations of \<open>Order_Book\<close> and \<open>Matching\<close>
  implement them on every backend.
\<close>

section \<open>The abstract book\<close>

type_synonym ladder = "(price \<times> order list) list"

record abs_book =
  ab_sides :: "side \<Rightarrow> ladder"
  ab_stops :: "side \<Rightarrow> ladder"
  ab_last :: "price option"
  ab_seq :: u64
  ab_arrival :: u32
  ab_spec :: instrument_spec
  ab_matcher :: matcher

definition ladder_orders :: "ladder \<Rightarrow> order list" where
  "ladder_orders L = concat (map snd L)"

definition ab_orders :: "abs_book \<Rightarrow> order list" where
  "ab_orders ab =
     ladder_orders (ab_sides ab Bid) @ ladder_orders (ab_sides ab Ask) @
     ladder_orders (ab_stops ab Bid) @ ladder_orders (ab_stops ab Ask)"

definition is_live :: "abs_book \<Rightarrow> exchange_id \<Rightarrow> bool" where
  "is_live ab i \<longleftrightarrow> i \<in> order_id ` set (ab_orders ab)"

section \<open>Resting and cancelling\<close>

fun rest_at :: "side \<Rightarrow> price \<Rightarrow> order \<Rightarrow> ladder \<Rightarrow> ladder" where
  "rest_at sd p ord [] = [(p, [ord])]"
| "rest_at sd p ord ((p', os) # L) =
     (if p = p' then (p', os @ [ord]) # L
      else if better sd p p' then (p, [ord]) # (p', os) # L
      else (p', os) # rest_at sd p ord L)"

definition spec_add :: "abs_book \<Rightarrow> order \<Rightarrow> (order_book_error + unit) \<times> abs_book" where
  "spec_add ab ord =
     (case otype ord of
        Limit p tif \<Rightarrow>
          (case admit_under (ab_spec ab) ord of
             Inl e \<Rightarrow> (Inl e, ab)
           | Inr _ \<Rightarrow>
               if is_live ab (order_id ord) then (Inl ExchangeIdDuplicated, ab)
               else (Inr (), ab\<lparr>
                 ab_sides := (ab_sides ab)(order_side ord :=
                   rest_at (order_side ord) p (ord\<lparr>arrival := ab_arrival ab\<rparr>)
                     (ab_sides ab (order_side ord))),
                 ab_arrival := ab_arrival ab + 1\<rparr>))
      | _ \<Rightarrow> (Inl NotRestable, ab))"

definition drop_orders :: "(order \<Rightarrow> bool) \<Rightarrow> ladder \<Rightarrow> ladder" where
  "drop_orders P L = filter (\<lambda>l. snd l \<noteq> []) (map (\<lambda>(p, os). (p, filter (\<lambda>ord. \<not> P ord) os)) L)"

definition spec_cancel :: "abs_book \<Rightarrow> exchange_id \<Rightarrow> (order_book_error + unit) \<times> abs_book" where
  "spec_cancel ab i =
     (if is_live ab i
      then (Inr (), ab\<lparr>ab_sides := (\<lambda>sd. drop_orders (\<lambda>ord. order_id ord = i) (ab_sides ab sd)),
        ab_stops := (\<lambda>sd. drop_orders (\<lambda>ord. order_id ord = i) (ab_stops ab sd))\<rparr>)
      else (Inl OrderNotFound, ab))"

section \<open>The sweep\<close>

text \<open>The fills of one level: trades, the makers after them, the taker after them.\<close>

fun fill_orders :: "price \<Rightarrow> fill list \<Rightarrow> order list \<Rightarrow> order \<Rightarrow> trade list \<times> order list \<times> order" where
  "fill_orders p [] os tk = ([], os, tk)"
| "fill_orders p (f # fs) os tk =
     (let mk = os ! order_index f;
          (ts, os', tk') = fill_orders p fs (os[order_index f := reduce mk (fill_quantity f)])
            (reduce tk (fill_quantity f))
      in (trade_of p (fill_quantity f) mk tk # ts, os', tk'))"

definition spec_level ::
    "matcher \<Rightarrow> u128 \<Rightarrow> price \<Rightarrow> order list \<Rightarrow> order \<Rightarrow> trade list \<times> exchange_id list \<times> order \<times> order list" where
  "spec_level mtch now p os tk =
     (let own = filter (\<lambda>ord. client ord = client tk) os;
          others = filter (\<lambda>ord. client ord \<noteq> client tk) os;
          (ts, os', tk') = fill_orders p (allocate mtch (remaining_quantity tk) (map maker_of others) now) others tk
      in (ts, map order_id own, tk', filter (\<lambda>ord. remaining_quantity ord \<noteq> 0) os'))"

fun spec_sweep ::
    "matcher \<Rightarrow> u128 \<Rightarrow> price option \<Rightarrow> ladder \<Rightarrow> order \<Rightarrow> trade list \<times> exchange_id list \<times> order \<times> ladder" where
  "spec_sweep mtch now limit [] tk = ([], [], tk, [])"
| "spec_sweep mtch now limit ((p, os) # L) tk =
     (if remaining_quantity tk = 0 \<or> \<not> crosses_limit (order_side tk) limit p
      then ([], [], tk, (p, os) # L)
      else
        let (ts, cs, tk', os') = spec_level mtch now p os tk
        in if os' = []
           then let (ts', cs', tk'', L') = spec_sweep mtch now limit L tk' in (ts @ ts', cs @ cs', tk'', L')
           else (ts, cs, tk', (p, os') # L))"

definition spec_fill ::
    "abs_book \<Rightarrow> price option \<Rightarrow> order \<Rightarrow> trade list \<times> exchange_id list \<times> order \<times> abs_book" where
  "spec_fill ab limit tk =
     (let msd = opposite (order_side tk);
          (ts, cs, tk', L) = spec_sweep (ab_matcher ab) (ucast (ab_arrival ab)) limit (ab_sides ab msd) tk
      in (ts, cs, tk', ab\<lparr>ab_sides := (ab_sides ab)(msd := L)\<rparr>))"

section \<open>Order types\<close>

type_synonym spec_result = "(order_book_error + matching_result) \<times> abs_book"
type_synonym spec_report = "(order_book_error + execution_report) \<times> abs_book"

definition spec_limit :: "abs_book \<Rightarrow> order \<Rightarrow> price \<Rightarrow> time_in_force \<Rightarrow> spec_result" where
  "spec_limit ab ord p tif =
     (let (ts, cs, ord, ab) = spec_fill ab (Some p) ord
      in if remaining_quantity ord = 0
         then (Inr \<lparr>result_trades = ts, result_cancelled = cs, result_outcome = Completed\<rparr>, ab)
         else
           (case tif of
              GTC \<Rightarrow>
                (let (added, ab) = spec_add ab ord
                 in (case added of
                       Inl e \<Rightarrow> Inl e
                     | Inr _ \<Rightarrow> Inr \<lparr>result_trades = ts, result_cancelled = cs,
                         result_outcome = (if ts = [] then Rested else PartiallyFilledAndRested)\<rparr>, ab))
            | IOC \<Rightarrow> (Inr \<lparr>result_trades = ts, result_cancelled = cs, result_outcome = Killed\<rparr>, ab)
            | FOK \<Rightarrow> (Inl Unsupported, ab)))"

fun spec_fillable :: "order \<Rightarrow> price \<Rightarrow> ladder \<Rightarrow> qty \<Rightarrow> qty" where
  "spec_fillable tk limit [] available = available"
| "spec_fillable tk limit ((p, os) # L) available =
     (if \<not> crosses_limit (order_side tk) (Some limit) p then available
      else
        (case fillable_orders (client tk) (remaining_quantity tk) os available of
           (available, reached) \<Rightarrow>
             if reached then available else spec_fillable tk limit L available))"

definition spec_fok :: "abs_book \<Rightarrow> order \<Rightarrow> price \<Rightarrow> spec_result" where
  "spec_fok ab ord p =
     (if spec_fillable ord p (ab_sides ab (opposite (order_side ord))) 0 < remaining_quantity ord
      then (Inr \<lparr>result_trades = [], result_cancelled = [], result_outcome = Killed\<rparr>, ab)
      else
        let (ts, cs, ord, ab) = spec_fill ab (Some p) ord
        in (Inr \<lparr>result_trades = ts, result_cancelled = cs, result_outcome = Completed\<rparr>, ab))"

definition spec_market :: "abs_book \<Rightarrow> order \<Rightarrow> spec_result" where
  "spec_market ab ord =
     (let (ts, cs, ord, ab) = spec_fill ab None ord
      in (Inr \<lparr>result_trades = ts, result_cancelled = cs,
            result_outcome = (if remaining_quantity ord = 0 then Completed else Killed)\<rparr>, ab))"

definition spec_finish :: "exchange_id \<Rightarrow> spec_result \<Rightarrow> spec_report" where
  "spec_finish i res =
     (case res of
        (Inl e, ab) \<Rightarrow> (Inl e, ab)
      | (Inr r, ab) \<Rightarrow>
          (Inr (ExecutionReport i (result_trades r) (result_outcome r) (result_cancelled r) []),
           if result_trades r = [] then ab
           else ab\<lparr>ab_last := Some (trade_price (last (result_trades r)))\<rparr>))"

text \<open>An order that is no stop.\<close>

definition spec_run :: "abs_book \<Rightarrow> order \<Rightarrow> spec_report" where
  "spec_run ab ord = spec_finish (order_id ord)
     (case otype ord of
        Limit p tif \<Rightarrow> if tif = FOK then spec_fok ab ord p else spec_limit ab ord p tif
      | _ \<Rightarrow> spec_market ab ord)"

section \<open>Stops\<close>

fun trigger_of :: "order_type \<Rightarrow> price option" where
  "trigger_of (StopMarket trigger) = Some trigger"
| "trigger_of (StopLimit trigger p tif) = Some trigger"
| "trigger_of (Limit p tif) = None"
| "trigger_of Market = None"

definition spec_park :: "abs_book \<Rightarrow> order \<Rightarrow> price \<Rightarrow> spec_report" where
  "spec_park ab ord trigger =
     (if is_live ab (order_id ord) then (Inl ExchangeIdDuplicated, ab)
      else
        (Inr (ExecutionReport (order_id ord) [] StopPending [] []),
         ab\<lparr>ab_stops := (ab_stops ab)(order_side ord :=
           bt_put trigger
             ((case bt_get (ab_stops ab (order_side ord)) trigger of None \<Rightarrow> [] | Some q \<Rightarrow> q) @ [ord])
             (ab_stops ab (order_side ord)))\<rparr>))"

definition spec_execute :: "abs_book \<Rightarrow> order \<Rightarrow> spec_report" where
  "spec_execute ab ord =
     (case trigger_of (otype ord) of
        None \<Rightarrow> spec_run ab ord
      | Some trigger \<Rightarrow>
          if already_triggered (ab_last ab) (order_side ord) trigger then spec_run ab (activate ord)
          else spec_park ab ord trigger)"

text \<open>
  The stops of a side, the nearest to firing first: buy stops from the lowest trigger, sell stops
  from the highest. The next stop due is the head of the first queue the last price has reached.
\<close>

definition nearest :: "side \<Rightarrow> ladder \<Rightarrow> ladder" where
  "nearest sd L = (case sd of Bid \<Rightarrow> L | Ask \<Rightarrow> rev L)"

definition stop_due :: "abs_book \<Rightarrow> side \<Rightarrow> order option" where
  "stop_due ab sd =
     (case nearest sd (ab_stops ab sd) of
        (trigger, ord # q) # L \<Rightarrow> if already_triggered (ab_last ab) sd trigger then Some ord else None
      | _ \<Rightarrow> None)"

fun take_front :: "ladder \<Rightarrow> ladder" where
  "take_front ((trigger, ord # q) # L) = (if q = [] then L else (trigger, q) # L)"
| "take_front L = L"

definition spec_take :: "abs_book \<Rightarrow> side \<Rightarrow> abs_book" where
  "spec_take ab sd = ab\<lparr>ab_stops := (ab_stops ab)(sd := nearest sd (take_front (nearest sd (ab_stops ab sd))))\<rparr>"

definition spec_pop :: "abs_book \<Rightarrow> (order \<times> abs_book) option" where
  "spec_pop ab =
     (case stop_due ab Bid of
        Some ord \<Rightarrow> Some (ord, spec_take ab Bid)
      | None \<Rightarrow> map_option (\<lambda>ord. (ord, spec_take ab Ask)) (stop_due ab Ask))"

lemma spec_fill_cases:
  obtains ts cs tk' L where "spec_fill ab limit tk =
    (ts, cs, tk', ab\<lparr>ab_sides := (ab_sides ab)(opposite (order_side tk) := L)\<rparr>)"
    and "spec_sweep (ab_matcher ab) (ucast (ab_arrival ab)) limit (ab_sides ab (opposite (order_side tk))) tk =
      (ts, cs, tk', L)"
  by (cases "spec_sweep (ab_matcher ab) (ucast (ab_arrival ab)) limit (ab_sides ab (opposite (order_side tk))) tk")
    (simp add: spec_fill_def)

lemma ab_stops_spec_add [simp]: "ab_stops (snd (spec_add ab ord)) = ab_stops ab"
  by (simp add: spec_add_def split: order_type.split sum.split)

lemma ab_stops_spec_limit [simp]: "ab_stops (snd (spec_limit ab ord p tif)) = ab_stops ab"
  by (rule spec_fill_cases [of ab "Some p" ord])
    (simp add: spec_limit_def Let_def split_beta split: time_in_force.split)

lemma ab_stops_spec_fok [simp]: "ab_stops (snd (spec_fok ab ord p)) = ab_stops ab"
  by (rule spec_fill_cases [of ab "Some p" ord]) (simp add: spec_fok_def Let_def)

lemma ab_stops_spec_market [simp]: "ab_stops (snd (spec_market ab ord)) = ab_stops ab"
  by (rule spec_fill_cases [of ab None ord]) (simp add: spec_market_def Let_def)

lemma ab_stops_spec_finish [simp]: "ab_stops (snd (spec_finish i res)) = ab_stops (snd res)"
  by (simp add: spec_finish_def split_beta split: sum.split)

lemma ab_stops_spec_run [simp]: "ab_stops (snd (spec_run ab ord)) = ab_stops ab"
  by (simp add: spec_run_def split: order_type.split)

text \<open>Every activation takes one stop out for good, and none adds one.\<close>

definition stop_count :: "abs_book \<Rightarrow> nat" where
  "stop_count ab = length (ladder_orders (ab_stops ab Bid)) + length (ladder_orders (ab_stops ab Ask))"

lemma ladder_orders_simps [simp]:
  "ladder_orders [] = []"
  "ladder_orders ((p, os) # L) = os @ ladder_orders L"
  "ladder_orders (L @ L') = ladder_orders L @ ladder_orders L'"
  by (simp_all add: ladder_orders_def)

lemma nearest_nearest [simp]: "nearest sd (nearest sd L) = L"
  by (cases sd) (simp_all add: nearest_def)

lemma length_nearest [simp]: "length (ladder_orders (nearest sd L)) = length (ladder_orders L)"
  by (cases sd) (simp_all add: nearest_def ladder_orders_def length_concat rev_map [symmetric])

lemma stop_due_cases:
  assumes "stop_due ab sd = Some ord"
  obtains trigger q L where "nearest sd (ab_stops ab sd) = (trigger, ord # q) # L"
    and "already_triggered (ab_last ab) sd trigger"
    and "take_front (nearest sd (ab_stops ab sd)) = (if q = [] then L else (trigger, q) # L)"
  using assms by (auto simp: stop_due_def split: list.splits prod.splits if_splits)

lemma stop_count_take:
  assumes "stop_due ab sd = Some ord"
  shows "Suc (stop_count (spec_take ab sd)) = stop_count ab"
proof (rule stop_due_cases [OF assms])
  fix trigger q L
  assume near: "nearest sd (ab_stops ab sd) = (trigger, ord # q) # L"
    and front: "take_front (nearest sd (ab_stops ab sd)) = (if q = [] then L else (trigger, q) # L)"
  have "length (ladder_orders (ab_stops (spec_take ab sd) sd)) + 1 = length (ladder_orders (nearest sd (ab_stops ab sd)))"
    unfolding near by (simp add: spec_take_def front [unfolded near] near)
  moreover have "ab_stops (spec_take ab sd) sd' = ab_stops ab sd'" if "sd' \<noteq> sd" for sd'
    using that by (simp add: spec_take_def)
  ultimately show ?thesis by (cases sd) (simp_all add: stop_count_def)
qed

lemma stop_count_pop: "spec_pop ab = Some (ord, ab') \<Longrightarrow> Suc (stop_count ab') = stop_count ab"
  by (auto simp: spec_pop_def stop_count_take split: option.splits)

lemma stop_count_run [simp]: "stop_count (snd (spec_run ab ord)) = stop_count ab"
  by (simp add: stop_count_def)

function spec_cascade :: "abs_book \<Rightarrow> (order_book_error + execution_report list) \<times> abs_book" where
  "spec_cascade ab =
     (case spec_pop ab of
        None \<Rightarrow> (Inr [], ab)
      | Some (stop, ab) \<Rightarrow>
          (case spec_run ab (activate stop) of
             (Inl e, ab) \<Rightarrow> (Inl e, ab)
           | (Inr report, ab) \<Rightarrow> (case spec_cascade ab of (rest, ab) \<Rightarrow> (map_sum id ((#) report) rest, ab))))"
  by pat_completeness auto

termination
  by (relation "measure stop_count") (simp_all, metis stop_count_pop stop_count_run snd_conv lessI)

declare spec_cascade.simps [simp del]

definition spec_submit :: "abs_book \<Rightarrow> order \<Rightarrow> spec_report" where
  "spec_submit ab ord =
     (case admit_under (ab_spec ab) ord of
        Inl e \<Rightarrow> (Inl e, ab)
      | Inr _ \<Rightarrow>
          (case spec_execute (ab\<lparr>ab_seq := ab_seq ab + 1\<rparr>) (ord\<lparr>order_id := from_sequence (ab_seq ab)\<rparr>) of
             (Inl e, ab) \<Rightarrow> (Inl e, ab)
           | (Inr report, ab) \<Rightarrow>
               (case spec_cascade ab of (triggered, ab) \<Rightarrow> (map_sum id (with_triggered report) triggered, ab))))"

end
