(* ===== verification/Book_Invariant.thy ===== *)
theory Book_Invariant
  imports Engine_Spec Queue_Facts
begin

text \<open>
  The invariant of the book and its abstraction. The invariant names, for each side and price, the
  keys of the level's queue, oldest first (\<open>K\<close>). Store, arena, index and stop book must agree on
  them. The abstraction reads the levels of the store through the arena.
\<close>

section \<open>Orders on the lattice\<close>

text \<open>
  What the engine relies on in an order beyond admission: something left to trade, in whole lots,
  and a limit on a tick. The code takes it from the construction of \<open>Price\<close> and \<open>Qty\<close>.
\<close>

definition tradable :: "instrument_spec \<Rightarrow> order \<Rightarrow> bool" where
  "tradable spec ord \<longleftrightarrow>
     remaining_quantity ord \<noteq> 0 \<and> is_multiple_of (base (remaining_quantity ord)) (lot_size spec)"

definition on_lattice :: "instrument_spec \<Rightarrow> order \<Rightarrow> bool" where
  "on_lattice spec ord \<longleftrightarrow> tradable spec ord \<and>
     (case limit_price (otype ord) of None \<Rightarrow> True | Some p \<Rightarrow> is_multiple_of (minor p) (tick_size spec))"

lemma ex_side: "(\<exists>sd. P sd) \<longleftrightarrow> P Bid \<or> P Ask"
  by (metis side.exhaust)

lemma all_side: "(\<forall>sd. P sd) \<longleftrightarrow> P Bid \<and> P Ask"
  by (metis side.exhaust)

section \<open>The parts of the invariant\<close>

type_synonym 'k level_keys = "side \<Rightarrow> price \<Rightarrow> 'k list"

definition set_keys :: "'k level_keys \<Rightarrow> side \<Rightarrow> price \<Rightarrow> 'k list \<Rightarrow> 'k level_keys" where
  "set_keys K sd p ks = K(sd := (K sd)(p := ks))"

lemma set_keys_apply: "set_keys K sd p ks sd' p' = (if sd' = sd \<and> p' = p then ks else K sd' p')"
  by (simp add: set_keys_def)

definition keys_of :: "'k level_keys \<Rightarrow> 'k set" where
  "keys_of K = (\<Union>sd p. set (K sd p))"

lemma keys_ofI: "k \<in> set (K sd p) \<Longrightarrow> k \<in> keys_of K"
  by (auto simp: keys_of_def)

text \<open>A level exists exactly where keys are, and its queue threads them.\<close>

definition levels_rel ::
    "('s, 'k) store_ops \<Rightarrow> 's \<Rightarrow> ('k \<Rightarrow> 'k node option) \<Rightarrow> 'k level_keys \<Rightarrow> bool" where
  "levels_rel S s L K \<longleftrightarrow>
     (\<forall>sd p. case lookup_level S s sd p of
        None \<Rightarrow> K sd p = []
      | Some l \<Rightarrow> K sd p \<noteq> [] \<and> queue_ok L (bl_queue l) (K sd p))"

text \<open>The live orders lie on their level, tradable, in the order of their arrival.\<close>

definition resting :: "instrument_spec \<Rightarrow> u32 \<Rightarrow> side \<Rightarrow> price \<Rightarrow> order \<Rightarrow> bool" where
  "resting spec following sd p ord \<longleftrightarrow>
     order_side ord = sd \<and> (\<exists>tif. otype ord = Limit p tif) \<and> tradable spec ord \<and>
     0 < arrival ord \<and> arrival ord < following"

definition orders_rel ::
    "instrument_spec \<Rightarrow> u32 \<Rightarrow> ('k \<Rightarrow> order option) \<Rightarrow> 'k level_keys \<Rightarrow> bool" where
  "orders_rel spec following orders K \<longleftrightarrow> 0 < following \<and>
     dom orders = keys_of K \<and>
     (\<forall>sd p. \<forall>k\<in>set (K sd p). resting spec following sd p (the (orders k))) \<and>
     (\<forall>sd p. sorted_wrt (<) (map (\<lambda>k. arrival (the (orders k))) (K sd p))) \<and>
     inj_on (\<lambda>k. arrival (the (orders k))) (keys_of K)"

lemma orders_relD:
  assumes "orders_rel spec following orders K"
  shows "0 < following" and "dom orders = keys_of K"
    and "k \<in> set (K sd p) \<Longrightarrow> resting spec following sd p (the (orders k))"
    and "sorted_wrt (<) (map (\<lambda>k. arrival (the (orders k))) (K sd p))"
    and "inj_on (\<lambda>k. arrival (the (orders k))) (keys_of K)"
  using assms by (simp_all add: orders_rel_def)

lemma dom_order_at [simp]: "dom (order_at L) = dom L"
  by (auto simp: dom_def)

text \<open>The stop book: no empty queue, every order under its trigger, admitted already.\<close>

definition parked :: "instrument_spec \<Rightarrow> side \<Rightarrow> price \<Rightarrow> order \<Rightarrow> bool" where
  "parked spec sd trigger ord \<longleftrightarrow>
     order_side ord = sd \<and> trigger_of (otype ord) = Some trigger \<and> on_lattice spec ord \<and>
     admit_under spec ord = Inr ()"

definition stop_queue_ok :: "instrument_spec \<Rightarrow> side \<Rightarrow> price \<Rightarrow> order list \<Rightarrow> bool" where
  "stop_queue_ok spec sd trigger q \<longleftrightarrow>
     q \<noteq> [] \<and> distinct (map order_id q) \<and> (\<forall>ord\<in>set q. parked spec sd trigger ord)"

definition stops_rel :: "instrument_spec \<Rightarrow> (side \<Rightarrow> ladder) \<Rightarrow> bool" where
  "stops_rel spec stops \<longleftrightarrow>
     (\<forall>sd. bt_ok (stops sd) \<and> (\<forall>l\<in>set (stops sd). stop_queue_ok spec sd (fst l) (snd l)))"

lemma stop_queue_ok_filter:
  "stop_queue_ok spec sd trigger q \<Longrightarrow> filter P q \<noteq> [] \<Longrightarrow> stop_queue_ok spec sd trigger (filter P q)"
  by (auto simp: stop_queue_ok_def distinct_map_filter)

lemma stops_relD:
  assumes "stops_rel spec stops"
  shows "bt_ok (stops sd)"
    and "(t, q) \<in> set (stops sd) \<Longrightarrow> stop_queue_ok spec sd t q"
    and "(t, q) \<in> set (stops sd) \<Longrightarrow> q \<noteq> []"
    and "(t, q) \<in> set (stops sd) \<Longrightarrow> distinct (map order_id q)"
    and "(t, q) \<in> set (stops sd) \<Longrightarrow> ord \<in> set q \<Longrightarrow> parked spec sd t ord"
proof -
  have "\<forall>l\<in>set (stops sd). stop_queue_ok spec sd (fst l) (snd l)"
    using assms by (simp add: stops_rel_def)
  then show queue: "(t, q) \<in> set (stops sd) \<Longrightarrow> stop_queue_ok spec sd t q" by fastforce
  show "bt_ok (stops sd)" using assms by (simp add: stops_rel_def)
  show "(t, q) \<in> set (stops sd) \<Longrightarrow> q \<noteq> []"
    and "(t, q) \<in> set (stops sd) \<Longrightarrow> distinct (map order_id q)"
    and "(t, q) \<in> set (stops sd) \<Longrightarrow> ord \<in> set q \<Longrightarrow> parked spec sd t ord"
    using queue by (simp_all add: stop_queue_ok_def)
qed

text \<open>The index holds the address of every live order and pending stop, and nothing else.\<close>

fun addressed ::
    "('k \<Rightarrow> order option) \<Rightarrow> 'k level_keys \<Rightarrow> (side \<Rightarrow> ladder) \<Rightarrow> exchange_id \<Rightarrow> 'k order_address \<Rightarrow> bool" where
  "addressed orders K stops i (Book_Address sd p k) \<longleftrightarrow>
     k \<in> set (K sd p) \<and> order_id (the (orders k)) = i"
| "addressed orders K stops i (Stop_Address sd trigger) \<longleftrightarrow>
     (\<exists>q. bt_get (stops sd) trigger = Some q \<and> i \<in> order_id ` set q)"

definition index_rel ::
    "(exchange_id, 'k order_address) hash_map \<Rightarrow> ('k \<Rightarrow> order option) \<Rightarrow> 'k level_keys \<Rightarrow>
       (side \<Rightarrow> ladder) \<Rightarrow> bool" where
  "index_rel index orders K stops \<longleftrightarrow>
     hm_ok index \<and> (\<forall>i a. hm_get index i = Some a \<longleftrightarrow> addressed orders K stops i a)"

text \<open>The fixed part: the instrument, the policy, and a store that can hold the instrument's grid.\<close>

definition config_ok ::
    "('s \<Rightarrow> bool) \<Rightarrow> ('s \<Rightarrow> price \<Rightarrow> bool) \<Rightarrow> 's \<Rightarrow> instrument_spec \<Rightarrow> matcher \<Rightarrow> bool" where
  "config_ok ok covers s spec mtch \<longleftrightarrow>
     ok s \<and> lot_size spec \<noteq> 0 \<and> matching_algorithm mtch (lot_size spec) \<and>
     (\<forall>p. admits_price spec p = Inr () \<longrightarrow> is_multiple_of (minor p) (tick_size spec) \<longrightarrow> covers s p)"

definition book_rel ::
    "('s, 'k) store_ops \<Rightarrow> ('s \<Rightarrow> bool) \<Rightarrow> ('s \<Rightarrow> price \<Rightarrow> bool) \<Rightarrow> ('m, 'k) arena_ops \<Rightarrow>
       ('s, 'm, 'k) order_book \<Rightarrow> 'k level_keys \<Rightarrow> bool" where
  "book_rel S ok covers A b K \<longleftrightarrow>
     config_ok ok covers (ob_store b) (ob_spec b) (ob_matcher b) \<and>
     levels_rel S (ob_store b) (arena_get A (ob_nodes b)) K \<and>
     orders_rel (ob_spec b) (next_arrival b) (order_at (arena_get A (ob_nodes b))) K \<and>
     stops_rel (ob_spec b) (stops_of b) \<and>
     index_rel (ob_index b) (order_at (arena_get A (ob_nodes b))) K (stops_of b)"

definition book_ok ::
    "('s, 'k) store_ops \<Rightarrow> ('s \<Rightarrow> bool) \<Rightarrow> ('s \<Rightarrow> price \<Rightarrow> bool) \<Rightarrow> ('m, 'k) arena_ops \<Rightarrow>
       ('s, 'm, 'k) order_book \<Rightarrow> bool" where
  "book_ok S ok covers A b \<longleftrightarrow> (\<exists>K. book_rel S ok covers A b K)"

section \<open>The abstraction\<close>

definition ladder_of ::
    "('s, 'k) store_ops \<Rightarrow> ('m, 'k) arena_ops \<Rightarrow> ('s, 'm, 'k) order_book \<Rightarrow> side \<Rightarrow> ladder" where
  "ladder_of S A b sd =
     map (\<lambda>l. (bl_price l, the (queue_iter A (bl_queue l) (ob_nodes b)))) (levels_of S (ob_store b) sd)"

definition abs_of ::
    "('s, 'k) store_ops \<Rightarrow> ('m, 'k) arena_ops \<Rightarrow> ('s, 'm, 'k) order_book \<Rightarrow> abs_book" where
  "abs_of S A b =
     \<lparr>ab_sides = ladder_of S A b, ab_stops = stops_of b, ab_last = last_trade_price b,
      ab_seq = next_seq b, ab_arrival = next_arrival b, ab_spec = ob_spec b, ab_matcher = ob_matcher b\<rparr>"

text \<open>Ladders: best price first; determined by what they hold at each price.\<close>

definition ladder_sorted :: "side \<Rightarrow> ladder \<Rightarrow> bool" where
  "ladder_sorted sd L \<longleftrightarrow> sorted_wrt (better sd) (map fst L)"

lemma ladder_sorted_simps [simp]:
  "ladder_sorted sd []"
  "ladder_sorted sd ((p, os) # L) \<longleftrightarrow> (\<forall>l\<in>set L. better sd p (fst l)) \<and> ladder_sorted sd L"
  by (auto simp: ladder_sorted_def)

lemma ladder_sorted_distinct: "ladder_sorted sd L \<Longrightarrow> distinct (map fst L)"
  unfolding ladder_sorted_def using better_asym by (blast intro: sorted_wrt_distinct)

lemma ladder_eqI:
  assumes "ladder_sorted sd L" and "ladder_sorted sd L'" and "map_of L = map_of L'"
  shows "L = L'"
proof (rule sorted_wrt_unique [of "\<lambda>x y. better sd (fst x) (fst y)"])
  show "set L = set L'"
    using assms ladder_sorted_distinct by (metis map_of_eqI map_of_inject_set)
qed (use assms better_asym in \<open>auto simp: ladder_sorted_def sorted_wrt_map\<close>)

text \<open>The orders of a level, as the abstraction shows them.\<close>

definition level_at :: "('k \<Rightarrow> order option) \<Rightarrow> 'k list \<Rightarrow> order list option" where
  "level_at orders ks = (if ks = [] then None else Some (map (\<lambda>k. the (orders k)) ks))"

lemma levels_relD:
  assumes "levels_rel S s L K"
  shows "lookup_level S s sd p = None \<longleftrightarrow> K sd p = []"
    and "lookup_level S s sd p = Some l \<Longrightarrow> queue_ok L (bl_queue l) (K sd p)"
proof -
  have spec: "case lookup_level S s sd p of
      None \<Rightarrow> K sd p = [] | Some l \<Rightarrow> K sd p \<noteq> [] \<and> queue_ok L (bl_queue l) (K sd p)"
    using assms by (simp add: levels_rel_def)
  then show "lookup_level S s sd p = None \<longleftrightarrow> K sd p = []" by (auto split: option.splits)
  show "lookup_level S s sd p = Some l \<Longrightarrow> queue_ok L (bl_queue l) (K sd p)" using spec by simp
qed

section \<open>The engine's interface to its backends\<close>

locale book_engine = order_book_store S ok covers
  for S :: "('s, 'k) store_ops" and ok :: "'s \<Rightarrow> bool" and covers :: "'s \<Rightarrow> price \<Rightarrow> bool" +
  fixes A :: "('m, 'k) arena_ops"
  assumes arena: "arena_laws A"
begin

lemma ladder_spec:
  assumes "ok (ob_store b)" and "levels_rel S (ob_store b) (arena_get A (ob_nodes b)) K"
  shows "ladder_sorted sd (ladder_of S A b sd)"
    and "map_of (ladder_of S A b sd) p = level_at (order_at (arena_get A (ob_nodes b))) (K sd p)"
proof -
  let ?L = "arena_get A (ob_nodes b)"
  show sorted: "ladder_sorted sd (ladder_of S A b sd)"
    using levels_sorted [OF assms(1), of sd] by (simp add: ladder_sorted_def ladder_of_def comp_def)
  show "map_of (ladder_of S A b sd) p = level_at (order_at ?L) (K sd p)"
  proof (cases "lookup_level S (ob_store b) sd p")
    case None
    then have "p \<notin> fst ` set (ladder_of S A b sd)"
      using levels_mem [OF assms(1)] by (auto simp: ladder_of_def)
    then show ?thesis
      using None levels_relD(1) [OF assms(2)] by (simp add: level_at_def map_of_eq_None_iff)
  next
    case (Some l)
    then have l: "bl_price l = p" "l \<in> set (levels_of S (ob_store b) sd)"
      using level_wf [OF assms(1)] levels_mem [OF assms(1)] by auto
    have "queue_iter A (bl_queue l) (ob_nodes b) = Some (orders_at ?L (K sd p))"
      by (rule queue_iter_spec [OF levels_relD(2) [OF assms(2) Some]])
    then have "(p, orders_at ?L (K sd p)) \<in> set (ladder_of S A b sd)"
      using l by (auto simp: ladder_of_def image_iff intro!: bexI [of _ l])
    then show ?thesis
      using ladder_sorted_distinct [OF sorted] Some levels_relD(1) [OF assms(2), of sd p]
      by (simp add: level_at_def)
  qed
qed

lemma ladder_unique:
  assumes "ok (ob_store b)" and "levels_rel S (ob_store b) (arena_get A (ob_nodes b)) K"
    and "ladder_sorted sd L"
    and "\<And>p. map_of L p = level_at (order_at (arena_get A (ob_nodes b))) (K sd p)"
  shows "ladder_of S A b sd = L"
  using ladder_eqI [of sd "ladder_of S A b sd" L] ladder_spec [OF assms(1,2)] assms(3,4)
  by (simp add: fun_eq_iff)

lemma ladder_cong:
  assumes "ok (ob_store b)" and "levels_rel S (ob_store b) (arena_get A (ob_nodes b)) K"
    and "ok (ob_store b')" and "levels_rel S (ob_store b') (arena_get A (ob_nodes b')) K'"
    and "K' sd = K sd" and "\<And>p k. k \<in> set (K sd p) \<Longrightarrow>
      order_at (arena_get A (ob_nodes b')) k = order_at (arena_get A (ob_nodes b)) k"
  shows "ladder_of S A b' sd = ladder_of S A b sd"
proof (rule ladder_unique [OF assms(3,4)])
  show "ladder_sorted sd (ladder_of S A b sd)" by (rule ladder_spec(1) [OF assms(1,2)])
  show "map_of (ladder_of S A b sd) p = level_at (order_at (arena_get A (ob_nodes b'))) (K' sd p)" for p
    using assms(5,6) ladder_spec(2) [OF assms(1,2)] by (simp add: level_at_def)
qed

lemma ladder_nonempty:
  assumes "ok (ob_store b)" and "levels_rel S (ob_store b) (arena_get A (ob_nodes b)) K"
    and "(p, os) \<in> set (ladder_of S A b sd)"
  shows "os = orders_at (arena_get A (ob_nodes b)) (K sd p)" and "K sd p \<noteq> []"
proof -
  have "map_of (ladder_of S A b sd) p = Some os"
    using assms(3) ladder_sorted_distinct [OF ladder_spec(1) [OF assms(1,2)]] by simp
  then show "os = orders_at (arena_get A (ob_nodes b)) (K sd p)" and "K sd p \<noteq> []"
    unfolding ladder_spec(2) [OF assms(1,2)] by (auto simp: level_at_def split: if_splits)
qed

lemma ladder_orders_set:
  assumes "ok (ob_store b)" and "levels_rel S (ob_store b) (arena_get A (ob_nodes b)) K"
  shows "set (ladder_orders (ladder_of S A b sd)) =
    {the (order_at (arena_get A (ob_nodes b)) k) |k p. k \<in> set (K sd p)}" (is "?lhs = ?rhs")
proof
  show "?lhs \<subseteq> ?rhs"
    using ladder_nonempty(1) [OF assms] by (fastforce simp: ladder_orders_def)
  show "?rhs \<subseteq> ?lhs"
  proof
    fix x assume "x \<in> ?rhs"
    then obtain k p where k: "k \<in> set (K sd p)" "x = the (order_at (arena_get A (ob_nodes b)) k)"
      by blast
    then have "map_of (ladder_of S A b sd) p = Some (orders_at (arena_get A (ob_nodes b)) (K sd p))"
      unfolding ladder_spec(2) [OF assms] by (auto simp: level_at_def)
    with k show "x \<in> ?lhs" by (force simp: ladder_orders_def dest: map_of_SomeD)
  qed
qed

lemma is_live_iff:
  assumes "book_rel S ok covers A b K"
  shows "is_live (abs_of S A b) i \<longleftrightarrow> hm_get (ob_index b) i \<noteq> None"
proof -
  let ?O = "order_at (arena_get A (ob_nodes b))"
  have rel: "ok (ob_store b)" "levels_rel S (ob_store b) (arena_get A (ob_nodes b)) K"
    "\<And>sd. bt_ok (stops_of b sd)"
    "\<And>a. hm_get (ob_index b) i = Some a \<longleftrightarrow> addressed ?O K (stops_of b) i a"
    using assms by (simp_all add: book_rel_def config_ok_def stops_rel_def index_rel_def)
  have rest: "i \<in> order_id ` set (ladder_orders (ladder_of S A b sd)) \<longleftrightarrow>
      (\<exists>p k. addressed ?O K (stops_of b) i (Book_Address sd p k))" for sd
    using ladder_orders_set [OF rel(1,2)] by auto
  have stop: "i \<in> order_id ` set (ladder_orders (stops_of b sd)) \<longleftrightarrow>
      (\<exists>t. addressed ?O K (stops_of b) i (Stop_Address sd t))" for sd
    using rel(3) by (force simp: ladder_orders_def bt_get_eq_Some)
  have "is_live (abs_of S A b) i \<longleftrightarrow>
      (\<exists>sd. i \<in> order_id ` set (ladder_orders (ladder_of S A b sd)) \<or> i \<in> order_id ` set (ladder_orders (stops_of b sd)))"
    by (simp add: is_live_def ab_orders_def abs_of_def image_Un ex_side disj_ac)
  also have "\<dots> \<longleftrightarrow> (\<exists>a. addressed ?O K (stops_of b) i a)"
    unfolding rest stop by (metis order_address.exhaust)
  finally show ?thesis using rel(4) by auto
qed

end

end
