(* ===== verification/Level_Change.thy ===== *)
theory Level_Change
  imports Book_Invariant
begin

text \<open>
  The parts of the invariant under the change of one level: an order appended, or orders removed
  and reduced. And the ladder operations of the abstract book, as maps from prices to orders.
\<close>

section \<open>One level changes\<close>

lemma levels_rel_update:
  assumes "levels_rel S s L K" and "lookup_level S s' = set_level (lookup_level S s) sd p x"
    and "case x of None \<Rightarrow> ks = [] | Some l \<Rightarrow> ks \<noteq> [] \<and> queue_ok L' (bl_queue l) ks"
    and "\<And>sd' p' k. sd' \<noteq> sd \<or> p' \<noteq> p \<Longrightarrow> k \<in> set (K sd' p') \<Longrightarrow> L' k = L k"
  shows "levels_rel S s' L' (set_keys K sd p ks)"
  unfolding levels_rel_def
proof (intro allI)
  fix sd' p'
  show "case lookup_level S s' sd' p' of
      None \<Rightarrow> set_keys K sd p ks sd' p' = []
    | Some l \<Rightarrow> set_keys K sd p ks sd' p' \<noteq> [] \<and> queue_ok L' (bl_queue l) (set_keys K sd p ks sd' p')"
  proof (cases "sd' = sd \<and> p' = p")
    case True
    then show ?thesis using assms(2,3) by (auto simp: set_keys_apply split: option.splits)
  next
    case False
    then have "queue_ok L' q (K sd' p') \<longleftrightarrow> queue_ok L q (K sd' p')" for q
      using assms(4) by (intro queue_ok_cong) auto
    moreover have "lookup_level S s' sd' p' = lookup_level S s sd' p'"
      using False assms(2) set_level_other by metis
    ultimately show ?thesis
      using levels_relD [OF assms(1), of sd' p'] False
      by (cases "lookup_level S s sd' p'") (auto simp: set_keys_apply)
  qed
qed

lemma index_relD: "index_rel index orders K stops \<Longrightarrow> hm_get index i = Some a \<longleftrightarrow> addressed orders K stops i a"
  by (simp add: index_rel_def)

lemma keys_disjoint:
  assumes "index_rel index orders K stops" and "k \<in> set (K sd p)" and "k \<in> set (K sd' p')"
  shows "sd' = sd \<and> p' = p"
proof -
  have "hm_get index (order_id (the (orders k))) = Some (Book_Address sd p k)"
    and "hm_get index (order_id (the (orders k))) = Some (Book_Address sd' p' k)"
    using assms by (simp_all add: index_rel_def)
  then show ?thesis by simp
qed

lemma ids_distinct:
  assumes "index_rel index orders K stops" and "k \<in> set (K sd p)" and "k' \<in> set (K sd' p')"
    and "order_id (the (orders k)) = order_id (the (orders k'))"
  shows "k' = k"
proof -
  have "hm_get index (order_id (the (orders k))) = Some (Book_Address sd p k)"
    and "hm_get index (order_id (the (orders k))) = Some (Book_Address sd' p' k')"
    using assms by (simp_all add: index_rel_def)
  then show ?thesis by simp
qed

text \<open>A level loses orders, and those it keeps lose quantity at most.\<close>

lemma orders_rel_shrink:
  assumes rel: "orders_rel spec following orders K"
    and disj: "\<And>sd' p' k. k \<in> set (K sd p) \<Longrightarrow> k \<in> set (K sd' p') \<Longrightarrow> sd' = sd \<and> p' = p"
    and ks: "ks = filter Q (K sd p)"
    and frame: "\<And>k. k \<notin> set (K sd p) \<Longrightarrow> orders' k = orders k"
    and kept: "\<And>k. k \<in> set ks \<Longrightarrow>
      \<exists>q. orders' k = Some ((the (orders k))\<lparr>remaining_quantity := q\<rparr>) \<and> q \<noteq> 0 \<and>
        is_multiple_of (base q) (lot_size spec)"
    and gone: "\<And>k. k \<in> set (K sd p) \<Longrightarrow> k \<notin> set ks \<Longrightarrow> orders' k = None"
  shows "orders_rel spec following orders' (set_keys K sd p ks)"
proof -
  let ?K = "set_keys K sd p ks"
  have sub: "set (?K sd' p') \<subseteq> set (K sd' p')" for sd' p'
    by (auto simp: set_keys_apply ks)
  have dom: "dom orders = keys_of K" using rel by (simp add: orders_rel_def)
  have "k \<in> dom orders' \<longleftrightarrow> k \<in> keys_of ?K" for k
  proof (cases "k \<in> set (K sd p)")
    case True
    then have "k \<in> set (?K sd' p') \<longleftrightarrow> sd' = sd \<and> p' = p \<and> k \<in> set ks" for sd' p'
      using disj True by (metis set_keys_apply)
    then have "k \<in> keys_of ?K \<longleftrightarrow> k \<in> set ks" by (simp add: keys_of_def)
    moreover have "k \<in> dom orders' \<longleftrightarrow> k \<in> set ks"
      using kept [of k] gone [OF True] by (cases "k \<in> set ks") (auto simp: dom_def)
    ultimately show ?thesis by simp
  next
    case False
    then have "k \<in> keys_of ?K \<longleftrightarrow> k \<in> keys_of K"
      by (auto simp: keys_of_def set_keys_apply ks split: if_splits)
    then show ?thesis using False frame dom by (auto simp: dom_def)
  qed
  then have "dom orders' = keys_of ?K" by blast
  have same: "the (orders' k) = the (orders k)" if "k \<in> set (?K sd' p')" "sd' \<noteq> sd \<or> p' \<noteq> p" for sd' p' k
    using that disj frame sub by (metis subsetD)
  have arr: "arrival (the (orders' k)) = arrival (the (orders k))" if "k \<in> set (?K sd' p')" for sd' p' k
  proof (cases "sd' = sd \<and> p' = p")
    case True
    then have "k \<in> set ks" using that by (simp add: set_keys_apply)
    then show ?thesis using kept [of k] by auto
  qed (use same that in auto)
  moreover have "resting spec following sd' p' (the (orders' k))" if k: "k \<in> set (?K sd' p')" for sd' p' k
  proof -
    have old: "resting spec following sd' p' (the (orders k))"
      using rel subsetD [OF sub k] by (simp add: orders_rel_def)
    show ?thesis
    proof (cases "sd' = sd \<and> p' = p")
      case True
      then have "k \<in> set ks" using k by (simp add: set_keys_apply)
      with old kept [of k] show ?thesis by (auto simp: resting_def tradable_def)
    qed (use same k old in auto)
  qed
  moreover have "sorted_wrt (<) (map (\<lambda>k. arrival (the (orders' k))) (?K sd' p'))" for sd' p'
  proof -
    have "map (\<lambda>k. arrival (the (orders' k))) (?K sd' p') =
        map (\<lambda>k. arrival (the (orders k))) (?K sd' p')"
      using arr by simp
    moreover have "sorted_wrt (<) (map (\<lambda>k. arrival (the (orders k))) (?K sd' p'))"
      using rel by (auto simp: orders_rel_def set_keys_apply ks sorted_wrt_map sorted_wrt_filter)
    ultimately show ?thesis by (simp only:)
  qed
  moreover have "inj_on (\<lambda>k. arrival (the (orders' k))) (keys_of ?K)"
  proof -
    have "keys_of ?K \<subseteq> keys_of K" using sub by (fastforce simp: keys_of_def)
    then have "inj_on (\<lambda>k. arrival (the (orders k))) (keys_of ?K)"
      using rel by (auto simp: orders_rel_def intro: inj_on_subset)
    then show ?thesis
      using arr by (subst inj_on_cong [of _ _ "\<lambda>k. arrival (the (orders k))"]) (auto simp: keys_of_def)
  qed
  ultimately show ?thesis
    using \<open>dom orders' = keys_of ?K\<close> orders_relD(1) [OF rel] by (simp add: orders_rel_def)
qed

lemma index_rel_shrink:
  assumes rel: "index_rel index orders K stops" and ks: "set ks \<subseteq> set (K sd p)"
    and ids: "\<And>sd' p' k. k \<in> set (set_keys K sd p ks sd' p') \<Longrightarrow>
      order_id (the (orders' k)) = order_id (the (orders k))"
    and "hm_ok index'"
    and get: "\<And>i. hm_get index' i =
      (if i \<in> (\<lambda>k. order_id (the (orders k))) ` (set (K sd p) - set ks) then None else hm_get index i)"
  shows "index_rel index' orders' (set_keys K sd p ks) stops"
proof -
  have weaken: "addressed orders K stops i a" if "addressed orders' (set_keys K sd p ks) stops i a" for i a
  proof (cases a)
    case (Book_Address sd' p' k)
    with that have k: "k \<in> set (set_keys K sd p ks sd' p')" "order_id (the (orders' k)) = i" by simp_all
    moreover have "k \<in> set (K sd' p')" using k(1) ks by (auto simp: set_keys_apply split: if_splits)
    ultimately show ?thesis using ids [of k] Book_Address by simp
  qed (use that in simp)
  have "hm_get index' i = Some a \<longleftrightarrow> addressed orders' (set_keys K sd p ks) stops i a" for i a
  proof (cases "i \<in> (\<lambda>k. order_id (the (orders k))) ` (set (K sd p) - set ks)")
    case True
    then obtain k where k: "k \<in> set (K sd p)" "k \<notin> set ks" "order_id (the (orders k)) = i" by auto
    then have "hm_get index i = Some (Book_Address sd p k)" using rel by (simp add: index_rel_def)
    then have only: "addressed orders K stops i a \<longleftrightarrow> Some (Book_Address sd p k) = Some a" for a
      using rel by (metis index_rel_def)
    have "\<not> addressed orders' (set_keys K sd p ks) stops i a"
    proof
      assume new: "addressed orders' (set_keys K sd p ks) stops i a"
      from weaken [OF this] have "a = Book_Address sd p k" unfolding only by simp
      with new k(2) show False by (simp add: set_keys_apply)
    qed
    with True get show ?thesis by simp
  next
    case False
    have "addressed orders' (set_keys K sd p ks) stops i a \<longleftrightarrow> addressed orders K stops i a"
    proof
      assume old: "addressed orders K stops i a"
      show "addressed orders' (set_keys K sd p ks) stops i a"
      proof (cases a)
        case (Book_Address sd' p' k)
        with old have k: "k \<in> set (K sd' p')" "order_id (the (orders k)) = i" by simp_all
        with False have "k \<in> set (set_keys K sd p ks sd' p')" by (auto simp: set_keys_apply)
        with ids k(2) Book_Address show ?thesis by simp
      qed (use old in simp)
    qed (rule weaken)
    with False get rel show ?thesis by (simp add: index_rel_def)
  qed
  with \<open>hm_ok index'\<close> show ?thesis by (simp add: index_rel_def)
qed

lemma keys_of_grow: "keys_of (set_keys K sd p (K sd p @ [k])) = insert k (keys_of K)"
proof -
  have "x \<in> keys_of (set_keys K sd p (K sd p @ [k]))" if "x \<in> set (K sd' p')" for x sd' p'
    using that by (intro keys_ofI [of _ _ sd' p']) (auto simp: set_keys_apply)
  moreover have "k \<in> keys_of (set_keys K sd p (K sd p @ [k]))"
    by (intro keys_ofI [of _ _ sd p]) (simp add: set_keys_apply)
  ultimately show ?thesis
    by (auto simp: keys_of_def [of K]) (auto simp: keys_of_def set_keys_apply split: if_splits)
qed

text \<open>A level gains an order with the next arrival stamp.\<close>

lemma orders_rel_grow:
  assumes rel: "orders_rel spec (arrival ord) orders K" and new: "k \<notin> keys_of K"
    and ord: "resting spec following sd p ord" and following: "arrival ord < following"
  shows "orders_rel spec following (orders(k \<mapsto> ord)) (set_keys K sd p (K sd p @ [k]))"
proof -
  let ?K = "set_keys K sd p (K sd p @ [k])"
  have fresh: "k' \<noteq> k" if "k' \<in> set (K sd' p')" for k' sd' p'
    using that new keys_ofI by metis
  note keys = keys_of_grow [of K sd p k]
  have old: "resting spec (arrival ord) sd' p' (the (orders k'))" if "k' \<in> set (K sd' p')" for k' sd' p'
    using rel that by (simp add: orders_rel_def)
  have older: "arrival (the (orders k')) < arrival ord" if "k' \<in> keys_of K" for k'
    using that old by (fastforce simp: keys_of_def resting_def)
  have "resting spec following sd' p' (the ((orders(k \<mapsto> ord)) k'))" if "k' \<in> set (?K sd' p')" for k' sd' p'
  proof (cases "k' = k")
    case True
    then have "sd' = sd \<and> p' = p" using that fresh by (auto simp: set_keys_apply split: if_splits)
    then show ?thesis using True ord by simp
  next
    case False
    then have "k' \<in> set (K sd' p')" using that by (auto simp: set_keys_apply split: if_splits)
    from old [OF this] following False show ?thesis by (auto simp: resting_def)
  qed
  moreover have "sorted_wrt (<) (map (\<lambda>k'. arrival (the ((orders(k \<mapsto> ord)) k'))) (?K sd' p'))" for sd' p'
  proof -
    have "map (\<lambda>k'. arrival (the ((orders(k \<mapsto> ord)) k'))) (K sd' p') =
        map (\<lambda>k'. arrival (the (orders k'))) (K sd' p')"
      using fresh by auto
    moreover have "sorted_wrt (<) (map (\<lambda>k'. arrival (the (orders k'))) (K sd' p'))"
      using rel by (simp add: orders_rel_def)
    ultimately have "sorted_wrt (<) (map (\<lambda>k'. arrival (the ((orders(k \<mapsto> ord)) k'))) (K sd' p'))"
      by (simp only:)
    then show ?thesis
      using older [OF keys_ofI [of _ K]] fresh by (auto simp: set_keys_apply sorted_wrt_append)
  qed
  moreover have "inj_on (\<lambda>k'. arrival (the ((orders(k \<mapsto> ord)) k'))) (keys_of ?K)"
  proof (rule inj_onI)
    fix x y
    assume xy: "x \<in> keys_of ?K" "y \<in> keys_of ?K"
      "arrival (the ((orders(k \<mapsto> ord)) x)) = arrival (the ((orders(k \<mapsto> ord)) y))"
    have inj: "inj_on (\<lambda>k. arrival (the (orders k))) (keys_of K)"
      using rel by (simp add: orders_rel_def)
    show "x = y"
      using xy older [of x] older [of y] inj_onD [OF inj, of x y] unfolding keys
      by (auto split: if_splits)
  qed
  moreover have "dom (orders(k \<mapsto> ord)) = keys_of ?K"
    using rel keys by (simp add: orders_rel_def)
  moreover have "0 < following" using following by (simp add: word_less_nat_alt)
  ultimately show ?thesis by (simp add: orders_rel_def)
qed

lemma index_rel_grow:
  assumes rel: "index_rel index orders K stops" and new: "k \<notin> keys_of K"
    and free: "hm_get index (order_id ord) = None"
  shows "index_rel (hm_insert (order_id ord) (Book_Address sd p k) index) (orders(k \<mapsto> ord))
    (set_keys K sd p (K sd p @ [k])) stops"
proof -
  let ?K = "set_keys K sd p (K sd p @ [k])"
  have fresh: "k \<notin> set (K sd' p')" for sd' p'
    using new keys_ofI by metis
  note get = index_relD [OF rel]
  have free': "\<not> addressed orders K stops (order_id ord) a" for a
    using get [of "order_id ord" a] free by simp
  have "hm_get (hm_insert (order_id ord) (Book_Address sd p k) index) i = Some a \<longleftrightarrow>
      addressed (orders(k \<mapsto> ord)) ?K stops i a" for i a
  proof (cases a)
    case (Book_Address sd' p' k')
    show ?thesis
    proof (cases "k' = k")
      case True
      have "addressed (orders(k \<mapsto> ord)) ?K stops i a \<longleftrightarrow>
          sd' = sd \<and> p' = p \<and> order_id ord = i"
        using True Book_Address fresh by (auto simp: set_keys_apply)
      moreover have "hm_get index i \<noteq> Some a"
        using rel fresh Book_Address True by (simp add: index_rel_def)
      ultimately show ?thesis using Book_Address True by auto
    next
      case False
      then have "addressed (orders(k \<mapsto> ord)) ?K stops i a \<longleftrightarrow> addressed orders K stops i a"
        using Book_Address by (simp add: set_keys_apply)
      then show ?thesis using get [of i a] False Book_Address free' [of a] by auto
    qed
  next
    case (Stop_Address sd' t)
    then show ?thesis using get [of i a] free' [of a] by auto
  qed
  then show ?thesis using rel by (simp add: index_rel_def)
qed

lemma rest_at_prices: "fst ` set (rest_at sd p ord L) = insert p (fst ` set L)"
  by (induction sd p ord L rule: rest_at.induct) auto

lemma ladder_sorted_rest_at: "ladder_sorted sd L \<Longrightarrow> ladder_sorted sd (rest_at sd p ord L)"
proof (induction sd p ord L rule: rest_at.induct)
  case (2 sd p ord p' os L)
  from "2.prems" have rest: "ladder_sorted sd L" "\<And>l. l \<in> set L \<Longrightarrow> better sd p' (fst l)" by auto
  consider "p = p'" | "p \<noteq> p'" "better sd p p'" | "p \<noteq> p'" "\<not> better sd p p'" by blast
  then show ?case
  proof cases
    case 1
    with "2.prems" show ?thesis by simp
  next
    case 2
    then have "better sd p (fst l)" if "l \<in> set L" for l
      using better_trans rest(2) that by blast
    with 2 rest show ?thesis by auto
  next
    case 3
    then have "better sd p' p" using better_linear by blast
    then have "better sd p' q" if "q \<in> fst ` set (rest_at sd p ord L)" for q
      using rest(2) that by (auto simp: rest_at_prices)
    with 3 "2.IH" rest(1) show ?thesis by simp
  qed
qed simp

lemma map_of_rest_at:
  "ladder_sorted sd L \<Longrightarrow> map_of (rest_at sd p ord L) =
     (map_of L)(p \<mapsto> (case map_of L p of None \<Rightarrow> [ord] | Some os \<Rightarrow> os @ [ord]))"
proof (induction sd p ord L rule: rest_at.induct)
  case (2 sd p ord p' os L)
  from "2.prems" have rest: "ladder_sorted sd L" "\<And>l. l \<in> set L \<Longrightarrow> better sd p' (fst l)" by auto
  consider "p = p'" | "p \<noteq> p'" "better sd p p'" | "p \<noteq> p'" "\<not> better sd p p'" by blast
  then show ?case
  proof cases
    case 1
    then show ?thesis by (simp add: fun_eq_iff)
  next
    case 2
    have "p \<notin> fst ` set L" using 2 rest(2) better_asym by auto
    then have "map_of L p = None" by (simp add: map_of_eq_None_iff)
    with 2 show ?thesis by (simp add: fun_eq_iff)
  next
    case 3
    with "2.IH" rest(1) show ?thesis by (auto simp: fun_eq_iff)
  qed
qed (simp add: fun_eq_iff)

section \<open>Dropping orders from a ladder\<close>

lemma drop_orders_simps [simp]:
  "drop_orders P [] = []"
  "drop_orders P ((p, os) # L) = (if filter (\<lambda>ord. \<not> P ord) os = [] then drop_orders P L
     else (p, filter (\<lambda>ord. \<not> P ord) os) # drop_orders P L)"
  by (simp_all add: drop_orders_def)

lemma drop_orders_prices: "fst ` set (drop_orders P L) \<subseteq> fst ` set L"
  by (force simp: drop_orders_def)

lemma ladder_sorted_drop: "ladder_sorted sd L \<Longrightarrow> ladder_sorted sd (drop_orders P L)"
proof (induction L)
  case (Cons l L)
  obtain p os where l: "l = (p, os)" by (cases l)
  have "better sd p (fst l')" if "l' \<in> set (drop_orders P L)" for l'
    using Cons.prems drop_orders_prices [of P L] that by (fastforce simp: l)
  then show ?case using Cons by (simp add: l)
qed simp

lemma map_of_drop:
  "ladder_sorted sd L \<Longrightarrow> map_of (drop_orders P L) p = Option.bind (map_of L p)
     (\<lambda>os. if filter (\<lambda>ord. \<not> P ord) os = [] then None else Some (filter (\<lambda>ord. \<not> P ord) os))"
proof (induction L)
  case (Cons l L)
  obtain p' os where l: "l = (p', os)" by (cases l)
  have "p' \<notin> fst ` set L" using Cons.prems better_asym by (auto simp: l)
  then have "map_of (drop_orders P L) p' = None"
    using drop_orders_prices [of P L] by (auto simp: map_of_eq_None_iff)
  then show ?case using Cons by (auto simp: l)
qed simp

lemma drop_orders_id:
  "(\<And>p os. (p, os) \<in> set L \<Longrightarrow> os \<noteq> [] \<and> (\<forall>ord\<in>set os. \<not> P ord)) \<Longrightarrow> drop_orders P L = L"
proof (induction L)
  case (Cons l L)
  obtain p os where l: "l = (p, os)" by (cases l)
  have "filter (\<lambda>ord. \<not> P ord) os = os" "os \<noteq> []" using Cons.prems [of p os] by (auto simp: l)
  moreover have "drop_orders P L = L" by (rule Cons.IH) (use Cons.prems in auto)
  ultimately show ?case by (simp add: l)
qed simp

lemma bt_ok_ladder: "bt_ok L \<longleftrightarrow> ladder_sorted Ask L"
  by (simp add: bt_ok_def ladder_sorted_def better_def [abs_def])

lemma bt_remove_last: "bt_ok (L @ [(t, q)]) \<Longrightarrow> bt_remove t (L @ [(t, q)]) = L"
  by (induction L) auto

lemma bt_put_last: "bt_ok (L @ [(t, q)]) \<Longrightarrow> bt_put t q' (L @ [(t, q)]) = L @ [(t, q')]"
  by (induction L) auto

lemma bt_get_map_of: "bt_get L = map_of L"
  by (simp add: bt_get_def [abs_def])

lemma bt_drop:
  assumes "bt_ok L" and "bt_get L t = Some q"
    and "\<And>t' q'. (t', q') \<in> set L \<Longrightarrow> q' \<noteq> []"
    and "\<And>t' q' ord. (t', q') \<in> set L \<Longrightarrow> t' \<noteq> t \<Longrightarrow> ord \<in> set q' \<Longrightarrow> \<not> P ord"
  shows "(if filter (\<lambda>ord. \<not> P ord) q = [] then bt_remove t L
    else bt_put t (filter (\<lambda>ord. \<not> P ord) q) L) = drop_orders P L" (is "?new = _")
proof (rule ladder_eqI [of Ask])
  have ok: "ladder_sorted Ask L" using assms(1) by (simp add: bt_ok_ladder)
  show "ladder_sorted Ask ?new" using assms(1) by (simp add: bt_ok_ladder [symmetric])
  show "ladder_sorted Ask (drop_orders P L)" by (rule ladder_sorted_drop [OF ok])
  show "map_of ?new = map_of (drop_orders P L)"
  proof
    fix t'
    have "Option.bind (bt_get L t')
        (\<lambda>os. if filter (\<lambda>ord. \<not> P ord) os = [] then None else Some (filter (\<lambda>ord. \<not> P ord) os)) =
        bt_get L t'" if other: "t' \<noteq> t"
    proof (cases "bt_get L t'")
      case (Some q')
      then have "q' \<noteq> []" "\<forall>ord\<in>set q'. \<not> P ord"
        using assms(3,4) other bt_get_eq_Some [OF assms(1)] by blast+
      then have "filter (\<lambda>ord. \<not> P ord) q' = q'" by simp
      with Some \<open>q' \<noteq> []\<close> show ?thesis by simp
    qed simp
    moreover have "bt_get (drop_orders P L) t' = Option.bind (bt_get L t')
        (\<lambda>os. if filter (\<lambda>ord. \<not> P ord) os = [] then None else Some (filter (\<lambda>ord. \<not> P ord) os))"
      by (simp add: bt_get_map_of map_of_drop [OF ok])
    ultimately have "bt_get ?new t' = bt_get (drop_orders P L) t'"
      using assms(1,2) by (cases "t' = t") auto
    then show "map_of ?new t' = map_of (drop_orders P L) t'" by (simp only: bt_get_map_of)
  qed
qed

lemma set_drop_orders:
  "(p, os) \<in> set (drop_orders P L) \<longleftrightarrow>
     os \<noteq> [] \<and> (\<exists>os'. (p, os') \<in> set L \<and> os = filter (\<lambda>ord. \<not> P ord) os')"
  by (auto simp: drop_orders_def)

end
