(* ===== verification/Book_Refinement.thy ===== *)
theory Book_Refinement
  imports Level_Change
begin

text \<open>
  The operations of \<open>Order_Book\<close> and of the stop book keep the invariant and implement the abstract
  engine: construction, resting, cancelling, parking and taking a stop. \<open>shrink_level\<close> is what the
  sweep and the cancellation of a resting order have in common.
\<close>

section \<open>Admission\<close>

lemma admit_limit:
  assumes "admit_under spec ord = Inr ()" and "limit_price (otype ord) = Some p"
  shows "admits_price spec p = Inr ()"
proof -
  have each: "admits_price spec q = Inr ()" if "admit_prices spec ps = Inr ()" "Some q \<in> set ps" for ps q
    using that by (induction spec ps rule: admit_prices.induct) (auto split: sum.splits)
  have "admit_prices spec (prices (otype ord)) = Inr ()"
    using assms(1) by (auto simp: admit_under_def split: sum.splits)
  moreover have "Some p \<in> set (prices (otype ord))"
    using assms(2) by (cases "otype ord") auto
  ultimately show ?thesis by (rule each)
qed

lemma admit_under_cong:
  "otype ord' = otype ord \<Longrightarrow> original_quantity ord' = original_quantity ord \<Longrightarrow>
     admit_under spec ord' = admit_under spec ord"
  unfolding admit_under_def by (simp only:)

lemma on_lattice_reduce [simp]:
  "on_lattice spec (ord\<lparr>arrival := a\<rparr>) = on_lattice spec ord"
  "tradable spec (ord\<lparr>arrival := a\<rparr>) = tradable spec ord"
  by (simp_all add: on_lattice_def tradable_def)

section \<open>The operations\<close>

lemma abs_of_simps [simp]:
  "ab_sides (abs_of S A b) = ladder_of S A b"
  "ab_stops (abs_of S A b) = stops_of b"
  "ab_last (abs_of S A b) = last_trade_price b"
  "ab_seq (abs_of S A b) = next_seq b"
  "ab_arrival (abs_of S A b) = next_arrival b"
  "ab_spec (abs_of S A b) = ob_spec b"
  "ab_matcher (abs_of S A b) = ob_matcher b"
  by (simp_all add: abs_of_def)

lemma stops_of_update [simp]:
  "stops_of (b\<lparr>ob_store := s\<rparr>) = stops_of b"
  "stops_of (b\<lparr>ob_nodes := m\<rparr>) = stops_of b"
  "stops_of (b\<lparr>ob_index := i\<rparr>) = stops_of b"
  "stops_of (b\<lparr>next_arrival := a\<rparr>) = stops_of b"
  "stops_of (b\<lparr>next_seq := n\<rparr>) = stops_of b"
  "stops_of (b\<lparr>last_trade_price := p\<rparr>) = stops_of b"
  by (auto simp: stops_of_def split: side.split)

lemma stops_of_set [simp]: "stops_of (set_stops sd stops b) = (stops_of b)(sd := stops)"
  by (auto simp: stops_of_def set_stops_def fun_eq_iff split: side.splits)

lemma set_stops_select [simp]:
  "ob_store (set_stops sd stops b) = ob_store b"
  "ob_nodes (set_stops sd stops b) = ob_nodes b"
  "ob_index (set_stops sd stops b) = ob_index b"
  "last_trade_price (set_stops sd stops b) = last_trade_price b"
  "next_seq (set_stops sd stops b) = next_seq b"
  "next_arrival (set_stops sd stops b) = next_arrival b"
  "ob_spec (set_stops sd stops b) = ob_spec b"
  "ob_matcher (set_stops sd stops b) = ob_matcher b"
  by (simp_all add: set_stops_def split: side.split)

lemma ladder_eq: "ob_store b' = ob_store b \<Longrightarrow> ob_nodes b' = ob_nodes b \<Longrightarrow> ladder_of S A b' = ladder_of S A b"
  by (simp add: ladder_of_def fun_eq_iff)

lemma book_relD:
  assumes "book_rel S ok covers A b K"
  shows "ok (ob_store b)" and "lot_size (ob_spec b) \<noteq> 0"
    and "matching_algorithm (ob_matcher b) (lot_size (ob_spec b))"
    and "admits_price (ob_spec b) p = Inr () \<Longrightarrow> is_multiple_of (minor p) (tick_size (ob_spec b)) \<Longrightarrow>
      covers (ob_store b) p"
    and "levels_rel S (ob_store b) (arena_get A (ob_nodes b)) K"
    and "orders_rel (ob_spec b) (next_arrival b) (order_at (arena_get A (ob_nodes b))) K"
    and "stops_rel (ob_spec b) (stops_of b)"
    and "index_rel (ob_index b) (order_at (arena_get A (ob_nodes b))) K (stops_of b)"
  using assms by (simp_all add: book_rel_def config_ok_def)

context book_engine begin

lemma try_new_ok:
  assumes spec: "spec_ok spec" and mtch: "matching_algorithm mtch (lot_size spec)"
    and "try_new S A spec mtch = Some (Inr b)"
  shows "book_ok S ok covers A b" and "abs_of S A b =
    \<lparr>ab_sides = (\<lambda>sd. []), ab_stops = (\<lambda>sd. []), ab_last = None, ab_seq = 1, ab_arrival = 1,
     ab_spec = spec, ab_matcher = mtch\<rparr>"
proof -
  from assms(3) obtain s where s: "new_store S spec = Inr s" and
    b: "b = \<lparr>ob_store = s, ob_nodes = arena_new A, stop_bids = [], stop_asks = [],
      last_trade_price = None, ob_index = [], next_seq = 1, next_arrival = 1, ob_spec = spec, ob_matcher = mtch\<rparr>"
    by (auto simp: try_new_def split: if_splits sum.splits)
  note new = new_ok [OF spec s] new_empty [OF spec s] new_covers [OF spec s]
  have stops: "stops_of b = (\<lambda>sd. [])" by (auto simp: stops_of_def b split: side.split)
  have "levels_rel S s (arena_get A (arena_new A)) (\<lambda>sd p. [])"
    using new(2) by (simp add: levels_rel_def)
  moreover have "orders_rel spec 1 (order_at (arena_get A (arena_new A))) (\<lambda>sd p. [])"
    using arena_lawsD(1) [OF arena] by (simp add: orders_rel_def keys_of_def)
  moreover have "addressed orders (\<lambda>sd p. []) (\<lambda>sd. []) i a = False" for orders :: "'k \<Rightarrow> order option" and i a
    by (cases a) simp_all
  ultimately have "book_rel S ok covers A b (\<lambda>sd p. [])"
    using spec mtch new stops by (simp add: book_rel_def config_ok_def stops_rel_def index_rel_def b spec_ok_def)
  then show "book_ok S ok covers A b" by (auto simp: book_ok_def)
  have "ladder_of S A b sd = []" for sd
    using levels_empty_iff [OF new(1)] new(2) by (simp add: ladder_of_def b)
  then show "abs_of S A b =
    \<lparr>ab_sides = (\<lambda>sd. []), ab_stops = (\<lambda>sd. []), ab_last = None, ab_seq = 1, ab_arrival = 1,
     ab_spec = spec, ab_matcher = mtch\<rparr>"
    using stops by (simp add: abs_of_def fun_eq_iff) (simp add: b)
qed

lemma room_for_one:
  assumes rel: "orders_rel spec following (order_at (arena_get A m)) K"
    and bound: "unat following + 1 < 2 ^ 32"
  shows "card (dom (arena_get A m)) < 2 ^ 32 - 2"
proof -
  let ?arr = "\<lambda>k. unat (arrival (the (order_at (arena_get A m) k)))"
  have dom: "dom (arena_get A m) = keys_of K"
    using orders_relD(2) [OF rel] by simp
  have "inj_on ?arr (dom (arena_get A m))"
    using orders_relD(5) [OF rel] unfolding dom by (simp add: inj_on_def word_unat_eq_iff)
  moreover have "?arr ` dom (arena_get A m) \<subseteq> {1..<unat following}"
  proof
    fix x assume "x \<in> ?arr ` dom (arena_get A m)"
    then obtain sd p k where k: "k \<in> set (K sd p)" "x = ?arr k"
      unfolding dom by (auto simp: keys_of_def)
    then have "resting spec following sd p (the (order_at (arena_get A m) k))"
      using rel by (simp add: orders_rel_def)
    then show "x \<in> {1..<unat following}"
      using k by (auto simp: resting_def word_less_nat_alt)
  qed
  ultimately have "card (dom (arena_get A m)) \<le> card {1..<unat following}"
    by (metis card_image card_mono finite_atLeastLessThan)
  then show ?thesis using bound by simp
qed

text \<open>
  Resting at a price that the store can hold; the order itself need only be on the lattice for the
  book to stay consistent.
\<close>

lemma rest_order_rests:
  assumes rel: "book_rel S ok covers A b K" and cov: "covers (ob_store b) p"
    and free: "hm_get (ob_index b) (order_id ord) = None" and room: "unat (next_arrival b) + 1 < 2 ^ 32"
  shows "\<exists>b' k. rest_order S A b ord p = Some (Inr (), b') \<and>
    (on_lattice (ob_spec b) ord \<and> (\<exists>tif. otype ord = Limit p tif) \<longrightarrow> book_ok S ok covers A b') \<and>
    ob_index b' = hm_insert (order_id ord) (Book_Address (order_side ord) p k) (ob_index b) \<and>
    abs_of S A b' = (abs_of S A b)\<lparr>ab_sides := (ladder_of S A b)(order_side ord :=
        rest_at (order_side ord) p (ord\<lparr>arrival := next_arrival b\<rparr>) (ladder_of S A b (order_side ord))),
      ab_arrival := next_arrival b + 1\<rparr>"
proof -
  note bk = book_relD [OF rel]
  let ?sd = "order_side ord" and ?L = "arena_get A (ob_nodes b)" and ?o = "ord\<lparr>arrival := next_arrival b\<rparr>"
  define following where "following = next_arrival b + 1"
  have checked: "checked_add (next_arrival b) 1 = Some following"
    using room by (simp add: checked_add_eq_Some following_def)
  have later: "next_arrival b < following"
    using room by (simp add: following_def word_less_nat_alt unat_add_exact)
  from ensure_lends [OF bk(1) cov, of ?sd] obtain put l where
    lent: "ensure_level S (ob_store b) ?sd p = Some (Inr (l, put))"
      "l = (case lookup_level S (ob_store b) ?sd p of None \<Rightarrow> book_level_new p ?sd | Some l \<Rightarrow> l)"
      "writes_level S ok covers (ob_store b) ?sd p put" by blast
  have l: "bl_price l = p" "bl_side l = ?sd" "queue_ok ?L (bl_queue l) (K ?sd p)"
    using lent(2) level_wf [OF bk(1)] levels_relD [OF bk(5)]
    by (auto simp: book_level_new_def split: option.splits)
  from push_back_spec [OF arena l(3) room_for_one [OF bk(6) room]] obtain k q m where
    push: "push_back A (bl_queue l) (ob_nodes b) ?o = Some (k, q, m)" "?L k = None"
      "queue_ok (arena_get A m) q (K ?sd p @ [k])"
      "order_at (arena_get A m) = (order_at ?L)(k \<mapsto> ?o)"
      "\<forall>k'. k' \<notin> set (K ?sd p) \<longrightarrow> k' \<noteq> k \<longrightarrow> arena_get A m k' = ?L k'" by blast
  define s where "s = put (l\<lparr>bl_queue := q\<rparr>)"
  have s: "ok s" "lookup_level S s = set_level (lookup_level S (ob_store b)) ?sd p (Some (l\<lparr>bl_queue := q\<rparr>))"
    "covers s = covers (ob_store b)"
    using writes_levelD [OF lent(3)] l by (simp_all add: s_def)
  define b' where "b' = b\<lparr>ob_store := s, ob_nodes := m,
    ob_index := hm_insert (order_id ord) (Book_Address ?sd p k) (ob_index b), next_arrival := following\<rparr>"
  let ?K = "set_keys K ?sd p (K ?sd p @ [k])"
  have run: "rest_order S A b ord p = Some (Inr (), b')"
    using checked lent(1) push(1) by (simp add: rest_order_def b'_def s_def)
  have new: "k \<notin> keys_of K"
    using push(2) orders_relD(2) [OF bk(6)] by auto
  have levels: "levels_rel S s (arena_get A m) ?K"
  proof (rule levels_rel_update [OF bk(5) s(2)])
    show "arena_get A m k' = ?L k'" if "sd' \<noteq> ?sd \<or> p' \<noteq> p" "k' \<in> set (K sd' p')" for sd' p' k'
      using that push(5) keys_disjoint [OF bk(8) that(2)] new keys_ofI [of k' K, OF that(2)] by metis
  qed (use push(3) in simp)
  have "orders_rel (ob_spec b) following (order_at (arena_get A m)) ?K"
    if lattice: "on_lattice (ob_spec b) ord" and limit: "\<exists>tif. otype ord = Limit p tif"
    unfolding push(4) using bk(6) new later limit lattice orders_relD(1) [OF bk(6)]
    by (intro orders_rel_grow) (auto simp: resting_def on_lattice_def)
  moreover have "index_rel (ob_index b') (order_at (arena_get A m)) ?K (stops_of b)"
    using index_rel_grow [OF bk(8) new, of ?o ?sd p] free by (simp add: b'_def push(4))
  ultimately have rel': "book_rel S ok covers A b' ?K"
    if "on_lattice (ob_spec b) ord" and "\<exists>tif. otype ord = Limit p tif"
    using that rel levels s by (simp add: book_rel_def config_ok_def b'_def)
  have "ladder_of S A b' sd = ((ladder_of S A b)(?sd := rest_at ?sd p ?o (ladder_of S A b ?sd))) sd" for sd
  proof (cases "sd = ?sd")
    case True
    note old = ladder_spec [OF bk(1,5), of ?sd]
    have "ladder_of S A b' ?sd = rest_at ?sd p ?o (ladder_of S A b ?sd)"
    proof (rule ladder_unique [where K = ?K])
      show "ladder_sorted ?sd (rest_at ?sd p ?o (ladder_of S A b ?sd))" by (rule ladder_sorted_rest_at [OF old(1)])
      fix p'
      have same: "map (\<lambda>k'. the (((order_at ?L)(k \<mapsto> ?o)) k')) (K ?sd p') = orders_at ?L (K ?sd p')"
        using new keys_ofI by fastforce
      show "map_of (rest_at ?sd p ?o (ladder_of S A b ?sd)) p' =
          level_at (order_at (arena_get A (ob_nodes b'))) (?K ?sd p')"
        using same unfolding map_of_rest_at [OF old(1)] old(2)
        by (auto simp: level_at_def set_keys_apply b'_def push(4))
    qed (use s levels in \<open>simp_all add: b'_def\<close>)
    with True show ?thesis by simp
  next
    case False
    have "ladder_of S A b' sd = ladder_of S A b sd"
    proof (rule ladder_cong [OF bk(1,5), where K' = ?K])
      show "?K sd = K sd" using False by (simp add: set_keys_def)
      show "order_at (arena_get A (ob_nodes b')) k' = order_at ?L k'" if "k' \<in> set (K sd p')" for p' k'
        using that new keys_ofI [of k' K, OF that] by (auto simp: b'_def push(4))
    qed (use s levels in \<open>simp_all add: b'_def\<close>)
    with False show ?thesis by simp
  qed
  then have "abs_of S A b' = (abs_of S A b)\<lparr>ab_sides := (ladder_of S A b)(?sd :=
      rest_at ?sd p ?o (ladder_of S A b ?sd)), ab_arrival := following\<rparr>"
    by (simp add: abs_of_def b'_def fun_eq_iff)
  with run rel' show ?thesis
    by (intro exI [of _ b'] exI [of _ k]) (auto simp: book_ok_def following_def b'_def)
qed

lemma rest_order_refines:
  assumes rel: "book_rel S ok covers A b K" and lattice: "on_lattice (ob_spec b) ord"
    and limit: "otype ord = Limit p tif" and admitted: "admit_under (ob_spec b) ord = Inr ()"
    and free: "hm_get (ob_index b) (order_id ord) = None" and room: "unat (next_arrival b) + 1 < 2 ^ 32"
  shows "\<exists>b'. rest_order S A b ord p = Some (Inr (), b') \<and> book_ok S ok covers A b' \<and>
    abs_of S A b' = (abs_of S A b)\<lparr>ab_sides := (ladder_of S A b)(order_side ord :=
        rest_at (order_side ord) p (ord\<lparr>arrival := next_arrival b\<rparr>) (ladder_of S A b (order_side ord))),
      ab_arrival := next_arrival b + 1\<rparr>"
proof -
  have "covers (ob_store b) p"
    using lattice limit admit_limit [OF admitted] by (intro book_relD(4) [OF rel]) (auto simp: on_lattice_def)
  from rest_order_rests [OF rel this free room] lattice limit show ?thesis by blast
qed

lemma add_order_refines:
  assumes "book_ok S ok covers A b" and "on_lattice (ob_spec b) ord" and "unat (next_arrival b) + 1 < 2 ^ 32"
  shows "\<exists>b'. add_order S A b ord = Some (fst (spec_add (abs_of S A b) ord), b') \<and>
    book_ok S ok covers A b' \<and> abs_of S A b' = snd (spec_add (abs_of S A b) ord)"
proof -
  from assms(1) obtain K where rel: "book_rel S ok covers A b K" by (auto simp: book_ok_def)
  show ?thesis
  proof (cases "\<exists>p tif. otype ord = Limit p tif \<and> admit_under (ob_spec b) ord = Inr () \<and>
      hm_get (ob_index b) (order_id ord) = None")
    case True
    then obtain p tif where ord: "otype ord = Limit p tif" "admit_under (ob_spec b) ord = Inr ()"
      "hm_get (ob_index b) (order_id ord) = None" by blast
    moreover have "\<not> is_live (abs_of S A b) (order_id ord)" using is_live_iff [OF rel] ord(3) by simp
    ultimately show ?thesis
      using rest_order_refines [OF rel assms(2) ord assms(3)]
      by (auto simp: add_order_def spec_add_def admit_def)
  next
    case False
    have "add_order S A b ord = Some (fst (spec_add (abs_of S A b) ord), b)"
      and "snd (spec_add (abs_of S A b) ord) = abs_of S A b"
      using False is_live_iff [OF rel, of "order_id ord"]
      by (auto simp: add_order_def spec_add_def admit_def split: order_type.split sum.split option.split)
    with assms(1) show ?thesis by auto
  qed
qed

text \<open>What an operation that shrinks one level does to the book.\<close>

lemma shrink_level:
  assumes rel: "book_rel S ok covers A b K" and s: "ok s" "covers s = covers (ob_store b)"
    and look: "lookup_level S s = set_level (lookup_level S (ob_store b)) sd p x"
    and level: "case x of None \<Rightarrow> ks = [] | Some l \<Rightarrow> ks \<noteq> [] \<and> queue_ok (arena_get A m) (bl_queue l) ks"
    and ks: "ks = filter Q (K sd p)"
    and frame: "\<And>k. k \<notin> set (K sd p) \<Longrightarrow> arena_get A m k = arena_get A (ob_nodes b) k"
    and kept: "\<And>k. k \<in> set ks \<Longrightarrow>
      \<exists>q. order_at (arena_get A m) k =
          Some ((the (order_at (arena_get A (ob_nodes b)) k))\<lparr>remaining_quantity := q\<rparr>) \<and> q \<noteq> 0 \<and>
        is_multiple_of (base q) (lot_size (ob_spec b))"
    and gone: "\<And>k. k \<in> set (K sd p) \<Longrightarrow> k \<notin> set ks \<Longrightarrow> order_at (arena_get A m) k = None"
    and index: "hm_ok index" "\<And>i. hm_get index i =
      (if i \<in> (\<lambda>k. order_id (the (order_at (arena_get A (ob_nodes b)) k))) ` (set (K sd p) - set ks)
       then None else hm_get (ob_index b) i)"
  defines "b' \<equiv> b\<lparr>ob_store := s, ob_nodes := m, ob_index := index\<rparr>"
  shows "book_rel S ok covers A b' (set_keys K sd p ks)"
    and "sd' \<noteq> sd \<Longrightarrow> ladder_of S A b' sd' = ladder_of S A b sd'"
    and "map_of (ladder_of S A b' sd) = (map_of (ladder_of S A b sd))(p := level_at (order_at (arena_get A m)) ks)"
proof -
  note bk = book_relD [OF rel]
  let ?L = "arena_get A (ob_nodes b)" and ?K = "set_keys K sd p ks"
  note disj = keys_disjoint [OF bk(8)]
  have levels: "levels_rel S s (arena_get A m) ?K"
    using disj frame by (intro levels_rel_update [OF bk(5) look level]) metis
  have same: "order_at (arena_get A m) k = order_at ?L k" if "k \<notin> set (K sd p)" for k
    using frame [OF that] by (simp add: order_at_def)
  have orders: "orders_rel (ob_spec b) (next_arrival b) (order_at (arena_get A m)) ?K"
    by (rule orders_rel_shrink [OF bk(6) disj ks same kept gone])
  have ids: "order_id (the (order_at (arena_get A m) k)) = order_id (the (order_at ?L k))"
    if k: "k \<in> set (?K sd' p')" for sd' p' k
  proof (cases "k \<in> set (K sd p)")
    case True
    have "k \<in> set (K sd' p')" using k by (auto simp: set_keys_apply ks split: if_splits)
    with True disj have "sd' = sd \<and> p' = p" by blast
    then have "k \<in> set ks" using k by (simp add: set_keys_apply)
    then show ?thesis using kept by fastforce
  qed (simp add: same)
  have "index_rel index (order_at (arena_get A m)) ?K (stops_of b)"
    by (rule index_rel_shrink [OF bk(8) _ ids index]) (auto simp: ks)
  with rel levels orders s show rel': "book_rel S ok covers A b' ?K"
    by (simp add: book_rel_def config_ok_def b'_def)
  note bk' = book_relD [OF rel']
  show "ladder_of S A b' sd' = ladder_of S A b sd'" if other: "sd' \<noteq> sd"
  proof (rule ladder_cong [OF bk(1,5) bk'(1,5)])
    show "?K sd' = K sd'" using other by (simp add: set_keys_def)
    show "order_at (arena_get A (ob_nodes b')) k = order_at ?L k" if "k \<in> set (K sd' p')" for p' k
      using disj [OF that] other same by (fastforce simp: b'_def)
  qed
  show "map_of (ladder_of S A b' sd) = (map_of (ladder_of S A b sd))(p := level_at (order_at (arena_get A m)) ks)"
  proof
    fix p'
    have "map (\<lambda>k. the (order_at (arena_get A m) k)) (K sd p') = map (\<lambda>k. the (order_at ?L k)) (K sd p')"
      if "p' \<noteq> p"
      using that disj same by (intro map_cong refl) metis
    then show "map_of (ladder_of S A b' sd) p' =
        ((map_of (ladder_of S A b sd))(p := level_at (order_at (arena_get A m)) ks)) p'"
      unfolding ladder_spec(2) [OF bk'(1,5)] fun_upd_apply ladder_spec(2) [OF bk(1,5)]
      by (auto simp: set_keys_apply level_at_def b'_def)
  qed
qed

text \<open>Where the index sends an id, and only there, is the order.\<close>

lemma address_of_rest:
  assumes rel: "book_rel S ok covers A b K" and "(p, os) \<in> set (ladder_of S A b sd)" and "ord \<in> set os"
  shows "\<exists>k. hm_get (ob_index b) (order_id ord) = Some (Book_Address sd p k) \<and>
    k \<in> set (K sd p) \<and> order_at (arena_get A (ob_nodes b)) k = Some ord"
proof -
  note bk = book_relD [OF rel]
  from ladder_nonempty(1) [OF bk(1,5) assms(2)] assms(3) obtain k where
    k: "k \<in> set (K sd p)" "ord = the (order_at (arena_get A (ob_nodes b)) k)" by auto
  have "k \<in> dom (order_at (arena_get A (ob_nodes b)))"
    unfolding orders_relD(2) [OF bk(6)] using k(1) by (rule keys_ofI)
  then have "order_at (arena_get A (ob_nodes b)) k = Some ord"
    unfolding k(2) by (metis domIff option.collapse)
  moreover have "hm_get (ob_index b) (order_id ord) = Some (Book_Address sd p k)"
    using k index_relD [OF bk(8)] by simp
  ultimately show ?thesis using k(1) by blast
qed

lemma address_of_stop:
  assumes rel: "book_rel S ok covers A b K" and "(t, q) \<in> set (stops_of b sd)" and "ord \<in> set q"
  shows "hm_get (ob_index b) (order_id ord) = Some (Stop_Address sd t)"
  using assms(2,3) stops_relD(1) [OF book_relD(7) [OF rel]]
  by (auto simp: index_relD [OF book_relD(8) [OF rel]] bt_get_eq_Some)

lemma drop_stop:
  assumes rel: "book_rel S ok covers A b K" and q: "bt_get (stops_of b sd) t = Some q" "ord \<in> set q"
  shows "book_rel S ok covers A (set_stops sd (drop_orders (\<lambda>x. order_id x = order_id ord) (stops_of b sd))
    (b\<lparr>ob_index := hm_remove (order_id ord) (ob_index b)\<rparr>)) K"
proof -
  note bk = book_relD [OF rel] and stops = stops_relD [OF book_relD(7) [OF rel]]
  let ?i = "order_id ord" and ?O = "order_at (arena_get A (ob_nodes b))"
  let ?stops = "(stops_of b)(sd := drop_orders (\<lambda>x. order_id x = ?i) (stops_of b sd))"
  have mem: "(t, q) \<in> set (stops_of b sd)" using q(1) stops(1) by (simp add: bt_get_eq_Some)
  have here: "hm_get (ob_index b) ?i = Some (Stop_Address sd t)"
    by (rule address_of_stop [OF rel mem q(2)])
  have get: "bt_get (drop_orders (\<lambda>x. order_id x = ?i) (stops_of b sd)) t' =
      Option.bind (bt_get (stops_of b sd) t') (\<lambda>os. if filter (\<lambda>x. order_id x \<noteq> ?i) os = [] then None
        else Some (filter (\<lambda>x. order_id x \<noteq> ?i) os))" for t'
    using map_of_drop [of Ask "stops_of b sd"] stops(1) [of sd] by (simp add: bt_get_map_of bt_ok_ladder)
  have "stops_rel (ob_spec b) ?stops"
    unfolding stops_rel_def
  proof (intro allI conjI ballI)
    show "bt_ok (?stops sd')" for sd'
      using stops(1) ladder_sorted_drop [of Ask] by (simp add: bt_ok_ladder)
    show "stop_queue_ok (ob_spec b) sd' (fst l) (snd l)" if "l \<in> set (?stops sd')" for sd' l
    proof (cases "sd' = sd")
      case True
      obtain t' q' where l: "l = (t', q')" by (cases l)
      with that True obtain q0 where "(t', q0) \<in> set (stops_of b sd)" "q' \<noteq> []"
        "q' = filter (\<lambda>x. order_id x \<noteq> ?i) q0" by (auto simp: set_drop_orders)
      with stops(2) stop_queue_ok_filter l True show ?thesis by auto
    next
      case False
      with that stops(2) [of "fst l" "snd l"] show ?thesis by simp
    qed
  qed
  moreover have "hm_get (hm_remove ?i (ob_index b)) j = Some a \<longleftrightarrow> addressed ?O K ?stops j a" for j a
  proof -
    have "addressed ?O K ?stops j a \<longleftrightarrow> j \<noteq> ?i \<and> addressed ?O K (stops_of b) j a"
    proof (cases a)
      case (Book_Address sd' p k)
      then show ?thesis using here index_relD [OF bk(8), of ?i a] by auto
    next
      case (Stop_Address sd' t')
      show ?thesis
      proof (cases "sd' = sd")
        case True
        have "(\<exists>q'. bt_get (?stops sd) t' = Some q' \<and> j \<in> order_id ` set q') \<longleftrightarrow>
            j \<noteq> ?i \<and> (\<exists>q'. bt_get (stops_of b sd) t' = Some q' \<and> j \<in> order_id ` set q')"
          using get [of t'] by (cases "bt_get (stops_of b sd) t'") (auto simp: filter_empty_conv)
        with True Stop_Address show ?thesis by simp
      next
        case False
        have "\<not> addressed ?O K (stops_of b) ?i a"
          using index_relD [OF bk(8), of ?i a, symmetric] here Stop_Address False
          by (simp del: addressed.simps)
        then show ?thesis using Stop_Address False by (cases "j = ?i") simp_all
      qed
    qed
    then show ?thesis using index_relD [OF bk(8), of j a] by simp
  qed
  ultimately show ?thesis
    using rel by (simp add: book_rel_def index_rel_def config_ok_def)
qed

lemma drop_stop_ladders:
  assumes rel: "book_rel S ok covers A b K" and q: "bt_get (stops_of b sd) t = Some q" "ord \<in> set q"
  shows "drop_orders (\<lambda>x. order_id x = order_id ord) (ladder_of S A b sd') = ladder_of S A b sd'"
    and "sd' \<noteq> sd \<Longrightarrow> drop_orders (\<lambda>x. order_id x = order_id ord) (stops_of b sd') = stops_of b sd'"
    and "drop_orders (\<lambda>x. order_id x = order_id ord) (stops_of b sd) =
      (let q' = filter (\<lambda>x. order_id x \<noteq> order_id ord) q
       in if q' = [] then bt_remove t (stops_of b sd) else bt_put t q' (stops_of b sd))"
proof -
  note bk = book_relD [OF rel] and stops = stops_relD [OF book_relD(7) [OF rel]]
  have mem: "(t, q) \<in> set (stops_of b sd)" using q(1) stops(1) by (simp add: bt_get_eq_Some)
  note here = address_of_stop [OF rel mem q(2)]
  show "drop_orders (\<lambda>x. order_id x = order_id ord) (ladder_of S A b sd') = ladder_of S A b sd'"
    using ladder_nonempty [OF bk(1,5)] address_of_rest [OF rel] here
    by (intro drop_orders_id) fastforce
  show "drop_orders (\<lambda>x. order_id x = order_id ord) (stops_of b sd') = stops_of b sd'" if "sd' \<noteq> sd"
    using stops(3) address_of_stop [OF rel] here that by (intro drop_orders_id) fastforce
  show "drop_orders (\<lambda>x. order_id x = order_id ord) (stops_of b sd) =
      (let q' = filter (\<lambda>x. order_id x \<noteq> order_id ord) q
       in if q' = [] then bt_remove t (stops_of b sd) else bt_put t q' (stops_of b sd))"
    using bt_drop [OF stops(1) q(1), of "\<lambda>x. order_id x = order_id ord"] stops(3)
      address_of_stop [OF rel] here unfolding Let_def by fastforce
qed

text \<open>A level is written back, or removed when its queue has become empty.\<close>

lemma close_level:
  assumes "ok s" and put: "writes_level S ok covers s sd p put"
    and l: "bl_price l = p" "bl_side l = sd" and q: "queue_ok L q ks"
  shows "\<exists>s' x. (if queue_is_empty q then map_option snd (remove_level S (put (l\<lparr>bl_queue := q\<rparr>)) sd p)
        else Some (put (l\<lparr>bl_queue := q\<rparr>))) = Some s' \<and>
    ok s' \<and> covers s' = covers s \<and> lookup_level S s' = set_level (lookup_level S s) sd p x \<and>
    (case x of None \<Rightarrow> ks = [] | Some l \<Rightarrow> ks \<noteq> [] \<and> queue_ok L (bl_queue l) ks)"
proof -
  let ?l = "l\<lparr>bl_queue := q\<rparr>"
  have put_l: "ok (put ?l)" "lookup_level S (put ?l) = set_level (lookup_level S s) sd p (Some ?l)"
    "covers (put ?l) = covers s"
    using writes_levelD [OF put] l by simp_all
  show ?thesis
  proof (cases "ks = []")
    case True
    from remove_total [OF put_l(1), of sd p] obtain s' where
      "remove_level S (put ?l) sd p = Some (Some ?l, s')" "ok s'" "covers s' = covers s"
      "lookup_level S s' = set_level (lookup_level S s) sd p None"
      unfolding put_l(2,3) by auto
    with True queue_ok_empty [OF q] show ?thesis by (intro exI [of _ s'] exI [of _ None]) simp
  next
    case False
    with put_l queue_ok_empty [OF q] q show ?thesis by (intro exI [of _ "put ?l"] exI [of _ "Some ?l"]) simp
  qed
qed

lemma cancel_in_book_refines:
  assumes rel: "book_rel S ok covers A b K" and addr: "hm_get (ob_index b) i = Some (Book_Address sd p k)"
  shows "\<exists>b'. cancel_in_book S A (b\<lparr>ob_index := hm_remove i (ob_index b)\<rparr>) sd p k = Some b' \<and>
    book_ok S ok covers A b' \<and> abs_of S A b' = snd (spec_cancel (abs_of S A b) i)"
proof -
  note bk = book_relD [OF rel]
  let ?L = "arena_get A (ob_nodes b)" and ?index = "hm_remove i (ob_index b)"
  have k: "k \<in> set (K sd p)" "order_id (the (order_at ?L k)) = i"
    using index_relD [OF bk(8), of i "Book_Address sd p k"] addr by simp_all
  then obtain l where l: "lookup_level S (ob_store b) sd p = Some l"
    using levels_relD(1) [OF bk(5), of sd p] by force
  note wf = level_wf [OF bk(1) l] and queue = levels_relD(2) [OF bk(5) l]
  from level_mut_Some [OF bk(1) l] obtain put where
    mut: "level_mut S (ob_store b) sd p = Some (Some (l, put))"
      "writes_level S ok covers (ob_store b) sd p put" by blast
  from k(1) obtain xs ys where split: "K sd p = xs @ k # ys" by (meson split_list)
  have dist: "k \<notin> set xs" "k \<notin> set ys" using queue split by (auto simp: queue_ok_def)
  from remove_key_spec [OF arena queue [unfolded split]] obtain ord q m where
    rem: "remove_key A (bl_queue l) (ob_nodes b) k = Some (Some ord, q, m)" "order_at ?L k = Some ord"
      "queue_ok (arena_get A m) q (xs @ ys)" "order_at (arena_get A m) = (order_at ?L)(k := None)"
      "\<forall>k'. k' \<notin> set (K sd p) \<longrightarrow> arena_get A m k' = ?L k'"
    unfolding split by blast
  from close_level [OF bk(1) mut(2) _ _ rem(3), of l] wf obtain s x where
    close: "(if queue_is_empty q then map_option snd (remove_level S (put (l\<lparr>bl_queue := q\<rparr>)) sd p)
        else Some (put (l\<lparr>bl_queue := q\<rparr>))) = Some s"
      "ok s" "covers s = covers (ob_store b)" "lookup_level S s = set_level (lookup_level S (ob_store b)) sd p x"
      "case x of None \<Rightarrow> xs @ ys = [] | Some l \<Rightarrow> xs @ ys \<noteq> [] \<and> queue_ok (arena_get A m) (bl_queue l) (xs @ ys)"
    by auto
  define b' where "b' = b\<lparr>ob_store := s, ob_nodes := m, ob_index := ?index\<rparr>"
  have run: "cancel_in_book S A (b\<lparr>ob_index := ?index\<rparr>) sd p k = Some b'"
    using mut(1) rem(1) close(1) by (auto simp: cancel_in_book_def b'_def split: if_splits)
  have ks: "xs @ ys = filter (\<lambda>k'. k' \<noteq> k) (K sd p)"
  proof -
    have "filter (\<lambda>k'. k' \<noteq> k) xs = xs" "filter (\<lambda>k'. k' \<noteq> k) ys = ys"
      using dist by (auto simp: filter_id_iff)
    then show ?thesis by (simp add: split)
  qed
  have live: "\<exists>v. order_at ?L k' = Some v" if "k' \<in> set (K sd p)" for k'
    using queue_ok_live [OF queue that] by auto
  have kept: "\<exists>v. order_at (arena_get A m) k' = Some ((the (order_at ?L k'))\<lparr>remaining_quantity := v\<rparr>) \<and>
      v \<noteq> 0 \<and> is_multiple_of (base v) (lot_size (ob_spec b))" if "k' \<in> set (xs @ ys)" for k'
  proof -
    have k': "k' \<in> set (K sd p)" "k' \<noteq> k" using that dist by (auto simp: split)
    from live [OF k'(1)] obtain v where v: "order_at ?L k' = Some v" by blast
    have "tradable (ob_spec b) v"
      using orders_relD(3) [OF bk(6) k'(1)] v by (simp add: resting_def)
    then show ?thesis
      using k'(2) v by (intro exI [of _ "remaining_quantity v"]) (simp add: rem(4) tradable_def)
  qed
  have gone: "order_at (arena_get A m) k' = None" if "k' \<in> set (K sd p)" "k' \<notin> set (xs @ ys)" for k'
    using that by (auto simp: rem(4) split)
  have removed: "set (K sd p) - set (xs @ ys) = {k}" using dist by (auto simp: split)
  note facts = shrink_level [OF rel close(2,3,4,5) ks, of ?index, OF _ kept gone, folded b'_def]
  have shrunk: "book_rel S ok covers A b' (set_keys K sd p (xs @ ys))"
    "\<And>sd'. sd' \<noteq> sd \<Longrightarrow> ladder_of S A b' sd' = ladder_of S A b sd'"
    "map_of (ladder_of S A b' sd) = (map_of (ladder_of S A b sd))(p := level_at (order_at (arena_get A m)) (xs @ ys))"
    using facts rem(5) bk(8) removed k(2) by (simp_all add: index_rel_def)
  have elsewhere: "order_id ord' \<noteq> i" if "(p', os) \<in> set (ladder_of S A b sd')" "ord' \<in> set os" "sd' \<noteq> sd \<or> p' \<noteq> p"
    for sd' p' os ord'
    using address_of_rest [OF rel that(1,2)] addr that(3) by auto
  have "ladder_of S A b' sd' = drop_orders (\<lambda>x. order_id x = i) (ladder_of S A b sd')" for sd'
  proof (cases "sd' = sd")
    case False
    have "drop_orders (\<lambda>x. order_id x = i) (ladder_of S A b sd') = ladder_of S A b sd'"
      using ladder_nonempty [OF bk(1,5)] elsewhere False by (intro drop_orders_id) force
    with shrunk(2) False show ?thesis by simp
  next
    case True
    note old = ladder_spec [OF bk(1,5), of sd]
    have at_p: "level_at (order_at (arena_get A m)) (xs @ ys) =
        Option.bind (map_of (ladder_of S A b sd) p) (\<lambda>os. if filter (\<lambda>x. order_id x \<noteq> i) os = [] then None
          else Some (filter (\<lambda>x. order_id x \<noteq> i) os))"
    proof -
      have other: "order_id (the (order_at ?L k')) \<noteq> i" if "k' \<in> set (K sd p)" "k' \<noteq> k" for k'
        using ids_distinct [OF bk(8) k(1) that(1)] k(2) that(2) by metis
      have "filter (\<lambda>x. order_id x \<noteq> i) (orders_at ?L (K sd p)) = orders_at (arena_get A m) (xs @ ys)"
        unfolding filter_map comp_def ks using k(2) other
        by (intro map_cong filter_cong) (auto simp: rem(4))
      then show ?thesis unfolding old(2) by (auto simp: level_at_def split)
    qed
    have at_q: "Option.bind (map_of (ladder_of S A b sd) p') (\<lambda>os. if filter (\<lambda>x. order_id x \<noteq> i) os = [] then None
        else Some (filter (\<lambda>x. order_id x \<noteq> i) os)) = map_of (ladder_of S A b sd) p'" if "p' \<noteq> p" for p'
    proof (cases "map_of (ladder_of S A b sd) p'")
      case (Some os)
      then have mem: "(p', os) \<in> set (ladder_of S A b sd)" by (rule map_of_SomeD)
      then have "filter (\<lambda>x. order_id x \<noteq> i) os = os" "os \<noteq> []"
        using elsewhere that ladder_nonempty [OF bk(1,5) mem] by (auto simp: filter_id_iff)
      with Some show ?thesis by simp
    qed simp
    have "ladder_of S A b' sd = drop_orders (\<lambda>x. order_id x = i) (ladder_of S A b sd)"
    proof (rule ladder_eqI)
      show "ladder_sorted sd (ladder_of S A b' sd)"
        by (rule ladder_spec(1) [OF book_relD(1,5) [OF shrunk(1)]])
      show "ladder_sorted sd (drop_orders (\<lambda>x. order_id x = i) (ladder_of S A b sd))"
        by (rule ladder_sorted_drop [OF old(1)])
      show "map_of (ladder_of S A b' sd) = map_of (drop_orders (\<lambda>x. order_id x = i) (ladder_of S A b sd))"
        unfolding shrunk(3) using at_p at_q by (auto simp: fun_eq_iff map_of_drop [OF old(1)])
    qed
    with True show ?thesis by simp
  qed
  moreover have "drop_orders (\<lambda>x. order_id x = i) (stops_of b sd') = stops_of b sd'" for sd'
    using stops_relD(3) [OF bk(7)] address_of_stop [OF rel] addr by (intro drop_orders_id) fastforce
  moreover have "is_live (abs_of S A b) i" using is_live_iff [OF rel] addr by simp
  ultimately have "abs_of S A b' = snd (spec_cancel (abs_of S A b) i)"
    by (simp add: spec_cancel_def abs_of_def b'_def fun_eq_iff stops_of_def [abs_def])
  with run shrunk(1) show ?thesis by (auto simp: book_ok_def)
qed

lemma cancel_order_refines:
  assumes "book_ok S ok covers A b"
  shows "\<exists>b'. cancel_order S A b i = Some (fst (spec_cancel (abs_of S A b) i), b') \<and>
    book_ok S ok covers A b' \<and> abs_of S A b' = snd (spec_cancel (abs_of S A b) i)"
proof -
  from assms obtain K where rel: "book_rel S ok covers A b K" by (auto simp: book_ok_def)
  note bk = book_relD [OF rel] and live = is_live_iff [OF rel, of i]
  show ?thesis
  proof (cases "hm_get (ob_index b) i")
    case None
    with live assms show ?thesis by (simp add: cancel_order_def spec_cancel_def)
  next
    case (Some a)
    show ?thesis
    proof (cases a)
      case (Book_Address sd p k)
      from cancel_in_book_refines [OF rel Some [unfolded this]] obtain b' where
        "cancel_in_book S A (b\<lparr>ob_index := hm_remove i (ob_index b)\<rparr>) sd p k = Some b'"
        "book_ok S ok covers A b'" "abs_of S A b' = snd (spec_cancel (abs_of S A b) i)" by blast
      with Some Book_Address live show ?thesis by (simp add: cancel_order_def spec_cancel_def)
    next
      case (Stop_Address sd t)
      from index_relD [OF bk(8), of i a] Some Stop_Address obtain q ord where
        q: "bt_get (stops_of b sd) t = Some q" "ord \<in> set q" "order_id ord = i" by auto
      let ?b = "b\<lparr>ob_index := hm_remove i (ob_index b)\<rparr>" and ?drop = "drop_orders (\<lambda>x. order_id x = i)"
      note ladders = drop_stop_ladders [OF rel q(1,2), unfolded q(3)]
      have "cancel_in_stops ?b i sd t = set_stops sd (?drop (stops_of b sd)) ?b"
        unfolding ladders(3) using q(1) by (simp add: cancel_in_stops_def Let_def)
      moreover have "abs_of S A (set_stops sd (?drop (stops_of b sd)) ?b) = snd (spec_cancel (abs_of S A b) i)"
        using live Some ladders(1,2) ladder_eq [of "set_stops sd (?drop (stops_of b sd)) ?b" b]
        by (simp add: spec_cancel_def abs_of_def fun_eq_iff)
      ultimately show ?thesis
        using drop_stop [OF rel q(1,2)] Some Stop_Address live q(3)
        by (auto simp: cancel_order_def spec_cancel_def book_ok_def)
    qed
  qed
qed

section \<open>The stop book\<close>

text \<open>The last price and the sequence number are outside the invariant.\<close>

lemma book_ok_trivial [simp]:
  "book_ok S ok covers A (b\<lparr>last_trade_price := p\<rparr>) = book_ok S ok covers A b"
  "book_ok S ok covers A (b\<lparr>next_seq := n\<rparr>) = book_ok S ok covers A b"
  by (simp_all add: book_ok_def book_rel_def)

lemma abs_of_trivial [simp]:
  "abs_of S A (b\<lparr>last_trade_price := p\<rparr>) = (abs_of S A b)\<lparr>ab_last := p\<rparr>"
  "abs_of S A (b\<lparr>next_seq := n\<rparr>) = (abs_of S A b)\<lparr>ab_seq := n\<rparr>"
  by (simp_all add: abs_of_def ladder_of_def fun_eq_iff)

lemma park_stop_refines:
  assumes "book_ok S ok covers A b" and ord: "parked (ob_spec b) (order_side ord) trigger ord"
  shows "\<exists>b'. park_stop b ord trigger = (fst (spec_park (abs_of S A b) ord trigger), b') \<and>
    book_ok S ok covers A b' \<and> abs_of S A b' = snd (spec_park (abs_of S A b) ord trigger)"
proof -
  from assms(1) obtain K where rel: "book_rel S ok covers A b K" by (auto simp: book_ok_def)
  note bk = book_relD [OF rel] and live = is_live_iff [OF rel, of "order_id ord"]
  show ?thesis
  proof (cases "hm_get (ob_index b) (order_id ord)")
    case (Some a)
    with live assms(1) show ?thesis by (simp add: park_stop_def spec_park_def)
  next
    case None
    let ?sd = "order_side ord" and ?O = "order_at (arena_get A (ob_nodes b))"
    define old where "old = (case bt_get (stops_of b ?sd) trigger of None \<Rightarrow> [] | Some q \<Rightarrow> q)"
    define stops where "stops = (stops_of b)(?sd := bt_put trigger (old @ [ord]) (stops_of b ?sd))"
    define index where "index = hm_insert (order_id ord) (Stop_Address ?sd trigger) (ob_index b)"
    define b' where "b' = set_stops ?sd (stops ?sd) (b\<lparr>ob_index := index\<rparr>)"
    have free: "\<not> addressed ?O K (stops_of b) (order_id ord) a" for a
      using index_relD [OF bk(8), of "order_id ord" a] None by simp
    have old_mem: "(trigger, old) \<in> set (stops_of b ?sd)" if "old \<noteq> []"
    proof (cases "bt_get (stops_of b ?sd) trigger")
      case (Some q)
      then have "old = q" by (simp add: old_def)
      with Some show ?thesis using stops_relD(1) [OF bk(7)] by (simp add: bt_get_eq_Some)
    qed (use that in \<open>simp add: old_def\<close>)
    have old_ok: "stop_queue_ok (ob_spec b) ?sd trigger (old @ [ord])"
    proof -
      have "order_id x \<noteq> order_id ord \<and> parked (ob_spec b) ?sd trigger x" if "x \<in> set old" for x
      proof -
        have mem: "(trigger, old) \<in> set (stops_of b ?sd)" by (rule old_mem) (use that in auto)
        show ?thesis
          using address_of_stop [OF rel mem that] stops_relD(5) [OF bk(7) mem that] None by auto
      qed
      moreover have "distinct (map order_id old)"
        using stops_relD(4) [OF bk(7) old_mem] by (cases "old = []") simp_all
      ultimately show ?thesis using ord by (force simp: stop_queue_ok_def)
    qed
    have "stop_queue_ok (ob_spec b) sd (fst l) (snd l)" if "l \<in> set (stops sd)" for sd l
    proof -
      obtain t q where l: "l = (t, q)" by (cases l)
      have "bt_ok (stops sd)" using stops_relD(1) [OF bk(7)] by (simp add: stops_def)
      with that l have "bt_get (stops sd) t = Some q" by (simp add: bt_get_eq_Some)
      then have "sd = ?sd \<and> t = trigger \<and> q = old @ [ord] \<or> bt_get (stops_of b sd) t = Some q"
        by (auto simp: stops_def split: if_splits)
      then show ?thesis
        using old_ok stops_relD(2) [OF bk(7)] stops_relD(1) [OF bk(7), of sd] l by (auto simp: bt_get_eq_Some)
    qed
    then have "stops_rel (ob_spec b) stops"
      using stops_relD(1) [OF bk(7)] by (simp add: stops_rel_def stops_def)
    moreover have "hm_get index j = Some a \<longleftrightarrow> addressed ?O K stops j a" for j a
    proof -
      have "addressed ?O K stops j a \<longleftrightarrow> addressed ?O K (stops_of b) j a \<or>
          j = order_id ord \<and> a = Stop_Address ?sd trigger"
        by (cases a; cases "bt_get (stops_of b ?sd) trigger") (auto simp: stops_def old_def split: if_splits)
      then show ?thesis using index_relD [OF bk(8), of j a] free [of a] by (auto simp: index_def)
    qed
    ultimately have "book_rel S ok covers A b' K"
      using rel by (simp add: book_rel_def index_rel_def config_ok_def b'_def index_def stops_def)
    moreover have "park_stop b ord trigger = (Inr (ExecutionReport (order_id ord) [] StopPending [] []), b')"
      using None by (simp add: park_stop_def old_def [symmetric] b'_def stops_def index_def Let_def)
    moreover have "abs_of S A b' = (abs_of S A b)\<lparr>ab_stops := stops\<rparr>"
      using ladder_eq [of b' b] by (simp add: abs_of_def b'_def fun_eq_iff stops_def)
    ultimately show ?thesis
      using live None by (auto simp: spec_park_def book_ok_def stops_def old_def)
  qed
qed

text \<open>Taking the stop that is due.\<close>

lemma take_stop_refines:
  assumes rel: "book_rel S ok covers A b K" and near: "nearest sd (stops_of b sd) = (t, q) # L"
  shows "\<exists>ord q' b'. q = ord # q' \<and> take_stop b sd t q = Some (Some ord, b') \<and>
    book_rel S ok covers A b' K \<and> abs_of S A b' = spec_take (abs_of S A b) sd \<and> parked (ob_spec b) sd t ord \<and>
    \<not> is_live (abs_of S A b') (order_id ord) \<and> ob_spec b' = ob_spec b \<and> next_arrival b' = next_arrival b"
proof -
  note bk = book_relD [OF rel]
  have mem: "(t, q) \<in> set (stops_of b sd)"
    using near by (cases sd) (auto simp: nearest_def rev_eq_Cons_iff)
  then have get: "bt_get (stops_of b sd) t = Some q" using stops_relD(1) [OF bk(7)] by (simp add: bt_get_eq_Some)
  from stops_relD(3) [OF bk(7) mem] obtain ord q' where q: "q = ord # q'" by (cases q) auto
  let ?b = "b\<lparr>ob_index := hm_remove (order_id ord) (ob_index b)\<rparr>"
  let ?drop = "drop_orders (\<lambda>x. order_id x = order_id ord) (stops_of b sd)"
  have rest: "filter (\<lambda>x. order_id x \<noteq> order_id ord) q = q'"
  proof -
    have "\<forall>x\<in>set q'. order_id x \<noteq> order_id ord"
      using stops_relD(4) [OF bk(7) mem] unfolding q by (simp, metis image_eqI)
    then show ?thesis by (simp add: q filter_id_iff)
  qed
  have head: "ord \<in> set q" by (simp add: q)
  note drop = drop_stop_ladders(3) [OF rel get head, unfolded rest Let_def]
  have flat: "stops_of b sd = nearest sd ((t, ord # q') # L)" using near q by (metis nearest_nearest)
  have sorted: "bt_ok (nearest sd ((t, ord # q') # L))" using stops_relD(1) [OF bk(7)] flat by metis
  have "?drop = nearest sd (take_front ((t, ord # q') # L))"
    unfolding drop unfolding flat using sorted
    by (cases sd; cases q') (simp_all add: nearest_def bt_remove_last bt_put_last)
  then have taken: "?drop = nearest sd (take_front (nearest sd (stops_of b sd)))" by (simp only: near q)
  let ?b' = "set_stops sd ?drop ?b"
  have "take_stop b sd t q = Some (Some ord, ?b')"
    unfolding drop by (cases sd) (simp_all add: take_stop_def q set_stops_def)
  moreover have "abs_of S A ?b' = spec_take (abs_of S A b) sd"
    unfolding taken using ladder_eq [of "set_stops sd (nearest sd (take_front (nearest sd (stops_of b sd)))) ?b" b]
    by (simp add: spec_take_def abs_of_def)
  moreover have "parked (ob_spec b) sd t ord" by (rule stops_relD(5) [OF bk(7) mem head])
  moreover have "\<not> is_live (abs_of S A ?b') (order_id ord)"
    using is_live_iff [OF drop_stop [OF rel get head], of "order_id ord"] by simp
  ultimately show ?thesis using drop_stop [OF rel get head] q by auto
qed

lemma pop_refines:
  assumes "book_ok S ok covers A b"
  shows "\<exists>b'. pop_triggered_stop b = Some (map_option fst (spec_pop (abs_of S A b)), b') \<and> book_ok S ok covers A b' \<and>
    abs_of S A b' = (case spec_pop (abs_of S A b) of None \<Rightarrow> abs_of S A b | Some (ord, ab) \<Rightarrow> ab) \<and>
    (case spec_pop (abs_of S A b) of None \<Rightarrow> True | Some (ord, ab) \<Rightarrow>
      (\<exists>sd t. parked (ob_spec b) sd t ord) \<and> \<not> is_live ab (order_id ord)) \<and>
    ob_spec b' = ob_spec b \<and> next_arrival b' = next_arrival b"
proof -
  from assms obtain K where rel: "book_rel S ok covers A b K" by (auto simp: book_ok_def)
  define popped where "popped sd = (case nearest sd (stops_of b sd) of
      [] \<Rightarrow> None
    | (t, q) # L \<Rightarrow> if already_triggered (last_trade_price b) sd t then Some (t, q) else None)" for sd
  have due: "case popped sd of
      None \<Rightarrow> stop_due (abs_of S A b) sd = None
    | Some (t, q) \<Rightarrow> \<exists>ord b'. stop_due (abs_of S A b) sd = Some ord \<and>
        take_stop b sd t q = Some (Some ord, b') \<and> book_rel S ok covers A b' K \<and>
        abs_of S A b' = spec_take (abs_of S A b) sd \<and> parked (ob_spec b) sd t ord \<and>
        \<not> is_live (abs_of S A b') (order_id ord) \<and> ob_spec b' = ob_spec b \<and> next_arrival b' = next_arrival b" for sd
  proof (cases "nearest sd (stops_of b sd)")
    case Nil
    then show ?thesis by (simp add: popped_def stop_due_def)
  next
    case (Cons l L)
    obtain t q where l: "l = (t, q)" by (cases l)
    with take_stop_refines [OF rel, of sd t q L] Cons show ?thesis
      by (auto simp: popped_def stop_due_def)
  qed
  have "pop_triggered_stop b = (case popped Bid of Some (t, q) \<Rightarrow> take_stop b Bid t q
      | None \<Rightarrow> (case popped Ask of Some (t, q) \<Rightarrow> take_stop b Ask t q | None \<Rightarrow> Some (None, b)))"
    by (auto simp: pop_triggered_stop_def popped_def already_triggered_def nearest_def bt_first_def bt_last_def
        stops_of_def hd_rev [symmetric] split: option.splits list.splits prod.splits)
  note pop = this
  show ?thesis
  proof (cases "popped Bid")
    case (Some due_bid)
    with due [of Bid] show ?thesis
      unfolding pop by (cases due_bid) (fastforce simp: spec_pop_def book_ok_def)
  next
    case None
    note no_bid = this
    show ?thesis
    proof (cases "popped Ask")
      case (Some due_ask)
      with no_bid due [of Bid] due [of Ask] show ?thesis
        unfolding pop by (cases due_ask) (fastforce simp: spec_pop_def book_ok_def)
    next
      case None
      with no_bid due [of Bid] due [of Ask] assms show ?thesis
        unfolding pop by (simp add: spec_pop_def)
    qed
  qed
qed

end

end
