(* ===== verification/Level_Trades.thy ===== *)
theory Level_Trades
  imports Book_Refinement
begin

text \<open>
  The fills of one level: what they do to the makers and the taker as lists of orders, and that the
  engine's two passes over the arena, applying and unlinking, do the same.
\<close>

section \<open>Fills on a list of orders\<close>

lemma fill_orders_length [simp]:
  "fill_orders p fs os tk = (ts, os', tk') \<Longrightarrow> length os' = length os"
  by (induction p fs os tk arbitrary: ts os' tk' rule: fill_orders.induct)
    (auto simp: Let_def split: prod.splits)

text \<open>Nothing but quantities changes.\<close>

lemma fill_orders_taker:
  "fill_orders p fs os tk = (ts, os', tk') \<Longrightarrow> \<exists>r. tk' = tk\<lparr>remaining_quantity := r\<rparr>"
proof (induction p fs os tk arbitrary: ts os' tk' rule: fill_orders.induct)
  case (1 p os tk)
  then show ?case by (intro exI [of _ "remaining_quantity tk"]) simp
next
  case (2 p f fs os tk)
  then show ?case by (fastforce simp: Let_def reduce_def split: prod.splits)
qed

lemma fill_orders_makers:
  "fill_orders p fs os tk = (ts, os', tk') \<Longrightarrow> \<forall>f\<in>set fs. order_index f < length os \<Longrightarrow> i < length os \<Longrightarrow>
     \<exists>q. os' ! i = (os ! i)\<lparr>remaining_quantity := q\<rparr>"
proof (induction p fs os tk arbitrary: ts os' tk' rule: fill_orders.induct)
  case (1 p os tk)
  then show ?case by (intro exI [of _ "remaining_quantity (os ! i)"]) simp
next
  case (2 p f fs os tk)
  obtain ts1 where step: "fill_orders p fs (os[order_index f := reduce (os ! order_index f) (fill_quantity f)])
      (reduce tk (fill_quantity f)) = (ts1, os', tk')"
    using "2.prems"(1) by (auto simp: Let_def split: prod.splits)
  from "2.IH" [OF refl step] "2.prems"(2,3) obtain q where
    "os' ! i = (os[order_index f := reduce (os ! order_index f) (fill_quantity f)] ! i)\<lparr>remaining_quantity := q\<rparr>"
    by auto
  then show ?case
    using "2.prems"(3) by (cases "i = order_index f") (auto simp: reduce_def)
qed

text \<open>Under the allocation contract no subtraction wraps.\<close>

lemma filled_at_Cons:
  "filled_at (f # fs) i = (if order_index f = i then units (fill_quantity f) else 0) + filled_at fs i"
  by (simp add: filled_at_def)

lemma filled_at_absent: "i \<notin> order_index ` set fs \<Longrightarrow> filled_at fs i = 0"
  by (induction fs) (auto simp: filled_at_def)

lemma fill_orders_exact:
  "fill_orders p fs os tk = (ts, os', tk') \<Longrightarrow> distinct (map order_index fs) \<Longrightarrow>
     \<forall>f\<in>set fs. order_index f < length os \<and> fill_quantity f \<le> remaining_quantity (os ! order_index f) \<Longrightarrow>
     filled_units fs \<le> units (remaining_quantity tk) \<Longrightarrow>
     units (remaining_quantity tk') + filled_units fs = units (remaining_quantity tk) \<and>
     (\<forall>i<length os. units (remaining_quantity (os' ! i)) + filled_at fs i = units (remaining_quantity (os ! i)))"
proof (induction p fs os tk arbitrary: ts os' tk' rule: fill_orders.induct)
  case (1 p os tk)
  then show ?case by (simp add: filled_at_def)
next
  case (2 p f fs os tk)
  let ?i = "order_index f" and ?q = "fill_quantity f"
  let ?os = "os[?i := reduce (os ! ?i) ?q]" and ?tk = "reduce tk ?q"
  obtain ts1 where step: "fill_orders p fs ?os ?tk = (ts1, os', tk')"
    using "2.prems"(1) by (auto simp: Let_def split: prod.splits)
  have fresh: "?i \<notin> order_index ` set fs" using "2.prems"(2) by simp
  have i: "?i < length os" "?q \<le> remaining_quantity (os ! ?i)" using "2.prems"(3) by auto
  have le: "?q \<le> remaining_quantity tk" using "2.prems"(4) by (simp add: qty_le_units)
  have tk: "units (remaining_quantity ?tk) + units ?q = units (remaining_quantity tk)"
    using units_diff [OF le] le by (simp add: reduce_def qty_le_units)
  have rest: "\<forall>f'\<in>set fs. order_index f' < length ?os \<and> fill_quantity f' \<le> remaining_quantity (?os ! order_index f')"
    using "2.prems"(3) fresh by (auto simp: nth_list_update)
  have "filled_units fs \<le> units (remaining_quantity ?tk)" using "2.prems"(4) tk by simp
  from "2.IH" [OF refl step _ rest this] "2.prems"(2)
  have IH: "units (remaining_quantity tk') + filled_units fs = units (remaining_quantity ?tk)"
    "\<forall>i<length os. units (remaining_quantity (os' ! i)) + filled_at fs i = units (remaining_quantity (?os ! i))"
    by auto
  have "units (remaining_quantity (os' ! j)) + filled_at (f # fs) j = units (remaining_quantity (os ! j))"
    if "j < length os" for j
  proof (cases "j = ?i")
    case True
    have "units (remaining_quantity (os' ! ?i)) + filled_at fs ?i = units (remaining_quantity (?os ! ?i))"
      using IH(2) i(1) by blast
    with True i(1) filled_at_absent [OF fresh] units_diff [OF i(2)] i(2) show ?thesis
      by (simp add: filled_at_Cons reduce_def qty_le_units)
  next
    case False
    then show ?thesis using IH(2) that by (simp add: filled_at_Cons)
  qed
  then show ?case using IH(1) tk by simp
qed

text \<open>The trades, one for each fill.\<close>

lemma fill_orders_trades:
  "fill_orders p fs os tk = (ts, os', tk') \<Longrightarrow> distinct (map order_index fs) \<Longrightarrow>
     list_all2 (\<lambda>t f. trade_price t = p \<and> trade_quantity t = fill_quantity f \<and>
       maker_order_id t = order_id (os ! order_index f) \<and> maker_client t = client (os ! order_index f) \<and>
       taker_order_id t = order_id tk \<and> taker_client t = client tk \<and> taker_side t = order_side tk \<and>
       trade_timestamp t = timestamp tk) ts fs"
proof (induction p fs os tk arbitrary: ts os' tk' rule: fill_orders.induct)
  case (2 p f fs os tk)
  let ?i = "order_index f" and ?q = "fill_quantity f"
  let ?os = "os[?i := reduce (os ! ?i) ?q]" and ?tk = "reduce tk ?q"
  obtain ts1 where step: "fill_orders p fs ?os ?tk = (ts1, os', tk')" "ts = trade_of p ?q (os ! ?i) tk # ts1"
    using "2.prems"(1) by (auto simp: Let_def split: prod.splits)
  have fresh: "?i \<notin> order_index ` set fs" using "2.prems"(2) by simp
  from "2.IH" [OF refl step(1)] "2.prems"(2) show ?case
    unfolding step(2) using fresh
    by (auto simp: trade_of_def reduce_def nth_list_update image_iff elim!: list_all2_mono list.rel_mono_strong)
qed simp

section \<open>The same on the arena\<close>

definition same_links :: "('k \<Rightarrow> 'k node option) \<Rightarrow> ('k \<Rightarrow> 'k node option) \<Rightarrow> bool" where
  "same_links L L' \<longleftrightarrow>
     (\<forall>k. map_option (\<lambda>n. (prev_key n, next_key n)) (L' k) = map_option (\<lambda>n. (prev_key n, next_key n)) (L k))"

lemma same_links_trans: "same_links L L' \<Longrightarrow> same_links L' L'' \<Longrightarrow> same_links L L''"
  by (simp add: same_links_def)

lemma seg_links: "same_links L L' \<Longrightarrow> seg L p ks e \<longleftrightarrow> seg L' p ks e"
proof (induction ks arbitrary: p)
  case (Cons k ks)
  have "map_option (\<lambda>n. (prev_key n, next_key n)) (L' k) = map_option (\<lambda>n. (prev_key n, next_key n)) (L k)"
    using Cons.prems by (simp add: same_links_def)
  then have "(\<exists>n. L k = Some n \<and> prev_key n = p \<and> next_key n = e') \<longleftrightarrow>
      (\<exists>n. L' k = Some n \<and> prev_key n = p \<and> next_key n = e')" for e'
    by (cases "L k"; cases "L' k") auto
  with Cons show ?case by simp
qed simp

lemma queue_ok_links: "same_links L L' \<Longrightarrow> queue_ok L' q ks = queue_ok L q ks"
  using seg_links [of L L' None ks None] by (simp add: queue_ok_def)

lemma apply_fills_spec:
  assumes laws: "arena_laws A" and keys: "distinct keys"
  shows "\<forall>f\<in>set fills. order_index f < length keys \<Longrightarrow> \<forall>k\<in>set keys. arena_get A m k \<noteq> None \<Longrightarrow>
    fill_orders p fills (orders_at (arena_get A m) keys) tk = (ts, os', tk') \<Longrightarrow>
    \<exists>m'. apply_fills A p keys fills tk m = Some (ts, tk', m') \<and> orders_at (arena_get A m') keys = os' \<and>
      same_links (arena_get A m) (arena_get A m') \<and>
      (\<forall>k. k \<notin> set keys \<longrightarrow> arena_get A m' k = arena_get A m k)"
proof (induction fills arbitrary: tk m ts)
  case Nil
  then show ?case by (simp add: same_links_def)
next
  case (Cons f fills)
  let ?L = "arena_get A m" and ?i = "order_index f" and ?q = "fill_quantity f"
  define key where "key = keys ! ?i"
  have i: "?i < length keys" using Cons.prems(1) by simp
  then have key: "key \<in> set keys" by (simp add: key_def)
  then obtain n where n: "?L key = Some n" using Cons.prems(2) by blast
  from arena_lawsD(9) [OF laws n] obtain put where put: "arena_get_mut A m key = Some (n, put)"
    "\<And>n'. arena_get A (put n') = ?L(key \<mapsto> n')" by blast
  let ?n = "n\<lparr>node_order := reduce (node_order n) ?q\<rparr>"
  have mk: "orders_at ?L keys ! ?i = node_order n" using i n by (simp add: key_def [symmetric])
  have at: "orders_at (arena_get A (put ?n)) keys = (orders_at ?L keys)[?i := reduce (node_order n) ?q]"
    using keys i by (intro nth_equalityI) (auto simp: put(2) nth_list_update key_def nth_eq_iff_index_eq)
  have live: "\<forall>k\<in>set keys. arena_get A (put ?n) k \<noteq> None" using Cons.prems(2) by (simp add: put(2))
  obtain ts1 where step: "fill_orders p fills (orders_at (arena_get A (put ?n)) keys) (reduce tk ?q) = (ts1, os', tk')"
    "ts = trade_of p ?q (node_order n) tk # ts1"
    using Cons.prems(3) mk by (auto simp: at Let_def split: prod.splits)
  have "same_links ?L (arena_get A (put ?n))" using n by (simp add: same_links_def put(2))
  moreover from Cons.IH [OF _ live step(1)] Cons.prems(1) obtain m' where
    IH: "apply_fills A p keys fills (reduce tk ?q) (put ?n) = Some (ts1, tk', m')"
      "orders_at (arena_get A m') keys = os'" "same_links (arena_get A (put ?n)) (arena_get A m')"
      "\<forall>k. k \<notin> set keys \<longrightarrow> arena_get A m' k = arena_get A (put ?n) k" by auto
  moreover have "apply_fills A p keys (f # fills) tk m = Some (ts, tk', m')"
    using IH(1) put(1) i step(2) nth_opt_eq_Some [of keys ?i key] by (simp add: key_def [symmetric])
  moreover have "\<forall>k. k \<notin> set keys \<longrightarrow> arena_get A m' k = ?L k"
    using IH(4) key by (auto simp: put(2))
  ultimately show ?case using same_links_trans by blast
qed

lemma hm_forget:
  "hm_ok index \<Longrightarrow> hm_ok (forget os index)"
  "hm_get (forget os index) i = (if i \<in> order_id ` set os then None else hm_get index i)"
  unfolding forget_def by (induction os arbitrary: index) auto

lemma forget_append: "forget (xs @ ys) index = forget ys (forget xs index)"
  by (simp add: forget_def)

lemma unlink_exhausted_spec:
  assumes laws: "arena_laws A" and keys: "distinct keys"
  shows "distinct (map order_index fills) \<Longrightarrow>
    \<forall>f\<in>set fills. order_index f < length keys \<and> keys ! order_index f \<in> set cur \<Longrightarrow>
    queue_ok (arena_get A m) q cur \<Longrightarrow>
    exhausted = filter (\<lambda>k. remaining_quantity (the (order_at (arena_get A m) k)) = 0)
      (map (\<lambda>f. keys ! order_index f) fills) \<Longrightarrow>
    \<exists>q' m'. unlink_exhausted A keys fills q m index = Some (q', m', forget (orders_at (arena_get A m) exhausted) index) \<and>
      queue_ok (arena_get A m') q' (filter (\<lambda>k. k \<notin> set exhausted) cur) \<and>
      order_at (arena_get A m') = (\<lambda>k. if k \<in> set exhausted then None else order_at (arena_get A m) k) \<and>
      (\<forall>k. k \<notin> set cur \<longrightarrow> arena_get A m' k = arena_get A m k)"
proof (induction fills arbitrary: q m cur exhausted index)
  case Nil
  then show ?case by (simp add: forget_def)
next
  case (Cons f fills)
  let ?L = "arena_get A m"
  define key where "key = keys ! order_index f"
  have key: "nth_opt keys (order_index f) = Some key" "key \<in> set cur"
    using Cons.prems(2) by (auto simp: key_def nth_opt_eq_Some)
  then obtain n where n: "?L key = Some n" using queue_ok_live [OF Cons.prems(3)] by blast
  have fresh: "keys ! order_index f' \<noteq> key" if "f' \<in> set fills" for f'
  proof -
    have "order_index f' \<in> order_index ` set fills" using that by simp
    then have "order_index f' \<noteq> order_index f" using Cons.prems(1) by auto
    then show ?thesis using Cons.prems(2) keys that by (simp add: key_def nth_eq_iff_index_eq)
  qed
  show ?case
  proof (cases "remaining_quantity (node_order n) = 0")
    case False
    then have "exhausted = filter (\<lambda>k. remaining_quantity (the (order_at ?L k)) = 0)
        (map (\<lambda>f. keys ! order_index f) fills)"
      using Cons.prems(4) n by (simp add: key_def [symmetric])
    from Cons.IH [OF _ _ Cons.prems(3) this, of index] Cons.prems(1,2) False n key show ?thesis by simp
  next
    case True
    obtain xs ys where cur: "cur = xs @ key # ys" using key(2) by (meson split_list)
    from remove_key_spec [OF laws Cons.prems(3) [unfolded cur]] n obtain q1 m1 where
      rem: "remove_key A q m key = Some (Some (node_order n), q1, m1)"
        "queue_ok (arena_get A m1) q1 (xs @ ys)" "order_at (arena_get A m1) = (order_at ?L)(key := None)"
        "\<forall>k. k \<notin> set cur \<longrightarrow> arena_get A m1 k = ?L k"
      unfolding cur by auto
    have dist: "key \<notin> set xs" "key \<notin> set ys" using Cons.prems(3) by (auto simp: cur queue_ok_def)
    define rest where "rest = filter (\<lambda>k. remaining_quantity (the (order_at ?L k)) = 0)
      (map (\<lambda>f. keys ! order_index f) fills)"
    have exhausted: "exhausted = key # rest"
      using Cons.prems(4) True n by (simp add: rest_def key_def [symmetric])
    have "key \<notin> set rest" using fresh by (auto simp: rest_def)
    have rest: "rest = filter (\<lambda>k. remaining_quantity (the (order_at (arena_get A m1) k)) = 0)
        (map (\<lambda>f. keys ! order_index f) fills)"
      unfolding rest_def using fresh by (intro filter_cong) (auto simp: rem(3))
    have "\<forall>f\<in>set fills. order_index f < length keys \<and> keys ! order_index f \<in> set (xs @ ys)"
      using Cons.prems(2) fresh by (auto simp: cur)
    from Cons.IH [OF _ this rem(2) rest, of "hm_remove (order_id (node_order n)) index"] Cons.prems(1)
    obtain q' m' where IH:
      "unlink_exhausted A keys fills q1 m1 (hm_remove (order_id (node_order n)) index) =
        Some (q', m', forget (orders_at (arena_get A m1) rest) (hm_remove (order_id (node_order n)) index))"
      "queue_ok (arena_get A m') q' (filter (\<lambda>k. k \<notin> set rest) (xs @ ys))"
      "order_at (arena_get A m') = (\<lambda>k. if k \<in> set rest then None else order_at (arena_get A m1) k)"
      "\<forall>k. k \<notin> set (xs @ ys) \<longrightarrow> arena_get A m' k = arena_get A m1 k" by auto
    have same: "orders_at (arena_get A m1) rest = orders_at ?L rest"
      by (rule order_at_agree [OF rem(3) \<open>key \<notin> set rest\<close>])
    have "unlink_exhausted A keys (f # fills) q m index = Some (q', m', forget (orders_at ?L exhausted) index)"
      using key(1) n True rem(1) IH(1) unfolding same by (simp add: exhausted forget_def)
    moreover have "filter (\<lambda>k. k \<notin> set exhausted) cur = filter (\<lambda>k. k \<notin> set rest) (xs @ ys)"
    proof -
      have "filter (\<lambda>k. k \<notin> set exhausted) zs = filter (\<lambda>k. k \<notin> set rest) zs" if "key \<notin> set zs" for zs
        using that by (intro filter_cong) (auto simp: exhausted)
      moreover have "key \<in> set exhausted" by (simp add: exhausted)
      ultimately show ?thesis using dist by (simp add: cur)
    qed
    moreover have "order_at (arena_get A m') = (\<lambda>k. if k \<in> set exhausted then None else order_at ?L k)"
      unfolding IH(3) rem(3) exhausted by auto
    moreover have "\<forall>k. k \<notin> set cur \<longrightarrow> arena_get A m' k = ?L k" using IH(4) rem(4) by (simp add: cur)
    ultimately show ?thesis using IH(2) by auto
  qed
qed

section \<open>One level\<close>

lemma alloc_inputs_level:
  assumes "lot \<noteq> 0" and "is_multiple_of (base (remaining_quantity tk)) lot" and "length os < 2 ^ 63"
    and "\<forall>ord\<in>set os. is_multiple_of (base (remaining_quantity ord)) lot"
  shows "alloc_inputs_ok lot (remaining_quantity tk) (map maker_of os)"
  using assms by (auto simp: alloc_inputs_ok_def maker_of_def)

lemma multiple_of_rest:
  assumes "is_multiple_of (base (q :: qty)) lot" and "units r + n = units q" and "unat lot dvd n"
  shows "is_multiple_of (base r) lot"
proof -
  have "unat lot dvd units r"
    using assms by (metis dvd_add_left_iff is_multiple_of_unat)
  then show ?thesis by (simp add: is_multiple_of_unat)
qed

lemma filled_units_dvd: "\<forall>f\<in>set fs. is_multiple_of (base (fill_quantity f)) lot \<Longrightarrow> unat lot dvd filled_units fs"
  unfolding filled_units_def by (rule dvd_sum_list) (auto simp: is_multiple_of_unat)

lemma filled_at_dvd: "\<forall>f\<in>set fs. is_multiple_of (base (fill_quantity f)) lot \<Longrightarrow> unat lot dvd filled_at fs i"
  unfolding filled_at_def by (rule dvd_sum_list) (auto simp: is_multiple_of_unat)

text \<open>The fills of a policy that keeps the contract, on a level of tradable makers.\<close>

lemma fill_orders_contract:
  assumes ok: "fills_ok fs (remaining_quantity tk) (map maker_of os) lot"
    and lots: "\<forall>ord\<in>set os. remaining_quantity ord \<noteq> 0 \<and> is_multiple_of (base (remaining_quantity ord)) lot"
    and tk: "is_multiple_of (base (remaining_quantity tk)) lot"
    and run: "fill_orders p fs os tk = (ts, os', tk')"
  shows "units (remaining_quantity tk') + filled_units fs = units (remaining_quantity tk)"
    and "is_multiple_of (base (remaining_quantity tk')) lot"
    and "i < length os \<Longrightarrow> units (remaining_quantity (os' ! i)) + filled_at fs i = units (remaining_quantity (os ! i))"
    and "i < length os \<Longrightarrow> is_multiple_of (base (remaining_quantity (os' ! i))) lot"
    and "i < length os \<Longrightarrow> remaining_quantity (os' ! i) = 0 \<Longrightarrow> i \<in> order_index ` set fs"
proof -
  note fs = fills_okD [OF ok]
  have dist: "distinct (map order_index fs)" using fs(1) by (simp add: strict_sorted_iff)
  have each: "\<forall>f\<in>set fs. order_index f < length os \<and> fill_quantity f \<le> remaining_quantity (os ! order_index f)"
  proof
    fix f assume f: "f \<in> set fs"
    then have "order_index f < length os" using fs(2) by fastforce
    with fs(4) [OF f] show "order_index f < length os \<and> fill_quantity f \<le> remaining_quantity (os ! order_index f)"
      by (simp add: maker_of_def)
  qed
  have "filled_units fs \<le> units (remaining_quantity tk)" using fs(6) by simp
  note exact = fill_orders_exact [OF run dist each this]
  have whole: "\<forall>f\<in>set fs. is_multiple_of (base (fill_quantity f)) lot" using fs(5) by blast
  show one: "units (remaining_quantity tk') + filled_units fs = units (remaining_quantity tk)"
    using exact by blast
  show "is_multiple_of (base (remaining_quantity tk')) lot"
    by (rule multiple_of_rest [OF tk one filled_units_dvd [OF whole]])
  assume i: "i < length os"
  show two: "units (remaining_quantity (os' ! i)) + filled_at fs i = units (remaining_quantity (os ! i))"
    using exact i by blast
  have "is_multiple_of (base (remaining_quantity (os ! i))) lot" using lots i by simp
  from multiple_of_rest [OF this two filled_at_dvd [OF whole]]
  show "is_multiple_of (base (remaining_quantity (os' ! i))) lot" .
  assume "remaining_quantity (os' ! i) = 0"
  then have "filled_at fs i \<noteq> 0" using two lots i by auto
  then show "i \<in> order_index ` set fs" using filled_at_absent by metis
qed

text \<open>The engine's pass over one level computes what the abstract level does.\<close>

lemma trade_level_refines:
  assumes laws: "arena_laws A" and M: "matching_algorithm M lot" and lot: "lot \<noteq> 0"
    and queue: "queue_ok (arena_get A m) (bl_queue level) ks"
    and lots: "\<And>k. k \<in> set ks \<Longrightarrow> remaining_quantity (the (order_at (arena_get A m) k)) \<noteq> 0 \<and>
      is_multiple_of (base (remaining_quantity (the (order_at (arena_get A m) k)))) lot"
    and tk: "is_multiple_of (base (remaining_quantity tk)) lot" and index: "hm_ok index"
    and spec: "spec_level M now (bl_price level) (orders_at (arena_get A m) ks) tk = (ts, cs, tk', os')"
  obtains q' m' index' Q ks' where
    "trade_level A M now level tk m index = Some (ts, cs, tk', q', m', index')" and
    "ks' = filter Q ks" and "queue_ok (arena_get A m') q' ks'" and "orders_at (arena_get A m') ks' = os'" and
    "\<forall>k. k \<notin> set ks \<longrightarrow> arena_get A m' k = arena_get A m k" and
    "\<forall>k\<in>set ks'. \<exists>v. order_at (arena_get A m') k =
        Some ((the (order_at (arena_get A m) k))\<lparr>remaining_quantity := v\<rparr>) \<and> v \<noteq> 0 \<and> is_multiple_of (base v) lot" and
    "\<forall>k\<in>set ks. k \<notin> set ks' \<longrightarrow> order_at (arena_get A m') k = None" and
    "hm_ok index'" and
    "\<forall>i. hm_get index' i = (if i \<in> (\<lambda>k. order_id (the (order_at (arena_get A m) k))) ` (set ks - set ks')
       then None else hm_get index i)" and
    "is_multiple_of (base (remaining_quantity tk')) lot"
proof -
  let ?L = "arena_get A m" and ?c = "client tk"
  define own where "own = filter (\<lambda>ord. client ord = ?c) (orders_at ?L ks)"
  define ks1 where "ks1 = filter (\<lambda>k. client (the (order_at ?L k)) \<noteq> ?c) ks"
  define others where "others = orders_at ?L ks1"
  define fills where "fills = allocate M (remaining_quantity tk) (map maker_of others) now"
  have others: "others = filter (\<lambda>ord. client ord \<noteq> ?c) (orders_at ?L ks)"
    by (simp add: others_def ks1_def filter_map comp_def)
  obtain os2 where fill: "fill_orders (bl_price level) fills others tk = (ts, os2, tk')"
    "cs = map order_id own" "os' = filter (\<lambda>ord. remaining_quantity ord \<noteq> 0) os2"
    using spec by (auto simp: spec_level_def others own_def fills_def Let_def split: prod.splits)
  from remove_client_spec [OF laws queue, of ?c] obtain q1 m1 where
    rem: "remove_client A (bl_queue level) m ?c = Some (own, q1, m1)" "queue_ok (arena_get A m1) q1 ks1"
      "order_at (arena_get A m1) = (\<lambda>k. if k \<in> set ks \<and> client (the (order_at ?L k)) = ?c then None else order_at ?L k)"
      "\<forall>k. k \<notin> set ks \<longrightarrow> arena_get A m1 k = ?L k"
    unfolding own_def ks1_def by blast
  have sub: "set ks1 \<subseteq> set ks" by (auto simp: ks1_def)
  have dist: "distinct ks1" using rem(2) by (simp add: queue_ok_def)
  have same1: "order_at (arena_get A m1) k = order_at ?L k" if "k \<in> set ks1" for k
    using that by (simp add: rem(3) ks1_def)
  have at1: "orders_at (arena_get A m1) ks1 = others" using same1 by (simp add: others_def)
  have lots1: "\<forall>ord\<in>set others. remaining_quantity ord \<noteq> 0 \<and> is_multiple_of (base (remaining_quantity ord)) lot"
    using lots sub by (auto simp: others_def)
  have "length ks1 < 2 ^ 63" using queue_ok_length [OF laws rem(2)] by simp
  then have "alloc_inputs_ok lot (remaining_quantity tk) (map maker_of others)"
    using lots1 by (intro alloc_inputs_level lot tk) (auto simp: others_def)
  from matching_algorithm.allocate_ok [OF M this]
  have ok: "fills_ok fills (remaining_quantity tk) (map maker_of others) lot" by (simp add: fills_def)
  note contract = fill_orders_contract [OF ok lots1 tk fill(1)]
  have len: "length os2 = length ks1" using fill_orders_length [OF fill(1)] by (simp add: others_def)
  have idx: "\<forall>f\<in>set fills. order_index f < length ks1"
    using fills_okD(2) [OF ok] by (simp add: others_def)
  have "\<forall>k\<in>set ks1. arena_get A m1 k \<noteq> None" using queue_ok_live [OF rem(2)] by auto
  from apply_fills_spec [OF laws dist idx this fill(1) [folded at1]] obtain m2 where
    app: "apply_fills A (bl_price level) ks1 fills tk m1 = Some (ts, tk', m2)"
      "orders_at (arena_get A m2) ks1 = os2" "same_links (arena_get A m1) (arena_get A m2)"
      "\<forall>k. k \<notin> set ks1 \<longrightarrow> arena_get A m2 k = arena_get A m1 k" by blast
  have queue2: "queue_ok (arena_get A m2) q1 ks1" using queue_ok_links [OF app(3)] rem(2) by simp
  define exhausted where "exhausted = filter (\<lambda>k. remaining_quantity (the (order_at (arena_get A m2) k)) = 0)
      (map (\<lambda>f. ks1 ! order_index f) fills)"
  have "distinct (map order_index fills)" using fills_okD(1) [OF ok] by (simp add: strict_sorted_iff)
  moreover have "\<forall>f\<in>set fills. order_index f < length ks1 \<and> ks1 ! order_index f \<in> set ks1" using idx by simp
  ultimately obtain q' m' where un:
    "unlink_exhausted A ks1 fills q1 m2 (forget own index) =
      Some (q', m', forget (orders_at (arena_get A m2) exhausted) (forget own index))"
    "queue_ok (arena_get A m') q' (filter (\<lambda>k. k \<notin> set exhausted) ks1)"
    "order_at (arena_get A m') = (\<lambda>k. if k \<in> set exhausted then None else order_at (arena_get A m2) k)"
    "\<forall>k. k \<notin> set ks1 \<longrightarrow> arena_get A m' k = arena_get A m2 k"
    using unlink_exhausted_spec [OF laws dist _ _ queue2 exhausted_def, of "forget own index"] by blast
  define index' where "index' = forget (orders_at (arena_get A m2) exhausted) (forget own index)"
  define ks' where "ks' = filter (\<lambda>k. k \<notin> set exhausted) ks1"
  have at_key: "\<exists>i<length ks1. k = ks1 ! i \<and> the (order_at (arena_get A m2) k) = os2 ! i \<and>
      the (order_at ?L k) = others ! i" if "k \<in> set ks1" for k
    using that app(2) by (auto simp: in_set_conv_nth others_def)
  have gone_iff: "k \<in> set exhausted \<longleftrightarrow> remaining_quantity (the (order_at (arena_get A m2) k)) = 0"
    if k: "k \<in> set ks1" for k
  proof
    assume zero: "remaining_quantity (the (order_at (arena_get A m2) k)) = 0"
    from at_key [OF k] obtain i where i: "i < length ks1" "k = ks1 ! i"
      "the (order_at (arena_get A m2) k) = os2 ! i" by blast
    then have "i \<in> order_index ` set fills"
      using contract(5) [of i] zero by (simp add: others_def)
    then show "k \<in> set exhausted" using i zero by (auto simp: exhausted_def)
  qed (simp add: exhausted_def)
  have ex_sub: "set exhausted \<subseteq> set ks1" using idx by (auto simp: exhausted_def)
  have same3: "order_at (arena_get A m') k = order_at (arena_get A m2) k" if "k \<in> set ks'" for k
    using that by (simp add: un(3) ks'_def)
  have ids: "order_id (the (order_at (arena_get A m2) k)) = order_id (the (order_at ?L k))" if k: "k \<in> set ks1" for k
  proof -
    from at_key [OF k] obtain i where i: "i < length ks1" "the (order_at (arena_get A m2) k) = os2 ! i"
      "the (order_at ?L k) = others ! i" by blast
    with fill_orders_makers [OF fill(1), of i] idx show ?thesis by (auto simp: others_def)
  qed
  have gone: "set ks - set ks' = {k \<in> set ks. client (the (order_at ?L k)) = ?c} \<union> set exhausted"
    using ex_sub sub by (auto simp: ks'_def ks1_def)
  show thesis
  proof (rule that)
    show "trade_level A M now level tk m index = Some (ts, cs, tk', q', m', index')"
      using rem(1) collect_makers_spec [OF rem(2)] app(1) un(1)
      by (simp add: trade_level_def at1 fills_def [symmetric] fill(2) index'_def)
    show "ks' = filter (\<lambda>k. client (the (order_at ?L k)) \<noteq> ?c \<and> k \<notin> set exhausted) ks"
      by (simp add: ks'_def ks1_def)
    show "queue_ok (arena_get A m') q' ks'" using un(2) by (simp add: ks'_def)
    have "ks' = filter (\<lambda>k. remaining_quantity (the (order_at (arena_get A m2) k)) \<noteq> 0) ks1"
      using gone_iff by (auto simp: ks'_def intro: filter_cong)
    then have "orders_at (arena_get A m2) ks' = os'"
      by (simp add: fill(3) app(2) [symmetric] filter_map comp_def)
    moreover have "orders_at (arena_get A m') ks' = orders_at (arena_get A m2) ks'"
      using same3 by (intro map_cong) simp_all
    ultimately show "orders_at (arena_get A m') ks' = os'" by (simp only:)
    show "\<forall>k. k \<notin> set ks \<longrightarrow> arena_get A m' k = ?L k"
      using sub un(4) app(4) rem(4) by (metis subsetD)
    have "\<exists>v. order_at (arena_get A m') k = Some ((the (order_at ?L k))\<lparr>remaining_quantity := v\<rparr>) \<and> v \<noteq> 0 \<and>
        is_multiple_of (base v) lot" if k: "k \<in> set ks'" for k
    proof -
      have k1: "k \<in> set ks1" "k \<notin> set exhausted" using k by (auto simp: ks'_def)
      from at_key [OF k1(1)] obtain i where i: "i < length ks1" "the (order_at (arena_get A m2) k) = os2 ! i"
        "the (order_at ?L k) = others ! i" by blast
      obtain v where v: "os2 ! i = (others ! i)\<lparr>remaining_quantity := v\<rparr>"
        using fill_orders_makers [OF fill(1), of i] idx i(1) by (auto simp: others_def)
      have "order_at (arena_get A m2) k = Some (os2 ! i)"
        using queue_ok_live [OF queue2 k1(1)] i(2) by (auto simp: order_at_def)
      moreover have "is_multiple_of (base v) lot"
        using contract(4) [of i] i(1) v by (simp add: others_def)
      moreover have "v \<noteq> 0" using gone_iff [OF k1(1)] k1(2) i(2) v by simp
      ultimately show ?thesis using same3 [OF k] i(3) v by auto
    qed
    then show "\<forall>k\<in>set ks'. \<exists>v. order_at (arena_get A m') k =
        Some ((the (order_at ?L k))\<lparr>remaining_quantity := v\<rparr>) \<and> v \<noteq> 0 \<and> is_multiple_of (base v) lot" by blast
    have "order_at (arena_get A m') k = None" if k: "k \<in> set ks" "k \<notin> set ks'" for k
    proof (cases "k \<in> set exhausted")
      case False
      then have "client (the (order_at ?L k)) = ?c" using gone k by blast
      then have "order_at (arena_get A m1) k = None" "k \<notin> set ks1" using k by (auto simp: rem(3) ks1_def)
      with app(4) False show ?thesis by (simp add: un(3) order_at_def)
    qed (simp add: un(3))
    then show "\<forall>k\<in>set ks. k \<notin> set ks' \<longrightarrow> order_at (arena_get A m') k = None" by blast
    show "hm_ok index'" using index by (simp add: index'_def hm_forget)
    show "\<forall>i. hm_get index' i = (if i \<in> (\<lambda>k. order_id (the (order_at ?L k))) ` (set ks - set ks')
       then None else hm_get index i)"
    proof -
      have "order_id ` set (orders_at (arena_get A m2) exhausted) = (\<lambda>k. order_id (the (order_at ?L k))) ` set exhausted"
        using ids ex_sub by (force simp: image_image)
      moreover have "order_id ` set own = (\<lambda>k. order_id (the (order_at ?L k))) ` {k \<in> set ks. client (the (order_at ?L k)) = ?c}"
        by (auto simp: own_def)
      ultimately show ?thesis unfolding gone index'_def hm_forget(2) by (simp add: image_Un)
    qed
    show "is_multiple_of (base (remaining_quantity tk')) lot" by (rule contract(2))
  qed
qed

end
