(* ===== verification/Sweep_Refinement.thy ===== *)
theory Sweep_Refinement
  imports Level_Trades
begin

text \<open>
  The sweep returns, keeps the invariant, and is the abstract sweep of the opposite ladder.
\<close>

lemma opposite_simps [simp]: "opposite Bid = Ask" "opposite Ask = Bid" "opposite (opposite sd) = sd"
  "opposite sd \<noteq> sd" "sd \<noteq> opposite sd"
  by (cases sd; simp add: opposite_def)+

lemma store_update_last:
  "b\<lparr>ob_nodes := m, ob_index := i, ob_store := s\<rparr> = b\<lparr>ob_store := s, ob_nodes := m, ob_index := i\<rparr>"
  by simp

lemma spec_level_taker:
  "spec_level M now p os tk = (ts, cs, tk', os') \<Longrightarrow> \<exists>r. tk' = tk\<lparr>remaining_quantity := r\<rparr>"
  by (auto simp: spec_level_def Let_def split: prod.splits dest!: fill_orders_taker)

lemma spec_level_nonempty:
  "spec_level M now p os tk = (ts, cs, tk', os') \<Longrightarrow> ord \<in> set os' \<Longrightarrow> remaining_quantity ord \<noteq> 0"
  by (auto simp: spec_level_def Let_def split: prod.splits)

lemma spec_sweep_taker:
  "spec_sweep M now limit L tk = (ts, cs, tk', L') \<Longrightarrow> \<exists>r. tk' = tk\<lparr>remaining_quantity := r\<rparr>"
proof (induction M now limit L tk arbitrary: ts cs tk' L' rule: spec_sweep.induct)
  case (1 M now limit tk)
  then show ?case by (intro exI [of _ "remaining_quantity tk"]) simp
next
  case (2 M now limit p os L tk)
  show ?case
  proof (cases "remaining_quantity tk = 0 \<or> \<not> crosses_limit (order_side tk) limit p")
    case True
    with "2.prems" show ?thesis by (intro exI [of _ "remaining_quantity tk"]) auto
  next
    case False
    obtain ts1 cs1 tk1 os1 where level: "spec_level M now p os tk = (ts1, cs1, tk1, os1)"
      by (cases "spec_level M now p os tk") auto
    from spec_level_taker [OF level] obtain r where r: "tk1 = tk\<lparr>remaining_quantity := r\<rparr>" by blast
    obtain ts2 cs2 tk2 L2 where rest: "spec_sweep M now limit L tk1 = (ts2, cs2, tk2, L2)"
      by (cases "spec_sweep M now limit L tk1") auto
    from "2.IH" [OF False level [symmetric] refl refl refl _ rest] "2.prems" False level rest r
    show ?thesis by (cases "os1 = []") auto
  qed
qed

context book_engine begin

theorem fill_against_refines:
  "book_rel S ok covers A b K \<Longrightarrow> is_multiple_of (base (remaining_quantity tk)) (lot_size (ob_spec b)) \<Longrightarrow>
     ladder_of S A b (opposite (order_side tk)) = L \<Longrightarrow>
     spec_sweep (ob_matcher b) now limit L tk = (ts, cs, tk', L') \<Longrightarrow>
     \<exists>b' K'. fill_against S A now limit tk b = Some (ts, cs, tk', b') \<and> book_rel S ok covers A b' K' \<and>
       abs_of S A b' = (abs_of S A b)\<lparr>ab_sides := (ladder_of S A b)(opposite (order_side tk) := L')\<rparr> \<and>
       is_multiple_of (base (remaining_quantity tk')) (lot_size (ob_spec b))"
proof (induction L arbitrary: b K tk ts cs)
  case Nil
  let ?sd = "opposite (order_side tk)"
  have "levels_of S (ob_store b) ?sd = []" using Nil.prems(3) by (simp add: ladder_of_def)
  then have "best_level_mut S (ob_store b) ?sd = Some None"
    using best_mut_None book_relD(1) [OF Nil.prems(1)] by blast
  then have "fill_against S A now limit tk b = Some ([], [], tk, b)"
    by (subst fill_against.simps) simp
  moreover have "(ladder_of S A b)(?sd := []) = ladder_of S A b" using Nil.prems(3) by auto
  ultimately show ?case using Nil.prems by (auto simp: abs_of_def)
next
  case (Cons pos L)
  let ?sd = "opposite (order_side tk)" and ?M = "ob_matcher b" and ?lot = "lot_size (ob_spec b)"
  note rel = Cons.prems(1) and bk = book_relD [OF Cons.prems(1)]
  obtain p os where pos: "pos = (p, os)" by (cases pos)
  obtain l ls where levels: "levels_of S (ob_store b) ?sd = l # ls" "bl_price l = p"
    using Cons.prems(3) pos by (auto simp: ladder_of_def)
  from best_mut_Some [OF bk(1) levels(1)] obtain put where
    put: "best_level_mut S (ob_store b) ?sd = Some (Some (l, put))"
      "writes_level S ok covers (ob_store b) ?sd p put" unfolding levels(2) by blast
  show ?case
  proof (cases "remaining_quantity tk = 0 \<or> \<not> crosses_limit (order_side tk) limit p")
    case True
    then have "fill_against S A now limit tk b = Some ([], [], tk, b)"
      using put(1) levels(2) by (subst fill_against.simps) auto
    moreover have "(ladder_of S A b)(?sd := pos # L) = ladder_of S A b" using Cons.prems(3) by auto
    ultimately show ?thesis using Cons.prems True by (auto simp: abs_of_def pos)
  next
    case False
    have look: "lookup_level S (ob_store b) ?sd p = Some l"
      using levels levels_mem [OF bk(1), of l ?sd] by simp
    have side: "bl_side l = ?sd" using level_wf [OF bk(1) look] by simp
    note queue = levels_relD(2) [OF bk(5) look]
    have os: "os = orders_at (arena_get A (ob_nodes b)) (K ?sd p)"
      using ladder_nonempty(1) [OF bk(1,5), of p os ?sd] Cons.prems(3) pos by simp
    have lots: "remaining_quantity (the (order_at (arena_get A (ob_nodes b)) k)) \<noteq> 0 \<and>
        is_multiple_of (base (remaining_quantity (the (order_at (arena_get A (ob_nodes b)) k)))) ?lot"
      if "k \<in> set (K ?sd p)" for k
      using orders_relD(3) [OF bk(6) that] by (simp add: resting_def tradable_def)
    have index: "hm_ok (ob_index b)" using bk(8) by (simp add: index_rel_def)
    obtain ts1 cs1 tk1 os1 where level: "spec_level ?M now p os tk = (ts1, cs1, tk1, os1)"
      by (cases "spec_level ?M now p os tk") auto
    obtain q' m' index' Q ks' where one:
      "trade_level A ?M now l tk (ob_nodes b) (ob_index b) = Some (ts1, cs1, tk1, q', m', index')"
      "ks' = filter Q (K ?sd p)" "queue_ok (arena_get A m') q' ks'" "orders_at (arena_get A m') ks' = os1"
      "\<forall>k. k \<notin> set (K ?sd p) \<longrightarrow> arena_get A m' k = arena_get A (ob_nodes b) k"
      "\<forall>k\<in>set ks'. \<exists>v. order_at (arena_get A m') k =
          Some ((the (order_at (arena_get A (ob_nodes b)) k))\<lparr>remaining_quantity := v\<rparr>) \<and> v \<noteq> 0 \<and>
          is_multiple_of (base v) ?lot"
      "\<forall>k\<in>set (K ?sd p). k \<notin> set ks' \<longrightarrow> order_at (arena_get A m') k = None"
      "hm_ok index'"
      "\<forall>i. hm_get index' i = (if i \<in> (\<lambda>k. order_id (the (order_at (arena_get A (ob_nodes b)) k))) `
          (set (K ?sd p) - set ks') then None else hm_get (ob_index b) i)"
      "is_multiple_of (base (remaining_quantity tk1)) ?lot"
      by (rule trade_level_refines [OF arena bk(3,2) queue lots Cons.prems(2) index
          level [folded levels(2), unfolded os]])
    from spec_level_taker [OF level] have tk1: "order_side tk1 = order_side tk" by auto
    from close_level [OF bk(1) put(2) levels(2) side one(3)] obtain s x where
      close: "(if queue_is_empty q' then map_option snd (remove_level S (put (l\<lparr>bl_queue := q'\<rparr>)) ?sd p)
          else Some (put (l\<lparr>bl_queue := q'\<rparr>))) = Some s" "ok s" "covers s = covers (ob_store b)"
        "lookup_level S s = set_level (lookup_level S (ob_store b)) ?sd p x"
        "case x of None \<Rightarrow> ks' = [] | Some l \<Rightarrow> ks' \<noteq> [] \<and> queue_ok (arena_get A m') (bl_queue l) ks'"
      by blast
    define b' where "b' = b\<lparr>ob_store := s, ob_nodes := m', ob_index := index'\<rparr>"
    let ?K = "set_keys K ?sd p ks'"
    note facts = shrink_level [OF rel close(2-5) one(2) one(5) [rule_format] one(6) [rule_format] one(7) [rule_format]
        one(8) one(9) [rule_format], folded b'_def]
    have shrunk_rel: "book_rel S ok covers A b' ?K" by (rule facts(1))
    have shrunk_other: "ladder_of S A b' sd' = ladder_of S A b sd'" if "sd' \<noteq> ?sd" for sd'
      using that by (rule facts(2) [rotated -1])
    have "map_of (ladder_of S A b' ?sd) = (map_of (ladder_of S A b ?sd))(p := level_at (order_at (arena_get A m')) ks')"
      by (rule facts(3))
    note shrunk = shrunk_rel shrunk_other this
    have old: "ladder_of S A b ?sd = (p, os) # L" using Cons.prems(3) pos by simp
    have sorted: "ladder_sorted ?sd ((p, os) # L)" using ladder_spec(1) [OF bk(1,5), of ?sd] by (simp add: old)
    then have notin: "map_of L p = None"
      using better_asym by (auto simp: map_of_eq_None_iff)
    have new: "ladder_of S A b' ?sd = (if os1 = [] then L else (p, os1) # L)"
    proof (rule ladder_eqI)
      show "ladder_sorted ?sd (ladder_of S A b' ?sd)" by (rule ladder_spec(1) [OF book_relD(1,5) [OF shrunk(1)]])
      show "ladder_sorted ?sd (if os1 = [] then L else (p, os1) # L)" using sorted by simp
      have "level_at (order_at (arena_get A m')) ks' = (if os1 = [] then None else Some os1)"
        using one(4) by (auto simp: level_at_def)
      moreover have "map_of (ladder_of S A b' ?sd) =
          (map_of ((p, os) # L))(p := level_at (order_at (arena_get A m')) ks')"
        using shrunk(3) by (simp only: old)
      ultimately show "map_of (ladder_of S A b' ?sd) = map_of (if os1 = [] then L else (p, os1) # L)"
        using notin by (auto simp: fun_eq_iff)
    qed
    have abs: "abs_of S A b' = (abs_of S A b)\<lparr>ab_sides := (ladder_of S A b)(?sd := if os1 = [] then L else (p, os1) # L)\<rparr>"
      using shrunk(2) new by (simp add: abs_of_def b'_def fun_eq_iff stops_of_def [abs_def])
    have empty: "queue_is_empty q' \<longleftrightarrow> os1 = []" using queue_ok_empty [OF one(3)] one(4) by auto
    show ?thesis
    proof (cases "os1 = []")
      case nonempty: False
      have "fill_against S A now limit tk b = Some (ts1, cs1, tk1, b')"
        using False put(1) levels(2) one(1) close(1) empty nonempty
        by (subst fill_against.simps) (auto simp: b'_def)
      moreover have "ts = ts1 \<and> cs = cs1 \<and> tk' = tk1 \<and> L' = (p, os1) # L"
        using Cons.prems(4) False level nonempty by (simp add: pos)
      ultimately show ?thesis
        using abs nonempty shrunk(1) one(10) by (intro exI [of _ b'] exI [of _ ?K]) (simp del: fun_upd_apply)
    next
      case empties: True
      obtain ts2 cs2 where rest: "spec_sweep ?M now limit L tk1 = (ts2, cs2, tk', L')"
        "ts = ts1 @ ts2" "cs = cs1 @ cs2"
        using Cons.prems(4) False level empties by (auto simp: pos split: prod.splits)
      have side: "ladder_of S A b' (opposite (order_side tk1)) = L" using new empties tk1 by simp
      have "ob_matcher b' = ?M" "ob_spec b' = ob_spec b" by (simp_all add: b'_def)
      with Cons.IH [OF shrunk(1) _ side, of ts2 cs2] one(10) rest(1) tk1 obtain b2 K2 where IH:
        "fill_against S A now limit tk1 b' = Some (ts2, cs2, tk', b2)" "book_rel S ok covers A b2 K2"
        "abs_of S A b2 = (abs_of S A b')\<lparr>ab_sides := (ladder_of S A b')(?sd := L')\<rparr>"
        "is_multiple_of (base (remaining_quantity tk')) ?lot" by (auto simp del: fun_upd_apply)
      have "fill_against S A now limit tk b = Some (ts, cs, tk', b2)"
        using False put(1) levels(2) one(1) close(1) empty empties tk1 IH(1) rest(2,3)
        by (subst fill_against.simps) (auto simp: b'_def store_update_last)
      moreover have "abs_of S A b2 = (abs_of S A b)\<lparr>ab_sides := (ladder_of S A b)(?sd := L')\<rparr>"
      proof -
        have "(ladder_of S A b')(?sd := L') = (ladder_of S A b)(?sd := L')"
          using shrunk(2) by (simp add: fun_eq_iff)
        then show ?thesis by (simp add: IH(3) abs)
      qed
      ultimately show ?thesis using IH(2,4) by blast
    qed
  qed
qed

end

end
