(* ===== verification/Engine_Refinement.thy ===== *)
theory Engine_Refinement
  imports Sweep_Refinement
begin

text \<open>
  The order types, the stop cascade and \<open>submit\<close> return, keep the invariant, and are the abstract
  engine's. The hypotheses are those of the code: an order on the lattice, and arrival stamps left.
\<close>

section \<open>Arrival stamps and stops\<close>

lemma unat_succ_le: "unat (a + 1 :: 'a::len word) \<le> unat a + 1"
  by (subst unat_word_ariths(1)) (metis mod_less_eq_dividend unat_1)

lemma spec_add_arrival:
  "unat (ab_arrival (snd (spec_add ab ord))) \<le> unat (ab_arrival ab) + 1"
  using unat_succ_le [of "ab_arrival ab"] by (simp add: spec_add_def split: order_type.split sum.split)

lemma spec_run_arrival:
  "unat (ab_arrival (snd (spec_run ab ord))) \<le> unat (ab_arrival ab) + 1"
proof -
  have "unat (ab_arrival (snd (spec_limit ab ord p tif))) \<le> unat (ab_arrival ab) + 1" for p tif
  proof (rule spec_fill_cases [of ab "Some p" ord])
    fix ts cs tk L
    let ?ab = "ab\<lparr>ab_sides := (ab_sides ab)(opposite (order_side ord) := L)\<rparr>"
    assume "spec_fill ab (Some p) ord = (ts, cs, tk, ?ab)"
    then show ?thesis
      using spec_add_arrival [of ?ab tk]
      by (simp add: spec_limit_def Let_def split_beta split: time_in_force.split)
  qed
  moreover have "ab_arrival (snd (spec_fok ab ord p)) = ab_arrival ab" for p
    by (rule spec_fill_cases [of ab "Some p" ord]) (simp add: spec_fok_def Let_def)
  moreover have "ab_arrival (snd (spec_market ab ord)) = ab_arrival ab"
    by (rule spec_fill_cases [of ab None ord]) (simp add: spec_market_def Let_def)
  moreover have "ab_arrival (snd (spec_finish i res)) = ab_arrival (snd res)" for i res
    by (simp add: spec_finish_def split_beta split: sum.split)
  ultimately show ?thesis by (simp add: spec_run_def split: order_type.split)
qed

lemma stop_count_seq [simp]: "stop_count (ab\<lparr>ab_seq := n\<rparr>) = stop_count ab"
  by (simp add: stop_count_def)

text \<open>A run takes a stamp at most, and a stop that parks takes none.\<close>

lemma length_bt_put:
  "bt_ok L \<Longrightarrow> length (ladder_orders (bt_put t q L)) +
     length (case bt_get L t of None \<Rightarrow> [] | Some q' \<Rightarrow> q') = length (ladder_orders L) + length q"
proof (induction t q L rule: bt_put.induct)
  case (2 t q t' q' L)
  have "bt_get L t = None" if "t < t' \<or> t = t'"
    using that "2.prems" by (force simp: bt_get_eq_None)
  with 2 show ?case by auto
qed simp

lemma stop_count_park:
  assumes "\<And>sd. bt_ok (ab_stops ab sd)"
  shows "stop_count (snd (spec_park ab ord t)) \<le> stop_count ab + 1"
proof -
  let ?sd = "order_side ord"
  let ?old = "case bt_get (ab_stops ab ?sd) t of None \<Rightarrow> [] | Some q \<Rightarrow> q"
  have "length (ladder_orders (bt_put t (?old @ [ord]) (ab_stops ab ?sd))) = length (ladder_orders (ab_stops ab ?sd)) + 1"
    using length_bt_put [OF assms, of t "?old @ [ord]" ?sd] by simp
  then show ?thesis
    by (cases ?sd) (simp_all add: spec_park_def stop_count_def)
qed

lemma stop_count_execute:
  assumes "\<And>sd. bt_ok (ab_stops ab sd)"
  shows "stop_count (snd (spec_execute ab ord)) \<le> stop_count ab + 1"
  using stop_count_park [OF assms] by (simp add: spec_execute_def split: option.split)

lemma spec_execute_load:
  assumes "\<And>sd. bt_ok (ab_stops ab sd)"
  shows "unat (ab_arrival (snd (spec_execute ab ord))) + stop_count (snd (spec_execute ab ord)) \<le>
    unat (ab_arrival ab) + stop_count ab + 1"
proof -
  have "ab_arrival (snd (spec_park ab ord t)) = ab_arrival ab" for t
    by (simp add: spec_park_def)
  then show ?thesis
    using spec_run_arrival [of ab] stop_count_park [OF assms]
    by (auto simp: spec_execute_def split: option.split)
qed

lemma on_lattice_activate [simp]: "on_lattice spec (activate ord) = on_lattice spec ord"
  by (simp add: on_lattice_def tradable_def activate_def split: order_type.split)

lemma on_lattice_id [simp]: "on_lattice spec (ord\<lparr>order_id := i\<rparr>) = on_lattice spec ord"
  by (simp add: on_lattice_def tradable_def)

section \<open>Order types\<close>

lemma fillable_levels_spec:
  "\<forall>l\<in>set ls. queue_iter A (bl_queue l) m \<noteq> None \<Longrightarrow>
     fillable_levels A m tk limit ls available =
       Some (spec_fillable tk limit (map (\<lambda>l. (bl_price l, the (queue_iter A (bl_queue l) m))) ls) available)"
  by (induction ls arbitrary: available) (auto split: prod.splits)

context book_engine begin

lemma fillable_refines:
  assumes "book_rel S ok covers A b K"
  shows "fillable_quantity S A b sd tk limit = Some (spec_fillable tk limit (ladder_of S A b sd) 0)"
proof -
  note bk = book_relD [OF assms]
  have "queue_iter A (bl_queue l) (ob_nodes b) \<noteq> None" if "l \<in> set (levels_of S (ob_store b) sd)" for l
    using that levels_mem [OF bk(1)] queue_iter_spec levels_relD(2) [OF bk(5)] by (metis option.distinct(1))
  then show ?thesis unfolding fillable_quantity_def ladder_of_def by (intro fillable_levels_spec) blast
qed

text \<open>The sweep, on the whole book.\<close>

lemma fill_refines:
  assumes "book_ok S ok covers A b" and "on_lattice (ob_spec b) ord"
    and "spec_fill (abs_of S A b) limit ord = (ts, cs, tk, ab)"
  obtains b' where "fill_against S A (arrival_now b) limit ord b = Some (ts, cs, tk, b')"
    and "book_ok S ok covers A b'" and "abs_of S A b' = ab"
    and "ob_spec b' = ob_spec b" and "next_arrival b' = next_arrival b"
    and "remaining_quantity tk \<noteq> 0 \<Longrightarrow> on_lattice (ob_spec b) tk"
    and "\<exists>r. tk = ord\<lparr>remaining_quantity := r\<rparr>"
proof -
  from assms(1) obtain K where rel: "book_rel S ok covers A b K" by (auto simp: book_ok_def)
  from assms(3) obtain L where sweep:
    "spec_sweep (ob_matcher b) (arrival_now b) limit (ladder_of S A b (opposite (order_side ord))) ord = (ts, cs, tk, L)"
    "ab = (abs_of S A b)\<lparr>ab_sides := (ladder_of S A b)(opposite (order_side ord) := L)\<rparr>"
    by (auto simp: spec_fill_def Let_def arrival_now_def split: prod.splits)
  have "is_multiple_of (base (remaining_quantity ord)) (lot_size (ob_spec b))"
    using assms(2) by (simp add: on_lattice_def tradable_def)
  from fill_against_refines [OF rel this refl sweep(1)] obtain b' K' where
    run: "fill_against S A (arrival_now b) limit ord b = Some (ts, cs, tk, b')" "book_rel S ok covers A b' K'"
      "abs_of S A b' = ab" "is_multiple_of (base (remaining_quantity tk)) (lot_size (ob_spec b))"
    unfolding sweep(2) by blast
  from spec_sweep_taker [OF sweep(1)] obtain r where r: "tk = ord\<lparr>remaining_quantity := r\<rparr>" by blast
  have "ob_spec b' = ob_spec b" "next_arrival b' = next_arrival b"
    using arg_cong [OF run(3), of ab_spec] arg_cong [OF run(3), of ab_arrival] sweep(2) by simp_all
  moreover have "on_lattice (ob_spec b) tk" if "remaining_quantity tk \<noteq> 0"
    using that run(4) assms(2) r by (simp add: on_lattice_def tradable_def)
  ultimately show thesis using that run r by (auto simp: book_ok_def)
qed

lemma process_limit_refines:
  assumes "book_ok S ok covers A b" and "on_lattice (ob_spec b) ord" and "unat (next_arrival b) + 1 < 2 ^ 32"
  shows "\<exists>b'. process_limit_order S A b ord p tif = Some (fst (spec_limit (abs_of S A b) ord p tif), b') \<and>
    book_ok S ok covers A b' \<and> abs_of S A b' = snd (spec_limit (abs_of S A b) ord p tif)"
proof -
  obtain ts cs tk ab where fill: "spec_fill (abs_of S A b) (Some p) ord = (ts, cs, tk, ab)"
    by (cases "spec_fill (abs_of S A b) (Some p) ord") auto
  from fill_refines [OF assms(1,2) fill] obtain b1 where run:
    "fill_against S A (arrival_now b) (Some p) ord b = Some (ts, cs, tk, b1)" "book_ok S ok covers A b1"
    "abs_of S A b1 = ab" "ob_spec b1 = ob_spec b" "next_arrival b1 = next_arrival b"
    "remaining_quantity tk \<noteq> 0 \<Longrightarrow> on_lattice (ob_spec b) tk" by blast
  show ?thesis
  proof (cases "remaining_quantity tk \<noteq> 0 \<and> tif = GTC")
    case True
    with add_order_refines [OF run(2), of tk] run assms(3) obtain b' where
      "add_order S A b1 tk = Some (fst (spec_add ab tk), b')" "book_ok S ok covers A b'"
      "abs_of S A b' = snd (spec_add ab tk)" by auto
    with True run fill show ?thesis
      by (auto simp: process_limit_order_def spec_limit_def Let_def split_beta split: sum.split)
  next
    case False
    with run fill show ?thesis
      by (auto simp: process_limit_order_def spec_limit_def Let_def split: time_in_force.split)
  qed
qed

lemma process_fok_refines:
  assumes "book_ok S ok covers A b" and "on_lattice (ob_spec b) ord"
  shows "\<exists>b'. process_fok_limit_order S A b ord p = Some (fst (spec_fok (abs_of S A b) ord p), b') \<and>
    book_ok S ok covers A b' \<and> abs_of S A b' = snd (spec_fok (abs_of S A b) ord p)"
proof -
  from assms(1) obtain K where rel: "book_rel S ok covers A b K" by (auto simp: book_ok_def)
  obtain ts cs tk ab where fill: "spec_fill (abs_of S A b) (Some p) ord = (ts, cs, tk, ab)"
    by (cases "spec_fill (abs_of S A b) (Some p) ord") auto
  from fill_refines [OF assms(1,2) fill] obtain b1 where
    "fill_against S A (arrival_now b) (Some p) ord b = Some (ts, cs, tk, b1)" "book_ok S ok covers A b1"
    "abs_of S A b1 = ab" by blast
  with assms(1) fill fillable_refines [OF rel, of "opposite (order_side ord)" ord p] show ?thesis
    by (auto simp: process_fok_limit_order_def spec_fok_def Let_def)
qed

lemma process_market_refines:
  assumes "book_ok S ok covers A b" and "on_lattice (ob_spec b) ord"
  shows "\<exists>b'. process_market_order S A b ord = Some (fst (spec_market (abs_of S A b) ord), b') \<and>
    book_ok S ok covers A b' \<and> abs_of S A b' = snd (spec_market (abs_of S A b) ord)"
proof -
  obtain ts cs tk ab where fill: "spec_fill (abs_of S A b) None ord = (ts, cs, tk, ab)"
    by (cases "spec_fill (abs_of S A b) None ord") auto
  from fill_refines [OF assms fill] obtain b1 where
    "fill_against S A (arrival_now b) None ord b = Some (ts, cs, tk, b1)" "book_ok S ok covers A b1"
    "abs_of S A b1 = ab" by blast
  with fill show ?thesis by (auto simp: process_market_order_def spec_market_def Let_def)
qed

text \<open>The report and the last price.\<close>

lemma finish_refines:
  assumes "book_ok S ok covers A b" and "abs_of S A b = ab"
  shows "\<exists>b'. finish_execution i (res, b) = (fst (spec_finish i (res, ab)), b') \<and> book_ok S ok covers A b' \<and>
    abs_of S A b' = snd (spec_finish i (res, ab))"
  using assms by (cases res) (auto simp: finish_execution_def spec_finish_def)

lemma run_refines:
  assumes "book_ok S ok covers A b" and "on_lattice (ob_spec b) ord" and "unat (next_arrival b) + 1 < 2 ^ 32"
    and "\<not> is_stop ord"
  shows "\<exists>b'. execute S A b ord = Some (fst (spec_run (abs_of S A b) ord), b') \<and>
    book_ok S ok covers A b' \<and> abs_of S A b' = snd (spec_run (abs_of S A b) ord)"
proof -
  have finish: "\<exists>b'. map_option (finish_execution i) proc = Some (fst (spec_finish i res), b') \<and>
      book_ok S ok covers A b' \<and> abs_of S A b' = snd (spec_finish i res)"
    if "\<exists>b1. proc = Some (fst res, b1) \<and> book_ok S ok covers A b1 \<and> abs_of S A b1 = snd res" for proc res i
    using that finish_refines [of _ "snd res" i "fst res"] by auto
  show ?thesis
  proof (cases "otype ord")
    case (Limit p tif)
    have "\<exists>b1. (case tif of FOK \<Rightarrow> process_fok_limit_order S A b ord p
          | _ \<Rightarrow> process_limit_order S A b ord p tif) =
        Some (fst (if tif = FOK then spec_fok (abs_of S A b) ord p else spec_limit (abs_of S A b) ord p tif), b1) \<and>
      book_ok S ok covers A b1 \<and>
      abs_of S A b1 = snd (if tif = FOK then spec_fok (abs_of S A b) ord p else spec_limit (abs_of S A b) ord p tif)"
      using process_fok_refines [OF assms(1,2)] process_limit_refines [OF assms(1-3)] by (cases tif) auto
    from finish [OF this] Limit show ?thesis by (simp add: execute.simps spec_run_def)
  next
    case Market
    with finish [OF process_market_refines [OF assms(1,2)]] show ?thesis
      by (simp add: execute.simps spec_run_def)
  qed (use assms(4) in \<open>simp_all add: is_stop_def\<close>)
qed

lemma execute_refines:
  assumes "book_ok S ok covers A b" and "on_lattice (ob_spec b) ord" and "unat (next_arrival b) + 1 < 2 ^ 32"
    and "admit_under (ob_spec b) ord = Inr ()"
  shows "\<exists>b'. execute S A b ord = Some (fst (spec_execute (abs_of S A b) ord), b') \<and>
    book_ok S ok covers A b' \<and> abs_of S A b' = snd (spec_execute (abs_of S A b) ord)"
proof (cases "trigger_of (otype ord)")
  case None
  then have "\<not> is_stop ord" by (cases "otype ord") (simp_all add: is_stop_def)
  from run_refines [OF assms(1-3) this] None show ?thesis by (simp add: spec_execute_def)
next
  case (Some trigger)
  then have stop: "execute S A b ord = park_or_activate_stop S A b ord trigger"
    by (cases "otype ord") (simp_all add: execute.simps)
  show ?thesis
  proof (cases "already_triggered (last_trade_price b) (order_side ord) trigger")
    case True
    with run_refines [OF assms(1), of "activate ord"] assms(2,3) Some stop show ?thesis
      by (simp add: spec_execute_def park_or_activate_stop.simps)
  next
    case False
    have "parked (ob_spec b) (order_side ord) trigger ord"
      using assms(2,4) Some by (simp add: parked_def)
    from park_stop_refines [OF assms(1) this] False Some stop show ?thesis
      by (auto simp: spec_execute_def park_or_activate_stop.simps)
  qed
qed

section \<open>The cascade and submit\<close>

lemma cascade_refines:
  "book_ok S ok covers A b \<Longrightarrow> unat (next_arrival b) + stop_count (abs_of S A b) < 2 ^ 32 \<Longrightarrow>
     \<exists>b'. cascade S A b = Some (fst (spec_cascade (abs_of S A b)), b') \<and>
       book_ok S ok covers A b' \<and> abs_of S A b' = snd (spec_cascade (abs_of S A b))"
proof (induction "stop_count (abs_of S A b)" arbitrary: b rule: less_induct)
  case less
  let ?ab = "abs_of S A b"
  from pop_refines [OF less.prems(1)] obtain b1 where
    pop: "pop_triggered_stop b = Some (map_option fst (spec_pop ?ab), b1)" "book_ok S ok covers A b1"
      "abs_of S A b1 = (case spec_pop ?ab of None \<Rightarrow> ?ab | Some (ord, ab) \<Rightarrow> ab)"
      "case spec_pop ?ab of None \<Rightarrow> True | Some (ord, ab) \<Rightarrow>
        (\<exists>sd t. parked (ob_spec b) sd t ord) \<and> \<not> is_live ab (order_id ord)"
      "ob_spec b1 = ob_spec b" "next_arrival b1 = next_arrival b" by blast
  show ?case
  proof (cases "spec_pop ?ab")
    case None
    with pop show ?thesis
      by (simp add: cascade.simps [of S A b] spec_cascade.simps [of ?ab])
  next
    case (Some popped)
    obtain stop ab1 where stop: "spec_pop ?ab = Some (stop, ab1)" using Some by (cases popped) auto
    then have ab1: "abs_of S A b1 = ab1" and lattice: "on_lattice (ob_spec b1) (activate stop)"
      using pop by (auto simp: parked_def)
    have count: "Suc (stop_count ab1) = stop_count ?ab" by (rule stop_count_pop [OF stop])
    have "unat (next_arrival b1) + 1 < 2 ^ 32" using less.prems(2) count pop(6) by simp
    from run_refines [OF pop(2) lattice this not_stop_activate] obtain b2 where
      run: "execute S A b1 (activate stop) = Some (fst (spec_run ab1 (activate stop)), b2)"
        "book_ok S ok covers A b2" "abs_of S A b2 = snd (spec_run ab1 (activate stop))"
      unfolding ab1 by blast
    show ?thesis
    proof (cases "fst (spec_run ab1 (activate stop))")
      case (Inl e)
      with stop pop(1) run show ?thesis
        by (simp add: cascade.simps [of S A b] spec_cascade.simps [of ?ab] split_beta)
    next
      case (Inr report)
      have count2: "stop_count (abs_of S A b2) = stop_count ab1" by (simp add: run(3))
      have "unat (next_arrival b2) \<le> unat (next_arrival b) + 1"
        using spec_run_arrival [of ab1 "activate stop"] run(3) pop(6) ab1
        by (metis abs_of_simps(5))
      with less.prems(2) count count2 have room: "unat (next_arrival b2) + stop_count (abs_of S A b2) < 2 ^ 32"
        by linarith
      have "stop_count (abs_of S A b2) < stop_count ?ab" using count count2 by simp
      from less.hyps [OF this run(2) room] obtain b3 where
        "cascade S A b2 = Some (fst (spec_cascade (abs_of S A b2)), b3)" "book_ok S ok covers A b3"
        "abs_of S A b3 = snd (spec_cascade (abs_of S A b2))" by blast
      with Inr stop pop(1) run show ?thesis
        by (simp add: cascade.simps [of S A b] spec_cascade.simps [of ?ab] split_beta)
    qed
  qed
qed

theorem submit_refines:
  assumes "book_ok S ok covers A b" and "on_lattice (ob_spec b) ord"
    and room: "unat (next_arrival b) + stop_count (abs_of S A b) + 1 < 2 ^ 32"
  shows "\<exists>b'. submit S A b ord = Some (fst (spec_submit (abs_of S A b) ord), b') \<and>
    book_ok S ok covers A b' \<and> abs_of S A b' = snd (spec_submit (abs_of S A b) ord)"
proof (cases "admit_under (ob_spec b) ord")
  case (Inl e)
  with assms(1) show ?thesis by (simp add: submit_def admit_def spec_submit_def)
next
  case (Inr u)
  let ?ord = "ord\<lparr>order_id := from_sequence (next_seq b)\<rparr>" and ?b = "b\<lparr>next_seq := next_seq b + 1\<rparr>"
  let ?ab = "(abs_of S A b)\<lparr>ab_seq := next_seq b + 1\<rparr>"
  have "admit_under (ob_spec b) ?ord = Inr ()"
    using Inr admit_under_cong [of ?ord ord] by simp
  with execute_refines [of ?b ?ord] assms obtain b1 where
    run: "execute S A ?b ?ord = Some (fst (spec_execute ?ab ?ord), b1)" "book_ok S ok covers A b1"
      "abs_of S A b1 = snd (spec_execute ?ab ?ord)" by auto
  show ?thesis
  proof (cases "fst (spec_execute ?ab ?ord)")
    case (Inl e)
    with Inr run show ?thesis by (simp add: submit_def admit_def spec_submit_def split_beta)
  next
    case (Inr report)
    from assms(1) have "bt_ok (ab_stops ?ab sd)" for sd
      using stops_relD(1) [OF book_relD(7)] by (auto simp: book_ok_def)
    note load = spec_execute_load [OF this, of ?ord]
    have "next_arrival b1 = ab_arrival (snd (spec_execute ?ab ?ord))"
      using run(3) by (metis abs_of_simps(5))
    with load have "unat (next_arrival b1) + stop_count (abs_of S A b1) < 2 ^ 32"
      unfolding run(3) using room by simp
    from cascade_refines [OF run(2) this] obtain b2 where
      "cascade S A b1 = Some (fst (spec_cascade (abs_of S A b1)), b2)" "book_ok S ok covers A b2"
      "abs_of S A b2 = snd (spec_cascade (abs_of S A b1))" by blast
    with Inr \<open>admit_under (ob_spec b) ord = Inr u\<close> run show ?thesis
      by (simp add: submit_def admit_def spec_submit_def split_beta)
  qed
qed

end

end
