(* ===== verification/Sweep_Properties.thy ===== *)
theory Sweep_Properties
  imports Sweep_Refinement
begin

text \<open>
  What the abstract sweep guarantees, for every policy that keeps the allocation contract: nothing
  is created or lost, prices come best first and within the limit, no client trades with itself,
  and the sweep stops only when the taker is full or nothing crosses any more.
\<close>

section \<open>Quantities\<close>

definition order_units :: "order list \<Rightarrow> nat" where
  "order_units os = sum_list (map (\<lambda>ord. units (remaining_quantity ord)) os)"

definition traded_units :: "trade list \<Rightarrow> nat" where
  "traded_units ts = sum_list (map (\<lambda>t. units (trade_quantity t)) ts)"

lemma order_units_simps [simp]:
  "order_units [] = 0"
  "order_units (ord # os) = units (remaining_quantity ord) + order_units os"
  "order_units (os @ os') = order_units os + order_units os'"
  by (simp_all add: order_units_def)

lemma traded_units_simps [simp]:
  "traded_units [] = 0"
  "traded_units (t # ts) = units (trade_quantity t) + traded_units ts"
  "traded_units (ts @ ts') = traded_units ts + traded_units ts'"
  by (simp_all add: traded_units_def)

lemma order_units_filter:
  "order_units (filter P os) + order_units (filter (\<lambda>ord. \<not> P ord) os) = order_units os"
  by (induction os) auto

lemma order_units_nonzero: "order_units (filter (\<lambda>ord. remaining_quantity ord \<noteq> 0) os) = order_units os"
  by (induction os) auto

lemma filled_units_at:
  "\<forall>f\<in>set fs. order_index f < n \<Longrightarrow> filled_units fs = (\<Sum>i<n. filled_at fs i)"
proof (induction fs)
  case (Cons f fs)
  have "(\<Sum>i<n. if order_index f = i then units (fill_quantity f) else 0) = units (fill_quantity f)"
    using Cons.prems by simp
  with Cons show ?case by (simp add: filled_at_Cons sum.distrib)
qed (simp add: filled_at_def)

lemma order_units_nth: "order_units os = (\<Sum>i<length os. units (remaining_quantity (os ! i)))"
  by (simp add: order_units_def sum_list_sum_nth atLeast0LessThan)

section \<open>One level\<close>

text \<open>A level whose orders are tradable, as in every well-formed book.\<close>

definition tradable_level :: "u64 \<Rightarrow> order list \<Rightarrow> bool" where
  "tradable_level lot os \<longleftrightarrow> length os < 2 ^ 63 \<and>
     (\<forall>ord\<in>set os. remaining_quantity ord \<noteq> 0 \<and> is_multiple_of (base (remaining_quantity ord)) lot)"

text \<open>An order is an earlier one that has traded at most.\<close>

definition remains_of :: "order \<Rightarrow> order \<Rightarrow> bool" where
  "remains_of ord ord' \<longleftrightarrow> (\<exists>q. ord' = ord\<lparr>remaining_quantity := q\<rparr>)"

lemma spec_level_facts:
  assumes M: "matching_algorithm M lot" and lot: "lot \<noteq> 0" and os: "tradable_level lot os"
    and tk: "is_multiple_of (base (remaining_quantity tk)) lot"
    and run: "spec_level M now p os tk = (ts, cs, tk', os')"
  defines "own \<equiv> filter (\<lambda>ord. client ord = client tk) os"
    and "others \<equiv> filter (\<lambda>ord. client ord \<noteq> client tk) os"
  shows "cs = map order_id own"
    and "traded_units ts = min (units (remaining_quantity tk)) (order_units others)"
    and "traded_units ts + units (remaining_quantity tk') = units (remaining_quantity tk)"
    and "order_units os = order_units os' + traded_units ts + order_units own"
    and "os' = [] \<or> remaining_quantity tk' = 0"
    and "\<forall>t\<in>set ts. trade_price t = p \<and> trade_quantity t \<noteq> 0 \<and> taker_order_id t = order_id tk \<and>
      taker_client t = client tk \<and> taker_side t = order_side tk \<and> maker_client t \<noteq> client tk \<and>
      (\<exists>mk\<in>set os. maker_order_id t = order_id mk \<and> maker_client t = client mk \<and> trade_quantity t \<le> remaining_quantity mk)"
    and "is_multiple_of (base (remaining_quantity tk')) lot"
    and "tradable_level lot os'"
    and "\<forall>ord'\<in>set os'. \<exists>ord\<in>set os. remains_of ord ord' \<and> client ord \<noteq> client tk"
proof -
  define fs where "fs = allocate M (remaining_quantity tk) (map maker_of others) now"
  obtain os2 where fill: "fill_orders p fs others tk = (ts, os2, tk')"
    "cs = map order_id own" "os' = filter (\<lambda>ord. remaining_quantity ord \<noteq> 0) os2"
    using run by (auto simp: spec_level_def own_def others_def fs_def Let_def split: prod.splits)
  have lots: "\<forall>ord\<in>set others. remaining_quantity ord \<noteq> 0 \<and> is_multiple_of (base (remaining_quantity ord)) lot"
    and short: "length others < 2 ^ 63"
    using os le_less_trans [OF length_filter_le] by (auto simp: tradable_level_def others_def)
  have "alloc_inputs_ok lot (remaining_quantity tk) (map maker_of others)"
    using lots short by (intro alloc_inputs_level lot tk) auto
  from matching_algorithm.allocate_ok [OF M this]
  have ok: "fills_ok fs (remaining_quantity tk) (map maker_of others) lot" by (simp add: fs_def)
  note fs = fills_okD [OF ok] and contract = fill_orders_contract [OF ok lots tk fill(1)]
  have len: "length os2 = length others" by (rule fill_orders_length [OF fill(1)])
  have dist: "distinct (map order_index fs)" using fs(1) by (simp add: strict_sorted_iff)
  note all2 = fill_orders_trades [OF fill(1) dist]
  have traded: "traded_units ts = filled_units fs"
    unfolding traded_units_def filled_units_def
    using all2 by (induction rule: list_all2_induct) auto
  have total: "total_units (map maker_of others) = order_units others"
    by (simp add: total_units_def order_units_def maker_of_def comp_def)
  show "cs = map order_id own" by (rule fill(2))
  show traded_min: "traded_units ts = min (units (remaining_quantity tk)) (order_units others)"
    using fs(6) traded total by simp
  show taker: "traded_units ts + units (remaining_quantity tk') = units (remaining_quantity tk)"
    using contract(1) traded by simp
  have "order_units os2 + filled_units fs = order_units others"
  proof -
    have idx: "\<forall>f\<in>set fs. order_index f < length others" using fs(2) by simp
    show ?thesis
      unfolding order_units_nth len filled_units_at [OF idx] sum.distrib [symmetric]
      by (intro sum.cong refl contract(3)) simp
  qed
  then have makers: "order_units os' + traded_units ts = order_units others"
    by (simp add: fill(3) order_units_nonzero traded)
  then show "order_units os = order_units os' + traded_units ts + order_units own"
    using order_units_filter [of "\<lambda>ord. client ord = client tk" os] by (simp add: own_def others_def)
  show "os' = [] \<or> remaining_quantity tk' = 0"
  proof (cases "order_units others \<le> units (remaining_quantity tk)")
    case True
    then have "order_units os' = 0" using makers traded_min by simp
    moreover have "\<forall>ord\<in>set os'. remaining_quantity ord \<noteq> 0" by (simp add: fill(3))
    ultimately have "os' = []" by (cases os') simp_all
    then show ?thesis by simp
  next
    case False
    then have "units (remaining_quantity tk') = 0" using taker traded_min by simp
    then show ?thesis by simp
  qed
  show "\<forall>t\<in>set ts. trade_price t = p \<and> trade_quantity t \<noteq> 0 \<and> taker_order_id t = order_id tk \<and>
      taker_client t = client tk \<and> taker_side t = order_side tk \<and> maker_client t \<noteq> client tk \<and>
      (\<exists>mk\<in>set os. maker_order_id t = order_id mk \<and> maker_client t = client mk \<and> trade_quantity t \<le> remaining_quantity mk)"
  proof
    fix t assume "t \<in> set ts"
    then obtain j where j: "j < length ts" "t = ts ! j" by (auto simp: in_set_conv_nth)
    moreover have "fs ! j \<in> set fs" using j(1) list_all2_lengthD [OF all2] by simp
    ultimately obtain f where f: "f \<in> set fs" "trade_price t = p" "trade_quantity t = fill_quantity f"
      "maker_order_id t = order_id (others ! order_index f)" "maker_client t = client (others ! order_index f)"
      "taker_order_id t = order_id tk" "taker_client t = client tk" "taker_side t = order_side tk"
      using list_all2_nthD [OF all2 j(1)] by blast
    have i: "order_index f < length others" using fs(2) [OF f(1)] by simp
    then have "others ! order_index f \<in> set others" by simp
    then have mk: "others ! order_index f \<in> set os" "client (others ! order_index f) \<noteq> client tk"
      unfolding others_def by auto
    have "fill_quantity f \<le> remaining_quantity (others ! order_index f)"
      using fs(4) [OF f(1)] i by (simp add: maker_of_def)
    with f mk fs(3) [OF f(1)] show "trade_price t = p \<and> trade_quantity t \<noteq> 0 \<and> taker_order_id t = order_id tk \<and>
      taker_client t = client tk \<and> taker_side t = order_side tk \<and> maker_client t \<noteq> client tk \<and>
      (\<exists>mk\<in>set os. maker_order_id t = order_id mk \<and> maker_client t = client mk \<and> trade_quantity t \<le> remaining_quantity mk)"
      by auto
  qed
  show "is_multiple_of (base (remaining_quantity tk')) lot" by (rule contract(2))
  have each: "\<exists>i<length others. ord' = os2 ! i" if "ord' \<in> set os2" for ord'
    using that len by (auto simp: in_set_conv_nth)
  have "length os2 < 2 ^ 63" using len short by simp
  then show "tradable_level lot os'"
    using each contract(4) le_less_trans [OF length_filter_le] by (auto simp: tradable_level_def fill(3))
  show "\<forall>ord'\<in>set os'. \<exists>ord\<in>set os. remains_of ord ord' \<and> client ord \<noteq> client tk"
  proof
    fix ord' assume "ord' \<in> set os'"
    then obtain i where i: "i < length others" "ord' = os2 ! i" using each by (auto simp: fill(3))
    have "\<forall>f\<in>set fs. order_index f < length others" using fs(2) by simp
    from fill_orders_makers [OF fill(1) this i(1)] i(2) have "remains_of (others ! i) ord'"
      by (simp add: remains_of_def)
    moreover have "others ! i \<in> set others" using i(1) by simp
    ultimately show "\<exists>ord\<in>set os. remains_of ord ord' \<and> client ord \<noteq> client tk"
      by (auto simp: others_def)
  qed
qed

section \<open>The whole sweep\<close>

definition tradable_ladder :: "u64 \<Rightarrow> ladder \<Rightarrow> bool" where
  "tradable_ladder lot L \<longleftrightarrow> (\<forall>(p, os)\<in>set L. os \<noteq> [] \<and> tradable_level lot os)"

lemma tradable_ladder_simps [simp]:
  "tradable_ladder lot []"
  "tradable_ladder lot ((p, os) # L) \<longleftrightarrow> os \<noteq> [] \<and> tradable_level lot os \<and> tradable_ladder lot L"
  by (simp_all add: tradable_ladder_def)

text \<open>
  A trade of the taker with an order of another client that rested at the price of the trade, within
  the limit, and for no more than that order had left.
\<close>

definition trade_ok :: "price option \<Rightarrow> ladder \<Rightarrow> order \<Rightarrow> trade \<Rightarrow> bool" where
  "trade_ok limit L tk t \<longleftrightarrow>
     crosses_limit (order_side tk) limit (trade_price t) \<and> trade_quantity t \<noteq> 0 \<and>
     taker_order_id t = order_id tk \<and> taker_client t = client tk \<and> taker_side t = order_side tk \<and>
     maker_client t \<noteq> client tk \<and>
     (\<exists>os mk. (trade_price t, os) \<in> set L \<and> mk \<in> set os \<and> maker_order_id t = order_id mk \<and>
        maker_client t = client mk \<and> trade_quantity t \<le> remaining_quantity mk)"

lemma trade_ok_level:
  assumes "\<forall>t\<in>set ts. trade_price t = p \<and> trade_quantity t \<noteq> 0 \<and> taker_order_id t = order_id tk \<and>
      taker_client t = client tk \<and> taker_side t = order_side tk \<and> maker_client t \<noteq> client tk \<and>
      (\<exists>mk\<in>set os. maker_order_id t = order_id mk \<and> maker_client t = client mk \<and> trade_quantity t \<le> remaining_quantity mk)"
    and "crosses_limit (order_side tk) limit p" and "t \<in> set ts"
  shows "trade_ok limit ((p, os) # L) tk t"
proof -
  from assms(1,3) obtain mk where "mk \<in> set os" "maker_order_id t = order_id mk" "maker_client t = client mk"
    "trade_quantity t \<le> remaining_quantity mk" "trade_price t = p" "trade_quantity t \<noteq> 0"
    "taker_order_id t = order_id tk" "taker_client t = client tk" "taker_side t = order_side tk"
    "maker_client t \<noteq> client tk" by blast
  with assms(2) show ?thesis
    unfolding trade_ok_def by (intro conjI exI [of _ os] exI [of _ mk]) simp_all
qed

lemma trade_ok_later: "trade_ok limit L tk t \<Longrightarrow> trade_ok limit (l # L) tk t"
  unfolding trade_ok_def by (meson list.set_intros(2))

lemma trade_ok_taker: "trade_ok limit L (tk\<lparr>remaining_quantity := r\<rparr>) t = trade_ok limit L tk t"
  by (simp add: trade_ok_def)

text \<open>What a sweep from \<open>L\<close> to \<open>L'\<close> may report.\<close>

definition sweep_ok ::
    "side \<Rightarrow> price option \<Rightarrow> ladder \<Rightarrow> order \<Rightarrow> trade list \<Rightarrow> exchange_id list \<Rightarrow> order \<Rightarrow> ladder \<Rightarrow> bool" where
  "sweep_ok sd limit L tk ts cs tk' L' \<longleftrightarrow>
     traded_units ts + units (remaining_quantity tk') = units (remaining_quantity tk) \<and>
     (\<exists>gone. cs = map order_id gone \<and> set gone \<subseteq> set (ladder_orders L) \<and> (\<forall>ord\<in>set gone. client ord = client tk) \<and>
        order_units (ladder_orders L) = order_units (ladder_orders L') + traded_units ts + order_units gone) \<and>
     sorted_wrt (\<lambda>t t'. trade_price t = trade_price t' \<or> better sd (trade_price t) (trade_price t')) ts \<and>
     (\<forall>t\<in>set ts. trade_ok limit L tk t) \<and>
     (remaining_quantity tk' = 0 \<or>
        (case L' of [] \<Rightarrow> True | l # _ \<Rightarrow> \<not> crosses_limit (order_side tk) limit (fst l)))"

lemma sweep_okD:
  assumes "sweep_ok sd limit L tk ts cs tk' L'"
  shows "traded_units ts + units (remaining_quantity tk') = units (remaining_quantity tk)"
    and "\<exists>gone. cs = map order_id gone \<and> set gone \<subseteq> set (ladder_orders L) \<and> (\<forall>ord\<in>set gone. client ord = client tk) \<and>
      order_units (ladder_orders L) = order_units (ladder_orders L') + traded_units ts + order_units gone"
    and "sorted_wrt (\<lambda>t t'. trade_price t = trade_price t' \<or> better sd (trade_price t) (trade_price t')) ts"
    and "\<forall>t\<in>set ts. trade_ok limit L tk t"
    and "remaining_quantity tk' = 0 \<or>
        (case L' of [] \<Rightarrow> True | l # _ \<Rightarrow> \<not> crosses_limit (order_side tk) limit (fst l))"
  using assms unfolding sweep_ok_def by blast+

lemma sweep_ok_stop:
  assumes "remaining_quantity tk = 0 \<or> (case L of [] \<Rightarrow> True | l # _ \<Rightarrow> \<not> crosses_limit (order_side tk) limit (fst l))"
  shows "sweep_ok sd limit L tk [] [] tk L"
  using assms by (auto simp: sweep_ok_def)

lemma one_price_sorted:
  "\<forall>t\<in>set ts. trade_price t = p \<Longrightarrow>
     sorted_wrt (\<lambda>t t'. trade_price t = trade_price t' \<or> better sd (trade_price t) (trade_price t')) ts"
  by (induction ts) simp_all

lemma sweep_ok_level:
  assumes M: "matching_algorithm M lot" and lot: "lot \<noteq> 0" and os: "tradable_level lot os"
    and tk: "is_multiple_of (base (remaining_quantity tk)) lot"
    and cross: "crosses_limit (order_side tk) limit p"
    and run: "spec_level M now p os tk = (ts, cs, tk', os')" and "os' \<noteq> []"
  shows "sweep_ok sd limit ((p, os) # L) tk ts cs tk' ((p, os') # L)"
proof -
  note one = spec_level_facts [OF M lot os tk run]
  have price: "\<forall>t\<in>set ts. trade_price t = p" using one(6) by blast
  then have "sorted_wrt (\<lambda>t t'. trade_price t = trade_price t' \<or> better sd (trade_price t) (trade_price t')) ts"
    by (rule one_price_sorted)
  moreover have "\<exists>gone. cs = map order_id gone \<and> set gone \<subseteq> set (ladder_orders ((p, os) # L)) \<and>
      (\<forall>ord\<in>set gone. client ord = client tk) \<and>
      order_units (ladder_orders ((p, os) # L)) =
        order_units (ladder_orders ((p, os') # L)) + traded_units ts + order_units gone"
    using one(1,4) by (intro exI [of _ "filter (\<lambda>ord. client ord = client tk) os"]) auto
  moreover have "\<forall>t\<in>set ts. trade_ok limit ((p, os) # L) tk t"
    using trade_ok_level [OF one(6) cross] by blast
  ultimately show ?thesis
    using one(3,5) \<open>os' \<noteq> []\<close> unfolding sweep_ok_def by simp
qed

lemma sweep_ok_next:
  assumes M: "matching_algorithm M lot" and lot: "lot \<noteq> 0" and os: "tradable_level lot os"
    and tk: "is_multiple_of (base (remaining_quantity tk)) lot"
    and cross: "crosses_limit (order_side tk) limit p"
    and sorted: "\<forall>l\<in>set L. better sd p (fst l)"
    and run: "spec_level M now p os tk = (ts, cs, tk1, [])" and rest: "sweep_ok sd limit L tk1 ts' cs' tk' L'"
  shows "sweep_ok sd limit ((p, os) # L) tk (ts @ ts') (cs @ cs') tk' L'"
proof -
  note one = spec_level_facts [OF M lot os tk run] and two = sweep_okD [OF rest]
  obtain r where r: "tk1 = tk\<lparr>remaining_quantity := r\<rparr>"
    using spec_level_taker [OF run] by blast
  then have side: "order_side tk1 = order_side tk" by simp
  have price: "\<forall>t\<in>set ts. trade_price t = p" using one(6) by blast
  have later: "better sd p (trade_price t)" if "t \<in> set ts'" for t
    using two(4) sorted that by (fastforce simp: trade_ok_def)
  have "sorted_wrt (\<lambda>t t'. trade_price t = trade_price t' \<or> better sd (trade_price t) (trade_price t')) ts"
    using price by (rule one_price_sorted)
  with two(3) price later have "sorted_wrt (\<lambda>t t'. trade_price t = trade_price t' \<or>
      better sd (trade_price t) (trade_price t')) (ts @ ts')"
    by (auto simp: sorted_wrt_append)
  moreover have "\<exists>gone. cs @ cs' = map order_id gone \<and> set gone \<subseteq> set (ladder_orders ((p, os) # L)) \<and>
      (\<forall>ord\<in>set gone. client ord = client tk) \<and>
      order_units (ladder_orders ((p, os) # L)) = order_units (ladder_orders L') + traded_units (ts @ ts') + order_units gone"
  proof -
    obtain gone where gone: "cs' = map order_id gone" "set gone \<subseteq> set (ladder_orders L)"
      "\<forall>ord\<in>set gone. client ord = client tk"
      "order_units (ladder_orders L) = order_units (ladder_orders L') + traded_units ts' + order_units gone"
      using two(2) r by auto
    with one(1,4) show ?thesis
      by (intro exI [of _ "filter (\<lambda>ord. client ord = client tk) os @ gone"]) auto
  qed
  moreover have "\<forall>t\<in>set (ts @ ts'). trade_ok limit ((p, os) # L) tk t"
    using trade_ok_level [OF one(6) cross] trade_ok_later two(4) unfolding r trade_ok_taker by auto
  ultimately show ?thesis
    using one(3) two(1) two(5) [unfolded side] r unfolding sweep_ok_def by simp
qed

theorem spec_sweep_ok:
  assumes "matching_algorithm M lot" and "lot \<noteq> 0"
    and "spec_sweep M now limit L tk = (ts, cs, tk', L')" and "tradable_ladder lot L" and "ladder_sorted sd L"
    and "is_multiple_of (base (remaining_quantity tk)) lot"
  shows "sweep_ok sd limit L tk ts cs tk' L' \<and> tradable_ladder lot L'"
  using assms
proof (induction M now limit L tk arbitrary: ts cs tk' L' rule: spec_sweep.induct)
  case (1 M now limit tk)
  then show ?case by (simp add: sweep_ok_stop)
next
  case (2 M now limit p os L tk)
  show ?case
  proof (cases "remaining_quantity tk = 0 \<or> \<not> crosses_limit (order_side tk) limit p")
    case True
    with "2.prems" sweep_ok_stop [where L = "(p, os) # L" and tk = tk] show ?thesis by auto
  next
    case False
    obtain ts1 cs1 tk1 os1 where level: "spec_level M now p os tk = (ts1, cs1, tk1, os1)"
      by (cases "spec_level M now p os tk") auto
    have os: "tradable_level lot os" and cross: "crosses_limit (order_side tk) limit p"
      using "2.prems"(4) False by simp_all
    note one = spec_level_facts [OF "2.prems"(1,2) os "2.prems"(6) level]
    show ?thesis
    proof (cases "os1 = []")
      case nonempty: False
      have "(ts, cs, tk', L') = (ts1, cs1, tk1, (p, os1) # L)"
        using "2.prems"(3) False level nonempty by simp
      with sweep_ok_level [OF "2.prems"(1,2) os "2.prems"(6) cross level nonempty, of sd L] one(8) "2.prems"(4) nonempty
      show ?thesis by simp
    next
      case True
      obtain ts2 cs2 tk2 L2 where rest: "spec_sweep M now limit L tk1 = (ts2, cs2, tk2, L2)"
        by (cases "spec_sweep M now limit L tk1") auto
      have res: "(ts, cs, tk', L') = (ts1 @ ts2, cs1 @ cs2, tk2, L2)"
        using "2.prems"(3) False level True rest by simp
      have "sweep_ok sd limit L tk1 ts2 cs2 tk2 L2 \<and> tradable_ladder lot L2"
        by (rule "2.IH" [OF False level [symmetric] refl refl refl True "2.prems"(1,2) rest])
          (use "2.prems" one(7) in auto)
      with sweep_ok_next [OF "2.prems"(1,2) os "2.prems"(6) cross _ level [unfolded True]] "2.prems"(5) res
      show ?thesis by simp
    qed
  qed
qed

end
