(* ===== verification/Spec_Facts.thy ===== *)
theory Spec_Facts
  imports Engine_Refinement Sweep_Properties
begin

text \<open>
  Facts of the abstract engine behind the properties: what a sweep fills, what the dry run of a
  fill-or-kill order promises, that the touch never crosses, that an admitted order never fails.
\<close>

section \<open>How much a sweep fills\<close>

text \<open>The quantity that crosses the limit and is not the taker's own.\<close>

fun crossing_units :: "order \<Rightarrow> price option \<Rightarrow> ladder \<Rightarrow> nat" where
  "crossing_units tk limit [] = 0"
| "crossing_units tk limit ((p, os) # L) =
     (if crosses_limit (order_side tk) limit p
      then order_units (filter (\<lambda>ord. client ord \<noteq> client tk) os) + crossing_units tk limit L else 0)"

lemma crossing_units_taker [simp]:
  "crossing_units (tk\<lparr>remaining_quantity := r\<rparr>) limit L = crossing_units tk limit L"
proof (induction L)
  case (Cons l L)
  then show ?case by (cases l) simp
qed simp

theorem sweep_fills:
  assumes "matching_algorithm M lot" and "lot \<noteq> 0"
    and "spec_sweep M now limit L tk = (ts, cs, tk', L')" and "tradable_ladder lot L"
    and "is_multiple_of (base (remaining_quantity tk)) lot"
  shows "traded_units ts = min (units (remaining_quantity tk)) (crossing_units tk limit L)"
  using assms
proof (induction M now limit L tk arbitrary: ts cs tk' L' rule: spec_sweep.induct)
  case (1 M now limit tk)
  then show ?case by simp
next
  case (2 M now limit p os L tk)
  show ?case
  proof (cases "remaining_quantity tk = 0 \<or> \<not> crosses_limit (order_side tk) limit p")
    case True
    with "2.prems"(3) show ?thesis by auto
  next
    case False
    obtain ts1 cs1 tk1 os1 where level: "spec_level M now p os tk = (ts1, cs1, tk1, os1)"
      by (cases "spec_level M now p os tk") auto
    have os: "tradable_level lot os" using "2.prems"(4) by simp
    note one = spec_level_facts [OF "2.prems"(1,2) os "2.prems"(5) level]
    show ?thesis
    proof (cases "os1 = []")
      case nonempty: False
      then have "ts = ts1" "remaining_quantity tk1 = 0"
        using "2.prems"(3) False level one(5) by simp_all
      with one(2,3) False show ?thesis by simp
    next
      case True
      obtain ts2 cs2 tk2 L2 where rest: "spec_sweep M now limit L tk1 = (ts2, cs2, tk2, L2)"
        by (cases "spec_sweep M now limit L tk1") auto
      have ts: "ts = ts1 @ ts2" using "2.prems"(3) False level True rest by simp
      from spec_level_taker [OF level] obtain r where r: "tk1 = tk\<lparr>remaining_quantity := r\<rparr>" by blast
      have "traded_units ts2 = min (units (remaining_quantity tk1)) (crossing_units tk1 limit L)"
        by (rule "2.IH" [OF False level [symmetric] refl refl refl True "2.prems"(1,2) rest])
          (use "2.prems" one(7) in auto)
      moreover have "traded_units ts1 = order_units (filter (\<lambda>ord. client ord \<noteq> client tk) os)"
      proof -
        have "order_units (filter (\<lambda>ord. client ord = client tk) os) +
            order_units (filter (\<lambda>ord. client ord \<noteq> client tk) os) = order_units os"
          by (rule order_units_filter)
        with one(4) True show ?thesis by simp
      qed
      ultimately show ?thesis using one(2,3) False ts by (simp add: r)
    qed
  qed
qed

section \<open>The dry run\<close>

lemma units_add_le: "units (a + b) \<le> units a + units b"
  by (simp add: qty_plus unat_word_ariths)

text \<open>Summing may wrap, but never upwards.\<close>

lemma fillable_orders_sound:
  "fillable_orders c needed os av = (av', reached) \<Longrightarrow>
     units av' \<le> units av + order_units (filter (\<lambda>ord. client ord \<noteq> c) os) \<and> (reached \<longrightarrow> needed \<le> av')"
proof (induction c needed os av rule: fillable_orders.induct)
  case (2 c needed ord os av)
  then show ?case
    using units_add_le [of av "remaining_quantity ord"]
    by (auto simp: Let_def split: if_splits)
qed simp

lemma fillable_sound:
  "units (spec_fillable tk limit L av) \<le> units av + crossing_units tk (Some limit) L"
proof (induction tk limit L av rule: spec_fillable.induct)
  case (2 tk limit p os L av)
  obtain av' reached where step: "fillable_orders (client tk) (remaining_quantity tk) os av = (av', reached)"
    by (cases "fillable_orders (client tk) (remaining_quantity tk) os av") auto
  from fillable_orders_sound [OF step] "2.IH" [OF _ step [symmetric]]
  show ?case using step by (cases reached) auto
qed simp

text \<open>Without a wrap it decides exactly.\<close>

lemma fillable_orders_exact:
  "fillable_orders c needed os av = (av', reached) \<Longrightarrow>
     units av + order_units (filter (\<lambda>ord. client ord \<noteq> c) os) < 2 ^ 64 \<Longrightarrow> av < needed \<Longrightarrow>
     (reached \<longrightarrow> needed \<le> av') \<and>
     (\<not> reached \<longrightarrow> units av' = units av + order_units (filter (\<lambda>ord. client ord \<noteq> c) os) \<and> av' < needed)"
proof (induction c needed os av rule: fillable_orders.induct)
  case (2 c needed ord os av)
  show ?case
  proof (cases "client ord = c")
    case True
    with 2 show ?thesis by simp
  next
    case False
    then have "units (av + remaining_quantity ord) = units av + units (remaining_quantity ord)"
      using "2.prems"(2) by (intro units_add) simp
    with 2 False show ?thesis by (auto simp: Let_def not_le split: if_splits)
  qed
qed simp

lemma fillable_exact:
  "units av + crossing_units tk (Some limit) L < 2 ^ 64 \<Longrightarrow> av < remaining_quantity tk \<Longrightarrow>
     spec_fillable tk limit L av < remaining_quantity tk \<longleftrightarrow>
       units av + crossing_units tk (Some limit) L < units (remaining_quantity tk)"
proof (induction tk limit L av rule: spec_fillable.induct)
  case (1 tk limit av)
  then show ?case by (simp add: qty_less_units)
next
  case (2 tk limit p os L av)
  show ?case
  proof (cases "crosses_limit (order_side tk) (Some limit) p")
    case False
    with 2 show ?thesis by (simp add: qty_less_units)
  next
    case True
    obtain av' reached where step: "fillable_orders (client tk) (remaining_quantity tk) os av = (av', reached)"
      by (cases "fillable_orders (client tk) (remaining_quantity tk) os av") auto
    have "units av + order_units (filter (\<lambda>ord. client ord \<noteq> client tk) os) < 2 ^ 64"
      using "2.prems"(1) True by simp
    note exact = fillable_orders_exact [OF step this "2.prems"(2)]
    show ?thesis
    proof (cases reached)
      case reached: True
      have "units av' \<le> units av + order_units (filter (\<lambda>ord. client ord \<noteq> client tk) os)"
        using fillable_orders_sound [OF step] by blast
      with exact reached True step show ?thesis by (auto simp: qty_le_units not_less [symmetric] qty_less_units)
    next
      case False
      with "2.IH" [OF _ step [symmetric]] exact True step "2.prems" show ?thesis by (simp add: add.assoc)
    qed
  qed
qed

section \<open>Two policies\<close>

text \<open>Which makers are filled depends on the policy; how much trades at each price does not.\<close>

definition level_totals :: "ladder \<Rightarrow> (price \<times> nat) list" where
  "level_totals L = map (\<lambda>(p, os). (p, order_units os)) L"

definition traded_at :: "trade list \<Rightarrow> price \<Rightarrow> nat" where
  "traded_at ts p = traded_units (filter (\<lambda>t. trade_price t = p) ts)"

lemma traded_at_simps [simp]:
  "traded_at [] p = 0"
  "traded_at (ts @ ts') p = traded_at ts p + traded_at ts' p"
  by (simp_all add: traded_at_def)

lemma traded_at_level: "\<forall>t\<in>set ts. trade_price t = p \<Longrightarrow> traded_at ts q = (if q = p then traded_units ts else 0)"
  by (induction ts) (auto simp: traded_at_def)

theorem policies_trade_alike:
  assumes "matching_algorithm M lot" and "matching_algorithm M' lot" and "lot \<noteq> 0"
    and "spec_sweep M now limit L tk = (ts, cs, tk1, L1)" and "spec_sweep M' now' limit L tk = (ts', cs', tk1', L1')"
    and "tradable_ladder lot L" and "is_multiple_of (base (remaining_quantity tk)) lot"
  shows "cs' = cs \<and> tk1' = tk1 \<and> traded_at ts' = traded_at ts \<and> level_totals L1' = level_totals L1"
  using assms
proof (induction M now limit L tk arbitrary: ts cs tk1 L1 ts' cs' tk1' L1' rule: spec_sweep.induct)
  case (1 M now limit tk)
  then show ?case by auto
next
  case (2 M now limit p os L tk)
  show ?case
  proof (cases "remaining_quantity tk = 0 \<or> \<not> crosses_limit (order_side tk) limit p")
    case True
    with "2.prems"(4,5) show ?thesis by auto
  next
    case False
    obtain us ds uk vs where level: "spec_level M now p os tk = (us, ds, uk, vs)"
      by (cases "spec_level M now p os tk") auto
    obtain us' ds' uk' vs' where level': "spec_level M' now' p os tk = (us', ds', uk', vs')"
      by (cases "spec_level M' now' p os tk") auto
    have os: "tradable_level lot os" using "2.prems"(6) by simp
    note one = spec_level_facts [OF "2.prems"(1,3) os "2.prems"(7) level]
      and two = spec_level_facts [OF "2.prems"(2,3) os "2.prems"(7) level']
    obtain r r' where r: "uk = tk\<lparr>remaining_quantity := r\<rparr>" "uk' = tk\<lparr>remaining_quantity := r'\<rparr>"
      using spec_level_taker [OF level] spec_level_taker [OF level'] by blast
    have "r' = r" using one(2,3) two(2,3) r by (simp add: qty_eq_units)
    then have uk: "uk' = uk" using r by simp
    have vs: "order_units vs' = order_units vs" using one(2,4) two(2,4) by simp
    have nonzero: "\<forall>ord\<in>set vs. remaining_quantity ord \<noteq> 0" "\<forall>ord\<in>set vs'. remaining_quantity ord \<noteq> 0"
      using one(8) two(8) by (auto simp: tradable_level_def)
    have empty: "vs' = [] \<longleftrightarrow> vs = []"
      using vs nonzero by (cases vs; cases vs') auto
    have at: "traded_at us' = traded_at us"
    proof
      fix q
      show "traded_at us' q = traded_at us q"
        using one(2,6) two(2,6) traded_at_level [of us p q] traded_at_level [of us' p q] by simp
    qed
    show ?thesis
    proof (cases "vs = []")
      case nonempty: False
      with "2.prems"(4,5) False level level' empty one(1) two(1) uk vs at show ?thesis
        by (auto simp: level_totals_def)
    next
      case True
      obtain ts2 cs2 tk2 L2 where rest: "spec_sweep M now limit L uk = (ts2, cs2, tk2, L2)"
        by (cases "spec_sweep M now limit L uk") auto
      obtain ts2' cs2' tk2' L2' where rest': "spec_sweep M' now' limit L uk = (ts2', cs2', tk2', L2')"
        by (cases "spec_sweep M' now' limit L uk") auto
      have "cs2' = cs2 \<and> tk2' = tk2 \<and> traded_at ts2' = traded_at ts2 \<and> level_totals L2' = level_totals L2"
        by (rule "2.IH" [OF False level [symmetric] refl refl refl True "2.prems"(1-3) rest rest'])
          (use "2.prems" one(7) in auto)
      with "2.prems"(4,5) False level level' True empty rest rest' one(1) two(1) uk at show ?thesis
        by (auto simp: fun_eq_iff)
    qed
  qed
qed

section \<open>What a sweep leaves\<close>

lemma spec_sweep_leaves:
  assumes "matching_algorithm M lot" and "lot \<noteq> 0"
    and "spec_sweep M now limit L tk = (ts, cs, tk', L')" and "tradable_ladder lot L"
    and "is_multiple_of (base (remaining_quantity tk)) lot" and "ladder_sorted sd L"
  shows "ladder_sorted sd L' \<and> fst ` set L' \<subseteq> fst ` set L \<and>
    (\<forall>ord'\<in>set (ladder_orders L'). \<exists>ord\<in>set (ladder_orders L). remains_of ord ord')"
  using assms
proof (induction M now limit L tk arbitrary: ts cs tk' L' rule: spec_sweep.induct)
  case (1 M now limit tk)
  then show ?case by auto
next
  case (2 M now limit p os L tk)
  have refl_remains: "remains_of ord ord" for ord
    unfolding remains_of_def by (intro exI [of _ "remaining_quantity ord"]) simp
  show ?case
  proof (cases "remaining_quantity tk = 0 \<or> \<not> crosses_limit (order_side tk) limit p")
    case True
    with "2.prems"(3,6) refl_remains show ?thesis by auto
  next
    case False
    obtain ts1 cs1 tk1 os1 where level: "spec_level M now p os tk = (ts1, cs1, tk1, os1)"
      by (cases "spec_level M now p os tk") auto
    have os: "tradable_level lot os" using "2.prems"(4) by simp
    note one = spec_level_facts [OF "2.prems"(1,2) os "2.prems"(5) level]
    show ?thesis
    proof (cases "os1 = []")
      case nonempty: False
      then have L': "L' = (p, os1) # L" using "2.prems"(3) False level by simp
      show ?thesis unfolding L' using "2.prems"(6) one(9) refl_remains by (simp, blast)
    next
      case True
      obtain ts2 cs2 tk2 L2 where rest: "spec_sweep M now limit L tk1 = (ts2, cs2, tk2, L2)"
        by (cases "spec_sweep M now limit L tk1") auto
      have "L' = L2" using "2.prems"(3) False level True rest by simp
      moreover have "ladder_sorted sd L2 \<and> fst ` set L2 \<subseteq> fst ` set L \<and>
          (\<forall>ord'\<in>set (ladder_orders L2). \<exists>ord\<in>set (ladder_orders L). remains_of ord ord')"
        by (rule "2.IH" [OF False level [symmetric] refl refl refl True "2.prems"(1,2) rest])
          (use "2.prems" one(7) in auto)
      ultimately show ?thesis by auto
    qed
  qed
qed

end
