(* ===== verification/Engine_Invariants.thy ===== *)
theory Engine_Invariants
  imports Spec_Facts
begin

text \<open>
  What holds of the abstract engine on books that some concrete book represents: the touch never
  crosses, an admitted order never fails, the cascade ends with no stop due.
\<close>

section \<open>Represented books\<close>

definition represented ::
    "('s, 'k) store_ops \<Rightarrow> ('s \<Rightarrow> bool) \<Rightarrow> ('s \<Rightarrow> price \<Rightarrow> bool) \<Rightarrow> ('m, 'k) arena_ops \<Rightarrow> abs_book \<Rightarrow> bool" where
  "represented S ok covers A ab \<longleftrightarrow> (\<exists>b. book_ok S ok covers A b \<and> abs_of S A b = ab)"

definition abs_ok :: "abs_book \<Rightarrow> bool" where
  "abs_ok ab \<longleftrightarrow> lot_size (ab_spec ab) \<noteq> 0 \<and> matching_algorithm (ab_matcher ab) (lot_size (ab_spec ab)) \<and>
     (\<forall>sd. ladder_sorted sd (ab_sides ab sd) \<and> tradable_ladder (lot_size (ab_spec ab)) (ab_sides ab sd))"

text \<open>Arrival stamps the book may still need: one for every stop.\<close>

definition load :: "abs_book \<Rightarrow> nat" where
  "load ab = unat (ab_arrival ab) + stop_count ab"

context book_engine begin

lemma represented_abs_ok:
  assumes "represented S ok covers A ab"
  shows "abs_ok ab"
proof -
  obtain b K where b: "book_rel S ok covers A b K" "ab = abs_of S A b"
    using assms by (auto simp: represented_def book_ok_def)
  note bk = book_relD [OF b(1)]
  have "os \<noteq> [] \<and> tradable_level (lot_size (ob_spec b)) os" if mem: "(p, os) \<in> set (ladder_of S A b sd)" for p os sd
  proof -
    note level = ladder_nonempty [OF bk(1,5) mem]
    obtain l where "lookup_level S (ob_store b) sd p = Some l"
      using level(2) levels_relD(1) [OF bk(5), of sd p] by blast
    from queue_ok_length [OF arena levels_relD(2) [OF bk(5) this]] have "length os < 2 ^ 63"
      by (simp add: level(1))
    moreover have "remaining_quantity ord \<noteq> 0 \<and> is_multiple_of (base (remaining_quantity ord)) (lot_size (ob_spec b))"
      if "ord \<in> set os" for ord
      using that orders_relD(3) [OF bk(6)] by (auto simp: level(1) resting_def tradable_def)
    ultimately show ?thesis using level by (simp add: tradable_level_def)
  qed
  with bk(2,3) ladder_spec(1) [OF bk(1,5)] show ?thesis
    by (auto simp: abs_ok_def b(2) tradable_ladder_def)
qed

lemma represented_pop:
  assumes "represented S ok covers A ab" and "spec_pop ab = Some (ord, ab')"
  shows "represented S ok covers A ab'" and "on_lattice (ab_spec ab) ord" and "admit_under (ab_spec ab) ord = Inr ()"
    and "\<not> is_live ab' (order_id ord)" and "ab_spec ab' = ab_spec ab" and "ab_arrival ab' = ab_arrival ab"
proof -
  obtain b where b: "book_ok S ok covers A b" "ab = abs_of S A b" using assms(1) by (auto simp: represented_def)
  from pop_refines [OF b(1)] assms(2) b(2) obtain b' sd t where
    b': "book_ok S ok covers A b'" "abs_of S A b' = ab'" "parked (ob_spec b) sd t ord" "\<not> is_live ab' (order_id ord)"
      "ob_spec b' = ob_spec b" "next_arrival b' = next_arrival b" by auto
  then show "represented S ok covers A ab'" "\<not> is_live ab' (order_id ord)" by (auto simp: represented_def)
  show "on_lattice (ab_spec ab) ord" "admit_under (ab_spec ab) ord = Inr ()"
    using b'(3) b(2) by (simp_all add: parked_def)
  show "ab_spec ab' = ab_spec ab" "ab_arrival ab' = ab_arrival ab"
    using b' b(2) by (metis abs_of_simps(6), metis abs_of_simps(5))
qed

lemma represented_run:
  assumes "represented S ok covers A ab" and "on_lattice (ab_spec ab) ord" and "unat (ab_arrival ab) + 1 < 2 ^ 32"
    and "\<not> is_stop ord"
  shows "represented S ok covers A (snd (spec_run ab ord))"
proof -
  obtain b where "book_ok S ok covers A b" "ab = abs_of S A b" using assms(1) by (auto simp: represented_def)
  with run_refines [of b ord] assms(2-4) show ?thesis by (auto simp: represented_def)
qed

end

section \<open>Filling on the abstract book\<close>

lemma spec_fill_facts:
  assumes ok: "abs_ok ab" and tk: "is_multiple_of (base (remaining_quantity tk)) (lot_size (ab_spec ab))"
    and run: "spec_fill ab limit tk = (ts, cs, tk', ab')"
  defines "sd \<equiv> opposite (order_side tk)"
  shows "sweep_ok sd limit (ab_sides ab sd) tk ts cs tk' (ab_sides ab' sd)"
    and "sd' \<noteq> sd \<Longrightarrow> ab_sides ab' sd' = ab_sides ab sd'"
    and "fst ` set (ab_sides ab' sd) \<subseteq> fst ` set (ab_sides ab sd)"
    and "ladder_sorted sd (ab_sides ab' sd)"
    and "\<forall>ord'\<in>set (ladder_orders (ab_sides ab' sd)). \<exists>ord\<in>set (ladder_orders (ab_sides ab sd)). remains_of ord ord'"
    and "\<exists>r. tk' = tk\<lparr>remaining_quantity := r\<rparr>"
    and "ab_stops ab' = ab_stops ab" and "ab_spec ab' = ab_spec ab" and "ab_arrival ab' = ab_arrival ab"
proof -
  obtain L where sweep: "spec_sweep (ab_matcher ab) (ucast (ab_arrival ab)) limit (ab_sides ab sd) tk = (ts, cs, tk', L)"
    and ab': "ab' = ab\<lparr>ab_sides := (ab_sides ab)(sd := L)\<rparr>"
    using run by (auto simp: spec_fill_def sd_def Let_def split: prod.splits)
  have M: "matching_algorithm (ab_matcher ab) (lot_size (ab_spec ab))" "lot_size (ab_spec ab) \<noteq> 0"
    and L: "ladder_sorted sd (ab_sides ab sd)" "tradable_ladder (lot_size (ab_spec ab)) (ab_sides ab sd)"
    using ok by (simp_all add: abs_ok_def)
  show "sweep_ok sd limit (ab_sides ab sd) tk ts cs tk' (ab_sides ab' sd)"
    using spec_sweep_ok [OF M sweep L(2,1) tk] by (simp add: ab')
  show "sd' \<noteq> sd \<Longrightarrow> ab_sides ab' sd' = ab_sides ab sd'" by (simp add: ab')
  show "ab_stops ab' = ab_stops ab" "ab_spec ab' = ab_spec ab" "ab_arrival ab' = ab_arrival ab"
    by (simp_all add: ab')
  note leaves = spec_sweep_leaves [OF M sweep L(2) tk L(1)]
  then show "fst ` set (ab_sides ab' sd) \<subseteq> fst ` set (ab_sides ab sd)" "ladder_sorted sd (ab_sides ab' sd)"
    "\<forall>ord'\<in>set (ladder_orders (ab_sides ab' sd)). \<exists>ord\<in>set (ladder_orders (ab_sides ab sd)). remains_of ord ord'"
    by (simp_all add: ab')
  show "\<exists>r. tk' = tk\<lparr>remaining_quantity := r\<rparr>" by (rule spec_sweep_taker [OF sweep])
qed

lemma spec_fill_live:
  assumes "abs_ok ab" and "is_multiple_of (base (remaining_quantity tk)) (lot_size (ab_spec ab))"
    and "spec_fill ab limit tk = (ts, cs, tk', ab')" and "is_live ab' i"
  shows "is_live ab i"
proof -
  let ?sd = "opposite (order_side tk)"
  note fill = spec_fill_facts [OF assms(1-3)]
  have "order_id ` set (ladder_orders (ab_sides ab' ?sd)) \<subseteq> order_id ` set (ladder_orders (ab_sides ab ?sd))"
  proof
    fix j assume "j \<in> order_id ` set (ladder_orders (ab_sides ab' ?sd))"
    then obtain ord' where "ord' \<in> set (ladder_orders (ab_sides ab' ?sd))" "j = order_id ord'" by blast
    with fill(5) obtain ord where "ord \<in> set (ladder_orders (ab_sides ab ?sd))" "remains_of ord ord'" by blast
    moreover from this(2) have "order_id ord' = order_id ord" unfolding remains_of_def by fastforce
    ultimately show "j \<in> order_id ` set (ladder_orders (ab_sides ab ?sd))"
      using \<open>j = order_id ord'\<close> by simp
  qed
  moreover note fill(2) [of "order_side tk"] fill(7)
  ultimately show ?thesis
    using assms(4) by (cases "order_side tk") (auto simp: is_live_def ab_orders_def image_Un)
qed

section \<open>The touch never crosses\<close>

definition uncrossed :: "abs_book \<Rightarrow> bool" where
  "uncrossed ab \<longleftrightarrow> (\<forall>bid\<in>fst ` set (ab_sides ab Bid). \<forall>ask\<in>fst ` set (ab_sides ab Ask). bid < ask)"

lemma uncrossed_mono:
  "uncrossed ab \<Longrightarrow> (\<And>sd. fst ` set (ab_sides ab' sd) \<subseteq> fst ` set (ab_sides ab sd)) \<Longrightarrow> uncrossed ab'"
  unfolding uncrossed_def by (meson subsetD)

lemma uncrossed_fill:
  assumes "abs_ok ab" and "is_multiple_of (base (remaining_quantity tk)) (lot_size (ab_spec ab))"
    and "spec_fill ab limit tk = (ts, cs, tk', ab')" and "uncrossed ab"
  shows "uncrossed ab'"
proof (rule uncrossed_mono [OF assms(4)])
  note fill = spec_fill_facts [OF assms(1-3)]
  show "fst ` set (ab_sides ab' sd) \<subseteq> fst ` set (ab_sides ab sd)" for sd
  proof (cases "sd = opposite (order_side tk)")
    case False
    from fill(2) [OF this] show ?thesis by simp
  qed (use fill(3) in simp)
qed

lemma crosses_limit_simps [simp]:
  "crosses_limit sd None p"
  "crosses_limit Bid (Some l) p \<longleftrightarrow> p \<le> l"
  "crosses_limit Ask (Some l) p \<longleftrightarrow> l \<le> p"
  by (simp_all add: crosses_limit_def)

lemma no_level_crosses:
  assumes "ladder_sorted (opposite sd) L"
    and "case L of [] \<Rightarrow> True | l # _ \<Rightarrow> \<not> crosses_limit sd (Some p) (fst l)" and "l \<in> set L"
  shows "\<not> crosses_limit sd (Some p) (fst l)"
  using assms by (cases L; cases sd) (auto simp: ladder_sorted_def not_le)

lemma uncrossed_limit:
  assumes "abs_ok ab" and "is_multiple_of (base (remaining_quantity ord)) (lot_size (ab_spec ab))"
    and limit: "otype ord = Limit p tif" and "uncrossed ab"
  shows "uncrossed (snd (spec_limit ab ord p tif))"
proof -
  let ?sd = "order_side ord"
  obtain ts cs tk ab1 where fill: "spec_fill ab (Some p) ord = (ts, cs, tk, ab1)"
    by (cases "spec_fill ab (Some p) ord") auto
  note facts = spec_fill_facts [OF assms(1,2) fill] and un = uncrossed_fill [OF assms(1,2) fill assms(4)]
  obtain r where tk: "tk = ord\<lparr>remaining_quantity := r\<rparr>" using facts(6) by blast
  have "uncrossed (snd (spec_add ab1 tk))" if rest: "remaining_quantity tk \<noteq> 0"
  proof -
    have "\<not> crosses_limit ?sd (Some p) (fst l)" if "l \<in> set (ab_sides ab1 (opposite ?sd))" for l
      using no_level_crosses [OF facts(4) _ that] sweep_okD(5) [OF facts(1)] rest by blast
    then have "uncrossed (ab1\<lparr>ab_sides := (ab_sides ab1)(?sd := rest_at ?sd p (tk\<lparr>arrival := a\<rparr>) (ab_sides ab1 ?sd)),
        ab_arrival := a'\<rparr>)" for a a'
      using un by (cases ?sd) (auto simp: uncrossed_def rest_at_prices not_le)
    with un tk limit show ?thesis
      by (simp add: spec_add_def split: sum.split)
  qed
  with un fill show ?thesis
    by (simp add: spec_limit_def Let_def split_beta split: time_in_force.split)
qed

lemma uncrossed_run:
  assumes "abs_ok ab" and "is_multiple_of (base (remaining_quantity ord)) (lot_size (ab_spec ab))" and "uncrossed ab"
  shows "uncrossed (snd (spec_run ab ord))"
proof -
  have "uncrossed (snd (spec_fok ab ord p))" for p
    using uncrossed_fill [OF assms(1,2) _ assms(3)] assms(3)
    by (auto simp: spec_fok_def Let_def split: prod.split)
  moreover have "uncrossed (snd (spec_market ab ord))"
    using uncrossed_fill [OF assms(1,2) _ assms(3)]
    by (auto simp: spec_market_def Let_def split: prod.split)
  moreover have "uncrossed (snd (spec_finish i res)) = uncrossed (snd res)" for i res
    by (simp add: spec_finish_def uncrossed_def split_beta split: sum.split)
  ultimately show ?thesis
    using uncrossed_limit [OF assms(1,2) _ assms(3)] by (simp add: spec_run_def split: order_type.split)
qed

section \<open>An admitted order never fails\<close>

lemma activate_id: "order_id (activate ord) = order_id ord"
  by (simp add: activate_def)

lemma admit_activate: "admit_under spec ord = Inr () \<Longrightarrow> admit_under spec (activate ord) = Inr ()"
  by (cases "otype ord") (auto simp: admit_under_def activate_def split: sum.splits option.splits)

lemma rest_succeeds:
  assumes "abs_ok ab" and "is_multiple_of (base (remaining_quantity ord)) (lot_size (ab_spec ab))"
    and "admit_under (ab_spec ab) ord = Inr ()" and "\<not> is_live ab (order_id ord)"
    and "otype ord = Limit p tif" and fill: "spec_fill ab limit ord = (ts, cs, tk, ab1)"
  shows "spec_add ab1 tk = (Inr (), ab1\<lparr>
    ab_sides := (ab_sides ab1)(order_side ord := rest_at (order_side ord) p (tk\<lparr>arrival := ab_arrival ab1\<rparr>)
      (ab_sides ab1 (order_side ord))), ab_arrival := ab_arrival ab1 + 1\<rparr>)"
proof -
  note facts = spec_fill_facts [OF assms(1,2) fill]
  obtain r where tk: "tk = ord\<lparr>remaining_quantity := r\<rparr>" using facts(6) by blast
  have "admit_under (ab_spec ab1) tk = Inr ()"
    using assms(3) admit_under_cong [of tk ord] facts(8) by (simp add: tk)
  moreover have "\<not> is_live ab1 (order_id tk)"
    using assms(4) spec_fill_live [OF assms(1,2) fill] by (auto simp: tk)
  ultimately show ?thesis
    using assms(5) by (simp add: spec_add_def tk)
qed

lemma spec_run_succeeds:
  assumes "abs_ok ab" and "is_multiple_of (base (remaining_quantity ord)) (lot_size (ab_spec ab))"
    and admitted: "admit_under (ab_spec ab) ord = Inr ()" and fresh: "\<not> is_live ab (order_id ord)"
  shows "\<exists>report. fst (spec_run ab ord) = Inr report \<and> report_triggered report = [] \<and> report_id report = order_id ord"
proof -
  have "\<exists>r. fst (spec_limit ab ord p tif) = Inr r" if limit: "otype ord = Limit p tif" "tif \<noteq> FOK" for p tif
  proof -
    obtain ts cs tk ab1 where fill: "spec_fill ab (Some p) ord = (ts, cs, tk, ab1)"
      by (cases "spec_fill ab (Some p) ord") auto
    from rest_succeeds [OF assms limit(1) fill] fill limit(2) show ?thesis
      by (cases tif) (simp_all add: spec_limit_def Let_def)
  qed
  moreover have "\<exists>r. fst (spec_fok ab ord p) = Inr r" for p
    by (simp add: spec_fok_def Let_def split_beta)
  moreover have "\<exists>r. fst (spec_market ab ord) = Inr r"
    by (simp add: spec_market_def Let_def split_beta)
  moreover have "\<exists>report. fst (spec_finish i res) = Inr report \<and> report_triggered report = [] \<and> report_id report = i"
    if "\<exists>r. fst res = Inr r" for i res
    using that by (auto simp: spec_finish_def split_beta)
  ultimately show ?thesis
    unfolding spec_run_def by (simp split: order_type.split)
qed

lemma spec_park_facts:
  assumes "\<not> is_live ab (order_id ord)"
  shows "fst (spec_park ab ord t) = Inr (ExecutionReport (order_id ord) [] StopPending [] [])"
    and "uncrossed (snd (spec_park ab ord t)) = uncrossed ab"
  using assms by (simp_all add: spec_park_def uncrossed_def)

context book_engine begin

text \<open>Firing one stop.\<close>

lemma fire_facts:
  assumes "represented S ok covers A ab" and "load ab < 2 ^ 32" and pop: "spec_pop ab = Some (stop, ab1)"
  shows "abs_ok ab1" and "is_multiple_of (base (remaining_quantity (activate stop))) (lot_size (ab_spec ab1))"
    and "admit_under (ab_spec ab1) (activate stop) = Inr ()" and "\<not> is_live ab1 (order_id (activate stop))"
    and "represented S ok covers A (snd (spec_run ab1 (activate stop)))"
    and "load (snd (spec_run ab1 (activate stop))) < 2 ^ 32"
proof -
  note popped = represented_pop [OF assms(1) pop] and count = stop_count_pop [OF pop]
  show "abs_ok ab1" by (rule represented_abs_ok [OF popped(1)])
  have lattice: "on_lattice (ab_spec ab1) (activate stop)" using popped(2,5) by simp
  then show "is_multiple_of (base (remaining_quantity (activate stop))) (lot_size (ab_spec ab1))"
    by (simp add: on_lattice_def tradable_def)
  show "admit_under (ab_spec ab1) (activate stop) = Inr ()"
    using admit_activate [OF popped(3)] popped(5) by simp
  show "\<not> is_live ab1 (order_id (activate stop))" using popped(4) by (simp add: activate_id)
  have "unat (ab_arrival ab1) + 1 < 2 ^ 32"
    using assms(2) count popped(6) by (simp add: load_def)
  then show "represented S ok covers A (snd (spec_run ab1 (activate stop)))"
    by (rule represented_run [OF popped(1) lattice _ not_stop_activate])
  show "load (snd (spec_run ab1 (activate stop))) < 2 ^ 32"
    using assms(2) count popped(6) spec_run_arrival [of ab1 "activate stop"] by (simp add: load_def)
qed

text \<open>The cascade: it fires stops until none is due, and none of them fails.\<close>

lemma spec_cascade_facts:
  "represented S ok covers A ab \<Longrightarrow> load ab < 2 ^ 32 \<Longrightarrow>
     \<exists>reports. fst (spec_cascade ab) = Inr reports \<and> (\<forall>r\<in>set reports. report_triggered r = []) \<and>
       length reports + stop_count (snd (spec_cascade ab)) = stop_count ab \<and>
       spec_pop (snd (spec_cascade ab)) = None \<and> represented S ok covers A (snd (spec_cascade ab)) \<and>
       (uncrossed ab \<longrightarrow> uncrossed (snd (spec_cascade ab)))"
proof (induction ab rule: spec_cascade.induct)
  case (1 ab)
  show ?case
  proof (cases "spec_pop ab")
    case None
    with "1.prems" show ?thesis by (simp add: spec_cascade.simps [of ab])
  next
    case (Some popped)
    obtain stop ab1 where pop: "spec_pop ab = Some (stop, ab1)" using Some by (cases popped) auto
    let ?stop = "activate stop" and ?ab2 = "snd (spec_run ab1 (activate stop))"
    note fire = fire_facts [OF "1.prems" pop]
    obtain report where run: "fst (spec_run ab1 ?stop) = Inr report" "report_triggered report = []"
      using spec_run_succeeds [OF fire(1-4)] by blast
    then obtain reports where IH: "fst (spec_cascade ?ab2) = Inr reports"
      "\<forall>r\<in>set reports. report_triggered r = []" "length reports + stop_count (snd (spec_cascade ?ab2)) = stop_count ?ab2"
      "spec_pop (snd (spec_cascade ?ab2)) = None" "represented S ok covers A (snd (spec_cascade ?ab2))"
      "uncrossed ?ab2 \<longrightarrow> uncrossed (snd (spec_cascade ?ab2))"
      using "1.IH" [OF pop refl prod.collapse run(1) fire(5,6)] by blast
    have "spec_cascade ab = (Inr (report # reports), snd (spec_cascade ?ab2))"
      using pop run(1) IH(1) by (simp add: spec_cascade.simps [of ab] split_beta)
    moreover have "ab_sides ab1 = ab_sides ab"
      using pop by (auto simp: spec_pop_def spec_take_def split: option.splits)
    then have "uncrossed ab1 = uncrossed ab" by (simp add: uncrossed_def)
    ultimately show ?thesis
      using IH run(2) stop_count_pop [OF pop] uncrossed_run [OF fire(1,2)] by auto
  qed
qed

lemma spec_execute_facts:
  assumes "represented S ok covers A ab" and "on_lattice (ab_spec ab) ord" and "load ab + 1 < 2 ^ 32"
    and "admit_under (ab_spec ab) ord = Inr ()" and "\<not> is_live ab (order_id ord)"
  shows "\<exists>report. fst (spec_execute ab ord) = Inr report \<and> report_triggered report = [] \<and> report_id report = order_id ord"
    and "represented S ok covers A (snd (spec_execute ab ord))"
    and "uncrossed ab \<Longrightarrow> uncrossed (snd (spec_execute ab ord))"
    and "load (snd (spec_execute ab ord)) \<le> load ab + 1"
    and "stop_count (snd (spec_execute ab ord)) \<le> stop_count ab + 1"
proof -
  note ok = represented_abs_ok [OF assms(1)]
  have lot: "is_multiple_of (base (remaining_quantity (activate ord))) (lot_size (ab_spec ab))"
    "is_multiple_of (base (remaining_quantity ord)) (lot_size (ab_spec ab))"
    using assms(2) by (simp_all add: on_lattice_def tradable_def activate_def)
  show "\<exists>report. fst (spec_execute ab ord) = Inr report \<and> report_triggered report = [] \<and> report_id report = order_id ord"
    using spec_run_succeeds [OF ok lot(2) assms(4,5)] spec_park_facts(1) [OF assms(5)]
      spec_run_succeeds [OF ok lot(1) admit_activate [OF assms(4)]] assms(5)
    by (simp add: spec_execute_def activate_id split: option.split)
  show "uncrossed (snd (spec_execute ab ord))" if "uncrossed ab"
    using uncrossed_run [OF ok lot(1) that] uncrossed_run [OF ok lot(2) that] spec_park_facts(2) [OF assms(5)] that
    by (simp add: spec_execute_def split: option.split)
  obtain b where b: "book_ok S ok covers A b" "ab = abs_of S A b" using assms(1) by (auto simp: represented_def)
  have "unat (next_arrival b) + 1 < 2 ^ 32" using assms(3) b(2) by (simp add: load_def)
  from execute_refines [OF b(1) _ this] assms(2,4) b(2) show "represented S ok covers A (snd (spec_execute ab ord))"
    by (auto simp: represented_def)
  obtain K where K: "book_rel S ok covers A b K" using b(1) by (auto simp: book_ok_def)
  have "bt_ok (ab_stops ab sd)" for sd using stops_relD(1) [OF book_relD(7) [OF K]] b(2) by simp
  from spec_execute_load [OF this] stop_count_execute [OF this]
  show "load (snd (spec_execute ab ord)) \<le> load ab + 1"
    and "stop_count (snd (spec_execute ab ord)) \<le> stop_count ab + 1" by (simp_all add: load_def)
qed

lemma uncrossed_seq [simp]: "uncrossed (ab\<lparr>ab_seq := n\<rparr>) = uncrossed ab"
  by (simp add: uncrossed_def)

lemma represented_seq: "represented S ok covers A ab \<Longrightarrow> represented S ok covers A (ab\<lparr>ab_seq := n\<rparr>)"
  unfolding represented_def by (metis abs_of_trivial(2) book_ok_trivial(2))

lemma spec_submit_facts:
  assumes "represented S ok covers A ab" and "on_lattice (ab_spec ab) ord" and "load ab + 1 < 2 ^ 32"
    and fresh: "\<not> is_live ab (from_sequence (ab_seq ab))"
  shows "case admit_under (ab_spec ab) ord of
      Inl e \<Rightarrow> spec_submit ab ord = (Inl e, ab)
    | Inr _ \<Rightarrow> (\<exists>report. fst (spec_submit ab ord) = Inr report \<and> report_id report = from_sequence (ab_seq ab) \<and>
        (\<forall>r\<in>set (report_triggered report). report_triggered r = []) \<and>
        length (report_triggered report) \<le> stop_count ab + 1) \<and>
      spec_pop (snd (spec_submit ab ord)) = None"
    and "uncrossed ab \<Longrightarrow> uncrossed (snd (spec_submit ab ord))"
proof -
  let ?ab = "ab\<lparr>ab_seq := ab_seq ab + 1\<rparr>" and ?ord = "ord\<lparr>order_id := from_sequence (ab_seq ab)\<rparr>"
  have *: "(case admit_under (ab_spec ab) ord of
      Inl e \<Rightarrow> spec_submit ab ord = (Inl e, ab)
    | Inr _ \<Rightarrow> (\<exists>report. fst (spec_submit ab ord) = Inr report \<and> report_id report = from_sequence (ab_seq ab) \<and>
        (\<forall>r\<in>set (report_triggered report). report_triggered r = []) \<and>
        length (report_triggered report) \<le> stop_count ab + 1) \<and>
      spec_pop (snd (spec_submit ab ord)) = None) \<and> (uncrossed ab \<longrightarrow> uncrossed (snd (spec_submit ab ord)))"
  proof (cases "admit_under (ab_spec ab) ord")
    case (Inl e)
    then show ?thesis by (simp add: spec_submit_def)
  next
    case (Inr u)
    then have admitted: "admit_under (ab_spec ?ab) ?ord = Inr ()"
      using admit_under_cong [of ?ord ord] by simp
    have load: "load ?ab = load ab" by (simp add: load_def)
    have live: "is_live ?ab i = is_live ab i" for i by (simp add: is_live_def ab_orders_def)
    note run = spec_execute_facts [OF represented_seq [OF assms(1), of "ab_seq ab + 1"], of ?ord]
    have pre: "on_lattice (ab_spec ?ab) ?ord" "load ?ab + 1 < 2 ^ 32" "\<not> is_live ?ab (order_id ?ord)"
      using assms(2,3) fresh load live by simp_all
    from run(1) [OF pre(1,2) admitted pre(3)] obtain report where
      report: "fst (spec_execute ?ab ?ord) = Inr report" "report_triggered report = []" "report_id report = from_sequence (ab_seq ab)"
      by auto
    let ?ab1 = "snd (spec_execute ?ab ?ord)"
    note rep1 = run(2) [OF pre(1,2) admitted pre(3)] and un1 = run(3) [OF pre(1,2) admitted pre(3)]
      and load1 = run(4) [OF pre(1,2) admitted pre(3)]
    have "load ?ab1 < 2 ^ 32" using load1 assms(3) load by linarith
    from spec_cascade_facts [OF rep1 this] obtain reports where
      cascade: "fst (spec_cascade ?ab1) = Inr reports" "\<forall>r\<in>set reports. report_triggered r = []"
        "length reports + stop_count (snd (spec_cascade ?ab1)) = stop_count ?ab1" "spec_pop (snd (spec_cascade ?ab1)) = None"
        "uncrossed ?ab1 \<longrightarrow> uncrossed (snd (spec_cascade ?ab1))" by blast
    have submit: "spec_submit ab ord = (Inr (with_triggered report reports), snd (spec_cascade ?ab1))"
      using Inr report(1) cascade(1) by (simp add: spec_submit_def split_beta)
    have "stop_count ?ab = stop_count ab" by (simp add: stop_count_def)
    with run(5) [OF pre(1,2) admitted pre(3)] cascade(3) have "length reports \<le> stop_count ab + 1" by linarith
    with Inr submit report cascade un1 show ?thesis
      by (cases report) auto
  qed
  then show "case admit_under (ab_spec ab) ord of
      Inl e \<Rightarrow> spec_submit ab ord = (Inl e, ab)
    | Inr _ \<Rightarrow> (\<exists>report. fst (spec_submit ab ord) = Inr report \<and> report_id report = from_sequence (ab_seq ab) \<and>
        (\<forall>r\<in>set (report_triggered report). report_triggered r = []) \<and>
        length (report_triggered report) \<le> stop_count ab + 1) \<and>
      spec_pop (snd (spec_submit ab ord)) = None" by (rule conjunct1)
  show "uncrossed ab \<Longrightarrow> uncrossed (snd (spec_submit ab ord))" using * by blast
qed

end

end
