(* ===== verification/Sessions.thy ===== *)
theory Sessions
  imports Engine_Invariants
begin

text \<open>
  A client of the book: a sequence of \<open>submit\<close>, \<open>add_order\<close> and \<open>cancel_order\<close> calls, on the book and
  on the abstract engine, and the books such clients can reach.
\<close>

section \<open>Commands\<close>

datatype command =
    Submit order
  | Add order
  | Cancel exchange_id

datatype response =
    Submitted "order_book_error + execution_report"
  | Done "order_book_error + unit"

fun perform ::
    "('s, 'k) store_ops \<Rightarrow> ('m, 'k) arena_ops \<Rightarrow> ('s, 'm, 'k) order_book \<Rightarrow> command \<Rightarrow>
       (response \<times> ('s, 'm, 'k) order_book) option" where
  "perform S A b (Submit ord) = map_option (map_prod Submitted id) (submit S A b ord)"
| "perform S A b (Add ord) = map_option (map_prod Done id) (add_order S A b ord)"
| "perform S A b (Cancel i) = map_option (map_prod Done id) (cancel_order S A b i)"

fun session ::
    "('s, 'k) store_ops \<Rightarrow> ('m, 'k) arena_ops \<Rightarrow> ('s, 'm, 'k) order_book \<Rightarrow> command list \<Rightarrow>
       (response list \<times> ('s, 'm, 'k) order_book) option" where
  "session S A b [] = Some ([], b)"
| "session S A b (c # cs) = do {
     (r, b) \<leftarrow> perform S A b c;
     (rs, b) \<leftarrow> session S A b cs;
     Some (r # rs, b)
   }"

fun spec_perform :: "abs_book \<Rightarrow> command \<Rightarrow> response \<times> abs_book" where
  "spec_perform ab (Submit ord) = map_prod Submitted id (spec_submit ab ord)"
| "spec_perform ab (Add ord) = map_prod Done id (spec_add ab ord)"
| "spec_perform ab (Cancel i) = map_prod Done id (spec_cancel ab i)"

fun spec_session :: "abs_book \<Rightarrow> command list \<Rightarrow> response list \<times> abs_book" where
  "spec_session ab [] = ([], ab)"
| "spec_session ab (c # cs) =
     (let (r, ab) = spec_perform ab c; (rs, ab) = spec_session ab cs in (r # rs, ab))"

text \<open>A command whose order is on the lattice; and room for its stamps and its identifier.\<close>

fun command_ok :: "instrument_spec \<Rightarrow> command \<Rightarrow> bool" where
  "command_ok spec (Submit ord) = on_lattice spec ord"
| "command_ok spec (Add ord) = on_lattice spec ord"
| "command_ok spec (Cancel i) = True"

definition room :: "abs_book \<Rightarrow> nat \<Rightarrow> bool" where
  "room ab n \<longleftrightarrow> load ab + n < 2 ^ 32 \<and> unat (ab_seq ab) + n < 2 ^ 64"

fun is_add :: "command \<Rightarrow> bool" where
  "is_add (Add ord) = True"
| "is_add c = False"

text \<open>The books a client that stays within \<open>P\<close> can reach.\<close>

inductive reachable ::
    "('s, 'k) store_ops \<Rightarrow> ('m, 'k) arena_ops \<Rightarrow> (command \<Rightarrow> bool) \<Rightarrow> ('s, 'm, 'k) order_book \<Rightarrow>
       ('s, 'm, 'k) order_book \<Rightarrow> bool" for S A P b0 where
  at_start: "reachable S A P b0 b0"
| one_more: "reachable S A P b0 b \<Longrightarrow> P c \<Longrightarrow> room (abs_of S A b) 1 \<Longrightarrow>
    perform S A b c = Some (r, b') \<Longrightarrow> reachable S A P b0 b'"

section \<open>What no command changes\<close>

text \<open>Specification and policy stay; only \<open>submit\<close> itself draws identifiers.\<close>

definition fixed :: "abs_book \<Rightarrow> instrument_spec \<times> matcher \<times> u64" where
  "fixed ab = (ab_spec ab, ab_matcher ab, ab_seq ab)"

lemma fixed_update [simp]:
  "fixed (ab\<lparr>ab_sides := L\<rparr>) = fixed ab" "fixed (ab\<lparr>ab_stops := L\<rparr>) = fixed ab"
  "fixed (ab\<lparr>ab_last := p\<rparr>) = fixed ab" "fixed (ab\<lparr>ab_arrival := a\<rparr>) = fixed ab"
  by (simp_all add: fixed_def)

lemma fixed_spec_add [simp]: "fixed (snd (spec_add ab ord)) = fixed ab"
  by (simp add: spec_add_def split: order_type.split sum.split)

lemma fixed_spec_cancel [simp]: "fixed (snd (spec_cancel ab i)) = fixed ab"
  by (simp add: spec_cancel_def)

lemma fixed_spec_limit [simp]: "fixed (snd (spec_limit ab ord p tif)) = fixed ab"
  by (rule spec_fill_cases [of ab "Some p" ord])
    (simp add: spec_limit_def Let_def split_beta split: time_in_force.split)

lemma fixed_spec_fok [simp]: "fixed (snd (spec_fok ab ord p)) = fixed ab"
  by (rule spec_fill_cases [of ab "Some p" ord]) (simp add: spec_fok_def Let_def)

lemma fixed_spec_market [simp]: "fixed (snd (spec_market ab ord)) = fixed ab"
  by (rule spec_fill_cases [of ab None ord]) (simp add: spec_market_def Let_def)

lemma fixed_spec_finish [simp]: "fixed (snd (spec_finish i res)) = fixed (snd res)"
  by (simp add: spec_finish_def split_beta split: sum.split)

lemma fixed_spec_run [simp]: "fixed (snd (spec_run ab ord)) = fixed ab"
  by (simp add: spec_run_def split: order_type.split)

lemma fixed_spec_execute [simp]: "fixed (snd (spec_execute ab ord)) = fixed ab"
  by (simp add: spec_execute_def spec_park_def split: option.split)

lemma fixed_spec_pop: "spec_pop ab = Some (ord, ab') \<Longrightarrow> fixed ab' = fixed ab"
  by (auto simp: spec_pop_def spec_take_def split: option.splits)

lemma spec_cascade_induct [case_names settled fails fires]:
  assumes "\<And>ab. spec_pop ab = None \<Longrightarrow> P ab (Inr []) ab"
    and "\<And>ab stop ab1 e. spec_pop ab = Some (stop, ab1) \<Longrightarrow> fst (spec_run ab1 (activate stop)) = Inl e \<Longrightarrow>
      P ab (Inl e) (snd (spec_run ab1 (activate stop)))"
    and "\<And>ab stop ab1 report res ab'. spec_pop ab = Some (stop, ab1) \<Longrightarrow>
      fst (spec_run ab1 (activate stop)) = Inr report \<Longrightarrow> P (snd (spec_run ab1 (activate stop))) res ab' \<Longrightarrow>
      P ab (map_sum id ((#) report) res) ab'"
  shows "P ab (fst (spec_cascade ab)) (snd (spec_cascade ab))"
proof (induction ab rule: spec_cascade.induct)
  case (1 ab)
  show ?case
  proof (cases "spec_pop ab")
    case None
    with assms(1) show ?thesis by (simp add: spec_cascade.simps [of ab])
  next
    case (Some popped)
    then obtain stop ab1 where pop: "spec_pop ab = Some (stop, ab1)" by (cases popped) auto
    show ?thesis
    proof (cases "fst (spec_run ab1 (activate stop))")
      case (Inl e)
      with assms(2) [OF pop] pop show ?thesis by (simp add: spec_cascade.simps [of ab] split_beta)
    next
      case (Inr report)
      from assms(3) [OF pop Inr "1" [OF pop refl prod.collapse Inr]] pop Inr show ?thesis
        by (simp add: spec_cascade.simps [of ab] split_beta)
    qed
  qed
qed

lemma fixed_spec_cascade [simp]: "fixed (snd (spec_cascade ab)) = fixed ab"
  by (rule spec_cascade_induct [where P = "\<lambda>ab res ab'. fixed ab' = fixed ab"]) (auto dest: fixed_spec_pop)

lemma fixed_spec_submit:
  "ab_spec (snd (spec_submit ab ord)) = ab_spec ab" "ab_matcher (snd (spec_submit ab ord)) = ab_matcher ab"
  "unat (ab_seq (snd (spec_submit ab ord))) \<le> unat (ab_seq ab) + 1"
  "admit_under (ab_spec ab) ord = Inr u \<Longrightarrow> ab_seq (snd (spec_submit ab ord)) = ab_seq ab + 1"
proof -
  have "fixed (snd (spec_submit ab ord)) =
      (case admit_under (ab_spec ab) ord of Inl _ \<Rightarrow> fixed ab | Inr _ \<Rightarrow> fixed (ab\<lparr>ab_seq := ab_seq ab + 1\<rparr>))"
    by (simp add: spec_submit_def split_beta split: sum.split)
  then show "ab_spec (snd (spec_submit ab ord)) = ab_spec ab" "ab_matcher (snd (spec_submit ab ord)) = ab_matcher ab"
    "unat (ab_seq (snd (spec_submit ab ord))) \<le> unat (ab_seq ab) + 1"
    "admit_under (ab_spec ab) ord = Inr u \<Longrightarrow> ab_seq (snd (spec_submit ab ord)) = ab_seq ab + 1"
    using unat_succ_le [of "ab_seq ab"] by (auto simp: fixed_def split: sum.splits)
qed

lemma fixed_spec_perform:
  "ab_spec (snd (spec_perform ab c)) = ab_spec ab" "ab_matcher (snd (spec_perform ab c)) = ab_matcher ab"
  "unat (ab_seq (snd (spec_perform ab c))) \<le> unat (ab_seq ab) + 1"
  using fixed_spec_submit [of ab] fixed_spec_add [of ab] fixed_spec_cancel [of ab]
  by (cases c; simp add: fixed_def)+

section \<open>Stamps a command may take\<close>

lemma spec_cascade_load: "load (snd (spec_cascade ab)) \<le> load ab"
proof (rule spec_cascade_induct [where P = "\<lambda>ab res ab'. load ab' \<le> load ab"])
  have run: "load (snd (spec_run ab1 (activate stop))) \<le> load ab" if "spec_pop ab = Some (stop, ab1)" for ab stop ab1
  proof -
    have "ab_arrival ab1 = ab_arrival ab"
      using that by (auto simp: spec_pop_def spec_take_def split: option.splits)
    with stop_count_pop [OF that] spec_run_arrival [of ab1 "activate stop"] show ?thesis by (simp add: load_def)
  qed
  then show "load (snd (spec_run ab1 (activate stop))) \<le> load ab" if "spec_pop ab = Some (stop, ab1)" for ab stop ab1
    using that by blast
  show "load ab' \<le> load ab" if "spec_pop ab = Some (stop, ab1)" "load ab' \<le> load (snd (spec_run ab1 (activate stop)))"
    for ab stop ab1 ab' using run [OF that(1)] that(2) by simp
qed simp

lemma stop_count_drop: "length (ladder_orders (drop_orders P L)) \<le> length (ladder_orders L)"
proof (induction L)
  case (Cons l L)
  obtain p os where l: "l = (p, os)" by (cases l)
  from Cons show ?case by (auto simp: l intro!: add_mono)
qed (simp add: drop_orders_def)

lemma spec_perform_load:
  assumes "\<And>sd. bt_ok (ab_stops ab sd)"
  shows "load (snd (spec_perform ab c)) \<le> load ab + 1"
proof (cases c)
  case (Submit ord)
  let ?ab = "ab\<lparr>ab_seq := ab_seq ab + 1\<rparr>" and ?ord = "ord\<lparr>order_id := from_sequence (ab_seq ab)\<rparr>"
  have "load (snd (spec_execute ?ab ?ord)) \<le> load ab + 1"
    using spec_execute_load [of ?ab ?ord] assms by (simp add: load_def)
  with spec_cascade_load [of "snd (spec_execute ?ab ?ord)"] Submit show ?thesis
    by (simp add: spec_submit_def split_beta split: sum.split)
next
  case (Add ord)
  have "stop_count (snd (spec_add ab ord)) = stop_count ab" by (simp add: stop_count_def)
  with Add spec_add_arrival [of ab ord] show ?thesis by (simp add: load_def)
next
  case (Cancel i)
  then show ?thesis
    using stop_count_drop [of "\<lambda>ord. order_id ord = i" "ab_stops ab Bid"]
      stop_count_drop [of "\<lambda>ord. order_id ord = i" "ab_stops ab Ask"]
    by (simp add: spec_cancel_def load_def stop_count_def)
qed

section \<open>Sessions on a backend\<close>

context book_engine begin

lemma stops_bt_ok: "book_ok S ok covers A b \<Longrightarrow> bt_ok (stops_of b sd)"
  using stops_relD(1) [OF book_relD(7)] by (auto simp: book_ok_def)

lemma perform_refines:
  assumes "book_ok S ok covers A b" and "command_ok (ob_spec b) c" and "load (abs_of S A b) + 1 < 2 ^ 32"
  shows "\<exists>b'. perform S A b c = Some (fst (spec_perform (abs_of S A b) c), b') \<and>
    book_ok S ok covers A b' \<and> abs_of S A b' = snd (spec_perform (abs_of S A b) c)"
proof (cases c)
  case (Submit ord)
  with submit_refines [OF assms(1), of ord] assms(2,3) show ?thesis
    by (auto simp: load_def)
next
  case (Add ord)
  with add_order_refines [OF assms(1), of ord] assms(2,3) show ?thesis by (auto simp: load_def)
next
  case (Cancel i)
  with cancel_order_refines [OF assms(1), of i] show ?thesis by auto
qed

lemma session_refines:
  assumes "book_ok S ok covers A b" and "\<forall>c\<in>set cs. command_ok (ob_spec b) c" and "room (abs_of S A b) (length cs)"
  shows "\<exists>b'. session S A b cs = Some (fst (spec_session (abs_of S A b) cs), b') \<and>
    book_ok S ok covers A b' \<and> abs_of S A b' = snd (spec_session (abs_of S A b) cs)"
  using assms
proof (induction cs arbitrary: b)
  case (Cons c cs)
  from perform_refines [OF Cons.prems(1), of c] Cons.prems obtain b1 where
    b1: "perform S A b c = Some (fst (spec_perform (abs_of S A b) c), b1)" "book_ok S ok covers A b1"
      "abs_of S A b1 = snd (spec_perform (abs_of S A b) c)" by (auto simp: room_def)
  have "ob_spec b1 = ob_spec b"
    using b1(3) fixed_spec_perform(1) [of "abs_of S A b" c] by (metis abs_of_simps(6))
  moreover have "room (abs_of S A b1) (length cs)"
    using Cons.prems(3) spec_perform_load [of "abs_of S A b" c] fixed_spec_perform(3) [of "abs_of S A b" c]
      stops_bt_ok [OF Cons.prems(1)] unfolding b1(3) by (simp add: room_def)
  ultimately obtain b2 where "session S A b1 cs = Some (fst (spec_session (abs_of S A b1) cs), b2)"
    "book_ok S ok covers A b2" "abs_of S A b2 = snd (spec_session (abs_of S A b1) cs)"
    using Cons.IH [OF b1(2)] Cons.prems(2) by auto
  with b1 show ?case by (auto simp: split_beta)
qed auto

lemma reachable_ok:
  assumes "reachable S A P b0 b" and "book_ok S ok covers A b0" and "\<And>c. P c \<Longrightarrow> command_ok (ob_spec b0) c"
  shows "book_ok S ok covers A b \<and> ob_spec b = ob_spec b0 \<and> ob_matcher b = ob_matcher b0"
  using assms(1)
proof (induction rule: reachable.induct)
  case at_start
  with assms(2) show ?case by simp
next
  case (one_more b c r b')
  with perform_refines [of b c] assms(3) have "book_ok S ok covers A b'"
    "abs_of S A b' = snd (spec_perform (abs_of S A b) c)" by (auto simp: room_def)
  moreover from this(2) fixed_spec_perform [of "abs_of S A b" c] one_more.IH
  have "ob_spec b' = ob_spec b0" "ob_matcher b' = ob_matcher b0"
    by (metis abs_of_simps(6), metis abs_of_simps(7))
  ultimately show ?case by simp
qed

end

section \<open>Identifiers\<close>

text \<open>The live identifiers are drawn from the sequence, below its next number.\<close>

definition ids_drawn :: "abs_book \<Rightarrow> bool" where
  "ids_drawn ab \<longleftrightarrow> (\<forall>i. is_live ab i \<longrightarrow> (\<exists>n<ab_seq ab. i = from_sequence n))"

lemma is_live_cong:
  "ladder_orders (ab_sides ab' Bid) = ladder_orders (ab_sides ab Bid) \<Longrightarrow>
   ladder_orders (ab_sides ab' Ask) = ladder_orders (ab_sides ab Ask) \<Longrightarrow>
   ladder_orders (ab_stops ab' Bid) = ladder_orders (ab_stops ab Bid) \<Longrightarrow>
   ladder_orders (ab_stops ab' Ask) = ladder_orders (ab_stops ab Ask) \<Longrightarrow> is_live ab' i = is_live ab i"
  by (simp add: is_live_def ab_orders_def)

lemma is_live_cases:
  "is_live ab i \<longleftrightarrow> (\<exists>sd. i \<in> order_id ` set (ladder_orders (ab_sides ab sd)) \<or>
     i \<in> order_id ` set (ladder_orders (ab_stops ab sd)))"
  by (simp add: is_live_def ab_orders_def image_Un ex_side disj_ac)

lemma rest_at_orders: "set (ladder_orders (rest_at sd p ord L)) = insert ord (set (ladder_orders L))"
  by (induction sd p ord L rule: rest_at.induct) auto

lemma bt_put_orders:
  "set (ladder_orders (bt_put t q L)) \<subseteq> set q \<union> set (ladder_orders L)"
  by (induction t q L rule: bt_put.induct) auto

lemma spec_add_live: "is_live (snd (spec_add ab ord)) i \<Longrightarrow> is_live ab i \<or> i = order_id ord"
  by (auto simp: spec_add_def is_live_cases rest_at_orders split: order_type.splits sum.splits if_splits)

lemma bt_get_orders: "bt_get L t = Some q \<Longrightarrow> set q \<subseteq> set (ladder_orders L)"
  by (auto simp: bt_get_map_of ladder_orders_def dest: map_of_SomeD)

lemma spec_park_live:
  assumes "is_live (snd (spec_park ab ord t)) i"
  shows "is_live ab i \<or> i = order_id ord"
proof -
  let ?sd = "order_side ord"
  let ?L = "ab_stops ab ?sd"
  let ?q = "(case bt_get ?L t of None \<Rightarrow> [] | Some q \<Rightarrow> q) @ [ord]"
  have "set (ladder_orders (bt_put t ?q ?L)) \<subseteq> insert ord (set (ladder_orders ?L))"
    using bt_put_orders [of t ?q ?L] by (auto split: option.splits dest: bt_get_orders)
  then have new: "order_id ` set (ladder_orders (bt_put t ?q ?L)) \<subseteq> insert (order_id ord) (order_id ` set (ladder_orders ?L))"
    by blast
  from assms obtain sd where "i \<in> order_id ` set (ladder_orders (ab_sides (snd (spec_park ab ord t)) sd)) \<or>
      i \<in> order_id ` set (ladder_orders (ab_stops (snd (spec_park ab ord t)) sd))"
    by (auto simp: is_live_cases)
  then have "i \<in> order_id ` set (ladder_orders (ab_sides ab sd)) \<or> i \<in> order_id ` set (ladder_orders (ab_stops ab sd)) \<or>
      i \<in> order_id ` set (ladder_orders (bt_put t ?q ?L))"
    by (simp add: spec_park_def split: if_split_asm; blast)
  with new show ?thesis unfolding is_live_cases by blast
qed

lemma drop_orders_subset: "set (ladder_orders (drop_orders P L)) \<subseteq> set (ladder_orders L)"
proof (induction L)
  case (Cons l L)
  then show ?case by (cases l) auto
qed simp

lemma spec_cancel_live: "is_live (snd (spec_cancel ab i)) j \<Longrightarrow> is_live ab j"
  using drop_orders_subset [of "\<lambda>ord. order_id ord = i"]
  by (auto simp: spec_cancel_def is_live_cases split: if_splits) blast+

lemma spec_run_live:
  assumes "abs_ok ab" and "is_multiple_of (base (remaining_quantity ord)) (lot_size (ab_spec ab))"
    and "is_live (snd (spec_run ab ord)) i"
  shows "is_live ab i \<or> i = order_id ord"
proof -
  have fill: "is_live ab i" if "spec_fill ab limit ord = (ts, cs, tk, ab1)" "is_live ab1 i" for limit ts cs tk ab1
    by (rule spec_fill_live [OF assms(1,2) that])
  have "is_live ab i \<or> i = order_id ord" if live: "is_live (snd (spec_limit ab ord p tif)) i" for p tif
  proof -
    obtain ts cs tk ab1 where run: "spec_fill ab (Some p) ord = (ts, cs, tk, ab1)"
      by (cases "spec_fill ab (Some p) ord") auto
    obtain r where "tk = ord\<lparr>remaining_quantity := r\<rparr>"
      using spec_fill_facts(6) [OF assms(1,2) run] by blast
    with live run fill [OF run] spec_add_live [of ab1 tk i] show ?thesis
      by (auto simp: spec_limit_def Let_def split_beta split: if_splits time_in_force.splits)
  qed
  moreover have "is_live ab i" if "is_live (snd (spec_fok ab ord p)) i" for p
    using that fill by (auto simp: spec_fok_def Let_def split: prod.splits if_splits)
  moreover have "is_live ab i" if "is_live (snd (spec_market ab ord)) i"
    using that fill by (auto simp: spec_market_def Let_def split: prod.splits)
  moreover have "is_live (snd (spec_finish j res)) i = is_live (snd res) i" for j res
    by (simp add: spec_finish_def split_beta is_live_cases split: sum.split)
  ultimately show ?thesis
    using assms(3) by (auto simp: spec_run_def split: order_type.splits if_splits)
qed

lemma set_nearest [simp]: "set (ladder_orders (nearest sd L)) = set (ladder_orders L)"
  by (cases sd) (auto simp: nearest_def ladder_orders_def)

lemma take_front_orders: "set (ladder_orders (take_front L)) \<subseteq> set (ladder_orders L)"
  by (cases L rule: take_front.cases) auto

lemma spec_pop_live:
  assumes "spec_pop ab = Some (ord, ab')"
  shows "is_live ab (order_id ord)" and "is_live ab' i \<Longrightarrow> is_live ab i"
proof -
  from assms obtain sd where due: "stop_due ab sd = Some ord" "ab' = spec_take ab sd"
    by (auto simp: spec_pop_def split: option.splits)
  have "ord \<in> set (ladder_orders (nearest sd (ab_stops ab sd)))"
    by (rule stop_due_cases [OF due(1)]) simp
  then show "is_live ab (order_id ord)" by (auto simp: is_live_cases)
  have "set (ladder_orders (ab_stops ab' sd')) \<subseteq> set (ladder_orders (ab_stops ab sd'))" for sd'
    using take_front_orders [of "nearest sd (ab_stops ab sd)"] by (simp add: due(2) spec_take_def)
  moreover have "ab_sides ab' = ab_sides ab" by (simp add: due(2) spec_take_def)
  ultimately show "is_live ab' i \<Longrightarrow> is_live ab i" by (auto simp: is_live_cases) blast
qed

lemma ids_drawnI: "ids_drawn ab \<Longrightarrow> (\<And>i. is_live ab' i \<Longrightarrow> is_live ab i) \<Longrightarrow> ab_seq ab' = ab_seq ab \<Longrightarrow> ids_drawn ab'"
  by (simp add: ids_drawn_def)

lemma ids_drawn_fresh: "ids_drawn ab \<Longrightarrow> \<not> is_live ab (from_sequence (ab_seq ab))"
  by (auto simp: ids_drawn_def from_sequence_inj)

context book_engine begin

lemma spec_cascade_live:
  assumes "represented S ok covers A ab" and "load ab < 2 ^ 32" and "is_live (snd (spec_cascade ab)) i"
  shows "is_live ab i"
proof -
  have "represented S ok covers A ab \<longrightarrow> load ab < 2 ^ 32 \<longrightarrow> is_live (snd (spec_cascade ab)) i \<longrightarrow> is_live ab i"
  proof (rule spec_cascade_induct [where P =
      "\<lambda>ab res ab'. represented S ok covers A ab \<longrightarrow> load ab < 2 ^ 32 \<longrightarrow> is_live ab' i \<longrightarrow> is_live ab i"])
    fix ab stop ab1 assume pop: "spec_pop ab = Some (stop, ab1)"
    have run: "is_live ab i" if "represented S ok covers A ab" "load ab < 2 ^ 32" "is_live (snd (spec_run ab1 (activate stop))) i"
      using spec_run_live [OF fire_facts(1,2) [OF that(1,2) pop] that(3)] spec_pop_live [OF pop] by (auto simp: activate_id)
    then show "represented S ok covers A ab \<longrightarrow> load ab < 2 ^ 32 \<longrightarrow>
      is_live (snd (spec_run ab1 (activate stop))) i \<longrightarrow> is_live ab i" by blast
    fix ab' assume "represented S ok covers A (snd (spec_run ab1 (activate stop))) \<longrightarrow>
        load (snd (spec_run ab1 (activate stop))) < 2 ^ 32 \<longrightarrow> is_live ab' i \<longrightarrow> is_live (snd (spec_run ab1 (activate stop))) i"
    with run fire_facts(5,6) [OF _ _ pop]
    show "represented S ok covers A ab \<longrightarrow> load ab < 2 ^ 32 \<longrightarrow> is_live ab' i \<longrightarrow> is_live ab i" by blast
  qed simp
  with assms show ?thesis by blast
qed

lemma spec_execute_live:
  assumes "represented S ok covers A ab" and "on_lattice (ab_spec ab) ord" and "is_live (snd (spec_execute ab ord)) i"
  shows "is_live ab i \<or> i = order_id ord"
proof -
  have "is_multiple_of (base (remaining_quantity (activate ord))) (lot_size (ab_spec ab))"
    "is_multiple_of (base (remaining_quantity ord)) (lot_size (ab_spec ab))"
    using assms(2) by (simp_all add: on_lattice_def tradable_def activate_def)
  with spec_run_live [OF represented_abs_ok [OF assms(1)], of "activate ord" i]
    spec_run_live [OF represented_abs_ok [OF assms(1)], of ord i] spec_park_live [of ab ord _ i] assms(3)
  show ?thesis by (auto simp: spec_execute_def activate_id split: option.splits if_splits)
qed

text \<open>One command of a client that only submits and cancels.\<close>

lemma submit_step:
  assumes "represented S ok covers A ab" and "on_lattice (ab_spec ab) ord" and "room ab 1" and "ids_drawn ab"
  shows "ids_drawn (snd (spec_submit ab ord))"
proof (cases "admit_under (ab_spec ab) ord")
  case (Inl e)
  with assms(4) show ?thesis by (simp add: spec_submit_def)
next
  case (Inr u)
  let ?ab = "ab\<lparr>ab_seq := ab_seq ab + 1\<rparr>" and ?ord = "ord\<lparr>order_id := from_sequence (ab_seq ab)\<rparr>"
  let ?ab1 = "snd (spec_execute ?ab ?ord)"
  have live0: "is_live ?ab i = is_live ab i" for i by (simp add: is_live_def ab_orders_def)
  note rep = represented_seq [OF assms(1), of "ab_seq ab + 1"]
  have pre: "on_lattice (ab_spec ?ab) ?ord" "load ?ab + 1 < 2 ^ 32"
    "admit_under (ab_spec ?ab) ?ord = Inr ()" "\<not> is_live ?ab (order_id ?ord)"
    using assms(2,3) Inr admit_under_cong [of ?ord ord] ids_drawn_fresh [OF assms(4)]
    by (simp_all add: live0 room_def load_def)
  note run = spec_execute_facts [OF rep pre]
  have "is_live ab i \<or> i = from_sequence (ab_seq ab)" if "is_live (snd (spec_submit ab ord)) i" for i
  proof -
    have "load ?ab1 < 2 ^ 32" using run(4) pre(2) by linarith
    moreover have "is_live ?ab1 i \<or> is_live (snd (spec_cascade ?ab1)) i"
      using that Inr by (auto simp: spec_submit_def split_beta split: sum.splits)
    ultimately have "is_live ?ab1 i" using spec_cascade_live [OF run(2)] by blast
    with spec_execute_live [OF rep pre(1)] show ?thesis by (simp add: live0)
  qed
  moreover have "ab_seq ab < ab_seq ab + 1"
    using assms(3) by (simp add: room_def word_less_nat_alt unat_word_ariths)
  moreover have "ab_seq (snd (spec_submit ab ord)) = ab_seq ab + 1"
    by (rule fixed_spec_submit(4) [OF Inr])
  ultimately show ?thesis using assms(4) unfolding ids_drawn_def by (metis less_trans)
qed

lemma spec_cancel_uncrossed: "uncrossed ab \<Longrightarrow> uncrossed (snd (spec_cancel ab i))"
proof (rule uncrossed_mono)
  show "fst ` set (ab_sides (snd (spec_cancel ab i)) sd) \<subseteq> fst ` set (ab_sides ab sd)" for sd
    using drop_orders_prices [of "\<lambda>ord. order_id ord = i" "ab_sides ab sd"] by (simp add: spec_cancel_def)
qed

text \<open>The book of a client that submits and cancels: fresh identifiers, and a touch that does not cross.\<close>

lemma reachable_submitting:
  assumes "reachable S A P b0 b" and "book_ok S ok covers A b0"
    and P: "\<And>c. P c \<Longrightarrow> command_ok (ob_spec b0) c \<and> \<not> is_add c"
    and "ids_drawn (abs_of S A b0)" and "uncrossed (abs_of S A b0)"
  shows "book_ok S ok covers A b \<and> ob_spec b = ob_spec b0 \<and> ids_drawn (abs_of S A b) \<and> uncrossed (abs_of S A b)"
  using assms(1)
proof (induction rule: reachable.induct)
  case at_start
  with assms show ?case by simp
next
  case (one_more b c r b')
  have ok: "book_ok S ok covers A b" "ob_spec b = ob_spec b0" using one_more.IH by blast+
  from one_more.hyps have "reachable S A P b0 b'" by (blast intro: reachable.one_more)
  then have ok': "book_ok S ok covers A b'" "ob_spec b' = ob_spec b0" using reachable_ok assms(2) P by blast+
  have c: "command_ok (ob_spec b) c" "\<not> is_add c" and room: "load (abs_of S A b) + 1 < 2 ^ 32"
    using P one_more.hyps ok(2) by (auto simp: room_def)
  from perform_refines [OF ok(1) c(1) room] one_more.hyps
  have b': "abs_of S A b' = snd (spec_perform (abs_of S A b) c)" by auto
  have rep: "represented S ok covers A (abs_of S A b)" using ok by (auto simp: represented_def)
  have "ids_drawn (abs_of S A b') \<and> uncrossed (abs_of S A b')"
  proof (cases c)
    case (Submit ord)
    with c(1) have lattice: "on_lattice (ab_spec (abs_of S A b)) ord" by simp
    have "ids_drawn (snd (spec_submit (abs_of S A b) ord))"
      by (rule submit_step [OF rep lattice]) (use one_more in auto)
    moreover have "uncrossed (snd (spec_submit (abs_of S A b) ord))"
      by (rule spec_submit_facts(2) [OF rep lattice room ids_drawn_fresh]) (use one_more in auto)
    ultimately show ?thesis by (simp add: b' Submit)
  next
    case (Cancel i)
    have "ab_seq (snd (spec_cancel (abs_of S A b) i)) = ab_seq (abs_of S A b)"
      using fixed_spec_cancel [of "abs_of S A b" i] by (simp add: fixed_def)
    with one_more.IH have "ids_drawn (snd (spec_cancel (abs_of S A b) i))"
      by (blast intro: ids_drawnI spec_cancel_live)
    then show ?thesis
      using one_more.IH spec_cancel_uncrossed by (simp add: b' Cancel)
  qed (use c(2) in simp)
  with ok' show ?case by blast
qed

end

end
