(* ===== verification/Book_Facts.thy ===== *)
theory Book_Facts
  imports Sessions
begin

text \<open>
  What the queries of a consistent book read: the index finds every order where it lies, the levels
  are in price and time priority, cancelling takes out one order and adding puts one in.
\<close>

section \<open>Ladders\<close>

lemma ladder_orders_drop [simp]: "ladder_orders (drop_orders P L) = filter (\<lambda>ord. \<not> P ord) (ladder_orders L)"
proof (induction L)
  case (Cons l L)
  then show ?case by (cases l) (auto simp: filter_empty_conv)
qed simp

lemma distinct_ladder_ids:
  assumes "distinct (map fst L)" and "\<And>p os. (p, os) \<in> set L \<Longrightarrow> distinct (map order_id os)"
    and "\<And>p os p' os' x x'. (p, os) \<in> set L \<Longrightarrow> (p', os') \<in> set L \<Longrightarrow> p \<noteq> p' \<Longrightarrow> x \<in> set os \<Longrightarrow> x' \<in> set os' \<Longrightarrow>
      order_id x \<noteq> order_id x'"
  shows "distinct (map order_id (ladder_orders L))"
  using assms
proof (induction L)
  case (Cons l L)
  obtain p os where l: "l = (p, os)" by (cases l)
  have "distinct (map order_id (ladder_orders L))"
    using Cons.prems by (intro Cons.IH) (simp, force, (meson list.set_intros(2))+)
  moreover have "order_id x \<noteq> order_id x'" if "x \<in> set os" "x' \<in> set (ladder_orders L)" for x x'
  proof -
    from that(2) obtain p' os' where level: "(p', os') \<in> set L" "x' \<in> set os'" by (auto simp: ladder_orders_def)
    then have "p \<noteq> p'" using Cons.prems(1) by (force simp: l)
    with Cons.prems(3) [of p os p' os' x x'] level that(1) show ?thesis by (simp add: l)
  qed
  ultimately show ?case using Cons.prems(2) by (auto simp: l)
qed simp

section \<open>The index\<close>

context book_engine begin

lemma ladder_mem:
  assumes "book_rel S ok covers A b K"
  shows "(p, os) \<in> set (ladder_of S A b sd) \<longleftrightarrow>
    K sd p \<noteq> [] \<and> os = orders_at (arena_get A (ob_nodes b)) (K sd p)"
proof -
  note bk = book_relD [OF assms]
  have "distinct (map fst (ladder_of S A b sd))"
    by (rule ladder_sorted_distinct [OF ladder_spec(1) [OF bk(1,5)]])
  then have "(p, os) \<in> set (ladder_of S A b sd) \<longleftrightarrow> map_of (ladder_of S A b sd) p = Some os" by simp
  then show ?thesis unfolding ladder_spec(2) [OF bk(1,5)] by (auto simp: level_at_def)
qed

lemma level_index:
  assumes "book_rel S ok covers A b K" and "(p, os) \<in> set (ladder_of S A b sd)"
  shows "ord \<in> set os \<longleftrightarrow> (\<exists>k. hm_get (ob_index b) (order_id ord) = Some (Book_Address sd p k) \<and>
    order_at (arena_get A (ob_nodes b)) k = Some ord)"
proof -
  let ?O = "order_at (arena_get A (ob_nodes b))"
  note bk = book_relD [OF assms(1)]
  have os: "os = map (\<lambda>k. the (?O k)) (K sd p)" using assms ladder_mem by blast
  have live: "?O k \<noteq> None" if "k \<in> set (K sd p)" for k
    using that orders_relD(2) [OF bk(6)] keys_ofI [of k K sd p] by (metis domIff)
  show ?thesis
    unfolding os using index_relD [OF bk(8)] live by (force simp: image_iff)
qed

lemma location_in_book:
  assumes "book_rel S ok covers A b K"
  shows "order_location_of b i = Some (In_Book sd p) \<longleftrightarrow>
    (\<exists>os. (p, os) \<in> set (ladder_of S A b sd) \<and> i \<in> order_id ` set os)"
proof -
  let ?O = "order_at (arena_get A (ob_nodes b))"
  note bk = book_relD [OF assms]
  have "order_location_of b i = Some (In_Book sd p) \<longleftrightarrow> (\<exists>k. addressed ?O K (stops_of b) i (Book_Address sd p k))"
    unfolding index_relD [OF bk(8), symmetric]
    by (auto simp: order_location_of_def elim: address_location.elims)
  then show ?thesis unfolding ladder_mem [OF assms] by (auto simp: image_iff)
qed

lemma location_in_stops:
  assumes "book_rel S ok covers A b K"
  shows "order_location_of b i = Some (In_Stop_Book sd t) \<longleftrightarrow>
    (\<exists>q. (t, q) \<in> set (stops_of b sd) \<and> i \<in> order_id ` set q)"
proof -
  let ?O = "order_at (arena_get A (ob_nodes b))"
  note bk = book_relD [OF assms]
  have "order_location_of b i = Some (In_Stop_Book sd t) \<longleftrightarrow> addressed ?O K (stops_of b) i (Stop_Address sd t)"
    unfolding index_relD [OF bk(8), symmetric]
    by (auto simp: order_location_of_def elim: address_location.elims)
  then show ?thesis using bt_get_eq_Some [OF stops_relD(1) [OF bk(7)]] by auto
qed

text \<open>Every live identifier has one order.\<close>

lemma ids_unique:
  assumes "book_rel S ok covers A b K"
  shows "distinct (map order_id (ab_orders (abs_of S A b)))"
proof -
  let ?L = "arena_get A (ob_nodes b)"
  note bk = book_relD [OF assms]
  have loc: "order_location_of b (order_id x) = Some (In_Book sd p)" if "(p, os) \<in> set (ladder_of S A b sd)" "x \<in> set os" for sd p os x
    unfolding location_in_book [OF assms] using that by blast
  have stop: "order_location_of b (order_id x) = Some (In_Stop_Book sd t)" if "(t, q) \<in> set (stops_of b sd)" "x \<in> set q" for sd t q x
    unfolding location_in_stops [OF assms] using that by blast
  have level: "distinct (map order_id os)" if mem: "(p, os) \<in> set (ladder_of S A b sd)" for sd p os
  proof -
    have os: "os = orders_at ?L (K sd p)" "K sd p \<noteq> []" using ladder_mem [OF assms] mem by auto
    then obtain l where "lookup_level S (ob_store b) sd p = Some l"
      using levels_relD(1) [OF bk(5), of sd p] by blast
    from levels_relD(2) [OF bk(5) this] have "distinct (K sd p)" by (simp add: queue_ok_def)
    moreover have "k' = k" if "k \<in> set (K sd p)" "k' \<in> set (K sd p)"
      "order_id (the (order_at ?L k)) = order_id (the (order_at ?L k'))" for k k'
      by (rule ids_distinct [OF bk(8) that])
    ultimately show ?thesis unfolding os(1) by (auto simp: distinct_map inj_on_def)
  qed
  have sides: "distinct (map order_id (ladder_orders (ladder_of S A b sd)))" for sd
    by (rule distinct_ladder_ids [OF ladder_sorted_distinct [OF ladder_spec(1) [OF bk(1,5)]] level])
      (auto dest!: loc)
  have stops: "distinct (map order_id (ladder_orders (stops_of b sd)))" for sd
    by (rule distinct_ladder_ids) (use stops_relD [OF bk(7)] stop in \<open>auto simp: bt_ok_def strict_sorted_iff dest!: stop\<close>)
  have in_book: "\<exists>p. order_location_of b (order_id x) = Some (In_Book sd p)" if "x \<in> set (ladder_orders (ladder_of S A b sd))" for x sd
    using that loc by (fastforce simp: ladder_orders_def)
  have in_stops: "\<exists>t. order_location_of b (order_id x) = Some (In_Stop_Book sd t)" if "x \<in> set (ladder_orders (stops_of b sd))" for x sd
    using that stop by (fastforce simp: ladder_orders_def)
  show ?thesis
    using sides stops by (auto simp: ab_orders_def dest!: in_book in_stops)
qed

text \<open>\<open>get_order\<close> reads the order wherever it lies.\<close>

lemma get_order_iff:
  assumes "book_rel S ok covers A b K"
  shows "get_order A b i = Some ord \<longleftrightarrow> ord \<in> set (ab_orders (abs_of S A b)) \<and> order_id ord = i"
proof -
  let ?L = "arena_get A (ob_nodes b)"
  note bk = book_relD [OF assms]
  have inj: "ord' = ord" if "ord' \<in> set (ab_orders (abs_of S A b))" "ord \<in> set (ab_orders (abs_of S A b))"
    "order_id ord' = order_id ord" for ord ord'
    using ids_unique [OF assms] that by (auto simp: distinct_map dest: inj_onD)
  have found: "x \<in> set (ab_orders (abs_of S A b)) \<and> order_id x = i" if get: "get_order A b i = Some x" for x
  proof (cases "hm_get (ob_index b) i")
    case (Some a)
    then have a: "addressed (order_at ?L) K (stops_of b) i a" using index_relD [OF bk(8)] by blast
    show ?thesis
    proof (cases a)
      case (Book_Address sd p k)
      with a get Some have x: "k \<in> set (K sd p)" "order_at ?L k = Some x" "order_id x = i"
        by (auto simp: get_order_def)
      then have "x \<in> set (ladder_orders (ladder_of S A b sd))"
        unfolding ladder_orders_set [OF bk(1,5)] by force
      with x(3) show ?thesis by (cases sd) (simp_all add: ab_orders_def)
    next
      case (Stop_Address sd t)
      with a get Some obtain q where q: "bt_get (stops_of b sd) t = Some q" "find (\<lambda>ord. order_id ord = i) q = Some x"
        by (auto simp: get_order_def)
      then have "x \<in> set q" "order_id x = i" by (auto simp: find_Some_iff)
      moreover have "set q \<subseteq> set (ladder_orders (stops_of b sd))" by (rule bt_get_orders [OF q(1)])
      ultimately show ?thesis by (cases sd) (auto simp: ab_orders_def)
    qed
  qed (use get in \<open>simp add: get_order_def\<close>)
  have some: "get_order A b i \<noteq> None" if "ord \<in> set (ab_orders (abs_of S A b))" "order_id ord = i"
  proof -
    from that have "is_live (abs_of S A b) i" by (auto simp: is_live_def)
    then obtain a where a: "hm_get (ob_index b) i = Some a" using is_live_iff [OF assms] by blast
    then have adr: "addressed (order_at ?L) K (stops_of b) i a" using index_relD [OF bk(8)] by blast
    show ?thesis
    proof (cases a)
      case (Book_Address sd p k)
      with adr have "?L k \<noteq> None"
        using orders_relD(2) [OF bk(6)] keys_ofI [of k K sd p] by auto
      with a Book_Address show ?thesis by (auto simp: get_order_def)
    next
      case (Stop_Address sd t)
      with adr obtain q where "bt_get (stops_of b sd) t = Some q" "i \<in> order_id ` set q" by auto
      with a Stop_Address show ?thesis by (auto simp: get_order_def find_None_iff)
    qed
  qed
  show ?thesis
    using found some inj by (metis not_None_eq)
qed

lemma order_count_eq:
  assumes "book_rel S ok covers A b K"
  shows "order_count b = length (ab_orders (abs_of S A b))"
proof -
  have "hm_ok (ob_index b)" using book_relD(8) [OF assms] by (simp add: index_rel_def)
  then have "card (set (hm_keys (ob_index b))) = order_count b"
    using distinct_card by (fastforce simp: order_count_def hm_ok_def hm_keys_def)
  then have "order_count b = card (dom (hm_get (ob_index b)))" by (simp add: hm_keys_set)
  also have "dom (hm_get (ob_index b)) = order_id ` set (ab_orders (abs_of S A b))"
    using is_live_iff [OF assms] by (auto simp: is_live_def)
  also have "card \<dots> = length (ab_orders (abs_of S A b))"
    using distinct_card [OF ids_unique [OF assms]] by simp
  finally show ?thesis .
qed

section \<open>The ladder\<close>

lemma best_price_ladder:
  assumes "book_rel S ok covers A b K"
  shows "best_price S (ob_store b) sd = Some (map_option fst (case ladder_of S A b sd of [] \<Rightarrow> None | l # _ \<Rightarrow> Some l))"
  using best_total [OF book_relD(1) [OF assms], of sd]
  by (simp add: best_price_def ladder_of_def split: list.split)

lemma depth_ladder:
  assumes "book_rel S ok covers A b K"
  shows "depth S A b sd n = Some (map (\<lambda>(p, os). (p, qty_sum (map remaining_quantity os))) (take n (ladder_of S A b sd)))"
proof -
  note bk = book_relD [OF assms]
  have iter: "queue_iter A (bl_queue l) (ob_nodes b) \<noteq> None" if "l \<in> set (levels_of S (ob_store b) sd)" for l
    using that levels_mem [OF bk(1)] queue_iter_spec levels_relD(2) [OF bk(5)] by (metis option.distinct(1))
  have "depth_rows A (map (\<lambda>l. view_new l (ob_nodes b)) ls) =
      Some (map (\<lambda>l. (bl_price l, qty_sum (map remaining_quantity (the (queue_iter A (bl_queue l) (ob_nodes b)))))) ls)"
    if "set ls \<subseteq> set (levels_of S (ob_store b) sd)" for ls
    using that
  proof (induction ls)
    case (Cons l ls)
    then show ?case using iter [of l] by (auto simp: view_total_def view_orders_def view_new_def)
  qed simp
  from this [of "take n (levels_of S (ob_store b) sd)"] show ?thesis
    by (simp add: depth_def book_levels_def ladder_of_def take_map comp_def set_take_subset)
qed

text \<open>Price and time priority.\<close>

lemma level_priority:
  assumes "book_rel S ok covers A b K" and "(p, os) \<in> set (ladder_of S A b sd)"
  shows "os \<noteq> []" and "sorted_wrt (<) (map arrival os)"
    and "\<forall>ord\<in>set os. order_side ord = sd \<and> limit_price (otype ord) = Some p \<and> tradable (ob_spec b) ord"
proof -
  note bk = book_relD [OF assms(1)]
  have os: "os = orders_at (arena_get A (ob_nodes b)) (K sd p)" "K sd p \<noteq> []"
    using assms ladder_mem by blast+
  show "os \<noteq> []" using os by simp
  show "sorted_wrt (<) (map arrival os)"
    using orders_relD(4) [OF bk(6), of sd p] by (simp add: os(1) comp_def)
  show "\<forall>ord\<in>set os. order_side ord = sd \<and> limit_price (otype ord) = Some p \<and> tradable (ob_spec b) ord"
    using orders_relD(3) [OF bk(6)] by (fastforce simp: os(1) resting_def)
qed

end

section \<open>Adding and cancelling\<close>

lemma ab_orders_cancel:
  "ab_orders (snd (spec_cancel ab i)) = filter (\<lambda>ord. order_id ord \<noteq> i) (ab_orders ab)"
proof (cases "is_live ab i")
  case True
  then show ?thesis by (simp add: spec_cancel_def ab_orders_def)
next
  case False
  then have "filter (\<lambda>ord. order_id ord \<noteq> i) (ab_orders ab) = ab_orders ab"
    by (intro filter_True) (auto simp: is_live_def)
  with False show ?thesis by (simp add: spec_cancel_def)
qed

lemma drop_rest_at:
  "(\<And>p os. (p, os) \<in> set L \<Longrightarrow> os \<noteq> [] \<and> (\<forall>x\<in>set os. \<not> P x)) \<Longrightarrow> P ord \<Longrightarrow>
     drop_orders P (rest_at sd p ord L) = L"
proof (induction sd p ord L rule: rest_at.induct)
  case (2 sd p ord p' os L)
  have os: "os \<noteq> []" "filter (\<lambda>x. \<not> P x) os = os" using "2.prems"(1) [of p' os] by auto
  have rest: "drop_orders P L = L" by (rule drop_orders_id) (use "2.prems"(1) in auto)
  consider "p = p'" | "p \<noteq> p'" "better sd p p'" | "p \<noteq> p'" "\<not> better sd p p'" by blast
  then show ?case
  proof cases
    case 3
    with "2.IH" [OF 3] "2.prems" os show ?thesis by auto
  qed (use "2.prems"(2) os rest in auto)
qed simp

lemma spec_add_Inr:
  assumes "fst (spec_add ab ord) = Inr u"
  obtains p tif where "otype ord = Limit p tif" and "\<not> is_live ab (order_id ord)"
    and "snd (spec_add ab ord) = ab\<lparr>ab_sides := (ab_sides ab)(order_side ord :=
        rest_at (order_side ord) p (ord\<lparr>arrival := ab_arrival ab\<rparr>) (ab_sides ab (order_side ord))),
      ab_arrival := ab_arrival ab + 1\<rparr>"
  using assms by (auto simp: spec_add_def split: order_type.splits sum.splits if_splits)

text \<open>Taking an added order out again leaves nothing but the stamp it drew.\<close>

lemma cancel_after_add:
  assumes "fst (spec_add ab ord) = Inr u" and levels: "\<And>sd p os. (p, os) \<in> set (ab_sides ab sd) \<or> (p, os) \<in> set (ab_stops ab sd) \<Longrightarrow> os \<noteq> []"
  shows "spec_cancel (snd (spec_add ab ord)) (order_id ord) = (Inr (), ab\<lparr>ab_arrival := ab_arrival ab + 1\<rparr>)"
proof (rule spec_add_Inr [OF assms(1)])
  fix p tif
  let ?sd = "order_side ord" and ?P = "\<lambda>x. order_id x = order_id ord"
  let ?L = "rest_at ?sd p (ord\<lparr>arrival := ab_arrival ab\<rparr>) (ab_sides ab ?sd)"
  assume fresh: "\<not> is_live ab (order_id ord)"
    and added: "snd (spec_add ab ord) = ab\<lparr>ab_sides := (ab_sides ab)(?sd := ?L), ab_arrival := ab_arrival ab + 1\<rparr>"
  have none: "os \<noteq> [] \<and> (\<forall>x\<in>set os. \<not> ?P x)" if "(p, os) \<in> set (ab_sides ab sd) \<or> (p, os) \<in> set (ab_stops ab sd)" for sd p os
  proof (intro conjI ballI notI)
    show "os = [] \<Longrightarrow> False" using levels [OF that] by simp
    fix x assume x: "x \<in> set os" "?P x"
    have "set os \<subseteq> set (ladder_orders L)" if "(p, os) \<in> set L" for L
      using that by (auto simp: ladder_orders_def)
    with that x(1) have "is_live ab (order_id x)" unfolding is_live_cases by blast
    with fresh x(2) show False by simp
  qed
  have "drop_orders ?P ?L = ab_sides ab ?sd" by (rule drop_rest_at) (use none in auto)
  moreover have sides: "drop_orders ?P (ab_sides ab sd) = ab_sides ab sd" for sd
    by (rule drop_orders_id, use none in blast)
  ultimately have "(\<lambda>sd. drop_orders ?P (((ab_sides ab)(?sd := ?L)) sd)) = ab_sides ab"
    by (simp add: fun_eq_iff)
  moreover have "(\<lambda>sd. drop_orders ?P (ab_stops ab sd)) = ab_stops ab"
    by (rule ext, rule drop_orders_id, use none in blast)
  moreover have "is_live (snd (spec_add ab ord)) (order_id ord)"
    unfolding added by (auto simp: is_live_cases rest_at_orders)
  ultimately show ?thesis by (simp add: spec_cancel_def) (simp add: added)
qed

section \<open>The order in which stops fire\<close>

lemma nearest_sorted:
  assumes "bt_ok L"
  shows "sorted_wrt (better (opposite sd)) (map fst (nearest sd L))"
proof (cases sd)
  case Bid
  with assms show ?thesis by (simp add: nearest_def bt_ok_def better_def [abs_def])
next
  case Ask
  with assms show ?thesis
    by (simp add: nearest_def bt_ok_def better_def [abs_def] sorted_wrt_rev flip: rev_map)
qed

lemma nearest_mem [simp]: "l \<in> set (nearest sd L) \<longleftrightarrow> l \<in> set L"
  by (cases sd) (simp_all add: nearest_def)

lemma stop_due_nearest:
  assumes "bt_ok (ab_stops ab sd)" and "stop_due ab sd = Some ord"
  shows "\<exists>t q. (t, ord # q) \<in> set (ab_stops ab sd) \<and> already_triggered (ab_last ab) sd t \<and>
    (\<forall>l\<in>set (ab_stops ab sd). fst l = t \<or> better (opposite sd) t (fst l))"
proof (rule stop_due_cases [OF assms(2)])
  fix t q L
  assume near: "nearest sd (ab_stops ab sd) = (t, ord # q) # L" and due: "already_triggered (ab_last ab) sd t"
  have mem: "l \<in> set (ab_stops ab sd) \<longleftrightarrow> l \<in> set ((t, ord # q) # L)" for l
    using nearest_mem [of l sd "ab_stops ab sd"] near by simp
  have "\<forall>l\<in>set (ab_stops ab sd). fst l = t \<or> better (opposite sd) t (fst l)"
    using nearest_sorted [OF assms(1), of sd] unfolding near mem Ball_def by auto
  with mem due show ?thesis by auto
qed

lemma no_stop_due:
  assumes "bt_ok (ab_stops ab sd)" and "\<And>t q. (t, q) \<in> set (ab_stops ab sd) \<Longrightarrow> q \<noteq> []"
    and "stop_due ab sd = None" and "(t, q) \<in> set (ab_stops ab sd)"
  shows "\<not> already_triggered (ab_last ab) sd t"
proof -
  obtain t1 q1 L where near: "nearest sd (ab_stops ab sd) = (t1, q1) # L"
    using assms(4) nearest_mem [of "(t, q)" sd "ab_stops ab sd"]
    by (cases "nearest sd (ab_stops ab sd)") auto
  then have "q1 \<noteq> []" using assms(2) nearest_mem [of "(t1, q1)" sd] by (metis list.set_intros(1))
  with near assms(3) have "\<not> already_triggered (ab_last ab) sd t1"
    by (auto simp: stop_due_def neq_Nil_conv split: if_splits)
  moreover have "t = t1 \<or> better (opposite sd) t1 t"
    using nearest_sorted [OF assms(1), of sd] assms(4) nearest_mem [of "(t, q)" sd "ab_stops ab sd"]
    by (auto simp: near)
  ultimately show ?thesis by (cases sd) (auto simp: already_triggered_def split: option.splits)
qed

end
