(* ===== verification/Engines.thy ===== *)
theory Engines
  imports Book_Facts Stores_Agree Slot_Arena Fifo_Matcher
begin

text \<open>
  The engine on the three stores of the crate, over any arena that keeps the contract; and the books of
  the examples, which compute on the executable arena.
\<close>

section \<open>The three engines\<close>

lemma btree_lawful: "arena_laws A \<Longrightarrow> book_engine btree_store btree_ok (\<lambda>_ _. True) A"
  by unfold_locales

lemma hash_lawful: "arena_laws A \<Longrightarrow> book_engine hash_store hash_ok (\<lambda>_ _. True) A"
  by unfold_locales

lemma ladder_lawful: "arena_laws A \<Longrightarrow> book_engine (ladder_store rb ra) ladder_ok ladder_covers A"
  by unfold_locales

interpretation btree_engine: book_engine btree_store btree_ok "\<lambda>_ _. True" slot_arena
  by (rule btree_lawful [OF slot_arena_laws])

interpretation hash_engine: book_engine hash_store hash_ok "\<lambda>_ _. True" slot_arena
  by (rule hash_lawful [OF slot_arena_laws])

interpretation ladder_engine: book_engine "ladder_store rb ra" ladder_ok ladder_covers slot_arena for rb ra
  by (rule ladder_lawful [OF slot_arena_laws])

section \<open>States of an engine\<close>

text \<open>
  A book in a consistent state, on some store and arena that keep their contracts. Every book built
  on one of the three engines is one, and every command leads to another.
\<close>

definition engine_state ::
    "('s, 'k) store_ops \<Rightarrow> ('m, 'k) arena_ops \<Rightarrow> ('s, 'm, 'k) order_book \<Rightarrow> bool" where
  "engine_state S A b \<longleftrightarrow> (\<exists>ok covers. book_engine S ok covers A \<and> book_ok S ok covers A b)"

lemma engine_stateE:
  assumes "engine_state S A b"
  obtains ok covers where "book_engine S ok covers A" and "book_ok S ok covers A b"
  using assms by (auto simp: engine_state_def)

lemma engine_stateI: "book_engine S ok covers A \<Longrightarrow> book_ok S ok covers A b \<Longrightarrow> engine_state S A b"
  by (auto simp: engine_state_def)

lemma engine_state_perform:
  assumes "engine_state S A b" and "command_ok (ob_spec b) c" and "load (abs_of S A b) + 1 < 2 ^ 32"
  shows "\<exists>b'. perform S A b c = Some (fst (spec_perform (abs_of S A b) c), b') \<and>
    engine_state S A b' \<and> abs_of S A b' = snd (spec_perform (abs_of S A b) c)"
proof (rule engine_stateE [OF assms(1)])
  fix ok covers assume E: "book_engine S ok covers A" and "book_ok S ok covers A b"
  from book_engine.perform_refines [OF this assms(2,3)] show ?thesis
    using engine_stateI [OF E] by blast
qed

lemma engine_state_session:
  assumes "engine_state S A b" and "\<forall>c\<in>set cs. command_ok (ob_spec b) c" and "room (abs_of S A b) (length cs)"
  shows "\<exists>b'. session S A b cs = Some (fst (spec_session (abs_of S A b) cs), b') \<and>
    engine_state S A b' \<and> abs_of S A b' = snd (spec_session (abs_of S A b) cs)"
proof (rule engine_stateE [OF assms(1)])
  fix ok covers assume E: "book_engine S ok covers A" and "book_ok S ok covers A b"
  from book_engine.session_refines [OF this assms(2,3)] show ?thesis
    using engine_stateI [OF E] by blast
qed

lemma session_reachable:
  assumes "engine_state S A b" and "reachable S A P b0 b" and "\<forall>c\<in>set cs. P c \<and> command_ok (ob_spec b) c"
    and "room (abs_of S A b) (length cs)" and "session S A b cs = Some (rs, b')"
  shows "reachable S A P b0 b'"
  using assms
proof (induction cs arbitrary: b rs)
  case (Cons c cs)
  from engine_state_perform [OF Cons.prems(1), of c] Cons.prems(3,4) obtain b1 where
    b1: "perform S A b c = Some (fst (spec_perform (abs_of S A b) c), b1)" "engine_state S A b1"
      "abs_of S A b1 = snd (spec_perform (abs_of S A b) c)" by (auto simp: room_def)
  have "room (abs_of S A b1) (length cs) \<and> ob_spec b1 = ob_spec b"
  proof (rule engine_stateE [OF Cons.prems(1)])
    fix ok covers assume "book_engine S ok covers A" "book_ok S ok covers A b"
    then have "bt_ok (ab_stops (abs_of S A b) sd)" for sd using book_engine.stops_bt_ok by fastforce
    from spec_perform_load [OF this, of c] fixed_spec_perform [of "abs_of S A b" c] Cons.prems(4) show ?thesis
      unfolding room_def b1(3) [symmetric] by simp
  qed
  moreover have "reachable S A P b0 b1"
    by (rule reachable.one_more [OF Cons.prems(2) _ _ b1(1)]) (use Cons.prems(3,4) in \<open>auto simp: room_def\<close>)
  moreover obtain rs' where "session S A b1 cs = Some (rs', b')"
    using Cons.prems(5) b1(1) by (auto split: bind_splits)
  ultimately show ?case using Cons.IH [OF b1(2), of rs'] Cons.prems(3) by simp
qed simp

text \<open>Stamps are left for as long as the counter does not stand at its end.\<close>

lemma stamps_left:
  assumes "following \<noteq> (0xFFFFFFFF :: u32)"
  shows "unat following + 1 < 2 ^ 32"
proof -
  have "unat following \<noteq> 0xFFFFFFFF"
  proof
    assume "unat following = 0xFFFFFFFF"
    then have "word_of_nat (unat following) = (0xFFFFFFFF :: u32)" by simp
    with assms show False by simp
  qed
  moreover have "unat following < 4294967296" using unsigned_less [of following] by simp
  ultimately have "unat following < 4294967295" by linarith
  then show ?thesis by simp
qed

section \<open>New books\<close>

definition empty_abs :: "instrument_spec \<Rightarrow> matcher \<Rightarrow> abs_book" where
  "empty_abs spec mtch =
     \<lparr>ab_sides = (\<lambda>sd. []), ab_stops = (\<lambda>sd. []), ab_last = None, ab_seq = 1, ab_arrival = 1,
      ab_spec = spec, ab_matcher = mtch\<rparr>"

context book_engine begin

lemma new_state:
  assumes "spec_ok spec" and "matching_algorithm mtch (lot_size spec)"
    and "try_new S A spec mtch = Some (Inr b)"
  shows "engine_state S A b \<and> abs_of S A b = empty_abs spec mtch"
  using try_new_ok [OF assms] engine_stateI [OF book_engine_axioms] by (simp add: empty_abs_def)

end

text \<open>On the ordered map, and on the hash map with heaps, construction never fails.\<close>

lemma btree_try_new_total:
  "matcher_lot_size mtch = None \<or> matcher_lot_size mtch = Some (lot_size spec) \<Longrightarrow>
     \<exists>b. try_new btree_store A spec mtch = Some (Inr b)"
  by (auto simp: try_new_def btree_try_new_def)

lemma hash_try_new_total:
  "matcher_lot_size mtch = None \<or> matcher_lot_size mtch = Some (lot_size spec) \<Longrightarrow>
     \<exists>b. try_new hash_store A spec mtch = Some (Inr b)"
  by (auto simp: try_new_def hash_try_new_def)

section \<open>Example books\<close>

text \<open>
  Books on the ordered map, on an instrument with a tick of five, after a session: two asks at 20,
  the second of the client \<open>n\<close>, one at 30, a bid at 10, and a buy stop of \<open>s\<close> that waits for 30.
\<close>

definition sample_new where
  "sample_new mtch = the (book_new btree_store slot_arena five_tick_spec mtch)"

definition book_after where
  "book_after mtch cs = snd (the (session btree_store slot_arena (sample_new mtch) cs))"

definition sample_limit :: "string \<Rightarrow> side \<Rightarrow> u64 \<Rightarrow> time_in_force \<Rightarrow> u64 \<Rightarrow> order" where
  "sample_limit c sd p tif q = sample_order ''new'' c sd (Limit (Price p) tif) q"

definition sample_session :: "command list" where
  "sample_session =
     [Submit (sample_limit ''m'' Ask 20 GTC 5), Submit (sample_limit ''n'' Ask 20 GTC 3),
      Submit (sample_limit ''m'' Ask 30 GTC 4), Submit (sample_limit ''n'' Bid 10 GTC 2),
      Submit (sample_order ''new'' ''s'' Bid (StopMarket (Price 30)) 1)]"

text \<open>A bid of \<open>n\<close> that takes both levels, removes the maker of its own client, rests, and fires the stop.\<close>

definition sample_taker :: order where
  "sample_taker = sample_limit ''n'' Bid 30 GTC 10"

lemma five_tick_ok: "spec_ok five_tick_spec"
  by (simp add: five_tick_spec_def spec_ok_def is_multiple_of_def)

lemma sample_new_state:
  assumes "matching_algorithm mtch 1" and "matcher_lot_size mtch = None \<or> matcher_lot_size mtch = Some 1"
  shows "engine_state btree_store slot_arena (sample_new mtch)"
    and "abs_of btree_store slot_arena (sample_new mtch) = empty_abs five_tick_spec mtch"
proof -
  have lot: "lot_size five_tick_spec = 1" by (simp add: five_tick_spec_def)
  with assms(2) have "matcher_lot_size mtch = None \<or> matcher_lot_size mtch = Some (lot_size five_tick_spec)"
    by simp
  from btree_try_new_total [OF this] obtain b where
    new: "try_new btree_store slot_arena five_tick_spec mtch = Some (Inr b)" by blast
  then have "sample_new mtch = b" by (simp add: sample_new_def book_new_def)
  with btree_engine.new_state [OF five_tick_ok _ new] assms(1) lot
  show "engine_state btree_store slot_arena (sample_new mtch)"
    "abs_of btree_store slot_arena (sample_new mtch) = empty_abs five_tick_spec mtch" by simp_all
qed

lemma empty_abs_simps [simp]:
  "ab_sides (empty_abs spec mtch) = (\<lambda>sd. [])" "ab_stops (empty_abs spec mtch) = (\<lambda>sd. [])"
  "ab_last (empty_abs spec mtch) = None" "ab_seq (empty_abs spec mtch) = 1"
  "ab_arrival (empty_abs spec mtch) = 1" "ab_spec (empty_abs spec mtch) = spec"
  "ab_matcher (empty_abs spec mtch) = mtch"
  by (simp_all add: empty_abs_def)

lemma room_empty: "n + 1 < 2 ^ 32 \<Longrightarrow> room (empty_abs spec mtch) n"
  by (simp add: room_def load_def stop_count_def)

lemma book_after_state:
  assumes "matching_algorithm mtch 1" and "matcher_lot_size mtch = None \<or> matcher_lot_size mtch = Some 1"
    and "\<forall>c\<in>set cs. command_ok five_tick_spec c" and "length cs < 100"
  shows "session btree_store slot_arena (sample_new mtch) cs =
      Some (fst (spec_session (empty_abs five_tick_spec mtch) cs), book_after mtch cs)"
    and "engine_state btree_store slot_arena (book_after mtch cs)"
    and "abs_of btree_store slot_arena (book_after mtch cs) = snd (spec_session (empty_abs five_tick_spec mtch) cs)"
proof -
  note new = sample_new_state [OF assms(1,2)]
  have "ob_spec (sample_new mtch) = five_tick_spec"
    using new(2) by (metis abs_of_simps(6) empty_abs_simps(6))
  moreover have "room (empty_abs five_tick_spec mtch) (length cs)"
    by (rule room_empty) (use assms(4) in simp)
  ultimately obtain b' where b':
    "session btree_store slot_arena (sample_new mtch) cs = Some (fst (spec_session (empty_abs five_tick_spec mtch) cs), b')"
    "engine_state btree_store slot_arena b'"
    "abs_of btree_store slot_arena b' = snd (spec_session (empty_abs five_tick_spec mtch) cs)"
    using engine_state_session [OF new(1), of cs] assms(3) by (auto simp: new(2))
  moreover from b'(1) have "book_after mtch cs = b'" by (simp add: book_after_def)
  ultimately show "session btree_store slot_arena (sample_new mtch) cs =
      Some (fst (spec_session (empty_abs five_tick_spec mtch) cs), book_after mtch cs)"
    "engine_state btree_store slot_arena (book_after mtch cs)"
    "abs_of btree_store slot_arena (book_after mtch cs) = snd (spec_session (empty_abs five_tick_spec mtch) cs)" by simp_all
qed

text \<open>The FIFO book of the examples.\<close>

definition sample_book where
  "sample_book = book_after fifo_matcher sample_session"

definition sample_abs :: abs_book where
  "sample_abs = snd (spec_session (empty_abs five_tick_spec fifo_matcher) sample_session)"

lemma fifo_lot: "matcher_lot_size fifo_matcher = None \<or> matcher_lot_size fifo_matcher = Some 1"
  by (simp add: fifo_matcher_def)

lemma sample_session_ok: "\<forall>c\<in>set sample_session. command_ok five_tick_spec c" "length sample_session < 100"
  by code_simp+

lemma sample_book_state:
  "engine_state btree_store slot_arena sample_book" "abs_of btree_store slot_arena sample_book = sample_abs"
  using book_after_state(2,3) [OF fifo.matching_algorithm_axioms fifo_lot sample_session_ok]
  by (simp_all add: sample_book_def sample_abs_def)

lemma sample_abs_values:
  "ab_spec sample_abs = five_tick_spec" "ab_arrival sample_abs = 5" "ab_seq sample_abs = 6" "stop_count sample_abs = 1"
  by code_simp+

lemma sample_abs_room: "load sample_abs + 1 < 2 ^ 32" "room sample_abs 1"
  by (simp_all add: room_def load_def sample_abs_values)

lemma sample_book_spec: "ob_spec sample_book = five_tick_spec" "next_arrival sample_book = 5" "next_seq sample_book = 6"
  using sample_book_state(2) sample_abs_values by (metis abs_of_simps(6), metis abs_of_simps(5), metis abs_of_simps(4))

lemma sample_book_reachable:
  assumes "\<forall>c\<in>set sample_session. P c"
  shows "reachable btree_store slot_arena P (sample_new fifo_matcher) sample_book"
proof -
  note new = sample_new_state [OF fifo.matching_algorithm_axioms fifo_lot]
  have "ob_spec (sample_new fifo_matcher) = five_tick_spec"
    using new(2) by (metis abs_of_simps(6) empty_abs_simps(6))
  then show ?thesis
    using session_reachable [OF new(1) reachable.at_start, of sample_session P] assms sample_session_ok
      book_after_state(1) [OF fifo.matching_algorithm_axioms fifo_lot sample_session_ok] new(2)
      room_empty [of "length sample_session"] by (simp add: sample_book_def)
qed

lemma sample_try_new: "try_new btree_store slot_arena five_tick_spec fifo_matcher = Some (Inr (sample_new fifo_matcher))"
proof -
  have "matcher_lot_size fifo_matcher = None" by (simp add: fifo_matcher_def)
  with btree_try_new_total [of fifo_matcher five_tick_spec slot_arena] show ?thesis
    by (auto simp: sample_new_def book_new_def)
qed

lemma fifo_five_tick: "matching_algorithm fifo_matcher (lot_size five_tick_spec)"
  by (rule fifo.matching_algorithm_axioms)

lemma sample_book_rel:
  obtains K where "book_rel btree_store btree_ok (\<lambda>_ _. True) slot_arena sample_book K"
proof -
  note new = btree_engine.try_new_ok [OF five_tick_ok fifo_five_tick sample_try_new]
  have "ob_spec (sample_new fifo_matcher) = five_tick_spec"
    using sample_new_state(2) [OF fifo.matching_algorithm_axioms fifo_lot] by (metis abs_of_simps(6) empty_abs_simps(6))
  with btree_engine.reachable_ok [OF sample_book_reachable [OF sample_session_ok(1)] new(1)] that
  show thesis by (auto simp: book_ok_def)
qed

lemma sample_taker_ok: "on_lattice five_tick_spec sample_taker"
  by code_simp

end
