(* ===== verification/Engine_Properties.thy ===== *)
theory Engine_Properties
  imports Engines
begin

text \<open>
  The engine as a whole: \<open>submit\<close>, \<open>add_order\<close> and \<open>cancel_order\<close> implement the abstract engine on
  every backend, never panic, and keep the book consistent; the touch never crosses; an admitted
  order never fails.
\<close>

section \<open>The refinement\<close>

text \<open>
  C1. Submitting implements the abstract engine. On any consistent book, and for any order on the
  lattice while arrival stamps are left, \<open>submit\<close> returns: neither the sweep nor the cascade
  panics or runs on for ever. Its answer is the abstract engine's, the book after it is consistent
  and shows the abstract book after the same order.
\<close>

theorem submit_implements_spec:
  assumes "engine_state S A b" and "on_lattice (ob_spec b) ord" and "load (abs_of S A b) + 1 < 2 ^ 32"
  shows "\<exists>b'. submit S A b ord = Some (fst (spec_submit (abs_of S A b) ord), b') \<and>
    engine_state S A b' \<and> abs_of S A b' = snd (spec_submit (abs_of S A b) ord)"
  using engine_state_perform [OF assms(1), of "Submit ord"] assms(2,3) by auto

lemmas sample_facts = sample_book_state sample_book_spec sample_taker_ok sample_abs_room

text \<open>
  The taker of the examples trades with the first maker at 20, drops its client's own, trades at 30
  and rests the remainder; the last price fires the stop, which finds nothing left.
\<close>

lemma sample_submit:
  "fst (spec_submit sample_abs sample_taker) = Inr (ExecutionReport (from_sequence 6)
     [trade_of (Price 20) (Qty 5) (sample_limit ''m'' Ask 20 GTC 5\<lparr>order_id := from_sequence 1\<rparr>)
        (sample_taker\<lparr>order_id := from_sequence 6\<rparr>),
      trade_of (Price 30) (Qty 4) (sample_limit ''m'' Ask 30 GTC 4\<lparr>order_id := from_sequence 3\<rparr>)
        (sample_taker\<lparr>order_id := from_sequence 6\<rparr>)]
     PartiallyFilledAndRested [from_sequence 2]
     [ExecutionReport (from_sequence 5) [] Killed [] []])"
  by code_simp

theorem submit_implements_spec_witness:
  "\<exists>b'. submit btree_store slot_arena sample_book sample_taker =
      Some (fst (spec_submit sample_abs sample_taker), b') \<and> engine_state btree_store slot_arena b' \<and>
    length (report_trades (projr (fst (spec_submit sample_abs sample_taker)))) = 2"
  using submit_implements_spec [of btree_store slot_arena sample_book sample_taker] sample_facts
  by (auto simp: sample_submit)

section \<open>Backends\<close>

text \<open>
  C2. The storage backends are indistinguishable to a client whose orders keep the lattice. Books on
  the ordered map, the hash map and the tick ladder, built for the same instrument and policy over
  the same arena, answer fewer than \<open>2 ^ 32 - 1\<close> commands with the same responses, never panic, and
  show the same levels, queues and stops in the end. The orders that are submitted or added must be
  what \<open>Price\<close> and \<open>Qty\<close> are built to keep (\<open>command_ok\<close>): something left to trade, in whole lots,
  and a limit on the tick. Off the tick the backends do differ: see \<open>off_tick_adds_differ\<close>.
\<close>

theorem backends_indistinguishable:
  assumes "arena_laws A" and "spec_ok spec" and "matching_algorithm mtch (lot_size spec)"
    and "try_new btree_store A spec mtch = Some (Inr b)"
    and "try_new hash_store A spec mtch = Some (Inr h)"
    and "try_new (ladder_store rb ra) A spec mtch = Some (Inr l)"
    and "\<forall>c\<in>set cs. command_ok spec c" and "length cs + 1 < 2 ^ 32"
  shows "\<exists>rs b' h' l'. session btree_store A b cs = Some (rs, b') \<and>
    session hash_store A h cs = Some (rs, h') \<and>
    session (ladder_store rb ra) A l cs = Some (rs, l') \<and>
    abs_of hash_store A h' = abs_of btree_store A b' \<and>
    abs_of (ladder_store rb ra) A l' = abs_of btree_store A b'"
proof -
  let ?rs = "fst (spec_session (empty_abs spec mtch) cs)" and ?ab = "snd (spec_session (empty_abs spec mtch) cs)"
  have run: "\<exists>x'. session S A x cs = Some (?rs, x') \<and> abs_of S A x' = ?ab"
    if x: "engine_state S A x \<and> abs_of S A x = empty_abs spec mtch"
    for S :: "('s, 'k) store_ops" and A :: "('m, 'k) arena_ops" and x
  proof -
    have "ob_spec x = spec" using x by (metis abs_of_simps(6) empty_abs_simps(6))
    with engine_state_session [of S A x cs] x assms(7) room_empty [OF assms(8)] show ?thesis by auto
  qed
  from run [OF book_engine.new_state [OF btree_lawful [OF assms(1)] assms(2-4)]]
    run [OF book_engine.new_state [OF hash_lawful [OF assms(1)] assms(2,3,5)]]
    run [OF book_engine.new_state [OF ladder_lawful [OF assms(1)] assms(2,3,6)]] show ?thesis by metis
qed

text \<open>The session of the examples, on the three stores.\<close>

theorem backends_indistinguishable_witness:
  "\<exists>b h l b' h' l' rs.
     try_new btree_store slot_arena five_tick_spec fifo_matcher = Some (Inr b) \<and>
     try_new hash_store slot_arena five_tick_spec fifo_matcher = Some (Inr h) \<and>
     try_new (ladder_store (\<lambda>_. True) (\<lambda>_. True)) slot_arena five_tick_spec fifo_matcher = Some (Inr l) \<and>
     session btree_store slot_arena b (sample_session @ [Submit sample_taker]) = Some (rs, b') \<and>
     session hash_store slot_arena h (sample_session @ [Submit sample_taker]) = Some (rs, h') \<and>
     session (ladder_store (\<lambda>_. True) (\<lambda>_. True)) slot_arena l (sample_session @ [Submit sample_taker]) = Some (rs, l')"
proof -
  have lot: "lot_size five_tick_spec = 1" by (simp add: five_tick_spec_def)
  from btree_try_new_total [of fifo_matcher five_tick_spec slot_arena] fifo_lot lot obtain b where
    b: "try_new btree_store slot_arena five_tick_spec fifo_matcher = Some (Inr b)" by auto
  from hash_try_new_total [of fifo_matcher five_tick_spec slot_arena] fifo_lot lot obtain h where
    h: "try_new hash_store slot_arena five_tick_spec fifo_matcher = Some (Inr h)" by auto
  obtain l where
    l: "try_new (ladder_store (\<lambda>_. True) (\<lambda>_. True)) slot_arena five_tick_spec fifo_matcher = Some (Inr l)"
    by (simp add: try_new_def ladder_try_new_def five_tick_spec_def checked_sub_def checked_div_def checked_add_def
        fifo_matcher_def)
  have "\<forall>c\<in>set (sample_session @ [Submit sample_taker]). command_ok five_tick_spec c"
    using sample_session_ok(1) sample_taker_ok by simp
  moreover have "length (sample_session @ [Submit sample_taker]) + 1 < 2 ^ 32"
    using sample_session_ok(2) by simp
  ultimately show ?thesis
    using backends_indistinguishable [OF slot_arena_laws five_tick_ok _ b h l] fifo.matching_algorithm_axioms [of 1] lot b h l
    by metis
qed

text \<open>
  The premise on the orders is needed: \<open>add_order\<close> does not look at the tick, the maps make a level
  at any price, and the ladder has a slot for the prices on the tick alone.
\<close>

lemma off_tick_adds_differ:
  "map_option fst (session btree_store slot_arena (sample_new fifo_matcher) [Add (sample_limit ''m'' Ask 21 GTC 5)]) =
     Some [Done (Inr ())]"
  "map_option fst (session (ladder_store (\<lambda>_. True) (\<lambda>_. True)) slot_arena
       (the (book_new (ladder_store (\<lambda>_. True) (\<lambda>_. True)) slot_arena five_tick_spec fifo_matcher))
       [Add (sample_limit ''m'' Ask 21 GTC 5)]) =
     Some [Done (Inl (Storage (PriceOutsideRange)))]"
  by code_simp+

section \<open>The books a client can reach\<close>

text \<open>
  C3. A book stays consistent for as long as its client keeps the lattice. Whatever submissions,
  additions and cancellations were made on a new book, with orders that \<open>Price\<close> and \<open>Qty\<close> are built
  to keep (\<open>command_ok\<close>: something left to trade, in whole lots, a limit on the tick) and with
  arrival stamps left at each of them, store, arena, index and stop book agree, every queue is linked
  as it should be, and the specification and the policy are those of the construction.
\<close>

theorem reachable_books_consistent:
  assumes "book_engine S ok covers A" and "spec_ok spec" and "matching_algorithm mtch (lot_size spec)"
    and "try_new S A spec mtch = Some (Inr b0)" and "reachable S A (command_ok spec) b0 b"
  shows "book_ok S ok covers A b \<and> ob_spec b = spec \<and> ob_matcher b = mtch"
proof -
  note new = book_engine.try_new_ok [OF assms(1-4)]
  then have "ob_spec b0 = spec" "ob_matcher b0 = mtch" by (metis abs_of_simps(6) empty_abs_simps(6) empty_abs_def,
    metis abs_of_simps(7) empty_abs_simps(7) empty_abs_def)
  with book_engine.reachable_ok [OF assms(1,5) new(1)] show ?thesis by simp
qed

theorem reachable_books_consistent_witness:
  "reachable btree_store slot_arena (command_ok five_tick_spec) (sample_new fifo_matcher) sample_book \<and>
   book_ok btree_store btree_ok (\<lambda>_ _. True) slot_arena sample_book \<and> order_count sample_book = 5"
proof -
  have reach: "reachable btree_store slot_arena (command_ok five_tick_spec) (sample_new fifo_matcher) sample_book"
    by (rule sample_book_reachable [OF sample_session_ok(1)])
  note ok = reachable_books_consistent [OF btree_engine.book_engine_axioms five_tick_ok fifo_five_tick sample_try_new reach]
  obtain K where "book_rel btree_store btree_ok (\<lambda>_ _. True) slot_arena sample_book K" by (rule sample_book_rel)
  from btree_engine.order_count_eq [OF this] have "order_count sample_book = length (ab_orders sample_abs)"
    by (simp add: sample_book_state)
  moreover have "length (ab_orders sample_abs) = 5" by code_simp
  ultimately show ?thesis using reach ok by simp
qed

text \<open>
  C4. The touch never crosses. On a book that is only submitted to, with orders on the lattice
  (\<open>command_ok\<close>), and cancelled from, the best bid is below the best ask between any two calls, after
  trades, removals of the taker's own makers, fired stops and rejected orders alike.
\<close>

theorem touch_never_crosses:
  assumes "book_engine S ok covers A" and "spec_ok spec" and "matching_algorithm mtch (lot_size spec)"
    and "try_new S A spec mtch = Some (Inr b0)"
    and "reachable S A (\<lambda>c. command_ok spec c \<and> \<not> is_add c) b0 b"
    and "best_bid S b = Some (Some bid)" and "best_ask S b = Some (Some ask)"
  shows "bid < ask"
proof -
  note new = book_engine.try_new_ok [OF assms(1-4), folded empty_abs_def]
  then have spec: "ob_spec b0 = spec" by (metis abs_of_simps(6) empty_abs_simps(6))
  have "ids_drawn (abs_of S A b0)" "uncrossed (abs_of S A b0)"
    by (simp_all add: new(2) ids_drawn_def is_live_def ab_orders_def uncrossed_def)
  with book_engine.reachable_submitting [OF assms(1,5) new(1)] spec
  have "book_ok S ok covers A b" and un: "uncrossed (abs_of S A b)" by auto
  then obtain K where K: "book_rel S ok covers A b K" by (auto simp: book_ok_def)
  have first: "p \<in> fst ` set (ladder_of S A b sd)" if "best_price S (ob_store b) sd = Some (Some p)" for p sd
    using that book_engine.best_price_ladder [OF assms(1) K, of sd] by (auto split: list.splits)
  have "bid \<in> fst ` set (ladder_of S A b Bid)" "ask \<in> fst ` set (ladder_of S A b Ask)"
    using assms(6,7) by (auto simp: best_bid_def best_ask_def intro: first)
  with un show ?thesis by (auto simp: uncrossed_def)
qed

theorem touch_never_crosses_witness:
  "best_bid btree_store sample_book = Some (Some (Price 10)) \<and> best_ask btree_store sample_book = Some (Some (Price 20)) \<and>
   Price 10 < Price 20"
proof -
  obtain K where K: "book_rel btree_store btree_ok (\<lambda>_ _. True) slot_arena sample_book K"
    by (rule sample_book_rel)
  have "map_option fst (case ab_sides sample_abs Bid of [] \<Rightarrow> None | l # _ \<Rightarrow> Some l) = Some (Price 10)"
    "map_option fst (case ab_sides sample_abs Ask of [] \<Rightarrow> None | l # _ \<Rightarrow> Some l) = Some (Price 20)" by code_simp+
  then have best: "best_bid btree_store sample_book = Some (Some (Price 10))" "best_ask btree_store sample_book = Some (Some (Price 20))"
    unfolding best_bid_def best_ask_def btree_engine.best_price_ladder [OF K]
    by (simp_all flip: sample_book_state(2) abs_of_simps(1))
  have "\<forall>c\<in>set sample_session. command_ok five_tick_spec c \<and> \<not> is_add c" by code_simp
  from touch_never_crosses [OF btree_engine.book_engine_axioms five_tick_ok fifo_five_tick sample_try_new
    sample_book_reachable [OF this] best] best show ?thesis by simp
qed

section \<open>Submitting\<close>

lemma submit_facts:
  assumes "engine_state S A b" and "ids_drawn (abs_of S A b)" and "on_lattice (ob_spec b) ord"
    and "load (abs_of S A b) + 1 < 2 ^ 32" and "admit b ord = Inr u"
  shows "\<exists>report b'. submit S A b ord = Some (Inr report, b') \<and> report_id report = from_sequence (next_seq b) \<and>
    (\<forall>r\<in>set (report_triggered report). report_triggered r = []) \<and>
    length (report_triggered report) \<le> stop_count (abs_of S A b) + 1 \<and>
    engine_state S A b' \<and> spec_pop (abs_of S A b') = None"
proof (rule engine_stateE [OF assms(1)])
  fix ok covers assume E: "book_engine S ok covers A" and "book_ok S ok covers A b"
  then have "represented S ok covers A (abs_of S A b)" by (auto simp: represented_def)
  from book_engine.spec_submit_facts(1) [OF E this _ assms(4) ids_drawn_fresh [OF assms(2)], of ord] assms(3,5)
  have "(\<exists>report. fst (spec_submit (abs_of S A b) ord) = Inr report \<and> report_id report = from_sequence (next_seq b) \<and>
      (\<forall>r\<in>set (report_triggered report). report_triggered r = []) \<and>
      length (report_triggered report) \<le> stop_count (abs_of S A b) + 1) \<and> spec_pop (snd (spec_submit (abs_of S A b) ord)) = None"
    by (simp add: admit_def)
  moreover obtain b' where "submit S A b ord = Some (fst (spec_submit (abs_of S A b) ord), b')"
    "engine_state S A b'" "abs_of S A b' = snd (spec_submit (abs_of S A b) ord)"
    using engine_state_perform [OF assms(1), of "Submit ord"] assms(3,4) by auto
  ultimately show ?thesis by auto
qed


lemma sample_ids_drawn: "ids_drawn (abs_of btree_store slot_arena sample_book)"
proof -
  have "order_id ` set (ab_orders sample_abs) = from_sequence ` {1, 2, 3, 4, 5}" by code_simp
  then have "i \<in> from_sequence ` {1, 2, 3, 4, 5}" if "is_live sample_abs i" for i
    using that by (simp add: is_live_def)
  then show ?thesis by (force simp: ids_drawn_def sample_facts sample_abs_values)
qed


text \<open>
  C6. The cascade settles. On a book whose identifiers are its own, after an admitted order on the
  lattice, no stop that the last price has reached is left pending, the activations are reported flat
  and in one list, and there is at most one for each stop that was pending, the submitted one included.
\<close>

theorem cascade_settles:
  assumes "engine_state S A b" and "ids_drawn (abs_of S A b)" and "on_lattice (ob_spec b) ord"
    and "load (abs_of S A b) + 1 < 2 ^ 32" and "admit b ord = Inr ()"
  shows "\<exists>report b'. submit S A b ord = Some (Inr report, b') \<and> pop_triggered_stop b' = Some (None, b') \<and>
    (\<forall>r\<in>set (report_triggered report). report_triggered r = []) \<and>
    length (report_triggered report) \<le> stop_count (abs_of S A b) + 1"
proof -
  from submit_facts [OF assms] obtain report b' where run:
    "submit S A b ord = Some (Inr report, b')" "\<forall>r\<in>set (report_triggered report). report_triggered r = []"
    "length (report_triggered report) \<le> stop_count (abs_of S A b) + 1" "engine_state S A b'"
    "spec_pop (abs_of S A b') = None" by blast
  have "\<exists>b''. pop_triggered_stop b' = Some (None, b'')"
    by (rule engine_stateE [OF run(4)]) (use book_engine.pop_refines run(5) in fastforce)
  then have "pop_triggered_stop b' = Some (None, b')"
    by (auto simp: pop_triggered_stop_def take_stop_def Let_def split: option.splits prod.splits list.splits if_splits)
  with run show ?thesis by blast
qed

theorem cascade_settles_witness:
  "\<exists>report b'. submit btree_store slot_arena sample_book sample_taker = Some (Inr report, b') \<and>
     pop_triggered_stop b' = Some (None, b') \<and> length (report_triggered report) \<le> 2"
proof -
  have "admit_under five_tick_spec sample_taker = Inr ()" by code_simp
  then show ?thesis
    using cascade_settles [OF sample_book_state(1) sample_ids_drawn, of sample_taker] sample_facts
    by (auto simp: admit_def sample_abs_values)
qed

end
