(* ===== verification/Trading_Properties.thy ===== *)
theory Trading_Properties
  imports Engines Pro_Rata_Matcher
begin

text \<open>
  What an order trades: the sweep conserves quantity, takes the best prices first and fills all it
  can, whatever the policy; a fill-or-kill order is all or nothing.
\<close>

section \<open>The sweep\<close>

text \<open>The sweep of the book is the one of the ladder.\<close>

lemma fill_against_state:
  assumes "engine_state S A b" and "on_lattice (ob_spec b) ord"
  obtains ts cs tk b' where "fill_against S A (arrival_now b) limit ord b = Some (ts, cs, tk, b')"
    and "spec_fill (abs_of S A b) limit ord = (ts, cs, tk, abs_of S A b')"
    and "engine_state S A b'" and "abs_ok (abs_of S A b)"
proof (rule engine_stateE [OF assms(1)])
  fix ok covers assume E: "book_engine S ok covers A" and ok: "book_ok S ok covers A b"
  obtain ts cs tk ab where fill: "spec_fill (abs_of S A b) limit ord = (ts, cs, tk, ab)"
    by (cases "spec_fill (abs_of S A b) limit ord") auto
  from book_engine.fill_refines [OF E ok assms(2) fill] obtain b' where
    "fill_against S A (arrival_now b) limit ord b = Some (ts, cs, tk, b')" "book_ok S ok covers A b'" "abs_of S A b' = ab"
    by blast
  moreover have "represented S ok covers A (abs_of S A b)" using ok by (auto simp: represented_def)
  then have "abs_ok (abs_of S A b)" by (rule book_engine.represented_abs_ok [OF E])
  ultimately show thesis using that fill engine_stateI [OF E] by blast
qed

lemma on_lattice_lot: "on_lattice spec ord \<Longrightarrow> is_multiple_of (base (remaining_quantity ord)) (lot_size spec)"
  by (simp add: on_lattice_def tradable_def)

lemma sweep_facts:
  assumes "engine_state S A b" and "on_lattice (ob_spec b) ord"
    and "fill_against S A (arrival_now b) limit ord b = Some (ts, cs, tk, b')"
  shows "sweep_ok (opposite (order_side ord)) limit (ladder_of S A b (opposite (order_side ord))) ord ts cs tk
      (ladder_of S A b' (opposite (order_side ord)))"
    and "ladder_of S A b' (order_side ord) = ladder_of S A b (order_side ord)"
    and "stops_of b' = stops_of b" and "engine_state S A b'"
    and "traded_units ts = min (units (remaining_quantity ord))
      (crossing_units ord limit (ladder_of S A b (opposite (order_side ord))))"
proof -
  obtain ts1 cs1 tk1 b1 where run: "fill_against S A (arrival_now b) limit ord b = Some (ts1, cs1, tk1, b1)"
    and fill: "spec_fill (abs_of S A b) limit ord = (ts1, cs1, tk1, abs_of S A b1)"
    and state: "engine_state S A b1" and ok: "abs_ok (abs_of S A b)"
    by (rule fill_against_state [OF assms(1,2), of limit])
  have eq: "ts1 = ts" "cs1 = cs" "tk1 = tk" "b1 = b'" using run assms(3) by auto
  have lot: "is_multiple_of (base (remaining_quantity ord)) (lot_size (ab_spec (abs_of S A b)))"
    using on_lattice_lot [OF assms(2)] by simp
  note facts = spec_fill_facts [OF ok lot fill]
  show "sweep_ok (opposite (order_side ord)) limit (ladder_of S A b (opposite (order_side ord))) ord ts cs tk
      (ladder_of S A b' (opposite (order_side ord)))" using facts(1) by (simp add: eq)
  have "order_side ord \<noteq> opposite (order_side ord)" by (cases "order_side ord") simp_all
  then show "ladder_of S A b' (order_side ord) = ladder_of S A b (order_side ord)" using facts(2) by (simp add: eq)
  show "stops_of b' = stops_of b" using facts(7) by (simp add: eq)
  show "engine_state S A b'" using state by (simp add: eq)
  obtain L where "spec_sweep (ob_matcher b) (ucast (next_arrival b)) limit (ladder_of S A b (opposite (order_side ord))) ord =
      (ts, cs, tk, L)"
    using fill eq by (auto simp: spec_fill_def Let_def split: prod.splits)
  with ok lot show "traded_units ts = min (units (remaining_quantity ord))
      (crossing_units ord limit (ladder_of S A b (opposite (order_side ord))))"
    by (intro sweep_fills) (auto simp: abs_ok_def)
qed

text \<open>
  C7. The sweep conserves quantity. It ends on every consistent book, on any limit, for every order on
  the lattice; what the taker traded and
  what it has left add up to what it brought; what the other side lost is what traded and what the
  taker's own client had resting there, whose identifiers are reported; the taker's own side and
  the stops are untouched.
\<close>

theorem sweep_conserves_quantity:
  assumes "engine_state S A b" and "on_lattice (ob_spec b) ord"
  shows "\<exists>ts cs tk b' gone. fill_against S A (arrival_now b) limit ord b = Some (ts, cs, tk, b') \<and> engine_state S A b' \<and>
    traded_units ts + units (remaining_quantity tk) = units (remaining_quantity ord) \<and>
    order_units (ladder_orders (ladder_of S A b (opposite (order_side ord)))) =
      order_units (ladder_orders (ladder_of S A b' (opposite (order_side ord)))) + traded_units ts + order_units gone \<and>
    cs = map order_id gone \<and> (\<forall>own\<in>set gone. client own = client ord) \<and>
    ladder_of S A b' (order_side ord) = ladder_of S A b (order_side ord) \<and> stops_of b' = stops_of b"
proof -
  obtain ts cs tk b' where run: "fill_against S A (arrival_now b) limit ord b = Some (ts, cs, tk, b')"
    by (rule fill_against_state [OF assms, of limit])
  note facts = sweep_facts [OF assms run]
  note sweep = sweep_okD [OF facts(1)]
  from sweep(2) obtain gone where "cs = map order_id gone" "\<forall>own\<in>set gone. client own = client ord"
    "order_units (ladder_orders (ladder_of S A b (opposite (order_side ord)))) =
      order_units (ladder_orders (ladder_of S A b' (opposite (order_side ord)))) + traded_units ts + order_units gone"
    by blast
  then show ?thesis using run sweep(1) facts(2,3,4) by blast
qed

theorem sweep_conserves_quantity_witness:
  "\<exists>ts cs tk b' gone. fill_against btree_store slot_arena (arrival_now sample_book) (Some (Price 30)) sample_taker sample_book =
      Some (ts, cs, tk, b') \<and> traded_units ts + units (remaining_quantity tk) = 10 \<and>
    order_units (ladder_orders (ladder_of btree_store slot_arena b' Ask)) + traded_units ts + order_units gone = 12 \<and>
    cs = map order_id gone"
proof -
  have "units (remaining_quantity sample_taker) = 10" "order_side sample_taker = Bid"
    "order_units (ladder_orders (ab_sides sample_abs Ask)) = 12" by code_simp+
  then show ?thesis
    using sweep_conserves_quantity [OF sample_book_state(1), of sample_taker "Some (Price 30)"] sample_book_spec(1) sample_taker_ok
    unfolding sample_book_state(2) [symmetric] abs_of_simps by auto
qed

text \<open>
  C8. The sweep trades fairly. On a consistent book, for an order on the lattice, the trades come best
  price first and lie within the limit; each has a
  maker of another client that rested at the price of the trade, and takes a positive quantity of
  at most what that maker had left.
\<close>

theorem sweep_trades_best_first:
  assumes "engine_state S A b" and "on_lattice (ob_spec b) ord"
    and "fill_against S A (arrival_now b) limit ord b = Some (ts, cs, tk, b')"
  shows "sorted_wrt (\<lambda>t t'. trade_price t = trade_price t' \<or>
      (case order_side ord of Bid \<Rightarrow> trade_price t < trade_price t' | Ask \<Rightarrow> trade_price t' < trade_price t)) ts \<and>
    (\<forall>t\<in>set ts. crosses_limit (order_side ord) limit (trade_price t) \<and> trade_quantity t \<noteq> 0 \<and>
      taker_order_id t = order_id ord \<and> maker_client t \<noteq> client ord \<and>
      (\<exists>os mk. (trade_price t, os) \<in> set (ladder_of S A b (opposite (order_side ord))) \<and> mk \<in> set os \<and>
        maker_order_id t = order_id mk \<and> maker_client t = client mk \<and> trade_quantity t \<le> remaining_quantity mk))"
proof -
  note sweep = sweep_okD [OF sweep_facts(1) [OF assms]]
  have "better (opposite (order_side ord)) p q \<longleftrightarrow> (case order_side ord of Bid \<Rightarrow> p < q | Ask \<Rightarrow> q < p)" for p q
    by (cases "order_side ord") simp_all
  with sweep(3,4) show ?thesis by (simp add: trade_ok_def)
qed

theorem sweep_trades_best_first_witness:
  "\<exists>ts cs tk b'. fill_against btree_store slot_arena (arrival_now sample_book) (Some (Price 30)) sample_taker sample_book =
      Some (ts, cs, tk, b') \<and> (\<forall>t\<in>set ts. trade_price t \<le> Price 30 \<and> maker_client t \<noteq> ClientId ''n'')"
proof -
  have lattice: "on_lattice (ob_spec sample_book) sample_taker" using sample_book_spec(1) sample_taker_ok by simp
  have taker: "order_side sample_taker = Bid" "client sample_taker = ClientId ''n''" by code_simp+
  obtain ts cs tk b' where run:
    "fill_against btree_store slot_arena (arrival_now sample_book) (Some (Price 30)) sample_taker sample_book = Some (ts, cs, tk, b')"
    by (rule fill_against_state [OF sample_book_state(1) lattice])
  from sweep_trades_best_first [OF sample_book_state(1) lattice this] run show ?thesis
    unfolding taker by (simp add: taker)
qed

text \<open>
  C9. The sweep of an order on the lattice fills all it can: exactly the smaller of what the taker brought and what crosses its
  limit without being its own client's. With something left, no level within the limit is left.
\<close>

theorem sweep_fills_all_it_can:
  assumes "engine_state S A b" and "on_lattice (ob_spec b) ord"
    and "fill_against S A (arrival_now b) limit ord b = Some (ts, cs, tk, b')"
  shows "traded_units ts = min (units (remaining_quantity ord))
      (crossing_units ord limit (ladder_of S A b (opposite (order_side ord)))) \<and>
    (remaining_quantity tk = 0 \<or>
      (\<forall>p\<in>fst ` set (ladder_of S A b' (opposite (order_side ord))). \<not> crosses_limit (order_side ord) limit p))"
proof -
  note facts = sweep_facts [OF assms]
  let ?L = "ladder_of S A b' (opposite (order_side ord))"
  have sorted: "ladder_sorted (opposite (order_side ord)) ?L"
  proof (rule engine_stateE [OF facts(4)])
    fix ok covers assume E: "book_engine S ok covers A" and "book_ok S ok covers A b'"
    then obtain K where "book_rel S ok covers A b' K" by (auto simp: book_ok_def)
    from book_engine.ladder_spec(1) [OF E book_relD(1,5) [OF this]] show ?thesis .
  qed
  have "\<not> crosses_limit (order_side ord) limit (fst l)"
    if first: "case ?L of [] \<Rightarrow> True | l # _ \<Rightarrow> \<not> crosses_limit (order_side ord) limit (fst l)" and l: "l \<in> set ?L" for l
  proof (cases limit)
    case None
    with first l show ?thesis by (cases ?L) auto
  next
    case (Some p)
    show ?thesis unfolding Some by (rule no_level_crosses [OF sorted first [unfolded Some] l])
  qed
  with sweep_okD(5) [OF facts(1)] facts(5) show ?thesis by auto
qed

theorem sweep_fills_all_it_can_witness:
  "\<exists>ts cs tk b'. fill_against btree_store slot_arena (arrival_now sample_book) (Some (Price 30)) sample_taker sample_book =
      Some (ts, cs, tk, b') \<and> traded_units ts = 9"
proof -
  have lattice: "on_lattice (ob_spec sample_book) sample_taker" using sample_book_spec(1) sample_taker_ok by simp
  have "min (units (remaining_quantity sample_taker))
      (crossing_units sample_taker (Some (Price 30)) (ab_sides sample_abs (opposite (order_side sample_taker)))) = 9" by code_simp
  then have nine: "min (units (remaining_quantity sample_taker)) (crossing_units sample_taker (Some (Price 30))
      (ladder_of btree_store slot_arena sample_book (opposite (order_side sample_taker)))) = 9"
    unfolding sample_book_state(2) [symmetric] abs_of_simps .
  obtain ts cs tk b' where run:
    "fill_against btree_store slot_arena (arrival_now sample_book) (Some (Price 30)) sample_taker sample_book = Some (ts, cs, tk, b')"
    by (rule fill_against_state [OF sample_book_state(1) lattice])
  from sweep_fills_all_it_can [OF sample_book_state(1) lattice this] run nine show ?thesis by auto
qed

text \<open>
  C17. Every allocation of a sweep by an order on the lattice passes the contract check. The makers of a level are its orders of
  other clients; on them the policy of a consistent book answers what \<open>debug_assert_fills\<close> accepts:
  increasing indices into the level, positive fills within each maker, whole lots, and in total the
  smaller of what the taker has and what the level offers.
\<close>

theorem allocations_pass_debug_assert:
  assumes "engine_state S A b" and "on_lattice (ob_spec b) ord" and "(p, os) \<in> set (ladder_of S A b sd)"
  defines "makers \<equiv> map maker_of (filter (\<lambda>mk. client mk \<noteq> client ord) os)"
  shows "debug_assert_fills (allocate (ob_matcher b) (remaining_quantity ord) makers now) (remaining_quantity ord) makers
    (book_lot_size b)"
proof -
  have ok: "abs_ok (abs_of S A b)" by (rule fill_against_state [OF assms(1,2), of None])
  then have M: "matching_algorithm (ob_matcher b) (lot_size (ob_spec b))" and lot: "lot_size (ob_spec b) \<noteq> 0"
    and level: "tradable_level (lot_size (ob_spec b)) os"
    using assms(3) by (auto simp: abs_ok_def tradable_ladder_def)
  then have "length (filter (\<lambda>mk. client mk \<noteq> client ord) os) < 2 ^ 63"
    using length_filter_le [of "\<lambda>mk. client mk \<noteq> client ord" os] unfolding tradable_level_def by linarith
  with alloc_inputs_level [OF lot on_lattice_lot [OF assms(2)], of "filter (\<lambda>mk. client mk \<noteq> client ord) os"] level
  have "alloc_inputs_ok (lot_size (ob_spec b)) (remaining_quantity ord) makers"
    by (simp add: makers_def tradable_level_def)
  from matching_algorithm.passes_debug_assert [OF M this] show ?thesis by (simp add: book_lot_size_def)
qed

theorem allocations_pass_debug_assert_witness:
  "\<exists>os. (Price 20, os) \<in> set (ladder_of btree_store slot_arena sample_book Ask) \<and>
     (let makers = map maker_of (filter (\<lambda>mk. client mk \<noteq> client sample_taker) os)
      in debug_assert_fills (allocate (ob_matcher sample_book) (remaining_quantity sample_taker) makers 5)
        (remaining_quantity sample_taker) makers (book_lot_size sample_book))"
proof -
  have "Price 20 \<in> fst ` set (ab_sides sample_abs Ask)" by code_simp
  then obtain os where "(Price 20, os) \<in> set (ladder_of btree_store slot_arena sample_book Ask)"
    unfolding sample_book_state(2) [symmetric] abs_of_simps by auto
  with allocations_pass_debug_assert [OF sample_book_state(1) _ this, of sample_taker 5] sample_book_spec(1) sample_taker_ok
  show ?thesis by (auto simp: Let_def)
qed

section \<open>Fill or kill\<close>

lemma fok_available:
  assumes "engine_state S A b" and "on_lattice (ob_spec b) ord"
  obtains "fillable_quantity S A b (opposite (order_side ord)) ord p =
    Some (spec_fillable ord p (ladder_of S A b (opposite (order_side ord))) 0)"
proof (rule engine_stateE [OF assms(1)])
  fix ok covers assume E: "book_engine S ok covers A" and "book_ok S ok covers A b"
  then obtain K where "book_rel S ok covers A b K" by (auto simp: book_ok_def)
  from book_engine.fillable_refines [OF E this] that show thesis by blast
qed

text \<open>
  C10. Fill or kill is all or nothing, for every order on the lattice. The dry run never promises what the sweep cannot keep, even
  when its 64-bit sum wraps: either the order trades its whole quantity and is reported filled, or
  it is killed, nothing trades, nothing is cancelled, and the book is as it was.
\<close>

theorem fok_all_or_nothing:
  assumes "engine_state S A b" and "on_lattice (ob_spec b) ord"
  shows "\<exists>r b'. process_fok_limit_order S A b ord p = Some (Inr r, b') \<and> engine_state S A b' \<and>
    (if result_outcome r = Completed then traded_units (result_trades r) = units (remaining_quantity ord)
     else result_outcome r = Killed \<and> result_trades r = [] \<and> result_cancelled r = [] \<and> b' = b)"
proof -
  let ?L = "ladder_of S A b (opposite (order_side ord))"
  have av: "fillable_quantity S A b (opposite (order_side ord)) ord p = Some (spec_fillable ord p ?L 0)"
    by (rule fok_available [OF assms])
  obtain ts cs tk b' where run: "fill_against S A (arrival_now b) (Some p) ord b = Some (ts, cs, tk, b')"
    by (rule fill_against_state [OF assms, of "Some p"])
  note facts = sweep_facts [OF assms run]
  show ?thesis
  proof (cases "spec_fillable ord p ?L 0 < remaining_quantity ord")
    case True
    with av assms(1) show ?thesis by (simp add: process_fok_limit_order_def)
  next
    case False
    then have "units (remaining_quantity ord) \<le> units (spec_fillable ord p ?L 0)"
      by (simp add: not_less qty_le_units)
    also have "\<dots> \<le> crossing_units ord (Some p) ?L" using fillable_sound [of ord p ?L 0] by simp
    finally have "traded_units ts = units (remaining_quantity ord)" using facts(5) by simp
    with False av run facts(4) show ?thesis by (simp add: process_fok_limit_order_def)
  qed
qed

text \<open>Nine lots cross the limit of 30 for the client \<open>n\<close>: the order for ten is killed.\<close>

theorem fok_all_or_nothing_witness:
  "\<exists>r b'. process_fok_limit_order btree_store slot_arena sample_book sample_taker (Price 30) = Some (Inr r, b') \<and>
     (if result_outcome r = Completed then traded_units (result_trades r) = 10
      else result_outcome r = Killed \<and> result_trades r = [] \<and> result_cancelled r = [] \<and> b' = sample_book)"
proof -
  have ten: "units (remaining_quantity sample_taker) = 10" by code_simp
  have "on_lattice (ob_spec sample_book) sample_taker" using sample_book_spec(1) sample_taker_ok by simp
  from fok_all_or_nothing [OF sample_book_state(1) this, of "Price 30"] show ?thesis
    unfolding ten by blast
qed

text \<open>
  C11. Fill or kill decides exactly, for an order on the lattice: as long as what crosses the limit is below \<open>2^64\<close>, the order is
  killed exactly when less than its quantity crosses the limit without being its own client's.
\<close>

theorem fok_decides_exactly:
  assumes "engine_state S A b" and "on_lattice (ob_spec b) ord"
    and "crossing_units ord (Some p) (ladder_of S A b (opposite (order_side ord))) < 2 ^ 64"
  shows "\<exists>r b'. process_fok_limit_order S A b ord p = Some (Inr r, b') \<and>
    result_outcome r = (if crossing_units ord (Some p) (ladder_of S A b (opposite (order_side ord))) <
      units (remaining_quantity ord) then Killed else Completed)"
proof -
  let ?L = "ladder_of S A b (opposite (order_side ord))"
  have av: "fillable_quantity S A b (opposite (order_side ord)) ord p = Some (spec_fillable ord p ?L 0)"
    by (rule fok_available [OF assms(1,2)])
  obtain ts cs tk b' where run: "fill_against S A (arrival_now b) (Some p) ord b = Some (ts, cs, tk, b')"
    by (rule fill_against_state [OF assms(1,2), of "Some p"])
  have "remaining_quantity ord \<noteq> 0" using assms(2) by (simp add: on_lattice_def tradable_def)
  then have "0 < remaining_quantity ord" by (simp add: qty_less_units)
  with fillable_exact [of 0 ord p ?L] assms(3)
  have "spec_fillable ord p ?L 0 < remaining_quantity ord \<longleftrightarrow> crossing_units ord (Some p) ?L < units (remaining_quantity ord)"
    by simp
  with av run show ?thesis by (simp add: process_fok_limit_order_def)
qed

theorem fok_decides_exactly_witness:
  "\<exists>r b'. process_fok_limit_order btree_store slot_arena sample_book sample_taker (Price 30) = Some (Inr r, b') \<and>
     result_outcome r = Killed"
proof -
  have "crossing_units sample_taker (Some (Price 30)) (ab_sides sample_abs (opposite (order_side sample_taker))) = 9"
    "units (remaining_quantity sample_taker) = 10" by code_simp+
  then have "crossing_units sample_taker (Some (Price 30))
      (ladder_of btree_store slot_arena sample_book (opposite (order_side sample_taker))) = 9"
    "units (remaining_quantity sample_taker) = 10"
    unfolding sample_book_state(2) [symmetric] abs_of_simps by auto
  with fok_decides_exactly [OF sample_book_state(1), of sample_taker "Price 30"] sample_book_spec(1) sample_taker_ok
  show ?thesis by simp
qed

section \<open>Policies\<close>

text \<open>
  The policy decides who trades, not how much. Two books with the same opposite side but
  different policies, on whatever backends, trade the same total at each price, remove the same own
  makers, leave the taker the same and each level the same total.
\<close>

theorem policies_share_the_same_total:
  assumes "engine_state S A b" and "engine_state S' A' b'" and "on_lattice (ob_spec b) ord"
    and "ob_spec b' = ob_spec b"
    and "ladder_of S' A' b' (opposite (order_side ord)) = ladder_of S A b (opposite (order_side ord))"
    and "fill_against S A (arrival_now b) limit ord b = Some (ts, cs, tk, b1)"
    and "fill_against S' A' (arrival_now b') limit ord b' = Some (ts', cs', tk', b1')"
  shows "cs' = cs \<and> tk' = tk \<and> traded_at ts' = traded_at ts \<and>
    level_totals (ladder_of S' A' b1' (opposite (order_side ord))) = level_totals (ladder_of S A b1 (opposite (order_side ord)))"
proof -
  let ?L = "ladder_of S A b (opposite (order_side ord))"
  note lot = on_lattice_lot [OF assms(3)]
  have sweep: "spec_sweep (ob_matcher c) (ucast (next_arrival c)) limit (ladder_of T B c (opposite (order_side ord))) ord =
      (us, es, xk, ladder_of T B c1 (opposite (order_side ord))) \<and> abs_ok (abs_of T B c)"
    if state: "engine_state T B c" and lattice: "on_lattice (ob_spec c) ord"
      and run: "fill_against T B (arrival_now c) limit ord c = Some (us, es, xk, c1)"
    for T :: "('u, 'v) store_ops" and B :: "('w, 'v) arena_ops" and c us es xk c1
  proof (rule fill_against_state [OF state lattice, of limit])
    fix us1 es1 xk1 c2
    assume run': "fill_against T B (arrival_now c) limit ord c = Some (us1, es1, xk1, c2)"
      and fill: "spec_fill (abs_of T B c) limit ord = (us1, es1, xk1, abs_of T B c2)" and ok: "abs_ok (abs_of T B c)"
    show ?thesis
    proof (rule spec_fill_cases [of "abs_of T B c" limit ord])
      fix vs fs yk L
      assume fill2: "spec_fill (abs_of T B c) limit ord =
          (vs, fs, yk, (abs_of T B c)\<lparr>ab_sides := (ab_sides (abs_of T B c))(opposite (order_side ord) := L)\<rparr>)"
        and sw: "spec_sweep (ab_matcher (abs_of T B c)) (ucast (ab_arrival (abs_of T B c))) limit
          (ab_sides (abs_of T B c) (opposite (order_side ord))) ord = (vs, fs, yk, L)"
      have eq: "us1 = us" "es1 = es" "xk1 = xk" "c2 = c1" using run run' by auto
      then have "vs = us" "fs = es" "yk = xk" using fill fill2 by auto
      moreover have after: "abs_of T B c1 =
          (abs_of T B c)\<lparr>ab_sides := (ab_sides (abs_of T B c))(opposite (order_side ord) := L)\<rparr>"
        using fill fill2 eq by simp
      have "ladder_of T B c1 (opposite (order_side ord)) = L"
        using arg_cong [OF after, of "\<lambda>ab. ab_sides ab (opposite (order_side ord))"] by simp
      ultimately show ?thesis using sw ok by simp
    qed
  qed
  from sweep [OF assms(1,3,6)] sweep [OF assms(2) _ assms(7)] assms(3,4,5)
  have two: "spec_sweep (ob_matcher b) (ucast (next_arrival b)) limit ?L ord =
      (ts, cs, tk, ladder_of S A b1 (opposite (order_side ord)))"
    "spec_sweep (ob_matcher b') (ucast (next_arrival b')) limit ?L ord =
      (ts', cs', tk', ladder_of S' A' b1' (opposite (order_side ord)))"
    "abs_ok (abs_of S A b)" "abs_ok (abs_of S' A' b')" by auto
  from policies_trade_alike [OF _ _ _ two(1,2) _ lot] two(3,4) assms(4) show ?thesis
    by (auto simp: abs_ok_def)
qed

text \<open>A bid of four at 20 from a third client: FIFO gives it to the first maker, pro-rata to both.\<close>

definition shared_taker :: order where
  "shared_taker = sample_limit ''t'' Bid 20 IOC 4"

definition shared_book where
  "shared_book = book_after (pro_rata_matcher 1) sample_session"

definition shared_abs :: abs_book where
  "shared_abs = snd (spec_session (empty_abs five_tick_spec (pro_rata_matcher 1)) sample_session)"

lemma shared_book_state:
  "engine_state btree_store slot_arena shared_book" "abs_of btree_store slot_arena shared_book = shared_abs"
proof -
  have "matcher_lot_size (pro_rata_matcher 1) = None \<or> matcher_lot_size (pro_rata_matcher 1) = Some 1"
    by (simp add: pro_rata_matcher_def)
  from book_after_state(2,3) [OF pro_rata.matching_algorithm_axioms this sample_session_ok]
  show "engine_state btree_store slot_arena shared_book" "abs_of btree_store slot_arena shared_book = shared_abs"
    by (simp_all add: shared_book_def shared_abs_def)
qed

theorem policies_share_the_same_total_witness:
  "\<exists>ts cs tk b1 ts' tk' b1'.
     fill_against btree_store slot_arena (arrival_now sample_book) (Some (Price 20)) shared_taker sample_book = Some (ts, cs, tk, b1) \<and>
     fill_against btree_store slot_arena (arrival_now shared_book) (Some (Price 20)) shared_taker shared_book = Some (ts', cs, tk', b1') \<and>
     map trade_quantity ts = [Qty 4] \<and> map trade_quantity ts' = [Qty 3, Qty 1] \<and> traded_at ts' = traded_at ts"
proof -
  have spec: "ob_spec sample_book = five_tick_spec" "ob_spec shared_book = five_tick_spec"
  proof -
    have "ab_spec shared_abs = five_tick_spec" by code_simp
    then show "ob_spec shared_book = five_tick_spec" using shared_book_state(2) by (metis abs_of_simps(6))
  qed (rule sample_book_spec(1))
  have "on_lattice five_tick_spec shared_taker" by code_simp
  then have lattice: "on_lattice (ob_spec sample_book) shared_taker" "on_lattice (ob_spec shared_book) shared_taker"
    by (simp_all add: spec)
  have "ab_sides shared_abs Ask = ab_sides sample_abs Ask" "order_side shared_taker = Bid" by code_simp+
  then have same: "ladder_of btree_store slot_arena shared_book (opposite (order_side shared_taker)) =
      ladder_of btree_store slot_arena sample_book (opposite (order_side shared_taker))"
    unfolding sample_book_state(2) [symmetric] shared_book_state(2) [symmetric] abs_of_simps by simp
  obtain ts cs tk b1 where one:
    "fill_against btree_store slot_arena (arrival_now sample_book) (Some (Price 20)) shared_taker sample_book = Some (ts, cs, tk, b1)"
    "spec_fill sample_abs (Some (Price 20)) shared_taker = (ts, cs, tk, abs_of btree_store slot_arena b1)"
    by (rule fill_against_state [OF sample_book_state(1) lattice(1), of "Some (Price 20)", unfolded sample_book_state(2)])
  obtain ts' cs' tk' b1' where two:
    "fill_against btree_store slot_arena (arrival_now shared_book) (Some (Price 20)) shared_taker shared_book = Some (ts', cs', tk', b1')"
    "spec_fill shared_abs (Some (Price 20)) shared_taker = (ts', cs', tk', abs_of btree_store slot_arena b1')"
    by (rule fill_against_state [OF shared_book_state(1) lattice(2), of "Some (Price 20)", unfolded shared_book_state(2)])
  have "map trade_quantity (fst (spec_fill sample_abs (Some (Price 20)) shared_taker)) = [Qty 4]"
    "map trade_quantity (fst (spec_fill shared_abs (Some (Price 20)) shared_taker)) = [Qty 3, Qty 1]" by code_simp+
  then have "map trade_quantity ts = [Qty 4]" "map trade_quantity ts' = [Qty 3, Qty 1]"
    unfolding one(2) two(2) by simp_all
  moreover have "ob_spec shared_book = ob_spec sample_book" by (simp add: spec)
  from policies_share_the_same_total [OF sample_book_state(1) shared_book_state(1) lattice(1) this same one(1) two(1)]
  have "cs' = cs" "traded_at ts' = traded_at ts" by blast+
  ultimately show ?thesis using one(1) two(1) by auto
qed

end
