(* ===== verification/Book_Properties.thy ===== *)
theory Book_Properties
  imports Engines
begin

text \<open>
  The book at rest: what its queries read, how it is ordered, what adding and cancelling change, and
  which stop fires next.
\<close>

section \<open>The index\<close>

text \<open>
  C22. The index finds every order, and nothing else: an identifier is located in the book exactly
  when an order with it rests at that side and price, and in the stop book exactly when a stop with
  it waits there; \<open>get_order\<close> returns that order; \<open>order_count\<close> counts them; no two share an
  identifier.
\<close>

theorem index_finds_every_order:
  assumes "engine_state S A b"
  shows "(order_location_of b i = Some (In_Book sd p) \<longleftrightarrow>
      (\<exists>os. (p, os) \<in> set (ladder_of S A b sd) \<and> i \<in> order_id ` set os)) \<and>
    (order_location_of b i = Some (In_Stop_Book sd p) \<longleftrightarrow>
      (\<exists>q. (p, q) \<in> set (stops_of b sd) \<and> i \<in> order_id ` set q)) \<and>
    (get_order A b i = Some ord \<longleftrightarrow> ord \<in> set (ab_orders (abs_of S A b)) \<and> order_id ord = i) \<and>
    order_count b = length (ab_orders (abs_of S A b)) \<and>
    distinct (map order_id (ab_orders (abs_of S A b)))"
proof (rule engine_stateE [OF assms])
  fix ok covers assume E: "book_engine S ok covers A" and "book_ok S ok covers A b"
  then obtain K where K: "book_rel S ok covers A b K" by (auto simp: book_ok_def)
  show ?thesis
    by (intro conjI book_engine.location_in_book [OF E K] book_engine.location_in_stops [OF E K]
      book_engine.get_order_iff [OF E K] book_engine.order_count_eq [OF E K] book_engine.ids_unique [OF E K])
qed

theorem index_finds_every_order_witness:
  "order_location_of sample_book (from_sequence 2) = Some (In_Book Ask (Price 20)) \<and>
   order_location_of sample_book (from_sequence 5) = Some (In_Stop_Book Bid (Price 30)) \<and> order_count sample_book = 5"
proof -
  note index = index_finds_every_order [OF sample_book_state(1), of _ _ _ undefined]
  have "\<exists>l\<in>set (ab_sides sample_abs Ask). fst l = Price 20 \<and> from_sequence 2 \<in> order_id ` set (snd l)"
    "\<exists>l\<in>set (ab_stops sample_abs Bid). fst l = Price 30 \<and> from_sequence 5 \<in> order_id ` set (snd l)"
    "length (ab_orders sample_abs) = 5" by code_simp+
  then have "\<exists>os. (Price 20, os) \<in> set (ladder_of btree_store slot_arena sample_book Ask) \<and> from_sequence 2 \<in> order_id ` set os"
    "\<exists>q. (Price 30, q) \<in> set (stops_of sample_book Bid) \<and> from_sequence 5 \<in> order_id ` set q"
    "length (ab_orders (abs_of btree_store slot_arena sample_book)) = 5"
    unfolding sample_book_state(2) [symmetric] abs_of_simps by force+
  with index [of "from_sequence 2" Ask "Price 20"] index [of "from_sequence 5" Bid "Price 30"]
  show ?thesis by metis
qed

section \<open>Priority\<close>

text \<open>
  Price and time priority. Each side lists its levels from the best price on, no level is
  empty, every order of a level is a limit order of that side and price with something left to
  trade in whole lots, and a level's orders stand in the order of their arrival.
\<close>

theorem price_time_priority:
  assumes "engine_state S A b"
  shows "sorted_wrt (better sd) (map fst (ladder_of S A b sd)) \<and>
    (\<forall>(p, os)\<in>set (ladder_of S A b sd). os \<noteq> [] \<and> sorted_wrt (<) (map arrival os) \<and>
      (\<forall>ord\<in>set os. order_side ord = sd \<and> limit_price (otype ord) = Some p \<and> tradable (ob_spec b) ord))"
proof (rule engine_stateE [OF assms])
  fix ok covers assume E: "book_engine S ok covers A" and "book_ok S ok covers A b"
  then obtain K where K: "book_rel S ok covers A b K" by (auto simp: book_ok_def)
  note bk = book_relD [OF K]
  from book_engine.ladder_spec(1) [OF E bk(1,5), of sd] book_engine.level_priority [OF E K]
  show ?thesis unfolding ladder_sorted_def by fast
qed

theorem price_time_priority_witness:
  "map fst (ladder_of btree_store slot_arena sample_book Ask) = [Price 20, Price 30] \<and>
   sorted_wrt (better Ask) (map fst (ladder_of btree_store slot_arena sample_book Ask))"
proof -
  have "map fst (ab_sides sample_abs Ask) = [Price 20, Price 30]" by code_simp
  then have "map fst (ladder_of btree_store slot_arena sample_book Ask) = [Price 20, Price 30]"
    unfolding sample_book_state(2) [symmetric] abs_of_simps .
  with price_time_priority [OF sample_book_state(1), of Ask] show ?thesis by blast
qed

text \<open>
  The depth and the touch read the ladder: the best prices are those of the first levels, and
  \<open>depth\<close> lists the first levels with their total quantities, summed in 64 bits.
\<close>

theorem depth_reads_ladder:
  assumes "engine_state S A b"
  shows "depth S A b sd n = Some (map (\<lambda>(p, os). (p, qty_sum (map remaining_quantity os))) (take n (ladder_of S A b sd))) \<and>
    best_bid S b = Some (map_option fst (case ladder_of S A b Bid of [] \<Rightarrow> None | l # _ \<Rightarrow> Some l)) \<and>
    best_ask S b = Some (map_option fst (case ladder_of S A b Ask of [] \<Rightarrow> None | l # _ \<Rightarrow> Some l))"
proof (rule engine_stateE [OF assms])
  fix ok covers assume E: "book_engine S ok covers A" and "book_ok S ok covers A b"
  then obtain K where K: "book_rel S ok covers A b K" by (auto simp: book_ok_def)
  show ?thesis
    by (simp add: best_bid_def best_ask_def book_engine.depth_ladder [OF E K] book_engine.best_price_ladder [OF E K])
qed

theorem depth_reads_ladder_witness:
  "depth btree_store slot_arena sample_book Ask 1 = Some [(Price 20, Qty 8)]"
proof -
  have "map (\<lambda>(p, os). (p, qty_sum (map remaining_quantity os))) (take 1 (ab_sides sample_abs Ask)) = [(Price 20, Qty 8)]"
    by code_simp
  then show ?thesis
    using depth_reads_ladder [OF sample_book_state(1), of Ask 1]
    unfolding sample_book_state(2) [symmetric] abs_of_simps by metis
qed

section \<open>Adding and cancelling\<close>


text \<open>A second ask at 30 joins the queue behind the first.\<close>

definition sample_ask_30 :: order where
  "sample_ask_30 = sample_order ''late'' ''k'' Ask (limit_gtc (Price 30)) 6"

lemma sample_ask_30_facts:
  "on_lattice five_tick_spec sample_ask_30" "admit_under five_tick_spec sample_ask_30 = Inr ()"
  "otype sample_ask_30 = Limit (Price 30) GTC" "order_side sample_ask_30 = Ask"
  "\<not> is_live sample_abs (order_id sample_ask_30)"
  by code_simp+

lemma sample_location: "order_location_of sample_book i \<noteq> None \<longleftrightarrow> is_live sample_abs i"
  by (rule sample_book_rel) (simp add: btree_engine.is_live_iff order_location_of_def flip: sample_book_state(2))






text \<open>
  C19. Cancelling takes out exactly the order named. A live identifier is cancelled whether it rests
  or waits as a stop; every other order stays where it was, in the same sequence, empty levels and
  queues disappear, and nothing else of the book changes. An identifier that is not live is not
  found, and the book stays as it was. The call returns in every case.
\<close>

theorem cancel_removes_exactly:
  assumes "engine_state S A b"
  shows "\<exists>res b'. cancel_order S A b i = Some (res, b') \<and> engine_state S A b' \<and>
    (res = Inr () \<longleftrightarrow> order_location_of b i \<noteq> None) \<and> (res \<noteq> Inr () \<longrightarrow> res = Inl OrderNotFound \<and> b' = b) \<and>
    (\<forall>sd. ladder_orders (ladder_of S A b' sd) = filter (\<lambda>ord. order_id ord \<noteq> i) (ladder_orders (ladder_of S A b sd)) \<and>
      ladder_orders (stops_of b' sd) = filter (\<lambda>ord. order_id ord \<noteq> i) (ladder_orders (stops_of b sd))) \<and>
    order_location_of b' i = None \<and> last_trade_price b' = last_trade_price b \<and> next_arrival b' = next_arrival b"
proof (rule engine_stateE [OF assms])
  fix ok covers assume E: "book_engine S ok covers A" and ok: "book_ok S ok covers A b"
  then obtain K where K: "book_rel S ok covers A b K" by (auto simp: book_ok_def)
  from book_engine.cancel_order_refines [OF E ok, of i] obtain b' where
    run: "cancel_order S A b i = Some (fst (spec_cancel (abs_of S A b) i), b')" "book_ok S ok covers A b'"
      "abs_of S A b' = snd (spec_cancel (abs_of S A b) i)" by blast
  have live: "is_live (abs_of S A b) i \<longleftrightarrow> order_location_of b i \<noteq> None"
    using book_engine.is_live_iff [OF E K] by (simp add: order_location_of_def)
  obtain K' where K': "book_rel S ok covers A b' K'" using run(2) by (auto simp: book_ok_def)
  have keep: "filter (\<lambda>ord. order_id ord \<noteq> i) (ladder_orders (ladder_of S A b sd)) = ladder_orders (ladder_of S A b sd) \<and>
      filter (\<lambda>ord. order_id ord \<noteq> i) (ladder_orders (stops_of b sd)) = ladder_orders (stops_of b sd)"
    if "\<not> is_live (abs_of S A b) i" for sd
    using that by (auto simp: is_live_cases filter_id_conv)
  have "b' = b" if "\<not> is_live (abs_of S A b) i"
    using that run(1) live by (auto simp: cancel_order_def order_location_of_def split: option.splits)
  moreover have "ladder_orders (ab_sides (abs_of S A b') sd) = filter (\<lambda>ord. order_id ord \<noteq> i) (ladder_orders (ladder_of S A b sd)) \<and>
      ladder_orders (ab_stops (abs_of S A b') sd) = filter (\<lambda>ord. order_id ord \<noteq> i) (ladder_orders (stops_of b sd)) \<and>
      ab_last (abs_of S A b') = last_trade_price b \<and> ab_arrival (abs_of S A b') = next_arrival b" for sd
    using keep unfolding run(3) by (simp add: spec_cancel_def)
  moreover have "\<not> is_live (abs_of S A b') i"
    unfolding run(3) is_live_def ab_orders_cancel by auto
  then have "order_location_of b' i = None"
    using book_engine.is_live_iff [OF E K'] by (simp add: order_location_of_def)
  ultimately show ?thesis
    using run(1) engine_stateI [OF E run(2)] live by (auto simp: spec_cancel_def)
qed

theorem cancel_removes_exactly_witness:
  "\<exists>b'. cancel_order btree_store slot_arena sample_book (from_sequence 1) = Some (Inr (), b') \<and>
     order_location_of b' (from_sequence 1) = None \<and>
     map order_id (ladder_orders (ladder_of btree_store slot_arena b' Ask)) = [from_sequence 2, from_sequence 3]"
proof -
  have "is_live sample_abs (from_sequence 1)"
    "map order_id (filter (\<lambda>ord. order_id ord \<noteq> from_sequence 1) (ladder_orders (ab_sides sample_abs Ask))) =
      [from_sequence 2, from_sequence 3]" by code_simp+
  then show ?thesis
    using cancel_removes_exactly [OF sample_book_state(1), of "from_sequence 1"] sample_location [of "from_sequence 1"]
    unfolding sample_book_state(2) [symmetric] abs_of_simps by auto
qed

text \<open>
  C21. Adding an order on the lattice and cancelling it again gives the book back: the same levels with the same
  queues, the same stops and the same last price; only the arrival stamp is spent.
\<close>

theorem add_then_cancel_round_trip:
  assumes "engine_state S A b" and "on_lattice (ob_spec b) ord" and "unat (next_arrival b) + 1 < 2 ^ 32"
    and "add_order S A b ord = Some (Inr (), b1)"
  shows "\<exists>b2. cancel_order S A b1 (order_id ord) = Some (Inr (), b2) \<and>
    abs_of S A b2 = (abs_of S A b)\<lparr>ab_arrival := next_arrival b + 1\<rparr>"
proof (rule engine_stateE [OF assms(1)])
  fix ok covers assume E: "book_engine S ok covers A" and ok: "book_ok S ok covers A b"
  then obtain K where K: "book_rel S ok covers A b K" by (auto simp: book_ok_def)
  from book_engine.add_order_refines [OF E ok assms(2,3)] assms(4) have
    add: "fst (spec_add (abs_of S A b) ord) = Inr ()" "book_ok S ok covers A b1"
      "abs_of S A b1 = snd (spec_add (abs_of S A b) ord)" by auto
  have levels: "os \<noteq> []" if "(p, os) \<in> set (ab_sides (abs_of S A b) sd) \<or> (p, os) \<in> set (ab_stops (abs_of S A b) sd)" for sd p os
    using that book_engine.level_priority(1) [OF E K] stops_relD(3) [OF book_relD(7) [OF K]]
    unfolding abs_of_simps by blast
  have undone: "spec_cancel (snd (spec_add (abs_of S A b) ord)) (order_id ord) =
      (Inr (), (abs_of S A b)\<lparr>ab_arrival := ab_arrival (abs_of S A b) + 1\<rparr>)"
    by (rule cancel_after_add [OF add(1)]) (rule levels)
  from book_engine.cancel_order_refines [OF E add(2), of "order_id ord"] show ?thesis
    by (auto simp: add(3) undone)
qed

theorem add_then_cancel_round_trip_witness:
  "\<exists>b1 b2. add_order btree_store slot_arena sample_book sample_ask_30 = Some (Inr (), b1) \<and>
     cancel_order btree_store slot_arena b1 (ExchangeId ''late'') = Some (Inr (), b2) \<and>
     abs_of btree_store slot_arena b2 = sample_abs\<lparr>ab_arrival := 6\<rparr>"
proof -
  have add: "fst (spec_add sample_abs sample_ask_30) = Inr ()" by code_simp
  have id: "order_id sample_ask_30 = ExchangeId ''late''" by code_simp
  have room: "unat (next_arrival sample_book) + 1 < 2 ^ 32" by (simp add: sample_book_spec)
  obtain b1 where "add_order btree_store slot_arena sample_book sample_ask_30 = Some (Inr (), b1)"
    using engine_state_perform [OF sample_book_state(1), of "Add sample_ask_30"] sample_book_state(2) sample_abs_room(1)
      sample_book_spec(1) sample_ask_30_facts(1) add by auto
  with add_then_cancel_round_trip [OF sample_book_state(1) _ room this] sample_book_spec sample_ask_30_facts(1) id
  show ?thesis by (auto simp: sample_book_state(2))
qed

section \<open>Stops\<close>

text \<open>
  C18. Stops fire nearest first. When a stop is due, the next one to fire is the oldest at the
  trigger the last price reached first: a buy stop at the lowest trigger if any buy stop is due,
  otherwise a sell stop at the highest. When none is taken, none is due on either side.
\<close>

theorem stops_fire_nearest_first:
  assumes "engine_state S A b"
  shows "\<exists>popped b'. pop_triggered_stop b = Some (popped, b') \<and>
    (case popped of
       None \<Rightarrow> \<forall>sd. \<forall>l\<in>set (stops_of b sd). \<not> already_triggered (last_trade_price b) sd (fst l)
     | Some ord \<Rightarrow> \<exists>sd t q. order_side ord = sd \<and> (t, ord # q) \<in> set (stops_of b sd) \<and>
         already_triggered (last_trade_price b) sd t \<and>
         (\<forall>l\<in>set (stops_of b sd). fst l = t \<or> (case sd of Bid \<Rightarrow> t < fst l | Ask \<Rightarrow> fst l < t)) \<and>
         (sd = Ask \<longrightarrow> (\<forall>l\<in>set (stops_of b Bid). \<not> already_triggered (last_trade_price b) Bid (fst l))))"
proof (rule engine_stateE [OF assms])
  fix ok covers assume E: "book_engine S ok covers A" and ok: "book_ok S ok covers A b"
  then obtain K where K: "book_rel S ok covers A b K" by (auto simp: book_ok_def)
  let ?ab = "abs_of S A b"
  note stops = stops_relD [OF book_relD(7) [OF K]]
  from book_engine.pop_refines [OF E ok] obtain b' where
    pop: "pop_triggered_stop b = Some (map_option fst (spec_pop ?ab), b')" by blast
  have idle: "\<forall>l\<in>set (stops_of b sd). \<not> already_triggered (last_trade_price b) sd (fst l)" if "stop_due ?ab sd = None" for sd
    using no_stop_due [of ?ab sd] stops(1,3) that by force
  have due: "\<exists>t q. order_side ord = sd \<and> (t, ord # q) \<in> set (stops_of b sd) \<and> already_triggered (last_trade_price b) sd t \<and>
      (\<forall>l\<in>set (stops_of b sd). fst l = t \<or> (case sd of Bid \<Rightarrow> t < fst l | Ask \<Rightarrow> fst l < t))"
    if "stop_due ?ab sd = Some ord" for sd ord
  proof -
    from stop_due_nearest [of ?ab sd, OF _ that] stops(1) obtain t q where
      t: "(t, ord # q) \<in> set (stops_of b sd)" "already_triggered (last_trade_price b) sd t"
        "\<forall>l\<in>set (stops_of b sd). fst l = t \<or> better (opposite sd) t (fst l)" by auto
    then have "order_side ord = sd" using stops(5) [OF t(1), of ord] by (simp add: parked_def)
    with t show ?thesis by (cases sd) (fastforce simp: better_def)+
  qed
  show ?thesis
  proof (cases "stop_due ?ab Bid")
    case (Some ord)
    with due [OF Some] pop show ?thesis by (auto simp: spec_pop_def)
  next
    case None
    note no_bid = idle [OF None]
    show ?thesis
    proof (cases "stop_due ?ab Ask")
      case ask: None
      have "\<forall>sd. \<forall>l\<in>set (stops_of b sd). \<not> already_triggered (last_trade_price b) sd (fst l)"
        using no_bid idle [OF ask] by (simp add: all_side)
      with None ask pop show ?thesis by (simp add: spec_pop_def)
    next
      case (Some ord)
      with None due [OF Some] no_bid pop show ?thesis by (auto simp: spec_pop_def)
    qed
  qed
qed

text \<open>Nothing has traded on the book of the examples, so its stop is not due; after a trade at 30 it is.\<close>

definition traded_book where
  "traded_book = sample_book\<lparr>last_trade_price := Some (Price 30)\<rparr>"

theorem stops_fire_nearest_first_witness:
  "(\<exists>b'. pop_triggered_stop sample_book = Some (None, b') \<and> stops_of sample_book Bid \<noteq> []) \<and>
   (\<exists>ord b'. pop_triggered_stop traded_book = Some (Some ord, b') \<and> order_id ord = from_sequence 5)"
proof -
  have shown: "ab_last sample_abs = None" "ab_stops sample_abs Ask = []"
    "map (\<lambda>(t, q). (t, map order_id q)) (ab_stops sample_abs Bid) = [(Price 30, [from_sequence 5])]" by code_simp+
  obtain stop where bids: "stops_of sample_book Bid = [(Price 30, [stop])]" "order_id stop = from_sequence 5"
    using shown(3) unfolding sample_book_state(2) [symmetric] abs_of_simps by (auto simp: Cons_eq_map_conv)
  have others: "last_trade_price sample_book = None" "stops_of sample_book Ask = []"
    using shown(1,2) unfolding sample_book_state(2) [symmetric] abs_of_simps by simp_all
  have state: "engine_state btree_store slot_arena traded_book"
    unfolding traded_book_def
    by (rule engine_stateE [OF sample_book_state(1)]) (simp add: engine_stateI book_engine.book_ok_trivial)
  have traded: "last_trade_price traded_book = Some (Price 30)" "stops_of traded_book = stops_of sample_book"
    by (simp_all add: traded_book_def)
  have "\<exists>b'. pop_triggered_stop sample_book = Some (None, b')"
    using stops_fire_nearest_first [OF sample_book_state(1)] others(1)
    by (auto simp: already_triggered_def split: option.splits)
  moreover obtain popped b' where pop: "pop_triggered_stop traded_book = Some (popped, b')"
    using stops_fire_nearest_first [OF state] by blast
  note due = stops_fire_nearest_first [OF state, unfolded traded pop, simplified]
  have "popped = Some stop"
  proof (cases popped)
    case None
    with due bids(1) have "\<not> already_triggered (Some (Price 30)) Bid (Price 30)" by (auto dest: spec [of _ Bid])
    then show ?thesis by (simp add: already_triggered_def)
  next
    case (Some ord)
    with due obtain t q where "(t, ord # q) \<in> set (stops_of sample_book (order_side ord))" by auto
    with bids others(2) Some show ?thesis by (cases "order_side ord") auto
  qed
  ultimately show ?thesis using pop bids by auto
qed

end
