(* ===== verification/Engine_Limits.thy ===== *)
theory Engine_Limits
  imports Trading_Properties
begin

text \<open>
  Where the engine stops doing what one would expect of it: the 64-bit sum of the fill-or-kill dry run,
  identifiers that a caller chose, orders with nothing left to trade, and the arrival counter. The laws
  hold of every consistent book; the examples are runs of the book on the ordered map.
\<close>

lemma submit_runs:
  assumes "engine_state S A b" and "abs_of S A b = ab" and "on_lattice (ab_spec ab) ord" and "load ab + 1 < 2 ^ 32"
  shows "\<exists>b'. submit S A b ord = Some (fst (spec_submit ab ord), b') \<and> abs_of S A b' = snd (spec_submit ab ord)"
  using engine_state_perform [OF assms(1), of "Submit ord"] assms(2-4) by auto

section \<open>The dry run wraps\<close>

text \<open>What crosses a limit and is not the taker's own, maker by maker, best level first.\<close>

fun crossing_sizes :: "order \<Rightarrow> price option \<Rightarrow> ladder \<Rightarrow> nat list" where
  "crossing_sizes tk limit [] = []"
| "crossing_sizes tk limit ((p, os) # L) =
     (if crosses_limit (order_side tk) limit p
      then map (\<lambda>ord. units (remaining_quantity ord)) (filter (\<lambda>ord. client ord \<noteq> client tk) os) @ crossing_sizes tk limit L
      else [])"

lemma sum_crossing_sizes: "sum_list (crossing_sizes tk limit L) = crossing_units tk limit L"
  by (induction tk limit L rule: crossing_sizes.induct) (simp_all add: order_units_def)

text \<open>Summing from \<open>a\<close> in 64 bits, some sum on the way is at least \<open>q\<close>.\<close>

fun reaches :: "nat \<Rightarrow> nat \<Rightarrow> nat list \<Rightarrow> bool" where
  "reaches q a [] = False"
| "reaches q a (n # ns) = (q \<le> (a + n) mod 2 ^ 64 \<or> reaches q ((a + n) mod 2 ^ 64) ns)"

lemma reaches_append:
  "reaches q a (ns @ ms) \<longleftrightarrow> reaches q a ns \<or> reaches q (if ns = [] then a else (a + sum_list ns) mod 2 ^ 64) ms"
proof (induction ns arbitrary: a)
  case (Cons n ns)
  have "((a + n) mod 2 ^ 64 + sum_list ns) mod 2 ^ 64 = (a + (n + sum_list ns)) mod 2 ^ 64"
    by (simp only: mod_add_left_eq add.assoc)
  with Cons [of "(a + n) mod 2 ^ 64"] show ?case by (cases "ns = []") auto
qed simp

lemma reaches_iff:
  "q \<noteq> 0 \<Longrightarrow> reaches q 0 ns \<longleftrightarrow> (\<exists>k. q \<le> sum_list (take k ns) mod 2 ^ 64)"
proof (induction ns rule: rev_induct)
  case (snoc n ns)
  have last: "reaches q 0 (ns @ [n]) \<longleftrightarrow> reaches q 0 ns \<or> q \<le> sum_list (ns @ [n]) mod 2 ^ 64"
    unfolding reaches_append by (auto simp: mod_add_left_eq)
  have "(\<exists>k. q \<le> sum_list (take k (ns @ [n])) mod 2 ^ 64) \<longleftrightarrow>
      (\<exists>k. q \<le> sum_list (take k ns) mod 2 ^ 64) \<or> q \<le> sum_list (ns @ [n]) mod 2 ^ 64"
  proof
    assume "\<exists>k. q \<le> sum_list (take k (ns @ [n])) mod 2 ^ 64"
    then obtain k where k: "q \<le> sum_list (take k (ns @ [n])) mod 2 ^ 64" by blast
    show "(\<exists>k. q \<le> sum_list (take k ns) mod 2 ^ 64) \<or> q \<le> sum_list (ns @ [n]) mod 2 ^ 64"
      using k by (cases "k \<le> length ns") (auto simp: take_all)
  next
    assume "(\<exists>k. q \<le> sum_list (take k ns) mod 2 ^ 64) \<or> q \<le> sum_list (ns @ [n]) mod 2 ^ 64"
    then consider k where "k \<le> length ns" "q \<le> sum_list (take k ns) mod 2 ^ 64" | "q \<le> sum_list (ns @ [n]) mod 2 ^ 64"
      by (metis nat_le_linear take_all order_refl)
    then show "\<exists>k. q \<le> sum_list (take k (ns @ [n])) mod 2 ^ 64"
    proof cases
      case 1
      then show ?thesis by (intro exI [of _ k]) simp
    next
      case 2
      then show ?thesis by (intro exI [of _ "Suc (length ns)"]) simp
    qed
  qed
  with last snoc show ?case by simp
qed simp

lemma fillable_orders_wraps:
  "fillable_orders c needed os av = (av', reached) \<Longrightarrow>
     ns = map (\<lambda>ord. units (remaining_quantity ord)) (filter (\<lambda>ord. client ord \<noteq> c) os) \<Longrightarrow>
     reached = reaches (units needed) (units av) ns \<and> (reached \<longrightarrow> needed \<le> av') \<and>
     (\<not> reached \<longrightarrow> units av' = (if ns = [] then units av else (units av + sum_list ns) mod 2 ^ 64))"
proof (induction c needed os av arbitrary: ns rule: fillable_orders.induct)
  case (2 c needed ord os av)
  show ?case
  proof (cases "client ord = c")
    case True
    with 2 show ?thesis by simp
  next
    case False
    let ?ns = "map (\<lambda>ord. units (remaining_quantity ord)) (filter (\<lambda>ord. client ord \<noteq> c) os)"
    have ns: "ns = units (remaining_quantity ord) # ?ns" using "2.prems"(2) False by simp
    have sum: "units (av + remaining_quantity ord) = (units av + units (remaining_quantity ord)) mod 2 ^ 64"
      by (simp add: qty_plus unat_word_ariths)
    show ?thesis
    proof (cases "needed \<le> av + remaining_quantity ord")
      case True
      then have "units needed \<le> (units av + units (remaining_quantity ord)) mod 2 ^ 64"
        unfolding qty_le_units sum .
      moreover have "reached" "av' = av + remaining_quantity ord"
        using "2.prems"(1) False True by (simp_all add: Let_def)
      ultimately show ?thesis using True unfolding ns by simp
    next
      case low: False
      have rest: "fillable_orders c needed os (av + remaining_quantity ord) = (av', reached)"
        using "2.prems"(1) False low by (simp add: Let_def)
      define ms where "ms = ?ns"
      have "\<not> units needed \<le> (units av + units (remaining_quantity ord)) mod 2 ^ 64"
        using low unfolding qty_le_units sum .
      with "2.IH"(2) [OF False refl low rest ms_def] show ?thesis
        unfolding ns ms_def [symmetric] sum by (cases "ms = []") (auto simp: mod_add_left_eq add.assoc)
    qed
  qed
qed simp

lemma fillable_orders_below:
  "fillable_orders c needed os av = (av', False) \<Longrightarrow> av < needed \<Longrightarrow> av' < needed"
  by (induction c needed os av rule: fillable_orders.induct) (auto simp: Let_def not_le split: if_splits)

lemma fillable_wraps:
  "av < remaining_quantity tk \<Longrightarrow>
     spec_fillable tk limit L av < remaining_quantity tk \<longleftrightarrow>
       \<not> reaches (units (remaining_quantity tk)) (units av) (crossing_sizes tk (Some limit) L)"
proof (induction tk limit L av rule: spec_fillable.induct)
  case (2 tk limit p os L av)
  show ?case
  proof (cases "crosses_limit (order_side tk) (Some limit) p")
    case False
    with 2 show ?thesis by simp
  next
    case True
    obtain av' reached where step: "fillable_orders (client tk) (remaining_quantity tk) os av = (av', reached)"
      by (cases "fillable_orders (client tk) (remaining_quantity tk) os av") auto
    let ?ns = "map (\<lambda>ord. units (remaining_quantity ord)) (filter (\<lambda>ord. client ord \<noteq> client tk) os)"
    note wraps = fillable_orders_wraps [OF step refl]
    show ?thesis
    proof (cases reached)
      case reached: True
      with wraps True step show ?thesis by (auto simp: reaches_append not_less)
    next
      case False
      have "av' < remaining_quantity tk"
        using fillable_orders_below [of "client tk" "remaining_quantity tk" os av av'] step False "2.prems" by simp
      with "2.IH" [OF _ step [symmetric]] wraps True step False show ?thesis by (simp add: reaches_append)
    qed
  qed
qed simp

definition wide_session :: "command list" where
  "wide_session = [Submit (sample_limit ''m'' Ask 20 GTC 0x8000000000000000), Submit (sample_limit ''n'' Ask 20 GTC 0x8000000000000000)]"

definition wide_taker :: order where
  "wide_taker = sample_limit ''t'' Bid 20 FOK 0xFFFFFFFFFFFFFFFF"

definition wide_book where
  "wide_book = book_after fifo_matcher wide_session"

definition wide_abs :: abs_book where
  "wide_abs = snd (spec_session (empty_abs five_tick_spec fifo_matcher) wide_session)"

lemma wide_session_ok: "\<forall>c\<in>set wide_session. command_ok five_tick_spec c" "length wide_session < 100"
  by code_simp+

lemma wide_book_state:
  "engine_state btree_store slot_arena wide_book" "abs_of btree_store slot_arena wide_book = wide_abs"
  using book_after_state(2,3) [OF fifo.matching_algorithm_axioms fifo_lot wide_session_ok]
  by (simp_all add: wide_book_def wide_abs_def)

lemma wide_values:
  "ab_spec wide_abs = five_tick_spec" "ab_arrival wide_abs = 3" "stop_count wide_abs = 0"
  "map (\<lambda>(p, os). (p, map remaining_quantity os)) (ab_sides wide_abs Ask) =
     [(Price 20, [Qty 0x8000000000000000, Qty 0x8000000000000000])]"
  "fst (spec_submit wide_abs wide_taker) = Inr (ExecutionReport (from_sequence 3) [] Killed [] [])"
  by code_simp+

lemma wide_ladder:
  "\<exists>x y. ladder_of btree_store slot_arena wide_book Ask = [(Price 20, [x, y])] \<and>
     remaining_quantity x = Qty 0x8000000000000000 \<and> remaining_quantity y = Qty 0x8000000000000000 \<and>
     client x \<noteq> client wide_taker \<and> client y \<noteq> client wide_taker"
proof -
  have "map (\<lambda>(p, os). (p, map (\<lambda>ord. (remaining_quantity ord, client ord = client wide_taker)) os)) (ab_sides wide_abs Ask) =
      [(Price 20, [(Qty 0x8000000000000000, False), (Qty 0x8000000000000000, False)])]" by code_simp
  then show ?thesis unfolding wide_book_state(2) [symmetric] abs_of_simps by auto
qed

text \<open>
  C37. What decides a fill-or-kill order, whatever the size of the book: the dry run adds up, maker by
  maker and with the wrap-around of 64 bits, what crosses the limit without being the client's own,
  and the order is killed exactly when none of the sums on the way, taken modulo \<open>2 ^ 64\<close>, reaches its
  quantity; then the book is as it was. An order that the book could fill is therefore killed when
  the sums jump over the range from its quantity to \<open>2 ^ 64\<close>, as in the witness: two makers of \<open>2 ^ 63\<close>
  each, and an order for \<open>2 ^ 64 - 1\<close>.
\<close>

theorem fok_decides_on_wrapped_sums:
  assumes "engine_state S A b" and "on_lattice (ob_spec b) ord"
  shows "\<exists>r b'. process_fok_limit_order S A b ord p = Some (Inr r, b') \<and>
    (result_outcome r = Killed \<longleftrightarrow>
       (\<forall>k. sum_list (take k (crossing_sizes ord (Some p) (ladder_of S A b (opposite (order_side ord))))) mod 2 ^ 64 <
          units (remaining_quantity ord))) \<and>
    (result_outcome r = Killed \<longrightarrow> b' = b) \<and> (result_outcome r \<noteq> Killed \<longrightarrow> result_outcome r = Completed)"
proof -
  let ?L = "ladder_of S A b (opposite (order_side ord))"
  have av: "fillable_quantity S A b (opposite (order_side ord)) ord p = Some (spec_fillable ord p ?L 0)"
    by (rule fok_available [OF assms])
  obtain ts cs tk b' where run: "fill_against S A (arrival_now b) (Some p) ord b = Some (ts, cs, tk, b')"
    by (rule fill_against_state [OF assms, of "Some p"])
  have nonzero: "remaining_quantity ord \<noteq> 0" using assms(2) by (simp add: on_lattice_def tradable_def)
  then have "0 < remaining_quantity ord" by (simp add: qty_less_units)
  from fillable_wraps [OF this, of p ?L] nonzero reaches_iff [of "units (remaining_quantity ord)"]
  have "spec_fillable ord p ?L 0 < remaining_quantity ord \<longleftrightarrow>
      (\<forall>k. sum_list (take k (crossing_sizes ord (Some p) ?L)) mod 2 ^ 64 < units (remaining_quantity ord))"
    by (simp add: not_le)
  with av run show ?thesis by (auto simp: process_fok_limit_order_def)
qed

theorem fok_decides_on_wrapped_sums_witness:
  "\<exists>r. process_fok_limit_order btree_store slot_arena wide_book wide_taker (Price 20) = Some (Inr r, wide_book) \<and>
     result_outcome r = Killed \<and>
     units (remaining_quantity wide_taker) <
       crossing_units wide_taker (Some (Price 20)) (ladder_of btree_store slot_arena wide_book Ask)"
proof -
  have lattice: "on_lattice (ob_spec wide_book) wide_taker"
    using wide_values(1) unfolding wide_book_state(2) [symmetric] abs_of_simps by (simp, code_simp)
  have side: "order_side wide_taker = Bid" "opposite Bid = Ask" and taker: "units (remaining_quantity wide_taker) = 0xFFFFFFFFFFFFFFFF"
    by (simp_all add: wide_taker_def sample_limit_def sample_order_def)
  obtain x y where "ladder_of btree_store slot_arena wide_book Ask = [(Price 20, [x, y])]"
    "remaining_quantity x = Qty 0x8000000000000000" "remaining_quantity y = Qty 0x8000000000000000"
    "client x \<noteq> client wide_taker" "client y \<noteq> client wide_taker" using wide_ladder by blast
  then have sizes: "crossing_sizes wide_taker (Some (Price 20)) (ladder_of btree_store slot_arena wide_book Ask) = [2 ^ 63, 2 ^ 63]"
    by (simp add: side crosses_limit_def)
  have "sum_list (take k [2 ^ 63, 2 ^ 63 :: nat]) mod 2 ^ 64 < 0xFFFFFFFFFFFFFFFF" for k
    by (cases k; cases "k - 1") auto
  moreover have "crossing_units wide_taker (Some (Price 20)) (ladder_of btree_store slot_arena wide_book Ask) = 2 ^ 64"
    unfolding sum_crossing_sizes [symmetric] sizes by simp
  ultimately show ?thesis
    using fok_decides_on_wrapped_sums [OF wide_book_state(1) lattice, of "Price 20"] unfolding side sizes taker by fastforce
qed

text \<open>Through \<open>submit\<close> the same order is reported killed, and the depth shows nothing at its price.\<close>

lemma wide_submit:
  "\<exists>b'. submit btree_store slot_arena wide_book wide_taker =
      Some (Inr (ExecutionReport (from_sequence 3) [] Killed [] []), b')"
  "depth btree_store slot_arena wide_book Ask 1 = Some [(Price 20, Qty 0)]"
proof -
  have lattice: "on_lattice (ab_spec wide_abs) wide_taker" unfolding wide_values(1) by code_simp
  have "load wide_abs + 1 < 2 ^ 32" by (simp add: load_def wide_values)
  from submit_runs [OF wide_book_state lattice this]
  show "\<exists>b'. submit btree_store slot_arena wide_book wide_taker =
      Some (Inr (ExecutionReport (from_sequence 3) [] Killed [] []), b')"
    unfolding wide_values(5) by blast
  obtain x y where two: "ladder_of btree_store slot_arena wide_book Ask = [(Price 20, [x, y])]"
    "remaining_quantity x = Qty 0x8000000000000000" "remaining_quantity y = Qty 0x8000000000000000"
    using wide_ladder by blast
  show "depth btree_store slot_arena wide_book Ask 1 = Some [(Price 20, Qty 0)]"
  proof (rule engine_stateE [OF wide_book_state(1)])
    fix ok covers assume E: "book_engine btree_store ok covers slot_arena" and "book_ok btree_store ok covers slot_arena wide_book"
    then obtain K where "book_rel btree_store ok covers slot_arena wide_book K" by (auto simp: book_ok_def)
    from book_engine.depth_ladder [OF E this, of Ask 1] show ?thesis
      by (simp add: two qty_sum_eq qty_plus zero_qty_def)
  qed
qed

section \<open>Identifiers\<close>

text \<open>A sweep that leaves the taker something has emptied every level within the limit, and no other.\<close>

lemma sweep_drops:
  "matching_algorithm M lot \<Longrightarrow> lot \<noteq> 0 \<Longrightarrow> spec_sweep M now limit L tk = (ts, cs, tk', L') \<Longrightarrow>
     tradable_ladder lot L \<Longrightarrow> is_multiple_of (base (remaining_quantity tk)) lot \<Longrightarrow> remaining_quantity tk' \<noteq> 0 \<Longrightarrow>
     L' = dropWhile (\<lambda>l. crosses_limit (order_side tk) limit (fst l)) L"
proof (induction M now limit L tk arbitrary: ts cs tk' L' rule: spec_sweep.induct)
  case (2 M now limit p os L tk)
  show ?case
  proof (cases "remaining_quantity tk = 0 \<or> \<not> crosses_limit (order_side tk) limit p")
    case True
    with "2.prems"(3,6) show ?thesis by auto
  next
    case False
    obtain ts1 cs1 tk1 os1 where level: "spec_level M now p os tk = (ts1, cs1, tk1, os1)"
      by (cases "spec_level M now p os tk") auto
    have os: "tradable_level lot os" using "2.prems"(4) by simp
    note one = spec_level_facts [OF "2.prems"(1,2) os "2.prems"(5) level]
    have gone: "os1 = []"
    proof (rule ccontr)
      assume "os1 \<noteq> []"
      with one(5) "2.prems"(3,6) False level show False by auto
    qed
    obtain ts2 cs2 tk2 L2 where rest: "spec_sweep M now limit L tk1 = (ts2, cs2, tk2, L2)"
      by (cases "spec_sweep M now limit L tk1") auto
    have result: "tk2 = tk'" "L2 = L'" using "2.prems"(3) False level gone rest by auto
    obtain r where r: "tk1 = tk\<lparr>remaining_quantity := r\<rparr>" using spec_level_taker [OF level] by blast
    have "L2 = dropWhile (\<lambda>l. crosses_limit (order_side tk1) limit (fst l)) L"
      by (rule "2.IH" [OF False level [symmetric] refl refl refl gone "2.prems"(1,2) rest])
        (use "2.prems"(4,6) one(7) result in auto)
    with False result show ?thesis by (simp add: r)
  qed
qed simp

lemma fill_drops:
  assumes "abs_ok ab" and "is_multiple_of (base (remaining_quantity tk)) (lot_size (ab_spec ab))"
    and "spec_fill ab limit tk = (ts, cs, tk', ab')" and "remaining_quantity tk' \<noteq> 0"
  shows "ab_sides ab' (opposite (order_side tk)) =
    dropWhile (\<lambda>l. crosses_limit (order_side tk) limit (fst l)) (ab_sides ab (opposite (order_side tk)))"
proof (rule spec_fill_cases [of ab limit tk])
  fix us ds uk L
  assume fill: "spec_fill ab limit tk = (us, ds, uk, ab\<lparr>ab_sides := (ab_sides ab)(opposite (order_side tk) := L)\<rparr>)"
    and sweep: "spec_sweep (ab_matcher ab) (ucast (ab_arrival ab)) limit (ab_sides ab (opposite (order_side tk))) tk = (us, ds, uk, L)"
  from sweep_drops [OF _ _ sweep] fill assms show ?thesis by (auto simp: abs_ok_def)
qed

lemma dropWhile_keeps: "l \<in> set L \<Longrightarrow> \<not> P l \<Longrightarrow> l \<in> set (dropWhile P L)"
  by (induction L) auto

lemma crossing_units_id [simp]: "crossing_units (tk\<lparr>order_id := i\<rparr>) limit L = crossing_units tk limit L"
  by (induction tk limit L rule: crossing_units.induct) simp_all

text \<open>
  C38. An order that trades can still be refused. Let the identifier that the sequence is about to draw
  be live already, as it can be after an \<open>add_order\<close>, which keeps the identifier its caller chose, and
  not at a price within the limit of the order that draws it. An admitted good-till-cancelled order
  on the lattice for more than crosses its limit then trades all that crosses and cannot rest the
  remainder: \<open>submit\<close> returns \<open>ExchangeIdDuplicated\<close> with the book as the sweep left it. Every level
  within the limit is gone, the trades are not reported, and the price that stops watch is the old one.
\<close>

theorem refused_after_trading:
  assumes "engine_state S A b" and "on_lattice (ob_spec b) ord" and "otype ord = Limit p GTC" and "admit b ord = Inr ()"
    and "order_location_of b (from_sequence (next_seq b)) = Some loc"
    and "\<forall>q. loc = In_Book (opposite (order_side ord)) q \<longrightarrow> \<not> crosses_limit (order_side ord) (Some p) q"
    and "crossing_units ord (Some p) (ladder_of S A b (opposite (order_side ord))) < units (remaining_quantity ord)"
  shows "\<exists>ts cs tk b'. fill_against S A (arrival_now b) (Some p) (ord\<lparr>order_id := from_sequence (next_seq b)\<rparr>)
       (b\<lparr>next_seq := next_seq b + 1\<rparr>) = Some (ts, cs, tk, b') \<and>
     submit S A b ord = Some (Inl ExchangeIdDuplicated, b') \<and>
     traded_units ts = crossing_units ord (Some p) (ladder_of S A b (opposite (order_side ord))) \<and>
     ladder_of S A b' (opposite (order_side ord)) =
       dropWhile (\<lambda>l. crosses_limit (order_side ord) (Some p) (fst l)) (ladder_of S A b (opposite (order_side ord))) \<and>
     ladder_of S A b' (order_side ord) = ladder_of S A b (order_side ord) \<and> stops_of b' = stops_of b \<and>
     last_trade_price b' = last_trade_price b \<and> order_location_of b' (from_sequence (next_seq b)) = Some loc"
proof -
  let ?sd = "opposite (order_side ord)" and ?i = "from_sequence (next_seq b)"
  let ?ord = "ord\<lparr>order_id := ?i\<rparr>" and ?b = "b\<lparr>next_seq := next_seq b + 1\<rparr>"
  have state: "engine_state S A ?b"
    by (rule engine_stateE [OF assms(1)]) (simp add: engine_stateI book_engine.book_ok_trivial)
  have lattice: "on_lattice (ob_spec ?b) ?ord" using assms(2) by (simp add: on_lattice_def tradable_def)
  have same: "ladder_of S A ?b sd = ladder_of S A b sd" "arrival_now ?b = arrival_now b" for sd
    by (simp_all add: ladder_of_def arrival_now_def)
  obtain ts cs tk b' where run: "fill_against S A (arrival_now ?b) (Some p) ?ord ?b = Some (ts, cs, tk, b')"
    and fill: "spec_fill (abs_of S A ?b) (Some p) ?ord = (ts, cs, tk, abs_of S A b')"
    and state': "engine_state S A b'" and ok: "abs_ok (abs_of S A ?b)"
    by (rule fill_against_state [OF state lattice, of "Some p"])
  note facts = sweep_facts [OF state lattice run]
  have lot: "is_multiple_of (base (remaining_quantity ?ord)) (lot_size (ab_spec (abs_of S A ?b)))"
    using on_lattice_lot [OF lattice] by simp
  have traded: "traded_units ts = crossing_units ord (Some p) (ladder_of S A b ?sd)"
    using facts(5) assms(7) same(1) [of ?sd] by simp
  have left: "remaining_quantity tk \<noteq> 0"
  proof
    assume "remaining_quantity tk = 0"
    with sweep_okD(1) [OF facts(1)] assms(7) traded show False by simp
  qed
  have ladder: "ladder_of S A b' ?sd = dropWhile (\<lambda>l. crosses_limit (order_side ord) (Some p) (fst l)) (ladder_of S A b ?sd)"
    using fill_drops [OF ok lot fill left] by (simp add: same)
  have own: "ladder_of S A b' (order_side ord) = ladder_of S A b (order_side ord)" and stops: "stops_of b' = stops_of b"
    using facts(2,3) by (simp_all add: same)
  have "ab_last (abs_of S A b') = ab_last (abs_of S A ?b) \<and> ab_spec (abs_of S A b') = ab_spec (abs_of S A ?b)"
  proof (rule spec_fill_cases [of "abs_of S A ?b" "Some p" ?ord])
    fix us ds uk L
    assume fill': "spec_fill (abs_of S A ?b) (Some p) ?ord =
      (us, ds, uk, (abs_of S A ?b)\<lparr>ab_sides := (ab_sides (abs_of S A ?b))(opposite (order_side ?ord) := L)\<rparr>)"
    have "abs_of S A b' = (abs_of S A ?b)\<lparr>ab_sides := (ab_sides (abs_of S A ?b))(opposite (order_side ?ord) := L)\<rparr>"
      using trans [OF sym [OF fill] fill'] by (simp only: prod.inject)
    from arg_cong [OF this, of ab_last] arg_cong [OF this, of ab_spec] show ?thesis by simp
  qed
  then have fixed: "last_trade_price b' = last_trade_price b" "ob_spec b' = ob_spec b" by simp_all
  obtain r where taker: "tk = ?ord\<lparr>remaining_quantity := r\<rparr>" using spec_fill_facts(6) [OF ok lot fill] by blast
  have loc: "order_location_of b' ?i = Some loc"
  proof (rule engine_stateE [OF assms(1)])
    fix ok covers assume E: "book_engine S ok covers A" and "book_ok S ok covers A b"
    then obtain K where K: "book_rel S ok covers A b K" by (auto simp: book_ok_def)
    show ?thesis
    proof (rule engine_stateE [OF state'])
      fix ok' covers' assume E': "book_engine S ok' covers' A" and "book_ok S ok' covers' A b'"
      then obtain K' where K': "book_rel S ok' covers' A b' K'" by (auto simp: book_ok_def)
      show ?thesis
      proof (cases loc)
        case (In_Book sd q)
        have "(q, os) \<in> set (ladder_of S A b' sd)" if "(q, os) \<in> set (ladder_of S A b sd)" for os
        proof (cases "sd = ?sd")
          case True
          then have "\<not> crosses_limit (order_side ord) (Some p) q" using assms(6) In_Book by simp
          with that True show ?thesis unfolding True ladder by (auto intro: dropWhile_keeps)
        next
          case False
          then have "sd = order_side ord" by (cases sd; cases "order_side ord") simp_all
          with that own show ?thesis by simp
        qed
        with assms(5) show ?thesis
          unfolding In_Book book_engine.location_in_book [OF E K] book_engine.location_in_book [OF E' K'] by blast
      next
        case (In_Stop_Book sd t)
        with assms(5) stops show ?thesis
          by (simp add: book_engine.location_in_stops [OF E K] book_engine.location_in_stops [OF E' K'])
      qed
    qed
  qed
  have "add_order S A b' tk = Some (Inl ExchangeIdDuplicated, b')"
  proof -
    have "admit_under (ob_spec b) tk = admit_under (ob_spec b) ord" by (rule admit_under_cong) (simp_all add: taker)
    then have "admit b' tk = Inr ()" using assms(4) by (simp add: admit_def fixed)
    moreover obtain a where "hm_get (ob_index b') ?i = Some a" using loc by (auto simp: order_location_of_def)
    ultimately show ?thesis using assms(3) by (simp add: add_order_def taker)
  qed
  then have "process_limit_order S A ?b ?ord p GTC = Some (Inl ExchangeIdDuplicated, b')"
    using run left by (simp add: process_limit_order_def qty_is_zero_def)
  then have "submit S A b ord = Some (Inl ExchangeIdDuplicated, b')"
    using assms(3,4) by (simp add: submit_def Let_def execute.simps finish_execution_def)
  with run traded ladder own stops fixed(1) loc show ?thesis unfolding same by blast
qed

text \<open>
  An ask added under the identifier of the second order to come, and an ask at 20, which is the first.
  The bid that draws the second takes the ask at 20, and is refused.
\<close>

definition clash_session :: "command list" where
  "clash_session = [Add (sample_limit ''k'' Ask 30 GTC 1\<lparr>order_id := from_sequence 2\<rparr>), Submit (sample_limit ''m'' Ask 20 GTC 5)]"

definition clash_book where
  "clash_book = book_after fifo_matcher clash_session"

definition clash_abs :: abs_book where
  "clash_abs = snd (spec_session (empty_abs five_tick_spec fifo_matcher) clash_session)"

definition clash_taker :: order where
  "clash_taker = sample_limit ''t'' Bid 20 GTC 8"

lemma clash_session_ok: "\<forall>c\<in>set clash_session. command_ok five_tick_spec c" "length clash_session < 100"
  by code_simp+

lemma clash_book_state:
  "engine_state btree_store slot_arena clash_book" "abs_of btree_store slot_arena clash_book = clash_abs"
  using book_after_state(2,3) [OF fifo.matching_algorithm_axioms fifo_lot clash_session_ok]
  by (simp_all add: clash_book_def clash_abs_def)

lemma clash_values:
  "ab_spec clash_abs = five_tick_spec" "ab_seq clash_abs = 2"
  "map (\<lambda>(p, os). (p, map order_id os)) (ab_sides clash_abs Ask) = [(Price 20, [from_sequence 1]), (Price 30, [from_sequence 2])]"
  "crossing_units clash_taker (Some (Price 20)) (ab_sides clash_abs Ask) = 5" "ab_last clash_abs = None"
  by code_simp+

lemma clash_taker_values:
  "on_lattice five_tick_spec clash_taker" "otype clash_taker = Limit (Price 20) GTC" "order_side clash_taker = Bid"
  "admit_under five_tick_spec clash_taker = Inr ()" "units (remaining_quantity clash_taker) = 8"
  "\<not> crosses_limit Bid (Some (Price 20)) (Price 30)"
  by code_simp+

theorem refused_after_trading_witness:
  "\<exists>ts b'. submit btree_store slot_arena clash_book clash_taker = Some (Inl ExchangeIdDuplicated, b') \<and>
     traded_units ts = 5 \<and> last_trade_price b' = None \<and>
     map fst (ladder_of btree_store slot_arena clash_book Ask) = [Price 20, Price 30] \<and>
     map fst (ladder_of btree_store slot_arena b' Ask) = [Price 30]"
proof -
  note ladder = clash_values(3) [folded clash_book_state(2), unfolded abs_of_simps]
  have book: "ob_spec clash_book = five_tick_spec" "next_seq clash_book = 2" "last_trade_price clash_book = None"
    using clash_values(1,2,5) unfolding clash_book_state(2) [symmetric] by simp_all
  obtain x y where xy: "ladder_of btree_store slot_arena clash_book Ask = [(Price 20, [x]), (Price 30, [y])]"
    "order_id y = from_sequence 2" using ladder by (auto simp: Cons_eq_map_conv)
  have crossing: "crossing_units clash_taker (Some (Price 20)) (ladder_of btree_store slot_arena clash_book Ask) = 5"
    using clash_values(4) unfolding clash_book_state(2) [symmetric] by simp
  have loc: "order_location_of clash_book (from_sequence (next_seq clash_book)) = Some (In_Book Ask (Price 30))"
  proof (rule engine_stateE [OF clash_book_state(1)])
    fix ok covers assume E: "book_engine btree_store ok covers slot_arena" and "book_ok btree_store ok covers slot_arena clash_book"
    then obtain K where "book_rel btree_store ok covers slot_arena clash_book K" by (auto simp: book_ok_def)
    from book_engine.location_in_book [OF E this] xy book(2) show ?thesis by auto
  qed
  have "crosses_limit Bid (Some (Price 20)) (Price 20)" by code_simp
  with refused_after_trading [OF clash_book_state(1) _ clash_taker_values(2) _ loc] clash_taker_values book crossing xy
  show ?thesis by (auto simp: admit_def)
qed

section \<open>Orders with nothing left\<close>

text \<open>
  The laws of the engine are about orders with something left to trade, and admission does not ask for
  it: it looks at the original quantity only. An ask of five lots with none remaining rests through
  \<open>add_order\<close>; it can never fill, so its level never drains, and a bid at its price stops there and
  rests: the book is crossed. This is one run of two commands.
\<close>

definition empty_ask :: order where
  "empty_ask = sample_limit ''m'' Ask 20 GTC 5\<lparr>remaining_quantity := Qty 0\<rparr>"

lemma empty_order_crosses_the_book:
  "map_option (\<lambda>(rs, b). (rs, best_bid btree_store b, best_ask btree_store b))
     (session btree_store slot_arena (sample_new fifo_matcher) [Add empty_ask, Submit (sample_limit ''t'' Bid 20 GTC 4)]) =
   Some ([Done (Inr ()), Submitted (Inr (ExecutionReport (from_sequence 1) [] Rested [] []))],
     Some (Some (Price 20)), Some (Some (Price 20)))"
  by code_simp

section \<open>Arrival stamps\<close>

text \<open>
  C36. The arrival counter is the only thing that can make \<open>add_order\<close> panic: on a consistent book an
  admitted limit order with a fresh identifier, on the lattice or not, is refused with a panic exactly
  when the next stamp is the largest 32-bit number, which is then never used.
\<close>

theorem add_order_panics_iff_stamps_spent:
  assumes "engine_state S A b" and "otype ord = Limit p tif"
    and "admit b ord = Inr ()" and "order_location_of b (order_id ord) = None"
  shows "add_order S A b ord = None \<longleftrightarrow> next_arrival b = 0xFFFFFFFF"
proof (cases "next_arrival b = 0xFFFFFFFF")
  case True
  then have "checked_add (next_arrival b) 1 = None" by (simp add: checked_add_def)
  with assms(2-4) True show ?thesis
    by (simp add: add_order_def rest_order_def order_location_of_def)
next
  case False
  have free: "hm_get (ob_index b) (order_id ord) = None" using assms(4) by (simp add: order_location_of_def)
  then have add: "add_order S A b ord = rest_order S A b ord p" using assms(2,3) by (simp add: add_order_def)
  have "\<exists>r. rest_order S A b ord p = Some r"
  proof (rule engine_stateE [OF assms(1)])
    fix ok covers assume E: "book_engine S ok covers A" and "book_ok S ok covers A b"
    then obtain K where K: "book_rel S ok covers A b K" by (auto simp: book_ok_def)
    show ?thesis
    proof (cases "covers (ob_store b) p")
      case True
      from book_engine.rest_order_rests [OF E K True free stamps_left [OF False]] show ?thesis by blast
    next
      case uncovered: False
      from order_book_store.ensure_refuses [OF book_engine.axioms(1) [OF E] book_relD(1) [OF K] uncovered]
      obtain e where "ensure_level S (ob_store b) (order_side ord) p = Some (Inl e)" by blast
      moreover have "checked_add (next_arrival b) 1 = Some (next_arrival b + 1)"
        using stamps_left [OF False] by (simp add: checked_add_eq_Some)
      ultimately show ?thesis by (simp add: rest_order_def)
    qed
  qed
  with False add show ?thesis by auto
qed

text \<open>Stamps that were never given out leave a book consistent.\<close>

lemma engine_state_later:
  assumes "engine_state S A b" and "next_arrival b \<le> n"
  shows "engine_state S A (b\<lparr>next_arrival := n\<rparr>)"
proof (rule engine_stateE [OF assms(1)])
  fix ok covers assume E: "book_engine S ok covers A" and "book_ok S ok covers A b"
  then obtain K where "book_rel S ok covers A b K" by (auto simp: book_ok_def)
  moreover have "resting spec n sd p x" if "resting spec (next_arrival b) sd p x" for spec sd p x
    using that assms(2) by (auto simp: resting_def)
  moreover have "0 < n" if "0 < next_arrival b" using that assms(2) by simp
  ultimately have "book_rel S ok covers A (b\<lparr>next_arrival := n\<rparr>) K"
    by (simp add: book_rel_def orders_rel_def)
  then show ?thesis using engine_stateI [OF E] by (auto simp: book_ok_def)
qed

definition last_stamp_book where
  "last_stamp_book = sample_book\<lparr>next_arrival := 0xFFFFFFFF\<rparr>"

theorem add_order_panics_iff_stamps_spent_witness:
  "add_order btree_store slot_arena sample_book (sample_order ''late'' ''k'' Ask (limit_gtc (Price 30)) 6) \<noteq> None \<and>
   add_order btree_store slot_arena last_stamp_book (sample_order ''late'' ''k'' Ask (limit_gtc (Price 30)) 6) = None"
proof -
  let ?ord = "sample_order ''late'' ''k'' Ask (limit_gtc (Price 30)) 6"
  have facts: "admit_under five_tick_spec ?ord = Inr ()"
    "otype ?ord = Limit (Price 30) GTC" "\<not> is_live sample_abs (order_id ?ord)" by code_simp+
  have free: "order_location_of sample_book (order_id ?ord) = None"
    by (rule sample_book_rel)
      (use facts(3) in \<open>simp add: btree_engine.is_live_iff order_location_of_def flip: sample_book_state(2)\<close>)
  have late: "ob_spec last_stamp_book = five_tick_spec" "order_location_of last_stamp_book (order_id ?ord) = None"
    "next_arrival last_stamp_book = 0xFFFFFFFF"
    using free sample_book_spec(1) by (simp_all add: last_stamp_book_def order_location_of_def)
  have "engine_state btree_store slot_arena last_stamp_book"
    unfolding last_stamp_book_def by (rule engine_state_later [OF sample_book_state(1)]) (simp add: sample_book_spec)
  from add_order_panics_iff_stamps_spent [OF this facts(2) _ late(2)]
    add_order_panics_iff_stamps_spent [OF sample_book_state(1) facts(2) _ free] late facts sample_book_spec
  show ?thesis by (simp add: admit_def)
qed

end
