(* ===== verification/Test_Support.thy ===== *)
theory Test_Support
  imports Engines Pro_Rata_Matcher Time_Pro_Rata_Matcher
begin

text \<open>
  \<^verbatim>\<open>src/src/test_helpers.rs\<close>, and what the tests of the crate use of the language: a failed
  assertion and the \<open>unwrap\<close> of an error are panics, so a test is an \<open>option\<close> of the unit, and it
  passes when it is \<open>Some ()\<close>. The integer literals of the tests are the words they are read as.
\<close>

section \<open>Assertions\<close>

definition assert_that :: "bool \<Rightarrow> unit option" where
  "assert_that P = (if P then Some () else None)"

definition unwrap :: "'e + 'a \<Rightarrow> 'a option" where
  "unwrap r = (case r of Inl e \<Rightarrow> None | Inr x \<Rightarrow> Some x)"

lemma assert_that_Some [simp]: "assert_that P = Some u \<longleftrightarrow> P"
  by (simp add: assert_that_def)

lemma unwrap_simps [simp]: "unwrap (Inr x) = Some x" "unwrap (Inl e) = None"
  by (simp_all add: unwrap_def)

lemma bind_assert [simp]: "P \<Longrightarrow> Option.bind (assert_that P) f = f ()"
  by (simp add: assert_that_def)

section \<open>Helpers\<close>

definition px :: "u64 \<Rightarrow> price" where
  "px c = Price c"

definition test_qty :: "u64 \<Rightarrow> qty" where
  "test_qty n = Qty n"

text \<open>An order of the builder, every field but the type as the helpers of the tests fill it.\<close>

definition client_order :: "string \<Rightarrow> string \<Rightarrow> side \<Rightarrow> order_type \<Rightarrow> u64 \<Rightarrow> order option" where
  "client_order c i sd typ q =
     build (with_order_type (with_exchange_id (with_client_id (with_quantity (with_side (builder 0) sd)
       (test_qty q)) c) i) typ)"

definition test_order :: "side \<Rightarrow> u64 \<Rightarrow> u64 \<Rightarrow> u64 option \<Rightarrow> string \<Rightarrow> order option" where
  "test_order sd p q remaining i =
     (let b = with_quantity (with_exchange_id (with_client_id (with_order_type (with_side (builder 0) sd)
        (limit_gtc (px p))) i) i) (test_qty q)
      in build (case remaining of None \<Rightarrow> b | Some r \<Rightarrow> with_remaining b (test_qty r)))"

section \<open>Scripts on a book\<close>

text \<open>
  The books of the tests are on the ordered map. Each helper is a line the tests repeat: a call with
  the \<open>unwrap\<close> of its result, or a query that must not panic.
\<close>

type_synonym test_book = "(slot_key btree_store, slots, slot_key) order_book"

definition book_with :: "matcher \<Rightarrow> test_book option" where
  "book_with mtch = do { spec \<leftarrow> cents; book_new btree_store slot_arena spec mtch }"

definition book :: "test_book option" where
  "book = book_with fifo_matcher"

definition rest_ok :: "test_book \<Rightarrow> order option \<Rightarrow> test_book option" where
  "rest_ok ob ord = do {
     ord \<leftarrow> ord;
     (r, ob) \<leftarrow> add_order btree_store slot_arena ob ord;
     unwrap r;
     Some ob
   }"

definition send_ok :: "test_book \<Rightarrow> order option \<Rightarrow> (execution_report \<times> test_book) option" where
  "send_ok ob ord = do {
     ord \<leftarrow> ord;
     (r, ob) \<leftarrow> submit btree_store slot_arena ob ord;
     report \<leftarrow> unwrap r;
     Some (report, ob)
   }"

definition level_total_ok :: "price_level option option \<Rightarrow> qty option" where
  "level_total_ok l = do { l \<leftarrow> l; l \<leftarrow> l; Some (price_level_total l) }"

definition ask_total :: "test_book \<Rightarrow> qty option" where
  "ask_total ob = level_total_ok (best_ask_level btree_store slot_arena ob)"

definition bid_total :: "test_book \<Rightarrow> qty option" where
  "bid_total ob = level_total_ok (best_bid_level btree_store slot_arena ob)"

definition ask_is :: "test_book \<Rightarrow> price option \<Rightarrow> bool" where
  "ask_is ob p \<longleftrightarrow> best_ask btree_store ob = Some p"

definition bid_is :: "test_book \<Rightarrow> price option \<Rightarrow> bool" where
  "bid_is ob p \<longleftrightarrow> best_bid btree_store ob = Some p"

definition indexed :: "test_book \<Rightarrow> exchange_id \<Rightarrow> bool" where
  "indexed ob i \<longleftrightarrow> hm_get (ob_index ob) i \<noteq> None"

definition has_level :: "test_book \<Rightarrow> side \<Rightarrow> price \<Rightarrow> bool" where
  "has_level ob sd p \<longleftrightarrow> (\<exists>v\<in>set (book_levels btree_store ob sd). view_price v = p)"

definition priced :: "trade list \<Rightarrow> (price \<times> qty) list" where
  "priced ts = map (\<lambda>t. (trade_price t, trade_quantity t)) ts"

definition limit_order :: "side \<Rightarrow> u64 \<Rightarrow> u64 \<Rightarrow> string \<Rightarrow> order option" where
  "limit_order sd p q i = client_order i i sd (limit_gtc (px p)) q"

definition market_order :: "side \<Rightarrow> u64 \<Rightarrow> string \<Rightarrow> order option" where
  "market_order sd q i = client_order i i sd Market q"

definition ioc_order :: "side \<Rightarrow> u64 \<Rightarrow> u64 \<Rightarrow> string \<Rightarrow> order option" where
  "ioc_order sd p q i = client_order i i sd (limit_ioc (px p)) q"

definition fok_order :: "side \<Rightarrow> u64 \<Rightarrow> u64 \<Rightarrow> string \<Rightarrow> order option" where
  "fok_order sd p q i = client_order i i sd (limit_fok (px p)) q"

definition stop_market_order :: "side \<Rightarrow> u64 \<Rightarrow> u64 \<Rightarrow> string \<Rightarrow> order option" where
  "stop_market_order sd trigger q i = client_order i i sd (stop_market (px trigger)) q"

definition stop_limit_order :: "side \<Rightarrow> u64 \<Rightarrow> u64 \<Rightarrow> u64 \<Rightarrow> string \<Rightarrow> order option" where
  "stop_limit_order sd trigger p q i = client_order i i sd (stop_limit (px trigger) (px p)) q"

end
