(* ===== verification/Ownership_Oracle.thy ===== *)
theory Ownership_Oracle
  imports Test_Support
begin

text \<open>
  The randomised test of \<^verbatim>\<open>src/src/orderbook.rs\<close> (module \<open>arena_tests\<close>): its oracle
  \<open>assert_ownership\<close>, which checks store, arena, index and stop book against each other, and its
  driver \<open>exercise\<close>, which runs any sequence of operations on a book and applies the oracle after
  each. Here it is shown for all sequences that no assertion fails.

  The arena is iterated over by its live keys, a list \<open>all_keys\<close>; a hash set is the list of its members.
\<close>

section \<open>The oracle\<close>

fun own_orders ::
    "('s, 'm, 'k) order_book \<Rightarrow> side \<Rightarrow> price \<Rightarrow> ('k \<times> order) list \<Rightarrow> 'k list \<Rightarrow> exchange_id list \<Rightarrow>
       ('k list \<times> exchange_id list) option" where
  "own_orders b sd p [] keys ids = Some (keys, ids)"
| "own_orders b sd p ((key, ord) # rows) keys ids = do {
     assert_that (key \<notin> set keys);
     assert_that (order_id ord \<notin> set ids);
     assert_that (order_side ord = sd);
     assert_that (limit_price (otype ord) = Some p);
     assert_that (\<not> qty_is_zero (remaining_quantity ord));
     assert_that (hm_get (ob_index b) (order_id ord) = Some (Book_Address sd p key));
     own_orders b sd p rows (key # keys) (order_id ord # ids)
   }"

fun own_levels ::
    "('m, 'k) arena_ops \<Rightarrow> ('s, 'm, 'k) order_book \<Rightarrow> side \<Rightarrow> 'k book_level list \<Rightarrow> 'k list \<Rightarrow> exchange_id list \<Rightarrow>
       ('k list \<times> exchange_id list) option" where
  "own_levels A b sd [] keys ids = Some (keys, ids)"
| "own_levels A b sd (l # ls) keys ids = do {
     assert_that (bl_side l = sd);
     assert_that (\<not> book_level_is_empty l);
     assert_that (links_are_consistent A (bl_queue l) (ob_nodes b));
     rows \<leftarrow> iter_with_keys A (bl_queue l) (ob_nodes b);
     (keys, ids) \<leftarrow> own_orders b sd (bl_price l) rows keys ids;
     own_levels A b sd ls keys ids
   }"

fun own_stops ::
    "('s, 'm, 'k) order_book \<Rightarrow> side \<Rightarrow> price \<Rightarrow> order list \<Rightarrow> exchange_id list \<Rightarrow> exchange_id list option" where
  "own_stops b sd trigger [] ids = Some ids"
| "own_stops b sd trigger (ord # ords) ids = do {
     assert_that (order_id ord \<notin> set ids);
     assert_that (order_side ord = sd);
     assert_that (hm_get (ob_index b) (order_id ord) = Some (Stop_Address sd trigger));
     own_stops b sd trigger ords (order_id ord # ids)
   }"

fun own_stop_levels ::
    "('s, 'm, 'k) order_book \<Rightarrow> side \<Rightarrow> ladder \<Rightarrow> exchange_id list \<Rightarrow> exchange_id list option" where
  "own_stop_levels b sd [] ids = Some ids"
| "own_stop_levels b sd ((trigger, ords) # stops) ids = do {
     assert_that (ords \<noteq> []);
     ids \<leftarrow> own_stops b sd trigger ords ids;
     own_stop_levels b sd stops ids
   }"

definition assert_ownership ::
    "('s, 'k) store_ops \<Rightarrow> ('m, 'k) arena_ops \<Rightarrow> ('m \<Rightarrow> 'k list) \<Rightarrow> ('s, 'm, 'k) order_book \<Rightarrow> unit option" where
  "assert_ownership S A all_keys b = do {
     (keys, ids) \<leftarrow> own_levels A b Bid (levels_of S (ob_store b) Bid) [] [];
     (keys, ids) \<leftarrow> own_levels A b Ask (levels_of S (ob_store b) Ask) keys ids;
     assert_that (length keys = length (all_keys (ob_nodes b)));
     assert_that (\<forall>key\<in>set (all_keys (ob_nodes b)). key \<in> set keys);
     ids \<leftarrow> own_stop_levels b Bid (stop_bids b) ids;
     ids \<leftarrow> own_stop_levels b Ask (stop_asks b) ids;
     assert_that (length ids = length (ob_index b))
   }"

lemma UN_side: "(\<Union>sd. f sd) = f Bid \<union> f Ask"
  by (auto; metis side.exhaust)

text \<open>What is relied on of the iteration over the arena: every live key, once.\<close>

definition lists_keys :: "('m, 'k) arena_ops \<Rightarrow> ('m \<Rightarrow> 'k list) \<Rightarrow> bool" where
  "lists_keys A all_keys \<longleftrightarrow> (\<forall>m. distinct (all_keys m) \<and> set (all_keys m) = dom (arena_get A m))"

section \<open>When the loops pass\<close>

lemma distinct_first: "distinct (xs @ ys @ zs) \<Longrightarrow> distinct (xs @ zs)"
  by auto

lemma distinct_push: "distinct (xs @ ys @ zs) \<Longrightarrow> distinct (ys @ rev xs @ zs)"
  by auto

lemma own_orders_ok:
  assumes "distinct (map fst rows @ keys)" and "distinct (map (order_id \<circ> snd) rows @ ids)"
    and "\<And>key ord. (key, ord) \<in> set rows \<Longrightarrow> order_side ord = sd \<and> limit_price (otype ord) = Some p \<and>
      remaining_quantity ord \<noteq> 0 \<and> hm_get (ob_index b) (order_id ord) = Some (Book_Address sd p key)"
  shows "own_orders b sd p rows keys ids =
    Some (rev (map fst rows) @ keys, rev (map (order_id \<circ> snd) rows) @ ids)"
  using assms
proof (induction rows arbitrary: keys ids)
  case (Cons row rows)
  obtain key ord where row: "row = (key, ord)" by (cases row)
  have "own_orders b sd p rows (key # keys) (order_id ord # ids) =
      Some (rev (map fst rows) @ key # keys, rev (map (order_id \<circ> snd) rows) @ order_id ord # ids)"
    using Cons.prems by (intro Cons.IH) (auto simp: row)
  then show ?case using Cons.prems(1,2) Cons.prems(3) [of key ord] by (simp add: row)
qed simp

lemma own_levels_ok:
  assumes "distinct (map fst (concat (map rows ls)) @ keys)"
    and "distinct (map (order_id \<circ> snd) (concat (map rows ls)) @ ids)"
    and "\<And>l. l \<in> set ls \<Longrightarrow> bl_side l = sd \<and> \<not> book_level_is_empty l \<and>
      links_are_consistent A (bl_queue l) (ob_nodes b) \<and> iter_with_keys A (bl_queue l) (ob_nodes b) = Some (rows l)"
    and "\<And>l key ord. l \<in> set ls \<Longrightarrow> (key, ord) \<in> set (rows l) \<Longrightarrow>
      order_side ord = sd \<and> limit_price (otype ord) = Some (bl_price l) \<and> remaining_quantity ord \<noteq> 0 \<and>
      hm_get (ob_index b) (order_id ord) = Some (Book_Address sd (bl_price l) key)"
  shows "own_levels A b sd ls keys ids =
    Some (rev (map fst (concat (map rows ls))) @ keys, rev (map (order_id \<circ> snd) (concat (map rows ls))) @ ids)"
  using assms
proof (induction ls arbitrary: keys ids)
  case (Cons l ls)
  let ?i = "order_id \<circ> snd"
  have keys: "distinct (map fst (rows l) @ map fst (concat (map rows ls)) @ keys)"
    and ids: "distinct (map ?i (rows l) @ map ?i (concat (map rows ls)) @ ids)"
    using Cons.prems(1,2) by (simp_all add: comp_def)
  have "own_orders b sd (bl_price l) (rows l) keys ids = Some (rev (map fst (rows l)) @ keys, rev (map ?i (rows l)) @ ids)"
    by (rule own_orders_ok [OF distinct_first [OF keys] distinct_first [OF ids]]) (rule Cons.prems(4) [OF list.set_intros(1)])
  moreover have "own_levels A b sd ls (rev (map fst (rows l)) @ keys) (rev (map ?i (rows l)) @ ids) =
      Some (rev (map fst (concat (map rows ls))) @ rev (map fst (rows l)) @ keys,
        rev (map ?i (concat (map rows ls))) @ rev (map ?i (rows l)) @ ids)"
    by (rule Cons.IH [OF distinct_push [OF keys] distinct_push [OF ids]]) (rule Cons.prems(3,4) [OF list.set_intros(2)]; assumption)+
  ultimately show ?case using Cons.prems(3) [of l] by simp
qed simp

lemma own_stops_ok:
  assumes "distinct (map order_id ords @ ids)"
    and "\<And>ord. ord \<in> set ords \<Longrightarrow>
      order_side ord = sd \<and> hm_get (ob_index b) (order_id ord) = Some (Stop_Address sd t)"
  shows "own_stops b sd t ords ids = Some (rev (map order_id ords) @ ids)"
  using assms
proof (induction ords arbitrary: ids)
  case (Cons ord ords)
  then have "own_stops b sd t ords (order_id ord # ids) = Some (rev (map order_id ords) @ order_id ord # ids)"
    by (intro Cons.IH) auto
  then show ?case using Cons.prems by simp
qed simp

lemma own_stop_levels_ok:
  assumes "distinct (map order_id (ladder_orders stops) @ ids)"
    and "\<And>t ords. (t, ords) \<in> set stops \<Longrightarrow> ords \<noteq> [] \<and> (\<forall>ord\<in>set ords.
      order_side ord = sd \<and> hm_get (ob_index b) (order_id ord) = Some (Stop_Address sd t))"
  shows "own_stop_levels b sd stops ids = Some (rev (map order_id (ladder_orders stops)) @ ids)"
  using assms
proof (induction stops arbitrary: ids)
  case (Cons level stops)
  obtain t ords where level: "level = (t, ords)" by (cases level)
  have "own_stops b sd t ords ids = Some (rev (map order_id ords) @ ids)"
    using Cons.prems by (intro own_stops_ok) (auto simp: level)
  moreover have "own_stop_levels b sd stops (rev (map order_id ords) @ ids) =
      Some (rev (map order_id (ladder_orders stops)) @ rev (map order_id ords) @ ids)"
    using Cons.prems by (intro Cons.IH) (auto simp: level)
  ultimately show ?case using Cons.prems(2) [of t ords] by (simp add: level)
qed simp

section \<open>A consistent book passes\<close>

context book_engine begin

lemma level_rows:
  assumes "book_rel S ok covers A b K" and "l \<in> set (levels_of S (ob_store b) sd)"
  shows "bl_side l = sd" and "\<not> book_level_is_empty l"
    and "links_are_consistent A (bl_queue l) (ob_nodes b)"
    and "iter_with_keys A (bl_queue l) (ob_nodes b) =
      Some (map (\<lambda>k. (k, the (order_at (arena_get A (ob_nodes b)) k))) (K sd (bl_price l)))"
    and "K sd (bl_price l) \<noteq> []"
proof -
  note bk = book_relD [OF assms(1)]
  have look: "lookup_level S (ob_store b) sd (bl_price l) = Some l" using levels_mem [OF bk(1)] assms(2) by simp
  note queue = levels_relD(2) [OF bk(5) look]
  show keys: "K sd (bl_price l) \<noteq> []" using levels_relD(1) [OF bk(5), of sd "bl_price l"] look by simp
  show "bl_side l = sd" by (rule levels_bl_side [OF bk(1) assms(2)])
  show "\<not> book_level_is_empty l" using queue_ok_empty [OF queue] keys by (simp add: book_level_is_empty_def)
  show "links_are_consistent A (bl_queue l) (ob_nodes b)" by (rule queue_ok_consistent [OF queue])
  show "iter_with_keys A (bl_queue l) (ob_nodes b) =
      Some (map (\<lambda>k. (k, the (order_at (arena_get A (ob_nodes b)) k))) (K sd (bl_price l)))"
    by (rule iter_with_keys_spec [OF queue])
qed

lemma ownership_holds:
  assumes "book_rel S ok covers A b K" and "lists_keys A all_keys"
  shows "assert_ownership S A all_keys b = Some ()"
proof -
  let ?O = "order_at (arena_get A (ob_nodes b))"
  let ?lv = "levels_of S (ob_store b)"
  define rows where "rows sd l = map (\<lambda>k. (k, the (?O k))) (K sd (bl_price l))" for sd and l :: "'k book_level"
  define all where "all sd = concat (map (rows sd) (?lv sd))" for sd
  note bk = book_relD [OF assms(1)] and level = level_rows [OF assms(1)]
  have orders: "map snd (all sd) = ladder_orders (ladder_of S A b sd)" for sd
  proof -
    have "map snd (rows sd l) = the (queue_iter A (bl_queue l) (ob_nodes b))" if "l \<in> set (?lv sd)" for l
      using level(4) [OF that] by (simp add: rows_def queue_iter_def comp_def)
    then show ?thesis by (simp add: all_def ladder_orders_def ladder_of_def map_concat comp_def cong: map_cong)
  qed
  have ids: "map (order_id \<circ> snd) (all sd) = map order_id (ladder_orders (ladder_of S A b sd))" for sd
    unfolding orders [symmetric] by simp
  note unique = ids_unique [OF assms(1), unfolded ab_orders_def abs_of_simps]
  have keyed: "map (order_id \<circ> snd) (all sd) = map (order_id \<circ> the \<circ> ?O) (map fst (all sd))" for sd
    by (auto simp: all_def rows_def map_concat comp_def)
  have "distinct (map (order_id \<circ> the \<circ> ?O) (map fst (all Ask) @ map fst (all Bid)))"
    using unique unfolding map_append keyed [symmetric] ids by auto
  then have keys: "distinct (map fst (all Ask) @ map fst (all Bid))" by (simp only: distinct_map)
  have side: "fst ` set (all sd) = (\<Union>p. set (K sd p))" for sd
  proof -
    have "\<exists>l\<in>set (?lv sd). bl_price l = p" if "k \<in> set (K sd p)" for k p
    proof -
      from that obtain l where "lookup_level S (ob_store b) sd p = Some l"
        using levels_relD(1) [OF bk(5), of sd p] by fastforce
      with level_wf [OF bk(1)] levels_mem [OF bk(1)] show ?thesis by metis
    qed
    then have "(\<Union>l\<in>set (?lv sd). set (K sd (bl_price l))) = (\<Union>p. set (K sd p))" by blast
    moreover have "fst ` set (rows sd l) = set (K sd (bl_price l))" for l
      by (force simp: rows_def)
    ultimately show ?thesis by (simp add: all_def image_UN)
  qed
  have row: "order_side ord = sd \<and> limit_price (otype ord) = Some (bl_price l) \<and> remaining_quantity ord \<noteq> 0 \<and>
      hm_get (ob_index b) (order_id ord) = Some (Book_Address sd (bl_price l) key)"
    if "(key, ord) \<in> set (rows sd l)" for key ord sd l
  proof -
    from that have "key \<in> set (K sd (bl_price l))" "ord = the (?O key)" by (auto simp: rows_def)
    with orders_relD(3) [OF bk(6), of key sd "bl_price l"]
    show ?thesis unfolding index_relD [OF bk(8)] by (auto simp: resting_def tradable_def)
  qed
  have walk: "own_levels A b sd (?lv sd) ks js =
      Some (rev (map fst (all sd)) @ ks, rev (map (order_id \<circ> snd) (all sd)) @ js)"
    if "distinct (map fst (all sd) @ ks)" "distinct (map (order_id \<circ> snd) (all sd) @ js)" for sd ks js
    unfolding all_def
    by (rule own_levels_ok [OF that [unfolded all_def]], simp add: level rows_def, rule row)
  let ?keys = "rev (map fst (all Ask)) @ rev (map fst (all Bid))"
  let ?ids = "rev (map (order_id \<circ> snd) (all Ask)) @ rev (map (order_id \<circ> snd) (all Bid))"
  have bids: "own_levels A b Bid (?lv Bid) [] [] =
      Some (rev (map fst (all Bid)), rev (map (order_id \<circ> snd) (all Bid)))"
    using walk [of Bid "[]" "[]"] keys unique by (simp add: ids)
  have asks: "own_levels A b Ask (?lv Ask) (rev (map fst (all Bid))) (rev (map (order_id \<circ> snd) (all Bid))) =
      Some (?keys, ?ids)"
    by (rule walk) (use keys unique in \<open>auto simp: ids simp del: set_map\<close>)
  have "set ?keys = keys_of K"
    by (simp add: side keys_of_def UN_side Un_commute)
  then have nodes: "set ?keys = set (all_keys (ob_nodes b))"
    using orders_relD(2) [OF bk(6)] assms(2) by (simp add: lists_keys_def)
  have len: "length ?keys = length (all_keys (ob_nodes b))"
    using nodes keys assms(2) distinct_card [of ?keys] distinct_card [of "all_keys (ob_nodes b)"]
    by (auto simp: lists_keys_def)
  have stops: "own_stop_levels b sd (stops_of b sd) ids =
      Some (rev (map order_id (ladder_orders (stops_of b sd))) @ ids)"
    if "distinct (map order_id (ladder_orders (stops_of b sd)) @ ids)" for sd ids
    by (rule own_stop_levels_ok [OF that])
      (use stops_relD [OF bk(7)] bt_get_eq_Some [OF stops_relD(1) [OF bk(7)]] index_relD [OF bk(8)] in
        \<open>auto simp: parked_def\<close>)
  note stops_bid = stops [of Bid ?ids] and stops_ask = stops [of Ask "rev (map order_id (ladder_orders (stops_of b Bid))) @ ?ids"]
  have sb: "own_stop_levels b Bid (stop_bids b) ?ids = Some (rev (map order_id (ladder_orders (stop_bids b))) @ ?ids)"
    using stops_bid unique by (auto simp: ids stops_of_def simp del: set_map)
  have sa: "own_stop_levels b Ask (stop_asks b) (rev (map order_id (ladder_orders (stop_bids b))) @ ?ids) =
      Some (rev (map order_id (ladder_orders (stop_asks b))) @ rev (map order_id (ladder_orders (stop_bids b))) @ ?ids)"
    using stops_ask unique by (auto simp: ids stops_of_def simp del: set_map)
  have "length (ob_index b) = length (map order_id (ladder_orders (stop_asks b))) +
      length (map order_id (ladder_orders (stop_bids b))) + length ?ids"
    using order_count_eq [OF assms(1)] arg_cong [OF ids, of length]
    by (simp add: order_count_def ab_orders_def stops_of_def)
  then show ?thesis
    using bids asks nodes len sb sa unfolding assert_ownership_def by simp
qed

end

end
