(* ===== verification/Exercise.thy ===== *)
theory Exercise
  imports Ownership_Oracle Fifo_Matcher Pro_Rata_Matcher Time_Pro_Rata_Matcher
begin

text \<open>
  The driver of the randomised test, \<open>exercise\<close> of \<^verbatim>\<open>src/src/orderbook.rs\<close>: a book on any store
  with any policy, a sequence of operations made from numbers, the oracle after each, and at the end
  a clone of the book emptied order by order. A clone is the same value, and a value does not change.
\<close>

section \<open>The driver\<close>

definition arena_test_spec :: "instrument_spec option" where
  "arena_test_spec = do {
     spec \<leftarrow> cents;
     unwrap (with_price_range spec (px 90) (Some (px 110)) :: unit spec_error + instrument_spec)
   }"

type_synonym operation = "8 word \<times> bool \<times> u64 \<times> u64 \<times> 8 word"

definition operation_type :: "8 word \<Rightarrow> price \<Rightarrow> order_type" where
  "operation_type kind p =
     (if kind = 1 then Market
      else if kind = 2 then limit_ioc p
      else if kind = 3 then limit_fok p
      else if kind = 4 then stop_market p
      else if kind = 5 then StopLimit p p GTC
      else limit_gtc p)"

definition operation_order :: "nat \<Rightarrow> operation \<Rightarrow> order option" where
  "operation_order step oper = (case oper of (kind, bid, p, n, c) \<Rightarrow>
     build (with_exchange_id (with_timestamp (with_client_id (with_quantity (with_order_type
       (with_side (builder 0) (if bid then Bid else Ask)) (operation_type kind (px p))) (test_qty n))
       (decimal_digits (unat c))) (of_nat step)) ''assigned-by-submit''))"

text \<open>One operation: the identifiers handed out so far include filled and cancelled ones.\<close>

definition exercise_step ::
    "('s, 'k) store_ops \<Rightarrow> ('m, 'k) arena_ops \<Rightarrow> nat \<Rightarrow> operation \<Rightarrow> exchange_id list \<Rightarrow>
       ('s, 'm, 'k) order_book \<Rightarrow> (exchange_id list \<times> ('s, 'm, 'k) order_book) option" where
  "exercise_step S A step oper submitted b =
     (if fst oper = 0 \<and> submitted \<noteq> []
      then do {
        let i = submitted ! (step mod length submitted);
        let expected = (get_order A b i \<noteq> None);
        (r, b) \<leftarrow> cancel_order S A b i;
        assert_that ((unwrap r \<noteq> None) = expected);
        Some (submitted, b)
      }
      else do {
        incoming \<leftarrow> operation_order step oper;
        (r, b) \<leftarrow> submit S A b incoming;
        report \<leftarrow> unwrap r;
        Some (submitted @ [report_id report], b)
      })"

fun exercise_ops ::
    "('s, 'k) store_ops \<Rightarrow> ('m, 'k) arena_ops \<Rightarrow> ('m \<Rightarrow> 'k list) \<Rightarrow> nat \<Rightarrow> operation list \<Rightarrow>
       exchange_id list \<Rightarrow> ('s, 'm, 'k) order_book \<Rightarrow> ('s, 'm, 'k) order_book option" where
  "exercise_ops S A all_keys step [] submitted b = Some b"
| "exercise_ops S A all_keys step (oper # ops) submitted b = do {
     (submitted, b) \<leftarrow> exercise_step S A step oper submitted b;
     assert_ownership S A all_keys b;
     (if step mod 13 = 0 then assert_ownership S A all_keys b else Some ());
     exercise_ops S A all_keys (Suc step) ops submitted b
   }"

fun drain_book ::
    "('s, 'k) store_ops \<Rightarrow> ('m, 'k) arena_ops \<Rightarrow> ('m \<Rightarrow> 'k list) \<Rightarrow> exchange_id list \<Rightarrow>
       ('s, 'm, 'k) order_book \<Rightarrow> ('s, 'm, 'k) order_book option" where
  "drain_book S A all_keys [] b = Some b"
| "drain_book S A all_keys (i # is) b = do {
     (r, b) \<leftarrow> cancel_order S A b i;
     unwrap r;
     assert_ownership S A all_keys b;
     drain_book S A all_keys is b
   }"

fun owned_levels :: "('m, 'k) arena_ops \<Rightarrow> ('m, 'k) level_view list \<Rightarrow> price_level list option" where
  "owned_levels A [] = Some []"
| "owned_levels A (v # vs) = do {
     l \<leftarrow> view_to_owned A v;
     ls \<leftarrow> owned_levels A vs;
     Some (l # ls)
   }"

definition exercise ::
    "('s, 'k) store_ops \<Rightarrow> ('m, 'k) arena_ops \<Rightarrow> ('m \<Rightarrow> 'k list) \<Rightarrow> matcher \<Rightarrow> operation list \<Rightarrow> unit option" where
  "exercise S A all_keys mtch ops = do {
     spec \<leftarrow> arena_test_spec;
     r \<leftarrow> try_new S A spec mtch;
     b \<leftarrow> unwrap r;
     b \<leftarrow> exercise_ops S A all_keys 0 ops [] b;
     before \<leftarrow> owned_levels A (book_levels S b Bid @ book_levels S b Ask);
     let stops_before = (stop_bids b, stop_asks b);
     clone \<leftarrow> drain_book S A all_keys (order_ids b) b;
     assert_that (all_keys (ob_nodes clone) = []);
     assert_that (order_count clone = 0);
     after \<leftarrow> owned_levels A (book_levels S b Bid @ book_levels S b Ask);
     assert_that (before = after);
     assert_that (stops_before = (stop_bids b, stop_asks b));
     assert_ownership S A all_keys b
   }"

text \<open>
  The randomised test itself, with the crate's own stores and policies. The arena and the reservations
  of the ladder are parameters.
\<close>

definition exercise_stores ::
    "('m, 'k) arena_ops \<Rightarrow> ('m \<Rightarrow> 'k list) \<Rightarrow> (usize \<Rightarrow> bool) \<Rightarrow> (usize \<Rightarrow> bool) \<Rightarrow> matcher \<Rightarrow>
       operation list \<Rightarrow> unit option" where
  "exercise_stores A all_keys rb ra mtch ops = do {
     exercise btree_store A all_keys mtch ops;
     exercise (ladder_store rb ra) A all_keys mtch ops;
     exercise hash_store A all_keys mtch ops
   }"

definition mixed_operations_preserve_shared_arena_ownership ::
    "('m, 'k) arena_ops \<Rightarrow> ('m \<Rightarrow> 'k list) \<Rightarrow> (usize \<Rightarrow> bool) \<Rightarrow> (usize \<Rightarrow> bool) \<Rightarrow>
       operation list \<Rightarrow> unit option" where
  "mixed_operations_preserve_shared_arena_ownership A all_keys rb ra ops = do {
     exercise_stores A all_keys rb ra fifo_matcher ops;
     pro_rata \<leftarrow> pro_rata_new 1;
     exercise_stores A all_keys rb ra pro_rata ops;
     t \<leftarrow> time_pro_rata_new 1;
     exercise_stores A all_keys rb ra (time_pro_rata_matcher t) ops
   }"

section \<open>Every run passes\<close>

lemma arena_test_spec_value:
  "arena_test_spec = Some \<lparr>price_scale = 2, qty_scale = 0, tick_size = 1, lot_size = 1, min_price = Price 90,
     max_price = Some (Price 110), min_qty = Qty 1, max_qty = None, min_notional = None\<rparr>"
  by code_simp

definition operation_ok :: "operation \<Rightarrow> bool" where
  "operation_ok oper \<longleftrightarrow> (case oper of (kind, bid, p, n, c) \<Rightarrow>
     90 \<le> p \<and> p \<le> 110 \<and> n \<noteq> 0)"

lemma operation_admitted:
  assumes "operation_ok oper" and "arena_test_spec = Some spec"
  shows "\<exists>ord. operation_order step oper = Some ord \<and> on_lattice spec ord \<and> admit_under spec ord = Inr ()"
proof -
  obtain kind bid p n c where oper: "oper = (kind, bid, p, n, c)" by (cases oper)
  then have p: "90 \<le> p" "p \<le> 110" and n: "n \<noteq> 0" "1 \<le> n"
    using assms(1) by (auto simp: operation_ok_def word_le_nat_alt unat_gt_0 Suc_le_eq)
  have mult: "is_multiple_of x 1" for x :: u64 by (simp add: is_multiple_of_unat)
  have kinds: "admit_prices spec (prices (operation_type kind (px p))) = Inr ()"
    "\<And>p'. limit_price (operation_type kind (px p)) = Some p' \<Longrightarrow> p' = px p"
    using assms(2) p
    by (auto simp: operation_type_def arena_test_spec_value admits_price_def px_def limit_ioc_def limit_fok_def
        stop_market_def limit_gtc_def split: if_splits)
  show ?thesis
    using assms(2) kinds n
    by (auto simp: oper operation_order_def build_def builder_def with_exchange_id_def with_timestamp_def
        with_client_id_def with_quantity_def with_order_type_def with_side_def test_qty_def arena_test_spec_value
        on_lattice_def tradable_def mult admit_under_def admits_qty_def admits_notional_def zero_qty_def split: option.split)
qed

text \<open>What a run keeps: consistency, identifiers from the sequence, and room for the operations to come.\<close>

definition run_ok ::
    "('s, 'k) store_ops \<Rightarrow> ('s \<Rightarrow> bool) \<Rightarrow> ('s \<Rightarrow> price \<Rightarrow> bool) \<Rightarrow> ('m, 'k) arena_ops \<Rightarrow> instrument_spec \<Rightarrow>
       nat \<Rightarrow> ('s, 'm, 'k) order_book \<Rightarrow> bool" where
  "run_ok S ok covers A spec n b \<longleftrightarrow>
     book_ok S ok covers A b \<and> ob_spec b = spec \<and> ids_drawn (abs_of S A b) \<and> room (abs_of S A b) n"

context book_engine begin

lemma perform_run_ok:
  assumes "run_ok S ok covers A spec (Suc n) b" and "command_ok spec c" and "\<not> is_add c"
  shows "\<exists>b'. perform S A b c = Some (fst (spec_perform (abs_of S A b) c), b') \<and>
    abs_of S A b' = snd (spec_perform (abs_of S A b) c) \<and> run_ok S ok covers A spec n b'"
proof -
  have b: "book_ok S ok covers A b" "ob_spec b = spec" "ids_drawn (abs_of S A b)" "room (abs_of S A b) (Suc n)"
    using assms(1) by (simp_all add: run_ok_def)
  then have "load (abs_of S A b) + 1 < 2 ^ 32" by (simp add: room_def)
  from perform_refines [OF b(1) _ this, of c] assms(2) b(2) obtain b' where
    b': "perform S A b c = Some (fst (spec_perform (abs_of S A b) c), b')" "book_ok S ok covers A b'"
      "abs_of S A b' = snd (spec_perform (abs_of S A b) c)" by blast
  have "ob_spec b' = spec"
    using b'(3) fixed_spec_perform(1) [of "abs_of S A b" c] b(2) by (metis abs_of_simps(6))
  moreover have "room (abs_of S A b') n"
    using b(4) spec_perform_load [of "abs_of S A b" c] fixed_spec_perform(3) [of "abs_of S A b" c]
      stops_bt_ok [OF b(1)] unfolding b'(3) by (simp add: room_def)
  moreover have "ids_drawn (abs_of S A b')"
  proof (cases c)
    case (Submit ord)
    have "represented S ok covers A (abs_of S A b)" using b(1) by (auto simp: represented_def)
    from submit_step [OF this _ _ b(3), of ord] Submit assms(2) b(2,4) show ?thesis
      by (simp add: b'(3) room_def)
  next
    case (Cancel i)
    have "ids_drawn (snd (spec_cancel (abs_of S A b) i))"
      by (rule ids_drawnI [OF b(3) spec_cancel_live]) (simp_all add: spec_cancel_def)
    with Cancel show ?thesis by (simp add: b'(3))
  qed (use assms(3) in simp)
  ultimately show ?thesis using b' by (auto simp: run_ok_def)
qed

lemma get_order_live:
  assumes "book_ok S ok covers A b"
  shows "get_order A b i = None \<longleftrightarrow> \<not> is_live (abs_of S A b) i"
proof -
  obtain K where "book_rel S ok covers A b K" using assms by (auto simp: book_ok_def)
  note found = get_order_iff [OF this, of i]
  show ?thesis
  proof (cases "get_order A b i")
    case None
    with found have "ord \<notin> set (ab_orders (abs_of S A b)) \<or> order_id ord \<noteq> i" for ord by auto
    with None show ?thesis by (auto simp: is_live_def)
  next
    case (Some ord)
    with found [of ord] show ?thesis by (auto simp: is_live_def)
  qed
qed

lemma exercise_step_passes:
  assumes "run_ok S ok covers A spec (Suc n) b" and "operation_ok oper" and "arena_test_spec = Some spec"
  shows "\<exists>submitted' b'. exercise_step S A step oper submitted b = Some (submitted', b') \<and> run_ok S ok covers A spec n b'"
proof -
  have b: "book_ok S ok covers A b" "ob_spec b = spec" "ids_drawn (abs_of S A b)" "room (abs_of S A b) (Suc n)"
    using assms(1) by (simp_all add: run_ok_def)
  show ?thesis
  proof (cases "fst oper = 0 \<and> submitted \<noteq> []")
    case True
    let ?i = "submitted ! (step mod length submitted)"
    from perform_run_ok [OF assms(1), of "Cancel ?i"] obtain b' where
      b': "cancel_order S A b ?i = Some (fst (spec_cancel (abs_of S A b) ?i), b')" "run_ok S ok covers A spec n b'" by auto
    moreover have "unwrap (fst (spec_cancel (abs_of S A b) ?i)) \<noteq> None \<longleftrightarrow> get_order A b ?i \<noteq> None"
      by (simp add: spec_cancel_def get_order_live [OF b(1)])
    ultimately show ?thesis using True by (simp add: exercise_step_def)
  next
    case False
    from operation_admitted [OF assms(2,3), of step] obtain ord where
      ord: "operation_order step oper = Some ord" "on_lattice spec ord" "admit_under spec ord = Inr ()" by blast
    from perform_run_ok [OF assms(1), of "Submit ord"] ord(2) obtain b' where
      b': "submit S A b ord = Some (fst (spec_submit (abs_of S A b) ord), b')" "run_ok S ok covers A spec n b'" by auto
    have "represented S ok covers A (abs_of S A b)" using b(1) by (auto simp: represented_def)
    from spec_submit_facts(1) [OF this _ _ ids_drawn_fresh [OF b(3)], of ord] ord b(2,4) obtain report where
      "fst (spec_submit (abs_of S A b) ord) = Inr report" by (auto simp: room_def)
    with ord(1) b' False show ?thesis by (auto simp: exercise_step_def)
  qed
qed

lemma run_ok_owned: "run_ok S ok covers A spec n b \<Longrightarrow> lists_keys A all_keys \<Longrightarrow> assert_ownership S A all_keys b = Some ()"
  using ownership_holds by (auto simp: run_ok_def book_ok_def)

lemma exercise_ops_passes:
  assumes "arena_test_spec = Some spec" and "lists_keys A all_keys"
  shows "run_ok S ok covers A spec (length ops + n) b \<Longrightarrow> \<forall>oper\<in>set ops. operation_ok oper \<Longrightarrow>
    \<exists>b'. exercise_ops S A all_keys step ops submitted b = Some b' \<and> run_ok S ok covers A spec n b'"
proof (induction ops arbitrary: b step submitted)
  case (Cons oper ops)
  with exercise_step_passes [of spec "length ops + n" b oper step submitted] assms(1) obtain submitted' b' where
    "exercise_step S A step oper submitted b = Some (submitted', b')" "run_ok S ok covers A spec (length ops + n) b'" by auto
  with Cons.IH [of b' "Suc step" submitted'] Cons.prems(2) run_ok_owned [OF _ assms(2)] show ?case by simp
qed simp

text \<open>Emptying a book through its identifiers.\<close>

lemma drain_passes:
  assumes "lists_keys A all_keys"
  shows "book_ok S ok covers A b \<Longrightarrow> distinct is \<Longrightarrow> (\<And>i. is_live (abs_of S A b) i \<longleftrightarrow> i \<in> set is) \<Longrightarrow>
    \<exists>b'. drain_book S A all_keys is b = Some b' \<and> book_ok S ok covers A b' \<and> ab_orders (abs_of S A b') = []"
proof (induction "is" arbitrary: b)
  case Nil
  then have "order_id ` set (ab_orders (abs_of S A b)) = {}" unfolding is_live_def empty_set by blast
  with Nil(1) show ?case by simp
next
  case (Cons i js)
  from cancel_order_refines [OF Cons.prems(1), of i] obtain b' where
    b': "cancel_order S A b i = Some (fst (spec_cancel (abs_of S A b) i), b')" "book_ok S ok covers A b'"
      "abs_of S A b' = snd (spec_cancel (abs_of S A b) i)" by blast
  have "is_live (abs_of S A b) i" using Cons.prems(3) by simp
  then have "fst (spec_cancel (abs_of S A b) i) = Inr ()" by (simp add: spec_cancel_def)
  moreover have "is_live (abs_of S A b') j \<longleftrightarrow> j \<in> set js" for j
    using Cons.prems(2) Cons.prems(3) [of j] unfolding b'(3) is_live_def ab_orders_cancel by auto
  moreover have "assert_ownership S A all_keys b' = Some ()"
    using ownership_holds [OF _ assms] b'(2) by (auto simp: book_ok_def)
  ultimately show ?case using Cons.IH [OF b'(2)] Cons.prems(2) b'(1) by simp
qed

lemma owned_levels_total:
  assumes "book_rel S ok covers A b K"
  shows "\<exists>ls. owned_levels A (book_levels S b Bid @ book_levels S b Ask) = Some ls"
proof -
  have views: "\<exists>ls. owned_levels A (vs @ ws) = Some ls"
    if "\<forall>v\<in>set vs. view_to_owned A v \<noteq> None" "\<forall>v\<in>set ws. view_to_owned A v \<noteq> None" for vs ws
  proof -
    have "\<exists>ls. owned_levels A us = Some ls" if "\<forall>v\<in>set us. view_to_owned A v \<noteq> None" for us
      using that by (induction us) auto
    from this [of "vs @ ws"] that show ?thesis by auto
  qed
  have "view_to_owned A v \<noteq> None" if "v \<in> set (book_levels S b sd)" for v sd
    using that level_rows(4) [OF assms, of _ sd]
    by (auto simp: book_levels_def view_to_owned_def view_orders_def view_new_def queue_iter_def)
  then show ?thesis by (intro views) blast+
qed

lemma exercise_passes:
  assumes "lists_keys A all_keys" and "arena_test_spec = Some spec" and "try_new S A spec mtch = Some (Inr b0)"
    and "matching_algorithm mtch 1" and "\<forall>oper\<in>set ops. operation_ok oper" and "length ops + 1 < 2 ^ 32"
  shows "exercise S A all_keys mtch ops = Some ()"
proof -
  have "spec_ok spec" "lot_size spec = 1"
    using assms(2) by (auto simp: arena_test_spec_value spec_ok_def is_multiple_of_unat)
  from try_new_ok [OF this(1) _ assms(3), folded empty_abs_def] this(2) assms(4)
  have b0: "book_ok S ok covers A b0" "abs_of S A b0 = empty_abs spec mtch" by simp_all
  then have "ob_spec b0 = spec" by (metis abs_of_simps(6) empty_abs_simps(6))
  moreover have "ids_drawn (empty_abs spec mtch)" by (simp add: ids_drawn_def is_live_def ab_orders_def)
  ultimately have "run_ok S ok covers A spec (length ops + 0) b0"
    using b0 room_empty [OF assms(6)] by (simp add: run_ok_def)
  from exercise_ops_passes [OF assms(2,1) this assms(5), of 0 "[]"] obtain b where
    b: "exercise_ops S A all_keys 0 ops [] b0 = Some b" "run_ok S ok covers A spec 0 b" by blast
  then obtain K where ok: "book_ok S ok covers A b" and K: "book_rel S ok covers A b K"
    by (auto simp: run_ok_def book_ok_def)
  obtain ls where ls: "owned_levels A (book_levels S b Bid @ book_levels S b Ask) = Some ls"
    using owned_levels_total [OF K] by blast
  have "hm_ok (ob_index b)" using book_relD(8) [OF K] by (simp add: index_rel_def)
  then have "distinct (order_ids b)" by (simp add: order_ids_def hm_ok_def hm_keys_def)
  moreover have "is_live (abs_of S A b) i \<longleftrightarrow> i \<in> set (order_ids b)" for i
    unfolding is_live_iff [OF K] by (auto simp: order_ids_def hm_keys_set)
  ultimately obtain b' where b': "drain_book S A all_keys (order_ids b) b = Some b'" "book_ok S ok covers A b'"
    "ab_orders (abs_of S A b') = []" using drain_passes [OF assms(1) ok] by blast
  then obtain K' where K': "book_rel S ok covers A b' K'" by (auto simp: book_ok_def)
  have "k \<notin> set (K' sd p)" for k sd p
    using ladder_orders_set [OF book_relD(1,5) [OF K'], of sd] b'(3) by (cases sd) (auto simp: ab_orders_def)
  then have "keys_of K' = {}" unfolding keys_of_def by blast
  then have "set (all_keys (ob_nodes b')) = {}"
    using orders_relD(2) [OF book_relD(6) [OF K']] assms(1) unfolding lists_keys_def dom_order_at by metis
  then have "all_keys (ob_nodes b') = []" by simp
  moreover have "order_count b' = 0" using order_count_eq [OF K'] b'(3) by simp
  ultimately show ?thesis
    unfolding exercise_def assms(2) Option.bind.bind_lunit assms(3) unwrap_simps b(1) ls b'(1)
    using run_ok_owned [OF b(2) assms(1)] by simp
qed

end

section \<open>On the stores of the crate\<close>

definition slot_keys :: "slots \<Rightarrow> slot_key list" where
  "slot_keys m = filter (\<lambda>k. slot_get m k \<noteq> None) (map (key_at m) [0..<length m])"

lemma slot_keys_ok: "lists_keys slot_arena slot_keys"
  by (auto simp: lists_keys_def slot_keys_def slot_arena_def slot_get_Some distinct_map key_at_inj key_at_def)

text \<open>
  C23. The ownership oracle of the tests accepts every book in a consistent state, and still accepts it
  after any sequence of submissions, additions and cancellations whose orders are on the lattice
  (\<open>command_ok\<close>) and for which arrival stamps are left: each arena node is linked into exactly one
  level, on its own side and price, and is found by the index under its identifier; no node, index
  entry or stop is orphaned; no identifier is live twice. (An order added with nothing left to trade is
  outside the premise, and the oracle rightly refuses it.)
\<close>

theorem ownership_oracle_accepts:
  assumes "engine_state S A b" and "lists_keys A all_keys"
    and "\<forall>c\<in>set cs. command_ok (ob_spec b) c" and "room (abs_of S A b) (length cs)"
  shows "assert_ownership S A all_keys b = Some () \<and>
    (\<exists>rs b'. session S A b cs = Some (rs, b') \<and> assert_ownership S A all_keys b' = Some ())"
proof -
  have accepts: "assert_ownership S A all_keys x = Some ()" if "engine_state S A x" for x
  proof (rule engine_stateE [OF that])
    fix ok covers assume "book_engine S ok covers A" and "book_ok S ok covers A x"
    with book_engine.ownership_holds [OF _ _ assms(2)] show ?thesis by (auto simp: book_ok_def)
  qed
  from engine_state_session [OF assms(1,3,4)] accepts assms(1) show ?thesis by blast
qed

theorem ownership_oracle_accepts_witness:
  "assert_ownership btree_store slot_arena slot_keys sample_book = Some () \<and> order_count sample_book = 5 \<and>
   (\<exists>rs b'. session btree_store slot_arena sample_book [Submit sample_taker] = Some (rs, b') \<and>
      assert_ownership btree_store slot_arena slot_keys b' = Some ())"
proof -
  obtain K where "book_rel btree_store btree_ok (\<lambda>_ _. True) slot_arena sample_book K" by (rule sample_book_rel)
  from btree_engine.order_count_eq [OF this] have "order_count sample_book = length (ab_orders sample_abs)"
    by (simp add: sample_book_state)
  moreover have "length (ab_orders sample_abs) = 5" by code_simp
  moreover have "room (abs_of btree_store slot_arena sample_book) (length [Submit sample_taker])"
    using sample_abs_room(2) by (simp add: sample_book_state)
  ultimately show ?thesis
    using ownership_oracle_accepts [OF sample_book_state(1) slot_keys_ok, of "[Submit sample_taker]"]
      sample_taker_ok sample_book_spec(1) by simp
qed

lemma exercise_on_each_store:
  assumes "arena_laws A" and "lists_keys A all_keys" and "matching_algorithm mtch 1" and "matcher_lot_size mtch = None \<or> matcher_lot_size mtch = Some 1"
    and "\<forall>oper\<in>set ops. operation_ok oper" and "length ops + 1 < 2 ^ 32"
    and "rb 21" and "ra 21"
  shows "exercise btree_store A all_keys mtch ops = Some () \<and>
    exercise hash_store A all_keys mtch ops = Some () \<and>
    exercise (ladder_store rb ra) A all_keys mtch ops = Some ()"
proof -
  obtain spec where spec: "arena_test_spec = Some spec" using arena_test_spec_value by blast
  then have "matcher_lot_size mtch = None \<or> matcher_lot_size mtch = Some (lot_size spec)"
    using assms(4) by (auto simp: arena_test_spec_value)
  note lot = this
  obtain b where b: "try_new btree_store A spec mtch = Some (Inr b)" using btree_try_new_total [OF lot] by blast
  obtain h where h: "try_new hash_store A spec mtch = Some (Inr h)" using hash_try_new_total [OF lot] by blast
  obtain l where l: "try_new (ladder_store rb ra) A spec mtch = Some (Inr l)"
    using assms(4,7,8) spec
    by (auto simp: try_new_def ladder_try_new_def arena_test_spec_value checked_sub_def checked_div_def checked_add_def)
  show ?thesis
    using book_engine.exercise_passes [OF btree_lawful [OF assms(1)] assms(2) spec b assms(3,5,6)]
      book_engine.exercise_passes [OF hash_lawful [OF assms(1)] assms(2) spec h assms(3,5,6)]
      book_engine.exercise_passes [OF ladder_lawful [OF assms(1)] assms(2) spec l assms(3,5,6)] by blast
qed

lemma own_policies:
  "pro_rata_new 1 = Some (pro_rata_matcher 1)"
  "time_pro_rata_new 1 = Some (default_time_pro_rata 1)"
  by (simp_all add: pro_rata_new_def time_pro_rata_new_def default_time_pro_rata_def)

text \<open>
  C24. The randomised test passes on all its inputs, and beyond them: on each of the three stores, over
  any arena that keeps the documented contract and lists its keys, with any policy that honours the
  contract, and so with the crate's three, when the reservation of the 21 slots of each side of the
  ladder succeeds, and for any sequence of operations with prices inside the band and sizes above
  zero, \<open>exercise\<close> runs to its end. No submission fails, a cancellation succeeds exactly when the order
  is live, the oracle holds after every operation, and cancelling every listed identifier leaves an
  empty arena and an empty index.
\<close>

theorem exercise_never_fails:
  assumes "arena_laws A" and "lists_keys A all_keys" and "matching_algorithm mtch 1"
    and "\<forall>oper\<in>set ops. operation_ok oper" and "length ops + 1 < 2 ^ 32" and "rb 21" and "ra 21"
  shows "exercise_stores A all_keys rb ra mtch ops = Some () \<and>
    mixed_operations_preserve_shared_arena_ownership A all_keys rb ra ops = Some ()"
proof -
  have pass: "exercise_stores A all_keys rb ra x ops = Some ()" if "matching_algorithm x 1" for x
    using exercise_on_each_store [of A all_keys x ops rb ra, OF assms(1,2) that matching_algorithm.declared_lot [OF that] assms(4-7)]
    by (simp add: exercise_stores_def)
  show ?thesis
    using pass [OF assms(3)] pass [OF fifo.matching_algorithm_axioms] pass [OF pro_rata.matching_algorithm_axioms]
      pass [OF time_pro_rata.matching_algorithm_axioms]
    by (simp add: mixed_operations_preserve_shared_arena_ownership_def own_policies)
qed

text \<open>Two asks, a bid that takes one and part of the other, a stop, and a cancellation.\<close>

definition sample_operations :: "operation list" where
  "sample_operations = [(6, False, 100, 10, 0), (6, False, 101, 4, 1), (6, True, 101, 12, 2), (4, True, 105, 3, 3), (0, True, 95, 1, 0)]"

theorem exercise_never_fails_witness:
  "exercise_stores slot_arena slot_keys (\<lambda>_. True) (\<lambda>_. True) fifo_matcher sample_operations = Some () \<and>
   mixed_operations_preserve_shared_arena_ownership slot_arena slot_keys (\<lambda>_. True) (\<lambda>_. True)
     sample_operations = Some ()"
proof (rule exercise_never_fails [of slot_arena slot_keys fifo_matcher sample_operations "\<lambda>_. True" "\<lambda>_. True",
    OF slot_arena_laws slot_keys_ok fifo.matching_algorithm_axioms])
  show "\<forall>oper\<in>set sample_operations. operation_ok oper" by code_simp
  show "length sample_operations + 1 < 2 ^ 32" by (simp add: sample_operations_def)
qed simp_all

end
