(* ===== verification/Age_Priority.thy ===== *)
theory Age_Priority
  imports Time_Pro_Rata_Matcher
begin

text \<open>
  What \<open>TimeProRataMatcher\<close> exists for: of two makers of equal size, the one that arrived earlier, and so
  stands earlier in the queue, gets no less than the other, whatever else the level holds. Every stage
  of the allocation keeps the two shares in that order: the capping of the water-fill, the commit of
  the floored shares and the sweep of the crumbs.
\<close>

section \<open>Older makers weigh no less\<close>

text \<open>Two makers of one size, the first earlier in the queue and by its arrival.\<close>

definition elder :: "maker list \<Rightarrow> nat \<Rightarrow> nat \<Rightarrow> bool" where
  "elder makers i j \<longleftrightarrow> i < j \<and> j < length makers \<and>
     maker_remaining (makers ! i) = maker_remaining (makers ! j) \<and> maker_arrival (makers ! i) \<le> maker_arrival (makers ! j)"

lemma elderD:
  assumes "elder makers i j"
  shows "i < j" and "i < length makers" and "j < length makers"
    and "maker_remaining (makers ! j) = maker_remaining (makers ! i)" and "maker_arrival (makers ! i) \<le> maker_arrival (makers ! j)"
  using assms by (simp_all add: elder_def)

lemma age_ticks_antimono:
  assumes "tpr_ok t" and "maker_arrival m \<le> maker_arrival m'"
  shows "age_ticks t m' now \<le> age_ticks t m now"
proof -
  have "saturating_sub now (maker_arrival m') \<le> saturating_sub now (maker_arrival m)"
    using assms(2) by (simp add: word_le_nat_alt unat_saturating_sub)
  then have "saturating_sub now (maker_arrival m') div tick t \<le> saturating_sub now (maker_arrival m) div tick t"
    by (simp add: word_le_nat_alt unat_div div_le_mono)
  then show ?thesis
    using assms(1) unfolding age_ticks_def Let_def tpr_ok_def by (simp add: word_le_nat_alt word_less_nat_alt)
qed

lemma weights_antimono:
  assumes "tpr_ok t" and "elder makers i j"
  shows "weights t makers now ! j \<le> weights t makers now ! i"
proof -
  note pair = elderD [OF assms(2)]
  have "unat (raw_weight t now (makers ! j)) \<le> unat (raw_weight t now (makers ! i))"
    using age_ticks_antimono [OF assms(1) pair(5), of now] pair(4)
    by (simp add: unat_raw_weight [OF assms(1)] word_le_nat_alt)
  then have "drop_bit n (raw_weight t now (makers ! j)) \<le> drop_bit n (raw_weight t now (makers ! i))" for n
    by (simp add: word_le_nat_alt unat_drop_bit_div div_le_mono)
  then have "max (drop_bit n (raw_weight t now (makers ! j))) 1 \<le> max (drop_bit n (raw_weight t now (makers ! i))) 1" for n
    by (simp add: max.coboundedI1)
  then show ?thesis using pair(2,3) by (simp add: weights_def)
qed

section \<open>The passes keep the two shares in order\<close>

text \<open>A pass treats each row on its own.\<close>

definition cap_one :: "u128 \<Rightarrow> u128 \<Rightarrow> u128 \<times> maker \<Rightarrow> u64 \<Rightarrow> u64" where
  "cap_one pool W row s =
     (if s < base (maker_remaining (snd row)) \<and> u128_from (base (maker_remaining (snd row))) \<le> pool * fst row div W
      then base (maker_remaining (snd row)) else s)"

definition commit_one :: "u64 \<Rightarrow> u128 \<Rightarrow> u128 \<Rightarrow> u128 \<times> maker \<Rightarrow> u64 \<Rightarrow> u64" where
  "commit_one lot pool W row s =
     (if s < base (maker_remaining (snd row))
      then as_u64 ((pool * fst row div W div u128_from lot) * u128_from lot) else s)"

lemma cap_pass_map: "length rows = length ss \<Longrightarrow> fst (cap_pass pool W rows ss) = map2 (cap_one pool W) rows ss"
  by (induction pool W rows ss rule: cap_pass.induct) (auto simp: cap_one_def Let_def split: prod.splits)

lemma commit_pass_map:
  "length rows = length ss \<Longrightarrow> fst (commit_pass lot pool W rows ss) = map2 (commit_one lot pool W) rows ss"
  by (induction lot pool W rows ss rule: commit_pass.induct) (auto simp: commit_one_def simp del: commit_pass.simps(1))

text \<open>Two rows of one size whose weights fall, and shares that fall with them.\<close>

definition even_rows :: "u64 \<Rightarrow> nat \<Rightarrow> nat \<Rightarrow> (u128 \<times> maker) list \<Rightarrow> u64 list \<Rightarrow> bool" where
  "even_rows lot i j rows ss \<longleftrightarrow>
     list_all2 (filling lot) rows ss \<and> i < j \<and> j < length rows \<and>
     maker_remaining (snd (rows ! j)) = maker_remaining (snd (rows ! i)) \<and>
     fst (rows ! j) \<le> fst (rows ! i) \<and> ss ! j \<le> ss ! i"

lemma even_rowsD:
  assumes "even_rows lot i j rows ss"
  shows "length rows = length ss" and "i < length rows" and "j < length rows"
    and "maker_remaining (snd (rows ! j)) = maker_remaining (snd (rows ! i))"
    and "fst (rows ! j) \<le> fst (rows ! i)" and "ss ! j \<le> ss ! i"
    and "ss ! i = 0 \<or> ss ! i = base (maker_remaining (snd (rows ! i)))"
    and "ss ! j = 0 \<or> ss ! j = base (maker_remaining (snd (rows ! i)))"
    and "unat (fst (rows ! i)) < 2 ^ 64" and "unat (fst (rows ! j)) < 2 ^ 64"
proof -
  show len: "length rows = length ss" "i < length rows" "j < length rows"
    "maker_remaining (snd (rows ! j)) = maker_remaining (snd (rows ! i))" "fst (rows ! j) \<le> fst (rows ! i)" "ss ! j \<le> ss ! i"
    using assms by (auto simp: even_rows_def dest: list_all2_lengthD)
  have "filling lot (rows ! i) (ss ! i)" "filling lot (rows ! j) (ss ! j)"
    using assms len by (simp_all add: even_rows_def list_all2_conv_all_nth)
  then show "ss ! i = 0 \<or> ss ! i = base (maker_remaining (snd (rows ! i)))"
    "ss ! j = 0 \<or> ss ! j = base (maker_remaining (snd (rows ! i)))"
    "unat (fst (rows ! i)) < 2 ^ 64" "unat (fst (rows ! j)) < 2 ^ 64"
    using len(4) by (auto simp: filling_def)
qed

lemma share_antimono:
  assumes "w' \<le> w" and "unat w < 2 ^ 64" and "unat pool < 2 ^ 64"
  shows "unat (pool * w' div W) \<le> unat (pool * w div W :: u128)"
proof -
  have "unat w' < 2 ^ 64" using assms(1,2) by (simp add: word_le_nat_alt)
  with assms show ?thesis
    by (simp add: word_le_nat_alt unat_div unat_pool_product div_le_mono mult_le_mono2)
qed

lemma cap_pass_falls:
  assumes "even_rows lot i j rows ss" and "unat pool < 2 ^ 64"
  shows "fst (cap_pass pool W rows ss) ! j \<le> fst (cap_pass pool W rows ss) ! i"
proof -
  note rows = even_rowsD [OF assms(1)]
  have "u128_from r \<le> pool * fst (rows ! i) div W" if "u128_from r \<le> pool * fst (rows ! j) div W" for r
    using that share_antimono [OF rows(5,9) assms(2), of W] by (simp add: word_le_nat_alt)
  then have "cap_one pool W (rows ! j) (ss ! j) \<le> cap_one pool W (rows ! i) (ss ! i)"
    using rows(4,6,7,8) by (auto simp: cap_one_def word_gt_0)
  with rows(1-3) show ?thesis by (simp add: cap_pass_map)
qed

lemma none_overruns_nth:
  "none_overruns pool W rows ss \<Longrightarrow> i < length rows \<Longrightarrow> length rows = length ss \<Longrightarrow>
     ss ! i < base (maker_remaining (snd (rows ! i))) \<Longrightarrow>
     pool * unat (fst (rows ! i)) div W < units (maker_remaining (snd (rows ! i)))"
proof (induction pool W rows ss arbitrary: i rule: none_overruns.induct)
  case (1 pool W w m rows s ss)
  then show ?case by (cases i) auto
qed simp_all

lemma commit_pass_falls:
  assumes "even_rows lot i j rows ss" and "unat pool < 2 ^ 64" and "none_overruns (unat pool) (unat W) rows ss"
  shows "fst (commit_pass lot pool W rows ss) ! j \<le> fst (commit_pass lot pool W rows ss) ! i"
proof -
  note rows = even_rowsD [OF assms(1)]
  let ?r = "base (maker_remaining (snd (rows ! i)))"
  have share: "unat (commit_one lot pool W (rows ! k) (ss ! k)) =
      unat (pool * fst (rows ! k) div W) div unat lot * unat lot \<and>
      unat (pool * fst (rows ! k) div W) < unat ?r" if "k = i \<or> k = j" "ss ! k < ?r" for k
  proof -
    have k: "k < length rows" "base (maker_remaining (snd (rows ! k))) = ?r" "unat (fst (rows ! k)) < 2 ^ 64"
      using that(1) rows(2-4,9,10) by auto
    have "unat (pool * fst (rows ! k) div W) < unat ?r"
      using none_overruns_nth [OF assms(3) k(1) rows(1)] that(2) k(2,3) assms(2)
      by (simp add: unat_div unat_pool_product)
    moreover from this have "unat (pool * fst (rows ! k) div W) < 2 ^ 64"
      using unat_u64_bound [of ?r] by (simp del: unat_u64_bound)
    ultimately show ?thesis using that(2) k(2) by (simp add: commit_one_def unat_lot_floor)
  qed
  have "commit_one lot pool W (rows ! j) (ss ! j) \<le> commit_one lot pool W (rows ! i) (ss ! i)"
  proof (cases "ss ! i < ?r")
    case True
    with rows(6) have "ss ! j < ?r" by simp
    with share [of j] share [of i] True share_antimono [OF rows(5,9) assms(2), of W]
    show ?thesis by (simp add: word_le_nat_alt div_le_mono)
  next
    case False
    then have top: "commit_one lot pool W (rows ! i) (ss ! i) = ?r"
      using rows(7) by (auto simp: commit_one_def word_gt_0)
    have "commit_one lot pool W (rows ! j) (ss ! j) \<le> ?r"
    proof (cases "ss ! j < ?r")
      case True
      then show ?thesis
        using share [of j] div_times_less_eq_dividend [of "unat (pool * fst (rows ! j) div W)" "unat lot"]
        unfolding word_le_nat_alt by linarith
    next
      case False
      with rows(4,8) show ?thesis by (auto simp: commit_one_def word_gt_0)
    qed
    with top show ?thesis by simp
  qed
  with rows(1-3) show ?thesis by (simp add: commit_pass_map)
qed

lemma water_fill_falls:
  assumes "even_rows lot i j rows ss" and "unat pool < 2 ^ 64" and len: "length rows < 2 ^ 63"
  shows "fst (water_fill lot pool rows ss) ! j \<le> fst (water_fill lot pool rows ss) ! i"
  using assms(1,2)
proof (induction "length (contending_weights rows ss)" arbitrary: pool ss rule: less_induct)
  case less
  define W where "W = sum_list (contending_weights rows ss)"
  have fill: "list_all2 (filling lot) rows ss" using less.prems(1) by (simp add: even_rows_def)
  show ?case
  proof (cases "W = 0")
    case True
    then have "fst (water_fill lot pool rows ss) = ss" by (subst water_fill.simps) (simp flip: W_def)
    with less.prems(1) show ?thesis by (simp add: even_rows_def)
  next
    case W0: False
    have W: "unat W = contending_weight rows ss" unfolding W_def by (rule unat_sum_contending [OF fill len])
    from cap_pass_spec [OF fill less.prems(2) W0] obtain ss' h where
      cap: "cap_pass pool W rows ss = (ss', word_of_nat h)" "list_all2 (filling lot) rows ss'"
        "unat W * h \<le> unat pool * unat W" "h = 0 \<longrightarrow> ss' = ss \<and> none_overruns (unat pool) (unat W) rows ss"
      unfolding W by blast
    have "h \<le> unat pool" using cap(3) W0 by (simp add: mult.commute unat_gt_0)
    then have unat_h: "unat (word_of_nat h :: u128) = h" using less.prems(2) by (simp add: unat_of_nat)
    show ?thesis
    proof (cases "h = 0")
      case True
      then have "fst (water_fill lot pool rows ss) = fst (commit_pass lot pool W rows ss)"
        using cap(1,4) W0 by (subst water_fill.simps) (simp add: Let_def split_beta flip: W_def)
      with commit_pass_falls [OF less.prems, of W] cap(4) True show ?thesis by simp
    next
      case False
      let ?pool = "pool - word_of_nat h"
      have "even_rows lot i j rows ss'"
        using less.prems(1) cap(2) cap_pass_falls [OF less.prems, of W] by (simp add: even_rows_def cap(1))
      moreover have "unat ?pool < 2 ^ 64"
        using \<open>h \<le> unat pool\<close> unat_h less.prems(2) by (simp add: unat_sub_exact)
      moreover have "length (contending_weights rows ss') < length (contending_weights rows ss)"
        using cap_pass_contending [of rows pool W ss] cap(1) False unat_h by (auto simp: word_unat_eq_iff)
      moreover have "water_fill lot pool rows ss = water_fill lot ?pool rows ss'"
        using False unat_h W0 cap(1)
        by (subst water_fill.simps) (simp add: Let_def word_gt_0 word_unat_eq_iff flip: W_def)
      ultimately show ?thesis using less.hyps by simp
    qed
  qed
qed

text \<open>The crumbs add at most a lot, and go to the front first.\<close>

lemma crumb_sweep_bounds:
  "list_all2 (share_ok lot) ms ss \<Longrightarrow> lot \<noteq> 0 \<Longrightarrow> k < length ms \<Longrightarrow>
     unat (fst (crumb_sweep lot left ms ss) ! k) \<le> units (maker_remaining (ms ! k)) \<and>
     unat (fst (crumb_sweep lot left ms ss) ! k) \<le> unat (ss ! k) + unat lot \<and>
     (left = 0 \<longrightarrow> fst (crumb_sweep lot left ms ss) ! k = ss ! k)"
proof (induction arbitrary: left k rule: list_all2_induct)
  case (Cons m ms s ss)
  have s: "unat s \<le> units (maker_remaining m)" using Cons.hyps(1) by (simp add: share_ok_def)
  have "unat (s + lot) = unat s + unat lot \<and> unat s + unat lot \<le> units (maker_remaining m)" if "lot \<le> base (maker_remaining m) - s"
  proof -
    have "unat s + unat lot \<le> units (maker_remaining m)"
      using that s by (simp add: word_le_nat_alt unat_sub_exact le_diff_conv2 add.commute)
    moreover have "units (maker_remaining m) < 2 ^ 64" by simp
    ultimately show ?thesis by (simp add: unat_add_exact del: unat_u64_bound)
  qed
  moreover have "unat (ss ! k') \<le> units (maker_remaining (ms ! k'))" if "k' < length ms" for k'
    using list_all2_nthD [OF Cons.hyps(2) that] by (simp add: share_ok_def)
  ultimately show ?case
    using s Cons.IH Cons.prems by (cases k) (auto simp: split_beta)
qed simp

lemma crumb_sweep_falls:
  "list_all2 (share_ok lot) ms ss \<Longrightarrow> lot \<noteq> 0 \<Longrightarrow> i < j \<Longrightarrow> j < length ms \<Longrightarrow>
     maker_remaining (ms ! j) = maker_remaining (ms ! i) \<Longrightarrow> unat lot dvd units (maker_remaining (ms ! i)) \<Longrightarrow> ss ! j \<le> ss ! i \<Longrightarrow>
     fst (crumb_sweep lot left ms ss) ! j \<le> fst (crumb_sweep lot left ms ss) ! i"
proof (induction arbitrary: left i j rule: list_all2_induct)
  case (Cons m ms s ss)
  obtain j' where j: "j = Suc j'" using Cons.prems(2) by (cases j) auto
  show ?case
  proof (cases i)
    case (Suc i')
    with j Cons show ?thesis by (auto simp: split_beta)
  next
    case 0
    have s: "unat lot dvd unat s" "unat s \<le> units (maker_remaining m)" and le: "unat (ss ! j') \<le> unat s"
      using Cons.hyps(1) Cons.prems(6) by (simp_all add: share_ok_def j 0 word_le_nat_alt)
    have bounds: "unat (fst (crumb_sweep lot l ms ss) ! j') \<le> units (maker_remaining m)"
      "unat (fst (crumb_sweep lot l ms ss) ! j') \<le> unat s + unat lot"
      "l = 0 \<Longrightarrow> unat (fst (crumb_sweep lot l ms ss) ! j') \<le> unat s" for l
      using crumb_sweep_bounds [OF Cons.hyps(2) Cons.prems(1), of j' l] Cons.prems(3,4) le by (auto simp: j 0)
    have room: "lot \<le> base (maker_remaining m) - s \<longleftrightarrow> unat s + unat lot \<le> units (maker_remaining m)"
      using s(2) by (simp add: word_le_nat_alt unat_sub_exact le_diff_conv2 add.commute)
    consider "left = 0" | "left \<noteq> 0" "lot \<le> base (maker_remaining m) - s" | "left \<noteq> 0" "\<not> lot \<le> base (maker_remaining m) - s" by blast
    then show ?thesis
    proof cases
      case 1
      with bounds(3) [of 0] le show ?thesis by (simp add: j 0 word_le_nat_alt)
    next
      case 2
      have "unat s + unat lot \<le> units (maker_remaining m)" using 2 room by blast
      moreover have "units (maker_remaining m) < 2 ^ 64" by simp
      ultimately have "unat s + unat lot < 2 ^ LENGTH(64)" by (simp add: order_le_less_trans del: unat_u64_bound)
      then have "unat (s + lot) = unat s + unat lot" by (rule unat_add_exact)
      with 2 bounds(2) [of "left - lot"] show ?thesis by (simp add: j 0 word_le_nat_alt split_beta)
    next
      case 3
      have "\<not> unat s < units (maker_remaining m)"
        using 3(2) room s(1) Cons.prems(5) dvd_gap [of "unat lot" "unat s" "units (maker_remaining m)"] by (auto simp: 0)
      with s(2) have "unat s = units (maker_remaining m)" by (rule order.antisym [OF _ leI])
      with 3 bounds(1) [of left] show ?thesis by (simp add: j 0 word_le_nat_alt split_beta)
    qed
  qed
qed simp

section \<open>The allocation\<close>

lemma time_pro_rata_falls:
  assumes t: "tpr_ok t" and ok: "alloc_inputs_ok (tpr_lot t) (Qty available) makers"
    and pair: "elder makers i j" and less: "unat available < total_units makers"
  shows "fst (time_pro_rata_sweep t available makers now) ! j \<le> fst (time_pro_rata_sweep t available makers now) ! i"
proof -
  let ?rows = "zip (weights t makers now) makers" and ?zeros = "map (\<lambda>_. 0) makers :: u64 list"
  note ij = elderD [OF pair]
  have len: "length (weights t makers now) = length makers" by (simp add: weights_def)
  have lot: "tpr_lot t \<noteq> 0" "length makers < 2 ^ 63" "unat (tpr_lot t) dvd unat available"
    and dvd: "\<forall>m\<in>set makers. unat (tpr_lot t) dvd units (maker_remaining m)"
    using ok by (auto simp: alloc_inputs_ok_def is_multiple_of_unat)
  have fill: "list_all2 (filling (tpr_lot t)) ?rows ?zeros"
    using weights_bounds [of _ t makers now] dvd len by (auto simp: list_all2_conv_all_nth filling_def)
  with weights_antimono [OF t pair, of now] ij len have "even_rows (tpr_lot t) i j ?rows ?zeros" by (simp add: even_rows_def)
  from water_fill_falls [OF this, of "u128_from available"] lot(2) len
  have falls: "fst (water_fill (tpr_lot t) (u128_from available) ?rows ?zeros) ! j
      \<le> fst (water_fill (tpr_lot t) (u128_from available) ?rows ?zeros) ! i" by simp
  have "unat (u128_from available) < contending_units ?rows ?zeros"
    using less len by (simp add: contending_units_start)
  with water_fill_spec [OF fill, of "u128_from available"] lot len
  have "list_all2 (share_ok (tpr_lot t)) makers (fst (water_fill (tpr_lot t) (u128_from available) ?rows ?zeros))"
    by auto
  from crumb_sweep_falls [OF this lot(1) ij(1,3,4) _ falls] dvd ij(2) show ?thesis
    by (simp add: time_pro_rata_sweep_def split_beta)
qed

lemma time_pro_rata_shares:
  assumes "tpr_ok t" and "alloc_inputs_ok (tpr_lot t) available makers"
  shows "\<exists>ss. allocate (time_pro_rata_matcher t) available makers now = collect_shares ss \<and>
    length ss = length makers \<and> (\<forall>i j. elder makers i j \<longrightarrow> ss ! j \<le> ss ! i)"
proof -
  have len: "length makers < 2 ^ 63" using assms(2) by (simp add: alloc_inputs_ok_def)
  show ?thesis
  proof (cases "total_units makers \<le> units available")
    case True
    let ?ss = "map (\<lambda>m. base (maker_remaining m)) makers"
    have "allocate (time_pro_rata_matcher t) available makers now = collect_shares ?ss"
      using True unat_level_total [OF len]
      by (simp add: time_pro_rata_matcher_def time_pro_rata_allocate_def word_le_nat_alt take_everything_collect)
    then show ?thesis by (intro exI [of _ ?ss]) (auto simp: elder_def)
  next
    case False
    let ?ss = "fst (time_pro_rata_sweep t (base available) makers now)"
    have "allocate (time_pro_rata_matcher t) available makers now = collect_shares ?ss"
      using False unat_level_total [OF len]
      by (simp add: time_pro_rata_matcher_def time_pro_rata_allocate_def word_le_nat_alt)
    moreover have "length ?ss = length makers"
      using time_pro_rata_sweep_spec [of t "base available" makers now] assms(1,2) False
      by (auto dest: list_all2_lengthD)
    moreover have "?ss ! j \<le> ?ss ! i" if "elder makers i j" for i j
      using time_pro_rata_falls [OF assms(1) _ that, of "base available" now] assms(2) False by simp
    ultimately show ?thesis by blast
  qed
qed

text \<open>
  C26. Resting longer never pays less. Of two makers of a level that hold the same quantity, the one that
  arrived no later and stands before the other in the queue, as the book queues them, is given no less
  by \<open>TimeProRataMatcher\<close>, whatever the other makers hold and whenever they came: through the age cap,
  the renormalised weights, the water-fill, the floor to lots and the crumbs.
\<close>

theorem resting_longer_never_pays_less:
  assumes "tpr_ok t" and "alloc_inputs_ok (tpr_lot t) available makers"
    and "maker_remaining (makers ! i) = maker_remaining (makers ! j)"
    and "maker_arrival (makers ! i) \<le> maker_arrival (makers ! j)"
    and "i < j" and "j < length makers"
  shows "filled_at (allocate (time_pro_rata_matcher t) available makers now) j \<le>
    filled_at (allocate (time_pro_rata_matcher t) available makers now) i"
proof -
  have "elder makers i j" using assms(3-6) by (simp add: elder_def)
  moreover obtain ss where "allocate (time_pro_rata_matcher t) available makers now = collect_shares ss"
    "length ss = length makers" "\<forall>i j. elder makers i j \<longrightarrow> ss ! j \<le> ss ! i"
    using time_pro_rata_shares [OF assms(1,2)] by blast
  ultimately show ?thesis
    using assms(5,6) by (simp add: filled_at_collect_shares word_le_nat_alt)
qed

text \<open>Makers of different sizes, two of ten among them, that arrived one after the other, and a taker of fifteen.\<close>

definition queued_makers :: "maker list" where
  "queued_makers = map (\<lambda>(q, a). \<lparr>maker_remaining = Qty q, maker_arrival = a\<rparr>) [(10, 0), (4, 1), (10, 2)]"

theorem resting_longer_never_pays_less_witness:
  "filled_at (allocate (time_pro_rata_matcher (default_time_pro_rata 1)) (Qty 15) queued_makers 3) 2 \<le>
     filled_at (allocate (time_pro_rata_matcher (default_time_pro_rata 1)) (Qty 15) queued_makers 3) 0"
proof (rule resting_longer_never_pays_less)
  show "tpr_ok (default_time_pro_rata 1)"
    by (simp add: tpr_ok_def default_time_pro_rata_def)
  show "alloc_inputs_ok (tpr_lot (default_time_pro_rata 1)) (Qty 15) queued_makers"
    by (simp add: alloc_inputs_ok_def queued_makers_def is_multiple_of_def default_time_pro_rata_def)
qed (simp_all add: queued_makers_def)

end
