(* ===== verification/Allocation_Oracles.thy ===== *)
theory Allocation_Oracles
  imports Test_Support Age_Priority
begin

text \<open>
  The oracles and the randomised tests of \<^verbatim>\<open>src/src/allocation.rs\<close> (module \<open>tests\<close>): the contract as
  the tests check it, the proportional bound, and the five properties stated over random levels. A
  test is a function of its generated inputs; it is shown to pass on all of them.
\<close>

section \<open>Helpers\<close>

definition NOW :: u128 where
  "NOW = 1000000"

definition test_pro_rata :: "matcher option" where
  "test_pro_rata = pro_rata_new 1"

definition tick_one :: "u64 \<Rightarrow> matcher option" where
  "tick_one lot = do {
     t \<leftarrow> time_pro_rata_new lot;
     t \<leftarrow> with_tick t 1;
     Some (time_pro_rata_matcher t)
   }"

definition test_time_pro_rata :: "matcher option" where
  "test_time_pro_rata = tick_one 1"

definition test_fill :: "nat \<Rightarrow> u64 \<Rightarrow> fill" where
  "test_fill i n = \<lparr>order_index = i, fill_quantity = test_qty n\<rparr>"

definition level_of :: "u64 list \<Rightarrow> maker list" where
  "level_of quantities = map (\<lambda>n. \<lparr>maker_remaining = test_qty n, maker_arrival = 0\<rparr>) quantities"

definition level_with_arrivals :: "(u64 \<times> u128) list \<Rightarrow> maker list" where
  "level_with_arrivals makers = map (\<lambda>(n, a). \<lparr>maker_remaining = test_qty n, maker_arrival = a\<rparr>) makers"

section \<open>The oracles\<close>

fun contract_loop :: "maker list \<Rightarrow> nat option \<Rightarrow> u128 \<Rightarrow> fill list \<Rightarrow> u128 option" where
  "contract_loop makers previous allocated [] = Some allocated"
| "contract_loop makers previous allocated (f # fs) = do {
     assert_that (case previous of None \<Rightarrow> True | Some p \<Rightarrow> p < order_index f);
     assert_that (order_index f < length makers);
     assert_that (\<not> qty_is_zero (fill_quantity f));
     assert_that (fill_quantity f \<le> maker_remaining (makers ! order_index f));
     contract_loop makers (Some (order_index f)) (allocated + u128_from (base (fill_quantity f))) fs
   }"

definition assert_contract :: "fill list \<Rightarrow> qty \<Rightarrow> maker list \<Rightarrow> unit option" where
  "assert_contract fills available makers = do {
     allocated \<leftarrow> contract_loop makers None 0 fills;
     assert_that (allocated = min (u128_from (base available)) (level_total makers))
   }"

text \<open>The map from maker to quantity that \<open>collect\<close> builds, and the bound for each maker.\<close>

definition allocated_map :: "fill list \<Rightarrow> (nat, u64) hash_map" where
  "allocated_map fills = fold (\<lambda>f. hm_insert (order_index f) (base (fill_quantity f))) fills []"

fun proportional_loop ::
    "u64 \<Rightarrow> u128 \<Rightarrow> u64 \<Rightarrow> (nat, u64) hash_map \<Rightarrow> nat \<Rightarrow> maker list \<Rightarrow> unit option" where
  "proportional_loop available held lot allocated i [] = Some ()"
| "proportional_loop available held lot allocated i (m # ms) = do {
     let exact = u128_from available * u128_from (base (maker_remaining m)) div held;
     let floor_share = as_u64 ((exact div u128_from lot) * u128_from lot);
     let got = (case hm_get allocated i of None \<Rightarrow> 0 | Some n \<Rightarrow> n);
     assert_that (got = floor_share \<or> got = floor_share + lot);
     assert_that (is_multiple_of got lot);
     proportional_loop available held lot allocated (Suc i) ms
   }"

definition assert_proportional :: "fill list \<Rightarrow> qty \<Rightarrow> maker list \<Rightarrow> u64 \<Rightarrow> unit option" where
  "assert_proportional fills available makers lot =
     (let available = base available; held = level_total makers
      in if held \<le> u128_from available then Some ()
         else proportional_loop available held lot (allocated_map fills) 0 makers)"

fun assert_each :: "('a \<Rightarrow> bool) \<Rightarrow> 'a list \<Rightarrow> unit option" where
  "assert_each P [] = Some ()"
| "assert_each P (x # xs) = do { assert_that (P x); assert_each P xs }"

section \<open>The randomised tests\<close>

definition every_matcher_honours_the_contract :: "u64 \<Rightarrow> (u64 \<times> u128) list \<Rightarrow> unit option" where
  "every_matcher_honours_the_contract n rows = do {
     let makers = level_with_arrivals rows;
     let available = test_qty n;
     assert_contract (allocate fifo_matcher available makers NOW) available makers;
     pro_rata \<leftarrow> test_pro_rata;
     let fills = allocate pro_rata available makers NOW;
     assert_contract fills available makers;
     assert_proportional fills available makers 1;
     time_pro_rata \<leftarrow> test_time_pro_rata;
     assert_contract (allocate time_pro_rata available makers NOW) available makers
   }"

definition equal_arrivals_make_it_pro_rata :: "u64 \<Rightarrow> u64 list \<Rightarrow> u128 \<Rightarrow> unit option" where
  "equal_arrivals_make_it_pro_rata n quantities arrived = do {
     let makers = map (\<lambda>m. \<lparr>maker_remaining = test_qty m, maker_arrival = arrived\<rparr>) quantities;
     let available = test_qty n;
     time_pro_rata \<leftarrow> test_time_pro_rata;
     pro_rata \<leftarrow> test_pro_rata;
     assert_that (allocate time_pro_rata available makers NOW = allocate pro_rata available makers NOW)
   }"

text \<open>The quantities a vector of zeros holds after the fills are written to it, pair by pair.\<close>

definition got_after :: "nat \<Rightarrow> fill list \<Rightarrow> u64 list" where
  "got_after n fills = fold (\<lambda>f got. got[order_index f := base (fill_quantity f)]) fills (replicate n 0)"

definition resting_longer_test :: "u64 \<Rightarrow> u64 \<Rightarrow> nat \<Rightarrow> unit option" where
  "resting_longer_test n each makers_count = do {
     let makers = map (\<lambda>i. \<lparr>maker_remaining = test_qty each, maker_arrival = of_nat i\<rparr>) [0..<makers_count];
     let available = test_qty n;
     time_pro_rata \<leftarrow> test_time_pro_rata;
     let fills = allocate time_pro_rata available makers (of_nat makers_count);
     assert_contract fills available makers;
     let got = got_after makers_count fills;
     assert_each (\<lambda>(older, younger). younger \<le> older) (zip got (tl got))
   }"

definition time_pro_rata_on_a_lot :: "u64 \<Rightarrow> (u64 \<times> u128) list \<Rightarrow> u64 \<Rightarrow> unit option" where
  "time_pro_rata_on_a_lot lots rows lot = do {
     let makers = map (\<lambda>(k, a). \<lparr>maker_remaining = test_qty (k * lot), maker_arrival = a\<rparr>) rows;
     let available = test_qty (lots * lot);
     time_pro_rata \<leftarrow> tick_one lot;
     let fills = allocate time_pro_rata available makers NOW;
     assert_contract fills available makers;
     assert_each (\<lambda>f. is_multiple_of (base (fill_quantity f)) lot) fills
   }"

definition pro_rata_on_a_lot :: "u64 \<Rightarrow> u64 list \<Rightarrow> u64 \<Rightarrow> unit option" where
  "pro_rata_on_a_lot lots counts lot = do {
     let makers = level_of (map (\<lambda>k. k * lot) counts);
     let available = test_qty (lots * lot);
     pro_rata \<leftarrow> pro_rata_new lot;
     let fills = allocate pro_rata available makers NOW;
     assert_contract fills available makers;
     assert_proportional fills available makers lot
   }"

definition fifo_on_a_lot :: "u64 \<Rightarrow> u64 list \<Rightarrow> u64 \<Rightarrow> unit option" where
  "fifo_on_a_lot lots counts lot = do {
     let makers = level_of (map (\<lambda>k. k * lot) counts);
     let available = test_qty (lots * lot);
     let fills = allocate fifo_matcher available makers NOW;
     assert_contract fills available makers;
     assert_each (\<lambda>f. is_multiple_of (base (fill_quantity f)) lot) fills
   }"

section \<open>The oracles accept\<close>

lemma contract_loop_of_assert:
  "assert_fills_loop fs makers lot prev acc = Some a \<Longrightarrow> contract_loop makers prev acc fs = Some a"
  by (induction fs makers lot prev acc rule: assert_fills_loop.induct) (simp_all split: if_splits)

lemma contract_holds:
  assumes "fills_ok fills available makers lot" and "length makers < 2 ^ 63"
  shows "assert_contract fills available makers = Some ()"
proof -
  have "debug_assert_fills fills available makers lot" using assms debug_assert_fills_iff by blast
  then obtain a where "assert_fills_loop fills makers lot None 0 = Some a"
    "a = min (u128_from (base available)) (level_total makers)"
    by (auto simp: debug_assert_fills_def split: option.splits)
  with contract_loop_of_assert show ?thesis by (fastforce simp: assert_contract_def)
qed

lemma matcher_contract:
  assumes "matching_algorithm algo lot" and "alloc_inputs_ok lot available makers"
  shows "assert_contract (allocate algo available makers now) available makers = Some ()"
  using contract_holds [OF matching_algorithm.allocate_ok [OF assms]] assms(2) by (simp add: alloc_inputs_ok_def)

lemma matcher_lots:
  assumes "matching_algorithm algo lot" and "alloc_inputs_ok lot available makers"
  shows "\<forall>f\<in>set (allocate algo available makers now). is_multiple_of (base (fill_quantity f)) lot"
  using fills_okD(5) [OF matching_algorithm.allocate_ok [OF assms]] by blast

lemma assert_each_iff [simp]: "assert_each P xs = Some () \<longleftrightarrow> (\<forall>x\<in>set xs. P x)"
  by (induction xs) (auto simp: assert_that_def)

text \<open>Reading the shares back from the fills.\<close>

lemma allocated_collect:
  "hm_get (fold (\<lambda>f. hm_insert (order_index f) (base (fill_quantity f))) (collect_from n ss) al) i =
     (if n \<le> i \<and> i < n + length ss \<and> ss ! (i - n) \<noteq> 0 then Some (ss ! (i - n)) else hm_get al i)"
proof (induction ss arbitrary: n al)
  case (Cons s ss)
  have "i - n = Suc (i - Suc n)" if "Suc n \<le> i" using that by simp
  with Cons.IH show ?case by (auto simp: le_less_Suc_eq)
qed auto

lemma got_collect:
  "fold (\<lambda>f got. got[order_index f := base (fill_quantity f)]) (collect_from (length pre) ss) (pre @ replicate (length ss) 0) = pre @ ss"
proof (induction ss arbitrary: pre)
  case (Cons s ss)
  from Cons.IH [of "pre @ [s]"] show ?case by (auto simp: list_update_append)
qed simp

lemma got_after_collect: "length ss = n \<Longrightarrow> got_after n (collect_shares ss) = ss"
  using got_collect [of "[]" ss] by (simp add: got_after_def collect_shares_def)

lemma proportional_loop_ok:
  assumes "list_all2 (\<lambda>m s. unat lot dvd unat s \<and>
      (s = pro_rata_share lot available held m \<or> unat s = unat (pro_rata_share lot available held m) + unat lot)) ms ss"
    and "\<And>j. j < length ss \<Longrightarrow> (case hm_get al (i + j) of None \<Rightarrow> 0 | Some n \<Rightarrow> n) = ss ! j"
  shows "proportional_loop available held lot al i ms = Some ()"
  using assms
proof (induction arbitrary: i rule: list_all2_induct)
  case (Cons m ms s ss)
  have got: "(case hm_get al i of None \<Rightarrow> 0 | Some n \<Rightarrow> n) = s" using Cons.prems [of 0] by simp
  have "proportional_loop available held lot al (Suc i) ms = Some ()"
    by (rule Cons.IH) (use Cons.prems [of "Suc _"] in simp)
  moreover have "s = a \<or> s = a + lot" if "s = a \<or> unat s = unat a + unat lot" for a
    using that unat_u64_bound [of s] by (auto simp: word_unat_eq_iff unat_add_exact simp del: unat_u64_bound)
  ultimately show ?case
    using Cons.hyps(1) got by (simp add: Let_def is_multiple_of_unat pro_rata_share_def)
qed simp

lemma pro_rata_proportional:
  assumes "alloc_inputs_ok lot available makers"
  shows "assert_proportional (allocate (pro_rata_matcher lot) available makers now) available makers lot = Some ()"
proof (cases "level_total makers \<le> u128_from (base available)")
  case True
  then show ?thesis by (simp add: assert_proportional_def Let_def)
next
  case False
  then have less: "units available < total_units makers"
    using assms unat_level_total [of makers] by (simp add: alloc_inputs_ok_def word_le_nat_alt)
  from pro_rata_sweep_spec [of lot "base available" makers] assms less obtain ss where
    ss: "pro_rata_sweep lot (base available) makers = (ss, 0)" "list_all2 (share_ok lot) makers ss"
      "list_all2 (\<lambda>s s'. s' = s \<or> unat s' = unat s + unat lot)
         (map (pro_rata_share lot (base available) (level_total makers)) makers) ss" by auto
  then have "list_all2 (\<lambda>m s. unat lot dvd unat s \<and> (s = pro_rata_share lot (base available) (level_total makers) m \<or>
      unat s = unat (pro_rata_share lot (base available) (level_total makers) m) + unat lot)) makers ss"
    by (auto simp: list_all2_conv_all_nth share_ok_def)
  moreover have "(case hm_get (allocated_map (collect_shares ss)) (0 + j) of None \<Rightarrow> 0 | Some n \<Rightarrow> n) = ss ! j"
    if "j < length ss" for j
    using that by (simp add: allocated_map_def collect_shares_def allocated_collect)
  ultimately show ?thesis
    using False ss(1) proportional_loop_ok
    by (simp add: assert_proportional_def Let_def pro_rata_matcher_def pro_rata_allocate_def)
qed

section \<open>The randomised tests pass\<close>

lemma test_matchers:
  "test_pro_rata = Some (pro_rata_matcher 1)" "test_time_pro_rata = Some (time_pro_rata_matcher (default_time_pro_rata 1))"
  "lot \<noteq> 0 \<Longrightarrow> pro_rata_new lot = Some (pro_rata_matcher lot)"
  "lot \<noteq> 0 \<Longrightarrow> tick_one lot = Some (time_pro_rata_matcher (default_time_pro_rata lot))"
  by (simp_all add: test_pro_rata_def pro_rata_new_def test_time_pro_rata_def tick_one_def time_pro_rata_new_def
      with_tick_def default_time_pro_rata_def word_gt_0)

lemma unit_lot_inputs: "length makers < 2 ^ 63 \<Longrightarrow> alloc_inputs_ok 1 available makers"
  by (simp add: alloc_inputs_ok_def is_multiple_of_unat)

lemma whole_lots: "unat k * unat lot < 2 ^ 64 \<Longrightarrow> is_multiple_of (k * lot) (lot :: u64)"
  by (simp add: is_multiple_of_unat unat_mult_exact)

lemma default_tpr_ok: "lot \<noteq> 0 \<Longrightarrow> tpr_ok (default_time_pro_rata lot)" "tpr_lot (default_time_pro_rata lot) = lot"
  by (simp_all add: tpr_ok_def default_time_pro_rata_def)

lemma every_matcher_passes:
  assumes "length rows < 2 ^ 63"
  shows "every_matcher_honours_the_contract n rows = Some ()"
proof -
  note ok = unit_lot_inputs [of "level_with_arrivals rows" "test_qty n"]
  have "length (level_with_arrivals rows) < 2 ^ 63" using assms by (simp add: level_with_arrivals_def)
  note ok = ok [OF this]
  show ?thesis
    using matcher_contract [OF fifo.matching_algorithm_axioms ok, of NOW]
      matcher_contract [OF pro_rata.matching_algorithm_axioms ok, of NOW]
      matcher_contract [OF time_pro_rata.matching_algorithm_axioms ok, of NOW] pro_rata_proportional [OF ok, of NOW]
    by (simp add: every_matcher_honours_the_contract_def Let_def test_matchers)
qed

lemma sorted_neighbours: "sorted_wrt P ss \<Longrightarrow> (x, y) \<in> set (zip ss (tl ss)) \<Longrightarrow> P x y"
proof (induction ss)
  case (Cons s ss)
  then show ?case by (cases ss) auto
qed simp

lemma resting_longer_passes:
  assumes "makers_count < 2 ^ 63"
  shows "resting_longer_test n each makers_count = Some ()"
proof -
  let ?makers = "map (\<lambda>i. \<lparr>maker_remaining = test_qty each, maker_arrival = of_nat i\<rparr>) [0..<makers_count]"
  have ok: "alloc_inputs_ok 1 (test_qty n) ?makers" by (rule unit_lot_inputs) (use assms in simp)
  have "unat (of_nat i :: u128) = i" if "i < makers_count" for i
    using that assms by (simp add: unat_of_nat)
  then have elder: "elder ?makers i j" if "i < j" "j < makers_count" for i j
    using that by (simp add: elder_def word_le_nat_alt)
  from time_pro_rata_shares [OF default_tpr_ok(1), of 1 "test_qty n" ?makers "of_nat makers_count"] ok
  obtain ss where ss: "length ss = makers_count" "\<forall>i j. elder ?makers i j \<longrightarrow> ss ! j \<le> ss ! i"
    "allocate (time_pro_rata_matcher (default_time_pro_rata 1)) (test_qty n) ?makers (of_nat makers_count) = collect_shares ss"
    by (auto simp: default_tpr_ok)
  then have sorted: "sorted_wrt (\<ge>) ss" using elder by (simp add: sorted_wrt_iff_nth_less)
  have "y \<le> x" if "(x, y) \<in> set (zip ss (tl ss))" for x y
    using sorted_neighbours [OF sorted that] .
  then show ?thesis
    using matcher_contract [OF time_pro_rata.matching_algorithm_axioms ok, of "of_nat makers_count"] ss(1,3)
    by (auto simp: resting_longer_test_def Let_def test_matchers got_after_collect)
qed

lemma lot_tests_pass:
  assumes "lot \<noteq> 0" and "unat lots * unat lot < 2 ^ 64"
  shows "\<forall>(k, a)\<in>set rows. unat k * unat lot < 2 ^ 64 \<Longrightarrow> length rows < 2 ^ 63 \<Longrightarrow> time_pro_rata_on_a_lot lots rows lot = Some ()"
    and "\<forall>k\<in>set counts. unat k * unat lot < 2 ^ 64 \<Longrightarrow> length counts < 2 ^ 63 \<Longrightarrow> pro_rata_on_a_lot lots counts lot = Some ()"
    and "\<forall>k\<in>set counts. unat k * unat lot < 2 ^ 64 \<Longrightarrow> length counts < 2 ^ 63 \<Longrightarrow> fifo_on_a_lot lots counts lot = Some ()"
proof -
  show "time_pro_rata_on_a_lot lots rows lot = Some ()"
    if "\<forall>(k, a)\<in>set rows. unat k * unat lot < 2 ^ 64" "length rows < 2 ^ 63"
  proof -
    let ?makers = "map (\<lambda>(k, a). \<lparr>maker_remaining = test_qty (k * lot), maker_arrival = a\<rparr>) rows"
    have ok: "alloc_inputs_ok lot (test_qty (lots * lot)) ?makers"
      using that assms by (auto simp: alloc_inputs_ok_def test_qty_def whole_lots)
    show ?thesis
      using matcher_contract [OF time_pro_rata.matching_algorithm_axioms ok, of NOW]
        matcher_lots [OF time_pro_rata.matching_algorithm_axioms ok, of NOW] assms(1)
      by (simp add: time_pro_rata_on_a_lot_def Let_def test_matchers)
  qed
  assume "\<forall>k\<in>set counts. unat k * unat lot < 2 ^ 64" and "length counts < 2 ^ 63"
  then have ok: "alloc_inputs_ok lot (test_qty (lots * lot)) (level_of (map (\<lambda>k. k * lot) counts))"
    using assms by (auto simp: alloc_inputs_ok_def test_qty_def whole_lots level_of_def)
  show "pro_rata_on_a_lot lots counts lot = Some ()"
    using matcher_contract [OF pro_rata.matching_algorithm_axioms ok, of NOW] pro_rata_proportional [OF ok, of NOW] assms(1)
    by (simp add: pro_rata_on_a_lot_def Let_def test_matchers)
  show "fifo_on_a_lot lots counts lot = Some ()"
    using matcher_contract [OF fifo.matching_algorithm_axioms ok, of NOW] matcher_lots [OF fifo.matching_algorithm_axioms ok, of NOW]
    by (simp add: fifo_on_a_lot_def Let_def)
qed

text \<open>The age cap keeps size times age within 64 bits for sizes below \<open>2 ^ 48\<close>.\<close>

lemma default_age: "unat (age_ticks (default_time_pro_rata lot) m now) \<le> 65535"
  by (auto simp: age_ticks_def Let_def default_time_pro_rata_def word_le_nat_alt word_less_nat_alt)

lemma equal_arrivals_pass:
  assumes "length quantities < 2 ^ 63" and "\<forall>q\<in>set quantities. unat q < 2 ^ 48"
  shows "equal_arrivals_make_it_pro_rata n quantities arrived = Some ()"
proof -
  let ?makers = "map (\<lambda>q. \<lparr>maker_remaining = test_qty q, maker_arrival = arrived\<rparr>) quantities"
  let ?t = "default_time_pro_rata 1"
  have len: "length ?makers < 2 ^ 63" using assms(1) by simp
  note ok = unit_lot_inputs [OF len, of "Qty n"]
  define a where "a = age_ticks ?t \<lparr>maker_remaining = 0, maker_arrival = arrived\<rparr> NOW"
  have age: "\<forall>m\<in>set ?makers. age_ticks ?t m NOW = a" by (simp add: age_ticks_def a_def)
  have "unat q * unat a < 2 ^ 64" if "unat q < 2 ^ 48" for q :: u64
  proof -
    have "unat q * unat a \<le> (2 ^ 48 - 1) * 65535"
      using that default_age [of 1] by (intro mult_le_mono) (auto simp: a_def)
    then show ?thesis by simp
  qed
  then have small: "\<forall>m\<in>set ?makers. units (maker_remaining m) * unat a < 2 ^ 64"
    using assms(2) by (simp add: test_qty_def)
  have "allocate (time_pro_rata_matcher ?t) (Qty n) ?makers NOW = allocate (pro_rata_matcher 1) (Qty n) ?makers NOW"
  proof (cases "total_units ?makers \<le> unat n")
    case True
    with unat_level_total [OF len] show ?thesis
      by (simp add: time_pro_rata_matcher_def pro_rata_matcher_def time_pro_rata_allocate_def pro_rata_allocate_def word_le_nat_alt)
  next
    case False
    with equal_ages_sweep [OF default_tpr_ok(1) _ _ age small, of n] ok unat_level_total [OF len] show ?thesis
      by (simp add: time_pro_rata_matcher_def pro_rata_matcher_def time_pro_rata_allocate_def pro_rata_allocate_def
          default_tpr_ok word_le_nat_alt)
  qed
  then show ?thesis by (simp add: equal_arrivals_make_it_pro_rata_def Let_def test_matchers test_qty_def)
qed

text \<open>
  C25. The randomised tests of the allocators pass on every input, far beyond the ranges they are run
  on: with a unit lot all three policies honour the contract as the tests check it and pro-rata stays
  within one unit of the proportional share; on any other lot the three still honour the contract in
  whole lots; at equal size the older maker never gets less; and makers that arrived together share
  as under pro-rata, for sizes below \<open>2 ^ 48\<close>.
\<close>

theorem allocation_tests_never_fail:
  assumes "length rows < 2 ^ 63" and "length counts < 2 ^ 63" and "makers_count < 2 ^ 63" and "lot \<noteq> 0"
    and "unat lots * unat lot < 2 ^ 64" and "\<forall>k\<in>set counts. unat k * unat lot < 2 ^ 64"
    and "\<forall>(k, a)\<in>set rows. unat k * unat lot < 2 ^ 64"
    and "length quantities < 2 ^ 63" and "\<forall>q\<in>set quantities. unat q < 2 ^ 48"
  shows "every_matcher_honours_the_contract n rows = Some () \<and>
    resting_longer_test n each makers_count = Some () \<and>
    time_pro_rata_on_a_lot lots rows lot = Some () \<and>
    pro_rata_on_a_lot lots counts lot = Some () \<and>
    fifo_on_a_lot lots counts lot = Some () \<and>
    equal_arrivals_make_it_pro_rata n quantities arrived = Some ()"
  using every_matcher_passes [OF assms(1)] resting_longer_passes [OF assms(3)]
    lot_tests_pass [OF assms(4,5)] equal_arrivals_pass [OF assms(8,9)] assms(1,2,6,7) by blast

theorem allocation_tests_never_fail_witness:
  "pro_rata_on_a_lot 7 [3, 0, 9] 25 = Some () \<and> resting_longer_test 31 10 5 = Some ()"
  using allocation_tests_never_fail [of "[(3, 8), (9, 2)]" "[3, 0, 9]" 5 25 7 "[]" 31 10] by simp

end
