(* ===== verification/Matching_Tests.thy ===== *)
theory Matching_Tests
  imports Test_Support
begin

text \<open>
  The unit tests of \<^verbatim>\<open>src/src/matching.rs\<close> (module \<open>tests\<close>), each as the script it is, run on the
  model of the engine. All of them pass, so the model does what the authors of the program expect of
  it. Where a test compares the first trades one by one after their number, the lists are compared.
\<close>

section \<open>Market orders\<close>

definition market_buy_fully_fills_single_resting_ask :: "unit option" where
  "market_buy_fully_fills_single_resting_ask = do {
     ob \<leftarrow> book;
     ob \<leftarrow> rest_ok ob (test_order Ask 100 10 None ''a1'');
     (report, ob) \<leftarrow> send_ok ob (market_order Bid 10 ''t1'');
     assert_that (report_outcome report = Completed);
     assert_that (length (report_trades report) = 1);
     trade \<leftarrow> nth_opt (report_trades report) 0;
     assert_that (trade_price trade = px 100);
     assert_that (trade_quantity trade = test_qty 10);
     assert_that (maker_order_id trade = ExchangeId ''a1'');
     assert_that (taker_order_id trade = report_id report);
     assert_that (maker_client trade = ClientId ''a1'');
     assert_that (taker_client trade = ClientId ''t1'');
     assert_that (taker_side trade = Bid);
     assert_that (ask_is ob None);
     assert_that (\<not> indexed ob (ExchangeId ''a1''))
   }"

definition market_buy_partial_fill_reduces_resting_maker :: "unit option" where
  "market_buy_partial_fill_reduces_resting_maker = do {
     ob \<leftarrow> book;
     ob \<leftarrow> rest_ok ob (test_order Ask 100 10 None ''a1'');
     (report, ob) \<leftarrow> send_ok ob (market_order Bid 4 ''t1'');
     assert_that (report_outcome report = Completed);
     assert_that (length (report_trades report) = 1);
     t \<leftarrow> nth_opt (report_trades report) 0;
     assert_that (trade_quantity t = test_qty 4);
     assert_that (ask_is ob (Some (px 100)));
     assert_that (ask_total ob = Some (test_qty 6));
     assert_that (indexed ob (ExchangeId ''a1''))
   }"

definition market_buy_sweeps_levels_best_price_first :: "unit option" where
  "market_buy_sweeps_levels_best_price_first = do {
     ob \<leftarrow> book;
     ob \<leftarrow> rest_ok ob (test_order Ask 100 5 None ''a1'');
     ob \<leftarrow> rest_ok ob (test_order Ask 101 5 None ''a2'');
     ob \<leftarrow> rest_ok ob (test_order Ask 102 5 None ''a3'');
     (report, ob) \<leftarrow> send_ok ob (market_order Bid 8 ''t1'');
     assert_that (report_outcome report = Completed);
     assert_that (priced (report_trades report) = [(px 100, test_qty 5), (px 101, test_qty 3)]);
     assert_that (\<not> indexed ob (ExchangeId ''a1''));
     assert_that (ask_is ob (Some (px 101)));
     assert_that (ask_total ob = Some (test_qty 2));
     assert_that (has_level ob Ask (px 102))
   }"

definition market_buy_is_fifo_within_a_level :: "unit option" where
  "market_buy_is_fifo_within_a_level = do {
     ob \<leftarrow> book;
     ob \<leftarrow> rest_ok ob (test_order Ask 100 5 None ''a1'');
     ob \<leftarrow> rest_ok ob (test_order Ask 100 5 None ''a2'');
     (report, ob) \<leftarrow> send_ok ob (market_order Bid 5 ''t1'');
     assert_that (map maker_order_id (report_trades report) = [ExchangeId ''a1'']);
     assert_that (\<not> indexed ob (ExchangeId ''a1''));
     assert_that (indexed ob (ExchangeId ''a2''));
     assert_that (ask_total ob = Some (test_qty 5))
   }"

definition market_buy_on_empty_book_is_killed :: "unit option" where
  "market_buy_on_empty_book_is_killed = do {
     ob \<leftarrow> book;
     (report, ob) \<leftarrow> send_ok ob (market_order Bid 5 ''t1'');
     assert_that (report_outcome report = Killed);
     assert_that (report_trades report = [])
   }"

definition market_buy_insufficient_liquidity_kills_remainder :: "unit option" where
  "market_buy_insufficient_liquidity_kills_remainder = do {
     ob \<leftarrow> book;
     ob \<leftarrow> rest_ok ob (test_order Ask 100 3 None ''a1'');
     (report, ob) \<leftarrow> send_ok ob (market_order Bid 10 ''t1'');
     assert_that (report_outcome report = Killed);
     assert_that (length (report_trades report) = 1);
     t \<leftarrow> nth_opt (report_trades report) 0;
     assert_that (trade_quantity t = test_qty 3);
     assert_that (ask_is ob None);
     assert_that (ob_index ob = [])
   }"

definition market_sell_fills_against_best_bids_first :: "unit option" where
  "market_sell_fills_against_best_bids_first = do {
     ob \<leftarrow> book;
     ob \<leftarrow> rest_ok ob (test_order Bid 99 5 None ''b1'');
     ob \<leftarrow> rest_ok ob (test_order Bid 98 5 None ''b2'');
     (report, ob) \<leftarrow> send_ok ob (market_order Ask 8 ''t1'');
     assert_that (report_outcome report = Completed);
     assert_that (priced (report_trades report) = [(px 99, test_qty 5), (px 98, test_qty 3)]);
     t \<leftarrow> nth_opt (report_trades report) 0;
     assert_that (taker_side t = Ask);
     assert_that (bid_is ob (Some (px 98)));
     assert_that (bid_total ob = Some (test_qty 2))
   }"

lemma market_tests_pass:
  "market_buy_fully_fills_single_resting_ask = Some ()"
  "market_buy_partial_fill_reduces_resting_maker = Some ()"
  "market_buy_sweeps_levels_best_price_first = Some ()"
  "market_buy_is_fifo_within_a_level = Some ()"
  "market_buy_on_empty_book_is_killed = Some ()"
  "market_buy_insufficient_liquidity_kills_remainder = Some ()"
  "market_sell_fills_against_best_bids_first = Some ()"
  by code_simp+

section \<open>Limit orders\<close>

definition limit_buy_non_crossing_rests :: "unit option" where
  "limit_buy_non_crossing_rests = do {
     ob \<leftarrow> book;
     ob \<leftarrow> rest_ok ob (test_order Ask 100 10 None ''a1'');
     (report, ob) \<leftarrow> send_ok ob (limit_order Bid 99 5 ''t1'');
     assert_that (report_outcome report = Rested);
     assert_that (report_trades report = []);
     assert_that (report_cancelled report = []);
     assert_that (bid_is ob (Some (px 99)));
     assert_that (bid_total ob = Some (test_qty 5));
     assert_that (indexed ob (report_id report))
   }"

definition limit_buy_crossing_fully_fills :: "unit option" where
  "limit_buy_crossing_fully_fills = do {
     ob \<leftarrow> book;
     ob \<leftarrow> rest_ok ob (test_order Ask 100 10 None ''a1'');
     (report, ob) \<leftarrow> send_ok ob (limit_order Bid 100 5 ''t1'');
     assert_that (report_outcome report = Completed);
     assert_that (length (report_trades report) = 1);
     t \<leftarrow> nth_opt (report_trades report) 0;
     assert_that (trade_quantity t = test_qty 5);
     assert_that (\<not> indexed ob (report_id report));
     assert_that (ask_total ob = Some (test_qty 5))
   }"

definition limit_buy_partial_fill_rests_remainder :: "unit option" where
  "limit_buy_partial_fill_rests_remainder = do {
     ob \<leftarrow> book;
     ob \<leftarrow> rest_ok ob (test_order Ask 100 5 None ''a1'');
     (report, ob) \<leftarrow> send_ok ob (limit_order Bid 100 8 ''t1'');
     assert_that (report_outcome report = PartiallyFilledAndRested);
     assert_that (length (report_trades report) = 1);
     t \<leftarrow> nth_opt (report_trades report) 0;
     assert_that (trade_quantity t = test_qty 5);
     assert_that (ask_is ob None);
     assert_that (bid_is ob (Some (px 100)));
     assert_that (bid_total ob = Some (test_qty 3));
     assert_that (indexed ob (report_id report))
   }"

definition limit_buy_sweeps_only_marketable_prefix :: "unit option" where
  "limit_buy_sweeps_only_marketable_prefix = do {
     ob \<leftarrow> book;
     ob \<leftarrow> rest_ok ob (test_order Ask 100 5 None ''a1'');
     ob \<leftarrow> rest_ok ob (test_order Ask 102 5 None ''a2'');
     (report, ob) \<leftarrow> send_ok ob (limit_order Bid 100 10 ''t1'');
     assert_that (report_outcome report = PartiallyFilledAndRested);
     assert_that (priced (report_trades report) = [(px 100, test_qty 5)]);
     assert_that (has_level ob Ask (px 102));
     assert_that (bid_is ob (Some (px 100)));
     assert_that (bid_total ob = Some (test_qty 5))
   }"

definition limit_buy_prints_at_maker_price_not_taker_price :: "unit option" where
  "limit_buy_prints_at_maker_price_not_taker_price = do {
     ob \<leftarrow> book;
     ob \<leftarrow> rest_ok ob (test_order Ask 100 10 None ''a1'');
     (report, ob) \<leftarrow> send_ok ob (limit_order Bid 105 5 ''t1'');
     assert_that (report_outcome report = Completed);
     t \<leftarrow> nth_opt (report_trades report) 0;
     assert_that (trade_price t = px 100)
   }"

definition limit_buy_crosses_multiple_levels_and_fully_fills :: "unit option" where
  "limit_buy_crosses_multiple_levels_and_fully_fills = do {
     ob \<leftarrow> book;
     ob \<leftarrow> rest_ok ob (test_order Ask 100 5 None ''a1'');
     ob \<leftarrow> rest_ok ob (test_order Ask 101 5 None ''a2'');
     (report, ob) \<leftarrow> send_ok ob (limit_order Bid 101 8 ''t1'');
     assert_that (report_outcome report = Completed);
     assert_that (priced (report_trades report) = [(px 100, test_qty 5), (px 101, test_qty 3)]);
     assert_that (\<not> indexed ob (ExchangeId ''a1''));
     assert_that (\<not> indexed ob (report_id report));
     assert_that (ask_is ob (Some (px 101)));
     assert_that (ask_total ob = Some (test_qty 2))
   }"

definition limit_buy_crosses_multiple_levels_then_rests_remainder :: "unit option" where
  "limit_buy_crosses_multiple_levels_then_rests_remainder = do {
     ob \<leftarrow> book;
     ob \<leftarrow> rest_ok ob (test_order Ask 100 5 None ''a1'');
     ob \<leftarrow> rest_ok ob (test_order Ask 101 5 None ''a2'');
     ob \<leftarrow> rest_ok ob (test_order Ask 103 5 None ''a3'');
     (report, ob) \<leftarrow> send_ok ob (limit_order Bid 101 12 ''t1'');
     assert_that (report_outcome report = PartiallyFilledAndRested);
     assert_that (priced (report_trades report) = [(px 100, test_qty 5), (px 101, test_qty 5)]);
     assert_that (\<not> indexed ob (ExchangeId ''a1''));
     assert_that (\<not> indexed ob (ExchangeId ''a2''));
     assert_that (ask_is ob (Some (px 103)));
     assert_that (ask_total ob = Some (test_qty 5));
     assert_that (bid_is ob (Some (px 101)));
     assert_that (bid_total ob = Some (test_qty 2));
     assert_that (indexed ob (report_id report))
   }"

definition limit_sell_non_crossing_rests :: "unit option" where
  "limit_sell_non_crossing_rests = do {
     ob \<leftarrow> book;
     ob \<leftarrow> rest_ok ob (test_order Bid 99 10 None ''b1'');
     (report, ob) \<leftarrow> send_ok ob (limit_order Ask 100 5 ''s1'');
     assert_that (report_outcome report = Rested);
     assert_that (report_trades report = []);
     assert_that (report_cancelled report = []);
     assert_that (ask_is ob (Some (px 100)));
     assert_that (ask_total ob = Some (test_qty 5));
     assert_that (indexed ob (report_id report))
   }"

definition limit_sell_crossing_fully_fills :: "unit option" where
  "limit_sell_crossing_fully_fills = do {
     ob \<leftarrow> book;
     ob \<leftarrow> rest_ok ob (test_order Bid 100 10 None ''b1'');
     (report, ob) \<leftarrow> send_ok ob (limit_order Ask 100 5 ''s1'');
     assert_that (report_outcome report = Completed);
     assert_that (priced (report_trades report) = [(px 100, test_qty 5)]);
     t \<leftarrow> nth_opt (report_trades report) 0;
     assert_that (taker_side t = Ask);
     assert_that (\<not> indexed ob (report_id report));
     assert_that (bid_total ob = Some (test_qty 5))
   }"

definition limit_sell_partial_fill_rests_remainder :: "unit option" where
  "limit_sell_partial_fill_rests_remainder = do {
     ob \<leftarrow> book;
     ob \<leftarrow> rest_ok ob (test_order Bid 100 5 None ''b1'');
     (report, ob) \<leftarrow> send_ok ob (limit_order Ask 100 8 ''s1'');
     assert_that (report_outcome report = PartiallyFilledAndRested);
     assert_that (length (report_trades report) = 1);
     t \<leftarrow> nth_opt (report_trades report) 0;
     assert_that (trade_quantity t = test_qty 5);
     assert_that (bid_is ob None);
     assert_that (ask_is ob (Some (px 100)));
     assert_that (ask_total ob = Some (test_qty 3));
     assert_that (indexed ob (report_id report))
   }"

definition limit_sell_sweeps_only_marketable_prefix :: "unit option" where
  "limit_sell_sweeps_only_marketable_prefix = do {
     ob \<leftarrow> book;
     ob \<leftarrow> rest_ok ob (test_order Bid 100 5 None ''b1'');
     ob \<leftarrow> rest_ok ob (test_order Bid 98 5 None ''b2'');
     (report, ob) \<leftarrow> send_ok ob (limit_order Ask 100 10 ''s1'');
     assert_that (report_outcome report = PartiallyFilledAndRested);
     assert_that (priced (report_trades report) = [(px 100, test_qty 5)]);
     assert_that (bid_is ob (Some (px 98)));
     assert_that (ask_is ob (Some (px 100)));
     assert_that (ask_total ob = Some (test_qty 5))
   }"

definition limit_sell_crosses_multiple_levels_then_rests_remainder :: "unit option" where
  "limit_sell_crosses_multiple_levels_then_rests_remainder = do {
     ob \<leftarrow> book;
     ob \<leftarrow> rest_ok ob (test_order Bid 100 5 None ''b1'');
     ob \<leftarrow> rest_ok ob (test_order Bid 99 5 None ''b2'');
     ob \<leftarrow> rest_ok ob (test_order Bid 97 5 None ''b3'');
     (report, ob) \<leftarrow> send_ok ob (limit_order Ask 99 12 ''s1'');
     assert_that (report_outcome report = PartiallyFilledAndRested);
     assert_that (priced (report_trades report) = [(px 100, test_qty 5), (px 99, test_qty 5)]);
     assert_that (bid_is ob (Some (px 97)));
     assert_that (ask_is ob (Some (px 99)));
     assert_that (ask_total ob = Some (test_qty 2))
   }"

lemma limit_tests_pass:
  "limit_buy_non_crossing_rests = Some ()"
  "limit_buy_crossing_fully_fills = Some ()"
  "limit_buy_partial_fill_rests_remainder = Some ()"
  "limit_buy_sweeps_only_marketable_prefix = Some ()"
  "limit_buy_prints_at_maker_price_not_taker_price = Some ()"
  "limit_buy_crosses_multiple_levels_and_fully_fills = Some ()"
  "limit_buy_crosses_multiple_levels_then_rests_remainder = Some ()"
  "limit_sell_non_crossing_rests = Some ()"
  "limit_sell_crossing_fully_fills = Some ()"
  "limit_sell_partial_fill_rests_remainder = Some ()"
  "limit_sell_sweeps_only_marketable_prefix = Some ()"
  "limit_sell_crosses_multiple_levels_then_rests_remainder = Some ()"
  by code_simp+

section \<open>Immediate-or-cancel and fill-or-kill\<close>

definition ioc_full_fill_behaves_like_gtc :: "unit option" where
  "ioc_full_fill_behaves_like_gtc = do {
     ob \<leftarrow> book;
     ob \<leftarrow> rest_ok ob (test_order Ask 100 10 None ''a1'');
     (report, ob) \<leftarrow> send_ok ob (ioc_order Bid 100 10 ''t1'');
     assert_that (report_outcome report = Completed);
     assert_that (length (report_trades report) = 1);
     t \<leftarrow> nth_opt (report_trades report) 0;
     assert_that (trade_quantity t = test_qty 10);
     assert_that (ask_is ob None)
   }"

definition ioc_partial_fill_kills_remainder_instead_of_resting :: "unit option" where
  "ioc_partial_fill_kills_remainder_instead_of_resting = do {
     ob \<leftarrow> book;
     ob \<leftarrow> rest_ok ob (test_order Ask 100 10 None ''a1'');
     (report, ob) \<leftarrow> send_ok ob (ioc_order Bid 100 15 ''t1'');
     assert_that (report_outcome report = Killed);
     assert_that (length (report_trades report) = 1);
     t \<leftarrow> nth_opt (report_trades report) 0;
     assert_that (trade_quantity t = test_qty 10);
     assert_that (bid_is ob None);
     assert_that (\<not> indexed ob (report_id report))
   }"

definition ioc_that_does_not_cross_is_killed_with_no_trades :: "unit option" where
  "ioc_that_does_not_cross_is_killed_with_no_trades = do {
     ob \<leftarrow> book;
     ob \<leftarrow> rest_ok ob (test_order Ask 100 10 None ''a1'');
     (report, ob) \<leftarrow> send_ok ob (ioc_order Bid 99 5 ''t1'');
     assert_that (report_outcome report = Killed);
     assert_that (report_trades report = []);
     assert_that (ask_is ob (Some (px 100)));
     assert_that (bid_is ob None);
     assert_that (order_count ob = 1)
   }"

definition ioc_respects_its_limit_price_while_sweeping :: "unit option" where
  "ioc_respects_its_limit_price_while_sweeping = do {
     ob \<leftarrow> book;
     ob \<leftarrow> rest_ok ob (test_order Ask 100 5 None ''a1'');
     ob \<leftarrow> rest_ok ob (test_order Ask 101 5 None ''a2'');
     (report, ob) \<leftarrow> send_ok ob (ioc_order Bid 100 8 ''t1'');
     assert_that (report_outcome report = Killed);
     assert_that (priced (report_trades report) = [(px 100, test_qty 5)]);
     assert_that (ask_is ob (Some (px 101)));
     assert_that (bid_is ob None)
   }"

definition fok_fills_completely_when_depth_suffices :: "unit option" where
  "fok_fills_completely_when_depth_suffices = do {
     ob \<leftarrow> book;
     ob \<leftarrow> rest_ok ob (test_order Ask 100 5 None ''a1'');
     ob \<leftarrow> rest_ok ob (test_order Ask 101 5 None ''a2'');
     (report, ob) \<leftarrow> send_ok ob (fok_order Bid 101 10 ''t1'');
     assert_that (report_outcome report = Completed);
     assert_that (length (report_trades report) = 2);
     assert_that (qty_sum (map trade_quantity (report_trades report)) = test_qty 10);
     assert_that (ask_is ob None)
   }"

definition fok_kills_without_touching_the_book_when_depth_insufficient :: "unit option" where
  "fok_kills_without_touching_the_book_when_depth_insufficient = do {
     ob \<leftarrow> book;
     ob \<leftarrow> rest_ok ob (test_order Ask 100 5 None ''a1'');
     (report, ob) \<leftarrow> send_ok ob (fok_order Bid 100 10 ''t1'');
     assert_that (report_outcome report = Killed);
     assert_that (report_trades report = []);
     assert_that (report_cancelled report = []);
     assert_that (ask_is ob (Some (px 100)));
     assert_that (ask_total ob = Some (test_qty 5));
     assert_that (indexed ob (ExchangeId ''a1''))
   }"

definition fok_only_counts_depth_within_its_limit_price :: "unit option" where
  "fok_only_counts_depth_within_its_limit_price = do {
     ob \<leftarrow> book;
     ob \<leftarrow> rest_ok ob (test_order Ask 100 5 None ''a1'');
     ob \<leftarrow> rest_ok ob (test_order Ask 102 20 None ''a2'');
     (report, ob) \<leftarrow> send_ok ob (fok_order Bid 101 10 ''t1'');
     assert_that (report_outcome report = Killed);
     assert_that (report_trades report = []);
     assert_that (order_count ob = 2)
   }"

definition fok_excludes_own_resting_orders_from_fillability :: "unit option" where
  "fok_excludes_own_resting_orders_from_fillability = do {
     ob \<leftarrow> book;
     ob \<leftarrow> rest_ok ob (limit_order Ask 100 5 ''alice'');
     ob \<leftarrow> rest_ok ob (limit_order Ask 100 5 ''bob'');
     (report, ob) \<leftarrow> send_ok ob (fok_order Bid 100 10 ''alice'');
     assert_that (report_outcome report = Killed);
     assert_that (report_trades report = []);
     assert_that (report_cancelled report = []);
     assert_that (order_count ob = 2)
   }"

definition fok_executes_through_own_order_cancelling_it :: "unit option" where
  "fok_executes_through_own_order_cancelling_it = do {
     ob \<leftarrow> book;
     ob \<leftarrow> rest_ok ob (limit_order Ask 100 5 ''alice'');
     ob \<leftarrow> rest_ok ob (limit_order Ask 100 10 ''bob'');
     (report, ob) \<leftarrow> send_ok ob (fok_order Bid 100 10 ''alice'');
     assert_that (report_outcome report = Completed);
     assert_that (qty_sum (map trade_quantity (report_trades report)) = test_qty 10);
     assert_that (report_cancelled report = [ExchangeId ''alice'']);
     assert_that (ask_is ob None)
   }"

lemma ioc_fok_tests_pass:
  "ioc_full_fill_behaves_like_gtc = Some ()"
  "ioc_partial_fill_kills_remainder_instead_of_resting = Some ()"
  "ioc_that_does_not_cross_is_killed_with_no_trades = Some ()"
  "ioc_respects_its_limit_price_while_sweeping = Some ()"
  "fok_fills_completely_when_depth_suffices = Some ()"
  "fok_kills_without_touching_the_book_when_depth_insufficient = Some ()"
  "fok_only_counts_depth_within_its_limit_price = Some ()"
  "fok_excludes_own_resting_orders_from_fillability = Some ()"
  "fok_executes_through_own_order_cancelling_it = Some ()"
  by code_simp+

section \<open>Stops\<close>

definition stop_parks_when_no_trade_has_printed :: "unit option" where
  "stop_parks_when_no_trade_has_printed = do {
     ob \<leftarrow> book;
     (report, ob) \<leftarrow> send_ok ob (stop_market_order Bid 101 10 ''s1'');
     assert_that (report_outcome report = StopPending);
     assert_that (report_trades report = []);
     assert_that (report_triggered report = []);
     assert_that (get_order slot_arena ob (report_id report) \<noteq> None);
     assert_that (bid_is ob None);
     assert_that (depth btree_store slot_arena ob Bid 10 = Some []);
     assert_that (length (stop_bids ob) = 1)
   }"

definition buy_stop_triggers_when_market_trades_up_to_trigger :: "unit option" where
  "buy_stop_triggers_when_market_trades_up_to_trigger = do {
     ob \<leftarrow> book;
     ob \<leftarrow> rest_ok ob (test_order Ask 101 10 None ''a1'');
     ob \<leftarrow> rest_ok ob (test_order Ask 102 10 None ''a2'');
     (pending, ob) \<leftarrow> send_ok ob (stop_market_order Bid 101 10 ''s1'');
     assert_that (report_outcome pending = StopPending);
     (report, ob) \<leftarrow> send_ok ob (market_order Bid 10 ''t1'');
     assert_that (length (report_trades report) = 1);
     t \<leftarrow> nth_opt (report_trades report) 0;
     assert_that (trade_price t = px 101);
     assert_that (length (report_triggered report) = 1);
     fired \<leftarrow> nth_opt (report_triggered report) 0;
     assert_that (report_id fired = report_id pending);
     assert_that (report_outcome fired = Completed);
     u \<leftarrow> nth_opt (report_trades fired) 0;
     assert_that (trade_price u = px 102);
     assert_that (stop_bids ob = []);
     assert_that (get_order slot_arena ob (report_id pending) = None)
   }"

definition sell_stop_triggers_when_market_trades_down_to_trigger :: "unit option" where
  "sell_stop_triggers_when_market_trades_down_to_trigger = do {
     ob \<leftarrow> book;
     ob \<leftarrow> rest_ok ob (test_order Bid 99 10 None ''b1'');
     ob \<leftarrow> rest_ok ob (test_order Bid 98 10 None ''b2'');
     (pending, ob) \<leftarrow> send_ok ob (stop_market_order Ask 99 10 ''s1'');
     assert_that (report_outcome pending = StopPending);
     (report, ob) \<leftarrow> send_ok ob (market_order Ask 5 ''t1'');
     assert_that (length (report_triggered report) = 1);
     fired \<leftarrow> nth_opt (report_triggered report) 0;
     assert_that (report_outcome fired = Completed);
     assert_that (qty_sum (map trade_quantity (report_trades fired)) = test_qty 10);
     assert_that (report_trades fired \<noteq> []);
     assert_that (trade_price (last (report_trades fired)) = px 98)
   }"

definition stop_cascade_chains_and_stays_flat :: "unit option" where
  "stop_cascade_chains_and_stays_flat = do {
     ob \<leftarrow> book;
     ob \<leftarrow> rest_ok ob (test_order Ask 101 10 None ''a1'');
     ob \<leftarrow> rest_ok ob (test_order Ask 102 10 None ''a2'');
     ob \<leftarrow> rest_ok ob (test_order Ask 103 10 None ''a3'');
     (x, ob) \<leftarrow> send_ok ob (stop_market_order Bid 101 10 ''sA'');
     (y, ob) \<leftarrow> send_ok ob (stop_market_order Bid 102 10 ''sB'');
     (report, ob) \<leftarrow> send_ok ob (market_order Bid 10 ''t1'');
     assert_that (map report_id (report_triggered report) = [report_id x, report_id y]);
     assert_that (\<forall>r\<in>set (report_triggered report). report_triggered r = []);
     assert_that (map (\<lambda>r. map_option trade_price (nth_opt (report_trades r) 0)) (report_triggered report) =
       [Some (px 102), Some (px 103)]);
     assert_that (stop_bids ob = [])
   }"

definition stop_already_triggered_on_arrival_executes_immediately :: "unit option" where
  "stop_already_triggered_on_arrival_executes_immediately = do {
     ob \<leftarrow> book;
     ob \<leftarrow> rest_ok ob (test_order Ask 100 10 None ''a1'');
     (first, ob) \<leftarrow> send_ok ob (market_order Bid 5 ''t1'');
     (report, ob) \<leftarrow> send_ok ob (stop_market_order Bid 100 5 ''s1'');
     assert_that (report_outcome report = Completed);
     assert_that (length (report_trades report) = 1);
     assert_that (stop_bids ob = [])
   }"

definition stop_limit_becomes_limit_and_rests_its_remainder :: "unit option" where
  "stop_limit_becomes_limit_and_rests_its_remainder = do {
     ob \<leftarrow> book;
     ob \<leftarrow> rest_ok ob (test_order Ask 101 10 None ''a1'');
     ob \<leftarrow> rest_ok ob (test_order Ask 102 20 None ''a2'');
     (pending, ob) \<leftarrow> send_ok ob (stop_limit_order Bid 101 102 30 ''s1'');
     assert_that (report_outcome pending = StopPending);
     (report, ob) \<leftarrow> send_ok ob (market_order Bid 10 ''t1'');
     fired \<leftarrow> nth_opt (report_triggered report) 0;
     assert_that (report_outcome fired = PartiallyFilledAndRested);
     assert_that (qty_sum (map trade_quantity (report_trades fired)) = test_qty 20);
     assert_that (bid_is ob (Some (px 102)));
     rested \<leftarrow> get_order slot_arena ob (report_id fired);
     assert_that (remaining_quantity rested = test_qty 10);
     assert_that (limit_price (otype rested) = Some (px 102))
   }"

definition pending_stop_can_be_cancelled :: "unit option" where
  "pending_stop_can_be_cancelled = do {
     ob \<leftarrow> book;
     (pending, ob) \<leftarrow> send_ok ob (stop_market_order Ask 95 10 ''s1'');
     assert_that (report_outcome pending = StopPending);
     (r, ob) \<leftarrow> cancel_order btree_store slot_arena ob (report_id pending);
     assert_that (r = Inr ());
     assert_that (stop_asks ob = []);
     assert_that (ob_index ob = []);
     (r, ob) \<leftarrow> cancel_order btree_store slot_arena ob (report_id pending);
     assert_that (r = Inl OrderNotFound)
   }"

definition stops_fifo_within_same_trigger_price :: "unit option" where
  "stops_fifo_within_same_trigger_price = do {
     ob \<leftarrow> book;
     ob \<leftarrow> rest_ok ob (test_order Ask 100 5 None ''a1'');
     ob \<leftarrow> rest_ok ob (test_order Ask 101 20 None ''a2'');
     (first, ob) \<leftarrow> send_ok ob (stop_market_order Bid 100 5 ''s1'');
     (second, ob) \<leftarrow> send_ok ob (stop_market_order Bid 100 5 ''s2'');
     (report, ob) \<leftarrow> send_ok ob (market_order Bid 5 ''t1'');
     assert_that (map report_id (report_triggered report) = [report_id first, report_id second])
   }"

lemma stop_tests_pass:
  "stop_parks_when_no_trade_has_printed = Some ()"
  "buy_stop_triggers_when_market_trades_up_to_trigger = Some ()"
  "sell_stop_triggers_when_market_trades_down_to_trigger = Some ()"
  "stop_cascade_chains_and_stays_flat = Some ()"
  "stop_already_triggered_on_arrival_executes_immediately = Some ()"
  "stop_limit_becomes_limit_and_rests_its_remainder = Some ()"
  "pending_stop_can_be_cancelled = Some ()"
  "stops_fifo_within_same_trigger_price = Some ()"
  by code_simp+

section \<open>Reports and self-trades\<close>

definition maker_order :: "string \<Rightarrow> string \<Rightarrow> u64 \<Rightarrow> u64 \<Rightarrow> order option" where
  "maker_order c i p q = client_order c i Ask (limit_gtc (px p)) q"

definition buyer :: "string \<Rightarrow> string \<Rightarrow> u64 \<Rightarrow> order option" where
  "buyer c i q = client_order c i Bid Market q"

definition submit_assigns_exchange_id_and_ignores_caller_id :: "unit option" where
  "submit_assigns_exchange_id_and_ignores_caller_id = do {
     ob \<leftarrow> book;
     ob \<leftarrow> rest_ok ob (test_order Ask 100 10 None ''a1'');
     (report, ob) \<leftarrow> send_ok ob (market_order Bid 5 ''caller-supplied'');
     assert_that (report_id report = ExchangeId ''exchId-1'');
     t \<leftarrow> nth_opt (report_trades report) 0;
     assert_that (taker_order_id t = report_id report)
   }"

definition submit_assigns_sequential_ids :: "unit option" where
  "submit_assigns_sequential_ids = do {
     ob \<leftarrow> book;
     ob \<leftarrow> rest_ok ob (test_order Ask 100 100 None ''a1'');
     (first, ob) \<leftarrow> send_ok ob (market_order Bid 1 ''ignored'');
     (second, ob) \<leftarrow> send_ok ob (market_order Bid 1 ''ignored'');
     assert_that (report_id first = ExchangeId ''exchId-1'');
     assert_that (report_id second = ExchangeId ''exchId-2'');
     assert_that (report_id first \<noteq> report_id second)
   }"

definition self_trade_cancels_resting_order_instead_of_filling :: "unit option" where
  "self_trade_cancels_resting_order_instead_of_filling = do {
     ob \<leftarrow> book;
     ob \<leftarrow> rest_ok ob (maker_order ''alice'' ''a1'' 100 10);
     (report, ob) \<leftarrow> send_ok ob (buyer ''alice'' ''t1'' 5);
     assert_that (report_trades report = []);
     assert_that (report_cancelled report = [ExchangeId ''a1'']);
     assert_that (report_outcome report = Killed);
     assert_that (ob_index ob = []);
     assert_that (ask_is ob None)
   }"

definition stp_reaches_a_self_order_behind_the_fill_point :: "unit option" where
  "stp_reaches_a_self_order_behind_the_fill_point = do {
     ob \<leftarrow> book;
     ob \<leftarrow> rest_ok ob (maker_order ''alice'' ''a1'' 100 5);
     ob \<leftarrow> rest_ok ob (maker_order ''bob'' ''b1'' 100 10);
     ob \<leftarrow> rest_ok ob (maker_order ''alice'' ''a2'' 100 7);
     (report, ob) \<leftarrow> send_ok ob (buyer ''alice'' ''t1'' 10);
     assert_that (report_cancelled report = [ExchangeId ''a1'', ExchangeId ''a2'']);
     assert_that (map maker_order_id (report_trades report) = [ExchangeId ''b1'']);
     assert_that (report_outcome report = Completed);
     assert_that (ask_is ob None);
     assert_that (ob_index ob = [])
   }"

lemma report_tests_pass:
  "submit_assigns_exchange_id_and_ignores_caller_id = Some ()"
  "submit_assigns_sequential_ids = Some ()"
  "self_trade_cancels_resting_order_instead_of_filling = Some ()"
  "stp_reaches_a_self_order_behind_the_fill_point = Some ()"
  by code_simp+

section \<open>Policies\<close>

text \<open>The same orders under two policies; a policy built for another lot; and the arrival clock.\<close>

definition seed :: "test_book \<Rightarrow> test_book option" where
  "seed ob = do {
     ob \<leftarrow> rest_ok ob (maker_order ''a'' ''m1'' 100 10);
     ob \<leftarrow> rest_ok ob (maker_order ''b'' ''m2'' 100 20);
     rest_ok ob (maker_order ''c'' ''m3'' 100 30)
   }"

definition split_by_maker :: "trade list \<Rightarrow> (exchange_id \<times> qty) list" where
  "split_by_maker ts = map (\<lambda>t. (maker_order_id t, trade_quantity t)) ts"

definition the_policy_decides_who_fills_at_one_level :: "unit option" where
  "the_policy_decides_who_fills_at_one_level = do {
     fifo \<leftarrow> book;
     fifo \<leftarrow> seed fifo;
     (report, fifo) \<leftarrow> send_ok fifo (buyer ''t'' ''t1'' 30);
     assert_that (split_by_maker (report_trades report) =
       [(ExchangeId ''m1'', test_qty 10), (ExchangeId ''m2'', test_qty 20)]);
     spec \<leftarrow> cents;
     mtch \<leftarrow> pro_rata_new (lot_size spec);
     pro_rata \<leftarrow> book_with mtch;
     pro_rata \<leftarrow> seed pro_rata;
     (report, pro_rata) \<leftarrow> send_ok pro_rata (buyer ''t'' ''t1'' 30);
     assert_that (split_by_maker (report_trades report) =
       [(ExchangeId ''m1'', test_qty 5), (ExchangeId ''m2'', test_qty 10), (ExchangeId ''m3'', test_qty 15)]);
     level \<leftarrow> best_ask_level btree_store slot_arena pro_rata;
     level \<leftarrow> level;
     assert_that (map remaining_quantity (level_orders level) = [test_qty 5, test_qty 10, test_qty 15])
   }"

text \<open>This one must panic.\<close>

definition a_matcher_built_for_another_instrument_is_refused :: "test_book option" where
  "a_matcher_built_for_another_instrument_is_refused = do {
     lots_of_ten \<leftarrow> unwrap (spec_new 2 0 1 10 :: unit spec_error + instrument_spec);
     mtch \<leftarrow> pro_rata_new 1;
     book_new btree_store slot_arena lots_of_ten mtch
   }"

fun add_fillers :: "nat list \<Rightarrow> test_book \<Rightarrow> test_book option" where
  "add_fillers [] ob = Some ob"
| "add_fillers (i # js) ob = do {
     ob \<leftarrow> rest_ok ob (maker_order ''filler'' (''f'' @ decimal_digits i) 200 1);
     add_fillers js ob
   }"

definition time_pro_rata_reads_the_books_own_arrival_clock :: "unit option" where
  "time_pro_rata_reads_the_books_own_arrival_clock = do {
     spec \<leftarrow> cents;
     t \<leftarrow> time_pro_rata_new (lot_size spec);
     ob \<leftarrow> book_with (time_pro_rata_matcher t);
     ob \<leftarrow> rest_ok ob (maker_order ''old'' ''m1'' 100 20);
     ob \<leftarrow> add_fillers [0..<8] ob;
     ob \<leftarrow> rest_ok ob (maker_order ''new'' ''m2'' 100 20);
     (report, ob) \<leftarrow> send_ok ob (buyer ''t'' ''t1'' 20);
     let split = map trade_quantity (report_trades report);
     assert_that (qty_sum split = test_qty 20);
     old \<leftarrow> nth_opt split 0;
     new \<leftarrow> nth_opt split 1;
     assert_that (new < old)
   }"

lemma policy_tests_pass:
  "the_policy_decides_who_fills_at_one_level = Some ()"
  "a_matcher_built_for_another_instrument_is_refused = None"
  "time_pro_rata_reads_the_books_own_arrival_clock = Some ()"
  by code_simp+

end
