(* ===== verification/Instrument_Tests.thy ===== *)
theory Instrument_Tests
  imports Test_Support Instrument_Facts
begin

text \<open>
  The tests of \<^verbatim>\<open>src/src/instrument.rs\<close>: the unit tests as scripts, and the randomised tests as
  functions of their inputs. The decimals come from a library that keeps its laws, and
  \<open>dec\<close> is \<open>Decimal::from_str\<close> with its result unwrapped, of which the tests need that it reads their
  literals; every test passes, whatever the library and whatever else \<open>dec\<close> reads.
\<close>

section \<open>Helpers\<close>

text \<open>Equality of decimals is that of the numbers, so \<open>1.0\<close> is \<open>1.00\<close>.\<close>

definition decimal_eq :: "'d decimal_ops \<Rightarrow> 'd \<Rightarrow> 'd \<Rightarrow> bool" where
  "decimal_eq D x y \<longleftrightarrow>
     mantissa D x * 10 ^ unat (decimal_scale D y) = mantissa D y * 10 ^ unat (decimal_scale D x)"

text \<open>The literals of the tests, with the mantissa and the scale that parsing keeps.\<close>

definition literals :: "(string \<times> i128 \<times> u32) list" where
  "literals =
     [(''0.25'', 25, 2), (''5'', 5, 0), (''10.00'', 1000, 2), (''20.00'', 2000, 2), (''100.25'', 10025, 2),
      (''0.01'', 1, 2), (''100'', 100, 0), (''100.0'', 1000, 1), (''100.00'', 10000, 2), (''100.001'', 100001, 3),
      (''100.03'', 10003, 2), (''-1.00'', - 100, 2), (''1000000000000000000000'', 1000000000000000000000, 0),
      (''7'', 7, 0), (''10'', 10, 0), (''1'', 1, 0), (''0.00000001'', 1, 8), (''0.000000001'', 1, 9),
      (''100.30'', 10030, 2), (''100.50'', 10050, 2), (''100.2500001'', 1002500001, 7), (''3'', 3, 0),
      (''10.005'', 10005, 3), (''0.10'', 10, 2), (''99'', 99, 0), (''-1'', - 1, 0), (''300.75'', 30075, 2)]"

definition parses :: "'d decimal_ops \<Rightarrow> (string \<Rightarrow> 'd) \<Rightarrow> bool" where
  "parses D dec \<longleftrightarrow> (\<forall>(s, m, scale)\<in>set literals. mantissa D (dec s) = m \<and> decimal_scale D (dec s) = scale)"

definition quarter_lot_five_spec :: "instrument_spec option" where
  "quarter_lot_five_spec = unwrap (spec_new 2 0 25 5 :: unit spec_error + instrument_spec)"

definition price_ok :: "'d decimal_ops \<Rightarrow> instrument_spec \<Rightarrow> 'd \<Rightarrow> price option" where
  "price_ok D spec d = do { r \<leftarrow> spec_price D spec d; unwrap r }"

definition qty_ok :: "'d decimal_ops \<Rightarrow> instrument_spec \<Rightarrow> 'd \<Rightarrow> qty option" where
  "qty_ok D spec d = do { r \<leftarrow> spec_qty D spec d; unwrap r }"

text \<open>The shapes of the errors the tests match on.\<close>

fun invalid_spec :: "'d spec_error + instrument_spec \<Rightarrow> bool" where
  "invalid_spec (Inl (InvalidSpec _)) = True"
| "invalid_spec _ = False"

fun off_tick :: "'d spec_error + price \<Rightarrow> bool" where
  "off_tick (Inl (PriceOffTick _ _)) = True"
| "off_tick _ = False"

fun price_too_precise :: "'d spec_error + price \<Rightarrow> bool" where
  "price_too_precise (Inl (PriceTooPrecise _ _)) = True"
| "price_too_precise _ = False"

fun price_negative :: "'d spec_error + price \<Rightarrow> bool" where
  "price_negative (Inl (PriceNegative _)) = True"
| "price_negative _ = False"

fun price_out_of_range :: "'d spec_error + price \<Rightarrow> bool" where
  "price_out_of_range (Inl (PriceOutOfRange _)) = True"
| "price_out_of_range _ = False"

fun off_lot :: "'d spec_error + qty \<Rightarrow> bool" where
  "off_lot (Inl (QtyOffLot _ _)) = True"
| "off_lot _ = False"

fun qty_too_precise :: "'d spec_error + qty \<Rightarrow> bool" where
  "qty_too_precise (Inl (QtyTooPrecise _ _)) = True"
| "qty_too_precise _ = False"

fun below_notional :: "reject_reason + unit \<Rightarrow> bool" where
  "below_notional (Inl (NotionalBelowMinimum _ _)) = True"
| "below_notional _ = False"

section \<open>How the tests evaluate\<close>

lemmas literal_values = parses_def [unfolded literals_def, simplified, THEN iffD1]

text \<open>What a lawful library renders of a number that fits.\<close>

definition rendered :: "'d decimal_ops \<Rightarrow> i128 \<Rightarrow> u32 \<Rightarrow> 'd" where
  "rendered D m s = the (from_i128_with_scale D m s)"

lemma rendered_simps:
  assumes "decimal_laws D" and "\<bar>m\<bar> < 2 ^ 96" and "unat s \<le> 28"
  shows "from_i128_with_scale D m s = Some (rendered D m s)"
    and "mantissa D (rendered D m s) = m"
    and "decimal_scale D (rendered D m s) = s"
  using decimal_of_int [OF assms] by (auto simp: rendered_def)

lemma cents_value:
  "cents = Some \<lparr>price_scale = 2, qty_scale = 0, tick_size = 1, lot_size = 1, min_price = Price 1,
     max_price = None, min_qty = Qty 1, max_qty = None, min_notional = None\<rparr>"
  by (simp add: cents_def spec_new_def MAX_SCALE_def)

lemma quarter_lot_five_value: "quarter_lot_five_spec = Some quarter_lot_five"
  by (simp add: quarter_lot_five_spec_def quarter_lot_five_new)

lemmas instrument_runs = cents_value quarter_lot_five_value quarter_lot_five_def spec_new_def MAX_SCALE_def
  price_ok_def qty_ok_def spec_price_def spec_qty_def price_from_minor_def qty_from_base_def
  tick_decimal_def lot_decimal_def to_decimal_def notional_to_decimal_def round_price_def
  with_price_range_def with_min_notional_def ceil_scaled_def checked_pow10_u128_def checked_mul_def
  checked_add_def is_multiple_of_def ticks_between_def abs_diff_def spec_notional_def u128_from_def
  admits_notional_def less_notional_def decimal_eq_def scaled_def denom_def Let_def

section \<open>Specifications\<close>

definition a_zero_tick_is_not_a_spec :: "unit option" where
  "a_zero_tick_is_not_a_spec = do {
     assert_that (invalid_spec (spec_new 2 0 0 1 :: unit spec_error + instrument_spec))
   }"

definition a_zero_lot_is_not_a_spec :: "unit option" where
  "a_zero_lot_is_not_a_spec = do {
     assert_that (invalid_spec (spec_new 2 0 1 0 :: unit spec_error + instrument_spec))
   }"

definition a_scale_decimal_cannot_carry_is_not_a_spec :: "unit option" where
  "a_scale_decimal_cannot_carry_is_not_a_spec = do {
     assert_that (invalid_spec (spec_new 29 0 1 1 :: unit spec_error + instrument_spec))
   }"

definition bounds_default_to_one_tick_and_one_lot :: "'d decimal_ops \<Rightarrow> (string \<Rightarrow> 'd) \<Rightarrow> unit option" where
  "bounds_default_to_one_tick_and_one_lot D dec = do {
     spec \<leftarrow> quarter_lot_five_spec;
     p \<leftarrow> price_ok D spec (dec ''0.25'');
     assert_that (min_price spec = p);
     q \<leftarrow> qty_ok D spec (dec ''5'');
     assert_that (min_qty spec = q);
     assert_that (max_price spec = None);
     assert_that (max_qty spec = None)
   }"

definition a_bound_off_its_own_grid_is_not_a_spec :: "unit option" where
  "a_bound_off_its_own_grid_is_not_a_spec = do {
     spec \<leftarrow> quarter_lot_five_spec;
     let off_tick = Price 3;
     assert_that (invalid_spec (with_price_range spec off_tick None :: unit spec_error + instrument_spec))
   }"

definition a_max_below_its_min_is_not_a_spec :: "'d decimal_ops \<Rightarrow> (string \<Rightarrow> 'd) \<Rightarrow> unit option" where
  "a_max_below_its_min_is_not_a_spec D dec = do {
     spec \<leftarrow> quarter_lot_five_spec;
     low \<leftarrow> price_ok D spec (dec ''10.00'');
     high \<leftarrow> price_ok D spec (dec ''20.00'');
     assert_that (invalid_spec (with_price_range spec high (Some low) :: 'd spec_error + instrument_spec))
   }"

lemma spec_tests_pass:
  assumes "decimal_laws D" and "parses D dec"
  shows "a_zero_tick_is_not_a_spec = Some ()"
    and "a_zero_lot_is_not_a_spec = Some ()"
    and "a_scale_decimal_cannot_carry_is_not_a_spec = Some ()"
    and "bounds_default_to_one_tick_and_one_lot D dec = Some ()"
    and "a_bound_off_its_own_grid_is_not_a_spec = Some ()"
    and "a_max_below_its_min_is_not_a_spec D dec = Some ()"
  by (simp_all add: a_zero_tick_is_not_a_spec_def
      a_zero_lot_is_not_a_spec_def
      a_scale_decimal_cannot_carry_is_not_a_spec_def
      bounds_default_to_one_tick_and_one_lot_def
      a_bound_off_its_own_grid_is_not_a_spec_def
      a_max_below_its_min_is_not_a_spec_def instrument_runs
      literal_values [OF assms(2)] split_minor_eq [OF assms(1)] rendered_simps [OF assms(1)])

section \<open>Conversion\<close>

definition a_price_on_the_grid_converts_to_minor_units :: "'d decimal_ops \<Rightarrow> (string \<Rightarrow> 'd) \<Rightarrow> unit option" where
  "a_price_on_the_grid_converts_to_minor_units D dec = do {
     spec \<leftarrow> cents;
     p \<leftarrow> price_ok D spec (dec ''100.25'');
     assert_that (minor p = 10025);
     p \<leftarrow> price_ok D spec (dec ''0.01'');
     assert_that (minor p = 1)
   }"

definition trailing_zeros_collapse_to_one_price :: "'d decimal_ops \<Rightarrow> (string \<Rightarrow> 'd) \<Rightarrow> unit option" where
  "trailing_zeros_collapse_to_one_price D dec = do {
     spec \<leftarrow> cents;
     a \<leftarrow> price_ok D spec (dec ''100'');
     b \<leftarrow> price_ok D spec (dec ''100.0'');
     c \<leftarrow> price_ok D spec (dec ''100.00'');
     assert_that (a = b);
     assert_that (b = c);
     assert_that (minor a = 10000)
   }"

definition a_price_finer_than_the_minor_unit_is_rejected :: "'d decimal_ops \<Rightarrow> (string \<Rightarrow> 'd) \<Rightarrow> unit option" where
  "a_price_finer_than_the_minor_unit_is_rejected D dec = do {
     spec \<leftarrow> cents;
     r \<leftarrow> spec_price D spec (dec ''100.001'');
     assert_that (price_too_precise r)
   }"

definition a_price_off_the_tick_grid_is_rejected :: "'d decimal_ops \<Rightarrow> (string \<Rightarrow> 'd) \<Rightarrow> unit option" where
  "a_price_off_the_tick_grid_is_rejected D dec = do {
     spec \<leftarrow> quarter_lot_five_spec;
     r \<leftarrow> spec_price D spec (dec ''100.03'');
     assert_that (off_tick r);
     p \<leftarrow> price_ok D spec (dec ''100.25'');
     assert_that (True)
   }"

definition a_negative_price_is_rejected :: "'d decimal_ops \<Rightarrow> (string \<Rightarrow> 'd) \<Rightarrow> unit option" where
  "a_negative_price_is_rejected D dec = do {
     spec \<leftarrow> cents;
     r \<leftarrow> spec_price D spec (dec ''-1.00'');
     assert_that (price_negative r)
   }"

definition a_price_beyond_u64_is_rejected :: "'d decimal_ops \<Rightarrow> (string \<Rightarrow> 'd) \<Rightarrow> unit option" where
  "a_price_beyond_u64_is_rejected D dec = do {
     spec \<leftarrow> cents;
     r \<leftarrow> spec_price D spec (dec ''1000000000000000000000'');
     assert_that (price_out_of_range r)
   }"

definition a_quantity_off_the_lot_grid_is_rejected :: "'d decimal_ops \<Rightarrow> (string \<Rightarrow> 'd) \<Rightarrow> unit option" where
  "a_quantity_off_the_lot_grid_is_rejected D dec = do {
     spec \<leftarrow> quarter_lot_five_spec;
     r \<leftarrow> spec_qty D spec (dec ''7'');
     assert_that (off_lot r);
     q \<leftarrow> qty_ok D spec (dec ''10'');
     assert_that (base q = 10)
   }"

definition a_satoshi_scale_quantity_converts :: "'d decimal_ops \<Rightarrow> (string \<Rightarrow> 'd) \<Rightarrow> unit option" where
  "a_satoshi_scale_quantity_converts D dec = do {
     spec \<leftarrow> unwrap (spec_new 2 8 1 1 :: 'd spec_error + instrument_spec);
     q \<leftarrow> qty_ok D spec (dec ''1'');
     assert_that (base q = 100000000);
     q \<leftarrow> qty_ok D spec (dec ''0.00000001'');
     assert_that (base q = 1);
     r \<leftarrow> spec_qty D spec (dec ''0.000000001'');
     assert_that (qty_too_precise r)
   }"

definition the_integer_native_door_still_checks_the_tick :: "'d decimal_ops \<Rightarrow> unit option" where
  "the_integer_native_door_still_checks_the_tick D = do {
     spec \<leftarrow> quarter_lot_five_spec;
     r \<leftarrow> price_from_minor D spec 10025;
     p \<leftarrow> unwrap r;
     assert_that (minor p = 10025);
     r \<leftarrow> price_from_minor D spec 10003;
     assert_that (off_tick r)
   }"

lemma conversion_tests_pass:
  assumes "decimal_laws D" and "parses D dec"
  shows "a_price_on_the_grid_converts_to_minor_units D dec = Some ()"
    and "trailing_zeros_collapse_to_one_price D dec = Some ()"
    and "a_price_finer_than_the_minor_unit_is_rejected D dec = Some ()"
    and "a_price_off_the_tick_grid_is_rejected D dec = Some ()"
    and "a_negative_price_is_rejected D dec = Some ()"
    and "a_price_beyond_u64_is_rejected D dec = Some ()"
    and "a_quantity_off_the_lot_grid_is_rejected D dec = Some ()"
    and "a_satoshi_scale_quantity_converts D dec = Some ()"
    and "the_integer_native_door_still_checks_the_tick D = Some ()"
  by (simp_all add: a_price_on_the_grid_converts_to_minor_units_def
      trailing_zeros_collapse_to_one_price_def
      a_price_finer_than_the_minor_unit_is_rejected_def
      a_price_off_the_tick_grid_is_rejected_def
      a_negative_price_is_rejected_def
      a_price_beyond_u64_is_rejected_def
      a_quantity_off_the_lot_grid_is_rejected_def
      a_satoshi_scale_quantity_converts_def
      the_integer_native_door_still_checks_the_tick_def instrument_runs
      literal_values [OF assms(2)] split_minor_eq [OF assms(1)] rendered_simps [OF assms(1)])

section \<open>Rounding\<close>

definition rounding_moves_to_the_named_side_of_the_grid :: "'d decimal_ops \<Rightarrow> (string \<Rightarrow> 'd) \<Rightarrow> unit option" where
  "rounding_moves_to_the_named_side_of_the_grid D dec = do {
     spec \<leftarrow> quarter_lot_five_spec;
     down \<leftarrow> unwrap (round_price D spec (dec ''100.30'') Down);
     up \<leftarrow> unwrap (round_price D spec (dec ''100.30'') Up);
     x \<leftarrow> to_decimal D spec down;
     assert_that (decimal_eq D x (dec ''100.25''));
     x \<leftarrow> to_decimal D spec up;
     assert_that (decimal_eq D x (dec ''100.50''))
   }"

definition rounding_up_notices_dust_below_the_minor_unit :: "'d decimal_ops \<Rightarrow> (string \<Rightarrow> 'd) \<Rightarrow> unit option" where
  "rounding_up_notices_dust_below_the_minor_unit D dec = do {
     spec \<leftarrow> quarter_lot_five_spec;
     up \<leftarrow> unwrap (round_price D spec (dec ''100.2500001'') Up);
     x \<leftarrow> to_decimal D spec up;
     assert_that (decimal_eq D x (dec ''100.50''))
   }"

definition rounding_leaves_a_price_already_on_the_grid_alone :: "'d decimal_ops \<Rightarrow> (string \<Rightarrow> 'd) \<Rightarrow> unit option" where
  "rounding_leaves_a_price_already_on_the_grid_alone D dec = do {
     spec \<leftarrow> quarter_lot_five_spec;
     p \<leftarrow> unwrap (round_price D spec (dec ''100.25'') Down);
     x \<leftarrow> to_decimal D spec p;
     assert_that (decimal_eq D x (dec ''100.25''));
     p \<leftarrow> unwrap (round_price D spec (dec ''100.25'') Up);
     x \<leftarrow> to_decimal D spec p;
     assert_that (decimal_eq D x (dec ''100.25''))
   }"

definition passive_rounding_depends_on_the_side :: "'d decimal_ops \<Rightarrow> (string \<Rightarrow> 'd) \<Rightarrow> unit option" where
  "passive_rounding_depends_on_the_side D dec = do {
     spec \<leftarrow> quarter_lot_five_spec;
     bid \<leftarrow> unwrap (round_price D spec (dec ''100.30'') (TowardPassive Bid));
     ask \<leftarrow> unwrap (round_price D spec (dec ''100.30'') (TowardPassive Ask));
     x \<leftarrow> to_decimal D spec bid;
     assert_that (decimal_eq D x (dec ''100.25''));
     x \<leftarrow> to_decimal D spec ask;
     assert_that (decimal_eq D x (dec ''100.50''))
   }"

lemma rounding_tests_pass:
  assumes "decimal_laws D" and "parses D dec"
  shows "rounding_moves_to_the_named_side_of_the_grid D dec = Some ()"
    and "rounding_up_notices_dust_below_the_minor_unit D dec = Some ()"
    and "rounding_leaves_a_price_already_on_the_grid_alone D dec = Some ()"
    and "passive_rounding_depends_on_the_side D dec = Some ()"
  by (simp_all add: rounding_moves_to_the_named_side_of_the_grid_def
      rounding_up_notices_dust_below_the_minor_unit_def
      rounding_leaves_a_price_already_on_the_grid_alone_def
      passive_rounding_depends_on_the_side_def instrument_runs
      literal_values [OF assms(2)] split_minor_eq [OF assms(1)] rendered_simps [OF assms(1)])

section \<open>Grid arithmetic\<close>

definition ticks_between_counts_the_grid_not_the_currency :: "'d decimal_ops \<Rightarrow> (string \<Rightarrow> 'd) \<Rightarrow> unit option" where
  "ticks_between_counts_the_grid_not_the_currency D dec = do {
     spec \<leftarrow> quarter_lot_five_spec;
     bid \<leftarrow> price_ok D spec (dec ''100.00'');
     ask \<leftarrow> price_ok D spec (dec ''100.50'');
     assert_that (ticks_between spec ask bid = Ticks 2);
     assert_that (ticks_between spec bid ask = Ticks 2)
   }"

definition notional_multiplies_the_two_lattices :: "'d decimal_ops \<Rightarrow> (string \<Rightarrow> 'd) \<Rightarrow> unit option" where
  "notional_multiplies_the_two_lattices D dec = do {
     spec \<leftarrow> cents;
     p \<leftarrow> price_ok D spec (dec ''100.25'');
     q \<leftarrow> qty_ok D spec (dec ''3'');
     assert_that (raw (spec_notional p q) = 10025 * 3)
   }"

lemma grid_tests_pass:
  assumes "decimal_laws D" and "parses D dec"
  shows "ticks_between_counts_the_grid_not_the_currency D dec = Some ()"
    and "notional_multiplies_the_two_lattices D dec = Some ()"
  by (simp_all add: ticks_between_counts_the_grid_not_the_currency_def
      notional_multiplies_the_two_lattices_def instrument_runs
      literal_values [OF assms(2)] split_minor_eq [OF assms(1)] rendered_simps [OF assms(1)])

section \<open>The minimum notional\<close>

definition a_min_notional_that_lands_between_units_rounds_up :: "'d decimal_ops \<Rightarrow> (string \<Rightarrow> 'd) \<Rightarrow> unit option" where
  "a_min_notional_that_lands_between_units_rounds_up D dec = do {
     spec \<leftarrow> cents;
     spec \<leftarrow> unwrap (with_min_notional D spec (dec ''10.005''));
     n \<leftarrow> min_notional spec;
     assert_that (raw n = 1001)
   }"

definition a_min_notional_on_a_unit_boundary_is_exact :: "'d decimal_ops \<Rightarrow> (string \<Rightarrow> 'd) \<Rightarrow> unit option" where
  "a_min_notional_on_a_unit_boundary_is_exact D dec = do {
     spec \<leftarrow> cents;
     spec \<leftarrow> unwrap (with_min_notional D spec (dec ''10''));
     n \<leftarrow> min_notional spec;
     assert_that (raw n = 1000)
   }"

definition notional_admission_compares_without_rounding :: "'d decimal_ops \<Rightarrow> (string \<Rightarrow> 'd) \<Rightarrow> unit option" where
  "notional_admission_compares_without_rounding D dec = do {
     spec \<leftarrow> cents;
     spec \<leftarrow> unwrap (with_min_notional D spec (dec ''10''));
     p \<leftarrow> price_ok D spec (dec ''0.10'');
     q \<leftarrow> qty_ok D spec (dec ''100'');
     assert_that (admits_notional spec p q = Inr ());
     q \<leftarrow> qty_ok D spec (dec ''99'');
     assert_that (below_notional (admits_notional spec p q))
   }"

definition a_negative_min_notional_is_not_a_spec :: "'d decimal_ops \<Rightarrow> (string \<Rightarrow> 'd) \<Rightarrow> unit option" where
  "a_negative_min_notional_is_not_a_spec D dec = do {
     spec \<leftarrow> cents;
     assert_that (invalid_spec (with_min_notional D spec (dec ''-1'')))
   }"

definition notional_renders_back_to_the_quote_currency :: "'d decimal_ops \<Rightarrow> (string \<Rightarrow> 'd) \<Rightarrow> unit option" where
  "notional_renders_back_to_the_quote_currency D dec = do {
     spec \<leftarrow> cents;
     p \<leftarrow> price_ok D spec (dec ''100.25'');
     q \<leftarrow> qty_ok D spec (dec ''3'');
     x \<leftarrow> notional_to_decimal D spec (spec_notional p q);
     assert_that (decimal_eq D x (dec ''300.75''))
   }"

definition notional_survives_the_widest_possible_product :: "unit option" where
  "notional_survives_the_widest_possible_product = do {
     let p = Price 18446744073709551615;
     let q = Qty 18446744073709551615;
     let expected = u128_from 18446744073709551615 * u128_from 18446744073709551615;
     assert_that (raw (spec_notional p q) = expected);
     assert_that (expected < 340282366920938463463374607431768211455)
   }"

lemma min_notional_tests_pass:
  assumes "decimal_laws D" and "parses D dec"
  shows "a_min_notional_that_lands_between_units_rounds_up D dec = Some ()"
    and "a_min_notional_on_a_unit_boundary_is_exact D dec = Some ()"
    and "notional_admission_compares_without_rounding D dec = Some ()"
    and "a_negative_min_notional_is_not_a_spec D dec = Some ()"
    and "notional_renders_back_to_the_quote_currency D dec = Some ()"
    and "notional_survives_the_widest_possible_product = Some ()"
  by (simp_all add: a_min_notional_that_lands_between_units_rounds_up_def
      a_min_notional_on_a_unit_boundary_is_exact_def
      notional_admission_compares_without_rounding_def
      a_negative_min_notional_is_not_a_spec_def
      notional_renders_back_to_the_quote_currency_def
      notional_survives_the_widest_possible_product_def instrument_runs
      literal_values [OF assms(2)] split_minor_eq [OF assms(1)] rendered_simps [OF assms(1)])

section \<open>The randomised tests\<close>

definition a_lattice_price_round_trips_through_decimal :: "'d decimal_ops \<Rightarrow> u64 \<Rightarrow> unit option" where
  "a_lattice_price_round_trips_through_decimal D n = do {
     spec \<leftarrow> quarter_lot_five_spec;
     r \<leftarrow> price_from_minor D spec (n * tick_size spec);
     p \<leftarrow> unwrap r;
     d \<leftarrow> to_decimal D spec p;
     p' \<leftarrow> price_ok D spec d;
     assert_that (p' = p)
   }"

definition a_lattice_quantity_round_trips_through_decimal :: "'d decimal_ops \<Rightarrow> u64 \<Rightarrow> unit option" where
  "a_lattice_quantity_round_trips_through_decimal D n = do {
     spec \<leftarrow> quarter_lot_five_spec;
     r \<leftarrow> qty_from_base D spec (n * lot_size spec);
     q \<leftarrow> unwrap r;
     d \<leftarrow> qty_to_decimal D spec q;
     q' \<leftarrow> qty_ok D spec d;
     assert_that (q' = q)
   }"

definition a_price_between_two_ticks_is_always_rejected :: "'d decimal_ops \<Rightarrow> u64 \<Rightarrow> u64 \<Rightarrow> unit option" where
  "a_price_between_two_ticks_is_always_rejected D n offset = do {
     spec \<leftarrow> quarter_lot_five_spec;
     off_grid \<leftarrow> from_i128_with_scale D (uint (n * tick_size spec + offset)) (price_scale spec);
     r \<leftarrow> spec_price D spec off_grid;
     assert_that (off_tick r)
   }"

definition rounding_always_lands_on_the_grid :: "'d decimal_ops \<Rightarrow> u64 \<Rightarrow> bool \<Rightarrow> unit option" where
  "rounding_always_lands_on_the_grid D m up = do {
     spec \<leftarrow> quarter_lot_five_spec;
     d \<leftarrow> from_i128_with_scale D (uint m) (price_scale spec);
     p \<leftarrow> unwrap (round_price D spec d (if up then Up else Down));
     assert_that (is_multiple_of (minor p) (tick_size spec));
     (if up then do {
        assert_that (m \<le> minor p);
        assert_that (minor p - m < tick_size spec)
      } else do {
        assert_that (minor p \<le> m);
        assert_that (m - minor p < tick_size spec)
      })
   }"

lemma split_rendered:
  assumes "decimal_laws D" and "unat s \<le> 28"
  shows "from_i128_with_scale D (uint (m :: u64)) s = Some (rendered D (uint m) s)"
    and "split_minor D (rendered D (uint m) s) s = Inr (m, False)"
proof -
  have small: "\<bar>uint m\<bar> < 2 ^ 96" using uint_lt2p [of m] by simp
  note r = rendered_simps [OF assms(1) small assms(2)]
  show "from_i128_with_scale D (uint m) s = Some (rendered D (uint m) s)" by (rule r(1))
  show "split_minor D (rendered D (uint m) s) s = Inr (m, False)"
    using uint_lt2p [of m] by (simp add: split_minor_eq [OF assms] scaled_def denom_def r(2,3))
qed

lemma quarter_lot_five_simps [simp]:
  "price_scale quarter_lot_five = 2" "qty_scale quarter_lot_five = 0"
  "tick_size quarter_lot_five = 25" "lot_size quarter_lot_five = 5"
  by (simp_all add: quarter_lot_five_def)

lemma multiple_of_product:
  fixes n t :: u64
  assumes "unat n * unat t < 2 ^ 64" and "t \<noteq> 0"
  shows "is_multiple_of (n * t) t"
  using assms by (simp add: is_multiple_of_unat unat_mult_exact)

text \<open>
  The ranges of the tests are those that do not overflow: the multiples of the tick and of the lot
  must fit 64 bits, and so must the grid point above the number that is rounded.
\<close>

lemma round_trip_tests_pass:
  assumes "decimal_laws D"
  shows "unat n * 25 < 2 ^ 64 \<Longrightarrow> a_lattice_price_round_trips_through_decimal D n = Some ()"
    and "unat n * 5 < 2 ^ 64 \<Longrightarrow> a_lattice_quantity_round_trips_through_decimal D n = Some ()"
  using multiple_of_product [of n 25] multiple_of_product [of n 5]
  by (simp_all add: a_lattice_price_round_trips_through_decimal_def
      a_lattice_quantity_round_trips_through_decimal_def quarter_lot_five_value price_from_minor_def
      qty_from_base_def to_decimal_def qty_to_decimal_def price_ok_def qty_ok_def spec_price_def
      spec_qty_def split_rendered [OF assms])

lemma between_ticks_test_passes:
  assumes "decimal_laws D" and "unat n * 25 + 25 \<le> 2 ^ 64" and "0 < offset" and "offset < 25"
  shows "a_price_between_two_ticks_is_always_rejected D n offset = Some ()"
proof -
  have "unat offset < 25" "0 < unat offset" using assms(3,4) by (simp_all add: word_less_nat_alt unat_gt_0)
  then have "unat (n * 25 + offset) = unat n * 25 + unat offset"
    using assms(2) by (simp add: unat_word_ariths)
  then have "\<not> is_multiple_of (n * 25 + offset) 25"
    using nat_dvd_not_less [OF \<open>0 < unat offset\<close> \<open>unat offset < 25\<close>] by (simp add: is_multiple_of_unat)
  then show ?thesis
    by (simp add: a_price_between_two_ticks_is_always_rejected_def quarter_lot_five_value spec_price_def
        price_from_minor_def tick_decimal_def split_rendered [OF assms(1)] rendered_simps [OF assms(1)])
qed

lemma rounding_test_passes:
  assumes "decimal_laws D" and "unat m + 25 < 2 ^ 64"
  shows "rounding_always_lands_on_the_grid D m up = Some ()"
proof -
  let ?k = "unat m div 25"
  have below: "m div 25 * 25 \<le> m" "m - m div 25 * 25 < 25"
    by (simp_all add: word_le_nat_alt word_less_nat_alt unat_sub_exact unat_div unat_mod minus_div_mult_eq_mod)
  have on_grid: "is_multiple_of (m div 25 * 25) 25" by (simp add: is_multiple_of_unat)
  have above: "unat (m div 25 + 1) = ?k + 1" "unat ((m div 25 + 1) * 25) = ?k * 25 + 25"
    using assms(2) by (simp_all add: unat_word_ariths unat_div)
  have steps: "checked_add (m div 25) 1 = Some (m div 25 + 1)"
    "checked_mul (m div 25 + 1) 25 = Some ((m div 25 + 1) * 25)"
    using assms(2) above by (simp_all add: checked_add_def checked_mul_def unat_div)
  have "m \<le> (m div 25 + 1) * 25" "\<not> is_multiple_of m 25 \<Longrightarrow> (m div 25 + 1) * 25 - m < 25"
    using above by (simp_all add: word_le_nat_alt word_less_nat_alt unat_sub_exact is_multiple_of_unat) presburger+
  moreover have "is_multiple_of ((m div 25 + 1) * 25) 25" using above by (simp add: is_multiple_of_unat)
  moreover have "m div 25 * 25 = m" if "is_multiple_of m 25"
    using that by (simp add: is_multiple_of_unat word_unat_eq_iff)
  ultimately show ?thesis
    using below on_grid
    by (simp add: rounding_always_lands_on_the_grid_def quarter_lot_five_value round_price_def Let_def
        split_rendered [OF assms(1)] steps)
qed

end
