(* ===== verification/Book_Tests.thy ===== *)
theory Book_Tests
  imports Exercise Instrument_Tests
begin

text \<open>
  The unit tests of \<^verbatim>\<open>src/src/orderbook.rs\<close> (modules \<open>test\<close> and \<open>arena_tests\<close>), each as the script
  it is, run on the model of the book. All of them pass. The \<open>Decimal\<close> type of the two tests on the
  minimum notional, and of the one on an off-tick price, is a parameter.
\<close>

section \<open>Helpers\<close>

definition is_ok :: "'e + 'a \<Rightarrow> bool" where
  "is_ok r = (case r of Inl e \<Rightarrow> False | Inr x \<Rightarrow> True)"

definition refused_with :: "(reject_reason \<Rightarrow> bool) \<Rightarrow> order_book_error + 'a \<Rightarrow> bool" where
  "refused_with P r = (case r of Inl (Rejected reason) \<Rightarrow> P reason | _ \<Rightarrow> False)"

definition try_rest :: "test_book \<Rightarrow> order option \<Rightarrow> ((order_book_error + unit) \<times> test_book) option" where
  "try_rest ob ord = do { ord \<leftarrow> ord; add_order btree_store slot_arena ob ord }"

definition try_send ::
    "test_book \<Rightarrow> order option \<Rightarrow> ((order_book_error + execution_report) \<times> test_book) option" where
  "try_send ob ord = do { ord \<leftarrow> ord; submit btree_store slot_arena ob ord }"

definition cancel_ok :: "test_book \<Rightarrow> exchange_id \<Rightarrow> test_book option" where
  "cancel_ok ob i = do {
     (r, ob) \<leftarrow> cancel_order btree_store slot_arena ob i;
     unwrap r;
     Some ob
   }"

definition levels_count :: "test_book \<Rightarrow> side \<Rightarrow> nat" where
  "levels_count ob sd = length (book_levels btree_store ob sd)"

definition level_at :: "test_book \<Rightarrow> side \<Rightarrow> price \<Rightarrow> (slots, slot_key) level_view option" where
  "level_at ob sd p = do { level \<leftarrow> book_level_at btree_store ob sd p; level }"

text \<open>A book that is not crossed: bids at 99, 98 and 97, asks at 100, 101 and 102.\<close>

definition book_with_depth :: "test_book option" where
  "book_with_depth = do {
     ob \<leftarrow> book;
     ob \<leftarrow> rest_ok ob (test_order Bid 99 110 None ''bid_99'');
     ob \<leftarrow> rest_ok ob (test_order Bid 98 500 None ''bid_98'');
     ob \<leftarrow> rest_ok ob (test_order Bid 97 500 None ''bid_97'');
     ob \<leftarrow> rest_ok ob (test_order Ask 100 100 None ''ask_100'');
     ob \<leftarrow> rest_ok ob (test_order Ask 101 200 None ''ask_101'');
     rest_ok ob (test_order Ask 102 500 None ''ask_102'')
   }"

text \<open>The arrival stamp of the order at a position of a level.\<close>

definition arrival_at :: "test_book \<Rightarrow> side \<Rightarrow> u64 \<Rightarrow> nat \<Rightarrow> u32 option" where
  "arrival_at ob sd p pos = do {
     level \<leftarrow> level_at ob sd (px p);
     ords \<leftarrow> view_orders slot_arena level;
     ord \<leftarrow> nth_opt ords pos;
     Some (arrival ord)
   }"

section \<open>Adding orders\<close>

definition order_book_new_returns_empty_orderbook :: "unit option" where
  "order_book_new_returns_empty_orderbook = do {
     ob \<leftarrow> book;
     assert_that (levels_count ob Bid = 0);
     assert_that (levels_count ob Ask = 0)
   }"

definition add_order_adds_order_to_correct_side_ask :: "unit option" where
  "add_order_adds_order_to_correct_side_ask = do {
     ob \<leftarrow> book;
     (r, ob) \<leftarrow> try_rest ob (test_order Ask 100 10 None ''ex_1'');
     assert_that (is_ok r);
     assert_that (levels_count ob Ask = 1);
     assert_that (levels_count ob Bid = 0)
   }"

definition add_order_adds_order_to_correct_side_bid :: "unit option" where
  "add_order_adds_order_to_correct_side_bid = do {
     ob \<leftarrow> book;
     (r, ob) \<leftarrow> try_rest ob (test_order Bid 100 10 None ''ex_1'');
     assert_that (is_ok r);
     assert_that (levels_count ob Ask = 0);
     assert_that (levels_count ob Bid = 1)
   }"

definition add_order_adds_multiple_orders :: "unit option" where
  "add_order_adds_multiple_orders = do {
     ob \<leftarrow> book;
     (r, ob) \<leftarrow> try_rest ob (test_order Ask 100 10 None ''ex_1'');
     assert_that (is_ok r);
     (r, ob) \<leftarrow> try_rest ob (test_order Ask 100 5 None ''ex_2'');
     assert_that (is_ok r);
     assert_that (levels_count ob Bid = 0);
     level \<leftarrow> level_at ob Ask (px 100);
     q \<leftarrow> view_total slot_arena level;
     assert_that (q = test_qty 15)
   }"

definition maintains_an_index_of_all_orders :: "unit option" where
  "maintains_an_index_of_all_orders = do {
     ob \<leftarrow> book;
     ob \<leftarrow> rest_ok ob (test_order Ask 100 10 None ''ex_1'');
     location \<leftarrow> order_location_of ob (ExchangeId ''ex_1'');
     assert_that (location = In_Book Ask (px 100))
   }"

definition add_order_rejects_duplicate_exchange_id :: "unit option" where
  "add_order_rejects_duplicate_exchange_id = do {
     ob \<leftarrow> book;
     (r, ob) \<leftarrow> try_rest ob (test_order Ask 100 10 None ''same_id'');
     assert_that (is_ok r);
     (r, ob) \<leftarrow> try_rest ob (test_order Bid 99 5 None ''same_id'');
     assert_that (r = Inl ExchangeIdDuplicated)
   }"

lemma adding_tests_pass:
  "order_book_new_returns_empty_orderbook = Some ()"
  "add_order_adds_order_to_correct_side_ask = Some ()"
  "add_order_adds_order_to_correct_side_bid = Some ()"
  "add_order_adds_multiple_orders = Some ()"
  "maintains_an_index_of_all_orders = Some ()"
  "add_order_rejects_duplicate_exchange_id = Some ()"
  by code_simp+

section \<open>Cancelling\<close>

definition cancel_order_cancels_existing_order_by_id :: "unit option" where
  "cancel_order_cancels_existing_order_by_id = do {
     ob \<leftarrow> book;
     (r, ob) \<leftarrow> try_rest ob (test_order Ask 100 10 None ''ex_1'');
     assert_that (is_ok r);
     (r, ob) \<leftarrow> cancel_order btree_store slot_arena ob (ExchangeId ''ex_1'');
     assert_that (is_ok r)
   }"

definition cancel_order_on_bid_side :: "unit option" where
  "cancel_order_on_bid_side = do {
     ob \<leftarrow> book;
     ob \<leftarrow> rest_ok ob (test_order Bid 99 10 None ''bid_order'');
     (r, ob) \<leftarrow> cancel_order btree_store slot_arena ob (ExchangeId ''bid_order'');
     assert_that (is_ok r);
     assert_that (levels_count ob Bid = 0);
     assert_that (ob_index ob = [])
   }"

definition cancel_order_removes_only_target_order_from_level :: "unit option" where
  "cancel_order_removes_only_target_order_from_level = do {
     ob \<leftarrow> book;
     ob \<leftarrow> rest_ok ob (test_order Ask 100 10 None ''ex_1'');
     ob \<leftarrow> rest_ok ob (test_order Ask 100 5 None ''ex_2'');
     ob \<leftarrow> cancel_ok ob (ExchangeId ''ex_1'');
     level \<leftarrow> level_at ob Ask (px 100);
     assert_that (view_count level = 1);
     q \<leftarrow> view_total slot_arena level;
     assert_that (q = test_qty 5);
     assert_that (length (ob_index ob) = 1);
     assert_that (indexed ob (ExchangeId ''ex_2''))
   }"

definition cancel_order_cleans_up_empty_price_level :: "unit option" where
  "cancel_order_cleans_up_empty_price_level = do {
     ob \<leftarrow> book;
     ob \<leftarrow> rest_ok ob (test_order Ask 100 10 None ''ex_1'');
     ob \<leftarrow> cancel_ok ob (ExchangeId ''ex_1'');
     assert_that (levels_count ob Ask = 0);
     assert_that (ob_index ob = [])
   }"

definition cancel_order_with_non_existing_order_returns_error :: "unit option" where
  "cancel_order_with_non_existing_order_returns_error = do {
     ob \<leftarrow> book;
     (r, ob) \<leftarrow> cancel_order btree_store slot_arena ob (ExchangeId ''nonexisting_order'');
     assert_that (r = Inl OrderNotFound)
   }"

lemma cancelling_tests_pass:
  "cancel_order_cancels_existing_order_by_id = Some ()"
  "cancel_order_on_bid_side = Some ()"
  "cancel_order_removes_only_target_order_from_level = Some ()"
  "cancel_order_cleans_up_empty_price_level = Some ()"
  "cancel_order_with_non_existing_order_returns_error = Some ()"
  by code_simp+

section \<open>Queries\<close>

definition best_bid_and_best_ask_return_top_of_book :: "unit option" where
  "best_bid_and_best_ask_return_top_of_book = do {
     ob \<leftarrow> book_with_depth;
     assert_that (bid_is ob (Some (px 99)));
     assert_that (ask_is ob (Some (px 100)))
   }"

definition best_bid_and_ask_are_none_on_empty_book :: "unit option" where
  "best_bid_and_ask_are_none_on_empty_book = do {
     ob \<leftarrow> book;
     assert_that (bid_is ob None);
     assert_that (ask_is ob None)
   }"

definition spread_is_difference_between_best_ask_and_best_bid :: "unit option" where
  "spread_is_difference_between_best_ask_and_best_bid = do {
     ob \<leftarrow> book_with_depth;
     assert_that (spread btree_store ob = Some (Some (Ticks 1)))
   }"

definition spread_is_none_when_either_side_empty :: "unit option" where
  "spread_is_none_when_either_side_empty = do {
     ob \<leftarrow> book;
     assert_that (spread btree_store ob = Some None);
     ob \<leftarrow> rest_ok ob (test_order Bid 99 10 None ''bid'');
     assert_that (spread btree_store ob = Some None)
   }"

definition best_level_returns_top_of_book_with_its_orders :: "unit option" where
  "best_level_returns_top_of_book_with_its_orders = do {
     ob \<leftarrow> book_with_depth;
     bid_level \<leftarrow> best_bid_level btree_store slot_arena ob;
     bid_level \<leftarrow> bid_level;
     assert_that (level_price bid_level = px 99);
     assert_that (price_level_total bid_level = test_qty 110);
     ask_level \<leftarrow> best_ask_level btree_store slot_arena ob;
     ask_level \<leftarrow> ask_level;
     assert_that (level_price ask_level = px 100);
     assert_that (price_level_total ask_level = test_qty 100)
   }"

definition best_level_is_none_on_empty_book :: "unit option" where
  "best_level_is_none_on_empty_book = do {
     ob \<leftarrow> book;
     assert_that (best_bid_level btree_store slot_arena ob = Some None);
     assert_that (best_ask_level btree_store slot_arena ob = Some None)
   }"

definition depth_returns_best_levels_first_aggregated :: "unit option" where
  "depth_returns_best_levels_first_aggregated = do {
     ob \<leftarrow> book_with_depth;
     assert_that (depth btree_store slot_arena ob Bid 2 = Some [(px 99, test_qty 110), (px 98, test_qty 500)]);
     assert_that (depth btree_store slot_arena ob Ask 2 = Some [(px 100, test_qty 100), (px 101, test_qty 200)])
   }"

definition depth_is_capped_by_available_levels :: "unit option" where
  "depth_is_capped_by_available_levels = do {
     ob \<leftarrow> book_with_depth;
     rows \<leftarrow> depth btree_store slot_arena ob Ask 10;
     assert_that (length rows = 3);
     ob \<leftarrow> book;
     assert_that (depth btree_store slot_arena ob Bid 5 = Some [])
   }"

definition depth_sums_all_orders_at_a_level :: "unit option" where
  "depth_sums_all_orders_at_a_level = do {
     ob \<leftarrow> book;
     ob \<leftarrow> rest_ok ob (test_order Ask 100 10 None ''ex_1'');
     ob \<leftarrow> rest_ok ob (test_order Ask 100 5 None ''ex_2'');
     assert_that (depth btree_store slot_arena ob Ask 1 = Some [(px 100, test_qty 15)])
   }"

definition get_order_finds_a_resting_order :: "unit option" where
  "get_order_finds_a_resting_order = do {
     ob \<leftarrow> book_with_depth;
     found \<leftarrow> get_order slot_arena ob (ExchangeId ''ask_101'');
     assert_that (order_side found = Ask);
     assert_that (remaining_quantity found = test_qty 200)
   }"

definition get_order_returns_none_for_unknown_id :: "unit option" where
  "get_order_returns_none_for_unknown_id = do {
     ob \<leftarrow> book_with_depth;
     assert_that (get_order slot_arena ob (ExchangeId ''nope'') = None)
   }"

definition get_order_returns_none_after_cancel :: "unit option" where
  "get_order_returns_none_after_cancel = do {
     ob \<leftarrow> book_with_depth;
     ob \<leftarrow> cancel_ok ob (ExchangeId ''bid_99'');
     assert_that (get_order slot_arena ob (ExchangeId ''bid_99'') = None)
   }"

definition crosses_returns_false_on_empty_book :: "unit option" where
  "crosses_returns_false_on_empty_book = do {
     ob \<leftarrow> book;
     assert_that (crosses btree_store ob Bid (px 100) = Some False);
     assert_that (crosses btree_store ob Ask (px 100) = Some False)
   }"

definition crosses_detects_marketable_orders :: "unit option" where
  "crosses_detects_marketable_orders = do {
     ob \<leftarrow> book_with_depth;
     let cases = [(Bid, 101, True), (Bid, 100, True), (Bid, 99, False),
       (Ask, 98, True), (Ask, 99, True), (Ask, 100, False)];
     assert_that (\<forall>(sd, p, expected)\<in>set cases. crosses btree_store ob sd (px p) = Some expected)
   }"

lemma query_tests_pass:
  "best_bid_and_best_ask_return_top_of_book = Some ()"
  "best_bid_and_ask_are_none_on_empty_book = Some ()"
  "spread_is_difference_between_best_ask_and_best_bid = Some ()"
  "spread_is_none_when_either_side_empty = Some ()"
  "best_level_returns_top_of_book_with_its_orders = Some ()"
  "best_level_is_none_on_empty_book = Some ()"
  "depth_returns_best_levels_first_aggregated = Some ()"
  "depth_is_capped_by_available_levels = Some ()"
  "depth_sums_all_orders_at_a_level = Some ()"
  "get_order_finds_a_resting_order = Some ()"
  "get_order_returns_none_for_unknown_id = Some ()"
  "get_order_returns_none_after_cancel = Some ()"
  "crosses_returns_false_on_empty_book = Some ()"
  "crosses_detects_marketable_orders = Some ()"
  by code_simp+

section \<open>Admission\<close>

text \<open>Prices between 100 and 20000, sizes between 5 and 1000; and the shapes of a refusal.\<close>

definition bounded_spec :: "instrument_spec option" where
  "bounded_spec = do {
     spec \<leftarrow> cents;
     spec \<leftarrow> unwrap (with_price_range spec (Price 100) (Some (Price 20000)) :: unit spec_error + instrument_spec);
     unwrap (with_qty_range spec (test_qty 5) (Some (test_qty 1000)) :: unit spec_error + instrument_spec)
   }"

fun price_below :: "reject_reason \<Rightarrow> bool" where
  "price_below (PriceBelowMinimum _ _) = True"
| "price_below _ = False"

fun price_above :: "reject_reason \<Rightarrow> bool" where
  "price_above (PriceAboveMaximum _ _) = True"
| "price_above _ = False"

fun quantity_below :: "reject_reason \<Rightarrow> bool" where
  "quantity_below (QuantityBelowMinimum _ _) = True"
| "quantity_below _ = False"

fun notional_below :: "reject_reason \<Rightarrow> bool" where
  "notional_below (NotionalBelowMinimum _ _) = True"
| "notional_below _ = False"

definition submit_rejects_a_quantity_below_the_minimum :: "unit option" where
  "submit_rejects_a_quantity_below_the_minimum = do {
     spec \<leftarrow> bounded_spec;
     ob \<leftarrow> book_new btree_store slot_arena spec fifo_matcher;
     (r, ob) \<leftarrow> try_send ob (test_order Bid 5000 4 None ''small'');
     assert_that (r = Inl (Rejected (QuantityBelowMinimum (test_qty 4) (test_qty 5))))
   }"

definition submit_rejects_a_price_outside_the_band :: "unit option" where
  "submit_rejects_a_price_outside_the_band = do {
     spec \<leftarrow> bounded_spec;
     ob \<leftarrow> book_new btree_store slot_arena spec fifo_matcher;
     (r, ob) \<leftarrow> try_send ob (test_order Bid 50 10 None ''cheap'');
     assert_that (refused_with price_below r);
     (r, ob) \<leftarrow> try_send ob (test_order Ask 30000 10 None ''dear'');
     assert_that (refused_with price_above r)
   }"

definition a_rejected_submit_leaves_the_book_bit_identical :: "unit option" where
  "a_rejected_submit_leaves_the_book_bit_identical = do {
     spec \<leftarrow> bounded_spec;
     ob \<leftarrow> book_new btree_store slot_arena spec fifo_matcher;
     (report, ob) \<leftarrow> send_ok ob (test_order Bid 5000 10 None ''good'');
     let seq_before = next_seq ob;
     let depth_before = depth btree_store slot_arena ob Bid 10;
     let index_before = length (ob_index ob);
     (r, ob) \<leftarrow> try_send ob (test_order Bid 5000 4 None ''small'');
     assert_that (\<not> is_ok r);
     assert_that (next_seq ob = seq_before);
     assert_that (depth btree_store slot_arena ob Bid 10 = depth_before);
     assert_that (length (ob_index ob) = index_before)
   }"

definition add_order_is_gated_too :: "unit option" where
  "add_order_is_gated_too = do {
     spec \<leftarrow> bounded_spec;
     ob \<leftarrow> book_new btree_store slot_arena spec fifo_matcher;
     (r, ob) \<leftarrow> try_rest ob (test_order Bid 5000 4 None ''small'');
     assert_that (refused_with quantity_below r);
     assert_that (levels_count ob Bid = 0);
     assert_that (ob_index ob = [])
   }"

definition a_stop_trigger_is_checked_against_the_band :: "unit option" where
  "a_stop_trigger_is_checked_against_the_band = do {
     spec \<leftarrow> bounded_spec;
     ob \<leftarrow> book_new btree_store slot_arena spec fifo_matcher;
     (r, ob) \<leftarrow> try_send ob (stop_market_order Bid 50 10 ''s'');
     assert_that (refused_with price_below r)
   }"

lemma admission_tests_pass:
  "submit_rejects_a_quantity_below_the_minimum = Some ()"
  "submit_rejects_a_price_outside_the_band = Some ()"
  "a_rejected_submit_leaves_the_book_bit_identical = Some ()"
  "add_order_is_gated_too = Some ()"
  "a_stop_trigger_is_checked_against_the_band = Some ()"
  by code_simp+

section \<open>Decimals\<close>

text \<open>The floor is \<open>Decimal::new(10, 0)\<close>, here the argument \<open>ten\<close>.\<close>

definition min_notional_spec :: "'d decimal_ops \<Rightarrow> 'd \<Rightarrow> instrument_spec option" where
  "min_notional_spec D ten = do { spec \<leftarrow> cents; unwrap (with_min_notional D spec ten) }"

definition submit_rejects_an_order_worth_less_than_the_floor :: "'d decimal_ops \<Rightarrow> 'd \<Rightarrow> unit option" where
  "submit_rejects_an_order_worth_less_than_the_floor D ten = do {
     spec \<leftarrow> min_notional_spec D ten;
     ob \<leftarrow> book_new btree_store slot_arena spec fifo_matcher;
     (r, ob) \<leftarrow> try_send ob (test_order Bid 10 99 None ''dust'');
     assert_that (refused_with notional_below r);
     (r, ob) \<leftarrow> try_send ob (test_order Bid 10 100 None ''exact'');
     assert_that (is_ok r)
   }"

definition a_market_order_skips_the_notional_floor :: "'d decimal_ops \<Rightarrow> 'd \<Rightarrow> unit option" where
  "a_market_order_skips_the_notional_floor D ten = do {
     spec \<leftarrow> min_notional_spec D ten;
     ob \<leftarrow> book_new btree_store slot_arena spec fifo_matcher;
     ob \<leftarrow> rest_ok ob (test_order Ask 10 100 None ''maker'');
     (r, ob) \<leftarrow> try_send ob (market_order Bid 1 ''t'');
     assert_that (is_ok r)
   }"

definition an_off_tick_price_cannot_even_be_constructed :: "'d decimal_ops \<Rightarrow> unit option" where
  "an_off_tick_price_cannot_even_be_constructed D = do {
     spec \<leftarrow> unwrap (spec_new 2 0 25 1 :: 'd spec_error + instrument_spec);
     r \<leftarrow> price_from_minor D spec 10003;
     assert_that (off_tick r)
   }"

text \<open>The number ten, as any library of decimals has it, makes a floor of a thousand units.\<close>

lemma min_notional_spec_value:
  assumes "mantissa D ten = 10" and "decimal_scale D ten = 0"
  shows "min_notional_spec D ten = map_option (\<lambda>spec. spec\<lparr>min_notional := Some (Notional 1000)\<rparr>) cents"
proof -
  have floor: "ceil_scaled D ten 2 = Some 1000"
    by (simp add: ceil_scaled_def assms checked_pow10_u128_def checked_mul_def)
  show ?thesis
    by (simp add: min_notional_spec_def with_min_notional_def checked_add_def cents_value floor)
qed

lemma notional_tests_pass:
  assumes "mantissa D ten = 10" and "decimal_scale D ten = 0"
  shows "submit_rejects_an_order_worth_less_than_the_floor D ten = Some ()"
    and "a_market_order_skips_the_notional_floor D ten = Some ()"
  unfolding submit_rejects_an_order_worth_less_than_the_floor_def a_market_order_skips_the_notional_floor_def
    min_notional_spec_value [OF assms]
  by code_simp+

lemma off_tick_test_passes:
  assumes "decimal_laws D"
  shows "an_off_tick_price_cannot_even_be_constructed D = Some ()"
  by (simp add: an_off_tick_price_cannot_even_be_constructed_def spec_new_def MAX_SCALE_def
      price_from_minor_def tick_decimal_def is_multiple_of_def rendered_simps [OF assms])

section \<open>The arrival clock\<close>

definition resting_hands_out_increasing_arrivals :: "unit option" where
  "resting_hands_out_increasing_arrivals = do {
     ob \<leftarrow> book;
     ob \<leftarrow> rest_ok ob (test_order Bid 99 10 None ''first'');
     ob \<leftarrow> rest_ok ob (test_order Bid 99 10 None ''second'');
     ob \<leftarrow> rest_ok ob (test_order Ask 101 10 None ''third'');
     n \<leftarrow> arrival_at ob Bid 99 0;
     assert_that (n = 1);
     n \<leftarrow> arrival_at ob Bid 99 1;
     assert_that (n = 2);
     n \<leftarrow> arrival_at ob Ask 101 0;
     assert_that (n = 3)
   }"

definition arrivals_count_rests_not_submissions :: "unit option" where
  "arrivals_count_rests_not_submissions = do {
     ob \<leftarrow> book;
     ob \<leftarrow> rest_ok ob (test_order Ask 100 10 None ''maker'');
     (report, ob) \<leftarrow> send_ok ob (market_order Bid 2 ''t1'');
     (report, ob) \<leftarrow> send_ok ob (market_order Bid 2 ''t2'');
     assert_that (next_arrival ob = 2);
     assert_that (next_seq ob = 3)
   }"

definition a_rejected_add_burns_no_arrival :: "unit option" where
  "a_rejected_add_burns_no_arrival = do {
     ob \<leftarrow> book;
     let before = next_arrival ob;
     (r, ob) \<leftarrow> try_rest ob (client_order ''c'' ''m'' Bid Market 1);
     assert_that (r = Inl NotRestable);
     ob \<leftarrow> rest_ok ob (test_order Bid 99 10 None ''dup'');
     (r, ob) \<leftarrow> try_rest ob (test_order Bid 99 10 None ''dup'');
     assert_that (r = Inl ExchangeIdDuplicated);
     assert_that (next_arrival ob = before + 1)
   }"

definition a_partially_filled_taker_is_stamped_at_rest_time :: "unit option" where
  "a_partially_filled_taker_is_stamped_at_rest_time = do {
     ob \<leftarrow> book;
     ob \<leftarrow> rest_ok ob (test_order Ask 100 5 None ''maker'');
     ob \<leftarrow> rest_ok ob (test_order Bid 100 10 None ''resident'');
     (report, ob) \<leftarrow> send_ok ob (limit_order Bid 100 10 ''t'');
     n \<leftarrow> arrival_at ob Bid 100 0;
     assert_that (n = 2);
     n \<leftarrow> arrival_at ob Bid 100 1;
     assert_that (n = 3)
   }"

definition a_stop_is_aged_from_when_it_rested_not_when_it_parked :: "unit option" where
  "a_stop_is_aged_from_when_it_rested_not_when_it_parked = do {
     ob \<leftarrow> book;
     (report, ob) \<leftarrow> send_ok ob (client_order ''stopper'' ''stop'' Ask (stop_limit (px 99) (px 105)) 10);
     assert_that (next_arrival ob = 1);
     ob \<leftarrow> rest_ok ob (test_order Ask 105 10 None ''latecomer'');
     ob \<leftarrow> rest_ok ob (test_order Bid 99 1 None ''bid_99'');
     (report, ob) \<leftarrow> send_ok ob (limit_order Ask 99 1 ''t'');
     n \<leftarrow> arrival_at ob Ask 105 0;
     assert_that (n = 1);
     n \<leftarrow> arrival_at ob Ask 105 1;
     assert_that (n = 3)
   }"

lemma arrival_tests_pass:
  "resting_hands_out_increasing_arrivals = Some ()"
  "arrivals_count_rests_not_submissions = Some ()"
  "a_rejected_add_burns_no_arrival = Some ()"
  "a_partially_filled_taker_is_stamped_at_rest_time = Some ()"
  "a_stop_is_aged_from_when_it_rested_not_when_it_parked = Some ()"
  by code_simp+

section \<open>The shared arena\<close>

definition snapshots_and_clones_survive_partial_fills_and_slot_reuse :: "unit option" where
  "snapshots_and_clones_survive_partial_fills_and_slot_reuse = do {
     spec \<leftarrow> arena_test_spec;
     ob \<leftarrow> book_new btree_store slot_arena spec fifo_matcher;
     ob \<leftarrow> rest_ok ob (test_order Ask 100 10 None ''a'');
     ob \<leftarrow> rest_ok ob (test_order Ask 100 20 None ''b'');
     snapshot \<leftarrow> best_ask_level btree_store slot_arena ob;
     snapshot \<leftarrow> snapshot;
     view \<leftarrow> book_best_level btree_store ob Ask;
     view \<leftarrow> view;
     ords \<leftarrow> view_orders slot_arena view;
     assert_that (view_count view = of_nat (length ords));
     makers \<leftarrow> view_makers slot_arena view;
     assert_that (makers = price_level_makers snapshot);
     let clone = ob;
     (report, clone) \<leftarrow> send_ok clone (test_order Bid 100 15 None ''taker'');
     found \<leftarrow> get_order slot_arena clone (ExchangeId ''b'');
     assert_that (remaining_quantity found = test_qty 15);
     clone \<leftarrow> rest_ok clone (test_order Ask 101 3 None ''c'');
     assert_that (get_order slot_arena ob (ExchangeId ''c'') = None);
     assert_that (best_ask_level btree_store slot_arena ob = Some (Some snapshot));
     ob \<leftarrow> cancel_ok ob (ExchangeId ''a'');
     assert_that (price_level_count snapshot = 2);
     assert_that (price_level_total snapshot = test_qty 30);
     assert_ownership btree_store slot_arena slot_keys clone;
     assert_ownership btree_store slot_arena slot_keys ob;
     assert_that (map order_id (level_orders snapshot) = [ExchangeId ''a'', ExchangeId ''b''])
   }"

text \<open>
  What the debug text of a book shows: every field, the matcher apart, which no operation changes.
\<close>

definition shows_the_same :: "('s, 'm, 'k) order_book \<Rightarrow> ('s, 'm, 'k) order_book \<Rightarrow> bool" where
  "shows_the_same b c \<longleftrightarrow>
     ob_store b = ob_store c \<and> ob_nodes b = ob_nodes c \<and> stop_bids b = stop_bids c \<and>
     stop_asks b = stop_asks c \<and> last_trade_price b = last_trade_price c \<and> ob_index b = ob_index c \<and>
     next_seq b = next_seq c \<and> next_arrival b = next_arrival c \<and> ob_spec b = ob_spec c"

definition duplicate_and_storage_rejections_leave_no_arena_or_index_entry ::
    "(usize \<Rightarrow> bool) \<Rightarrow> (usize \<Rightarrow> bool) \<Rightarrow> unit option" where
  "duplicate_and_storage_rejections_leave_no_arena_or_index_entry rb ra = do {
     spec \<leftarrow> arena_test_spec;
     ob \<leftarrow> try_new (ladder_store rb ra) slot_arena spec fifo_matcher;
     ob \<leftarrow> unwrap ob;
     ord \<leftarrow> test_order Ask 100 1 None ''a'';
     (r, ob) \<leftarrow> add_order (ladder_store rb ra) slot_arena ob ord;
     unwrap r;
     let before = ob;
     ord \<leftarrow> test_order Ask 101 2 None ''a'';
     (r, ob) \<leftarrow> add_order (ladder_store rb ra) slot_arena ob ord;
     assert_that (r = Inl ExchangeIdDuplicated);
     assert_that (shows_the_same ob before);
     ob \<leftarrow> try_new (ladder_store rb ra) slot_arena spec fifo_matcher;
     ob \<leftarrow> unwrap ob;
     narrow \<leftarrow> cents;
     narrow \<leftarrow> unwrap (with_price_range narrow (px 100) (Some (px 101)) :: unit spec_error + instrument_spec);
     store \<leftarrow> unwrap (ladder_try_new rb ra narrow);
     let ob = ob\<lparr>ob_store := store\<rparr>;
     let before = ob;
     ord \<leftarrow> test_order Ask 105 1 None ''outside'';
     (r, ob) \<leftarrow> add_order (ladder_store rb ra) slot_arena ob ord;
     assert_that (r = Inl (Storage PriceOutsideRange));
     assert_that (shows_the_same ob before);
     assert_ownership (ladder_store rb ra) slot_arena slot_keys ob
   }"

lemma arena_tests_pass:
  "snapshots_and_clones_survive_partial_fills_and_slot_reuse = Some ()"
  "duplicate_and_storage_rejections_leave_no_arena_or_index_entry (\<lambda>_. True) (\<lambda>_. True) = Some ()"
  by code_simp+

end
