(* ===== verification/Allocation_Tests.thy ===== *)
theory Allocation_Tests
  imports Allocation_Oracles
begin

text \<open>
  The unit tests of \<^verbatim>\<open>src/src/allocation.rs\<close> (module \<open>tests\<close>) as the scripts they are, run on the
  model of the three policies. All of them pass; the three that must panic do.
\<close>

section \<open>First in, first out\<close>

definition empty_level_yields_no_fills :: "unit option" where
  "empty_level_yields_no_fills = do {
     let makers = level_of [];
     let mtch = fifo_matcher;
     let fills = allocate mtch (test_qty 100) makers NOW;
     assert_that (fills = []);
     assert_contract fills (test_qty 100) makers
   }"

definition nothing_available_yields_no_fills :: "unit option" where
  "nothing_available_yields_no_fills = do {
     let makers = level_of [10, 10];
     let mtch = fifo_matcher;
     let fills = allocate mtch (test_qty 0) makers NOW;
     assert_that (fills = []);
     assert_contract fills (test_qty 0) makers
   }"

definition partial_fill_of_the_front_order :: "unit option" where
  "partial_fill_of_the_front_order = do {
     let makers = level_of [10];
     let mtch = fifo_matcher;
     let fills = allocate mtch (test_qty 4) makers NOW;
     assert_that (fills = [test_fill 0 4]);
     assert_contract fills (test_qty 4) makers
   }"

definition exact_boundary_does_not_emit_a_zero_fill :: "unit option" where
  "exact_boundary_does_not_emit_a_zero_fill = do {
     let makers = level_of [10, 10];
     let mtch = fifo_matcher;
     let fills = allocate mtch (test_qty 10) makers NOW;
     assert_that (fills = [test_fill 0 10]);
     assert_contract fills (test_qty 10) makers
   }"

definition walks_the_queue_front_to_back :: "unit option" where
  "walks_the_queue_front_to_back = do {
     let makers = level_of [10, 10, 10];
     let mtch = fifo_matcher;
     let fills = allocate mtch (test_qty 25) makers NOW;
     assert_that (fills = [test_fill 0 10, test_fill 1 10, test_fill 2 5]);
     assert_contract fills (test_qty 25) makers
   }"

definition uneven_quantities_drain_in_order :: "unit option" where
  "uneven_quantities_drain_in_order = do {
     let makers = level_of [5, 3, 7];
     let mtch = fifo_matcher;
     let fills = allocate mtch (test_qty 12) makers NOW;
     assert_that (fills = [test_fill 0 5, test_fill 1 3, test_fill 2 4]);
     assert_contract fills (test_qty 12) makers
   }"

definition taker_larger_than_the_level_takes_everything :: "unit option" where
  "taker_larger_than_the_level_takes_everything = do {
     let makers = level_of [10, 10, 10];
     let mtch = fifo_matcher;
     let fills = allocate mtch (test_qty 100) makers NOW;
     assert_that (length fills = 3);
     assert_that (sum_list (map (\<lambda>f. base (fill_quantity f)) fills) = 30);
     assert_contract fills (test_qty 100) makers
   }"

definition skips_a_zero_remaining_order_in_the_middle :: "unit option" where
  "skips_a_zero_remaining_order_in_the_middle = do {
     let makers = level_of [10, 0, 10];
     let mtch = fifo_matcher;
     let fills = allocate mtch (test_qty 15) makers NOW;
     assert_that (fills = [test_fill 0 10, test_fill 2 5]);
     assert_contract fills (test_qty 15) makers
   }"

definition skips_a_trailing_zero_remaining_order :: "unit option" where
  "skips_a_trailing_zero_remaining_order = do {
     let makers = level_of [10, 0];
     let mtch = fifo_matcher;
     let fills = allocate mtch (test_qty 10) makers NOW;
     assert_that (fills = [test_fill 0 10]);
     assert_contract fills (test_qty 10) makers
   }"

lemma fifo_tests_pass:
  "empty_level_yields_no_fills = Some ()"
  "nothing_available_yields_no_fills = Some ()"
  "partial_fill_of_the_front_order = Some ()"
  "exact_boundary_does_not_emit_a_zero_fill = Some ()"
  "walks_the_queue_front_to_back = Some ()"
  "uneven_quantities_drain_in_order = Some ()"
  "taker_larger_than_the_level_takes_everything = Some ()"
  "skips_a_zero_remaining_order_in_the_middle = Some ()"
  "skips_a_trailing_zero_remaining_order = Some ()"
  by code_simp+

section \<open>Pro-rata\<close>

definition pro_rata_splits_the_textbook_example_evenly :: "unit option" where
  "pro_rata_splits_the_textbook_example_evenly = do {
     let makers = level_of [100, 200, 300];
     mtch \<leftarrow> test_pro_rata;
     let fills = allocate mtch (test_qty 300) makers NOW;
     assert_that (fills = [test_fill 0 50, test_fill 1 100, test_fill 2 150]);
     assert_contract fills (test_qty 300) makers;
     assert_proportional fills (test_qty 300) makers 1
   }"

definition pro_rata_taker_larger_than_the_level_takes_everything :: "unit option" where
  "pro_rata_taker_larger_than_the_level_takes_everything = do {
     let makers = level_of [10, 20, 30];
     mtch \<leftarrow> test_pro_rata;
     let fills = allocate mtch (test_qty 1000) makers NOW;
     assert_that (fills = [test_fill 0 10, test_fill 1 20, test_fill 2 30]);
     assert_contract fills (test_qty 1000) makers
   }"

definition pro_rata_taker_exactly_the_level_takes_everything :: "unit option" where
  "pro_rata_taker_exactly_the_level_takes_everything = do {
     let makers = level_of [10, 20, 30];
     mtch \<leftarrow> test_pro_rata;
     let fills = allocate mtch (test_qty 60) makers NOW;
     assert_that (sum_list (map (\<lambda>f. base (fill_quantity f)) fills) = 60);
     assert_that (length fills = 3);
     assert_contract fills (test_qty 60) makers
   }"

definition pro_rata_hands_a_single_crumb_to_the_front :: "unit option" where
  "pro_rata_hands_a_single_crumb_to_the_front = do {
     let makers = level_of [10, 10, 10];
     mtch \<leftarrow> test_pro_rata;
     let fills = allocate mtch (test_qty 10) makers NOW;
     assert_that (fills = [test_fill 0 4, test_fill 1 3, test_fill 2 3]);
     assert_contract fills (test_qty 10) makers;
     assert_proportional fills (test_qty 10) makers 1
   }"

definition pro_rata_walks_the_queue_placing_every_crumb :: "unit option" where
  "pro_rata_walks_the_queue_placing_every_crumb = do {
     let makers = level_of [10, 10, 10];
     mtch \<leftarrow> test_pro_rata;
     let fills = allocate mtch (test_qty 11) makers NOW;
     assert_that (fills = [test_fill 0 4, test_fill 1 4, test_fill 2 3]);
     assert_contract fills (test_qty 11) makers;
     assert_proportional fills (test_qty 11) makers 1
   }"

definition pro_rata_is_not_monotone_in_size :: "unit option" where
  "pro_rata_is_not_monotone_in_size = do {
     let makers = level_of [3, 4];
     mtch \<leftarrow> test_pro_rata;
     let fills = allocate mtch (test_qty 3) makers NOW;
     assert_that (fills = [test_fill 0 2, test_fill 1 1]);
     assert_contract fills (test_qty 3) makers;
     assert_proportional fills (test_qty 3) makers 1
   }"

definition pro_rata_degenerates_to_fifo_for_a_tiny_taker :: "unit option" where
  "pro_rata_degenerates_to_fifo_for_a_tiny_taker = do {
     let makers = level_of [10, 10, 10];
     mtch \<leftarrow> test_pro_rata;
     let fills = allocate mtch (test_qty 1) makers NOW;
     assert_that (fills = [test_fill 0 1]);
     assert_contract fills (test_qty 1) makers;
     assert_proportional fills (test_qty 1) makers 1
   }"

definition pro_rata_allocates_purely_from_the_remainder_pass :: "unit option" where
  "pro_rata_allocates_purely_from_the_remainder_pass = do {
     let makers = level_of [1, 1, 1, 1];
     mtch \<leftarrow> test_pro_rata;
     let fills = allocate mtch (test_qty 3) makers NOW;
     assert_that (fills = [test_fill 0 1, test_fill 1 1, test_fill 2 1]);
     assert_contract fills (test_qty 3) makers;
     assert_proportional fills (test_qty 3) makers 1
   }"

definition pro_rata_skips_a_zero_remaining_order :: "unit option" where
  "pro_rata_skips_a_zero_remaining_order = do {
     let makers = level_of [10, 0, 10];
     mtch \<leftarrow> test_pro_rata;
     let fills = allocate mtch (test_qty 15) makers NOW;
     assert_that (fills = [test_fill 0 8, test_fill 2 7]);
     assert_contract fills (test_qty 15) makers;
     assert_proportional fills (test_qty 15) makers 1
   }"

definition pro_rata_empty_level_yields_no_fills :: "unit option" where
  "pro_rata_empty_level_yields_no_fills = do {
     let makers = level_of [];
     mtch \<leftarrow> test_pro_rata;
     let fills = allocate mtch (test_qty 100) makers NOW;
     assert_that (fills = []);
     assert_contract fills (test_qty 100) makers
   }"

definition pro_rata_nothing_available_yields_no_fills :: "unit option" where
  "pro_rata_nothing_available_yields_no_fills = do {
     let makers = level_of [10, 10];
     mtch \<leftarrow> test_pro_rata;
     let fills = allocate mtch (test_qty 0) makers NOW;
     assert_that (fills = []);
     assert_contract fills (test_qty 0) makers
   }"

definition pro_rata_survives_products_that_overflow_u64 :: "unit option" where
  "pro_rata_survives_products_that_overflow_u64 = do {
     let makers = level_of [10000000000000000000, 8000000000000000000];
     mtch \<leftarrow> test_pro_rata;
     let fills = allocate mtch (test_qty 9000000000000000000) makers NOW;
     assert_that (fills = [test_fill 0 5000000000000000000, test_fill 1 4000000000000000000]);
     assert_contract fills (test_qty 9000000000000000000) makers
   }"

definition pro_rata_survives_a_level_total_that_overflows_u64 :: "unit option" where
  "pro_rata_survives_a_level_total_that_overflows_u64 = do {
     let makers = level_of [18446744073709551615, 18446744073709551615];
     mtch \<leftarrow> test_pro_rata;
     let fills = allocate mtch (test_qty 100) makers NOW;
     assert_that (fills = [test_fill 0 50, test_fill 1 50]);
     assert_contract fills (test_qty 100) makers
   }"

definition pro_rata_never_splits_a_lot :: "unit option" where
  "pro_rata_never_splits_a_lot = do {
     let makers = level_of [10, 20];
     mtch \<leftarrow> pro_rata_new 10;
     let fills = allocate mtch (test_qty 10) makers NOW;
     assert_that (fills = [test_fill 0 10]);
     assert_contract fills (test_qty 10) makers;
     assert_proportional fills (test_qty 10) makers 10
   }"

definition pro_rata_walks_the_queue_placing_whole_lots :: "unit option" where
  "pro_rata_walks_the_queue_placing_whole_lots = do {
     let makers = level_of [10, 20, 30];
     mtch \<leftarrow> pro_rata_new 10;
     let fills = allocate mtch (test_qty 50) makers NOW;
     assert_that (fills = [test_fill 0 10, test_fill 1 20, test_fill 2 20]);
     assert_contract fills (test_qty 50) makers;
     assert_proportional fills (test_qty 50) makers 10
   }"

definition pro_rata_gives_a_lone_lot_to_the_front :: "unit option" where
  "pro_rata_gives_a_lone_lot_to_the_front = do {
     let makers = level_of [100, 100, 100];
     mtch \<leftarrow> pro_rata_new 100;
     let fills = allocate mtch (test_qty 100) makers NOW;
     assert_that (fills = [test_fill 0 100]);
     assert_contract fills (test_qty 100) makers
   }"

definition pro_rata_takes_the_whole_level_in_lots :: "unit option" where
  "pro_rata_takes_the_whole_level_in_lots = do {
     let makers = level_of [10, 20, 30];
     mtch \<leftarrow> pro_rata_new 10;
     let fills = allocate mtch (test_qty 1000) makers NOW;
     assert_that (fills = [test_fill 0 10, test_fill 1 20, test_fill 2 30]);
     assert_contract fills (test_qty 1000) makers
   }"

definition pro_rata_allocates_purely_from_the_lot_sweep :: "unit option" where
  "pro_rata_allocates_purely_from_the_lot_sweep = do {
     let makers = level_of [500, 500, 500, 500];
     mtch \<leftarrow> pro_rata_new 500;
     let fills = allocate mtch (test_qty 1500) makers NOW;
     assert_that (fills = [test_fill 0 500, test_fill 1 500, test_fill 2 500]);
     assert_contract fills (test_qty 1500) makers
   }"

lemma pro_rata_tests_pass:
  "pro_rata_splits_the_textbook_example_evenly = Some ()"
  "pro_rata_taker_larger_than_the_level_takes_everything = Some ()"
  "pro_rata_taker_exactly_the_level_takes_everything = Some ()"
  "pro_rata_hands_a_single_crumb_to_the_front = Some ()"
  "pro_rata_walks_the_queue_placing_every_crumb = Some ()"
  "pro_rata_is_not_monotone_in_size = Some ()"
  "pro_rata_degenerates_to_fifo_for_a_tiny_taker = Some ()"
  "pro_rata_allocates_purely_from_the_remainder_pass = Some ()"
  "pro_rata_skips_a_zero_remaining_order = Some ()"
  "pro_rata_empty_level_yields_no_fills = Some ()"
  "pro_rata_nothing_available_yields_no_fills = Some ()"
  "pro_rata_survives_products_that_overflow_u64 = Some ()"
  "pro_rata_survives_a_level_total_that_overflows_u64 = Some ()"
  "pro_rata_never_splits_a_lot = Some ()"
  "pro_rata_walks_the_queue_placing_whole_lots = Some ()"
  "pro_rata_gives_a_lone_lot_to_the_front = Some ()"
  "pro_rata_takes_the_whole_level_in_lots = Some ()"
  "pro_rata_allocates_purely_from_the_lot_sweep = Some ()"
  by code_simp+

section \<open>Time-weighted pro-rata\<close>

definition time_pro_rata_favours_the_older_maker :: "unit option" where
  "time_pro_rata_favours_the_older_maker = do {
     let makers = level_with_arrivals [(10, 0), (10, 1), (10, 2)];
     mtch \<leftarrow> test_time_pro_rata;
     let fills = allocate mtch (test_qty 15) makers 3;
     assert_that (fills = [test_fill 0 8, test_fill 1 5, test_fill 2 2]);
     assert_contract fills (test_qty 15) makers;
     mtch \<leftarrow> test_pro_rata;
     let blind = allocate mtch (test_qty 15) makers 3;
     assert_that (blind = [test_fill 0 5, test_fill 1 5, test_fill 2 5])
   }"

definition time_pro_rata_caps_a_maker_who_is_owed_more_than_it_holds :: "unit option" where
  "time_pro_rata_caps_a_maker_who_is_owed_more_than_it_holds = do {
     let makers = level_with_arrivals [(1, 0), (100, 9)];
     mtch \<leftarrow> test_time_pro_rata;
     let fills = allocate mtch (test_qty 50) makers 10;
     assert_that (fills = [test_fill 0 1, test_fill 1 49]);
     assert_contract fills (test_qty 50) makers
   }"

definition time_pro_rata_caps_again_after_redistributing :: "unit option" where
  "time_pro_rata_caps_again_after_redistributing = do {
     let makers = level_with_arrivals [(1, 0), (10, 990), (100, 999)];
     mtch \<leftarrow> test_time_pro_rata;
     let fills = allocate mtch (test_qty 100) makers 1000;
     assert_that (fills = [test_fill 0 1, test_fill 1 10, test_fill 2 89]);
     assert_contract fills (test_qty 100) makers
   }"

definition time_pro_rata_with_equal_arrivals_is_pro_rata :: "unit option" where
  "time_pro_rata_with_equal_arrivals_is_pro_rata = do {
     let makers = level_of [10, 10, 10];
     mtch \<leftarrow> test_time_pro_rata;
     let fills = allocate mtch (test_qty 10) makers NOW;
     assert_that (fills = [test_fill 0 4, test_fill 1 3, test_fill 2 3]);
     blind \<leftarrow> test_pro_rata;
     assert_that (fills = allocate blind (test_qty 10) makers NOW);
     assert_contract fills (test_qty 10) makers
   }"

definition time_pro_rata_stops_rewarding_beyond_the_age_cap :: "unit option" where
  "time_pro_rata_stops_rewarding_beyond_the_age_cap = do {
     let makers = level_with_arrivals [(10, 0), (10, 990)];
     t \<leftarrow> time_pro_rata_new 1;
     t \<leftarrow> with_tick t 1;
     t \<leftarrow> with_max_age t 10;
     let mtch = time_pro_rata_matcher t;
     let fills = allocate mtch (test_qty 10) makers 1000;
     assert_that (fills = [test_fill 0 5, test_fill 1 5]);
     assert_contract fills (test_qty 10) makers
   }"

definition time_pro_rata_treats_an_arrival_after_now_as_brand_new :: "unit option" where
  "time_pro_rata_treats_an_arrival_after_now_as_brand_new = do {
     let makers = level_with_arrivals [(10, 0), (10, 2000)];
     mtch \<leftarrow> test_time_pro_rata;
     let fills = allocate mtch (test_qty 10) makers 1000;
     assert_that (fills = [test_fill 0 10]);
     assert_contract fills (test_qty 10) makers
   }"

definition time_pro_rata_taker_larger_than_the_level_takes_everything :: "unit option" where
  "time_pro_rata_taker_larger_than_the_level_takes_everything = do {
     let makers = level_with_arrivals [(10, 0), (20, 5)];
     mtch \<leftarrow> test_time_pro_rata;
     let fills = allocate mtch (test_qty 1000) makers 10;
     assert_that (fills = [test_fill 0 10, test_fill 1 20]);
     assert_contract fills (test_qty 1000) makers
   }"

definition time_pro_rata_empty_level_yields_no_fills :: "unit option" where
  "time_pro_rata_empty_level_yields_no_fills = do {
     let makers = level_of [];
     mtch \<leftarrow> test_time_pro_rata;
     let fills = allocate mtch (test_qty 100) makers NOW;
     assert_that (fills = []);
     assert_contract fills (test_qty 100) makers
   }"

definition time_pro_rata_nothing_available_yields_no_fills :: "unit option" where
  "time_pro_rata_nothing_available_yields_no_fills = do {
     let makers = level_with_arrivals [(10, 0), (10, 5)];
     mtch \<leftarrow> test_time_pro_rata;
     let fills = allocate mtch (test_qty 0) makers 10;
     assert_that (fills = []);
     assert_contract fills (test_qty 0) makers
   }"

definition time_pro_rata_skips_a_zero_remaining_maker :: "unit option" where
  "time_pro_rata_skips_a_zero_remaining_maker = do {
     let makers = level_with_arrivals [(10, 0), (0, 1), (10, 2)];
     mtch \<leftarrow> test_time_pro_rata;
     let fills = allocate mtch (test_qty 10) makers 3;
     assert_that (fills = [test_fill 0 8, test_fill 2 2]);
     assert_contract fills (test_qty 10) makers
   }"

definition time_pro_rata_never_splits_a_lot :: "unit option" where
  "time_pro_rata_never_splits_a_lot = do {
     let makers = level_with_arrivals [(10, 0), (20, 5)];
     mtch \<leftarrow> tick_one 10;
     let fills = allocate mtch (test_qty 10) makers 10;
     assert_that (fills = [test_fill 0 10]);
     assert_contract fills (test_qty 10) makers
   }"

definition time_pro_rata_gives_a_lone_lot_to_the_front :: "unit option" where
  "time_pro_rata_gives_a_lone_lot_to_the_front = do {
     let makers = level_with_arrivals [(100, 0), (100, 1), (100, 2)];
     mtch \<leftarrow> tick_one 100;
     let fills = allocate mtch (test_qty 100) makers 3;
     assert_that (fills = [test_fill 0 100]);
     assert_contract fills (test_qty 100) makers
   }"

definition time_pro_rata_survives_weights_that_overflow_u64 :: "unit option" where
  "time_pro_rata_survives_weights_that_overflow_u64 = do {
     let makers = level_with_arrivals [(18446744073709551615, 0), (18446744073709551615, 500)];
     mtch \<leftarrow> test_time_pro_rata;
     let fills = allocate mtch (test_qty 100) makers 1000;
     assert_contract fills (test_qty 100) makers;
     assert_that (length fills = 2);
     older \<leftarrow> nth_opt fills 0;
     younger \<leftarrow> nth_opt fills 1;
     assert_that (fill_quantity younger < fill_quantity older)
   }"

lemma time_pro_rata_tests_pass:
  "time_pro_rata_favours_the_older_maker = Some ()"
  "time_pro_rata_caps_a_maker_who_is_owed_more_than_it_holds = Some ()"
  "time_pro_rata_caps_again_after_redistributing = Some ()"
  "time_pro_rata_with_equal_arrivals_is_pro_rata = Some ()"
  "time_pro_rata_stops_rewarding_beyond_the_age_cap = Some ()"
  "time_pro_rata_treats_an_arrival_after_now_as_brand_new = Some ()"
  "time_pro_rata_taker_larger_than_the_level_takes_everything = Some ()"
  "time_pro_rata_empty_level_yields_no_fills = Some ()"
  "time_pro_rata_nothing_available_yields_no_fills = Some ()"
  "time_pro_rata_skips_a_zero_remaining_maker = Some ()"
  "time_pro_rata_never_splits_a_lot = Some ()"
  "time_pro_rata_gives_a_lone_lot_to_the_front = Some ()"
  "time_pro_rata_survives_weights_that_overflow_u64 = Some ()"
  by code_simp+

section \<open>Configurations\<close>

definition a_zero_lot_matcher_is_rejected_loudly :: "matcher option" where
  "a_zero_lot_matcher_is_rejected_loudly = pro_rata_new 0"

definition a_zero_lot_time_pro_rata_matcher_is_rejected_loudly :: "time_pro_rata option" where
  "a_zero_lot_time_pro_rata_matcher_is_rejected_loudly = time_pro_rata_new 0"

definition a_zero_tick_is_rejected_loudly :: "time_pro_rata option" where
  "a_zero_tick_is_rejected_loudly = do { t \<leftarrow> time_pro_rata_new 1; with_tick t 0 }"

definition only_the_allocators_that_divide_declare_a_lot :: "unit option" where
  "only_the_allocators_that_divide_declare_a_lot = do {
     let mtch = fifo_matcher;
     assert_that (matcher_lot_size mtch = None);
     mtch \<leftarrow> pro_rata_new 25;
     assert_that (matcher_lot_size mtch = Some 25);
     t \<leftarrow> time_pro_rata_new 25;
     let mtch = time_pro_rata_matcher t;
     assert_that (matcher_lot_size mtch = Some 25)
   }"

lemma configuration_tests_pass:
  "a_zero_lot_matcher_is_rejected_loudly = None"
  "a_zero_lot_time_pro_rata_matcher_is_rejected_loudly = None"
  "a_zero_tick_is_rejected_loudly = None"
  "only_the_allocators_that_divide_declare_a_lot = Some ()"
  by code_simp+

end
