(* ===== verification/Component_Tests.thy ===== *)
theory Component_Tests
  imports Exercise
begin

text \<open>
  The unit tests of \<^verbatim>\<open>src/src/types.rs\<close>, \<^verbatim>\<open>src/src/storage.rs\<close> and \<^verbatim>\<open>src/src/order_queue.rs\<close>, as the
  scripts they are, run on the models of the price level, of the three stores and of the queue.
\<close>

section \<open>Price levels\<close>

definition test_price_level :: "side \<Rightarrow> u64 \<Rightarrow> price_level" where
  "test_price_level sd p = price_level_new (px p) sd"

definition add_ok :: "price_level \<Rightarrow> order option \<Rightarrow> price_level option" where
  "add_ok level ord = do { ord \<leftarrow> ord; unwrap (price_level_add level ord) }"

definition price_level_constructor_works :: "unit option" where
  "price_level_constructor_works = do {
     let level = test_price_level Ask 500;
     assert_that (level_price level = px 500);
     assert_that (level_side level = Ask);
     assert_that (price_level_count level = 0)
   }"

definition price_level_add_order_works :: "unit option" where
  "price_level_add_order_works = do {
     let level = test_price_level Ask 100;
     level \<leftarrow> add_ok level (test_order Ask 100 10 None ''ex_1'');
     assert_that (\<not> price_level_is_empty level)
   }"

text \<open>A refused order leaves the level as it was, so the level after the call is the one before.\<close>

definition price_level_add_order_invalid_level_doesnt_change_orders_of_level :: "unit option" where
  "price_level_add_order_invalid_level_doesnt_change_orders_of_level = do {
     let level = test_price_level Bid 100;
     ord \<leftarrow> test_order Ask 100 10 None ''ex_1'';
     let r = price_level_add level ord;
     assert_that (r = Inl InvalidSide);
     let level = (case r of Inl e \<Rightarrow> level | Inr l \<Rightarrow> l);
     assert_that (price_level_is_empty level)
   }"

definition price_level_remove_order_works :: "unit option" where
  "price_level_remove_order_works = do {
     let level = test_price_level Ask 100;
     to_remove \<leftarrow> test_order Ask 100 10 None ''ex_1'';
     let i = order_id to_remove;
     level \<leftarrow> unwrap (price_level_add level to_remove);
     let r = price_level_remove level i;
     assert_that (r \<noteq> None);
     let level = (case r of None \<Rightarrow> level | Some (ord, l) \<Rightarrow> l);
     assert_that (price_level_is_empty level)
   }"

definition price_level_remote_nonexistent_doesnt_crash :: "unit option" where
  "price_level_remote_nonexistent_doesnt_crash = do {
     let level = test_price_level Ask 100;
     let level = (case price_level_remove level (ExchangeId ''ex_1'') of None \<Rightarrow> level | Some (ord, l) \<Rightarrow> l);
     assert_that (price_level_is_empty level)
   }"

definition price_level_is_empty_works :: "unit option" where
  "price_level_is_empty_works = do {
     let level = test_price_level Ask 100;
     assert_that (price_level_is_empty level);
     level \<leftarrow> add_ok level (test_order Ask 100 10 None ''ex_1'');
     assert_that (\<not> price_level_is_empty level)
   }"

definition price_level_total_quantity_works :: "unit option" where
  "price_level_total_quantity_works = do {
     let level = test_price_level Bid 100;
     level \<leftarrow> add_ok level (test_order Bid 100 10 None ''order_1'');
     level \<leftarrow> add_ok level (test_order Bid 100 35 None ''order_2'');
     assert_that (price_level_total level = test_qty 45)
   }"

definition price_level_total_quantity_with_prefilled_order_works :: "unit option" where
  "price_level_total_quantity_with_prefilled_order_works = do {
     let level = test_price_level Bid 100;
     level \<leftarrow> add_ok level (test_order Bid 100 10 (Some 5) ''order_1'');
     level \<leftarrow> add_ok level (test_order Bid 100 35 None ''order_2'');
     assert_that (price_level_total level = test_qty 40)
   }"

lemma price_level_tests_pass:
  "price_level_constructor_works = Some ()"
  "price_level_add_order_works = Some ()"
  "price_level_add_order_invalid_level_doesnt_change_orders_of_level = Some ()"
  "price_level_remove_order_works = Some ()"
  "price_level_remote_nonexistent_doesnt_crash = Some ()"
  "price_level_is_empty_works = Some ()"
  "price_level_total_quantity_works = Some ()"
  "price_level_total_quantity_with_prefilled_order_works = Some ()"
  by code_simp+

section \<open>Stores\<close>

definition store_test_spec :: "instrument_spec option" where
  "store_test_spec = do {
     spec \<leftarrow> cents;
     unwrap (with_price_range spec (px 95) (Some (px 105)) :: unit spec_error + instrument_spec)
   }"

text \<open>\<open>ensure_level(..).unwrap()\<close>, its borrow given back unchanged.\<close>

definition ensure_ok :: "('s, 'k) store_ops \<Rightarrow> 's \<Rightarrow> side \<Rightarrow> price \<Rightarrow> 's option" where
  "ensure_ok S st sd p = do {
     r \<leftarrow> ensure_level S st sd p;
     (level, put) \<leftarrow> unwrap r;
     Some (put level)
   }"

definition check_store_contract :: "('s, 'k) store_ops \<Rightarrow> unit option" where
  "check_store_contract S = do {
     spec \<leftarrow> store_test_spec;
     st \<leftarrow> unwrap (new_store S spec);
     assert_that (case best_level S st Bid of Some None \<Rightarrow> True | _ \<Rightarrow> False);
     assert_that (case best_level S st Ask of Some None \<Rightarrow> True | _ \<Rightarrow> False);
     st \<leftarrow> ensure_ok S st Bid (px 98);
     st \<leftarrow> ensure_ok S st Bid (px 100);
     st \<leftarrow> ensure_ok S st Ask (px 102);
     st \<leftarrow> ensure_ok S st Ask (px 101);
     assert_that (best_price S st Bid = Some (Some (px 100)));
     assert_that (best_price S st Ask = Some (Some (px 101)));
     assert_that (map bl_price (levels_of S st Bid) = [px 100, px 98]);
     assert_that (map bl_price (levels_of S st Ask) = [px 101, px 102]);
     (removed, st) \<leftarrow> remove_level S st Bid (px 100);
     removed \<leftarrow> removed;
     assert_that (bl_price removed = px 100);
     assert_that (best_price S st Bid = Some (Some (px 98)));
     assert_that (case get_level S st Bid (px 100) of Some None \<Rightarrow> True | _ \<Rightarrow> False);
     (removed, st) \<leftarrow> remove_level S st Ask (px 101);
     assert_that (best_price S st Ask = Some (Some (px 102)))
   }"

definition btree_satisfies_the_store_contract :: "unit option" where
  "btree_satisfies_the_store_contract = check_store_contract (btree_store :: (nat btree_store, nat) store_ops)"

definition hash_map_satisfies_the_store_contract :: "unit option" where
  "hash_map_satisfies_the_store_contract = check_store_contract (hash_store :: (nat hash_store, nat) store_ops)"

definition tick_ladder_satisfies_the_store_contract :: "(usize \<Rightarrow> bool) \<Rightarrow> (usize \<Rightarrow> bool) \<Rightarrow> unit option" where
  "tick_ladder_satisfies_the_store_contract rb ra =
     check_store_contract (ladder_store rb ra :: (nat tick_ladder, nat) store_ops)"

definition tick_ladder_requires_a_finite_price_range :: "(usize \<Rightarrow> bool) \<Rightarrow> (usize \<Rightarrow> bool) \<Rightarrow> unit option" where
  "tick_ladder_requires_a_finite_price_range rb ra = do {
     spec \<leftarrow> cents;
     assert_that ((ladder_try_new rb ra spec :: store_error + nat tick_ladder) = Inl UnboundedPriceRange)
   }"

definition tick_ladder_maps_both_inclusive_boundaries :: "(usize \<Rightarrow> bool) \<Rightarrow> (usize \<Rightarrow> bool) \<Rightarrow> unit option" where
  "tick_ladder_maps_both_inclusive_boundaries rb ra = do {
     let S = (ladder_store rb ra :: (nat tick_ladder, nat) store_ops);
     spec \<leftarrow> store_test_spec;
     st \<leftarrow> unwrap (new_store S spec);
     assert_that (slots_per_side st = 11);
     st \<leftarrow> ensure_ok S st Ask (px 95);
     st \<leftarrow> ensure_ok S st Bid (px 105);
     assert_that (best_price S st Ask = Some (Some (px 95)));
     assert_that (best_price S st Bid = Some (Some (px 105)))
   }"

lemma store_tests_pass:
  "btree_satisfies_the_store_contract = Some ()"
  "hash_map_satisfies_the_store_contract = Some ()"
  "tick_ladder_satisfies_the_store_contract (\<lambda>_. True) (\<lambda>_. True) = Some ()"
  "tick_ladder_requires_a_finite_price_range (\<lambda>_. True) (\<lambda>_. True) = Some ()"
  "tick_ladder_maps_both_inclusive_boundaries (\<lambda>_. True) (\<lambda>_. True) = Some ()"
  by code_simp+

section \<open>Queues\<close>

definition push_queued :: "slot_key level_queue \<Rightarrow> slots \<Rightarrow> string \<Rightarrow> (slot_key \<times> slot_key level_queue \<times> slots) option" where
  "push_queued q nodes i = do { ord \<leftarrow> test_order Bid 100 1 None i; push_back slot_arena q nodes ord }"

definition queued_ids :: "slot_key level_queue \<Rightarrow> slots \<Rightarrow> exchange_id list option" where
  "queued_ids q nodes = map_option (map order_id) (queue_iter slot_arena q nodes)"

definition well_linked :: "slot_key level_queue \<Rightarrow> slots \<Rightarrow> bool" where
  "well_linked q nodes = links_are_consistent slot_arena q nodes"

text \<open>The loop of the first test: unlink a key, and look at both queues.\<close>

fun remove_each ::
    "slot_key level_queue \<Rightarrow> slot_key level_queue \<Rightarrow> slots \<Rightarrow> (slot_key \<times> exchange_id list) list \<Rightarrow> slots option" where
  "remove_each left right nodes [] = Some nodes"
| "remove_each left right nodes ((key, expected) # rows) = do {
     (gone, left, nodes) \<leftarrow> remove_key slot_arena left nodes key;
     assert_that (gone \<noteq> None);
     assert_that (queued_ids left nodes = Some expected);
     assert_that (well_linked left nodes);
     assert_that (well_linked right nodes);
     assert_that (queued_ids right nodes = Some [ExchangeId ''other'']);
     remove_each left right nodes rows
   }"

definition queues_share_storage_without_sharing_links :: "unit option" where
  "queues_share_storage_without_sharing_links = do {
     (a, left, nodes) \<leftarrow> push_queued queue_default (arena_new slot_arena) ''a'';
     (other, right, nodes) \<leftarrow> push_queued queue_default nodes ''other'';
     (b, left, nodes) \<leftarrow> push_queued left nodes ''b'';
     (c, left, nodes) \<leftarrow> push_queued left nodes ''c'';
     (d, left, nodes) \<leftarrow> push_queued left nodes ''d'';
     assert_that (well_linked left nodes);
     assert_that (well_linked right nodes);
     assert_that (q_len left = 4);
     assert_that (q_len right = 1);
     nodes \<leftarrow> remove_each left right nodes
       [(b, [ExchangeId ''a'', ExchangeId ''c'', ExchangeId ''d'']),
        (a, [ExchangeId ''c'', ExchangeId ''d'']), (d, [ExchangeId ''c'']), (c, [])];
     assert_that (length (slot_keys nodes) = 1);
     (gone, right, nodes) \<leftarrow> remove_key slot_arena right nodes other;
     assert_that (gone \<noteq> None);
     assert_that (slot_keys nodes = []);
     assert_that (well_linked right nodes)
   }"

definition reuse_in_another_queue_does_not_revive_stale_key :: "unit option" where
  "reuse_in_another_queue_does_not_revive_stale_key = do {
     (stale, left, nodes) \<leftarrow> push_queued queue_default (arena_new slot_arena) ''a'';
     (gone, left, nodes) \<leftarrow> remove_key slot_arena left nodes stale;
     ord \<leftarrow> gone;
     (current, right, nodes) \<leftarrow> push_queued queue_default nodes ''b'';
     assert_that (stale \<noteq> current);
     (gone, left, nodes) \<leftarrow> remove_key slot_arena left nodes stale;
     assert_that (gone = None);
     assert_that (arena_get slot_arena nodes stale = None);
     assert_that (queued_ids right nodes = Some [ExchangeId ''b'']);
     assert_that (well_linked left nodes);
     assert_that (well_linked right nodes)
   }"

lemma queue_tests_pass:
  "queues_share_storage_without_sharing_links = Some ()"
  "reuse_in_another_queue_does_not_revive_stale_key = Some ()"
  by code_simp+

end
