(* ===== verification/Policy_Agreement.thy ===== *)
theory Policy_Agreement
  imports Sessions
begin

text \<open>
  The policy decides who fills, never how much the book fills: two books under different policies,
  fed the same orders of clients that never meet themselves, agree on every outcome, on what trades at
  each price, on the stops that fire and on the depth of every level. The proof is a simulation on the
  abstract engine between books of the same level totals, the same stops and the same counters.
\<close>

section \<open>Sweeps of ladders with the same totals\<close>

definition side_clients :: "ladder \<Rightarrow> client_id set" where
  "side_clients L = client ` set (ladder_orders L)"

lemma side_clients_simps [simp]:
  "side_clients [] = {}"
  "side_clients ((p, os) # L) = client ` set os \<union> side_clients L"
  by (auto simp: side_clients_def)

text \<open>What is the same of two lists of trades: how much at each price, and the last price.\<close>

definition trades_alike :: "trade list \<Rightarrow> trade list \<Rightarrow> bool" where
  "trades_alike ts ts' \<longleftrightarrow> traded_at ts' = traded_at ts \<and> (ts' = [] \<longleftrightarrow> ts = []) \<and>
     (ts \<noteq> [] \<longrightarrow> trade_price (last ts') = trade_price (last ts))"

lemma trades_alike_append:
  "trades_alike ts ts' \<Longrightarrow> trades_alike us us' \<Longrightarrow> trades_alike (ts @ us) (ts' @ us')"
  by (auto simp: trades_alike_def fun_eq_iff)

lemma trades_alike_level:
  assumes "\<forall>t\<in>set ts. trade_price t = p" and "\<forall>t\<in>set ts'. trade_price t = p"
    and "traded_units ts' = traded_units ts" and "traded_units ts \<noteq> 0"
  shows "trades_alike ts ts'"
proof -
  have "ts \<noteq> []" "ts' \<noteq> []" using assms(3,4) by auto
  moreover have "trade_price (last ts') = p" "trade_price (last ts) = p" using calculation assms(1,2) by simp_all
  ultimately show ?thesis
    using assms(3) traded_at_level [OF assms(1)] traded_at_level [OF assms(2)]
    by (simp add: trades_alike_def fun_eq_iff)
qed

lemma level_totals_simps [simp]:
  "level_totals [] = []"
  "level_totals ((p, os) # L) = (p, order_units os) # level_totals L"
  by (simp_all add: level_totals_def)

lemma level_totals_Cons:
  assumes "level_totals L' = (p, n) # T"
  obtains os L2 where "L' = (p, os) # L2" and "order_units os = n" and "level_totals L2 = T"
  using assms by (cases L') (auto simp: level_totals_def)

lemma sweep_alike:
  assumes "matching_algorithm M lot" and "matching_algorithm M' lot" and "lot \<noteq> 0"
    and "spec_sweep M now limit L tk = (ts, cs, tk1, L1)" and "spec_sweep M' now' limit L' tk = (ts', cs', tk1', L1')"
    and "level_totals L' = level_totals L" and "tradable_ladder lot L" and "tradable_ladder lot L'"
    and "is_multiple_of (base (remaining_quantity tk)) lot"
    and "client tk \<notin> side_clients L" and "client tk \<notin> side_clients L'"
  shows "cs = [] \<and> cs' = [] \<and> tk1' = tk1 \<and> trades_alike ts ts' \<and> level_totals L1' = level_totals L1"
  using assms
proof (induction M now limit L tk arbitrary: ts cs tk1 L1 L' ts' cs' tk1' L1' rule: spec_sweep.induct)
  case (1 M now limit tk)
  then show ?case by (auto simp: trades_alike_def level_totals_def)
next
  case (2 M now limit p os L tk)
  obtain os' K where L': "L' = (p, os') # K" "order_units os' = order_units os" "level_totals K = level_totals L"
    by (rule level_totals_Cons [of L' p "order_units os" "level_totals L"]) (use "2.prems"(6) in auto)
  show ?case
  proof (cases "remaining_quantity tk = 0 \<or> \<not> crosses_limit (order_side tk) limit p")
    case True
    with "2.prems"(4,5,6) L'(1) show ?thesis by (auto simp: trades_alike_def)
  next
    case False
    obtain us ds uk vs where level: "spec_level M now p os tk = (us, ds, uk, vs)"
      by (cases "spec_level M now p os tk") auto
    obtain us' ds' uk' vs' where level': "spec_level M' now' p os' tk = (us', ds', uk', vs')"
      by (cases "spec_level M' now' p os' tk") auto
    have os: "tradable_level lot os" "tradable_level lot os'" "os \<noteq> []"
      using "2.prems"(7,8) by (simp_all add: L'(1))
    note one = spec_level_facts [OF "2.prems"(1,3) os(1) "2.prems"(9) level]
      and two = spec_level_facts [OF "2.prems"(2,3) os(2) "2.prems"(9) level']
    have "\<forall>ord\<in>set os \<union> set os'. client ord \<noteq> client tk"
      using "2.prems"(10,11) unfolding L'(1) side_clients_simps by (metis UnE UnI1 imageI)
    then have others: "filter (\<lambda>ord. client ord \<noteq> client tk) os = os" "filter (\<lambda>ord. client ord = client tk) os = []"
      "filter (\<lambda>ord. client ord \<noteq> client tk) os' = os'" "filter (\<lambda>ord. client ord = client tk) os' = []"
      by (auto simp: filter_id_conv filter_empty_conv)
    have same: "traded_units us' = traded_units us" using one(2) two(2) L'(2) by (simp add: others)
    obtain r r' where r: "uk = tk\<lparr>remaining_quantity := r\<rparr>" "uk' = tk\<lparr>remaining_quantity := r'\<rparr>"
      using spec_level_taker [OF level] spec_level_taker [OF level'] by blast
    have "r' = r" using one(3) two(3) same r by (simp add: qty_eq_units)
    then have uk: "uk' = uk" using r by simp
    have vs: "order_units vs' = order_units vs" using one(4) two(4) same L'(2) by (simp add: others)
    have nonzero: "\<forall>ord\<in>set vs. remaining_quantity ord \<noteq> 0" "\<forall>ord\<in>set vs'. remaining_quantity ord \<noteq> 0"
      using one(8) two(8) by (auto simp: tradable_level_def)
    have empty: "vs' = [] \<longleftrightarrow> vs = []"
      using vs nonzero by (cases vs; cases vs') auto
    have "order_units os \<noteq> 0" using os(1,3) by (cases os) (auto simp: tradable_level_def)
    then have "traded_units us \<noteq> 0" using one(2) False by (simp add: others)
    then have alike: "trades_alike us us'"
      using one(6) two(6) same by (intro trades_alike_level [of us p us']) auto
    have none: "ds = []" "ds' = []" using one(1) two(1) by (simp_all add: others)
    show ?thesis
    proof (cases "vs = []")
      case nonempty: False
      with "2.prems"(4,5) False level level' empty none uk vs alike L' show ?thesis by auto
    next
      case True
      obtain ts2 cs2 tk2 L2 where rest: "spec_sweep M now limit L uk = (ts2, cs2, tk2, L2)"
        by (cases "spec_sweep M now limit L uk") auto
      obtain ts2' cs2' tk2' L2' where rest': "spec_sweep M' now' limit K uk = (ts2', cs2', tk2', L2')"
        by (cases "spec_sweep M' now' limit K uk") auto
      have "cs2 = [] \<and> cs2' = [] \<and> tk2' = tk2 \<and> trades_alike ts2 ts2' \<and> level_totals L2' = level_totals L2"
        by (rule "2.IH" [OF False level [symmetric] refl refl refl True "2.prems"(1-3) rest rest'])
          (use "2.prems" one(7) L' r in auto)
      with "2.prems"(4,5) False level level' True empty rest rest' none uk alike L' show ?thesis
        by (auto intro: trades_alike_append)
    qed
  qed
qed

section \<open>Books that differ in who rests, not in how much\<close>

definition alike :: "abs_book \<Rightarrow> abs_book \<Rightarrow> bool" where
  "alike ab ab' \<longleftrightarrow> (\<forall>sd. level_totals (ab_sides ab' sd) = level_totals (ab_sides ab sd)) \<and>
     ab_stops ab' = ab_stops ab \<and> ab_last ab' = ab_last ab \<and> ab_seq ab' = ab_seq ab \<and>
     ab_arrival ab' = ab_arrival ab \<and> ab_spec ab' = ab_spec ab"

lemma alikeD:
  assumes "alike ab ab'"
  shows "level_totals (ab_sides ab' sd) = level_totals (ab_sides ab sd)" and "ab_stops ab' = ab_stops ab"
    and "ab_last ab' = ab_last ab" and "ab_seq ab' = ab_seq ab" and "ab_arrival ab' = ab_arrival ab"
    and "ab_spec ab' = ab_spec ab"
  using assms by (simp_all add: alike_def)

definition clients_in :: "abs_book \<Rightarrow> client_id set" where
  "clients_in ab = (\<Union>sd. side_clients (ab_sides ab sd))"

lemma fill_alike:
  assumes "abs_ok ab" and "abs_ok ab'" and "alike ab ab'"
    and "is_multiple_of (base (remaining_quantity tk)) (lot_size (ab_spec ab))"
    and "client tk \<notin> clients_in ab" and "client tk \<notin> clients_in ab'"
    and "spec_fill ab limit tk = (ts, cs, tk1, ab1)" and "spec_fill ab' limit tk = (ts', cs', tk1', ab1')"
  shows "cs = [] \<and> cs' = [] \<and> tk1' = tk1 \<and> trades_alike ts ts' \<and> alike ab1 ab1'"
proof -
  let ?sd = "opposite (order_side tk)"
  obtain L where L: "spec_sweep (ab_matcher ab) (ucast (ab_arrival ab)) limit (ab_sides ab ?sd) tk = (ts, cs, tk1, L)"
    "ab1 = ab\<lparr>ab_sides := (ab_sides ab)(?sd := L)\<rparr>"
    using assms(7) by (rule_tac spec_fill_cases [of ab limit tk]) auto
  obtain L' where L': "spec_sweep (ab_matcher ab') (ucast (ab_arrival ab')) limit (ab_sides ab' ?sd) tk = (ts', cs', tk1', L')"
    "ab1' = ab'\<lparr>ab_sides := (ab_sides ab')(?sd := L')\<rparr>"
    using assms(8) by (rule_tac spec_fill_cases [of ab' limit tk]) auto
  note same = alikeD [OF assms(3)]
  have "client tk \<notin> side_clients (ab_sides ab ?sd)" "client tk \<notin> side_clients (ab_sides ab' ?sd)"
    using assms(5,6) by (auto simp: clients_in_def)
  with sweep_alike [where lot = "lot_size (ab_spec ab)", OF _ _ _ L(1) L'(1) same(1)] assms(1,2,4) same(6)
  have "cs = [] \<and> cs' = [] \<and> tk1' = tk1 \<and> trades_alike ts ts' \<and> level_totals L' = level_totals L"
    by (simp add: abs_ok_def)
  with same L(2) L'(2) show ?thesis by (simp add: alike_def)
qed

fun add_total :: "side \<Rightarrow> price \<Rightarrow> nat \<Rightarrow> (price \<times> nat) list \<Rightarrow> (price \<times> nat) list" where
  "add_total sd p n [] = [(p, n)]"
| "add_total sd p n ((p', n') # T) =
     (if p = p' then (p', n' + n) # T
      else if better sd p p' then (p, n) # (p', n') # T
      else (p', n') # add_total sd p n T)"

lemma level_totals_rest_at:
  "level_totals (rest_at sd p ord L) = add_total sd p (units (remaining_quantity ord)) (level_totals L)"
  by (induction sd p ord L rule: rest_at.induct) auto

text \<open>What crosses a limit is told by the totals, when nothing of it is the taker's own.\<close>

fun crossing_total :: "side \<Rightarrow> price option \<Rightarrow> (price \<times> nat) list \<Rightarrow> nat" where
  "crossing_total sd limit [] = 0"
| "crossing_total sd limit ((p, n) # T) = (if crosses_limit sd limit p then n + crossing_total sd limit T else 0)"

lemma crossing_units_totals:
  "client tk \<notin> side_clients L \<Longrightarrow>
     crossing_units tk limit L = crossing_total (order_side tk) limit (level_totals L)"
proof (induction L)
  case (Cons l L)
  obtain p os where l: "l = (p, os)" by (cases l)
  have "\<forall>ord\<in>set os. client ord \<noteq> client tk"
    using Cons.prems unfolding l side_clients_simps by (metis UnI1 imageI)
  then have "filter (\<lambda>ord. client ord \<noteq> client tk) os = os" by (simp add: filter_id_conv)
  with Cons show ?case by (simp add: l)
qed simp

lemma crossing_units_le: "crossing_units tk limit L \<le> order_units (ladder_orders L)"
proof (induction L)
  case (Cons l L)
  obtain p os where l: "l = (p, os)" by (cases l)
  have "order_units (filter (\<lambda>ord. client ord \<noteq> client tk) os) \<le> order_units os"
    using order_units_filter [of "\<lambda>ord. client ord \<noteq> client tk" os] by simp
  with Cons show ?case by (simp add: l)
qed simp

section \<open>One execution\<close>

definition runs_alike :: "execution_report \<Rightarrow> execution_report \<Rightarrow> bool" where
  "runs_alike r r' \<longleftrightarrow> report_id r' = report_id r \<and> report_outcome r' = report_outcome r \<and>
     trades_alike (report_trades r) (report_trades r') \<and> report_cancelled r = [] \<and> report_cancelled r' = []"

definition results_alike :: "spec_result \<Rightarrow> spec_result \<Rightarrow> bool" where
  "results_alike x x' \<longleftrightarrow> (\<exists>r r'. fst x = Inr r \<and> fst x' = Inr r' \<and>
     trades_alike (result_trades r) (result_trades r') \<and> result_outcome r' = result_outcome r \<and>
     result_cancelled r = [] \<and> result_cancelled r' = []) \<and> alike (snd x) (snd x')"

lemma trades_alike_Nil [simp]: "trades_alike [] []"
  by (simp add: trades_alike_def)

lemma finish_alike:
  assumes "results_alike x x'"
  shows "\<exists>r r'. fst (spec_finish i x) = Inr r \<and> fst (spec_finish i x') = Inr r' \<and> runs_alike r r' \<and>
    report_triggered r = [] \<and> report_triggered r' = []"
    and "alike (snd (spec_finish i x)) (snd (spec_finish i x'))"
  using assms
  by (auto simp: results_alike_def spec_finish_def runs_alike_def trades_alike_def alike_def split_beta split: sum.splits)

lemma run_alike:
  assumes "abs_ok ab" and "abs_ok ab'" and "alike ab ab'" and "on_lattice (ab_spec ab) ord"
    and "admit_under (ab_spec ab) ord = Inr ()" and "\<not> is_live ab (order_id ord)" and "\<not> is_live ab' (order_id ord)"
    and "client ord \<notin> clients_in ab" and "client ord \<notin> clients_in ab'"
    and room: "order_units (ladder_orders (ab_sides ab (opposite (order_side ord)))) < 2 ^ 64"
  shows "\<exists>r r'. fst (spec_run ab ord) = Inr r \<and> fst (spec_run ab' ord) = Inr r' \<and> runs_alike r r' \<and>
    report_triggered r = [] \<and> report_triggered r' = []"
    and "alike (snd (spec_run ab ord)) (snd (spec_run ab' ord))"
proof -
  note same = alikeD [OF assms(3)]
  have lot: "is_multiple_of (base (remaining_quantity ord)) (lot_size (ab_spec ab))" "remaining_quantity ord \<noteq> 0"
    using assms(4) by (simp_all add: on_lattice_def tradable_def)
  have limit: "results_alike (spec_limit ab ord p tif) (spec_limit ab' ord p tif)"
    if limit: "otype ord = Limit p tif" "tif \<noteq> FOK" for p tif
  proof -
    obtain ts cs tk ab1 where fill: "spec_fill ab (Some p) ord = (ts, cs, tk, ab1)"
      by (cases "spec_fill ab (Some p) ord") auto
    obtain ts' cs' tk' ab1' where fill': "spec_fill ab' (Some p) ord = (ts', cs', tk', ab1')"
      by (cases "spec_fill ab' (Some p) ord") auto
    note both = fill_alike [OF assms(1-3) lot(1) assms(8,9) fill fill']
    note rest = rest_succeeds [OF assms(1) lot(1) assms(5,6) limit(1) fill]
      and rest' = rest_succeeds [OF assms(2) _ _ assms(7) limit(1) fill', unfolded same(6), OF lot(1) assms(5)]
    have alike1: "alike (snd (spec_add ab1 tk)) (snd (spec_add ab1' tk'))"
      using both unfolding rest rest' by (simp add: alike_def level_totals_rest_at)
    show ?thesis
      using both alike1 fill fill' rest rest' limit(2)
      by (cases tif) (simp_all add: spec_limit_def results_alike_def trades_alike_def split_beta)
  qed
  have fok: "results_alike (spec_fok ab ord p) (spec_fok ab' ord p)" for p
  proof -
    let ?L = "ab_sides ab (opposite (order_side ord))" and ?L' = "ab_sides ab' (opposite (order_side ord))"
    have client: "client ord \<notin> side_clients ?L" "client ord \<notin> side_clients ?L'"
      using assms(8,9) by (auto simp: clients_in_def)
    then have cross: "crossing_units ord (Some p) ?L' = crossing_units ord (Some p) ?L"
      by (simp add: crossing_units_totals same(1))
    have "crossing_units ord (Some p) ?L < 2 ^ 64" using crossing_units_le [of ord "Some p" ?L] room by linarith
    moreover have "0 < remaining_quantity ord" using lot(2) by (simp add: qty_less_units)
    ultimately have decide: "spec_fillable ord p ?L' 0 < remaining_quantity ord \<longleftrightarrow>
        spec_fillable ord p ?L 0 < remaining_quantity ord"
      using fillable_exact [of 0 ord p ?L] fillable_exact [of 0 ord p ?L'] by (simp add: cross)
    obtain ts cs tk ab1 where fill: "spec_fill ab (Some p) ord = (ts, cs, tk, ab1)"
      by (cases "spec_fill ab (Some p) ord") auto
    obtain ts' cs' tk' ab1' where fill': "spec_fill ab' (Some p) ord = (ts', cs', tk', ab1')"
      by (cases "spec_fill ab' (Some p) ord") auto
    from fill_alike [OF assms(1-3) lot(1) assms(8,9) fill fill'] decide assms(3) show ?thesis
      by (simp add: spec_fok_def results_alike_def fill fill')
  qed
  have market: "results_alike (spec_market ab ord) (spec_market ab' ord)"
  proof -
    obtain ts cs tk ab1 where fill: "spec_fill ab None ord = (ts, cs, tk, ab1)"
      by (cases "spec_fill ab None ord") auto
    obtain ts' cs' tk' ab1' where fill': "spec_fill ab' None ord = (ts', cs', tk', ab1')"
      by (cases "spec_fill ab' None ord") auto
    from fill_alike [OF assms(1-3) lot(1) assms(8,9) fill fill'] show ?thesis
      by (simp add: spec_market_def results_alike_def fill fill')
  qed
  have "results_alike
      (case otype ord of Limit p tif \<Rightarrow> if tif = FOK then spec_fok ab ord p else spec_limit ab ord p tif
        | _ \<Rightarrow> spec_market ab ord)
      (case otype ord of Limit p tif \<Rightarrow> if tif = FOK then spec_fok ab' ord p else spec_limit ab' ord p tif
        | _ \<Rightarrow> spec_market ab' ord)"
    using limit fok market by (simp split: order_type.split)
  then show "\<exists>r r'. fst (spec_run ab ord) = Inr r \<and> fst (spec_run ab' ord) = Inr r' \<and> runs_alike r r' \<and>
      report_triggered r = [] \<and> report_triggered r' = []"
    and "alike (snd (spec_run ab ord)) (snd (spec_run ab' ord))"
    unfolding spec_run_def by (rule finish_alike)+
qed

end
