(* ===== verification/Stream_Agreement.thy ===== *)
theory Stream_Agreement
  imports Policy_Agreement "HOL-Library.Multiset"
begin

text \<open>
  Streams of orders of clients that never meet themselves: what the clients and the quantities of a
  book do under the engine, and the agreement of two policies on whole streams, stops included.
\<close>

section \<open>Clients and quantities\<close>

definition stop_orders :: "abs_book \<Rightarrow> order list" where
  "stop_orders ab = ladder_orders (ab_stops ab Bid) @ ladder_orders (ab_stops ab Ask)"

definition side_units :: "abs_book \<Rightarrow> nat" where
  "side_units ab = order_units (ladder_orders (ab_sides ab Bid)) + order_units (ladder_orders (ab_sides ab Ask))"

text \<open>No client has two orders in the stop book, nor one there and one on a side.\<close>

definition apart :: "abs_book \<Rightarrow> bool" where
  "apart ab \<longleftrightarrow> distinct (map client (stop_orders ab)) \<and> clients_in ab \<inter> client ` set (stop_orders ab) = {}"

definition tidy :: "abs_book \<Rightarrow> client_id set \<Rightarrow> nat \<Rightarrow> bool" where
  "tidy ab C n \<longleftrightarrow> apart ab \<and> clients_in ab \<union> client ` set (stop_orders ab) \<subseteq> C \<and>
     side_units ab + order_units (stop_orders ab) \<le> n"

lemma clients_in_sides: "clients_in ab = side_clients (ab_sides ab Bid) \<union> side_clients (ab_sides ab Ask)"
  by (auto simp: clients_in_def ex_side split: side.split) (metis (full_types) side.exhaust)

lemma order_units_mset: "mset os = mset os' \<Longrightarrow> order_units os = order_units os'"
  unfolding order_units_def by (metis mset_map sum_mset_sum_list)

lemma order_units_rest_at:
  "order_units (ladder_orders (rest_at sd p ord L)) = units (remaining_quantity ord) + order_units (ladder_orders L)"
  by (induction sd p ord L rule: rest_at.induct) auto

lemma side_clients_rest_at: "side_clients (rest_at sd p ord L) = insert (client ord) (side_clients L)"
  by (auto simp: side_clients_def rest_at_orders)

lemma side_units_le: "order_units (ladder_orders (ab_sides ab sd)) \<le> side_units ab"
  by (cases sd) (simp_all add: side_units_def)

text \<open>One execution brings in its taker at most.\<close>

lemma fill_carries:
  assumes "abs_ok ab" and "is_multiple_of (base (remaining_quantity tk)) (lot_size (ab_spec ab))"
    and "spec_fill ab limit tk = (ts, cs, tk1, ab1)"
  shows "clients_in ab1 \<subseteq> clients_in ab" and "side_units ab1 \<le> side_units ab"
    and "units (remaining_quantity tk1) \<le> units (remaining_quantity tk)" and "client tk1 = client tk"
proof -
  let ?sd = "opposite (order_side tk)"
  note facts = spec_fill_facts [OF assms]
  have "side_clients (ab_sides ab1 ?sd) \<subseteq> side_clients (ab_sides ab ?sd)"
  proof
    fix c assume "c \<in> side_clients (ab_sides ab1 ?sd)"
    then obtain ord' where "ord' \<in> set (ladder_orders (ab_sides ab1 ?sd))" "c = client ord'"
      by (auto simp: side_clients_def)
    moreover from this(1) facts(5) obtain ord where "ord \<in> set (ladder_orders (ab_sides ab ?sd))" "remains_of ord ord'"
      by blast
    moreover from this(2) have "client ord' = client ord" unfolding remains_of_def by fastforce
    ultimately show "c \<in> side_clients (ab_sides ab ?sd)" by (auto simp: side_clients_def)
  qed
  with facts(2) [of "order_side tk"] show "clients_in ab1 \<subseteq> clients_in ab"
    by (cases "order_side tk") (auto simp: clients_in_sides)
  have "order_units (ladder_orders (ab_sides ab1 ?sd)) \<le> order_units (ladder_orders (ab_sides ab ?sd))"
    using sweep_okD(2) [OF facts(1)] by auto
  with facts(2) [of "order_side tk"] show "side_units ab1 \<le> side_units ab"
    by (cases "order_side tk") (simp_all add: side_units_def)
  show "units (remaining_quantity tk1) \<le> units (remaining_quantity tk)" using sweep_okD(1) [OF facts(1)] by simp
  show "client tk1 = client tk" using facts(6) by auto
qed

lemma add_carries:
  "clients_in (snd (spec_add ab ord)) \<subseteq> insert (client ord) (clients_in ab)"
  "side_units (snd (spec_add ab ord)) \<le> side_units ab + units (remaining_quantity ord)"
  by (cases "order_side ord";
      auto simp: spec_add_def clients_in_sides side_units_def side_clients_rest_at order_units_rest_at
        split: order_type.splits sum.splits)+

lemma run_carries:
  assumes "abs_ok ab" and "is_multiple_of (base (remaining_quantity ord)) (lot_size (ab_spec ab))"
  shows "clients_in (snd (spec_run ab ord)) \<subseteq> insert (client ord) (clients_in ab) \<and>
    side_units (snd (spec_run ab ord)) \<le> side_units ab + units (remaining_quantity ord)"
proof -
  let ?ok = "\<lambda>ab'. clients_in ab' \<subseteq> insert (client ord) (clients_in ab) \<and>
    side_units ab' \<le> side_units ab + units (remaining_quantity ord)"
  have "?ok (snd (spec_limit ab ord p tif))" for p tif
  proof -
    obtain ts cs tk ab1 where fill: "spec_fill ab (Some p) ord = (ts, cs, tk, ab1)"
      by (cases "spec_fill ab (Some p) ord") auto
    note carry = fill_carries [OF assms fill] and added = add_carries [of ab1 tk]
    have "?ok (snd (spec_add ab1 tk))"
    proof
      show "clients_in (snd (spec_add ab1 tk)) \<subseteq> insert (client ord) (clients_in ab)"
        using added(1) carry(1,4) by auto
      show "side_units (snd (spec_add ab1 tk)) \<le> side_units ab + units (remaining_quantity ord)"
        using added(2) carry(2,3) by linarith
    qed
    moreover have "?ok ab1" using carry(1,2) by auto
    ultimately show ?thesis
      by (simp add: spec_limit_def fill split_beta split: time_in_force.split)
  qed
  moreover have "?ok (snd (spec_fok ab ord p))" for p
    using fill_carries [OF assms, of "Some p"] by (auto simp: spec_fok_def Let_def split: prod.split)
  moreover have "?ok (snd (spec_market ab ord))"
    using fill_carries [OF assms, of None] by (auto simp: spec_market_def Let_def split: prod.split)
  moreover have "?ok (snd (spec_finish i res)) = ?ok (snd res)" for i res
    by (simp add: spec_finish_def clients_in_def side_units_def split_beta split: sum.split)
  ultimately show ?thesis by (simp add: spec_run_def split: order_type.split)
qed

section \<open>Stops\<close>

lemma mset_nearest [simp]: "mset (ladder_orders (nearest sd L)) = mset (ladder_orders L)"
  by (cases sd) (simp_all add: nearest_def ladder_orders_def mset_concat rev_map [symmetric] sum_list_rev)

lemma pop_stops:
  assumes "spec_pop ab = Some (ord, ab1)"
  shows "mset (stop_orders ab) = mset (ord # stop_orders ab1)" and "ab_sides ab1 = ab_sides ab"
proof -
  from assms obtain sd where due: "stop_due ab sd = Some ord" "ab1 = spec_take ab sd"
    by (auto simp: spec_pop_def split: option.splits)
  show "ab_sides ab1 = ab_sides ab" by (simp add: due(2) spec_take_def)
  have "mset (ladder_orders (ab_stops ab sd)) = add_mset ord (mset (ladder_orders (ab_stops ab1 sd)))"
  proof (rule stop_due_cases [OF due(1)])
    fix trigger q L
    assume near: "nearest sd (ab_stops ab sd) = (trigger, ord # q) # L"
      and front: "take_front (nearest sd (ab_stops ab sd)) = (if q = [] then L else (trigger, q) # L)"
    have "mset (ladder_orders (nearest sd (ab_stops ab sd))) = add_mset ord (mset (ladder_orders (ab_stops ab1 sd)))"
      by (simp add: due(2) spec_take_def front near)
    then show ?thesis by simp
  qed
  moreover have "ab_stops ab1 sd' = ab_stops ab sd'" if "sd' \<noteq> sd" for sd'
    using that by (simp add: due(2) spec_take_def)
  ultimately show "mset (stop_orders ab) = mset (ord # stop_orders ab1)"
    by (cases sd) (simp_all add: stop_orders_def)
qed

lemma mset_bt_put:
  "bt_ok L \<Longrightarrow> mset (ladder_orders (bt_put t q L)) +
     mset (case bt_get L t of None \<Rightarrow> [] | Some q' \<Rightarrow> q') = mset (ladder_orders L) + mset q"
proof (induction t q L rule: bt_put.induct)
  case (2 t q t' q' L)
  have "bt_get L t = None" if "t < t' \<or> t = t'"
    using that "2.prems" by (force simp: bt_get_eq_None)
  with 2 show ?case by (auto simp: ac_simps)
qed simp

lemma park_stops:
  assumes "\<And>sd. bt_ok (ab_stops ab sd)" and "\<not> is_live ab (order_id ord)"
  shows "mset (stop_orders (snd (spec_park ab ord t))) = mset (ord # stop_orders ab)"
    and "ab_sides (snd (spec_park ab ord t)) = ab_sides ab"
proof -
  let ?sd = "order_side ord"
  let ?old = "case bt_get (ab_stops ab ?sd) t of None \<Rightarrow> [] | Some q \<Rightarrow> q"
  have "mset (ladder_orders (bt_put t (?old @ [ord]) (ab_stops ab ?sd))) = add_mset ord (mset (ladder_orders (ab_stops ab ?sd)))"
    using mset_bt_put [OF assms(1), of t "?old @ [ord]" ?sd] by simp
  with assms(2) show "mset (stop_orders (snd (spec_park ab ord t))) = mset (ord # stop_orders ab)"
    by (cases ?sd) (simp_all add: spec_park_def stop_orders_def)
  show "ab_sides (snd (spec_park ab ord t)) = ab_sides ab" by (simp add: spec_park_def)
qed

lemma distinct_mset_cong: "mset xs = mset ys \<Longrightarrow> distinct (map f xs) \<longleftrightarrow> distinct (map f ys)"
  by (metis mset_eq_imp_distinct_iff mset_map)

text \<open>Taking a stop out and running it keeps the book tidy, and the stop meets nobody of its client.\<close>

lemma tidy_popped:
  assumes "tidy ab C n" and "spec_pop ab = Some (stop, ab1)"
  shows "client stop \<notin> clients_in ab1" and "client stop \<notin> client ` set (stop_orders ab1)" and "client stop \<in> C"
    and "apart ab1" and "clients_in ab1 \<union> client ` set (stop_orders ab1) \<subseteq> C"
    and "side_units ab1 + order_units (stop_orders ab1) + units (remaining_quantity stop) \<le> n"
proof -
  note pop = pop_stops [OF assms(2)]
  have sides: "clients_in ab1 = clients_in ab" "side_units ab1 = side_units ab"
    using pop(2) by (simp_all add: clients_in_def side_units_def)
  have stops: "set (stop_orders ab) = insert stop (set (stop_orders ab1))"
    using arg_cong [OF pop(1), of set_mset] by simp
  have dist: "distinct (client stop # map client (stop_orders ab1))"
    using assms(1) distinct_mset_cong [OF pop(1), of client] by (simp add: tidy_def apart_def)
  have units: "order_units (stop_orders ab) = units (remaining_quantity stop) + order_units (stop_orders ab1)"
    using order_units_mset [OF pop(1)] by simp
  show "client stop \<notin> clients_in ab1" "client stop \<notin> client ` set (stop_orders ab1)" "client stop \<in> C" "apart ab1"
    "clients_in ab1 \<union> client ` set (stop_orders ab1) \<subseteq> C"
    "side_units ab1 + order_units (stop_orders ab1) + units (remaining_quantity stop) \<le> n"
    using assms(1) dist units unfolding tidy_def apart_def sides stops by auto
qed

lemma disjoint_insert: "X \<subseteq> insert c Y \<Longrightarrow> Y \<inter> Z = {} \<Longrightarrow> c \<notin> Z \<Longrightarrow> X \<inter> Z = {}"
  by blast

lemma union_within: "X \<subseteq> insert c Y \<Longrightarrow> Y \<union> Z \<subseteq> C \<Longrightarrow> c \<in> D \<Longrightarrow> C \<subseteq> D \<Longrightarrow> X \<union> Z \<subseteq> D"
  by blast

lemma tidy_run:
  assumes "abs_ok ab" and "is_multiple_of (base (remaining_quantity ord)) (lot_size (ab_spec ab))"
    and "apart ab" and "clients_in ab \<union> client ` set (stop_orders ab) \<subseteq> C"
    and "client ord \<notin> client ` set (stop_orders ab)" and "client ord \<in> D" and "C \<subseteq> D"
    and "side_units ab + order_units (stop_orders ab) + units (remaining_quantity ord) \<le> n"
  shows "tidy (snd (spec_run ab ord)) D n"
proof -
  have stops: "stop_orders (snd (spec_run ab ord)) = stop_orders ab" by (simp add: stop_orders_def)
  have run: "clients_in (snd (spec_run ab ord)) \<subseteq> insert (client ord) (clients_in ab)"
    "side_units (snd (spec_run ab ord)) \<le> side_units ab + units (remaining_quantity ord)"
    using run_carries [OF assms(1,2)] by blast+
  have "clients_in (snd (spec_run ab ord)) \<inter> client ` set (stop_orders ab) = {}"
    by (rule disjoint_insert [OF run(1) _ assms(5)]) (use assms(3) in \<open>simp add: apart_def\<close>)
  moreover have "clients_in (snd (spec_run ab ord)) \<union> client ` set (stop_orders ab) \<subseteq> D"
    by (rule union_within [OF run(1) assms(4,6,7)])
  moreover have "side_units (snd (spec_run ab ord)) + order_units (stop_orders ab) \<le> n"
    using assms(8) run(2) by linarith
  ultimately show ?thesis using assms(3) unfolding tidy_def apart_def stops by simp
qed

section \<open>Two engines\<close>

definition reports_alike :: "execution_report \<Rightarrow> execution_report \<Rightarrow> bool" where
  "reports_alike r r' \<longleftrightarrow> runs_alike r r' \<and> list_all2 runs_alike (report_triggered r) (report_triggered r')"

lemma activate_simps [simp]:
  "client (activate ord) = client ord" "remaining_quantity (activate ord) = remaining_quantity ord"
  "order_side (activate ord) = order_side ord"
  by (simp_all add: activate_def)

lemma stop_due_alike: "alike ab ab' \<Longrightarrow> stop_due ab' sd = stop_due ab sd"
  using alikeD(2,3) [of ab ab'] by (simp add: stop_due_def split: list.split prod.split)

lemma pop_alike:
  assumes "alike ab ab'"
  shows "spec_pop ab = None \<Longrightarrow> spec_pop ab' = None"
    and "spec_pop ab = Some (stop, ab1) \<Longrightarrow> \<exists>ab1'. spec_pop ab' = Some (stop, ab1') \<and> alike ab1 ab1'"
  using alikeD [OF assms] unfolding spec_pop_def stop_due_alike [OF assms]
  by (auto simp: spec_take_def alike_def split: option.splits)

lemma load_alike: "alike ab ab' \<Longrightarrow> load ab' = load ab"
  using alikeD(2,5) [of ab ab'] by (simp add: load_def stop_count_def)

text \<open>Both fire the same stops, to the same effect.\<close>

lemma cascade_alike:
  assumes E: "book_engine S ok covers A" and E': "book_engine S' ok' covers' A'" and n: "n < 2 ^ 64"
  shows "represented S ok covers A ab \<Longrightarrow> represented S' ok' covers' A' ab' \<Longrightarrow> load ab < 2 ^ 32 \<Longrightarrow>
    alike ab ab' \<Longrightarrow> tidy ab C n \<Longrightarrow> tidy ab' C n' \<Longrightarrow>
    \<exists>rs rs'. fst (spec_cascade ab) = Inr rs \<and> fst (spec_cascade ab') = Inr rs' \<and> list_all2 runs_alike rs rs' \<and>
      alike (snd (spec_cascade ab)) (snd (spec_cascade ab')) \<and>
      tidy (snd (spec_cascade ab)) C n \<and> tidy (snd (spec_cascade ab')) C n'"
proof (induction ab arbitrary: ab' rule: spec_cascade.induct)
  case (1 ab)
  show ?case
  proof (cases "spec_pop ab")
    case None
    with "1.prems" pop_alike(1) [OF "1.prems"(4) None] show ?thesis
      by (simp add: spec_cascade.simps [of ab] spec_cascade.simps [of ab'])
  next
    case (Some popped)
    obtain stop ab1 where pop: "spec_pop ab = Some (stop, ab1)" using Some by (cases popped) auto
    obtain ab1' where pop': "spec_pop ab' = Some (stop, ab1')" "alike ab1 ab1'"
      using pop_alike(2) [OF "1.prems"(4) pop] by blast
    let ?stop = "activate stop"
    let ?ab2 = "snd (spec_run ab1 ?stop)" and ?ab2' = "snd (spec_run ab1' ?stop)"
    have load': "load ab' < 2 ^ 32" using "1.prems"(3) load_alike [OF "1.prems"(4)] by simp
    note fire = book_engine.fire_facts [OF E "1.prems"(1,3) pop]
      and fire' = book_engine.fire_facts [OF E' "1.prems"(2) load' pop'(1)]
      and popped = book_engine.represented_pop [OF E "1.prems"(1) pop]
      and apart = tidy_popped [OF "1.prems"(5) pop] and apart' = tidy_popped [OF "1.prems"(6) pop'(1)]
    have lattice: "on_lattice (ab_spec ab1) ?stop" using popped(2,5) by simp
    have room: "order_units (ladder_orders (ab_sides ab1 (opposite (order_side ?stop)))) < 2 ^ 64"
      using side_units_le [of ab1 "opposite (order_side ?stop)"] apart(6) n by linarith
    have runs: "client ?stop \<notin> clients_in ab1" "client ?stop \<notin> clients_in ab1'" using apart(1) apart'(1) by simp_all
    note run = run_alike [OF fire(1) fire'(1) pop'(2) lattice fire(3,4) fire'(4) runs room]
    obtain r r' where r: "fst (spec_run ab1 ?stop) = Inr r" "fst (spec_run ab1' ?stop) = Inr r'" "runs_alike r r'"
      using run(1) by blast
    have tidy: "tidy ?ab2 C n"
      by (rule tidy_run [OF fire(1,2) apart(4,5)]) (use apart in simp_all)
    have tidy': "tidy ?ab2' C n'"
      by (rule tidy_run [OF fire'(1,2) apart'(4,5)]) (use apart' in simp_all)
    obtain rs rs' where IH: "fst (spec_cascade ?ab2) = Inr rs" "fst (spec_cascade ?ab2') = Inr rs'"
      "list_all2 runs_alike rs rs'" "alike (snd (spec_cascade ?ab2)) (snd (spec_cascade ?ab2'))"
      "tidy (snd (spec_cascade ?ab2)) C n" "tidy (snd (spec_cascade ?ab2')) C n'"
      using "1.IH" [OF pop refl prod.collapse r(1) fire(5) fire'(5) fire(6) run(2) tidy tidy'] by blast
    have "spec_cascade ab = (Inr (r # rs), snd (spec_cascade ?ab2))"
      using pop r(1) IH(1) by (simp add: spec_cascade.simps [of ab] split_beta)
    moreover have "spec_cascade ab' = (Inr (r' # rs'), snd (spec_cascade ?ab2'))"
      using pop'(1) r(2) IH(2) by (simp add: spec_cascade.simps [of ab'] split_beta)
    ultimately show ?thesis using IH(3-6) r(3) by simp
  qed
qed

text \<open>An order that runs or parks.\<close>

lemma execute_alike:
  assumes "abs_ok ab" and "abs_ok ab'" and "alike ab ab'" and "on_lattice (ab_spec ab) ord"
    and "admit_under (ab_spec ab) ord = Inr ()" and "\<not> is_live ab (order_id ord)" and "\<not> is_live ab' (order_id ord)"
    and "tidy ab C n" and "tidy ab' C n'" and "client ord \<notin> C"
    and bt: "\<And>sd. bt_ok (ab_stops ab sd)" and n: "n < 2 ^ 64"
  shows "\<exists>r r'. fst (spec_execute ab ord) = Inr r \<and> fst (spec_execute ab' ord) = Inr r' \<and> runs_alike r r' \<and>
      report_triggered r = [] \<and> report_triggered r' = []"
    and "alike (snd (spec_execute ab ord)) (snd (spec_execute ab' ord))"
    and "tidy (snd (spec_execute ab ord)) (insert (client ord) C) (n + units (remaining_quantity ord))"
    and "tidy (snd (spec_execute ab' ord)) (insert (client ord) C) (n' + units (remaining_quantity ord))"
proof -
  note same = alikeD [OF assms(3)]
  have clients: "client ord \<notin> clients_in ab" "client ord \<notin> clients_in ab'"
    "client ord \<notin> client ` set (stop_orders ab)" "client ord \<notin> client ` set (stop_orders ab')"
    using assms(8-10) by (auto simp: tidy_def)
  have small: "order_units (ladder_orders (ab_sides ab sd)) < 2 ^ 64" for sd
    using side_units_le [of ab sd] assms(8) n by (simp add: tidy_def)
  let ?goal = "\<lambda>x x'. (\<exists>r r'. fst x = Inr r \<and> fst x' = Inr r' \<and> runs_alike r r' \<and> report_triggered r = [] \<and>
      report_triggered r' = []) \<and> alike (snd x) (snd x') \<and>
    tidy (snd x) (insert (client ord) C) (n + units (remaining_quantity ord)) \<and>
    tidy (snd x') (insert (client ord) C) (n' + units (remaining_quantity ord))"
  have run: "?goal (spec_run ab xo) (spec_run ab' xo)" if xo: "xo = ord \<or> xo = activate ord" for xo
  proof -
    have o: "on_lattice (ab_spec ab) xo" "admit_under (ab_spec ab) xo = Inr ()" "order_id xo = order_id ord"
      "client xo = client ord" "remaining_quantity xo = remaining_quantity ord"
      using xo assms(4,5) by (auto simp: admit_activate activate_id)
    then have lot: "is_multiple_of (base (remaining_quantity xo)) (lot_size (ab_spec ab))"
      by (simp add: on_lattice_def tradable_def)
    have "tidy (snd (spec_run ab xo)) (insert (client ord) C) (n + units (remaining_quantity ord))"
      by (rule tidy_run [OF assms(1) lot, of C]) (use assms(8) clients in \<open>auto simp: o tidy_def\<close>)
    moreover have "tidy (snd (spec_run ab' xo)) (insert (client ord) C) (n' + units (remaining_quantity ord))"
      by (rule tidy_run [OF assms(2), of _ C]) (use assms(9) clients lot in \<open>auto simp: o tidy_def same(6)\<close>)
    ultimately show ?thesis
      using run_alike [OF assms(1-3) o(1,2), unfolded o(3,4), OF assms(6,7) clients(1,2) small] by blast
  qed
  have park: "?goal (spec_park ab ord t) (spec_park ab' ord t)" for t
  proof -
    have bt': "bt_ok (ab_stops ab' sd)" for sd using bt by (simp add: same(2))
    note one = park_stops [OF bt assms(6), of t] and two = park_stops [OF bt' assms(7), of t]
    have tidy: "tidy ab2 (insert (client ord) C) (m + units (remaining_quantity ord))"
      if stops: "mset (stop_orders ab2) = mset (ord # stop_orders ab1)" and sides: "ab_sides ab2 = ab_sides ab1"
        and old: "tidy ab1 C m" for ab1 ab2 m
    proof -
      have "set (stop_orders ab2) = insert ord (set (stop_orders ab1))" using arg_cong [OF stops, of set_mset] by simp
      moreover have "distinct (map client (stop_orders ab2)) \<longleftrightarrow> distinct (map client (ord # stop_orders ab1))"
        by (rule distinct_mset_cong [OF stops])
      moreover have "clients_in ab2 = clients_in ab1" "side_units ab2 = side_units ab1"
        by (simp_all add: clients_in_def side_units_def sides)
      moreover note order_units_mset [OF stops]
      ultimately show ?thesis using old assms(10) by (auto simp: tidy_def apart_def)
    qed
    have "alike (snd (spec_park ab ord t)) (snd (spec_park ab' ord t))"
      using assms(3,6,7) by (simp add: spec_park_def alike_def)
    with tidy [OF one assms(8)] tidy [OF two assms(9)] spec_park_facts(1) [OF assms(6), of t]
      spec_park_facts(1) [OF assms(7), of t] show ?thesis by (simp add: runs_alike_def)
  qed
  have "?goal (spec_execute ab ord) (spec_execute ab' ord)"
    using run [of ord] run [of "activate ord"] park by (simp add: spec_execute_def same(3) split: option.split)
  then show "\<exists>r r'. fst (spec_execute ab ord) = Inr r \<and> fst (spec_execute ab' ord) = Inr r' \<and> runs_alike r r' \<and>
      report_triggered r = [] \<and> report_triggered r' = []"
    and "alike (snd (spec_execute ab ord)) (snd (spec_execute ab' ord))"
    and "tidy (snd (spec_execute ab ord)) (insert (client ord) C) (n + units (remaining_quantity ord))"
    and "tidy (snd (spec_execute ab' ord)) (insert (client ord) C) (n' + units (remaining_quantity ord))" by blast+
qed

section \<open>Streams\<close>

text \<open>
  A book in the middle of a stream: represented, with identifiers of its own drawing, room for \<open>k\<close>
  more commands, and orders of the clients \<open>C\<close> that sum up to \<open>n\<close> units at most.
\<close>

definition streaming ::
    "('s, 'k) store_ops \<Rightarrow> ('s \<Rightarrow> bool) \<Rightarrow> ('s \<Rightarrow> price \<Rightarrow> bool) \<Rightarrow> ('m, 'k) arena_ops \<Rightarrow>
       client_id set \<Rightarrow> nat \<Rightarrow> nat \<Rightarrow> abs_book \<Rightarrow> bool" where
  "streaming S ok covers A C n k ab \<longleftrightarrow>
     represented S ok covers A ab \<and> ids_drawn ab \<and> room ab k \<and> tidy ab C n"

lemma tidy_weaken: "tidy ab C n \<Longrightarrow> C \<subseteq> D \<Longrightarrow> n \<le> m \<Longrightarrow> tidy ab D m"
  by (auto simp: tidy_def)

lemma alike_seq: "alike ab ab' \<Longrightarrow> alike (ab\<lparr>ab_seq := i\<rparr>) (ab'\<lparr>ab_seq := i\<rparr>)"
  by (simp add: alike_def)

lemma tidy_seq [simp]: "tidy (ab\<lparr>ab_seq := i\<rparr>) C n = tidy ab C n"
  by (simp add: tidy_def apart_def clients_in_def side_units_def stop_orders_def)

lemma is_live_seq [simp]: "is_live (ab\<lparr>ab_seq := i\<rparr>) j = is_live ab j"
  by (simp add: is_live_def ab_orders_def)

lemma load_seq [simp]: "load (ab\<lparr>ab_seq := i\<rparr>) = load ab"
  by (simp add: load_def)

context book_engine begin

lemma represented_step:
  assumes "represented S ok covers A ab" and "command_ok (ab_spec ab) c" and "room ab (Suc k)"
  shows "represented S ok covers A (snd (spec_perform ab c))" and "room (snd (spec_perform ab c)) k"
proof -
  obtain b where b: "book_ok S ok covers A b" "abs_of S A b = ab" using assms(1) by (auto simp: represented_def)
  from perform_refines [OF b(1), of c] assms(2,3) b(2) show "represented S ok covers A (snd (spec_perform ab c))"
    by (auto simp: represented_def room_def)
  have "bt_ok (ab_stops ab sd)" for sd using stops_bt_ok [OF b(1), of sd] b(2) by auto
  from spec_perform_load [OF this, of c] fixed_spec_perform(3) [of ab c] assms(3)
  show "room (snd (spec_perform ab c)) k" by (simp add: room_def)
qed

lemma represented_bt_ok:
  assumes "represented S ok covers A ab"
  shows "bt_ok (ab_stops ab sd)"
proof -
  obtain b where b: "book_ok S ok covers A b" "abs_of S A b = ab" using assms by (auto simp: represented_def)
  with stops_bt_ok [OF b(1), of sd] show ?thesis by auto
qed

end

lemma submit_alike:
  assumes E: "book_engine S ok covers A" and E': "book_engine S' ok' covers' A'"
    and "streaming S ok covers A C n (Suc k) ab" and "streaming S' ok' covers' A' C n' (Suc k) ab'"
    and "alike ab ab'" and "on_lattice (ab_spec ab) ord" and "client ord \<notin> C"
    and n: "n + units (remaining_quantity ord) < 2 ^ 64"
  shows "rel_sum (=) reports_alike (fst (spec_submit ab ord)) (fst (spec_submit ab' ord))"
    and "alike (snd (spec_submit ab ord)) (snd (spec_submit ab' ord))"
    and "streaming S ok covers A (insert (client ord) C) (n + units (remaining_quantity ord)) k (snd (spec_submit ab ord))"
    and "streaming S' ok' covers' A' (insert (client ord) C) (n' + units (remaining_quantity ord)) k (snd (spec_submit ab' ord))"
proof -
  let ?n = "n + units (remaining_quantity ord)" and ?n' = "n' + units (remaining_quantity ord)"
  let ?D = "insert (client ord) C"
  note same = alikeD [OF assms(5)]
  have pre: "represented S ok covers A ab" "ids_drawn ab" "room ab (Suc k)" "tidy ab C n"
    "represented S' ok' covers' A' ab'" "ids_drawn ab'" "room ab' (Suc k)" "tidy ab' C n'"
    using assms(3,4) by (simp_all add: streaming_def)
  have lattice': "on_lattice (ab_spec ab') ord" using assms(6) by (simp add: same(6))
  have one: "room ab 1" "room ab' 1" using pre(3,7) by (simp_all add: room_def)
  have step: "represented S ok covers A (snd (spec_submit ab ord))" "room (snd (spec_submit ab ord)) k"
    "represented S' ok' covers' A' (snd (spec_submit ab' ord))" "room (snd (spec_submit ab' ord)) k"
    using book_engine.represented_step [OF E pre(1), of "Submit ord"] book_engine.represented_step [OF E' pre(5), of "Submit ord"]
      pre(3,7) assms(6) lattice' by simp_all
  have ids: "ids_drawn (snd (spec_submit ab ord))" "ids_drawn (snd (spec_submit ab' ord))"
    by (rule book_engine.submit_step [OF E pre(1) assms(6) one(1) pre(2)],
        rule book_engine.submit_step [OF E' pre(5) lattice' one(2) pre(6)])
  have "rel_sum (=) reports_alike (fst (spec_submit ab ord)) (fst (spec_submit ab' ord)) \<and>
      alike (snd (spec_submit ab ord)) (snd (spec_submit ab' ord)) \<and>
      tidy (snd (spec_submit ab ord)) ?D ?n \<and> tidy (snd (spec_submit ab' ord)) ?D ?n'"
  proof (cases "admit_under (ab_spec ab) ord")
    case (Inl e)
    then show ?thesis
      using assms(5) tidy_weaken [OF pre(4), of ?D ?n] tidy_weaken [OF pre(8), of ?D ?n'] by (auto simp: spec_submit_def same(6))
  next
    case (Inr u)
    let ?ord = "ord\<lparr>order_id := from_sequence (ab_seq ab)\<rparr>" and ?ab = "ab\<lparr>ab_seq := ab_seq ab + 1\<rparr>"
      and ?ab' = "ab'\<lparr>ab_seq := ab_seq ab + 1\<rparr>"
    let ?ab1 = "snd (spec_execute ?ab ?ord)" and ?ab1' = "snd (spec_execute ?ab' ?ord)"
    note rep = book_engine.represented_seq [OF E pre(1), of "ab_seq ab + 1"]
      and rep' = book_engine.represented_seq [OF E' pre(5), of "ab_seq ab + 1"]
    have admitted: "admit_under (ab_spec ?ab) ?ord = Inr ()" "admit_under (ab_spec ?ab') ?ord = Inr ()"
      using Inr admit_under_cong [of ?ord ord] by (simp_all add: same(6))
    have fresh: "\<not> is_live ?ab (order_id ?ord)" "\<not> is_live ?ab' (order_id ?ord)"
      using ids_drawn_fresh [OF pre(2)] ids_drawn_fresh [OF pre(6)] by (simp_all add: same(4))
    have lattice: "on_lattice (ab_spec ?ab) ?ord" "on_lattice (ab_spec ?ab') ?ord"
      using assms(6) by (simp_all add: same(6))
    have load: "load ?ab + 1 < 2 ^ 32" "load ?ab' + 1 < 2 ^ 32" using one by (simp_all add: room_def)
    have bt: "bt_ok (ab_stops ?ab sd)" for sd using book_engine.represented_bt_ok [OF E pre(1)] by simp
    note exec = execute_alike [OF book_engine.represented_abs_ok [OF E rep] book_engine.represented_abs_ok [OF E' rep']
        alike_seq [OF assms(5)] lattice(1) admitted(1) fresh, of C n n']
    have pre2: "tidy ?ab C n" "tidy ?ab' C n'" "client ?ord \<notin> C" "n < 2 ^ 64" using pre(4,8) assms(7) n by simp_all
    have small: "n + units (remaining_quantity ?ord) < 2 ^ 64" using n by simp
    note run = exec [OF pre2(1-3) bt pre2(4)]
    have load1: "load ?ab1 < 2 ^ 32"
      using book_engine.spec_execute_facts(4) [OF E rep lattice(1) load(1) admitted(1) fresh(1)] load(1) by linarith
    obtain r r' where r: "fst (spec_execute ?ab ?ord) = Inr r" "fst (spec_execute ?ab' ?ord) = Inr r'" "runs_alike r r'"
      "report_triggered r = []" "report_triggered r' = []" using run(1) by blast
    obtain rs rs' where cascade: "fst (spec_cascade ?ab1) = Inr rs" "fst (spec_cascade ?ab1') = Inr rs'"
      "list_all2 runs_alike rs rs'" "alike (snd (spec_cascade ?ab1)) (snd (spec_cascade ?ab1'))"
      "tidy (snd (spec_cascade ?ab1)) ?D ?n" "tidy (snd (spec_cascade ?ab1')) ?D ?n'"
      using cascade_alike [OF E E' small
          book_engine.spec_execute_facts(2) [OF E rep lattice(1) load(1) admitted(1) fresh(1)]
          book_engine.spec_execute_facts(2) [OF E' rep' lattice(2) load(2) admitted(2) fresh(2)] load1 run(2), of ?D ?n']
        run(3,4) by auto
    have "spec_submit ab ord = (Inr (with_triggered r rs), snd (spec_cascade ?ab1))"
      using Inr r(1) cascade(1) by (simp add: spec_submit_def split_beta)
    moreover have "spec_submit ab' ord = (Inr (with_triggered r' rs'), snd (spec_cascade ?ab1'))"
      using Inr r(2) cascade(2) by (simp add: spec_submit_def split_beta same(4,6))
    moreover have "reports_alike (with_triggered r rs) (with_triggered r' rs')"
      using r(3-5) cascade(3) by (cases r; cases r') (simp add: reports_alike_def runs_alike_def)
    ultimately show ?thesis using cascade(4-6) by simp
  qed
  with step ids show "rel_sum (=) reports_alike (fst (spec_submit ab ord)) (fst (spec_submit ab' ord))"
    and "alike (snd (spec_submit ab ord)) (snd (spec_submit ab' ord))"
    and "streaming S ok covers A ?D ?n k (snd (spec_submit ab ord))"
    and "streaming S' ok' covers' A' ?D ?n' k (snd (spec_submit ab' ord))" by (simp_all add: streaming_def)
qed

end
