(* ===== verification/Property_Fixtures.thy ===== *)
theory Property_Fixtures
  imports Exercise Stream_Agreement Book_Properties
begin

text \<open>
  The strategies and helpers of the property-based tests, \<^verbatim>\<open>src/tests/properties.rs\<close>: the instruments
  they run against, the orders they draw, the snapshots of a book they compare. A strategy is a
  function of the drawn numbers and a predicate for their ranges; the decimals of the instrument are
  a parameter, which the fixtures never come to use.
\<close>

section \<open>Instruments\<close>

definition prop_spec_on :: "'d decimal_ops \<Rightarrow> u64 \<Rightarrow> instrument_spec option" where
  "prop_spec_on D lot = do {
     spec \<leftarrow> unwrap (spec_new 2 0 25 lot :: 'd spec_error + instrument_spec);
     mn \<leftarrow> Option.bind (price_from_minor D spec 9500) unwrap;
     mx \<leftarrow> Option.bind (price_from_minor D spec 10500) unwrap;
     unwrap (with_price_range spec mn (Some mx) :: 'd spec_error + instrument_spec)
   }"

definition prop_spec :: "'d decimal_ops \<Rightarrow> instrument_spec option" where
  "prop_spec D = prop_spec_on D 1"

definition lot_ten_spec :: "'d decimal_ops \<Rightarrow> instrument_spec option" where
  "lot_ten_spec D = prop_spec_on D 10"

definition prop_qty :: "'d decimal_ops \<Rightarrow> u64 \<Rightarrow> qty option" where
  "prop_qty D n = do { spec \<leftarrow> prop_spec D; r \<leftarrow> qty_from_base D spec n; unwrap r }"

definition prop_bounded_spec :: "'d decimal_ops \<Rightarrow> instrument_spec option" where
  "prop_bounded_spec D = do {
     spec \<leftarrow> prop_spec D;
     mn \<leftarrow> prop_qty D 5;
     mx \<leftarrow> prop_qty D 1000;
     unwrap (with_qty_range spec mn (Some mx) :: 'd spec_error + instrument_spec)
   }"

section \<open>Strategies\<close>

text \<open>The kind of an order and the numbers of ticks of its prices; its size; its client.\<close>

type_synonym draw = "side \<times> (8 word \<times> u64 \<times> u64) \<times> u64 \<times> 8 word"

definition arb_limit_price :: "'d decimal_ops \<Rightarrow> u64 \<Rightarrow> price option" where
  "arb_limit_price D n = do { spec \<leftarrow> prop_spec D; r \<leftarrow> price_from_minor D spec (n * 25); unwrap r }"

definition arb_order_type :: "'d decimal_ops \<Rightarrow> 8 word \<times> u64 \<times> u64 \<Rightarrow> order_type option" where
  "arb_order_type D drawn = (case drawn of (kind, m, n) \<Rightarrow> do {
     p \<leftarrow> arb_limit_price D m;
     p' \<leftarrow> arb_limit_price D n;
     Some (if kind = 1 then limit_ioc p
       else if kind = 2 then limit_fok p
       else if kind = 3 then Market
       else if kind = 4 then stop_market p
       else if kind = 5 then stop_limit p p'
       else limit_gtc p)
   })"

definition drawn_order :: "'d decimal_ops \<Rightarrow> side \<Rightarrow> 8 word \<times> u64 \<times> u64 \<Rightarrow> qty option \<Rightarrow> nat \<Rightarrow> order option" where
  "drawn_order D sd typ q c = do {
     typ \<leftarrow> arb_order_type D typ;
     q \<leftarrow> q;
     build (with_quantity (with_side (with_order_type (with_client_id (with_exchange_id (builder 0)
       ''caller-provided'') (''client-'' @ decimal_digits c)) typ) sd) q)
   }"

definition arb_order :: "'d decimal_ops \<Rightarrow> draw \<Rightarrow> order option" where
  "arb_order D drawn = (case drawn of (sd, typ, q, c) \<Rightarrow> drawn_order D sd typ (prop_qty D q) (unat c))"

definition arb_stream :: "'d decimal_ops \<Rightarrow> draw list \<Rightarrow> order list option" where
  "arb_stream D drawn = those (map (arb_order D) drawn)"

text \<open>The client of an order is its place in the stream.\<close>

definition arb_stream_unique_clients :: "'d decimal_ops \<Rightarrow> draw list \<Rightarrow> order list option" where
  "arb_stream_unique_clients D drawn =
     those (map (\<lambda>(i, sd, typ, q, c). drawn_order D sd typ (prop_qty D q) i) (List.enumerate 0 drawn))"

definition arb_lot_ten_order :: "'d decimal_ops \<Rightarrow> draw \<Rightarrow> order option" where
  "arb_lot_ten_order D drawn = (case drawn of (sd, typ, lots, c) \<Rightarrow>
     drawn_order D sd typ
       (do { spec \<leftarrow> lot_ten_spec D; r \<leftarrow> qty_from_base D spec (lots * 10); unwrap r }) (unat c))"

text \<open>The ranges drawn from, but for the clients; every draw within them is an order the book admits.\<close>

definition draw_ok :: "draw \<Rightarrow> bool" where
  "draw_ok drawn \<longleftrightarrow> (case drawn of (sd, (kind, m, n), q, c) \<Rightarrow>
     380 \<le> m \<and> m \<le> 420 \<and> 380 \<le> n \<and> n \<le> 420 \<and> 1 \<le> q \<and> q \<le> 50)"

section \<open>Helpers\<close>

definition level_depths ::
    "('s, 'k) store_ops \<Rightarrow> ('m, 'k) arena_ops \<Rightarrow> ('s, 'm, 'k) order_book \<Rightarrow> (price \<times> qty) list option" where
  "level_depths S A b = depth_rows A (book_levels S b Bid @ book_levels S b Ask)"

definition total_depth ::
    "('s, 'k) store_ops \<Rightarrow> ('m, 'k) arena_ops \<Rightarrow> ('s, 'm, 'k) order_book \<Rightarrow> qty option" where
  "total_depth S A b = map_option qty_sum (those (map (view_total A) (book_levels S b Bid @ book_levels S b Ask)))"

definition locations :: "('s, 'm, 'k) order_book \<Rightarrow> (exchange_id \<rightharpoonup> order_location) option" where
  "locations b = map_option (\<lambda>kvs. map_of (rev kvs))
     (those (map (\<lambda>i. map_option (Pair i) (order_location_of b i)) (order_ids b)))"

text \<open>The orders of the levels under their identifiers, with side, price and what remains.\<close>

definition resting_snapshot ::
    "('s, 'k) store_ops \<Rightarrow> ('m, 'k) arena_ops \<Rightarrow> ('s, 'm, 'k) order_book \<Rightarrow>
       (exchange_id \<rightharpoonup> side \<times> price \<times> qty) option" where
  "resting_snapshot S A b = map_option (\<lambda>kvs. map_of (rev (concat kvs))) (those (map (\<lambda>v.
     map_option (map (\<lambda>ord. (order_id ord, order_side ord, view_price v, remaining_quantity ord))) (view_orders A v))
     (book_levels S b Bid @ book_levels S b Ask)))"

definition all_reports :: "execution_report \<Rightarrow> execution_report list" where
  "all_reports report = report # report_triggered report"

definition cascade_filled :: "execution_report \<Rightarrow> qty" where
  "cascade_filled report = qty_sum (map trade_quantity (concat (map report_trades (all_reports report))))"

text \<open>Every configuration of one store: the three policies, for the lot of the instrument.\<close>

definition for_each_policy :: "u64 \<Rightarrow> (matcher \<Rightarrow> unit option) \<Rightarrow> unit option" where
  "for_each_policy lot check = do {
     check fifo_matcher;
     m \<leftarrow> pro_rata_new lot;
     check m;
     t \<leftarrow> time_pro_rata_new lot;
     check (time_pro_rata_matcher t)
   }"

text \<open>
  The loop of the tests: every order of the stream is submitted, which must not fail, and the body
  of the test looks at the book before, the order, the report and the book after.
\<close>

fun over_stream ::
    "('s, 'k) store_ops \<Rightarrow> ('m, 'k) arena_ops \<Rightarrow>
       (('s, 'm, 'k) order_book \<Rightarrow> order \<Rightarrow> execution_report \<Rightarrow> ('s, 'm, 'k) order_book \<Rightarrow> 't \<Rightarrow> 't option) \<Rightarrow>
       order list \<Rightarrow> ('s, 'm, 'k) order_book \<Rightarrow> 't \<Rightarrow> (('s, 'm, 'k) order_book \<times> 't) option" where
  "over_stream S A body [] b st = Some (b, st)"
| "over_stream S A body (ord # ords) b st = do {
     (r, b') \<leftarrow> submit S A b ord;
     report \<leftarrow> unwrap r;
     st \<leftarrow> body b ord report b' st;
     over_stream S A body ords b' st
   }"

definition new_book ::
    "('s, 'k) store_ops \<Rightarrow> ('m, 'k) arena_ops \<Rightarrow> instrument_spec \<Rightarrow> matcher \<Rightarrow> ('s, 'm, 'k) order_book option" where
  "new_book S A spec mtch = Option.bind (try_new S A spec mtch) unwrap"

section \<open>What is drawn\<close>

lemma prop_spec_on_value:
  assumes "lot \<noteq> 0"
  shows "prop_spec_on D lot = Some \<lparr>price_scale = 2, qty_scale = 0, tick_size = 25, lot_size = lot, min_price = Price 9500,
     max_price = Some (Price 10500), min_qty = Qty lot, max_qty = None, min_notional = None\<rparr>"
  using assms
  by (simp add: prop_spec_on_def spec_new_def price_from_minor_def with_price_range_def MAX_SCALE_def is_multiple_of_unat Let_def)

lemma prop_specs:
  "prop_spec D = prop_spec_on D 1" "lot_ten_spec D = prop_spec_on D 10"
  by (simp_all add: prop_spec_def lot_ten_spec_def)

lemma tick_25: "is_multiple_of (n * 25) 25" if "n \<le> 420" for n :: u64
proof -
  have "unat (n * 25) = unat n * 25"
    using that unat_mult_exact [of n 25] by (simp add: word_le_nat_alt)
  then show ?thesis by (simp add: is_multiple_of_unat)
qed

lemma drawn_price:
  assumes "380 \<le> n" and "n \<le> 420"
  shows "arb_limit_price D n = Some (Price (n * 25))" and "9500 \<le> n * 25" and "n * 25 \<le> 10500"
proof -
  show "arb_limit_price D n = Some (Price (n * 25))"
    using tick_25 [OF assms(2)]
    by (simp add: arb_limit_price_def prop_specs prop_spec_on_value price_from_minor_def)
  have "unat (n * 25) = unat n * 25"
    using assms(2) unat_mult_exact [of n 25] by (simp add: word_le_nat_alt)
  then show "9500 \<le> n * 25" "n * 25 \<le> 10500" using assms by (simp_all add: word_le_nat_alt)
qed

text \<open>
  Whatever is drawn for a lot is an order on its lattice which the instrument admits; nothing of it
  has traded yet, and all its prices are on the tick.
\<close>

definition drawn_for :: "instrument_spec \<Rightarrow> qty \<Rightarrow> nat \<Rightarrow> order \<Rightarrow> bool" where
  "drawn_for spec q c ord \<longleftrightarrow> on_lattice spec ord \<and> admit_under spec ord = Inr () \<and>
     client ord = ClientId (''client-'' @ decimal_digits c) \<and> remaining_quantity ord = q \<and> original_quantity ord = q \<and>
     (\<forall>p. Some p \<in> set (prices (otype ord)) \<longrightarrow> is_multiple_of (minor p) (tick_size spec))"

lemma drawn_order_ok:
  assumes "380 \<le> m" "m \<le> 420" "380 \<le> n" "n \<le> 420" and "prop_spec_on D lot = Some spec"
    and "lot \<noteq> 0" and "is_multiple_of (base q) lot" and "lot \<le> base q" and "q \<noteq> 0"
  shows "\<exists>ord. drawn_order D sd (kind, m, n) (Some q) c = Some ord \<and> drawn_for spec q c ord"
proof -
  obtain kd where kd: "arb_order_type D (kind, m, n) = Some kd"
    and on: "\<forall>p. Some p \<in> set (prices kd) \<longrightarrow> p = Price (m * 25) \<or> p = Price (n * 25)"
    and limit: "\<forall>p. limit_price kd = Some p \<longrightarrow> p = Price (m * 25) \<or> p = Price (n * 25)"
    by (auto simp: arb_order_type_def drawn_price assms limit_ioc_def limit_fok_def limit_gtc_def stop_market_def stop_limit_def)
  have spec: "spec = \<lparr>price_scale = 2, qty_scale = 0, tick_size = 25, lot_size = lot, min_price = Price 9500,
     max_price = Some (Price 10500), min_qty = Qty lot, max_qty = None, min_notional = None\<rparr>"
    using assms(5) prop_spec_on_value [OF assms(6), of D] by simp
  have one: "admits_price spec p = Inr ()" if "p = Price (m * 25) \<or> p = Price (n * 25)" for p
    using that drawn_price [OF assms(1,2)] drawn_price [OF assms(3,4)] by (auto simp: admits_price_def spec)
  have "admit_prices spec ps = Inr ()" if "\<forall>p. Some p \<in> set ps \<longrightarrow> admits_price spec p = Inr ()" for ps
    using that by (induction spec ps rule: admit_prices.induct) auto
  then have "admit_prices spec (prices kd) = Inr ()" using on one by blast
  moreover have "case limit_price kd of None \<Rightarrow> True | Some p \<Rightarrow> is_multiple_of (minor p) 25"
    using limit tick_25 [OF assms(2)] tick_25 [OF assms(4)] by (auto split: option.split)
  moreover have "\<forall>p. Some p \<in> set (prices kd) \<longrightarrow> is_multiple_of (minor p) 25"
    using on tick_25 [OF assms(2)] tick_25 [OF assms(4)] by auto
  moreover have "Qty lot \<le> q" using assms(8) by (cases q) simp
  ultimately show ?thesis
    using assms(7,9)
    by (auto simp: drawn_order_def kd build_def builder_def with_exchange_id_def with_client_id_def with_quantity_def
        with_order_type_def with_side_def drawn_for_def on_lattice_def tradable_def admit_under_def admits_qty_def
        admits_notional_def spec not_less split: option.split)
qed

lemma those_Some: "(\<And>x. x \<in> set xs \<Longrightarrow> f x = Some (g x)) \<Longrightarrow> those (map f xs) = Some (map g xs)"
  by (induction xs) simp_all

lemma those_ex:
  "(\<And>x. x \<in> set xs \<Longrightarrow> \<exists>y. f x = Some y \<and> P x y) \<Longrightarrow> \<exists>ys. those (map f xs) = Some ys \<and> list_all2 P xs ys"
proof (induction xs)
  case (Cons x xs)
  then obtain y ys where "f x = Some y" "P x y" "those (map f xs) = Some ys" "list_all2 P xs ys" by (meson list.set_intros)
  then show ?case by (intro exI [of _ "y # ys"]) simp
qed simp

text \<open>An order of a stream: on the lattice, and admitted.\<close>

definition streamable :: "instrument_spec \<Rightarrow> order \<Rightarrow> bool" where
  "streamable spec ord \<longleftrightarrow> on_lattice spec ord \<and> admit_under spec ord = Inr ()"

lemma drawn_for_streamable: "drawn_for spec q c ord \<Longrightarrow> streamable spec ord"
  by (simp add: drawn_for_def streamable_def)

lemma one_unit: "is_multiple_of n 1" "n \<noteq> 0 \<longleftrightarrow> 1 \<le> n" for n :: u64
  by (simp_all add: is_multiple_of_unat word_le_nat_alt Suc_le_eq unat_gt_0)

lemma prop_qty_value: "prop_qty D n = Some (Qty n)"
  by (simp add: prop_qty_def prop_specs prop_spec_on_value qty_from_base_def one_unit)

lemma arb_order_ok:
  assumes "prop_spec D = Some spec" and "draw_ok drawn"
  shows "\<exists>ord q c. arb_order D drawn = Some ord \<and> drawn_for spec q c ord \<and> units q \<le> 50"
proof -
  obtain sd kind m n q c where drawn: "drawn = (sd, (kind, m, n), q, c)" by (cases drawn) auto
  with assms(2) have q: "380 \<le> m" "m \<le> 420" "380 \<le> n" "n \<le> 420" "1 \<le> q" "q \<le> 50" by (simp_all add: draw_ok_def)
  then have "Qty q \<noteq> 0" "unat q \<le> 50" using one_unit(2) [of q] by (auto simp: zero_qty_def word_le_nat_alt)
  with drawn_order_ok [OF q(1-4) assms(1) [unfolded prop_specs], of "Qty q" sd kind "unat c"] q(5)
  obtain ord where "arb_order D drawn = Some ord" "drawn_for spec (Qty q) (unat c) ord"
    by (auto simp: drawn arb_order_def prop_qty_value one_unit(1))
  with \<open>unat q \<le> 50\<close> show ?thesis by (intro exI [of _ ord] exI [of _ "Qty q"] exI [of _ "unat c"]) simp
qed

lemma drawn_forD:
  assumes "drawn_for spec q c ord"
  shows "streamable spec ord" and "original_quantity ord = remaining_quantity ord" and "remaining_quantity ord = q"
    and "\<forall>p. Some p \<in> set (prices (otype ord)) \<longrightarrow> is_multiple_of (minor p) (tick_size spec)"
  using assms by (simp_all add: drawn_for_def streamable_def)

lemma arb_stream_ok:
  assumes "prop_spec D = Some spec" and "\<forall>d\<in>set drawn. draw_ok d"
  shows "\<exists>stream. arb_stream D drawn = Some stream \<and> length stream = length drawn \<and>
    (\<forall>ord\<in>set stream. \<exists>q c. drawn_for spec q c ord \<and> units q \<le> 50)"
proof -
  have "\<exists>ord. arb_order D d = Some ord \<and> (\<exists>q c. drawn_for spec q c ord \<and> units q \<le> 50)" if "d \<in> set drawn" for d
    using arb_order_ok [OF assms(1)] assms(2) that by blast
  from those_ex [of drawn "arb_order D" "\<lambda>_ ord. \<exists>q c. drawn_for spec q c ord \<and> units q \<le> 50", OF this]
  obtain stream where "those (map (arb_order D) drawn) = Some stream"
    "list_all2 (\<lambda>_ ord. \<exists>q c. drawn_for spec q c ord \<and> units q \<le> 50) drawn stream" by blast
  then show ?thesis
    by (intro exI [of _ stream]) (auto simp: arb_stream_def list_all2_conv_all_nth in_set_conv_nth)
qed

text \<open>The same for the lot of ten.\<close>

definition arb_lot_ten_stream :: "'d decimal_ops \<Rightarrow> draw list \<Rightarrow> order list option" where
  "arb_lot_ten_stream D drawn = those (map (arb_lot_ten_order D) drawn)"

lemma arb_lot_ten_order_ok:
  assumes "lot_ten_spec D = Some spec" and "draw_ok drawn"
  shows "\<exists>ord q c. arb_lot_ten_order D drawn = Some ord \<and> drawn_for spec q c ord"
proof -
  obtain sd kind m n q c where drawn: "drawn = (sd, (kind, m, n), q, c)" by (cases drawn) auto
  with assms(2) have q: "380 \<le> m" "m \<le> 420" "380 \<le> n" "n \<le> 420" "1 \<le> q" "q \<le> 50" by (simp_all add: draw_ok_def)
  have "unat (q * 10) = unat q * 10" using q(6) unat_mult_exact [of q 10] by (simp add: word_le_nat_alt)
  then have lots: "is_multiple_of (q * 10) 10" "10 \<le> q * 10" "q * 10 \<noteq> 0"
    using q(5) by (auto simp: is_multiple_of_unat word_le_nat_alt unat_eq_0 [symmetric] simp del: unat_eq_0)
  then have "Qty (q * 10) \<noteq> 0" by (simp add: zero_qty_def)
  with drawn_order_ok [OF q(1-4) assms(1) [unfolded prop_specs], of "Qty (q * 10)" sd kind "unat c"] lots(1,2)
    prop_spec_on_value [of 10 D] assms(1) show ?thesis
    by (auto simp: drawn arb_lot_ten_order_def qty_from_base_def prop_specs unwrap_def)
qed

lemma arb_lot_ten_stream_ok:
  assumes "lot_ten_spec D = Some spec" and "\<forall>d\<in>set drawn. draw_ok d"
  shows "\<exists>stream. arb_lot_ten_stream D drawn = Some stream \<and> length stream = length drawn \<and>
    (\<forall>ord\<in>set stream. \<exists>q c. drawn_for spec q c ord)"
proof -
  have "\<exists>ord. arb_lot_ten_order D d = Some ord \<and> (\<exists>q c. drawn_for spec q c ord)" if "d \<in> set drawn" for d
    using arb_lot_ten_order_ok [OF assms(1)] assms(2) that by blast
  from those_ex [of drawn "arb_lot_ten_order D" "\<lambda>_ ord. \<exists>q c. drawn_for spec q c ord", OF this]
  obtain stream where "those (map (arb_lot_ten_order D) drawn) = Some stream"
    "list_all2 (\<lambda>_ ord. \<exists>q c. drawn_for spec q c ord) drawn stream" by blast
  then show ?thesis
    by (intro exI [of _ stream]) (auto simp: arb_lot_ten_stream_def list_all2_conv_all_nth in_set_conv_nth)
qed

lemma for_each_policy_passes:
  assumes "lot \<noteq> 0" and "\<And>mtch. matching_algorithm mtch lot \<Longrightarrow> check mtch = Some ()"
  shows "for_each_policy lot check = Some ()"
  using assms fifo.matching_algorithm_axioms [of lot] pro_rata.matching_algorithm_axioms [of lot]
    time_pro_rata.matching_algorithm_axioms [of lot]
  by (simp add: word_gt_0 for_each_policy_def pro_rata_new_def time_pro_rata_new_def default_time_pro_rata_def)

section \<open>What the helpers read\<close>

text \<open>The ladder of both sides: all helpers are functions of it.\<close>

definition both_sides :: "abs_book \<Rightarrow> ladder" where
  "both_sides ab = ab_sides ab Bid @ ab_sides ab Ask"

context book_engine begin

lemma views_ladder:
  assumes "book_rel S ok covers A b K"
  shows "map (\<lambda>v. (view_price v, view_orders A v)) (book_levels S b Bid @ book_levels S b Ask) =
    map (\<lambda>(p, os). (p, Some os)) (both_sides (abs_of S A b))"
proof -
  have "queue_iter A (bl_queue l) (ob_nodes b) = Some (the (queue_iter A (bl_queue l) (ob_nodes b)))"
    if "l \<in> set (levels_of S (ob_store b) sd)" for l sd
    using level_rows(4) [OF assms that] by (simp add: queue_iter_def)
  then have "map (\<lambda>v. (view_price v, view_orders A v)) (book_levels S b sd) = map (\<lambda>(p, os). (p, Some os)) (ladder_of S A b sd)" for sd
    by (simp add: book_levels_def ladder_of_def view_orders_def view_new_def)
  then show ?thesis by (simp add: both_sides_def)
qed

lemma those_views:
  assumes "book_rel S ok covers A b K"
  shows "those (map (\<lambda>v. map_option (f (view_price v)) (view_orders A v)) (book_levels S b Bid @ book_levels S b Ask)) =
    Some (map (\<lambda>(p, os). f p os) (both_sides (abs_of S A b)))"
proof -
  have "map (\<lambda>v. map_option (f (view_price v)) (view_orders A v)) vs =
      map (\<lambda>(p, x). map_option (f p) x) (map (\<lambda>v. (view_price v, view_orders A v)) vs)" for vs :: "('m, 'k) level_view list"
    by simp
  also have "\<dots> (book_levels S b Bid @ book_levels S b Ask) = map (\<lambda>(p, os). Some (f p os)) (both_sides (abs_of S A b))"
    unfolding views_ladder [OF assms] by (simp add: split_beta)
  also have "those \<dots> = Some (map (\<lambda>(p, os). f p os) (both_sides (abs_of S A b)))"
    by (rule those_Some) auto
  finally show ?thesis .
qed

lemma level_depths_reads:
  assumes "book_rel S ok covers A b K"
  shows "level_depths S A b = Some (map (\<lambda>(p, os). (p, qty_sum (map remaining_quantity os))) (both_sides (abs_of S A b)))"
proof -
  have "depth_rows A vs = those (map (\<lambda>v. map_option (\<lambda>os. (view_price v, qty_sum (map remaining_quantity os))) (view_orders A v)) vs)" for vs
    by (induction vs) (auto simp: view_total_def map_option_bind split: option.split bind_split)
  with those_views [OF assms, of "\<lambda>p os. (p, qty_sum (map remaining_quantity os))"] show ?thesis
    by (simp add: level_depths_def)
qed

lemma total_depth_reads:
  assumes "book_rel S ok covers A b K"
  shows "total_depth S A b = Some (qty_sum (map (\<lambda>(p, os). qty_sum (map remaining_quantity os)) (both_sides (abs_of S A b))))"
  using those_views [OF assms, of "\<lambda>p os. qty_sum (map remaining_quantity os)"]
  by (simp add: total_depth_def view_total_def [abs_def])

lemma resting_snapshot_reads:
  assumes "book_rel S ok covers A b K"
  shows "resting_snapshot S A b = Some (map_of (rev (concat (map (\<lambda>(p, os).
    map (\<lambda>ord. (order_id ord, order_side ord, p, remaining_quantity ord)) os) (both_sides (abs_of S A b))))))"
  using those_views [OF assms, of "\<lambda>p. map (\<lambda>ord. (order_id ord, order_side ord, p, remaining_quantity ord))"]
  by (simp add: resting_snapshot_def)

text \<open>Locations are a function of the abstract book: of two books with the same, they are the same.\<close>

lemma locations_reads:
  assumes "book_rel S ok covers A b K"
  shows "locations b = Some (order_location_of b)"
proof -
  have "those (map (\<lambda>i. map_option (Pair i) (order_location_of b i)) (order_ids b)) =
      Some (map (\<lambda>i. (i, the (order_location_of b i))) (order_ids b))"
    by (rule those_Some) (auto simp: order_ids_def hm_keys_set order_location_of_def)
  moreover have "map_of (rev (map (\<lambda>i. (i, f i)) js)) i = (if i \<in> set js then Some (f i) else None)"
    for f :: "exchange_id \<Rightarrow> order_location" and js i
    by (simp add: rev_map map_of_map_restrict restrict_map_def)
  then have "map_of (rev (map (\<lambda>i. (i, the (order_location_of b i))) (order_ids b))) = order_location_of b"
    by (auto simp: fun_eq_iff order_ids_def hm_keys_set order_location_of_def)
  ultimately show ?thesis by (simp add: locations_def)
qed

end

end
