(* ===== verification/Property_Tests.thy ===== *)
theory Property_Tests
  imports Property_Fixtures
begin

text \<open>
  The property-based tests of \<^verbatim>\<open>src/tests/properties.rs\<close> as functions of the drawn stream, and the
  proofs that they pass: for every stream, on every store and with every policy that honours the
  contract. A failed \<open>prop_assert\<close> is a failed assertion.
\<close>

section \<open>The bodies\<close>

text \<open>Invariant 5: after every submission the touch is uncrossed.\<close>

definition never_crossed_body ::
    "('s, 'k) store_ops \<Rightarrow> ('s, 'm, 'k) order_book \<Rightarrow> order \<Rightarrow> execution_report \<Rightarrow>
       ('s, 'm, 'k) order_book \<Rightarrow> unit \<Rightarrow> unit option" where
  "never_crossed_body S before ord report b st = do {
     bid \<leftarrow> best_bid S b;
     ask \<leftarrow> best_ask S b;
     assert_that (case (bid, ask) of (Some bid, Some ask) \<Rightarrow> bid < ask | _ \<Rightarrow> True)
   }"

definition check_never_crossed ::
    "'d decimal_ops \<Rightarrow> ('s, 'k) store_ops \<Rightarrow> ('m, 'k) arena_ops \<Rightarrow> matcher \<Rightarrow> order list \<Rightarrow> unit option" where
  "check_never_crossed D S A mtch stream = do {
     spec \<leftarrow> prop_spec D;
     b \<leftarrow> new_book S A spec mtch;
     over_stream S A (never_crossed_body S) stream b ();
     Some ()
   }"

text \<open>Invariant 7: what is still pending lies strictly beyond the last price.\<close>

definition stop_discipline_body ::
    "('s, 'm, 'k) order_book \<Rightarrow> order \<Rightarrow> execution_report \<Rightarrow> ('s, 'm, 'k) order_book \<Rightarrow> unit \<Rightarrow> unit option" where
  "stop_discipline_body before ord report b st =
     (case last_trade_price b of
        None \<Rightarrow> Some ()
      | Some lst \<Rightarrow> do {
          assert_that (\<forall>l\<in>set (stop_bids b). lst < fst l);
          assert_that (\<forall>l\<in>set (stop_asks b). fst l < lst)
        })"

definition check_stop_discipline ::
    "'d decimal_ops \<Rightarrow> ('s, 'k) store_ops \<Rightarrow> ('m, 'k) arena_ops \<Rightarrow> matcher \<Rightarrow> order list \<Rightarrow> unit option" where
  "check_stop_discipline D S A mtch stream = do {
     spec \<leftarrow> prop_spec D;
     b \<leftarrow> new_book S A spec mtch;
     over_stream S A stop_discipline_body stream b ();
     Some ()
   }"

text \<open>Invariant 9: a rejected order leaves the book as it was, its counters included.\<close>

fun submit_all ::
    "('s, 'k) store_ops \<Rightarrow> ('m, 'k) arena_ops \<Rightarrow> order list \<Rightarrow> ('s, 'm, 'k) order_book \<Rightarrow>
       ('s, 'm, 'k) order_book option" where
  "submit_all S A [] b = Some b"
| "submit_all S A (ord # ords) b = do { (r, b) \<leftarrow> submit S A b ord; submit_all S A ords b }"

definition check_reject_is_a_no_op ::
    "'d decimal_ops \<Rightarrow> ('s, 'k) store_ops \<Rightarrow> ('m, 'k) arena_ops \<Rightarrow> matcher \<Rightarrow> order list \<Rightarrow>
       u64 \<Rightarrow> side \<Rightarrow> price \<Rightarrow> unit option" where
  "check_reject_is_a_no_op D S A mtch stream too_small sd p = do {
     spec \<leftarrow> prop_bounded_spec D;
     b \<leftarrow> new_book S A spec mtch;
     b \<leftarrow> submit_all S A stream b;
     resting_before \<leftarrow> resting_snapshot S A b;
     depth_before \<leftarrow> total_depth S A b;
     let seq_before = next_seq b;
     let arrival_before = next_arrival b;
     let stops_before = length (stop_bids b) + length (stop_asks b);
     q \<leftarrow> prop_qty D too_small;
     bad \<leftarrow> build (with_exchange_id (with_client_id (with_quantity (with_order_type (with_side (builder 0) sd)
       (limit_gtc p)) q) ''rejected'') ''rejected'');
     (r, b) \<leftarrow> submit S A b bad;
     assert_that (case r of Inl (Rejected _) \<Rightarrow> True | _ \<Rightarrow> False);
     assert_that (next_seq b = seq_before);
     assert_that (next_arrival b = arrival_before);
     depth_after \<leftarrow> total_depth S A b;
     assert_that (depth_after = depth_before);
     resting_after \<leftarrow> resting_snapshot S A b;
     assert_that (resting_after = resting_before);
     assert_that (length (stop_bids b) + length (stop_asks b) = stops_before)
   }"

section \<open>Runs\<close>

context book_engine begin

lemma new_book_run_ok:
  assumes "new_book S A spec mtch = Some b" and "spec_ok spec" and "matching_algorithm mtch (lot_size spec)"
    and "n + 1 < 2 ^ 32"
  shows "run_ok S ok covers A spec n b" and "abs_of S A b = empty_abs spec mtch"
proof -
  have "try_new S A spec mtch = Some (Inr b)"
    using assms(1) by (auto simp: new_book_def unwrap_def split: bind_splits sum.splits)
  from try_new_ok [OF assms(2,3) this, folded empty_abs_def]
  have b: "book_ok S ok covers A b" "abs_of S A b = empty_abs spec mtch" by simp_all
  then have "ob_spec b = spec" by (metis abs_of_simps(6) empty_abs_simps(6))
  moreover have "ids_drawn (empty_abs spec mtch)" by (simp add: ids_drawn_def is_live_def ab_orders_def)
  ultimately show "run_ok S ok covers A spec n b" "abs_of S A b = empty_abs spec mtch"
    using b room_empty [OF assms(4)] by (simp_all add: run_ok_def)
qed

lemma run_okD:
  assumes "run_ok S ok covers A spec n b"
  shows "book_ok S ok covers A b" and "ob_spec b = spec" and "ids_drawn (abs_of S A b)"
    and "room (abs_of S A b) n" and "represented S ok covers A (abs_of S A b)"
    and "\<not> is_live (abs_of S A b) (from_sequence (ab_seq (abs_of S A b)))"
proof -
  have b: "book_ok S ok covers A b" "ob_spec b = spec" "ids_drawn (abs_of S A b)" "room (abs_of S A b) n"
    using assms by (simp_all add: run_ok_def)
  then show "book_ok S ok covers A b" "ob_spec b = spec" "ids_drawn (abs_of S A b)" "room (abs_of S A b) n"
    "represented S ok covers A (abs_of S A b)" by (auto simp: represented_def)
  show "\<not> is_live (abs_of S A b) (from_sequence (ab_seq (abs_of S A b)))" by (rule ids_drawn_fresh [OF b(3)])
qed

text \<open>One submission of a run: it succeeds, with the report of the abstract engine.\<close>

lemma run_submit:
  assumes "run_ok S ok covers A spec (Suc n) b" and "streamable spec ord"
  obtains report b' where "submit S A b ord = Some (Inr report, b')"
    and "spec_submit (abs_of S A b) ord = (Inr report, abs_of S A b')"
    and "run_ok S ok covers A spec n b'" and "spec_pop (abs_of S A b') = None"
proof -
  note b = run_okD [OF assms(1)]
  have ord: "on_lattice spec ord" "admit_under spec ord = Inr ()" using assms(2) by (simp_all add: streamable_def)
  from perform_run_ok [OF assms(1), of "Submit ord"] ord(1) obtain b' where
    b': "submit S A b ord = Some (fst (spec_submit (abs_of S A b) ord), b')"
      "abs_of S A b' = snd (spec_submit (abs_of S A b) ord)" "run_ok S ok covers A spec n b'" by auto
  have "load (abs_of S A b) + 1 < 2 ^ 32" using b(4) by (simp add: room_def)
  from spec_submit_facts(1) [OF b(5) _ this b(6), of ord] ord b(2) obtain report where
    "fst (spec_submit (abs_of S A b) ord) = Inr report" "spec_pop (snd (spec_submit (abs_of S A b) ord)) = None" by auto
  with b' that [of report b'] show thesis by (metis prod.collapse)
qed

text \<open>A loop over a stream passes when its body does; what it keeps may speak of the orders to come.\<close>

lemma over_stream_keeps:
  assumes step: "\<And>k b ord ords report b' st. run_ok S ok covers A spec (Suc k) b \<Longrightarrow> J (ord # ords) b st \<Longrightarrow> streamable spec ord \<Longrightarrow>
      spec_submit (abs_of S A b) ord = (Inr report, abs_of S A b') \<Longrightarrow> run_ok S ok covers A spec k b' \<Longrightarrow>
      spec_pop (abs_of S A b') = None \<Longrightarrow> \<exists>st'. body b ord report b' st = Some st' \<and> J ords b' st'"
  shows "run_ok S ok covers A spec (length ords + n) b \<Longrightarrow> \<forall>ord\<in>set ords. streamable spec ord \<Longrightarrow> J ords b st \<Longrightarrow>
    \<exists>b' st'. over_stream S A body ords b st = Some (b', st') \<and> run_ok S ok covers A spec n b' \<and> J [] b' st'"
proof (induction ords arbitrary: b st)
  case (Cons ord ords)
  have run: "run_ok S ok covers A spec (Suc (length ords + n)) b" and ord: "streamable spec ord"
    using Cons.prems by simp_all
  obtain report b' where b': "submit S A b ord = Some (Inr report, b')"
    "spec_submit (abs_of S A b) ord = (Inr report, abs_of S A b')"
    "run_ok S ok covers A spec (length ords + n) b'" "spec_pop (abs_of S A b') = None"
    by (rule run_submit [OF run ord])
  from step [OF run Cons.prems(3) ord b'(2-4)] obtain st' where "body b ord report b' st = Some st'" "J ords b' st'" by blast
  with Cons.IH [OF b'(3) _ this(2)] Cons.prems(2) b'(1) show ?case by simp
qed auto

lemmas over_stream_passes = over_stream_keeps [where J = "\<lambda>ords. J" for J]

section \<open>The touch and the stops\<close>

lemma best_prices:
  assumes "book_ok S ok covers A b"
  shows "best_bid S b = Some (map_option fst (case ab_sides (abs_of S A b) Bid of [] \<Rightarrow> None | l # _ \<Rightarrow> Some l))"
    and "best_ask S b = Some (map_option fst (case ab_sides (abs_of S A b) Ask of [] \<Rightarrow> None | l # _ \<Rightarrow> Some l))"
proof -
  obtain K where "book_rel S ok covers A b K" using assms by (auto simp: book_ok_def)
  from best_price_ladder [OF this] show
    "best_bid S b = Some (map_option fst (case ab_sides (abs_of S A b) Bid of [] \<Rightarrow> None | l # _ \<Rightarrow> Some l))"
    "best_ask S b = Some (map_option fst (case ab_sides (abs_of S A b) Ask of [] \<Rightarrow> None | l # _ \<Rightarrow> Some l))"
    by (simp_all add: best_bid_def best_ask_def)
qed

lemma never_crossed_passes:
  assumes "prop_spec D = Some spec" and "spec_ok spec" and "new_book S A spec mtch = Some b"
    and "matching_algorithm mtch (lot_size spec)" and "\<forall>ord\<in>set stream. streamable spec ord" and "length stream + 1 < 2 ^ 32"
  shows "check_never_crossed D S A mtch stream = Some ()"
proof -
  let ?J = "\<lambda>b (st :: unit). uncrossed (abs_of S A b)"
  have "run_ok S ok covers A spec (length stream + 0) b" "uncrossed (abs_of S A b)"
    using new_book_run_ok [OF assms(3,2,4,6)] by (simp_all add: uncrossed_def)
  then have "\<exists>b' st'. over_stream S A (never_crossed_body S) stream b () = Some (b', st') \<and> run_ok S ok covers A spec 0 b' \<and> ?J b' st'"
  proof (intro over_stream_passes [where J = ?J and n = 0])
    fix k b ord report b' and st :: unit
    assume run: "run_ok S ok covers A spec (Suc k) b" and un: "uncrossed (abs_of S A b)" and ord: "streamable spec ord"
      and submit: "spec_submit (abs_of S A b) ord = (Inr report, abs_of S A b')" and run': "run_ok S ok covers A spec k b'"
    note b = run_okD [OF run]
    have "uncrossed (snd (spec_submit (abs_of S A b) ord))"
      using spec_submit_facts(2) [OF b(5) _ _ b(6) un, of ord] b(2,4) ord by (simp add: room_def streamable_def)
    then have "uncrossed (abs_of S A b')" by (simp add: submit)
    moreover from this have "never_crossed_body S b ord report b' st = Some ()"
      by (auto simp: never_crossed_body_def best_prices [OF run_okD(1) [OF run']] uncrossed_def split: list.splits)
    ultimately show "\<exists>st'. never_crossed_body S b ord report b' st = Some st' \<and> uncrossed (abs_of S A b')" by simp
  qed (simp_all add: assms(5))
  with assms(1,3) show ?thesis by (auto simp: check_never_crossed_def)
qed

lemma stop_discipline_passes:
  assumes "prop_spec D = Some spec" and "spec_ok spec" and "new_book S A spec mtch = Some b"
    and "matching_algorithm mtch (lot_size spec)" and "\<forall>ord\<in>set stream. streamable spec ord" and "length stream + 1 < 2 ^ 32"
  shows "check_stop_discipline D S A mtch stream = Some ()"
proof -
  have "run_ok S ok covers A spec (length stream + 0) b" using new_book_run_ok(1) [OF assms(3,2,4,6)] by simp
  then have "\<exists>b' st'. over_stream S A stop_discipline_body stream b () = Some (b', st') \<and> run_ok S ok covers A spec 0 b' \<and> True"
  proof (intro over_stream_passes [where J = "\<lambda>b st. True" and n = 0])
    fix k b ord report b' and st :: unit
    assume run': "run_ok S ok covers A spec k b'" and settled: "spec_pop (abs_of S A b') = None"
    obtain K where K: "book_rel S ok covers A b' K" using run_okD(1) [OF run'] by (auto simp: book_ok_def)
    note stops = stops_relD [OF book_relD(7) [OF K]]
    have due: "stop_due (abs_of S A b') sd = None" for sd
      using settled by (cases sd) (auto simp: spec_pop_def split: option.splits)
    have "\<not> already_triggered (last_trade_price b') sd (fst l)" if "l \<in> set (stops_of b' sd)" for l sd
      using no_stop_due [of "abs_of S A b'" sd "fst l" "snd l"] stops due that by auto
    from this [of _ Bid] this [of _ Ask] have "stop_discipline_body b ord report b' st = Some ()"
      by (force simp: stop_discipline_body_def already_triggered_def stops_of_def assert_that_def not_le split: option.splits)
    then show "\<exists>st'. stop_discipline_body b ord report b' st = Some st' \<and> True" by simp
  qed (simp_all add: assms(5))
  with assms(1,3) show ?thesis by (auto simp: check_stop_discipline_def)
qed

section \<open>Rejections\<close>

lemma submit_all_passes:
  "run_ok S ok covers A spec (length ords + n) b \<Longrightarrow> \<forall>ord\<in>set ords. on_lattice spec ord \<Longrightarrow>
     \<exists>b'. submit_all S A ords b = Some b' \<and> run_ok S ok covers A spec n b'"
proof (induction ords arbitrary: b)
  case (Cons ord ords)
  from perform_run_ok [of spec "length ords + n" b "Submit ord"] Cons.prems obtain b' where
    b': "submit S A b ord = Some (fst (spec_submit (abs_of S A b) ord), b')" "run_ok S ok covers A spec (length ords + n) b'"
    by auto
  with Cons.IH [OF b'(2)] Cons.prems(2) show ?case by simp
qed simp

lemma reject_is_a_no_op:
  assumes "prop_spec D = Some spec0" and "prop_bounded_spec D = Some spec" and "new_book S A spec mtch = Some b"
    and "matching_algorithm mtch 1" and "\<forall>ord\<in>set stream. streamable spec0 ord" and "length stream + 1 < 2 ^ 32"
    and "too_small < 5" and "arb_limit_price D n = Some p" and "380 \<le> n" and "n \<le> 420"
  shows "check_reject_is_a_no_op D S A mtch stream too_small sd p = Some ()"
proof -
  have spec0: "spec0 = \<lparr>price_scale = 2, qty_scale = 0, tick_size = 25, lot_size = 1, min_price = Price 9500,
     max_price = Some (Price 10500), min_qty = Qty 1, max_qty = None, min_notional = None\<rparr>"
    using assms(1) prop_spec_on_value [of 1 D] by (simp add: prop_specs)
  have spec: "spec = spec0\<lparr>min_qty := Qty 5, max_qty := Some (Qty 1000)\<rparr>"
    using assms(1,2) by (simp add: prop_bounded_spec_def prop_qty_value with_qty_range_def spec0 one_unit(1) zero_qty_def)
  have ok: "spec_ok spec" "lot_size spec = 1" by (simp_all add: spec spec0 spec_ok_def is_multiple_of_unat)
  have "run_ok S ok covers A spec (length stream + 0) b"
    using new_book_run_ok(1) [OF assms(3) ok(1) _ assms(6)] assms(4) ok(2) by simp
  moreover have "\<forall>ord\<in>set stream. on_lattice spec ord"
  proof -
    have "lot_size spec = lot_size spec0" "tick_size spec = tick_size spec0" by (simp_all add: spec)
    with assms(5) show ?thesis by (auto simp: streamable_def on_lattice_def tradable_def split: option.splits)
  qed
  ultimately obtain b1 where b1: "submit_all S A stream b = Some b1" "run_ok S ok covers A spec 0 b1"
    using submit_all_passes by blast
  then obtain K where K: "book_rel S ok covers A b1 K" by (auto simp: run_ok_def book_ok_def)
  have p: "p = Price (n * 25)" "9500 \<le> n * 25" "n * 25 \<le> 10500"
    using assms(8) drawn_price(1) [OF assms(9,10), of D] drawn_price(2,3) [OF assms(9,10)] by simp_all
  obtain bad where bad: "build (with_exchange_id (with_client_id (with_quantity (with_order_type (with_side (builder 0) sd)
       (limit_gtc p)) (Qty too_small)) ''rejected'') ''rejected'') = Some bad"
    "otype bad = limit_gtc p" "original_quantity bad = Qty too_small"
    by (simp add: build_def builder_def with_exchange_id_def with_client_id_def with_quantity_def
        with_order_type_def with_side_def)
  have "\<exists>reason. admit_under spec bad = Inl (Rejected reason)"
    using p assms(7) bad by (auto simp: admit_under_def admits_price_def admits_qty_def spec spec0 limit_gtc_def not_less)
  then obtain reason where "admit b1 bad = Inl (Rejected reason)" using run_okD(2) [OF b1(2)] by (auto simp: admit_def)
  then have "submit S A b1 bad = Some (Inl (Rejected reason), b1)" by (simp add: submit_def)
  with assms(2,3) b1(1) resting_snapshot_reads [OF K] total_depth_reads [OF K] bad(1) show ?thesis
    by (simp add: check_reject_is_a_no_op_def prop_qty_value)
qed

end

end
