(* ===== verification/Property_Audit.thy ===== *)
theory Property_Audit
  imports Property_Tests
begin

text \<open>
  Two of the property-based tests of \<^verbatim>\<open>src/tests/properties.rs\<close> that look at a whole book: the
  index against the levels and the stop books, and the storage backends against each other.
\<close>

section \<open>Index consistency\<close>

definition audit_level ::
    "('m, 'k) arena_ops \<Rightarrow> ('s, 'm, 'k) order_book \<Rightarrow> side \<Rightarrow> ('m, 'k) level_view \<Rightarrow> nat option" where
  "audit_level A b sd v = do {
     assert_that (\<not> view_is_empty v);
     assert_that (view_side v = sd);
     os \<leftarrow> view_orders A v;
     assert_that (\<forall>ord\<in>set os. remaining_quantity ord \<noteq> 0 \<and> limit_price (otype ord) = Some (view_price v) \<and>
       order_location_of b (order_id ord) = Some (In_Book sd (view_price v)));
     Some (length os)
   }"

definition audit_stop_queue ::
    "('s, 'm, 'k) order_book \<Rightarrow> side \<Rightarrow> price \<times> order list \<Rightarrow> nat option" where
  "audit_stop_queue b sd l = (case l of (trigger, q) \<Rightarrow> do {
     assert_that (q \<noteq> []);
     assert_that (\<forall>ord\<in>set q. order_side ord = sd \<and> remaining_quantity ord \<noteq> 0 \<and> is_stop ord \<and>
       order_location_of b (order_id ord) = Some (In_Stop_Book sd trigger));
     Some (length q)
   })"

fun cancel_all ::
    "('s, 'k) store_ops \<Rightarrow> ('m, 'k) arena_ops \<Rightarrow> exchange_id list \<Rightarrow> ('s, 'm, 'k) order_book \<Rightarrow>
       ('s, 'm, 'k) order_book option" where
  "cancel_all S A [] b = Some b"
| "cancel_all S A (i # js) b = do { (r, b) \<leftarrow> cancel_order S A b i; unwrap r; cancel_all S A js b }"

text \<open>
  Invariant 6: levels, stop queues and index describe the same orders, no level or queue is empty, and
  cancelling every listed identifier empties everything.
\<close>

definition check_index_consistency ::
    "'d decimal_ops \<Rightarrow> ('s, 'k) store_ops \<Rightarrow> ('m, 'k) arena_ops \<Rightarrow> matcher \<Rightarrow> order list \<Rightarrow> unit option" where
  "check_index_consistency D S A mtch stream = do {
     spec \<leftarrow> prop_spec D;
     b \<leftarrow> new_book S A spec mtch;
     (b, _) \<leftarrow> over_stream S A (\<lambda>_ _ _ _. Some) stream b ();
     asks \<leftarrow> those (map (audit_level A b Ask) (book_levels S b Ask));
     bids \<leftarrow> those (map (audit_level A b Bid) (book_levels S b Bid));
     buys \<leftarrow> those (map (audit_stop_queue b Bid) (stop_bids b));
     sells \<leftarrow> those (map (audit_stop_queue b Ask) (stop_asks b));
     assert_that (sum_list asks + sum_list bids + sum_list buys + sum_list sells = order_count b);
     b \<leftarrow> cancel_all S A (order_ids b) b;
     assert_that (book_levels S b Bid = []);
     assert_that (book_levels S b Ask = []);
     assert_that (stop_bids b = []);
     assert_that (stop_asks b = []);
     assert_that (order_count b = 0)
   }"

context book_engine begin

lemma cancel_all_passes:
  "book_ok S ok covers A b \<Longrightarrow> distinct js \<Longrightarrow> (\<And>i. is_live (abs_of S A b) i \<longleftrightarrow> i \<in> set js) \<Longrightarrow>
    \<exists>b'. cancel_all S A js b = Some b' \<and> book_ok S ok covers A b' \<and> ab_orders (abs_of S A b') = []"
proof (induction js arbitrary: b)
  case Nil
  then have "order_id ` set (ab_orders (abs_of S A b)) = {}" unfolding is_live_def empty_set by blast
  with Nil(1) show ?case by simp
next
  case (Cons i js)
  from cancel_order_refines [OF Cons.prems(1), of i] obtain b' where
    b': "cancel_order S A b i = Some (fst (spec_cancel (abs_of S A b) i), b')" "book_ok S ok covers A b'"
      "abs_of S A b' = snd (spec_cancel (abs_of S A b) i)" by blast
  have "is_live (abs_of S A b) i" using Cons.prems(3) by simp
  then have "fst (spec_cancel (abs_of S A b) i) = Inr ()" by (simp add: spec_cancel_def)
  moreover have "is_live (abs_of S A b') j \<longleftrightarrow> j \<in> set js" for j
    using Cons.prems(2) Cons.prems(3) [of j] unfolding b'(3) is_live_def ab_orders_cancel by auto
  ultimately show ?case using Cons.IH [OF b'(2)] Cons.prems(2) b'(1) by simp
qed

lemma audit_level_passes:
  assumes "book_rel S ok covers A b K" and "l \<in> set (levels_of S (ob_store b) sd)"
  shows "audit_level A b sd (view_new l (ob_nodes b)) = Some (length (the (queue_iter A (bl_queue l) (ob_nodes b))))"
proof -
  note row = level_rows [OF assms]
  obtain os where os: "queue_iter A (bl_queue l) (ob_nodes b) = Some os" using row(4) by (simp add: queue_iter_def)
  have mem: "(bl_price l, os) \<in> set (ladder_of S A b sd)" using assms(2) os by (force simp: ladder_of_def)
  have "remaining_quantity ord \<noteq> 0 \<and> limit_price (otype ord) = Some (bl_price l) \<and>
      order_location_of b (order_id ord) = Some (In_Book sd (bl_price l))" if "ord \<in> set os" for ord
    using level_priority(3) [OF assms(1) mem] location_in_book [OF assms(1)] mem that by (simp add: tradable_def) blast
  then show ?thesis using row(1,2)
    by (simp add: audit_level_def view_new_def view_is_empty_def view_orders_def os)
qed

lemma audit_stop_queue_passes:
  assumes "book_rel S ok covers A b K" and "l \<in> set (stops_of b sd)"
  shows "audit_stop_queue b sd l = Some (length (snd l))"
proof -
  obtain t q where l: "l = (t, q)" by (cases l)
  note stops = stops_relD [OF book_relD(7) [OF assms(1)]]
  have "order_side ord = sd \<and> remaining_quantity ord \<noteq> 0 \<and> is_stop ord" if "ord \<in> set q" for ord
    using stops(5) [of t q sd ord] assms(2) that
    by (cases "otype ord") (auto simp: l parked_def on_lattice_def tradable_def is_stop_def)
  moreover have "order_location_of b (order_id ord) = Some (In_Stop_Book sd t)" if "ord \<in> set q" for ord
    using location_in_stops [OF assms(1)] assms(2) that by (auto simp: l)
  moreover have "q \<noteq> []" using stops(3) assms(2) by (auto simp: l)
  ultimately show ?thesis by (simp add: l audit_stop_queue_def)
qed

lemma ladder_orders_length: "length (ladder_orders L) = sum_list (map (length \<circ> snd) L)"
  by (simp add: ladder_orders_def length_concat comp_def)

lemma empty_books:
  assumes "book_rel S ok covers A b K" and "ab_orders (abs_of S A b) = []"
  shows "book_levels S b sd = []" and "stops_of b sd = []"
proof -
  have none: "ladder_orders (ladder_of S A b sd) = []" "ladder_orders (stops_of b sd) = []"
    using assms(2) by (cases sd; simp add: ab_orders_def)+
  have "ladder_of S A b sd = []"
  proof (rule ccontr)
    assume "ladder_of S A b sd \<noteq> []"
    then obtain p os L where "ladder_of S A b sd = (p, os) # L" by (cases "ladder_of S A b sd") auto
    with none(1) level_priority(1) [OF assms(1), of p os sd] show False by simp
  qed
  then show "book_levels S b sd = []" by (simp add: ladder_of_def book_levels_def)
  show "stops_of b sd = []"
  proof (rule ccontr)
    assume "stops_of b sd \<noteq> []"
    then obtain t q L where "stops_of b sd = (t, q) # L" by (cases "stops_of b sd") auto
    with none(2) stops_relD(3) [OF book_relD(7) [OF assms(1)], of t q sd] show False by simp
  qed
qed

lemma index_consistency_passes:
  assumes "prop_spec D = Some spec" and "spec_ok spec" and "new_book S A spec mtch = Some b0"
    and "matching_algorithm mtch (lot_size spec)" and "\<forall>ord\<in>set stream. streamable spec ord" and "length stream + 1 < 2 ^ 32"
  shows "check_index_consistency D S A mtch stream = Some ()"
proof -
  have "run_ok S ok covers A spec (length stream + 0) b0" using new_book_run_ok(1) [OF assms(3,2,4,6)] by simp
  then have "\<exists>b' st'. over_stream S A (\<lambda>_ _ _ _. Some) stream b0 () = Some (b', st') \<and> run_ok S ok covers A spec 0 b' \<and> True"
    by (intro over_stream_passes [where J = "\<lambda>b st. True" and n = 0]) (simp_all add: assms(5))
  then obtain b where b: "over_stream S A (\<lambda>_ _ _ _. Some) stream b0 () = Some (b, ())" "run_ok S ok covers A spec 0 b"
    by auto
  then obtain K where ok: "book_ok S ok covers A b" and K: "book_rel S ok covers A b K"
    by (auto simp: run_ok_def book_ok_def)
  have levels: "those (map (audit_level A b sd) (book_levels S b sd)) = Some (map (length \<circ> snd) (ladder_of S A b sd))" for sd
  proof -
    have "those (map (\<lambda>l. audit_level A b sd (view_new l (ob_nodes b))) (levels_of S (ob_store b) sd)) =
        Some (map (\<lambda>l. length (the (queue_iter A (bl_queue l) (ob_nodes b)))) (levels_of S (ob_store b) sd))"
      by (rule those_Some) (rule audit_level_passes [OF K])
    then show ?thesis by (simp add: book_levels_def ladder_of_def comp_def)
  qed
  have queues: "those (map (audit_stop_queue b sd) (stops_of b sd)) = Some (map (length \<circ> snd) (stops_of b sd))" for sd
    using those_Some [of "stops_of b sd" "audit_stop_queue b sd" "length \<circ> snd"] audit_stop_queue_passes [OF K] by simp
  have "order_count b = sum_list (map (length \<circ> snd) (ladder_of S A b Ask)) + sum_list (map (length \<circ> snd) (ladder_of S A b Bid)) +
      sum_list (map (length \<circ> snd) (stops_of b Bid)) + sum_list (map (length \<circ> snd) (stops_of b Ask))"
    unfolding order_count_eq [OF K] by (simp add: ab_orders_def ladder_orders_length)
  note count = this
  have "hm_ok (ob_index b)" using book_relD(8) [OF K] by (simp add: index_rel_def)
  then have "distinct (order_ids b)" by (simp add: order_ids_def hm_ok_def hm_keys_def)
  moreover have "is_live (abs_of S A b) i \<longleftrightarrow> i \<in> set (order_ids b)" for i
    unfolding is_live_iff [OF K] by (auto simp: order_ids_def hm_keys_set)
  ultimately obtain b' where b': "cancel_all S A (order_ids b) b = Some b'" "book_ok S ok covers A b'"
    "ab_orders (abs_of S A b') = []" using cancel_all_passes [OF ok] by blast
  then obtain K' where K': "book_rel S ok covers A b' K'" by (auto simp: book_ok_def)
  from empty_books [OF K' b'(3)] empty_books(2) [OF K' b'(3), of Bid] empty_books(2) [OF K' b'(3), of Ask]
    order_count_eq [OF K'] b'(3)
  have "book_levels S b' Bid = []" "book_levels S b' Ask = []" "stop_bids b' = []" "stop_asks b' = []" "order_count b' = 0"
    by (simp_all add: stops_of_def)
  with assms(1,3) b(1) levels queues [of Bid] queues [of Ask] count b'(1) show ?thesis
    by (simp add: check_index_consistency_def stops_of_def)
qed

end

section \<open>The storage axis\<close>

definition same_book_state ::
    "('s, 'k) store_ops \<Rightarrow> ('t, 'k) store_ops \<Rightarrow> ('m, 'k) arena_ops \<Rightarrow> ('s, 'm, 'k) order_book \<Rightarrow>
       ('t, 'm, 'k) order_book \<Rightarrow> unit option" where
  "same_book_state S T A b tree = do {
     x \<leftarrow> resting_snapshot S A b; y \<leftarrow> resting_snapshot T A tree; assert_that (x = y);
     x \<leftarrow> level_depths S A b; y \<leftarrow> level_depths T A tree; assert_that (x = y);
     x \<leftarrow> best_bid S b; y \<leftarrow> best_bid T tree; assert_that (x = y);
     x \<leftarrow> best_ask S b; y \<leftarrow> best_ask T tree; assert_that (x = y);
     assert_that (last_trade_price b = last_trade_price tree);
     x \<leftarrow> locations b; y \<leftarrow> locations tree; assert_that (x = y);
     assert_that (stop_bids b = stop_bids tree);
     assert_that (stop_asks b = stop_asks tree);
     assert_that (next_seq b = next_seq tree);
     assert_that (next_arrival b = next_arrival tree)
   }"

fun storage_loop ::
    "('t, 'k) store_ops \<Rightarrow> ('l, 'k) store_ops \<Rightarrow> ('h, 'k) store_ops \<Rightarrow> ('m, 'k) arena_ops \<Rightarrow> order list \<Rightarrow>
       ('t, 'm, 'k) order_book \<Rightarrow> ('l, 'm, 'k) order_book \<Rightarrow> ('h, 'm, 'k) order_book \<Rightarrow> unit option" where
  "storage_loop T L H A [] tree ladder hash = Some ()"
| "storage_loop T L H A (ord # ords) tree ladder hash = do {
     (r, tree) \<leftarrow> submit T A tree ord;
     tree_report \<leftarrow> unwrap r;
     (r, ladder) \<leftarrow> submit L A ladder ord;
     ladder_report \<leftarrow> unwrap r;
     (r, hash) \<leftarrow> submit H A hash ord;
     hash_report \<leftarrow> unwrap r;
     assert_that (ladder_report = tree_report);
     assert_that (hash_report = tree_report);
     same_book_state L T A ladder tree;
     same_book_state H T A hash tree;
     storage_loop T L H A ords tree ladder hash
   }"

definition check_storage_agreement ::
    "'d decimal_ops \<Rightarrow> ('t, 'k) store_ops \<Rightarrow> ('l, 'k) store_ops \<Rightarrow> ('h, 'k) store_ops \<Rightarrow> ('m, 'k) arena_ops \<Rightarrow>
       matcher \<Rightarrow> order list \<Rightarrow> unit option" where
  "check_storage_agreement D T L H A mtch stream = do {
     spec \<leftarrow> prop_spec D;
     tree \<leftarrow> new_book T A spec mtch;
     ladder \<leftarrow> new_book L A spec mtch;
     hash \<leftarrow> new_book H A spec mtch;
     storage_loop T L H A stream tree ladder hash
   }"

text \<open>Two books that show the same abstract book cannot be told apart.\<close>

lemma locations_agree:
  assumes "book_engine S ok covers A" and "book_engine T ok' covers' A"
    and "book_rel S ok covers A b K" and "book_rel T ok' covers' A c K'" and "abs_of S A b = abs_of T A c"
  shows "order_location_of b = order_location_of c"
proof
  fix i
  have ladder: "ladder_of S A b sd = ladder_of T A c sd" for sd using assms(5) by (metis abs_of_simps(1))
  have stops: "stops_of b sd = stops_of c sd" for sd using assms(5) by (metis abs_of_simps(2))
  have "order_location_of b i = Some x \<longleftrightarrow> order_location_of c i = Some x" for x
    using book_engine.location_in_book [OF assms(1,3), of i] book_engine.location_in_book [OF assms(2,4), of i]
      book_engine.location_in_stops [OF assms(1,3), of i] book_engine.location_in_stops [OF assms(2,4), of i]
    by (cases x) (simp_all add: ladder stops)
  then show "order_location_of b i = order_location_of c i" by (metis not_None_eq)
qed

lemma same_book_state_passes:
  assumes "book_engine S ok covers A" and "book_engine T ok' covers' A"
    and "book_ok S ok covers A b" and "book_ok T ok' covers' A c" and "abs_of S A b = abs_of T A c"
  shows "same_book_state S T A b c = Some ()"
proof -
  obtain K where K: "book_rel S ok covers A b K" using assms(3) by (auto simp: book_ok_def)
  obtain K' where K': "book_rel T ok' covers' A c K'" using assms(4) by (auto simp: book_ok_def)
  have "stops_of b sd = stops_of c sd" for sd using assms(5) by (metis abs_of_simps(2))
  from this [of Bid] this [of Ask] have "stop_bids b = stop_bids c" "stop_asks b = stop_asks c" by (simp_all add: stops_of_def)
  moreover have "last_trade_price b = last_trade_price c" "next_seq b = next_seq c" "next_arrival b = next_arrival c"
    using assms(5) by (metis abs_of_simps(3), metis abs_of_simps(4), metis abs_of_simps(5))
  ultimately show ?thesis
    using book_engine.resting_snapshot_reads [OF assms(1) K] book_engine.resting_snapshot_reads [OF assms(2) K']
      book_engine.level_depths_reads [OF assms(1) K] book_engine.level_depths_reads [OF assms(2) K']
      book_engine.locations_reads [OF assms(1) K] book_engine.locations_reads [OF assms(2) K']
      book_engine.best_prices [OF assms(1,3)] book_engine.best_prices [OF assms(2,4)]
      locations_agree [OF assms(1,2) K K' assms(5)] assms(5)
    by (simp add: same_book_state_def)
qed

lemma storage_loop_passes:
  assumes T: "book_engine T okt cot A" and L: "book_engine L okl col A" and H: "book_engine H okh coh A"
  shows "run_ok T okt cot A spec (length ords) t \<Longrightarrow> run_ok L okl col A spec (length ords) l \<Longrightarrow>
    run_ok H okh coh A spec (length ords) h \<Longrightarrow> abs_of L A l = abs_of T A t \<Longrightarrow> abs_of H A h = abs_of T A t \<Longrightarrow>
    \<forall>ord\<in>set ords. streamable spec ord \<Longrightarrow> storage_loop T L H A ords t l h = Some ()"
proof (induction ords arbitrary: t l h)
  case (Cons ord ords)
  have ord: "streamable spec ord" using Cons.prems(6) by simp
  have runs: "run_ok T okt cot A spec (Suc (length ords)) t" "run_ok L okl col A spec (Suc (length ords)) l"
    "run_ok H okh coh A spec (Suc (length ords)) h" using Cons.prems(1-3) by simp_all
  obtain report t' where t': "submit T A t ord = Some (Inr report, t')"
    "spec_submit (abs_of T A t) ord = (Inr report, abs_of T A t')" "run_ok T okt cot A spec (length ords) t'"
    by (rule book_engine.run_submit [OF T runs(1) ord])
  obtain rl l' where l': "submit L A l ord = Some (Inr rl, l')"
    "spec_submit (abs_of L A l) ord = (Inr rl, abs_of L A l')" "run_ok L okl col A spec (length ords) l'"
    by (rule book_engine.run_submit [OF L runs(2) ord])
  obtain rh h' where h': "submit H A h ord = Some (Inr rh, h')"
    "spec_submit (abs_of H A h) ord = (Inr rh, abs_of H A h')" "run_ok H okh coh A spec (length ords) h'"
    by (rule book_engine.run_submit [OF H runs(3) ord])
  have same: "rl = report" "rh = report" "abs_of L A l' = abs_of T A t'" "abs_of H A h' = abs_of T A t'"
    using t'(2) l'(2) h'(2) Cons.prems(4,5) by simp_all
  have ok: "book_ok T okt cot A t'" "book_ok L okl col A l'" "book_ok H okh coh A h'"
    using t'(3) l'(3) h'(3) by (simp_all add: run_ok_def)
  from same_book_state_passes [OF L T ok(2,1) same(3)] same_book_state_passes [OF H T ok(3,1) same(4)]
    Cons.IH [OF t'(3) l'(3) h'(3) same(3,4)] Cons.prems(6) t'(1) l'(1) h'(1) same(1,2)
  show ?case by simp
qed simp

end
