(* ===== verification/Property_Agreement.thy ===== *)
theory Property_Agreement
  imports Property_Audit
begin

text \<open>
  The property-based test of \<^verbatim>\<open>src/tests/properties.rs\<close> that sets the policies against each other:
  books under different policies, fed the same stream of orders of distinct clients, agree on
  everything but who fills.
\<close>

section \<open>The test\<close>

definition same_public_state ::
    "('s, 'k) store_ops \<Rightarrow> ('m, 'k) arena_ops \<Rightarrow> ('s, 'm, 'k) order_book \<Rightarrow> ('s, 'm, 'k) order_book \<Rightarrow> unit option" where
  "same_public_state S A other ref = do {
     x \<leftarrow> total_depth S A other; y \<leftarrow> total_depth S A ref; assert_that (x = y);
     x \<leftarrow> best_bid S other; y \<leftarrow> best_bid S ref; assert_that (x = y);
     x \<leftarrow> best_ask S other; y \<leftarrow> best_ask S ref; assert_that (x = y);
     assert_that (last_trade_price other = last_trade_price ref);
     x \<leftarrow> level_depths S A other; y \<leftarrow> level_depths S A ref; assert_that (x = y)
   }"

definition nothing_cancelled :: "execution_report \<Rightarrow> unit option" where
  "nothing_cancelled report = assert_that (\<forall>r\<in>set (all_reports report). report_cancelled r = [])"

definition same_totals :: "execution_report \<Rightarrow> execution_report \<Rightarrow> unit option" where
  "same_totals report ref = do {
     assert_that (report_outcome report = report_outcome ref);
     assert_that (cascade_filled report = cascade_filled ref);
     assert_that (length (report_triggered report) = length (report_triggered ref))
   }"

fun agreement_loop ::
    "('s, 'k) store_ops \<Rightarrow> ('m, 'k) arena_ops \<Rightarrow> order list \<Rightarrow> ('s, 'm, 'k) order_book \<Rightarrow>
       ('s, 'm, 'k) order_book \<Rightarrow> ('s, 'm, 'k) order_book \<Rightarrow> unit option" where
  "agreement_loop S A [] fifo pro timed = Some ()"
| "agreement_loop S A (ord # ords) fifo pro timed = do {
     (r, fifo) \<leftarrow> submit S A fifo ord;
     ref \<leftarrow> unwrap r;
     (r, pro) \<leftarrow> submit S A pro ord;
     pro_report \<leftarrow> unwrap r;
     (r, timed) \<leftarrow> submit S A timed ord;
     timed_report \<leftarrow> unwrap r;
     nothing_cancelled ref;
     nothing_cancelled pro_report;
     nothing_cancelled timed_report;
     same_totals pro_report ref;
     same_totals timed_report ref;
     same_public_state S A pro fifo;
     same_public_state S A timed fifo;
     agreement_loop S A ords fifo pro timed
   }"

definition every_matcher_agrees_on_the_totals ::
    "'d decimal_ops \<Rightarrow> ('s, 'k) store_ops \<Rightarrow> ('m, 'k) arena_ops \<Rightarrow> draw list \<Rightarrow> unit option" where
  "every_matcher_agrees_on_the_totals D S A drawn = do {
     stream \<leftarrow> arb_stream_unique_clients D drawn;
     spec \<leftarrow> prop_spec D;
     fifo \<leftarrow> book_new S A spec fifo_matcher;
     m \<leftarrow> pro_rata_new (lot_size spec);
     pro \<leftarrow> book_new S A spec m;
     t \<leftarrow> time_pro_rata_new (lot_size spec);
     timed \<leftarrow> book_new S A spec (time_pro_rata_matcher t);
     agreement_loop S A stream fifo pro timed
   }"

section \<open>Totals\<close>

lemma qty_sum_units: "qty_sum qs = Qty (of_nat (sum_list (map units qs)))"
proof -
  have "fold (\<lambda>q acc. acc + q) qs a = Qty (base a + of_nat (sum_list (map units qs)))" for a
    by (induction qs arbitrary: a) (simp_all add: qty_plus add.assoc)
  from this [of 0] show ?thesis by (simp add: qty_sum_def)
qed

lemma qty_sum_orders: "qty_sum (map remaining_quantity os) = Qty (of_nat (order_units os))"
  by (simp add: qty_sum_units order_units_def comp_def)

lemma traded_units_at:
  assumes "finite P" and "trade_price ` set ts \<subseteq> P"
  shows "traded_units ts = (\<Sum>p\<in>P. traded_at ts p)"
  using assms(2)
proof (induction ts)
  case (Cons t ts)
  have "traded_at (t # ts) p = (if trade_price t = p then units (trade_quantity t) else 0) + traded_at ts p" for p
    by (simp add: traded_at_def)
  with Cons assms(1) show ?case by (simp add: sum.distrib)
qed simp

lemma traded_units_alike: "traded_at ts' = traded_at ts \<Longrightarrow> traded_units ts' = traded_units ts"
  using traded_units_at [of "trade_price ` set (ts @ ts')" ts] traded_units_at [of "trade_price ` set (ts @ ts')" ts']
  by (auto simp: image_Un)

lemma traded_units_concat: "traded_units (concat tss) = sum_list (map traded_units tss)"
  by (induction tss) simp_all

lemma cascade_filled_units:
  "cascade_filled report = Qty (of_nat (sum_list (map (\<lambda>r. traded_units (report_trades r)) (all_reports report))))"
  by (simp add: cascade_filled_def qty_sum_units traded_units_def [symmetric] traded_units_concat comp_def
      flip: map_concat)

lemma runs_alike_units:
  assumes "runs_alike r r'"
  shows "traded_units (report_trades r') = traded_units (report_trades r)"
  using assms by (intro traded_units_alike) (simp add: runs_alike_def trades_alike_def)

lemma same_totals_passes:
  assumes "reports_alike r r'"
  shows "same_totals r' r = Some ()" and "nothing_cancelled r = Some ()" and "nothing_cancelled r' = Some ()"
proof -
  have all: "list_all2 runs_alike (all_reports r) (all_reports r')"
    using assms by (simp add: reports_alike_def all_reports_def)
  have "list_all2 (\<lambda>x y. traded_units (report_trades y) = traded_units (report_trades x)) (all_reports r) (all_reports r')"
    using all by (rule list_all2_mono) (blast dest: runs_alike_units)
  then have "map (\<lambda>r. traded_units (report_trades r)) (all_reports r') = map (\<lambda>r. traded_units (report_trades r)) (all_reports r)"
    by (induction rule: list_all2_induct) simp_all
  then show "same_totals r' r = Some ()"
    using assms list_all2_lengthD by (fastforce simp: same_totals_def cascade_filled_units reports_alike_def runs_alike_def)
  show "nothing_cancelled r = Some ()" "nothing_cancelled r' = Some ()"
    using all by (fastforce simp: nothing_cancelled_def list_all2_conv_all_nth runs_alike_def in_set_conv_nth)+
qed

text \<open>What the queries read of two alike books is the same.\<close>

lemma level_totals_append: "level_totals (L @ L') = level_totals L @ level_totals L'"
  by (simp add: level_totals_def)

lemma both_sides_alike: "alike ab ab' \<Longrightarrow> level_totals (both_sides ab') = level_totals (both_sides ab)"
  by (simp add: both_sides_def level_totals_append alikeD(1) [of ab ab'])

lemma same_public_state_passes:
  assumes E: "book_engine S ok covers A" and "book_ok S ok covers A b" and "book_ok S ok covers A c"
    and alike: "alike (abs_of S A c) (abs_of S A b)"
  shows "same_public_state S A b c = Some ()"
proof -
  obtain K where K: "book_rel S ok covers A b K" using assms(2) by (auto simp: book_ok_def)
  obtain K' where K': "book_rel S ok covers A c K'" using assms(3) by (auto simp: book_ok_def)
  have rows: "map (\<lambda>(p, os). (p, qty_sum (map remaining_quantity os))) L = map (\<lambda>(p, n). (p, Qty (of_nat n))) (level_totals L)"
    and totals: "map (\<lambda>(p, os). qty_sum (map remaining_quantity os)) L = map (\<lambda>(p, n). Qty (of_nat n)) (level_totals L)"
    and first: "map_option fst (case L of [] \<Rightarrow> None | l # _ \<Rightarrow> Some l) = map_option fst (case level_totals L of [] \<Rightarrow> None | l # _ \<Rightarrow> Some l)"
    for L by (auto simp: level_totals_def qty_sum_orders split_beta split: list.split)
  show ?thesis
    using book_engine.total_depth_reads [OF E K] book_engine.total_depth_reads [OF E K']
      book_engine.level_depths_reads [OF E K] book_engine.level_depths_reads [OF E K']
      book_engine.best_prices [OF E assms(2)] book_engine.best_prices [OF E assms(3)] both_sides_alike [OF alike]
      alikeD(1,3) [OF alike]
    unfolding rows totals first by (simp add: same_public_state_def)
qed

section \<open>The streams\<close>

lemma agreement_loop_passes:
  assumes E: "book_engine S ok covers A"
  shows "run_ok S ok covers A spec (length ords) f \<Longrightarrow> run_ok S ok covers A spec (length ords) p \<Longrightarrow>
    run_ok S ok covers A spec (length ords) t \<Longrightarrow> alike (abs_of S A f) (abs_of S A p) \<Longrightarrow> alike (abs_of S A f) (abs_of S A t) \<Longrightarrow>
    tidy (abs_of S A f) C n \<Longrightarrow> tidy (abs_of S A p) C n \<Longrightarrow> tidy (abs_of S A t) C n \<Longrightarrow>
    \<forall>ord\<in>set ords. streamable spec ord \<Longrightarrow> distinct (map client ords) \<Longrightarrow> client ` set ords \<inter> C = {} \<Longrightarrow>
    n + order_units ords < 2 ^ 64 \<Longrightarrow> agreement_loop S A ords f p t = Some ()"
proof (induction ords arbitrary: f p t C n)
  case (Cons ord ords)
  have ord: "streamable spec ord" "client ord \<notin> C" "n + units (remaining_quantity ord) < 2 ^ 64"
    using Cons.prems(9,11,12) by auto
  have runs: "run_ok S ok covers A spec (Suc (length ords)) f" "run_ok S ok covers A spec (Suc (length ords)) p"
    "run_ok S ok covers A spec (Suc (length ords)) t" using Cons.prems(1-3) by simp_all
  obtain r f' where f': "submit S A f ord = Some (Inr r, f')"
    "spec_submit (abs_of S A f) ord = (Inr r, abs_of S A f')" "run_ok S ok covers A spec (length ords) f'"
    by (rule book_engine.run_submit [OF E runs(1) ord(1)])
  obtain rp p' where p': "submit S A p ord = Some (Inr rp, p')"
    "spec_submit (abs_of S A p) ord = (Inr rp, abs_of S A p')" "run_ok S ok covers A spec (length ords) p'"
    by (rule book_engine.run_submit [OF E runs(2) ord(1)])
  obtain rt t' where t': "submit S A t ord = Some (Inr rt, t')"
    "spec_submit (abs_of S A t) ord = (Inr rt, abs_of S A t')" "run_ok S ok covers A spec (length ords) t'"
    by (rule book_engine.run_submit [OF E runs(3) ord(1)])
  have streaming: "streaming S ok covers A C n (Suc (length ords)) (abs_of S A f)"
    "streaming S ok covers A C n (Suc (length ords)) (abs_of S A p)"
    "streaming S ok covers A C n (Suc (length ords)) (abs_of S A t)"
    using book_engine.run_okD [OF E runs(1)] book_engine.run_okD [OF E runs(2)] book_engine.run_okD [OF E runs(3)]
      Cons.prems(6-8) by (simp_all add: streaming_def)
  have lattice: "on_lattice (ab_spec (abs_of S A f)) ord"
    using ord(1) book_engine.run_okD(2) [OF E runs(1)] by (simp add: streamable_def)
  note pro = submit_alike [OF E E streaming(1,2) Cons.prems(4) lattice ord(2,3)]
    and timed = submit_alike [OF E E streaming(1,3) Cons.prems(5) lattice ord(2,3)]
  let ?C = "insert (client ord) C" and ?n = "n + units (remaining_quantity ord)"
  have alike: "alike (abs_of S A f') (abs_of S A p')" "alike (abs_of S A f') (abs_of S A t')"
    using pro(2) timed(2) by (simp_all add: f'(2) p'(2) t'(2))
  have tidy: "tidy (abs_of S A f') ?C ?n" "tidy (abs_of S A p') ?C ?n" "tidy (abs_of S A t') ?C ?n"
    using pro(3,4) timed(4) by (simp_all add: f'(2) p'(2) t'(2) streaming_def)
  have ok: "book_ok S ok covers A f'" "book_ok S ok covers A p'" "book_ok S ok covers A t'"
    using f'(3) p'(3) t'(3) by (simp_all add: run_ok_def)
  have reports: "reports_alike r rp" "reports_alike r rt"
    using pro(1) timed(1) by (simp_all add: f'(2) p'(2) t'(2))
  have "agreement_loop S A ords f' p' t' = Some ()"
    by (rule Cons.IH [OF f'(3) p'(3) t'(3) alike tidy])
      (use Cons.prems(9-12) in \<open>auto simp: add.assoc\<close>)
  with f'(1) p'(1) t'(1) same_totals_passes [OF reports(1)] same_totals_passes [OF reports(2)]
    same_public_state_passes [OF E ok(2,1) alike(1)] same_public_state_passes [OF E ok(3,1) alike(2)]
  show ?case by simp
qed simp

end
