(* ===== verification/Property_Suite.thy ===== *)
theory Property_Suite
  imports Property_Agreement
begin

text \<open>
  The property-based tests themselves: each check in every configuration of policy and store, on the
  crate's stores over any arena that keeps its contract, for every stream that can be drawn and for
  longer ones.
  The reservations of the ladder store are a parameter; the tests need 41 slots a side.
\<close>

section \<open>The tests\<close>

text \<open>The product of stores and policies: one check for each store, run with every policy.\<close>

definition for_each_configuration ::
    "u64 \<Rightarrow> (matcher \<Rightarrow> unit option) \<Rightarrow> (matcher \<Rightarrow> unit option) \<Rightarrow> (matcher \<Rightarrow> unit option) \<Rightarrow> unit option" where
  "for_each_configuration lot btree ladder hash = do {
     for_each_policy lot btree;
     for_each_policy lot ladder;
     for_each_policy lot hash
   }"

definition book_never_crossed_after_submit ::
    "'d decimal_ops \<Rightarrow> ('m, 'k) arena_ops \<Rightarrow> (usize \<Rightarrow> bool) \<Rightarrow> (usize \<Rightarrow> bool) \<Rightarrow> draw list \<Rightarrow> unit option" where
  "book_never_crossed_after_submit D A rb ra drawn = do {
     stream \<leftarrow> arb_stream D drawn;
     spec \<leftarrow> prop_spec D;
     for_each_configuration (lot_size spec)
       (\<lambda>m. check_never_crossed D btree_store A m stream)
       (\<lambda>m. check_never_crossed D (ladder_store rb ra) A m stream)
       (\<lambda>m. check_never_crossed D hash_store A m stream)
   }"

definition index_matches_levels_and_book_drains ::
    "'d decimal_ops \<Rightarrow> ('m, 'k) arena_ops \<Rightarrow> (usize \<Rightarrow> bool) \<Rightarrow> (usize \<Rightarrow> bool) \<Rightarrow> draw list \<Rightarrow> unit option" where
  "index_matches_levels_and_book_drains D A rb ra drawn = do {
     stream \<leftarrow> arb_stream D drawn;
     spec \<leftarrow> prop_spec D;
     for_each_configuration (lot_size spec)
       (\<lambda>m. check_index_consistency D btree_store A m stream)
       (\<lambda>m. check_index_consistency D (ladder_store rb ra) A m stream)
       (\<lambda>m. check_index_consistency D hash_store A m stream)
   }"

definition no_satisfied_stop_left_pending ::
    "'d decimal_ops \<Rightarrow> ('m, 'k) arena_ops \<Rightarrow> (usize \<Rightarrow> bool) \<Rightarrow> (usize \<Rightarrow> bool) \<Rightarrow> draw list \<Rightarrow> unit option" where
  "no_satisfied_stop_left_pending D A rb ra drawn = do {
     stream \<leftarrow> arb_stream D drawn;
     spec \<leftarrow> prop_spec D;
     for_each_configuration (lot_size spec)
       (\<lambda>m. check_stop_discipline D btree_store A m stream)
       (\<lambda>m. check_stop_discipline D (ladder_store rb ra) A m stream)
       (\<lambda>m. check_stop_discipline D hash_store A m stream)
   }"

definition a_rejected_order_leaves_the_book_untouched ::
    "'d decimal_ops \<Rightarrow> ('m, 'k) arena_ops \<Rightarrow> (usize \<Rightarrow> bool) \<Rightarrow> (usize \<Rightarrow> bool) \<Rightarrow> draw list \<Rightarrow>
       u64 \<Rightarrow> side \<Rightarrow> u64 \<Rightarrow> unit option" where
  "a_rejected_order_leaves_the_book_untouched D A rb ra drawn too_small sd n = do {
     stream \<leftarrow> arb_stream D drawn;
     p \<leftarrow> arb_limit_price D n;
     spec \<leftarrow> prop_spec D;
     for_each_configuration (lot_size spec)
       (\<lambda>m. check_reject_is_a_no_op D btree_store A m stream too_small sd p)
       (\<lambda>m. check_reject_is_a_no_op D (ladder_store rb ra) A m stream too_small sd p)
       (\<lambda>m. check_reject_is_a_no_op D hash_store A m stream too_small sd p)
   }"

definition storage_backends_are_observationally_identical ::
    "'d decimal_ops \<Rightarrow> ('m, 'k) arena_ops \<Rightarrow> (usize \<Rightarrow> bool) \<Rightarrow> (usize \<Rightarrow> bool) \<Rightarrow> draw list \<Rightarrow> unit option" where
  "storage_backends_are_observationally_identical D A rb ra drawn = do {
     stream \<leftarrow> arb_stream D drawn;
     spec \<leftarrow> prop_spec D;
     for_each_policy (lot_size spec)
       (\<lambda>m. check_storage_agreement D btree_store (ladder_store rb ra) hash_store A m stream)
   }"

section \<open>Books to run on\<close>

lemma prop_spec_ok:
  assumes "prop_spec_on D lot = Some spec" and "lot \<noteq> 0"
  shows "spec_ok spec" and "lot_size spec = lot"
proof -
  have "(9500 :: nat) mod 25 = 0" "(10500 :: nat) mod 25 = 0" by simp_all
  with prop_spec_on_value [OF assms(2), of D] assms show "spec_ok spec" "lot_size spec = lot"
    by (auto simp: spec_ok_def is_multiple_of_unat word_gt_0)
qed

lemma new_books:
  assumes "prop_spec_on D lot = Some spec0" and "lot \<noteq> 0" and "spec = spec0 \<or> (\<exists>mn mx. spec = spec0\<lparr>min_qty := mn, max_qty := mx\<rparr>)"
    and "matching_algorithm mtch lot" and "rb 41" and "ra 41"
  shows "\<exists>b. new_book btree_store A spec mtch = Some b"
    and "\<exists>b. new_book hash_store A spec mtch = Some b"
    and "\<exists>b. new_book (ladder_store rb ra) A spec mtch = Some b"
proof -
  note fields = prop_spec_on_value [OF assms(2), of D]
  have "lot_size spec = lot" using prop_spec_ok(2) [OF assms(1,2)] assms(3) by auto
  then have lot: "matcher_lot_size mtch = None \<or> matcher_lot_size mtch = Some (lot_size spec)"
    using matching_algorithm.declared_lot [OF assms(4)] by simp
  from btree_try_new_total [OF lot, of A] show "\<exists>b. new_book btree_store A spec mtch = Some b"
    by (auto simp: new_book_def)
  from hash_try_new_total [OF lot, of A] show "\<exists>b. new_book hash_store A spec mtch = Some b"
    by (auto simp: new_book_def)
  show "\<exists>b. new_book (ladder_store rb ra) A spec mtch = Some b"
    using lot assms(1,3,5,6) fields
    by (auto simp: new_book_def try_new_def ladder_try_new_def checked_sub_def checked_div_def checked_add_def)
qed

text \<open>A check that passes on each store passes in every configuration.\<close>

lemma configurations_pass:
  assumes "prop_spec_on D lot = Some spec0" and "lot \<noteq> 0" and "spec = spec0 \<or> (\<exists>mn mx. spec = spec0\<lparr>min_qty := mn, max_qty := mx\<rparr>)"
    and "rb 41" and "ra 41"
    and "\<And>m b. matching_algorithm m lot \<Longrightarrow> new_book btree_store A spec m = Some b \<Longrightarrow> f m = Some ()"
    and "\<And>m b. matching_algorithm m lot \<Longrightarrow> new_book (ladder_store rb ra) A spec m = Some b \<Longrightarrow> g m = Some ()"
    and "\<And>m b. matching_algorithm m lot \<Longrightarrow> new_book hash_store A spec m = Some b \<Longrightarrow> h m = Some ()"
  shows "for_each_configuration lot f g h = Some ()"
proof -
  have "f m = Some ()" "g m = Some ()" "h m = Some ()" if "matching_algorithm m lot" for m
    using new_books [where A = A and rb = rb and ra = ra, OF assms(1-3) that assms(4,5)] assms(6-8) [OF that] by auto
  then show ?thesis
    using for_each_policy_passes [OF assms(2)] by (simp add: for_each_configuration_def)
qed

text \<open>Books for the instrument of the tests, and for the one with size limits.\<close>

lemmas plain_configurations = configurations_pass [where lot = 1, folded prop_specs, OF _ one_neq_zero disjI1 [OF refl]]

lemma drawn_stream:
  assumes "\<forall>d\<in>set drawn. draw_ok d" and "length drawn + 1 < 2 ^ 32"
  obtains spec stream where "prop_spec D = Some spec" and "spec_ok spec" and "lot_size spec = 1"
    and "arb_stream D drawn = Some stream" and "\<forall>ord\<in>set stream. streamable spec ord" and "length stream + 1 < 2 ^ 32"
    and "\<forall>ord\<in>set stream. original_quantity ord = remaining_quantity ord" and "order_units stream < 2 ^ 64"
    and "\<forall>ord\<in>set stream. \<forall>p. Some p \<in> set (prices (otype ord)) \<longrightarrow> is_multiple_of (minor p) (tick_size spec)"
proof -
  obtain spec where spec: "prop_spec D = Some spec" using prop_spec_on_value [of 1 D] by (simp add: prop_specs)
  from arb_stream_ok [OF spec assms(1)] obtain stream where
    stream: "arb_stream D drawn = Some stream" "length stream = length drawn"
      "\<forall>ord\<in>set stream. \<exists>q c. drawn_for spec q c ord \<and> units q \<le> 50" by blast
  then have orders: "streamable spec ord" "original_quantity ord = remaining_quantity ord" "units (remaining_quantity ord) \<le> 50"
    "\<forall>p. Some p \<in> set (prices (otype ord)) \<longrightarrow> is_multiple_of (minor p) (tick_size spec)" if "ord \<in> set stream" for ord
    using that drawn_forD by blast+
  have "order_units stream \<le> 50 * length stream"
    unfolding order_units_def using sum_list_mono [of stream "\<lambda>ord. units (remaining_quantity ord)" "\<lambda>_. 50"] orders(3)
    by (simp add: sum_list_triv)
  then have "order_units stream < 2 ^ 64" using assms(2) stream(2) by simp
  with spec stream(1,2) orders prop_spec_ok [of D 1 spec] assms(2) that show thesis by (auto simp: prop_specs)
qed

text \<open>
  C13. The tests of the book's invariants pass, for every stream: on each store, over any arena that
  keeps the documented contract, with each policy, when the reservation of the 41 slots of each side of the ladder succeeds. No submission fails; the
  touch is never crossed; what is pending lies beyond the last price; levels, stop queues and index
  describe the same orders, and cancelling every identifier empties the book; an order below the
  minimum is rejected and changes nothing; and the three stores give the same reports and show the
  same book after every order.
\<close>

theorem book_invariant_tests_pass:
  assumes "arena_laws A" and "\<forall>d\<in>set drawn. draw_ok d" and "length drawn + 1 < 2 ^ 32" and "rb 41" and "ra 41"
    and "too_small < 5" and "380 \<le> n" and "n \<le> 420"
  shows "book_never_crossed_after_submit D A rb ra drawn = Some () \<and>
    no_satisfied_stop_left_pending D A rb ra drawn = Some () \<and>
    index_matches_levels_and_book_drains D A rb ra drawn = Some () \<and>
    a_rejected_order_leaves_the_book_untouched D A rb ra drawn too_small sd n = Some () \<and>
    storage_backends_are_observationally_identical D A rb ra drawn = Some ()"
proof -
  note btree_law = btree_lawful [OF assms(1)] and hash_law = hash_lawful [OF assms(1)] and ladder_law = ladder_lawful [OF assms(1)]
  obtain spec stream where spec: "prop_spec D = Some spec" "spec_ok spec" "lot_size spec = 1"
    and stream: "arb_stream D drawn = Some stream" "\<forall>ord\<in>set stream. streamable spec ord" "length stream + 1 < 2 ^ 32"
    by (rule drawn_stream [OF assms(2,3)])
  note configurations = plain_configurations [where A = A and rb = rb and ra = ra, OF spec(1) assms(4,5)]
  have "book_never_crossed_after_submit D A rb ra drawn = Some ()"
    unfolding book_never_crossed_after_submit_def stream(1) spec(1,3) Option.bind.bind_lunit
    by (rule configurations)
      (rule book_engine.never_crossed_passes [OF btree_law spec(1,2) _ _ stream(2,3), unfolded spec(3)]
        book_engine.never_crossed_passes [OF ladder_law spec(1,2) _ _ stream(2,3), unfolded spec(3)]
        book_engine.never_crossed_passes [OF hash_law spec(1,2) _ _ stream(2,3), unfolded spec(3)]; assumption)+
  moreover have "no_satisfied_stop_left_pending D A rb ra drawn = Some ()"
    unfolding no_satisfied_stop_left_pending_def stream(1) spec(1,3) Option.bind.bind_lunit
    by (rule configurations)
      (rule book_engine.stop_discipline_passes [OF btree_law spec(1,2) _ _ stream(2,3), unfolded spec(3)]
        book_engine.stop_discipline_passes [OF ladder_law spec(1,2) _ _ stream(2,3), unfolded spec(3)]
        book_engine.stop_discipline_passes [OF hash_law spec(1,2) _ _ stream(2,3), unfolded spec(3)]; assumption)+
  moreover have "index_matches_levels_and_book_drains D A rb ra drawn = Some ()"
    unfolding index_matches_levels_and_book_drains_def stream(1) spec(1,3) Option.bind.bind_lunit
    by (rule configurations)
      (rule book_engine.index_consistency_passes [OF btree_law spec(1,2) _ _ stream(2,3), unfolded spec(3)]
        book_engine.index_consistency_passes [OF ladder_law spec(1,2) _ _ stream(2,3), unfolded spec(3)]
        book_engine.index_consistency_passes [OF hash_law spec(1,2) _ _ stream(2,3), unfolded spec(3)]; assumption)+
  moreover have "a_rejected_order_leaves_the_book_untouched D A rb ra drawn too_small sd n = Some ()"
  proof -
    obtain bounded where bounded: "prop_bounded_spec D = Some bounded"
      "bounded = spec \<or> (\<exists>mn mx. bounded = spec\<lparr>min_qty := mn, max_qty := mx\<rparr>)"
      using spec(1) by (auto simp: prop_bounded_spec_def prop_qty_value with_qty_range_def spec(3) one_unit(1))
    note price = drawn_price(1) [OF assms(7,8), of D]
    show ?thesis
      unfolding a_rejected_order_leaves_the_book_untouched_def stream(1) spec(1,3) price Option.bind.bind_lunit
      by (rule configurations_pass [where A = A and rb = rb and ra = ra, OF spec(1) [unfolded prop_specs] one_neq_zero bounded(2) assms(4,5)])
        (rule book_engine.reject_is_a_no_op [OF btree_law spec(1) bounded(1) _ _ stream(2,3) assms(6) price assms(7,8)]
          book_engine.reject_is_a_no_op [OF ladder_law spec(1) bounded(1) _ _ stream(2,3) assms(6) price assms(7,8)]
          book_engine.reject_is_a_no_op [OF hash_law spec(1) bounded(1) _ _ stream(2,3) assms(6) price assms(7,8)]; assumption)+
  qed
  moreover have "storage_backends_are_observationally_identical D A rb ra drawn = Some ()"
  proof -
    have "check_storage_agreement D btree_store (ladder_store rb ra) hash_store A m stream = Some ()"
      if m: "matching_algorithm m 1" for m
    proof -
      note books = new_books [where A = A and rb = rb and ra = ra, OF spec(1) [unfolded prop_specs] one_neq_zero disjI1 [OF refl] m assms(4,5)]
      then obtain t l h where new: "new_book btree_store A spec m = Some t"
        "new_book (ladder_store rb ra) A spec m = Some l" "new_book hash_store A spec m = Some h" by blast
      note t = book_engine.new_book_run_ok [OF btree_law new(1) spec(2) _ stream(3), unfolded spec(3), OF m]
        and l = book_engine.new_book_run_ok [OF ladder_law new(2) spec(2) _ stream(3), unfolded spec(3), OF m]
        and h = book_engine.new_book_run_ok [OF hash_law new(3) spec(2) _ stream(3), unfolded spec(3), OF m]
      from storage_loop_passes [OF btree_law ladder_law hash_law
          t(1) l(1) h(1) _ _ stream(2)] t(2) l(2) h(2) spec(1) new
      show ?thesis by (simp add: check_storage_agreement_def)
    qed
    then show ?thesis
      unfolding storage_backends_are_observationally_identical_def stream(1) spec(1,3) Option.bind.bind_lunit
      by (intro for_each_policy_passes) simp_all
  qed
  ultimately show ?thesis by blast
qed

text \<open>Two asks, a bid that takes the first and part of the second, and a stop below.\<close>

definition sample_draws :: "draw list" where
  "sample_draws =
     [(Ask, (0, 400, 380), 10, 0), (Ask, (0, 402, 380), 10, 1), (Bid, (0, 402, 380), 14, 2), (Ask, (4, 390, 380), 5, 3)]"

lemma sample_draws_ok: "\<forall>d\<in>set sample_draws. draw_ok d" "length sample_draws + 1 < 2 ^ 32"
  by code_simp (simp add: sample_draws_def)

theorem book_invariant_tests_pass_witness:
  "book_never_crossed_after_submit pair_decimal_ops slot_arena (\<lambda>_. True) (\<lambda>_. True) sample_draws = Some () \<and>
   a_rejected_order_leaves_the_book_untouched pair_decimal_ops slot_arena (\<lambda>_. True) (\<lambda>_. True) sample_draws 3 Bid 400 = Some ()"
  using book_invariant_tests_pass [of slot_arena sample_draws "\<lambda>_. True" "\<lambda>_. True" 3 400 pair_decimal_ops Bid, OF slot_arena_laws sample_draws_ok]
  by simp

section \<open>Policies\<close>

lemma drawn_clients:
  "\<forall>d\<in>set drawn. draw_ok d \<Longrightarrow> prop_spec D = Some spec \<Longrightarrow>
     \<exists>stream. those (map (\<lambda>(i, sd, kind, q, c). drawn_order D sd kind (prop_qty D q) i) (List.enumerate k drawn)) = Some stream \<and>
       length stream = length drawn \<and> (\<forall>ord\<in>set stream. streamable spec ord) \<and>
       map client stream = map (\<lambda>i. ClientId (''client-'' @ decimal_digits i)) [k..<k + length drawn] \<and>
       order_units stream \<le> 50 * length drawn"
proof (induction drawn arbitrary: k)
  case (Cons d drawn)
  obtain sd kind m n q c where d: "d = (sd, (kind, m, n), q, c)" by (cases d) auto
  with Cons.prems(1) have q: "380 \<le> m" "m \<le> 420" "380 \<le> n" "n \<le> 420" "1 \<le> q" "q \<le> 50" by (simp_all add: draw_ok_def)
  then have "Qty q \<noteq> 0" "unat q \<le> 50" using one_unit(2) [of q] by (auto simp: zero_qty_def word_le_nat_alt)
  moreover from this(1) obtain ord where "drawn_order D sd (kind, m, n) (prop_qty D q) k = Some ord" "drawn_for spec (Qty q) k ord"
    using drawn_order_ok [OF q(1-4) Cons.prems(2) [unfolded prop_specs], of "Qty q" sd kind k] q(5)
    by (auto simp: prop_qty_value one_unit(1))
  moreover obtain stream where
    "those (map (\<lambda>(i, sd, kind, q, c). drawn_order D sd kind (prop_qty D q) i) (List.enumerate (Suc k) drawn)) = Some stream"
    "length stream = length drawn" "\<forall>ord\<in>set stream. streamable spec ord"
    "map client stream = map (\<lambda>i. ClientId (''client-'' @ decimal_digits i)) [Suc k..<Suc k + length drawn]"
    "order_units stream \<le> 50 * length drawn"
    using Cons.IH [of "Suc k"] Cons.prems by auto
  ultimately show ?case
    by (intro exI [of _ "ord # stream"]) (auto simp: d drawn_for_streamable upt_conv_Cons drawn_for_def simp del: upt_Suc)
qed simp

text \<open>
  C39. The test of the crate that sets FIFO, pro-rata and time pro-rata against each other passes for
  every stream it can draw, and for longer ones: on its instrument (a band of 95 to 105, a tick of a
  quarter, a lot of one), with quantities of 1 to 50 and a client for each order, on the ordered map
  and any arena that keeps the documented contract. No submission fails and nothing is cancelled, and
  after every order the three books agree on the outcome, on how much the whole cascade filled and on
  its length, on the best prices, the last price, the total depth and the depth of every level.
\<close>

theorem totals_test_passes:
  assumes "arena_laws A" and "\<forall>d\<in>set drawn. draw_ok d" and "length drawn + 1 < 2 ^ 32"
  shows "every_matcher_agrees_on_the_totals D btree_store A drawn = Some ()"
proof -
  note btree_law = btree_lawful [OF assms(1)]
  obtain spec where spec: "prop_spec D = Some spec" using prop_spec_on_value [of 1 D] by (simp add: prop_specs)
  note ok = prop_spec_ok [OF spec [unfolded prop_specs] one_neq_zero]
  from drawn_clients [OF assms(2) spec, of 0] obtain stream where
    stream: "arb_stream_unique_clients D drawn = Some stream" "length stream = length drawn"
      "\<forall>ord\<in>set stream. streamable spec ord" "order_units stream \<le> 50 * length drawn"
      "map client stream = map (\<lambda>i. ClientId (''client-'' @ decimal_digits i)) [0..<length drawn]"
    by (auto simp: arb_stream_unique_clients_def)
  have distinct: "distinct (map client stream)"
    unfolding stream(5) by (auto simp: distinct_map inj_on_def dest: decimal_digits_inj)
  have new: "\<exists>b. book_new btree_store A spec m = Some b \<and> run_ok btree_store btree_ok (\<lambda>_ _. True) A spec (length stream) b \<and>
      abs_of btree_store A b = empty_abs spec m" if m: "matching_algorithm m 1" for m
  proof -
    have "matcher_lot_size m = None \<or> matcher_lot_size m = Some (lot_size spec)"
      using matching_algorithm.declared_lot [OF m] ok(2) by simp
    from btree_try_new_total [OF this, of A] obtain b where
      "book_new btree_store A spec m = Some b" "new_book btree_store A spec m = Some b"
      by (auto simp: book_new_def new_book_def)
    with book_engine.new_book_run_ok [OF btree_law this(2) ok(1), of "length stream"] m ok(2) stream(2) assms(3) show ?thesis by auto
  qed
  obtain f where f: "book_new btree_store A spec fifo_matcher = Some f"
    "run_ok btree_store btree_ok (\<lambda>_ _. True) A spec (length stream) f" "abs_of btree_store A f = empty_abs spec fifo_matcher"
    using new [OF fifo.matching_algorithm_axioms] by blast
  obtain p where p: "book_new btree_store A spec (pro_rata_matcher 1) = Some p"
    "run_ok btree_store btree_ok (\<lambda>_ _. True) A spec (length stream) p" "abs_of btree_store A p = empty_abs spec (pro_rata_matcher 1)"
    using new [OF pro_rata.matching_algorithm_axioms] by blast
  obtain t where t: "book_new btree_store A spec (time_pro_rata_matcher (default_time_pro_rata 1)) = Some t"
    "run_ok btree_store btree_ok (\<lambda>_ _. True) A spec (length stream) t"
    "abs_of btree_store A t = empty_abs spec (time_pro_rata_matcher (default_time_pro_rata 1))"
    using new [OF time_pro_rata.matching_algorithm_axioms [of 1, folded default_time_pro_rata_def]] by blast
  have "agreement_loop btree_store A stream f p t = Some ()"
    by (rule agreement_loop_passes [OF btree_law f(2) p(2) t(2), of "{}" 0])
      (use stream(2-4) distinct assms(3) in \<open>auto simp: f(3) p(3) t(3) alike_def tidy_def apart_def clients_in_def
        stop_orders_def side_units_def\<close>)
  then show ?thesis
    by (simp add: every_matcher_agrees_on_the_totals_def stream(1) spec f(1) p(1) t(1) ok(2) own_policies)
qed

theorem totals_test_passes_witness:
  "every_matcher_agrees_on_the_totals pair_decimal_ops btree_store slot_arena sample_draws = Some ()"
  by (rule totals_test_passes [OF slot_arena_laws sample_draws_ok])

end
