(* ===== verification/Settlement.thy ===== *)
theory Settlement
  imports Sessions Book_Facts Fifo_Matcher
begin

text \<open>
  A report tells the whole story: the ladder after a sweep is the ladder before it, each order less
  what its trades say and without the orders the report names as cancelled. And within a level the
  trades come in the order of the queue, whatever the policy.
\<close>

section \<open>Settling a ladder by a report\<close>

definition traded_to :: "trade list \<Rightarrow> exchange_id \<Rightarrow> nat" where
  "traded_to ts i = traded_units (filter (\<lambda>t. maker_order_id t = i) ts)"

definition settle_order :: "trade list \<Rightarrow> order \<Rightarrow> order" where
  "settle_order ts ord =
     ord\<lparr>remaining_quantity := Qty (of_nat (units (remaining_quantity ord) - traded_to ts (order_id ord)))\<rparr>"

definition settle_level :: "trade list \<Rightarrow> exchange_id list \<Rightarrow> order list \<Rightarrow> order list" where
  "settle_level ts cs os = filter (\<lambda>ord. remaining_quantity ord \<noteq> 0)
     (map (settle_order ts) (filter (\<lambda>ord. order_id ord \<notin> set cs) os))"

fun settle :: "trade list \<Rightarrow> exchange_id list \<Rightarrow> ladder \<Rightarrow> ladder" where
  "settle ts cs [] = []"
| "settle ts cs ((p, os) # L) =
     (if settle_level ts cs os = [] then settle ts cs L else (p, settle_level ts cs os) # settle ts cs L)"

lemma traded_to_simps [simp]:
  "traded_to [] i = 0"
  "traded_to (ts @ ts') i = traded_to ts i + traded_to ts' i"
  by (simp_all add: traded_to_def)

lemma traded_to_absent: "i \<notin> maker_order_id ` set ts \<Longrightarrow> traded_to ts i = 0"
  by (induction ts) (auto simp: traded_to_def)

lemma settle_order_simps [simp]:
  "order_id (settle_order ts ord) = order_id ord" "client (settle_order ts ord) = client ord"
  "order_side (settle_order ts ord) = order_side ord" "otype (settle_order ts ord) = otype ord"
  "arrival (settle_order ts ord) = arrival ord" "original_quantity (settle_order ts ord) = original_quantity ord"
  by (simp_all add: settle_order_def)

lemma units_settle_order: "units (remaining_quantity (settle_order ts ord)) = units (remaining_quantity ord) - traded_to ts (order_id ord)"
proof -
  have "units (remaining_quantity ord) - traded_to ts (order_id ord) < 2 ^ 64"
    using unat_u64_bound [of "base (remaining_quantity ord)"] by (simp add: less_imp_diff_less)
  then show ?thesis by (simp add: settle_order_def unat_of_nat)
qed

lemma settle_order_none: "traded_to ts (order_id ord) = 0 \<Longrightarrow> settle_order ts ord = ord"
  by (cases "remaining_quantity ord") (simp add: settle_order_def)

lemma settle_level_cong:
  assumes "\<forall>ord\<in>set os. traded_to ts (order_id ord) = traded_to ts' (order_id ord) \<and>
    (order_id ord \<in> set cs \<longleftrightarrow> order_id ord \<in> set cs')"
  shows "settle_level ts cs os = settle_level ts' cs' os"
proof -
  have "filter (\<lambda>ord. order_id ord \<notin> set cs) os = filter (\<lambda>ord. order_id ord \<notin> set cs') os"
    using assms by (intro filter_cong) auto
  moreover have "map (settle_order ts) (filter (\<lambda>ord. order_id ord \<notin> set cs') os) =
      map (settle_order ts') (filter (\<lambda>ord. order_id ord \<notin> set cs') os)"
    using assms by (intro map_cong) (auto simp: settle_order_def)
  ultimately show ?thesis by (simp only: settle_level_def)
qed

lemma settle_cong:
  "\<forall>ord\<in>set (ladder_orders L). traded_to ts (order_id ord) = traded_to ts' (order_id ord) \<and>
     (order_id ord \<in> set cs \<longleftrightarrow> order_id ord \<in> set cs') \<Longrightarrow> settle ts cs L = settle ts' cs' L"
proof (induction L)
  case (Cons l L)
  obtain p os where l: "l = (p, os)" by (cases l)
  have "settle_level ts cs os = settle_level ts' cs' os" by (rule settle_level_cong) (use Cons.prems in \<open>simp add: l\<close>)
  with Cons show ?case by (simp add: l)
qed simp

lemma settle_level_none: "\<forall>ord\<in>set os. remaining_quantity ord \<noteq> 0 \<Longrightarrow> settle_level [] [] os = os"
  by (simp add: settle_level_def settle_order_none filter_id_conv map_idI)

lemma settle_none: "tradable_ladder lot L \<Longrightarrow> settle [] [] L = L"
proof (induction L)
  case (Cons l L)
  obtain p os where l: "l = (p, os)" by (cases l)
  have "settle_level [] [] os = os" by (rule settle_level_none) (use Cons.prems in \<open>simp add: l tradable_level_def\<close>)
  with Cons show ?case by (simp add: l)
qed simp

lemma settle_id:
  assumes "tradable_ladder lot L" and "\<forall>ord\<in>set (ladder_orders L). order_id ord \<notin> maker_order_id ` set ts \<and> order_id ord \<notin> set cs"
  shows "settle ts cs L = L"
proof -
  have "settle ts cs L = settle [] [] L" by (rule settle_cong) (use assms(2) traded_to_absent in auto)
  with settle_none [OF assms(1)] show ?thesis by simp
qed

section \<open>One level\<close>

lemma sorted_wrt_pick:
  assumes "sorted_wrt R xs" and "sorted_wrt (<) js" and "\<forall>j\<in>set js. j < length xs"
  shows "sorted_wrt R (map (\<lambda>j. xs ! j) js)"
  unfolding sorted_wrt_map
proof (rule sorted_wrt_mono_rel [OF _ assms(2)])
  fix i j assume "i \<in> set js" "j \<in> set js" "i < j"
  with assms(1,3) show "R (xs ! i) (xs ! j)" by (simp add: sorted_wrt_nth_less)
qed

text \<open>What a level trades: with the other clients' orders, each as far as it is filled.\<close>

lemma level_traded:
  assumes M: "matching_algorithm M lot" and lot: "lot \<noteq> 0" and os: "tradable_level lot os"
    and tk: "is_multiple_of (base (remaining_quantity tk)) lot"
    and run: "spec_level M now p os tk = (ts, cs, tk', os')" and ids: "distinct (map order_id os)"
  defines "others \<equiv> filter (\<lambda>ord. client ord \<noteq> client tk) os"
  defines "fs \<equiv> allocate M (remaining_quantity tk) (map maker_of others) now"
  shows "fills_ok fs (remaining_quantity tk) (map maker_of others) lot"
    and "cs = map order_id (filter (\<lambda>ord. client ord = client tk) os)"
    and "map maker_order_id ts = map (\<lambda>f. order_id (others ! order_index f)) fs"
    and "i < length others \<Longrightarrow> traded_to ts (order_id (others ! i)) = filled_at fs i"
    and "\<exists>os2. fill_orders p fs others tk = (ts, os2, tk') \<and> os' = filter (\<lambda>ord. remaining_quantity ord \<noteq> 0) os2 \<and>
      length os2 = length others \<and> (\<forall>i<length others. units (remaining_quantity (os2 ! i)) + filled_at fs i =
        units (remaining_quantity (others ! i)))"
proof -
  obtain os2 where fill: "fill_orders p fs others tk = (ts, os2, tk')"
    "cs = map order_id (filter (\<lambda>ord. client ord = client tk) os)" "os' = filter (\<lambda>ord. remaining_quantity ord \<noteq> 0) os2"
    using run by (auto simp: spec_level_def others_def fs_def Let_def split: prod.splits)
  have lots: "\<forall>ord\<in>set others. remaining_quantity ord \<noteq> 0 \<and> is_multiple_of (base (remaining_quantity ord)) lot"
    and short: "length others < 2 ^ 63"
    using os le_less_trans [OF length_filter_le] by (auto simp: tradable_level_def others_def)
  have "alloc_inputs_ok lot (remaining_quantity tk) (map maker_of others)"
    using lots short by (intro alloc_inputs_level lot tk) auto
  from matching_algorithm.allocate_ok [OF M this]
  show ok: "fills_ok fs (remaining_quantity tk) (map maker_of others) lot" by (simp add: fs_def)
  note fs = fills_okD [OF ok]
  have "distinct (map order_index fs)" using fs(1) by (simp add: strict_sorted_iff)
  note all2 = fill_orders_trades [OF fill(1) this]
  have ids': "distinct (map order_id others)" using ids by (simp add: others_def distinct_map_filter)
  show "cs = map order_id (filter (\<lambda>ord. client ord = client tk) os)" by (rule fill(2))
  show "map maker_order_id ts = map (\<lambda>f. order_id (others ! order_index f)) fs"
    using all2 by (induction rule: list_all2_induct) auto
  show "traded_to ts (order_id (others ! i)) = filled_at fs i" if i: "i < length others"
  proof -
    have eq: "order_id (others ! order_index f) = order_id (others ! i) \<longleftrightarrow> order_index f = i" if "f \<in> set fs" for f
      using ids' fs(2) that i nth_eq_iff_index_eq [of "map order_id others" "order_index f" i] by simp
    have "traded_to ts (order_id (others ! i)) =
        sum_list (map (\<lambda>f. units (fill_quantity f)) (filter (\<lambda>f. order_id (others ! order_index f) = order_id (others ! i)) fs))"
      using all2 by (induction rule: list_all2_induct) (auto simp: traded_to_def)
    also have "\<dots> = filled_at fs i"
      unfolding filled_at_def using eq by (intro arg_cong [where f = sum_list] arg_cong [where f = "map _"] filter_cong) auto
    finally show ?thesis .
  qed
  show "\<exists>os2. fill_orders p fs others tk = (ts, os2, tk') \<and> os' = filter (\<lambda>ord. remaining_quantity ord \<noteq> 0) os2 \<and>
      length os2 = length others \<and> (\<forall>i<length others. units (remaining_quantity (os2 ! i)) + filled_at fs i =
        units (remaining_quantity (others ! i)))"
    using fill(1,3) fill_orders_length [OF fill(1)] fill_orders_contract(3) [OF ok lots tk fill(1)] by blast
qed

lemma level_settles:
  assumes M: "matching_algorithm M lot" and lot: "lot \<noteq> 0" and os: "tradable_level lot os"
    and tk: "is_multiple_of (base (remaining_quantity tk)) lot"
    and run: "spec_level M now p os tk = (ts, cs, tk', os')" and ids: "distinct (map order_id os)"
  shows "os' = settle_level ts cs os" and "\<forall>ord\<in>set os. traded_to ts (order_id ord) \<le> units (remaining_quantity ord)"
    and "\<forall>i\<in>set cs. traded_to ts i = 0" and "maker_order_id ` set ts \<subseteq> order_id ` set os" and "set cs \<subseteq> order_id ` set os"
    and "sorted_wrt R (map order_id os) \<Longrightarrow> sorted_wrt R (map maker_order_id ts)"
proof -
  define others where "others = filter (\<lambda>ord. client ord \<noteq> client tk) os"
  define fs where "fs = allocate M (remaining_quantity tk) (map maker_of others) now"
  note level = level_traded [OF assms, folded others_def, folded fs_def]
  note fs = fills_okD [OF level(1)] and cs = level(2) and makers = level(3) and sum = level(4)
  obtain os2 where fill: "fill_orders p fs others tk = (ts, os2, tk')" "os' = filter (\<lambda>ord. remaining_quantity ord \<noteq> 0) os2"
    "length os2 = length others" "\<And>i. i < length others \<Longrightarrow> units (remaining_quantity (os2 ! i)) + filled_at fs i = units (remaining_quantity (others ! i))"
    using level(5) by blast
  have idx: "\<forall>f\<in>set fs. order_index f < length others" using fs(2) by simp
  have same: "order_id x = order_id y \<longleftrightarrow> x = y" if "x \<in> set os" "y \<in> set os" for x y
    using ids that by (auto simp: distinct_map dest: inj_onD)
  have os2: "os2 = map (settle_order ts) others"
  proof (rule nth_equalityI)
    fix i assume "i < length os2"
    then have i: "i < length others" using fill(3) by simp
    from fill_orders_makers [OF fill(1) idx i] obtain q where q: "os2 ! i = (others ! i)\<lparr>remaining_quantity := q\<rparr>" by blast
    then have units: "units (remaining_quantity (others ! i)) - traded_to ts (order_id (others ! i)) = units q"
      using fill(4) [OF i] sum [OF i] by simp
    have "q = Qty (of_nat (units (remaining_quantity (others ! i)) - traded_to ts (order_id (others ! i))))"
      unfolding units by (cases q) simp
    with q i show "os2 ! i = map (settle_order ts) others ! i" by (simp add: settle_order_def)
  qed (simp add: fill(3))
  have "order_id ord \<notin> set cs \<longleftrightarrow> client ord \<noteq> client tk" if "ord \<in> set os" for ord
    using that same by (auto simp: cs)
  then have kept: "filter (\<lambda>ord. order_id ord \<notin> set cs) os = others" by (simp add: others_def cong: filter_cong)
  then show "os' = settle_level ts cs os" by (simp add: settle_level_def fill(2) os2)
  have in_others: "set (map maker_order_id ts) \<subseteq> order_id ` set others" unfolding makers using idx by auto
  then show "maker_order_id ` set ts \<subseteq> order_id ` set os" by (auto simp: others_def)
  show "set cs \<subseteq> order_id ` set os" by (auto simp: cs)
  have gone: "traded_to ts (order_id ord) = 0" if "ord \<in> set os" "client ord = client tk" for ord
    by (rule traded_to_absent) (use in_others that same in \<open>auto simp: others_def\<close>)
  then show "\<forall>i\<in>set cs. traded_to ts i = 0" by (auto simp: cs)
  show "\<forall>ord\<in>set os. traded_to ts (order_id ord) \<le> units (remaining_quantity ord)"
  proof
    fix ord assume ord: "ord \<in> set os"
    show "traded_to ts (order_id ord) \<le> units (remaining_quantity ord)"
    proof (cases "client ord = client tk")
      case False
      with ord have "ord \<in> set others" by (simp add: others_def)
      then obtain i where "i < length others" "ord = others ! i" by (metis in_set_conv_nth)
      with fill(4) [of i] sum [of i] show ?thesis by simp
    qed (simp add: gone [OF ord])
  qed
  show "sorted_wrt R (map maker_order_id ts)" if "sorted_wrt R (map order_id os)"
  proof -
    have "sorted_wrt R (map order_id others)"
      using that unfolding others_def sorted_wrt_map by (rule sorted_wrt_filter)
    then have "sorted_wrt R (map (\<lambda>j. map order_id others ! j) (map order_index fs))"
      by (rule sorted_wrt_pick) (use fs(1) idx in auto)
    moreover have "map (\<lambda>j. map order_id others ! j) (map order_index fs) = map maker_order_id ts"
      unfolding makers using idx by simp
    ultimately show ?thesis by simp
  qed
qed

section \<open>A sweep\<close>

lemma sweep_settles:
  assumes "matching_algorithm M lot" and "lot \<noteq> 0"
    and "spec_sweep M now limit L tk = (ts, cs, tk', L')" and "tradable_ladder lot L"
    and "is_multiple_of (base (remaining_quantity tk)) lot" and "distinct (map order_id (ladder_orders L))"
  shows "L' = settle ts cs L \<and> (\<forall>ord\<in>set (ladder_orders L). traded_to ts (order_id ord) \<le> units (remaining_quantity ord)) \<and>
    (\<forall>i\<in>set cs. traded_to ts i = 0) \<and> maker_order_id ` set ts \<subseteq> order_id ` set (ladder_orders L) \<and>
    set cs \<subseteq> order_id ` set (ladder_orders L)"
  using assms
proof (induction M now limit L tk arbitrary: ts cs tk' L' rule: spec_sweep.induct)
  case (1 M now limit tk)
  then show ?case by auto
next
  case (2 M now limit p os L tk)
  show ?case
  proof (cases "remaining_quantity tk = 0 \<or> \<not> crosses_limit (order_side tk) limit p")
    case True
    with "2.prems"(3) have "ts = []" "cs = []" "L' = (p, os) # L" by auto
    with settle_none [OF "2.prems"(4)] show ?thesis by simp
  next
    case False
    obtain ts1 cs1 tk1 os1 where level: "spec_level M now p os tk = (ts1, cs1, tk1, os1)"
      by (cases "spec_level M now p os tk") auto
    have os: "tradable_level lot os" "tradable_ladder lot L" using "2.prems"(4) by simp_all
    have ids: "distinct (map order_id os)" "distinct (map order_id (ladder_orders L))"
      "order_id ` set os \<inter> order_id ` set (ladder_orders L) = {}" using "2.prems"(6) by auto
    note one = level_settles [OF "2.prems"(1,2) os(1) "2.prems"(5) level ids(1)]
    have skip: "settle ts1 cs1 L = L"
      by (rule settle_id [OF os(2)]) (use one(4,5) ids(3) in blast)
    show ?thesis
    proof (cases "os1 = []")
      case nonempty: False
      then have res: "ts = ts1" "cs = cs1" "L' = (p, os1) # L" using "2.prems"(3) False level by simp_all
      have "traded_to ts1 (order_id ord) = 0" if "ord \<in> set (ladder_orders L)" for ord
        by (rule traded_to_absent) (use one(4) ids(3) that in blast)
      with res one skip nonempty show ?thesis by auto
    next
      case True
      obtain ts2 cs2 tk2 L2 where rest: "spec_sweep M now limit L tk1 = (ts2, cs2, tk2, L2)"
        by (cases "spec_sweep M now limit L tk1") auto
      have res: "ts = ts1 @ ts2" "cs = cs1 @ cs2" "L' = L2" using "2.prems"(3) False level True rest by simp_all
      have "is_multiple_of (base (remaining_quantity tk1)) lot"
        by (rule spec_level_facts(7) [OF "2.prems"(1,2) os(1) "2.prems"(5) level])
      then have IH: "L2 = settle ts2 cs2 L" "\<forall>ord\<in>set (ladder_orders L). traded_to ts2 (order_id ord) \<le> units (remaining_quantity ord)"
        "\<forall>i\<in>set cs2. traded_to ts2 i = 0" "maker_order_id ` set ts2 \<subseteq> order_id ` set (ladder_orders L)"
        "set cs2 \<subseteq> order_id ` set (ladder_orders L)"
        using "2.IH" [OF False level [symmetric] refl refl refl True "2.prems"(1,2) rest os(2) _ ids(2)] by blast+
      have low: "traded_to ts1 i = 0" "i \<notin> set cs1" if "i \<in> order_id ` set (ladder_orders L)" for i
        by (rule traded_to_absent, use one(4) ids(3) that in blast, use one(5) ids(3) that in blast)
      have high: "traded_to ts2 i = 0" "i \<notin> set cs2" if "i \<in> order_id ` set os" for i
        by (rule traded_to_absent, use IH(4) ids(3) that in blast, use IH(5) ids(3) that in blast)
      have "settle_level (ts1 @ ts2) (cs1 @ cs2) os = settle_level ts1 cs1 os"
        by (rule settle_level_cong) (use high in auto)
      moreover have "settle (ts1 @ ts2) (cs1 @ cs2) L = settle ts2 cs2 L"
        by (rule settle_cong) (use low in auto)
      ultimately have "L' = settle ts cs ((p, os) # L)" using res IH(1) one(1) True by simp
      moreover have "\<forall>ord\<in>set (ladder_orders ((p, os) # L)). traded_to ts (order_id ord) \<le> units (remaining_quantity ord)"
        using one(2) IH(2) low high res(1) by auto
      moreover have "\<forall>i\<in>set cs. traded_to ts i = 0"
        using one(3,5) IH(3,5) low(1) high(1) by (auto simp: res(1,2))
      ultimately show ?thesis using one(4,5) IH(4,5) by (auto simp: res(1,2))
    qed
  qed
qed

text \<open>Every trade is for whole lots.\<close>

lemma level_lots:
  assumes "matching_algorithm M lot" and "lot \<noteq> 0" and os: "tradable_level lot os"
    and tk: "is_multiple_of (base (remaining_quantity tk)) lot"
    and run: "spec_level M now p os tk = (ts, cs, tk', os')"
  shows "\<forall>t\<in>set ts. is_multiple_of (base (trade_quantity t)) lot"
proof
  fix t assume t: "t \<in> set ts"
  define others where "others = filter (\<lambda>ord. client ord \<noteq> client tk) os"
  define fs where "fs = allocate M (remaining_quantity tk) (map maker_of others) now"
  obtain os2 where fill: "fill_orders p fs others tk = (ts, os2, tk')"
    using run by (auto simp: spec_level_def others_def fs_def Let_def split: prod.splits)
  have "alloc_inputs_ok lot (remaining_quantity tk) (map maker_of others)"
    by (rule alloc_inputs_level [OF assms(2) tk])
      (use os le_less_trans [OF length_filter_le] in \<open>auto simp: tradable_level_def others_def\<close>)
  from matching_algorithm.allocate_ok [OF assms(1) this]
  have "fills_ok fs (remaining_quantity tk) (map maker_of others) lot" by (simp add: fs_def)
  note fs = fills_okD [OF this]
  have "distinct (map order_index fs)" using fs(1) by (simp add: strict_sorted_iff)
  note all2 = fill_orders_trades [OF fill this]
  from t obtain j where "j < length ts" "t = ts ! j" by (auto simp: in_set_conv_nth)
  with list_all2_nthD [OF all2] list_all2_lengthD [OF all2] have "trade_quantity t = fill_quantity (fs ! j)" "fs ! j \<in> set fs"
    by auto
  with fs(5) show "is_multiple_of (base (trade_quantity t)) lot" by simp
qed

lemma sweep_lots:
  "matching_algorithm M lot \<Longrightarrow> lot \<noteq> 0 \<Longrightarrow> spec_sweep M now limit L tk = (ts, cs, tk', L') \<Longrightarrow> tradable_ladder lot L \<Longrightarrow>
     is_multiple_of (base (remaining_quantity tk)) lot \<Longrightarrow> \<forall>t\<in>set ts. is_multiple_of (base (trade_quantity t)) lot"
proof (induction M now limit L tk arbitrary: ts cs tk' L' rule: spec_sweep.induct)
  case (2 M now limit p os L tk)
  show ?case
  proof (cases "remaining_quantity tk = 0 \<or> \<not> crosses_limit (order_side tk) limit p")
    case True
    with "2.prems"(3) show ?thesis by auto
  next
    case False
    obtain ts1 cs1 tk1 os1 where level: "spec_level M now p os tk = (ts1, cs1, tk1, os1)"
      by (cases "spec_level M now p os tk") auto
    have os: "tradable_level lot os" "tradable_ladder lot L" using "2.prems"(4) by simp_all
    note one = level_lots [OF "2.prems"(1,2) os(1) "2.prems"(5) level]
    show ?thesis
    proof (cases "os1 = []")
      case nonempty: False
      with "2.prems"(3) False level one show ?thesis by auto
    next
      case True
      obtain ts2 cs2 tk2 L2 where rest: "spec_sweep M now limit L tk1 = (ts2, cs2, tk2, L2)"
        by (cases "spec_sweep M now limit L tk1") auto
      have "ts = ts1 @ ts2" using "2.prems"(3) False level True rest by simp
      moreover have "is_multiple_of (base (remaining_quantity tk1)) lot"
        by (rule spec_level_facts(7) [OF "2.prems"(1,2) os(1) "2.prems"(5) level])
      then have "\<forall>t\<in>set ts2. is_multiple_of (base (trade_quantity t)) lot"
        using "2.IH" [OF False level [symmetric] refl refl refl True "2.prems"(1,2) rest os(2)] by blast
      ultimately show ?thesis using one by auto
    qed
  qed
qed simp

text \<open>Queue order: whatever orders every queue orders the makers of the trades at one price.\<close>

lemma sweep_queue_order:
  assumes "matching_algorithm M lot" and "lot \<noteq> 0"
    and "spec_sweep M now limit L tk = (ts, cs, tk', L')" and "tradable_ladder lot L"
    and "is_multiple_of (base (remaining_quantity tk)) lot" and "distinct (map order_id (ladder_orders L))"
    and "ladder_sorted sd L" and "\<forall>(p, os)\<in>set L. sorted_wrt R (map order_id os)"
  shows "sorted_wrt (\<lambda>t t'. trade_price t = trade_price t' \<longrightarrow> R (maker_order_id t) (maker_order_id t')) ts"
  using assms
proof (induction M now limit L tk arbitrary: ts cs tk' L' rule: spec_sweep.induct)
  case (1 M now limit tk)
  then show ?case by auto
next
  case (2 M now limit p os L tk)
  show ?case
  proof (cases "remaining_quantity tk = 0 \<or> \<not> crosses_limit (order_side tk) limit p")
    case True
    with "2.prems"(3) show ?thesis by auto
  next
    case False
    obtain ts1 cs1 tk1 os1 where level: "spec_level M now p os tk = (ts1, cs1, tk1, os1)"
      by (cases "spec_level M now p os tk") auto
    have os: "tradable_level lot os" "tradable_ladder lot L" using "2.prems"(4) by simp_all
    have ids: "distinct (map order_id os)" "distinct (map order_id (ladder_orders L))" using "2.prems"(6) by auto
    note facts = spec_level_facts [OF "2.prems"(1,2) os(1) "2.prems"(5) level]
    have "sorted_wrt R (map maker_order_id ts1)"
      by (rule level_settles(6) [OF "2.prems"(1,2) os(1) "2.prems"(5) level ids(1)]) (use "2.prems"(8) in auto)
    then have one: "sorted_wrt (\<lambda>t t'. trade_price t = trade_price t' \<longrightarrow> R (maker_order_id t) (maker_order_id t')) ts1"
      unfolding sorted_wrt_map by (rule sorted_wrt_mono_rel [rotated]) simp
    show ?thesis
    proof (cases "os1 = []")
      case nonempty: False
      with "2.prems"(3) False level one show ?thesis by simp
    next
      case True
      obtain ts2 cs2 tk2 L2 where rest: "spec_sweep M now limit L tk1 = (ts2, cs2, tk2, L2)"
        by (cases "spec_sweep M now limit L tk1") auto
      have res: "ts = ts1 @ ts2" using "2.prems"(3) False level True rest by simp
      have sorted: "ladder_sorted sd L" "p \<notin> fst ` set L" using "2.prems"(7) ladder_sorted_distinct [OF "2.prems"(7)]
        by (auto simp: ladder_sorted_def)
      have two: "sorted_wrt (\<lambda>t t'. trade_price t = trade_price t' \<longrightarrow> R (maker_order_id t) (maker_order_id t')) ts2"
        by (rule "2.IH" [OF False level [symmetric] refl refl refl True "2.prems"(1,2) rest os(2) facts(7) ids(2) sorted(1)])
          (use "2.prems"(8) in auto)
      have "trade_price t \<in> fst ` set L" if "t \<in> set ts2" for t
        using sweep_okD(4) [OF conjunct1 [OF spec_sweep_ok [OF "2.prems"(1,2) rest os(2) sorted(1) facts(7)]]] that
        by (force simp: trade_ok_def)
      with facts(6) sorted(2) one two show ?thesis by (auto simp: res sorted_wrt_append)
    qed
  qed
qed

section \<open>First come, first served\<close>

text \<open>
  Under \<open>FifoMatcher\<close> an order of a level trades only when every order before it is gone: cancelled
  for its client, or filled.
\<close>

definition front_first :: "trade list \<Rightarrow> exchange_id list \<Rightarrow> order list \<Rightarrow> bool" where
  "front_first ts cs os \<longleftrightarrow> sorted_wrt (\<lambda>x y. traded_to ts (order_id y) = 0 \<or> order_id x \<in> set cs \<or>
     units (remaining_quantity x) \<le> traded_to ts (order_id x)) os"

lemma front_first_cong:
  assumes "front_first ts cs os" and "\<forall>x\<in>set os. traded_to ts' (order_id x) = traded_to ts (order_id x)"
    and "set cs \<subseteq> set cs'"
  shows "front_first ts' cs' os"
  using assms(1) unfolding front_first_def by (rule sorted_wrt_mono_rel [rotated]) (use assms(2,3) in auto)

lemma front_first_untouched: "\<forall>x\<in>set os. traded_to ts (order_id x) = 0 \<Longrightarrow> front_first ts cs os"
  unfolding front_first_def by (induction os) simp_all

lemma sorted_wrt_of_filter:
  assumes "sorted_wrt R (filter P xs)" and "\<And>x y. x \<in> set xs \<Longrightarrow> y \<in> set xs \<Longrightarrow> \<not> P x \<or> \<not> P y \<Longrightarrow> R x y"
  shows "sorted_wrt R xs"
  using assms
proof (induction xs)
  case (Cons x xs)
  then have "sorted_wrt R xs" by (auto split: if_splits)
  moreover have "R x y" if "y \<in> set xs" for y
    using that Cons.prems(1) Cons.prems(2) [of x y] by (cases "P x \<and> P y") auto
  ultimately show ?case by simp
qed simp

lemma total_units_take:
  assumes "i < j" and "j \<le> length ms"
  shows "total_units (take i ms) + units (maker_remaining (ms ! i)) \<le> total_units (take j ms)"
proof -
  have "take j ms = take i ms @ ms ! i # drop (Suc i) (take j ms)"
    using id_take_nth_drop [of i "take j ms"] assms by simp
  then have "total_units (take j ms) = total_units (take i ms @ ms ! i # drop (Suc i) (take j ms))" by simp
  also have "\<dots> = total_units (take i ms) + units (maker_remaining (ms ! i)) + total_units (drop (Suc i) (take j ms))"
    by (simp add: total_units_def)
  finally show ?thesis by simp
qed

lemma fifo_level_first:
  assumes "lot \<noteq> 0" and "tradable_level lot os" and "is_multiple_of (base (remaining_quantity tk)) lot"
    and "spec_level fifo_matcher now p os tk = (ts, cs, tk', os')" and "distinct (map order_id os)"
  shows "front_first ts cs os"
  unfolding front_first_def
proof (rule sorted_wrt_of_filter [where P = "\<lambda>ord. client ord \<noteq> client tk"])
  let ?others = "filter (\<lambda>ord. client ord \<noteq> client tk) os"
  let ?ms = "map maker_of ?others"
  note level = level_traded [OF fifo.matching_algorithm_axioms assms]
  have filled: "filled_at (allocate fifo_matcher (remaining_quantity tk) ?ms now) i =
      min (units (maker_remaining (?ms ! i))) (units (remaining_quantity tk) - total_units (take i ?ms))"
    if "i < length ?others" for i
    using filled_at_collect_shares [of i "fifo_shares (remaining_quantity tk) ?ms"] nth_fifo_shares [of i ?ms] that
    by (simp add: fifo_matcher_def fifo_loop_collect flip: collect_shares_def)
  show "sorted_wrt (\<lambda>x y. traded_to ts (order_id y) = 0 \<or> order_id x \<in> set cs \<or>
     units (remaining_quantity x) \<le> traded_to ts (order_id x)) ?others"
    unfolding sorted_wrt_iff_nth_less
  proof (intro allI impI)
    fix i j assume ij: "i < j" "j < length ?others"
    then have "total_units (take i ?ms) + units (maker_remaining (?ms ! i)) \<le> total_units (take j ?ms)"
      by (intro total_units_take) simp_all
    with ij filled [of i] filled [of j] level(4) [of i] level(4) [of j]
    show "traded_to ts (order_id (?others ! j)) = 0 \<or> order_id (?others ! i) \<in> set cs \<or>
      units (remaining_quantity (?others ! i)) \<le> traded_to ts (order_id (?others ! i))"
      by (simp add: maker_of_def) linarith
  qed
next
  fix x y assume xy: "x \<in> set os" "y \<in> set os" "\<not> client x \<noteq> client tk \<or> \<not> client y \<noteq> client tk"
  note level = level_traded(2) [OF fifo.matching_algorithm_axioms assms]
    and zero = level_settles(3) [OF fifo.matching_algorithm_axioms assms]
  from xy(3) show "traded_to ts (order_id y) = 0 \<or> order_id x \<in> set cs \<or> units (remaining_quantity x) \<le> traded_to ts (order_id x)"
  proof
    assume "\<not> client x \<noteq> client tk"
    with xy(1) level show ?thesis by auto
  next
    assume "\<not> client y \<noteq> client tk"
    with xy(2) level zero show ?thesis by auto
  qed
qed

lemma fifo_sweep_first:
  assumes "lot \<noteq> 0" and "spec_sweep fifo_matcher now limit L tk = (ts, cs, tk', L')" and "tradable_ladder lot L"
    and "is_multiple_of (base (remaining_quantity tk)) lot" and "distinct (map order_id (ladder_orders L))"
  shows "\<forall>(p, os)\<in>set L. front_first ts cs os"
  using assms
proof (induction fifo_matcher now limit L tk arbitrary: ts cs tk' L' rule: spec_sweep.induct)
  case (2 now limit p os L tk)
  note M = fifo.matching_algorithm_axioms [of lot]
  show ?case
  proof (cases "remaining_quantity tk = 0 \<or> \<not> crosses_limit (order_side tk) limit p")
    case True
    with "2.prems"(2) have "ts = []" by auto
    then show ?thesis by (auto intro: front_first_untouched)
  next
    case False
    obtain ts1 cs1 tk1 os1 where level: "spec_level fifo_matcher now p os tk = (ts1, cs1, tk1, os1)"
      by (cases "spec_level fifo_matcher now p os tk") auto
    have os: "tradable_level lot os" "tradable_ladder lot L" using "2.prems"(3) by simp_all
    have ids: "distinct (map order_id os)" "distinct (map order_id (ladder_orders L))"
      "order_id ` set os \<inter> order_id ` set (ladder_orders L) = {}" using "2.prems"(5) by auto
    note one = level_settles [OF M "2.prems"(1) os(1) "2.prems"(4) level ids(1)]
      and first = fifo_level_first [OF "2.prems"(1) os(1) "2.prems"(4) level ids(1)]
    have low: "traded_to ts1 (order_id x) = 0" if "(q, qs) \<in> set L" "x \<in> set qs" for q qs x
    proof (rule traded_to_absent)
      have "order_id x \<in> order_id ` set (ladder_orders L)" using that by (force simp: ladder_orders_def)
      with one(4) ids(3) show "order_id x \<notin> maker_order_id ` set ts1" by blast
    qed
    show ?thesis
    proof (cases "os1 = []")
      case nonempty: False
      with "2.prems"(2) False level have "ts = ts1" "cs = cs1" by simp_all
      with first low show ?thesis by (auto intro!: front_first_untouched)
    next
      case True
      obtain ts2 cs2 tk2 L2 where rest: "spec_sweep fifo_matcher now limit L tk1 = (ts2, cs2, tk2, L2)"
        by (cases "spec_sweep fifo_matcher now limit L tk1") auto
      have res: "ts = ts1 @ ts2" "cs = cs1 @ cs2" using "2.prems"(2) False level True rest by simp_all
      have lot: "is_multiple_of (base (remaining_quantity tk1)) lot"
        by (rule spec_level_facts(7) [OF M "2.prems"(1) os(1) "2.prems"(4) level])
      have IH: "\<forall>(p, os)\<in>set L. front_first ts2 cs2 os"
        by (rule "2.hyps" [OF False level [symmetric] refl refl refl True "2.prems"(1) rest os(2) lot ids(2)])
      have high: "traded_to ts2 (order_id x) = 0" if "x \<in> set os" for x
      proof (rule traded_to_absent)
        have "maker_order_id ` set ts2 \<subseteq> order_id ` set (ladder_orders L)"
          using sweep_settles [OF M "2.prems"(1) rest os(2) lot ids(2)] by blast
        with ids(3) that show "order_id x \<notin> maker_order_id ` set ts2" by blast
      qed
      have "front_first ts cs os" by (rule front_first_cong [OF first]) (use high in \<open>auto simp: res\<close>)
      moreover have "front_first ts cs qs" if "(q, qs) \<in> set L" for q qs
        by (rule front_first_cong [of ts2 cs2]) (use IH that low [OF that] in \<open>auto simp: res\<close>)
      ultimately show ?thesis by auto
    qed
  qed
qed simp

end
