(* ===== verification/Executions.thy ===== *)
theory Executions
  imports Settlement Stream_Agreement
begin

text \<open>
  Submissions execution by execution: what one run of an order does to the book, as its report tells
  it; and a submission as the sequence of the runs it reports, the order's own and those of the stops
  it fires.
\<close>

section \<open>One run\<close>

text \<open>An order that is no stop runs on a well-formed book: what the engine knows before each run.\<close>

definition executes :: "abs_book \<Rightarrow> order \<Rightarrow> execution_report \<Rightarrow> abs_book \<Rightarrow> bool" where
  "executes ab ord r ab' \<longleftrightarrow> abs_ok ab \<and> distinct (map order_id (ab_orders ab)) \<and> on_lattice (ab_spec ab) ord \<and>
     admit_under (ab_spec ab) ord = Inr () \<and> \<not> is_live ab (order_id ord) \<and> \<not> is_stop ord \<and> spec_run ab ord = (Inr r, ab')"

definition came_to_rest :: "execution_report \<Rightarrow> bool" where
  "came_to_rest r \<longleftrightarrow> report_outcome r = Rested \<or> report_outcome r = PartiallyFilledAndRested"

text \<open>What is left of the taker, and what the sides are, by the report.\<close>

definition left_over :: "order \<Rightarrow> execution_report \<Rightarrow> order" where
  "left_over ord r = ord\<lparr>remaining_quantity :=
     Qty (of_nat (units (remaining_quantity ord) - traded_units (report_trades r)))\<rparr>"

definition after_report :: "abs_book \<Rightarrow> order \<Rightarrow> execution_report \<Rightarrow> side \<Rightarrow> ladder" where
  "after_report ab ord r sd =
     (let L = settle (report_trades r) (report_cancelled r) (ab_sides ab sd)
      in if came_to_rest r \<and> sd = order_side ord
         then rest_at sd (the (limit_price (otype ord))) ((left_over ord r)\<lparr>arrival := ab_arrival ab\<rparr>) L else L)"

definition outcome_ok :: "order \<Rightarrow> execution_report \<Rightarrow> bool" where
  "outcome_ok ord r \<longleftrightarrow>
     (case report_outcome r of
        Completed \<Rightarrow> traded_units (report_trades r) = units (remaining_quantity ord)
      | Rested \<Rightarrow> report_trades r = [] \<and> (\<exists>p. otype ord = Limit p GTC)
      | PartiallyFilledAndRested \<Rightarrow> report_trades r \<noteq> [] \<and> (\<exists>p. otype ord = Limit p GTC) \<and>
          traded_units (report_trades r) < units (remaining_quantity ord)
      | Killed \<Rightarrow> traded_units (report_trades r) < units (remaining_quantity ord) \<and> (\<forall>p. otype ord \<noteq> Limit p GTC) \<and>
          (\<forall>p. otype ord = Limit p FOK \<longrightarrow> report_trades r = [] \<and> report_cancelled r = [])
      | StopPending \<Rightarrow> False)"

text \<open>What a fill of the book reports, whatever made it.\<close>

definition fill_story ::
    "abs_book \<Rightarrow> order \<Rightarrow> price option \<Rightarrow> trade list \<Rightarrow> exchange_id list \<Rightarrow> order \<Rightarrow> ladder \<Rightarrow> bool" where
  "fill_story ab ord limit ts cs tk L' \<longleftrightarrow>
     (let L = ab_sides ab (opposite (order_side ord)) in
        L' = settle ts cs L \<and> (\<forall>x\<in>set (ladder_orders L). traded_to ts (order_id x) \<le> units (remaining_quantity x)) \<and>
        (\<forall>i\<in>set cs. traded_to ts i = 0) \<and> maker_order_id ` set ts \<subseteq> order_id ` set (ladder_orders L) \<and>
        set cs \<subseteq> order_id ` set (ladder_orders L) \<and> (\<forall>t\<in>set ts. trade_ok limit L ord t) \<and>
        sorted_wrt (\<lambda>t t'. trade_price t = trade_price t' \<or> better (opposite (order_side ord)) (trade_price t) (trade_price t')) ts \<and>
        traded_units ts + units (remaining_quantity tk) = units (remaining_quantity ord) \<and>
        (\<exists>q. tk = ord\<lparr>remaining_quantity := q\<rparr>) \<and>
        (\<forall>R. (\<forall>(p, os)\<in>set L. sorted_wrt R (map order_id os)) \<longrightarrow>
           sorted_wrt (\<lambda>t t'. trade_price t = trade_price t' \<longrightarrow> R (maker_order_id t) (maker_order_id t')) ts) \<and>
        (ab_matcher ab = fifo_matcher \<longrightarrow> (\<forall>(p, os)\<in>set L. front_first ts cs os)) \<and>
        (\<exists>gone. cs = map order_id gone \<and> set gone \<subseteq> set (ladder_orders L) \<and>
           order_units (ladder_orders L) = order_units (ladder_orders L') + traded_units ts + order_units gone) \<and>
        (\<forall>t\<in>set ts. is_multiple_of (base (trade_quantity t)) (lot_size (ab_spec ab))))"

lemma fill_tells:
  assumes "abs_ok ab" and "distinct (map order_id (ab_orders ab))"
    and lot: "is_multiple_of (base (remaining_quantity ord)) (lot_size (ab_spec ab))"
    and fill: "spec_fill ab limit ord = (ts, cs, tk, ab1)"
  shows "fill_story ab ord limit ts cs tk (ab_sides ab1 (opposite (order_side ord)))"
    and "ab1 = ab\<lparr>ab_sides := (ab_sides ab)(opposite (order_side ord) := ab_sides ab1 (opposite (order_side ord)))\<rparr>"
proof -
  let ?sd = "opposite (order_side ord)"
  obtain L' where sweep: "spec_sweep (ab_matcher ab) (ucast (ab_arrival ab)) limit (ab_sides ab ?sd) ord = (ts, cs, tk, L')"
    and ab1: "ab1 = ab\<lparr>ab_sides := (ab_sides ab)(?sd := L')\<rparr>"
    using fill by (auto simp: spec_fill_def Let_def split: prod.splits)
  have M: "matching_algorithm (ab_matcher ab) (lot_size (ab_spec ab))" "lot_size (ab_spec ab) \<noteq> 0"
    and L: "ladder_sorted ?sd (ab_sides ab ?sd)" "tradable_ladder (lot_size (ab_spec ab)) (ab_sides ab ?sd)"
    using assms(1) by (simp_all add: abs_ok_def)
  have ids: "distinct (map order_id (ladder_orders (ab_sides ab ?sd)))"
    using assms(2) by (cases ?sd) (simp_all add: ab_orders_def)
  note settles = sweep_settles [OF M sweep L(2) lot ids] and lots = sweep_lots [OF M sweep L(2) lot] and ok = sweep_okD [OF spec_fill_facts(1) [OF assms(1) lot fill]]
    and order = sweep_queue_order [OF M sweep L(2) lot ids L(1)]
  have "\<forall>(p, os)\<in>set (ab_sides ab ?sd). front_first ts cs os" if "ab_matcher ab = fifo_matcher"
    by (rule fifo_sweep_first [OF M(2) sweep [unfolded that] L(2) lot ids])
  moreover have gone: "\<exists>gone. cs = map order_id gone \<and> set gone \<subseteq> set (ladder_orders (ab_sides ab ?sd)) \<and>
      order_units (ladder_orders (ab_sides ab ?sd)) = order_units (ladder_orders L') + traded_units ts + order_units gone"
    using ok(2) by (auto simp: ab1)
  ultimately show "fill_story ab ord limit ts cs tk (ab_sides ab1 ?sd)"
    unfolding fill_story_def Let_def
    using settles lots ok(1,3,4) gone spec_sweep_taker [OF sweep] order by (simp add: ab1)
  show "ab1 = ab\<lparr>ab_sides := (ab_sides ab)(?sd := ab_sides ab1 ?sd)\<rparr>" by (simp add: ab1)
qed

lemma no_fill_tells:
  assumes "abs_ok ab"
  shows "fill_story ab ord limit [] [] ord (ab_sides ab (opposite (order_side ord)))"
proof -
  have "settle [] [] (ab_sides ab (opposite (order_side ord))) = ab_sides ab (opposite (order_side ord))"
    by (rule settle_none [of "lot_size (ab_spec ab)"]) (use assms in \<open>simp add: abs_ok_def\<close>)
  moreover have "\<exists>q. ord = ord\<lparr>remaining_quantity := q\<rparr>" by (rule exI [of _ "remaining_quantity ord"]) simp
  ultimately show ?thesis by (simp add: fill_story_def front_first_untouched split_beta)
qed

lemma fill_storyD:
  assumes "fill_story ab ord limit ts cs tk L'"
  defines "L \<equiv> ab_sides ab (opposite (order_side ord))"
  shows "L' = settle ts cs L" and "\<forall>x\<in>set (ladder_orders L). traded_to ts (order_id x) \<le> units (remaining_quantity x)"
    and "\<forall>i\<in>set cs. traded_to ts i = 0" and "maker_order_id ` set ts \<subseteq> order_id ` set (ladder_orders L)"
    and "set cs \<subseteq> order_id ` set (ladder_orders L)" and "\<forall>t\<in>set ts. trade_ok limit L ord t"
    and "sorted_wrt (\<lambda>t t'. trade_price t = trade_price t' \<or> better (opposite (order_side ord)) (trade_price t) (trade_price t')) ts"
    and "traded_units ts + units (remaining_quantity tk) = units (remaining_quantity ord)"
    and "\<exists>q. tk = ord\<lparr>remaining_quantity := q\<rparr>"
    and "\<forall>(p, os)\<in>set L. sorted_wrt R (map order_id os) \<Longrightarrow>
      sorted_wrt (\<lambda>t t'. trade_price t = trade_price t' \<longrightarrow> R (maker_order_id t) (maker_order_id t')) ts"
    and "ab_matcher ab = fifo_matcher \<Longrightarrow> \<forall>(p, os)\<in>set L. front_first ts cs os"
    and "\<exists>gone. cs = map order_id gone \<and> set gone \<subseteq> set (ladder_orders L) \<and>
      order_units (ladder_orders L) = order_units (ladder_orders L') + traded_units ts + order_units gone"
    and "\<forall>t\<in>set ts. is_multiple_of (base (trade_quantity t)) (lot_size (ab_spec ab))"
  using assms(1) unfolding fill_story_def Let_def L_def by blast+

lemma story_left_over:
  assumes "fill_story ab ord limit (report_trades r) cs tk L'"
  shows "tk = left_over ord r"
proof -
  obtain q where tk: "tk = ord\<lparr>remaining_quantity := q\<rparr>" using fill_storyD(9) [OF assms] by blast
  have units: "units (remaining_quantity ord) - traded_units (report_trades r) = units q"
    using fill_storyD(8) [OF assms] by (simp add: tk flip: diff_add_inverse)
  show ?thesis unfolding left_over_def units by (cases q) (simp add: tk)
qed

lemma opposite_other: "sd \<noteq> opposite sd'" if "sd = sd'" for sd sd'
  using that by (cases sd') simp_all

lemma other_side_settles:
  assumes "abs_ok ab" and "distinct (map order_id (ab_orders ab))" and "fill_story ab ord limit ts cs tk L'"
  shows "settle ts cs (ab_sides ab (order_side ord)) = ab_sides ab (order_side ord)"
proof (rule settle_id)
  show "tradable_ladder (lot_size (ab_spec ab)) (ab_sides ab (order_side ord))" using assms(1) by (simp add: abs_ok_def)
  have "order_id ` set (ladder_orders (ab_sides ab (order_side ord))) \<inter>
      order_id ` set (ladder_orders (ab_sides ab (opposite (order_side ord)))) = {}"
    using assms(2) by (cases "order_side ord") (auto simp: ab_orders_def)
  with fill_storyD(4,5) [OF assms(3)]
  show "\<forall>x\<in>set (ladder_orders (ab_sides ab (order_side ord))). order_id x \<notin> maker_order_id ` set ts \<and> order_id x \<notin> set cs"
    by blast
qed

text \<open>The sides after a run are read off its report.\<close>

lemma story_sides:
  assumes "abs_ok ab" and "distinct (map order_id (ab_orders ab))"
    and "fill_story ab ord limit (report_trades r) (report_cancelled r) tk L'"
    and "came_to_rest r \<Longrightarrow> limit_price (otype ord) = Some p"
  shows "after_report ab ord r = (if came_to_rest r
    then ((ab_sides ab)(opposite (order_side ord) := L'))(order_side ord :=
      rest_at (order_side ord) p (tk\<lparr>arrival := ab_arrival ab\<rparr>) (ab_sides ab (order_side ord)))
    else (ab_sides ab)(opposite (order_side ord) := L'))"
proof
  fix sd
  note L' = fill_storyD(1) [OF assms(3)] and own = other_side_settles [OF assms(1-3)]
  consider "sd = order_side ord" | "sd = opposite (order_side ord)" by (cases sd; cases "order_side ord") auto
  then show "after_report ab ord r sd = (if came_to_rest r
    then ((ab_sides ab)(opposite (order_side ord) := L'))(order_side ord :=
      rest_at (order_side ord) p (tk\<lparr>arrival := ab_arrival ab\<rparr>) (ab_sides ab (order_side ord)))
    else (ab_sides ab)(opposite (order_side ord) := L')) sd"
  proof cases
    case 1
    with assms(4) opposite_other [of sd "order_side ord"] own story_left_over [OF assms(3)] show ?thesis
      by (simp add: after_report_def Let_def)
  next
    case 2
    then have "sd \<noteq> order_side ord" by (cases "order_side ord") auto
    with 2 L' show ?thesis by (simp add: after_report_def Let_def)
  qed
qed

lemma fok_fills:
  assumes "abs_ok ab" and "is_multiple_of (base (remaining_quantity ord)) (lot_size (ab_spec ab))"
    and "spec_fill ab (Some p) ord = (ts, cs, tk, ab1)"
    and "\<not> spec_fillable ord p (ab_sides ab (opposite (order_side ord))) 0 < remaining_quantity ord"
  shows "remaining_quantity tk = 0"
proof -
  let ?L = "ab_sides ab (opposite (order_side ord))"
  obtain L' where sweep: "spec_sweep (ab_matcher ab) (ucast (ab_arrival ab)) (Some p) ?L ord = (ts, cs, tk, L')"
    using assms(3) by (auto simp: spec_fill_def Let_def split: prod.splits)
  have "traded_units ts = min (units (remaining_quantity ord)) (crossing_units ord (Some p) ?L)"
    by (rule sweep_fills [OF _ _ sweep _ assms(2)]) (use assms(1) in \<open>simp_all add: abs_ok_def\<close>)
  moreover have "units (remaining_quantity ord) \<le> crossing_units ord (Some p) ?L"
    using assms(4) fillable_sound [of ord p ?L 0] by (simp add: not_less qty_le_units)
  ultimately have "traded_units ts = units (remaining_quantity ord)" by simp
  with sweep_okD(1) [OF spec_fill_facts(1) [OF assms(1-3)]] show ?thesis by simp
qed

text \<open>Everything the report of a run tells.\<close>

definition run_shape :: "abs_book \<Rightarrow> order \<Rightarrow> execution_report \<Rightarrow> abs_book \<Rightarrow> bool" where
  "run_shape ab ord r ab' \<longleftrightarrow> (\<exists>tk L' p.
     fill_story ab ord (limit_price (otype ord)) (report_trades r) (report_cancelled r) tk L' \<and>
     (came_to_rest r \<longrightarrow> limit_price (otype ord) = Some p) \<and>
     ab_sides ab' = (if came_to_rest r
       then ((ab_sides ab)(opposite (order_side ord) := L'))(order_side ord :=
         rest_at (order_side ord) p (tk\<lparr>arrival := ab_arrival ab\<rparr>) (ab_sides ab (order_side ord)))
       else (ab_sides ab)(opposite (order_side ord) := L')) \<and>
     outcome_ok ord r \<and> report_id r = order_id ord \<and> report_triggered r = [])"

lemma run_shape_finish:
  assumes "fill_story ab ord (limit_price (otype ord)) ts cs tk L'"
    and "spec_finish (order_id ord) res = (Inr r, ab')"
    and "res = (Inr \<lparr>result_trades = ts, result_cancelled = cs, result_outcome = out\<rparr>, ab1)"
    and "out \<noteq> Rested" and "out \<noteq> PartiallyFilledAndRested"
    and "ab_sides ab1 = (ab_sides ab)(opposite (order_side ord) := L')"
    and "outcome_ok ord (ExecutionReport (order_id ord) ts out cs [])"
  shows "run_shape ab ord r ab'"
proof -
  have r: "r = ExecutionReport (order_id ord) ts out cs []" and "ab_sides ab' = ab_sides ab1"
    using assms(2,3) by (auto simp: spec_finish_def split: if_splits)
  moreover have "\<not> came_to_rest r" using assms(4,5) by (simp add: r came_to_rest_def)
  ultimately show ?thesis unfolding run_shape_def using assms(1,6,7)
    by (intro exI [of _ tk] exI [of _ L'] exI [of _ "Price 0"]) simp
qed

lemma run_shapes:
  assumes "executes ab ord r ab'"
  shows "run_shape ab ord r ab'"
proof -
  let ?sd = "order_side ord" and ?id = "order_id ord"
  have pre: "abs_ok ab" "distinct (map order_id (ab_orders ab))" "admit_under (ab_spec ab) ord = Inr ()"
    "\<not> is_live ab ?id" "\<not> is_stop ord" and run: "spec_run ab ord = (Inr r, ab')"
    and lot: "is_multiple_of (base (remaining_quantity ord)) (lot_size (ab_spec ab))" and some: "remaining_quantity ord \<noteq> 0"
    using assms by (simp_all add: executes_def on_lattice_def tradable_def)
  note tells = fill_tells [OF pre(1,2) lot]
  have pos: "0 < units (remaining_quantity ord)" using some units_eq_0_iff [of "remaining_quantity ord"] by simp
  have left: "remaining_quantity tk = 0 \<longleftrightarrow> traded_units ts = units (remaining_quantity ord)"
    "remaining_quantity tk \<noteq> 0 \<longleftrightarrow> traded_units ts < units (remaining_quantity ord)"
    if "spec_fill ab limit ord = (ts, cs, tk, ab1)" for limit ts cs tk ab1
    using fill_storyD(8) [OF tells(1) [OF that]] units_eq_0_iff [of "remaining_quantity tk"] by linarith+
  show ?thesis
  proof (cases "otype ord")
    case (Limit p tif)
    obtain ts cs tk ab1 where fill: "spec_fill ab (Some p) ord = (ts, cs, tk, ab1)"
      by (cases "spec_fill ab (Some p) ord") auto
    note story = tells(1) [OF fill] and ab1 = tells(2) [OF fill] and left = left [OF fill]
    have price: "limit_price (otype ord) = Some p" by (simp add: Limit)
    have sides: "ab_sides ab1 = (ab_sides ab)(opposite ?sd := ab_sides ab1 (opposite ?sd))"
      by (subst ab1) simp
    show ?thesis
    proof (cases "tif = FOK")
      case True
      then have finish: "spec_finish ?id (spec_fok ab ord p) = (Inr r, ab')" using run Limit by (simp add: spec_run_def)
      show ?thesis
      proof (cases "spec_fillable ord p (ab_sides ab (opposite ?sd)) 0 < remaining_quantity ord")
        case killed: True
        then have res: "spec_fok ab ord p = (Inr \<lparr>result_trades = [], result_cancelled = [], result_outcome = Killed\<rparr>, ab)"
          by (simp add: spec_fok_def)
        show ?thesis
          by (rule run_shape_finish [OF no_fill_tells [OF pre(1)] finish res])
            (use pos in \<open>simp_all add: outcome_ok_def Limit True\<close>)
      next
        case False
        then have res: "spec_fok ab ord p = (Inr \<lparr>result_trades = ts, result_cancelled = cs, result_outcome = Completed\<rparr>, ab1)"
          by (simp add: spec_fok_def fill)
        have "traded_units ts = units (remaining_quantity ord)" using fok_fills [OF pre(1) lot fill False] left(1) by blast
        then show ?thesis
          by (intro run_shape_finish [OF story [folded price] finish res _ _ sides]) (simp_all add: outcome_ok_def)
      qed
    next
      case notfok: False
      then have finish: "spec_finish ?id (spec_limit ab ord p tif) = (Inr r, ab')" using run Limit by (simp add: spec_run_def)
      show ?thesis
      proof (cases "remaining_quantity tk = 0")
        case True
        then have res: "spec_limit ab ord p tif = (Inr \<lparr>result_trades = ts, result_cancelled = cs, result_outcome = Completed\<rparr>, ab1)"
          by (simp add: spec_limit_def fill)
        show ?thesis
          by (rule run_shape_finish [OF story [folded price] finish res _ _ sides])
            (use left(1) True in \<open>simp_all add: outcome_ok_def\<close>)
      next
        case unfilled: False
        show ?thesis
        proof (cases tif)
          case IOC
          then have res: "spec_limit ab ord p tif = (Inr \<lparr>result_trades = ts, result_cancelled = cs, result_outcome = Killed\<rparr>, ab1)"
            using unfilled by (simp add: spec_limit_def fill)
          show ?thesis
            by (rule run_shape_finish [OF story [folded price] finish res _ _ sides])
              (use left(2) unfilled in \<open>simp_all add: outcome_ok_def Limit IOC\<close>)
        next
          case GTC
          let ?out = "if ts = [] then Rested else PartiallyFilledAndRested"
          note rest = rest_succeeds [OF pre(1) lot pre(3,4) Limit fill]
          have "spec_limit ab ord p tif = (Inr \<lparr>result_trades = ts, result_cancelled = cs, result_outcome = ?out\<rparr>,
              ab1\<lparr>ab_sides := (ab_sides ab1)(?sd := rest_at ?sd p (tk\<lparr>arrival := ab_arrival ab1\<rparr>) (ab_sides ab1 ?sd)),
                ab_arrival := ab_arrival ab1 + 1\<rparr>)"
            using unfilled GTC by (simp add: spec_limit_def fill rest)
          with finish have r: "r = ExecutionReport ?id ts ?out cs []"
            and after: "ab_sides ab' = (ab_sides ab1)(?sd := rest_at ?sd p (tk\<lparr>arrival := ab_arrival ab1\<rparr>) (ab_sides ab1 ?sd))"
            by (auto simp: spec_finish_def split: if_splits)
          have "ab_arrival ab1 = ab_arrival ab" by (subst ab1) simp
          moreover have "ab_sides ab1 ?sd = ab_sides ab ?sd" by (subst sides) (cases ?sd; simp)
          moreover have "came_to_rest r" by (simp add: r came_to_rest_def)
          moreover have "outcome_ok ord r" using left(2) unfilled by (simp add: r outcome_ok_def Limit GTC)
          ultimately show ?thesis unfolding run_shape_def
            using story after sides
            by (intro exI [of _ tk] exI [of _ "ab_sides ab1 (opposite ?sd)"] exI [of _ p]) (simp add: r price)
        qed (use notfok in simp)
      qed
    qed
  next
    case Market
    obtain ts cs tk ab1 where fill: "spec_fill ab None ord = (ts, cs, tk, ab1)"
      by (cases "spec_fill ab None ord") auto
    have sides: "ab_sides ab1 = (ab_sides ab)(opposite ?sd := ab_sides ab1 (opposite ?sd))"
      by (subst tells(2) [OF fill]) simp
    have res: "spec_market ab ord = (Inr \<lparr>result_trades = ts, result_cancelled = cs,
        result_outcome = (if remaining_quantity tk = 0 then Completed else Killed)\<rparr>, ab1)"
      by (simp add: spec_market_def fill)
    have finish: "spec_finish ?id (spec_market ab ord) = (Inr r, ab')" using run Market by (simp add: spec_run_def)
    have story: "fill_story ab ord (limit_price (otype ord)) ts cs tk (ab_sides ab1 (opposite ?sd))"
      using tells(1) [OF fill] by (simp add: Market)
    show ?thesis
      by (rule run_shape_finish [OF story finish res _ _ sides])
        (use left [OF fill] in \<open>simp_all add: outcome_ok_def Market\<close>)
  qed (use pre(5) in \<open>simp_all add: is_stop_def\<close>)
qed

lemma run_tells:
  assumes "executes ab ord r ab'"
  shows "fill_story ab ord (limit_price (otype ord)) (report_trades r) (report_cancelled r) (left_over ord r)
      (settle (report_trades r) (report_cancelled r) (ab_sides ab (opposite (order_side ord))))"
    and "ab_sides ab' = after_report ab ord r" and "ab_stops ab' = ab_stops ab" and "outcome_ok ord r"
    and "report_id r = order_id ord" and "report_triggered r = []"
proof -
  have pre: "abs_ok ab" "distinct (map order_id (ab_orders ab))" and run: "spec_run ab ord = (Inr r, ab')"
    using assms by (simp_all add: executes_def)
  obtain tk L' p where story: "fill_story ab ord (limit_price (otype ord)) (report_trades r) (report_cancelled r) tk L'"
    and rest: "came_to_rest r \<longrightarrow> limit_price (otype ord) = Some p"
    and sides: "ab_sides ab' = (if came_to_rest r
       then ((ab_sides ab)(opposite (order_side ord) := L'))(order_side ord :=
         rest_at (order_side ord) p (tk\<lparr>arrival := ab_arrival ab\<rparr>) (ab_sides ab (order_side ord)))
       else (ab_sides ab)(opposite (order_side ord) := L'))"
    and more: "outcome_ok ord r" "report_id r = order_id ord" "report_triggered r = []"
    using run_shapes [OF assms] by (auto simp: run_shape_def)
  have "L' = settle (report_trades r) (report_cancelled r) (ab_sides ab (opposite (order_side ord)))"
    by (rule fill_storyD(1) [OF story])
  with story story_left_over [OF story] show "fill_story ab ord (limit_price (otype ord)) (report_trades r) (report_cancelled r)
      (left_over ord r) (settle (report_trades r) (report_cancelled r) (ab_sides ab (opposite (order_side ord))))" by simp
  show "ab_sides ab' = after_report ab ord r"
    unfolding sides by (rule story_sides [OF pre story, symmetric]) (use rest in simp)
  show "ab_stops ab' = ab_stops ab" using run ab_stops_spec_run [of ab ord] by simp
  show "outcome_ok ord r" "report_id r = order_id ord" "report_triggered r = []" by (rule more)+
qed

end
