(* ===== verification/Cascades.thy ===== *)
theory Cascades
  imports Executions
begin

text \<open>
  A submission as its runs: what comes first, the order parked or run, and the cascade as a chain of
  runs of the stops it fires. Whatever every run keeps, and every stop taken out, the submission keeps:
  the rule by which what a report must satisfy is proved for the reports of a whole cascade.
\<close>

section \<open>The levels after a run\<close>

lemma settle_mem: "(p, os') \<in> set (settle ts cs L) \<Longrightarrow> \<exists>os. (p, os) \<in> set L \<and> os' = settle_level ts cs os"
  by (induction ts cs L rule: settle.induct) (auto split: if_splits)

lemma rest_at_mem:
  assumes "(p', os') \<in> set (rest_at sd p x L)"
  shows "(p', os') \<in> set L \<or> p' = p \<and> (\<exists>os. os' = os @ [x] \<and> (os = [] \<or> (p, os) \<in> set L))"
  using assms by (induction sd p x L rule: rest_at.induct) (auto split: if_splits)

lemma executes_levels:
  assumes "executes ab ord r ab'" and "(p, os') \<in> set (ab_sides ab' sd)"
  shows "\<exists>os. (os = [] \<or> (p, os) \<in> set (ab_sides ab sd)) \<and>
    (os' = settle_level (report_trades r) (report_cancelled r) os \<or>
     came_to_rest r \<and> sd = order_side ord \<and> limit_price (otype ord) = Some p \<and>
       os' = settle_level (report_trades r) (report_cancelled r) os @ [(left_over ord r)\<lparr>arrival := ab_arrival ab\<rparr>])"
proof -
  let ?L = "settle (report_trades r) (report_cancelled r) (ab_sides ab sd)"
  have sides: "ab_sides ab' sd = after_report ab ord r sd" using run_tells(2) [OF assms(1)] by simp
  show ?thesis
  proof (cases "came_to_rest r \<and> sd = order_side ord")
    case True
    with run_tells(4) [OF assms(1)] obtain q where q: "limit_price (otype ord) = Some q"
      by (auto simp: outcome_ok_def came_to_rest_def)
    with True sides assms(2) have "(p, os') \<in> set (rest_at sd q ((left_over ord r)\<lparr>arrival := ab_arrival ab\<rparr>) ?L)"
      by (simp add: after_report_def Let_def)
    from rest_at_mem [OF this] consider "(p, os') \<in> set ?L" | os where "p = q" "(os = [] \<or> (p, os) \<in> set ?L)"
      "os' = os @ [(left_over ord r)\<lparr>arrival := ab_arrival ab\<rparr>]" by auto
    then show ?thesis
    proof cases
      case 1
      then show ?thesis using settle_mem by blast
    next
      case 2
      obtain os1 where os1: "os1 = [] \<or> (p, os1) \<in> set (ab_sides ab sd)"
        "os = settle_level (report_trades r) (report_cancelled r) os1"
      proof (cases "os = []")
        case True
        then show thesis by (intro that [of "[]"]) (simp_all add: settle_level_def)
      next
        case False
        with 2(2) have "(p, os) \<in> set ?L" by blast
        from settle_mem [OF this] that show thesis by blast
      qed
      from True have "came_to_rest r" "sd = order_side ord" by blast+
      moreover from q 2(1) have "limit_price (otype ord) = Some p" by (simp only:)
      moreover from 2(3) os1(2) have
        "os' = settle_level (report_trades r) (report_cancelled r) os1 @ [(left_over ord r)\<lparr>arrival := ab_arrival ab\<rparr>]"
        by (simp only:)
      ultimately show ?thesis using os1(1) by blast
    qed
  next
    case False
    with sides assms(2) have "(p, os') \<in> set ?L" by (auto simp: after_report_def Let_def)
    then show ?thesis using settle_mem by blast
  qed
qed

text \<open>An order of a settled level is one of the level before, but for what remains of it.\<close>

lemma settle_level_mem:
  "x \<in> set (settle_level ts cs os) \<longleftrightarrow>
     (\<exists>y\<in>set os. x = settle_order ts y \<and> order_id y \<notin> set cs \<and> remaining_quantity x \<noteq> 0)"
  by (auto simp: settle_level_def)

lemma settle_level_sorted:
  assumes "sorted_wrt R (map order_id os)"
  shows "sorted_wrt R (map order_id (settle_level ts cs os))"
proof -
  have "map order_id (settle_level ts cs os) =
      map order_id (filter (\<lambda>ord. order_id ord \<notin> set cs \<and> remaining_quantity (settle_order ts ord) \<noteq> 0) os)"
    by (simp add: settle_level_def filter_map comp_def)
  with sorted_wrt_filter assms show ?thesis by (simp add: sorted_wrt_map)
qed

section \<open>The runs of a submission\<close>

text \<open>The cascade: stops fire and run, one after the other, until none is due.\<close>

inductive cascades :: "abs_book \<Rightarrow> execution_report list \<Rightarrow> abs_book \<Rightarrow> bool" where
  settled: "spec_pop ab = None \<Longrightarrow> cascades ab [] ab"
| fires: "spec_pop ab = Some (stop, ab1) \<Longrightarrow> executes ab1 (activate stop) r ab2 \<Longrightarrow> cascades ab2 rs ab3 \<Longrightarrow>
    cascades ab (r # rs) ab3"

text \<open>What comes before it: a stop is parked, or the order, a stop activated, runs.\<close>

definition parks :: "abs_book \<Rightarrow> order \<Rightarrow> execution_report \<Rightarrow> abs_book \<Rightarrow> bool" where
  "parks ab ord r ab' \<longleftrightarrow> is_stop ord \<and> r = ExecutionReport (order_id ord) [] StopPending [] [] \<and>
     mset (stop_orders ab') = add_mset ord (mset (stop_orders ab)) \<and> ab_sides ab' = ab_sides ab \<and>
     fixed ab' = fixed ab \<and> (spec_pop ab = None \<longrightarrow> spec_pop ab' = None) \<and> abs_ok ab \<and> distinct (map order_id (ab_orders ab)) \<and> \<not> is_live ab (order_id ord)"

definition numbered :: "abs_book \<Rightarrow> order \<Rightarrow> order" where
  "numbered ab ord = ord\<lparr>order_id := from_sequence (ab_seq ab)\<rparr>"

definition starts :: "abs_book \<Rightarrow> order \<Rightarrow> execution_report \<Rightarrow> abs_book \<Rightarrow> bool" where
  "starts ab ord r ab' \<longleftrightarrow>
     executes (ab\<lparr>ab_seq := ab_seq ab + 1\<rparr>) (activate (numbered ab ord)) r ab' \<or>
     parks (ab\<lparr>ab_seq := ab_seq ab + 1\<rparr>) (numbered ab ord) r ab'"

text \<open>A stop parked short of its trigger leaves nothing due when nothing was.\<close>

lemma settled_iff:
  assumes "\<And>sd. bt_ok (ab_stops ab sd)" and "\<And>sd t q. (t, q) \<in> set (ab_stops ab sd) \<Longrightarrow> q \<noteq> []"
  shows "spec_pop ab = None \<longleftrightarrow> (\<forall>sd. \<forall>(t, q)\<in>set (ab_stops ab sd). \<not> already_triggered (ab_last ab) sd t)"
proof
  assume "spec_pop ab = None"
  then have "stop_due ab sd = None" for sd by (cases sd) (auto simp: spec_pop_def split: option.splits)
  then show "\<forall>sd. \<forall>(t, q)\<in>set (ab_stops ab sd). \<not> already_triggered (ab_last ab) sd t"
    using no_stop_due [of ab] assms by blast
next
  assume none: "\<forall>sd. \<forall>(t, q)\<in>set (ab_stops ab sd). \<not> already_triggered (ab_last ab) sd t"
  have "stop_due ab sd = None" for sd
  proof (rule ccontr)
    assume "stop_due ab sd \<noteq> None"
    then obtain x where "stop_due ab sd = Some x" by blast
    from stop_due_nearest [OF assms(1) this] none show False by blast
  qed
  then show "spec_pop ab = None" by (simp add: spec_pop_def)
qed

lemma bt_put_mem: "l \<in> set (bt_put k v m) \<Longrightarrow> l = (k, v) \<or> l \<in> set m"
  by (induction k v m rule: bt_put.induct) (auto split: if_splits)

lemma park_settled:
  assumes "\<And>sd. bt_ok (ab_stops ab sd)" and "\<And>sd t q. (t, q) \<in> set (ab_stops ab sd) \<Longrightarrow> q \<noteq> []"
    and "\<not> is_live ab (order_id ord)" and "\<not> already_triggered (ab_last ab) (order_side ord) t" and "spec_pop ab = None"
  shows "spec_pop (snd (spec_park ab ord t)) = None"
proof -
  let ?q = "(case bt_get (ab_stops ab (order_side ord)) t of None \<Rightarrow> [] | Some q \<Rightarrow> q) @ [ord]"
  have park: "snd (spec_park ab ord t) =
      ab\<lparr>ab_stops := (ab_stops ab)(order_side ord := bt_put t ?q (ab_stops ab (order_side ord)))\<rparr>"
    using assms(3) by (simp add: spec_park_def)
  have mem: "(sd = order_side ord \<and> t' = t \<and> q = ?q) \<or> (t', q) \<in> set (ab_stops ab sd)"
    if "(t', q) \<in> set (ab_stops (snd (spec_park ab ord t)) sd)" for sd t' q
    using that bt_put_mem [of "(t', q)" t ?q] by (auto simp: park split: if_splits)
  have "\<forall>sd. \<forall>(t, q)\<in>set (ab_stops ab sd). \<not> already_triggered (ab_last ab) sd t"
    using settled_iff [of ab] assms(1,2,5) by blast
  then have "\<forall>sd. \<forall>(t', q)\<in>set (ab_stops (snd (spec_park ab ord t)) sd). \<not> already_triggered (ab_last ab) sd t'"
    using mem assms(4) by blast
  moreover have "ab_last (snd (spec_park ab ord t)) = ab_last ab" by (simp add: park)
  moreover have "bt_ok (ab_stops (snd (spec_park ab ord t)) sd)" for sd using assms(1) by (simp add: park)
  moreover have "q \<noteq> []" if "(t', q) \<in> set (ab_stops (snd (spec_park ab ord t)) sd)" for sd t' q
    using mem [OF that] assms(2) by blast
  ultimately show ?thesis by (simp add: settled_iff)
qed

context book_engine begin

lemma represented_ids:
  assumes "represented S ok covers A ab"
  shows "distinct (map order_id (ab_orders ab))" and "bt_ok (ab_stops ab sd)"
    and "(t, q) \<in> set (ab_stops ab sd) \<Longrightarrow> q \<noteq> []"
proof -
  obtain b K where b: "book_rel S ok covers A b K" "ab = abs_of S A b"
    using assms by (auto simp: represented_def book_ok_def)
  show "distinct (map order_id (ab_orders ab))" using ids_unique [OF b(1)] b(2) by simp
  note stops = stops_relD [OF book_relD(7) [OF b(1)]]
  show "bt_ok (ab_stops ab sd)" using stops(1) b(2) by simp
  show "(t, q) \<in> set (ab_stops ab sd) \<Longrightarrow> q \<noteq> []" using stops(3) b(2) by simp
qed

lemma executes_run:
  assumes "represented S ok covers A ab" and "on_lattice (ab_spec ab) ord" and "admit_under (ab_spec ab) ord = Inr ()"
    and "\<not> is_live ab (order_id ord)" and "\<not> is_stop ord" and "spec_run ab ord = (Inr r, ab')"
  shows "executes ab ord r ab'"
  using assms represented_abs_ok [OF assms(1)] represented_ids(1) [OF assms(1)] by (simp add: executes_def)

lemma cascade_runs:
  "represented S ok covers A ab \<Longrightarrow> load ab < 2 ^ 32 \<Longrightarrow>
     \<exists>rs. fst (spec_cascade ab) = Inr rs \<and> cascades ab rs (snd (spec_cascade ab))"
proof (induction ab rule: spec_cascade.induct)
  case (1 ab)
  show ?case
  proof (cases "spec_pop ab")
    case None
    then show ?thesis by (auto simp: spec_cascade.simps [of ab] intro: cascades.settled)
  next
    case (Some popped)
    obtain stop ab1 where pop: "spec_pop ab = Some (stop, ab1)" using Some by (cases popped) auto
    note fire = fire_facts [OF "1.prems" pop] and popped = represented_pop [OF "1.prems"(1) pop]
    obtain r ab2 where run: "spec_run ab1 (activate stop) = (Inr r, ab2)"
      using spec_run_succeeds [OF fire(1-4)] by (cases "spec_run ab1 (activate stop)") auto
    have "executes ab1 (activate stop) r ab2"
      by (rule executes_run [OF popped(1) _ fire(3,4) not_stop_activate run]) (use popped(2,5) in simp)
    moreover obtain rs where "fst (spec_cascade ab2) = Inr rs" "cascades ab2 rs (snd (spec_cascade ab2))"
      using "1.IH" [OF pop refl run [symmetric] refl] fire(5,6) run by auto
    ultimately show ?thesis
      using cascades.fires [OF pop] run pop by (auto simp: spec_cascade.simps [of ab] split_beta)
  qed
qed

lemma submission_runs:
  assumes "represented S ok covers A ab" and "on_lattice (ab_spec ab) ord" and "load ab + 1 < 2 ^ 32"
    and "admit_under (ab_spec ab) ord = Inr ()" and "\<not> is_live ab (from_sequence (ab_seq ab))"
    and submit: "spec_submit ab ord = (Inr report, ab')"
  obtains r ab1 where "starts ab ord r ab1" and "cascades ab1 (report_triggered report) ab'"
    and "report = with_triggered r (report_triggered report)"
proof -
  let ?ab = "ab\<lparr>ab_seq := ab_seq ab + 1\<rparr>" and ?ord = "numbered ab ord"
  have ord: "?ord = ord\<lparr>order_id := from_sequence (ab_seq ab)\<rparr>" by (simp add: numbered_def)
  have "load ?ab = load ab" by (simp add: load_def)
  moreover have "is_live ?ab i = is_live ab i" for i by (simp add: is_live_def ab_orders_def)
  ultimately have pre: "represented S ok covers A ?ab" "on_lattice (ab_spec ?ab) ?ord" "load ?ab + 1 < 2 ^ 32"
    "admit_under (ab_spec ?ab) ?ord = Inr ()" "\<not> is_live ?ab (order_id ?ord)"
    using assms(2-5) represented_seq [OF assms(1)] admit_under_cong [of ?ord ord] by (simp_all add: ord)
  note start = spec_execute_facts [OF pre]
  obtain r ab1 where r: "spec_execute ?ab ?ord = (Inr r, ab1)" using start(1) by (cases "spec_execute ?ab ?ord") auto
  have rep1: "represented S ok covers A ab1" and "load ab1 < 2 ^ 32" using start(2,4) pre(3) r by simp_all
  from cascade_runs [OF this] obtain rs where rs: "fst (spec_cascade ab1) = Inr rs" "cascades ab1 rs (snd (spec_cascade ab1))"
    by blast
  have report: "report = with_triggered r rs" "ab' = snd (spec_cascade ab1)"
    using submit assms(4) r rs(1) by (simp_all add: spec_submit_def ord split_beta)
  have "starts ab ord r ab1"
  proof (cases "trigger_of (otype ?ord)")
    case None
    then have "\<not> is_stop ?ord" "activate ?ord = ?ord" "spec_run ?ab ?ord = (Inr r, ab1)"
      using r by (auto simp: is_stop_def activate_def spec_execute_def split: order_type.splits)
    with executes_run [OF pre(1,2,4,5)] show ?thesis by (simp add: starts_def)
  next
    case (Some t)
    show ?thesis
    proof (cases "already_triggered (ab_last ?ab) (order_side ?ord) t")
      case True
      with r Some have run: "spec_run ?ab (activate ?ord) = (Inr r, ab1)" by (simp add: spec_execute_def)
      have "executes ?ab (activate ?ord) r ab1"
        by (rule executes_run [OF pre(1) _ admit_activate [OF pre(4)] _ not_stop_activate run])
          (use pre(2,5) in \<open>simp_all add: activate_id\<close>)
      then show ?thesis by (simp add: starts_def)
    next
      case False
      with r Some have park: "spec_park ?ab ?ord t = (Inr r, ab1)" by (simp add: spec_execute_def)
      moreover have "is_stop ?ord" using Some by (auto simp: is_stop_def split: order_type.splits)
      ultimately have "parks ?ab ?ord r ab1"
        using spec_park_facts(1) [OF pre(5), of t] park_stops [OF represented_ids(2) [OF pre(1)] pre(5), of t]
          represented_abs_ok [OF pre(1)] represented_ids(1) [OF pre(1)] pre(5) fixed_spec_execute [of ?ab ?ord] r
          park_settled [OF represented_ids(2,3) [OF pre(1)] pre(5) False]
        by (simp add: parks_def)
      then show ?thesis by (simp add: starts_def)
    qed
  qed
  moreover have "report_triggered (with_triggered r rs) = rs"
    using start(1) r by (cases r) simp
  ultimately show thesis using that rs(2) report by auto
qed

end

end
