(* ===== verification/Property_Reports.thy ===== *)
theory Property_Reports
  imports Property_Tests Cascades
begin

text \<open>
  The frame of the property-based tests of \<^verbatim>\<open>src/tests/properties.rs\<close> that look at the reports of a
  submission one by one: the loop over them, where every order rests, and the rule that reduces such a
  test to what one run and one activation keep.
\<close>

section \<open>The loop over the reports\<close>

text \<open>The loop over \<^verbatim>\<open>all_reports(..).enumerate()\<close>.\<close>

fun over_reports ::
    "(nat \<Rightarrow> execution_report \<Rightarrow> 't \<Rightarrow> 't option) \<Rightarrow> nat \<Rightarrow> execution_report list \<Rightarrow> 't \<Rightarrow> 't option" where
  "over_reports f i [] st = Some st"
| "over_reports f i (r # rs) st = do { st \<leftarrow> f i r st; over_reports f (Suc i) rs st }"

lemma cascade_passes:
  assumes "cascades ab rs ab'" and "J ab rs st" and "0 < i"
    and step: "\<And>i ab stop ab1 r ab2 rs st. 0 < i \<Longrightarrow> J ab (r # rs) st \<Longrightarrow> spec_pop ab = Some (stop, ab1) \<Longrightarrow>
      executes ab1 (activate stop) r ab2 \<Longrightarrow> cascades ab2 rs ab' \<Longrightarrow> \<exists>st'. f i r st = Some st' \<and> J ab2 rs st'"
  shows "\<exists>st'. over_reports f i rs st = Some st' \<and> J ab' [] st'"
  using assms
proof (induction ab rs ab' arbitrary: i st rule: cascades.induct)
  case (fires ab stop ab1 r ab2 rs ab3)
  obtain st1 where st1: "f i r st = Some st1" "J ab2 rs st1" using fires.prems(3) [OF fires.prems(2,1) fires.hyps] by blast
  moreover have "\<exists>st'. over_reports f (Suc i) rs st1 = Some st' \<and> J ab3 [] st'"
    by (rule fires.IH [where i = "Suc i", OF st1(2) zero_less_Suc fires.prems(3)])
  ultimately show ?case by simp
qed simp

lemma starts_report:
  assumes "starts ab ord r ab1"
  shows "report_id r = from_sequence (ab_seq ab)" and "report_triggered r = []"
  using assms run_tells(5,6) by (auto simp: starts_def parks_def activate_id numbered_def)

lemma with_triggered_facts:
  "report_triggered r = [] \<Longrightarrow> report_id (with_triggered r rs) = report_id r \<and>
     report_outcome (with_triggered r rs) = report_outcome r \<and> report_trades (with_triggered r rs) = report_trades r \<and>
     report_cancelled (with_triggered r rs) = report_cancelled r \<and> all_reports (with_triggered r rs) = with_triggered r rs # rs"
  by (cases r) (simp add: all_reports_def)

text \<open>
  A loop over the reports passes when the first report passes and every later one does, each run
  handing on what the next one needs; \<open>J\<close> may also speak of the reports still to come.
\<close>

lemma submission_passes:
  assumes "starts ab ord r ab1" and "cascades ab1 rs ab'" and "report = with_triggered r rs"
    and first: "\<exists>st'. f 0 (with_triggered r rs) st = Some st' \<and> J ab1 rs st'"
    and step: "\<And>i ab stop ab1 r ab2 rs st. 0 < i \<Longrightarrow> J ab (r # rs) st \<Longrightarrow> spec_pop ab = Some (stop, ab1) \<Longrightarrow>
      executes ab1 (activate stop) r ab2 \<Longrightarrow> cascades ab2 rs ab' \<Longrightarrow> \<exists>st'. f i r st = Some st' \<and> J ab2 rs st'"
  shows "\<exists>st'. over_reports f 0 (all_reports report) st = Some st' \<and> J ab' [] st'"
proof -
  have "report_triggered report = rs" using starts_report(2) [OF assms(1)] assms(3) by (cases r) simp
  moreover obtain st1 where "f 0 report st = Some st1" "J ab1 rs st1" using first assms(3) by blast
  moreover obtain st2 where "over_reports f (Suc 0) rs st1 = Some st2 \<and> J ab' [] st2"
    using cascade_passes [where J = J and f = f, OF assms(2) \<open>J ab1 rs st1\<close> zero_less_Suc] step by blast
  ultimately show ?thesis by (simp add: all_reports_def)
qed

section \<open>Where orders rest\<close>

definition rests :: "abs_book \<Rightarrow> side \<Rightarrow> price \<Rightarrow> order \<Rightarrow> bool" where
  "rests ab sd p x \<longleftrightarrow> (\<exists>os. (p, os) \<in> set (ab_sides ab sd) \<and> x \<in> set os)"

lemma level_unique:
  "distinct (map f (ladder_orders L)) \<Longrightarrow> (p, os) \<in> set L \<Longrightarrow> (p', os') \<in> set L \<Longrightarrow> x \<in> set os \<Longrightarrow> x' \<in> set os' \<Longrightarrow>
     f x = f x' \<Longrightarrow> x = x' \<and> p = p'"
proof (induction L)
  case (Cons l L)
  obtain q qs where l: "l = (q, qs)" by (cases l)
  have dist: "distinct (map f qs)" "distinct (map f (ladder_orders L))" "f ` set qs \<inter> f ` set (ladder_orders L) = {}"
    using Cons.prems(1) by (auto simp: l)
  have sub: "f y \<in> f ` set (ladder_orders L)" if "(r, rs) \<in> set L" "y \<in> set rs" for r rs y
    using that by (force simp: ladder_orders_def)
  consider "(p, os) = l" "(p', os') = l" | "(p, os) \<in> set L" "(p', os') \<in> set L"
    | "(p, os) = l" "(p', os') \<in> set L" | "(p, os) \<in> set L" "(p', os') = l"
    using Cons.prems(2,3) by auto
  then show ?case
  proof cases
    case 1
    with Cons.prems(4-6) dist(1) show ?thesis by (auto simp: l distinct_map inj_on_def)
  next
    case 2
    with Cons.IH [OF dist(2)] Cons.prems(4-6) show ?thesis by blast
  next
    case 3
    with sub [OF 3(2) Cons.prems(5)] Cons.prems(4,6) dist(3) show ?thesis by (auto simp: l)
  next
    case 4
    with sub [OF 4(1) Cons.prems(4)] Cons.prems(5,6) dist(3) show ?thesis by (auto simp: l)
  qed
qed simp

lemma rests_orders: "rests ab sd p x \<Longrightarrow> x \<in> set (ladder_orders (ab_sides ab sd))"
  by (force simp: rests_def ladder_orders_def)

lemma rests_unique:
  assumes "distinct (map order_id (ab_orders ab))" and "rests ab sd p x" and "rests ab sd' p' x'" and "order_id x = order_id x'"
  shows "sd = sd' \<and> p = p' \<and> x = x'"
proof -
  have ids: "distinct (map order_id (ladder_orders (ab_sides ab s)))" for s
    using assms(1) by (cases s) (simp_all add: ab_orders_def)
  have "order_id ` set (ladder_orders (ab_sides ab Bid)) \<inter> order_id ` set (ladder_orders (ab_sides ab Ask)) = {}"
    using assms(1) by (auto simp: ab_orders_def)
  with rests_orders [OF assms(2)] rests_orders [OF assms(3)] assms(4) have "sd = sd'"
    by (cases sd; cases sd') auto
  with level_unique [OF ids] assms(2-4) show ?thesis unfolding rests_def by blast
qed

text \<open>A run moves no order; it takes from some, removes some, and may add its own.\<close>

lemma rests_after:
  assumes "executes ab ord r ab'" and "rests ab' sd p x"
  shows "(\<exists>y. rests ab sd p y \<and> x = settle_order (report_trades r) y \<and> order_id y \<notin> set (report_cancelled r) \<and>
      remaining_quantity x \<noteq> 0) \<or>
    came_to_rest r \<and> sd = order_side ord \<and> limit_price (otype ord) = Some p \<and> x = (left_over ord r)\<lparr>arrival := ab_arrival ab\<rparr>"
proof -
  obtain os' where os': "(p, os') \<in> set (ab_sides ab' sd)" "x \<in> set os'" using assms(2) by (auto simp: rests_def)
  obtain os where os: "os = [] \<or> (p, os) \<in> set (ab_sides ab sd)"
    and cases: "os' = settle_level (report_trades r) (report_cancelled r) os \<or>
     came_to_rest r \<and> sd = order_side ord \<and> limit_price (otype ord) = Some p \<and>
       os' = settle_level (report_trades r) (report_cancelled r) os @ [(left_over ord r)\<lparr>arrival := ab_arrival ab\<rparr>]"
    using executes_levels [OF assms(1) os'(1)] by blast
  have "\<exists>y. rests ab sd p y \<and> x = settle_order (report_trades r) y \<and> order_id y \<notin> set (report_cancelled r) \<and>
      remaining_quantity x \<noteq> 0"
    if mem: "x \<in> set (settle_level (report_trades r) (report_cancelled r) os)"
  proof -
    obtain y where y: "y \<in> set os" "x = settle_order (report_trades r) y" "order_id y \<notin> set (report_cancelled r)"
      "remaining_quantity x \<noteq> 0" using mem by (auto simp: settle_level_mem)
    with os have "rests ab sd p y" by (auto simp: rests_def)
    with y(2-4) show ?thesis by blast
  qed
  with cases os'(2) show ?thesis by auto
qed

text \<open>The trades of a run.\<close>

lemma executes_trades:
  assumes "executes ab ord r ab'" and "t \<in> set (report_trades r)"
  shows "trade_quantity t \<noteq> 0" and "taker_order_id t = order_id ord" and "taker_side t = order_side ord"
    and "maker_client t \<noteq> taker_client t" and "crosses_limit (order_side ord) (limit_price (otype ord)) (trade_price t)"
    and "\<exists>mk. rests ab (opposite (order_side ord)) (trade_price t) mk \<and> order_id mk = maker_order_id t"
    and "is_multiple_of (base (trade_quantity t)) (lot_size (ab_spec ab))"
proof -
  show "is_multiple_of (base (trade_quantity t)) (lot_size (ab_spec ab))"
    using fill_storyD(13) [OF run_tells(1) [OF assms(1)]] assms(2) by blast
  have "trade_ok (limit_price (otype ord)) (ab_sides ab (opposite (order_side ord))) ord t"
    using fill_storyD(6) [OF run_tells(1) [OF assms(1)]] assms(2) by blast
  then show "trade_quantity t \<noteq> 0" "taker_order_id t = order_id ord" "taker_side t = order_side ord"
    "maker_client t \<noteq> taker_client t" "crosses_limit (order_side ord) (limit_price (otype ord)) (trade_price t)"
    "\<exists>mk. rests ab (opposite (order_side ord)) (trade_price t) mk \<and> order_id mk = maker_order_id t"
    by (auto simp: trade_ok_def rests_def)
qed

lemma popped_sides:
  assumes "spec_pop ab = Some (stop, ab1)"
  shows "ab_sides ab1 = ab_sides ab" and "rests ab1 = rests ab" and "set (stop_orders ab) = insert stop (set (stop_orders ab1))"
proof -
  show sides: "ab_sides ab1 = ab_sides ab" by (rule pop_stops(2) [OF assms])
  show "rests ab1 = rests ab" by (simp add: rests_def fun_eq_iff sides)
  show "set (stop_orders ab) = insert stop (set (stop_orders ab1))"
    using arg_cong [OF pop_stops(1) [OF assms], of set_mset] by simp
qed

text \<open>Identifiers: what runs is not in the book, and no stop has the identifier of an order on a side.\<close>

lemma executes_ids:
  assumes "executes ab ord r ab'"
  shows "distinct (map order_id (ab_orders ab))" and "rests ab sd p x \<Longrightarrow> order_id x \<noteq> order_id ord"
    and "x \<in> set (stop_orders ab) \<Longrightarrow> order_id x \<noteq> order_id ord" and "stop_orders ab' = stop_orders ab"
proof -
  have live: "\<not> is_live ab (order_id ord)" using assms by (simp add: executes_def)
  show "rests ab sd p x \<Longrightarrow> order_id x \<noteq> order_id ord" "x \<in> set (stop_orders ab) \<Longrightarrow> order_id x \<noteq> order_id ord"
    using live rests_orders [of ab sd p x] imageI [of x _ order_id] by (fastforce simp: is_live_cases stop_orders_def)+
  show "distinct (map order_id (ab_orders ab))" using assms by (simp add: executes_def)
  show "stop_orders ab' = stop_orders ab" using run_tells(3) [OF assms] by (simp add: stop_orders_def)
qed

lemma rests_no_stop:
  assumes "distinct (map order_id (ab_orders ab))" and "rests ab sd p x" and "y \<in> set (stop_orders ab)"
  shows "order_id y \<noteq> order_id x"
proof -
  have "order_id ` set (ladder_orders (ab_sides ab s)) \<inter> order_id ` set (stop_orders ab) = {}" for s
    using assms(1) by (cases s) (auto simp: ab_orders_def stop_orders_def)
  with rests_orders [OF assms(2)] assms(3) show ?thesis by (metis disjoint_iff imageI)
qed

lemma rows_mem:
  "y \<in> set (concat (map (\<lambda>(p, os). map (f p) os) L)) \<longleftrightarrow> (\<exists>p os x. (p, os) \<in> set L \<and> x \<in> set os \<and> y = f p x)"
proof (induction L)
  case (Cons l L)
  obtain p os where l: "l = (p, os)" by (cases l)
  show ?case unfolding l list.map concat.simps set_append Un_iff Cons.IH by auto
qed simp

context book_engine begin

text \<open>A submission of a run, as its runs.\<close>

lemma run_submission:
  assumes "run_ok S ok covers A spec (Suc n) b" and "streamable spec ord"
    and "spec_submit (abs_of S A b) ord = (Inr report, ab')"
  obtains r ab1 where "starts (abs_of S A b) ord r ab1" and "cascades ab1 (report_triggered report) ab'"
    and "report = with_triggered r (report_triggered report)"
proof -
  note b = run_okD [OF assms(1)]
  have "load (abs_of S A b) + 1 < 2 ^ 32" using b(4) by (simp add: room_def)
  from submission_runs [OF b(5) _ this _ b(6) assms(3)] b(2) assms(2) that show thesis by (auto simp: streamable_def)
qed

lemma rests_where:
  assumes "book_ok S ok covers A b" and "rests (abs_of S A b) sd p x"
  shows "order_side x = sd" and "\<exists>tif. otype x = Limit p tif" and "tradable (ob_spec b) x"
proof -
  obtain K where K: "book_rel S ok covers A b K" using assms(1) by (auto simp: book_ok_def)
  obtain os where os: "(p, os) \<in> set (ladder_of S A b sd)" "x \<in> set os" using assms(2) by (auto simp: rests_def)
  with ladder_mem [OF K] orders_relD(3) [OF book_relD(6) [OF K]]
  have "resting (ob_spec b) (next_arrival b) sd p x" by auto
  then show "order_side x = sd" "\<exists>tif. otype x = Limit p tif" "tradable (ob_spec b) x" by (simp_all add: resting_def)
qed

text \<open>The snapshot of the resting orders.\<close>

lemma snapshot_at:
  assumes "book_ok S ok covers A b"
  obtains m where "resting_snapshot S A b = Some m"
    and "\<And>i sd p q. m i = Some (sd, p, q) \<longleftrightarrow> (\<exists>x. rests (abs_of S A b) sd p x \<and> order_id x = i \<and> remaining_quantity x = q)"
proof -
  obtain K where K: "book_rel S ok covers A b K" using assms by (auto simp: book_ok_def)
  let ?row = "\<lambda>p ord. (order_id ord, order_side ord, p, remaining_quantity ord)"
  define rows where "rows = concat (map (\<lambda>(p, os). map (?row p) os) (both_sides (abs_of S A b)))"
  have "map fst rows = map order_id (ladder_orders (both_sides (abs_of S A b)))"
    unfolding rows_def ladder_orders_def by (simp add: map_concat comp_def split_beta)
  moreover have "distinct (map order_id (ladder_orders (both_sides (abs_of S A b))))"
    using ids_unique [OF K] by (auto simp: both_sides_def ab_orders_def)
  ultimately have dist: "distinct (map fst (rev rows))" by (simp flip: rev_map)
  have row: "(i, sd, p, q) \<in> set rows \<longleftrightarrow> (\<exists>x. rests (abs_of S A b) sd p x \<and> order_id x = i \<and> remaining_quantity x = q)" for i sd p q
  proof -
    have "(i, sd, p, q) \<in> set rows \<longleftrightarrow>
        (\<exists>os x. (p, os) \<in> set (both_sides (abs_of S A b)) \<and> x \<in> set os \<and> order_id x = i \<and> order_side x = sd \<and>
           remaining_quantity x = q)"
      unfolding rows_def rows_mem by auto
    also have "\<dots> \<longleftrightarrow>
        (\<exists>sd' x. rests (abs_of S A b) sd' p x \<and> order_id x = i \<and> order_side x = sd \<and> remaining_quantity x = q)"
      by (simp add: both_sides_def rests_def ex_side) blast
    finally have "(i, sd, p, q) \<in> set rows \<longleftrightarrow>
        (\<exists>sd' x. rests (abs_of S A b) sd' p x \<and> order_id x = i \<and> order_side x = sd \<and> remaining_quantity x = q)" .
    then show ?thesis using rests_where(1) [OF assms] by blast
  qed
  show thesis
    by (rule that [OF resting_snapshot_reads [OF K]])
      (use row map_of_eq_Some_iff [OF dist] in \<open>simp add: rows_def\<close>)
qed

end

end
