(* ===== verification/Property_Quantities.thy ===== *)
theory Property_Quantities
  imports Property_Reports Property_Agreement
begin

text \<open>
  What becomes of quantities over the runs of a submission, and the helpers by which the property-based
  tests of \<^verbatim>\<open>src/tests/properties.rs\<close> account for them.
\<close>

section \<open>Helpers of the tests\<close>

definition rested_remaining ::
    "('m, 'k) arena_ops \<Rightarrow> ('s, 'm, 'k) order_book \<Rightarrow> exchange_id \<Rightarrow> qty option" where
  "rested_remaining A b i =
     (case order_location_of b i of
        Some (In_Book sd p) \<Rightarrow> map_option remaining_quantity (get_order A b i)
      | _ \<Rightarrow> None)"

definition parked_remaining ::
    "('m, 'k) arena_ops \<Rightarrow> ('s, 'm, 'k) order_book \<Rightarrow> exchange_id \<Rightarrow> qty option" where
  "parked_remaining A b i =
     (case order_location_of b i of
        Some (In_Stop_Book sd t) \<Rightarrow> map_option remaining_quantity (get_order A b i)
      | _ \<Rightarrow> None)"

text \<open>What was traded with every maker, over all reports.\<close>

definition or_zero :: "qty option \<Rightarrow> qty" where
  "or_zero q = (case q of None \<Rightarrow> 0 | Some q \<Rightarrow> q)"

definition fills_by_maker :: "execution_report \<Rightarrow> (exchange_id \<rightharpoonup> qty)" where
  "fills_by_maker report =
     fold (\<lambda>t fills. fills(maker_order_id t \<mapsto> or_zero (fills (maker_order_id t)) + trade_quantity t))
       (concat (map report_trades (all_reports report))) Map.empty"

lemma fills_by_maker_at:
  "or_zero (fills_by_maker report i) = Qty (of_nat (traded_to (concat (map report_trades (all_reports report))) i))"
proof -
  have "or_zero (fold (\<lambda>t fills. fills(maker_order_id t \<mapsto> or_zero (fills (maker_order_id t)) + trade_quantity t)) ts m i) =
      or_zero (m i) + Qty (of_nat (traded_to ts i))" for ts m
  proof (induction ts arbitrary: m)
    case Nil
    then show ?case by (simp add: qty_plus)
  next
    case (Cons t ts)
    have "traded_to (t # ts) i = (if maker_order_id t = i then units (trade_quantity t) else 0) + traded_to ts i"
      by (simp add: traded_to_def)
    with Cons.IH show ?case by (simp add: or_zero_def qty_plus add.assoc)
  qed
  then show ?thesis by (simp add: fills_by_maker_def or_zero_def qty_plus)
qed

lemma units_bound: "n \<le> units q \<Longrightarrow> n < 2 ^ 64"
  using le_less_trans [of n "units q" "2 ^ 64"] by simp

section \<open>One run\<close>

definition held_in :: "abs_book \<Rightarrow> exchange_id \<Rightarrow> bool" where
  "held_in ab i \<longleftrightarrow> (\<exists>sd p x. rests ab sd p x \<and> order_id x = i)"

lemma not_held_in: "\<not> held_in ab i \<longleftrightarrow> (\<forall>sd p x. rests ab sd p x \<longrightarrow> order_id x \<noteq> i)"
  by (auto simp: held_in_def)

lemma held_in_orders: "x \<in> set (ladder_orders (ab_sides ab sd)) \<Longrightarrow> held_in ab (order_id x)"
  by (force simp: held_in_def rests_def ladder_orders_def)

text \<open>Who does not rest is neither traded with nor cancelled.\<close>

lemma run_spares:
  assumes "executes ab ord r ab'" and "\<not> held_in ab i"
  shows "traded_to (report_trades r) i = 0" and "i \<notin> set (report_cancelled r)"
proof -
  note story = fill_storyD [OF run_tells(1) [OF assms(1)]]
  have "i \<notin> order_id ` set (ladder_orders (ab_sides ab (opposite (order_side ord))))"
    using held_in_orders assms(2) by blast
  with story(4,5) traded_to_absent show "traded_to (report_trades r) i = 0" "i \<notin> set (report_cancelled r)" by blast+
qed

lemma run_own_id:
  assumes "executes ab ord r ab'"
  shows "\<not> held_in ab (order_id ord)" and "traded_to (report_trades r) (order_id ord) = 0"
    and "order_id ord \<notin> set (report_cancelled r)"
proof -
  show own: "\<not> held_in ab (order_id ord)" using executes_ids(2) [OF assms] by (auto simp: held_in_def)
  show "traded_to (report_trades r) (order_id ord) = 0" "order_id ord \<notin> set (report_cancelled r)"
    using run_spares [OF assms own] by blast+
qed

lemma run_traded_le:
  assumes "executes ab ord r ab'" and "rests ab sd p x"
  shows "traded_to (report_trades r) (order_id x) \<le> units (remaining_quantity x)"
proof (cases "sd = opposite (order_side ord)")
  case True
  with fill_storyD(2) [OF run_tells(1) [OF assms(1)]] rests_orders [OF assms(2)] show ?thesis by simp
next
  case False
  have "order_id x \<notin> maker_order_id ` set (report_trades r)"
  proof
    assume "order_id x \<in> maker_order_id ` set (report_trades r)"
    then obtain t where t: "t \<in> set (report_trades r)" "maker_order_id t = order_id x" by auto
    obtain mk where "rests ab (opposite (order_side ord)) (trade_price t) mk" "order_id mk = order_id x"
      using executes_trades(6) [OF assms(1) t(1)] t(2) by auto
    with rests_unique [OF executes_ids(1) [OF assms(1)] assms(2)] False show False by metis
  qed
  then show ?thesis by (simp add: traded_to_absent)
qed

text \<open>Who is neither cancelled nor filled stays.\<close>

lemma settle_keeps:
  "(p, os) \<in> set L \<Longrightarrow> settle_level ts cs os \<noteq> [] \<Longrightarrow> (p, settle_level ts cs os) \<in> set (settle ts cs L)"
  by (induction ts cs L rule: settle.induct) auto

lemma rest_at_keeps: "(p, os) \<in> set L \<Longrightarrow> \<exists>os'. (p, os') \<in> set (rest_at sd q x L) \<and> set os \<subseteq> set os'"
proof (induction sd q x L rule: rest_at.induct)
  case (2 sd q x p' os' L)
  consider "(p, os) = (p', os')" | "(p, os) \<in> set L" using "2.prems" by auto
  then show ?case
  proof cases
    case 1
    then show ?thesis by (cases "q = p'") (auto intro: exI [of _ "os' @ [x]"])
  next
    case 2
    then show ?thesis
    proof (cases "q = p' \<or> better sd q p'")
      case False
      with "2.IH" 2 show ?thesis by auto
    qed auto
  qed
qed simp

lemma run_keeps:
  assumes "executes ab ord r ab'" and "rests ab sd p x" and "order_id x \<notin> set (report_cancelled r)"
    and "traded_to (report_trades r) (order_id x) \<noteq> units (remaining_quantity x)"
  shows "rests ab' sd p (settle_order (report_trades r) x)"
proof -
  let ?ts = "report_trades r" and ?cs = "report_cancelled r"
  obtain os where os: "(p, os) \<in> set (ab_sides ab sd)" "x \<in> set os" using assms(2) by (auto simp: rests_def)
  have "units (remaining_quantity (settle_order ?ts x)) \<noteq> 0"
    using units_settle_order [of ?ts x] run_traded_le [OF assms(1,2)] assms(4) by simp
  then have x: "settle_order ?ts x \<in> set (settle_level ?ts ?cs os)" using os(2) assms(3) by (auto simp: settle_level_mem)
  then have "(p, settle_level ?ts ?cs os) \<in> set (settle ?ts ?cs (ab_sides ab sd))" by (intro settle_keeps os(1)) auto
  then have "\<exists>os'. (p, os') \<in> set (ab_sides ab' sd) \<and> set (settle_level ?ts ?cs os) \<subseteq> set os'"
    using rest_at_keeps unfolding run_tells(2) [OF assms(1)] by (simp add: after_report_def Let_def) blast
  with x show ?thesis by (auto simp: rests_def)
qed

text \<open>Who is filled or cancelled is gone; who rests afterwards rested before, or has just run.\<close>

lemma held_after:
  assumes "executes ab ord r ab'" and "held_in ab' i"
  shows "held_in ab i \<and> i \<notin> set (report_cancelled r) \<or> came_to_rest r \<and> i = order_id ord"
proof -
  obtain sd p x where x: "rests ab' sd p x" "order_id x = i" using assms(2) by (auto simp: held_in_def)
  from rests_after [OF assms(1) x(1)] consider
    y where "rests ab sd p y" "order_id y = i" "order_id y \<notin> set (report_cancelled r)" | "came_to_rest r" "i = order_id ord"
    using x(2) by (auto simp: left_over_def)
  then show ?thesis unfolding held_in_def by cases blast+
qed

lemma gone_after:
  assumes "executes ab ord r ab'" and "rests ab sd p x"
    and "order_id x \<in> set (report_cancelled r) \<or> traded_to (report_trades r) (order_id x) = units (remaining_quantity x)"
  shows "\<not> held_in ab' (order_id x)"
proof
  assume "held_in ab' (order_id x)"
  then obtain sd' p' y where y: "rests ab' sd' p' y" "order_id y = order_id x" by (auto simp: held_in_def)
  from rests_after [OF assms(1) y(1)] executes_ids(2) [OF assms(1,2)] y(2) obtain z where
    z: "rests ab sd' p' z" "y = settle_order (report_trades r) z" "order_id z \<notin> set (report_cancelled r)" "remaining_quantity y \<noteq> 0"
    by (auto simp: left_over_def)
  moreover from z have "z = x" using rests_unique [OF executes_ids(1) [OF assms(1)] z(1) assms(2)] y(2) by simp
  ultimately show False using assms(3) units_settle_order [of "report_trades r" x] units_eq_0_iff [of "remaining_quantity y"] by auto
qed

text \<open>The depth of the book over a run.\<close>

lemma run_units:
  assumes "executes ab ord r ab'"
  obtains gone where "report_cancelled r = map order_id gone" and "\<forall>x\<in>set gone. \<exists>sd p. rests ab sd p x"
    and "side_units ab + (if came_to_rest r then units (remaining_quantity ord) - traded_units (report_trades r) else 0) =
      side_units ab' + traded_units (report_trades r) + order_units gone"
    and "traded_units (report_trades r) \<le> units (remaining_quantity ord)"
proof -
  let ?sd = "order_side ord" and ?ts = "report_trades r"
  note story = fill_storyD [OF run_tells(1) [OF assms]]
  let ?L = "ab_sides ab (opposite ?sd)"
  obtain gone where gone: "report_cancelled r = map order_id gone" "set gone \<subseteq> set (ladder_orders ?L)"
    "order_units (ladder_orders ?L) = order_units (ladder_orders (settle ?ts (report_cancelled r) ?L)) + traded_units ?ts + order_units gone"
    using story(12) by blast
  have own: "settle ?ts (report_cancelled r) (ab_sides ab ?sd) = ab_sides ab ?sd"
    by (rule other_side_settles [OF _ _ run_tells(1) [OF assms]]) (use assms in \<open>simp_all add: executes_def\<close>)
  have both: "side_units a = order_units (ladder_orders (ab_sides a ?sd)) + order_units (ladder_orders (ab_sides a (opposite ?sd)))" for a
    by (cases ?sd) (simp_all add: side_units_def)
  have left: "units (remaining_quantity (left_over ord r)) = units (remaining_quantity ord) - traded_units ?ts"
    using story(8) by simp
  have sides: "ab_sides ab' = after_report ab ord r" by (rule run_tells(2) [OF assms])
  have "side_units ab + (if came_to_rest r then units (remaining_quantity ord) - traded_units ?ts else 0) =
      side_units ab' + traded_units ?ts + order_units gone"
    unfolding both [of ab] both [of ab'] sides after_report_def Let_def own gone(3)
    using opposite_other [of ?sd ?sd] by (cases "came_to_rest r") (simp_all add: order_units_rest_at left)
  moreover have "\<forall>x\<in>set gone. \<exists>sd p. rests ab sd p x" using gone(2) by (force simp: rests_def ladder_orders_def)
  ultimately show thesis using that gone(1) story(8) by auto
qed

lemma qty_sum_trades: "qty_sum (map trade_quantity ts) = Qty (of_nat (traded_units ts))"
  by (simp add: qty_sum_units traded_units_def comp_def)

lemma filled_units:
  assumes "executes ab ord r ab'"
  shows "units (qty_sum (map trade_quantity (report_trades r))) = traded_units (report_trades r)"
proof -
  obtain gone where "traded_units (report_trades r) \<le> units (remaining_quantity ord)" by (rule run_units [OF assms])
  then have "traded_units (report_trades r) < 2 ^ 64" by (rule units_bound)
  then show ?thesis by (simp add: qty_sum_trades unat_of_nat)
qed

section \<open>The runs of a cascade\<close>

abbreviation "trades_of rs \<equiv> concat (map report_trades rs)"

text \<open>Who is neither on a side nor among the stops is out of it for good.\<close>

lemma cascade_spares:
  assumes "cascades ab rs ab'" and "\<not> held_in ab i" and "i \<notin> order_id ` set (stop_orders ab)"
  shows "traded_to (trades_of rs) i = 0 \<and> (\<forall>r\<in>set rs. i \<notin> set (report_cancelled r)) \<and> \<not> held_in ab' i"
  using assms
proof (induction rule: cascades.induct)
  case (fires ab stop ab1 r ab2 rs ab3)
  have stop: "i \<noteq> order_id (activate stop)" and stops: "i \<notin> order_id ` set (stop_orders ab2)"
    using fires.prems(2) popped_sides(3) [OF fires.hyps(1)] executes_ids(4) [OF fires.hyps(2)] by (auto simp: activate_id)
  have "\<not> held_in ab1 i" using fires.prems(1) popped_sides(2) [OF fires.hyps(1)] by (simp add: held_in_def)
  with run_spares [OF fires.hyps(2)] held_after [OF fires.hyps(2)] stop fires.IH stops show ?case by auto
qed (simp add: traded_to_def)

text \<open>What becomes of an order that rests: cancelled once, or accounted for by its trades and what remains.\<close>

definition accounted :: "execution_report list \<Rightarrow> abs_book \<Rightarrow> exchange_id \<Rightarrow> nat \<Rightarrow> bool" where
  "accounted rs ab i q \<longleftrightarrow>
     (if \<exists>r\<in>set rs. i \<in> set (report_cancelled r) then \<not> held_in ab i
      else traded_to (trades_of rs) i \<le> q \<and>
        (if traded_to (trades_of rs) i = q then \<not> held_in ab i
         else \<exists>sd p x. rests ab sd p x \<and> order_id x = i \<and> units (remaining_quantity x) + traded_to (trades_of rs) i = q))"

lemma cascade_accounts:
  assumes "cascades ab rs ab'" and "rests ab sd p x" and "order_id x \<notin> order_id ` set (stop_orders ab)"
    and "remaining_quantity x \<noteq> 0"
  shows "accounted rs ab' (order_id x) (units (remaining_quantity x))"
  using assms
proof (induction arbitrary: x rule: cascades.induct)
  case (settled ab)
  then show ?case by (auto simp: accounted_def traded_to_def)
next
  case (fires ab stop ab1 r ab2 rs ab3)
  note exec = fires.hyps(2)
  let ?i = "order_id x" and ?n = "traded_to (report_trades r) (order_id x)" and ?q = "units (remaining_quantity x)"
  have x: "rests ab1 sd p x" using fires.prems(1) popped_sides(2) [OF fires.hyps(1)] by simp
  have stops: "?i \<notin> order_id ` set (stop_orders ab2)"
    using fires.prems(2) popped_sides(3) [OF fires.hyps(1)] executes_ids(4) [OF exec] by auto
  show ?case
  proof (cases "?i \<in> set (report_cancelled r) \<or> ?n = ?q")
    case True
    with cascade_spares [OF fires.hyps(3) gone_after [OF exec x] stops] show ?thesis by (auto simp: accounted_def)
  next
    case False
    with run_keeps [OF exec x] have y: "rests ab2 sd p (settle_order (report_trades r) x)" by blast
    have le: "?n \<le> ?q" by (rule run_traded_le [OF exec x])
    with False units_settle_order [of "report_trades r" x]
    have q: "units (remaining_quantity (settle_order (report_trades r) x)) = ?q - ?n" "?q - ?n \<noteq> 0" by simp_all
    then have "remaining_quantity (settle_order (report_trades r) x) \<noteq> 0" by (metis units_eq_0_iff)
    with fires.IH [OF y] stops have IH: "accounted rs ab3 ?i (?q - ?n)" unfolding q(1) by simp
    have eq: "n \<le> ?q - ?n \<longleftrightarrow> ?n + n \<le> ?q" "n = ?q - ?n \<longleftrightarrow> ?n + n = ?q" "m + n = ?q - ?n \<longleftrightarrow> m + (?n + n) = ?q" for n m
      using le by linarith+
    from IH False show ?thesis unfolding accounted_def eq(1,3) unfolding eq(2) by simp
  qed
qed

text \<open>What still waits was waiting, and did not run.\<close>

lemma cascade_stops:
  assumes "cascades ab rs ab'" and "x \<in> set (stop_orders ab')"
  shows "x \<in> set (stop_orders ab)" and "order_id x \<notin> report_id ` set rs"
proof -
  have "x \<in> set (stop_orders ab) \<and> order_id x \<notin> report_id ` set rs"
    using assms
  proof (induction rule: cascades.induct)
    case (fires ab stop ab1 r ab2 rs ab3)
    have x: "x \<in> set (stop_orders ab2)" "order_id x \<notin> report_id ` set rs" using fires.IH fires.prems by blast+
    then have x1: "x \<in> set (stop_orders ab1)" using executes_ids(4) [OF fires.hyps(2)] by simp
    have "order_id x \<noteq> report_id r" using executes_ids(3) [OF fires.hyps(2) x1] run_tells(5) [OF fires.hyps(2)] by simp
    with x(2) x1 popped_sides(3) [OF fires.hyps(1)] show ?case by simp
  qed simp
  then show "x \<in> set (stop_orders ab)" "order_id x \<notin> report_id ` set rs" by blast+
qed

inductive_cases cascades_from: "cascades ab rs ab'"

lemma settled_cascade: "cascades ab rs ab' \<Longrightarrow> spec_pop ab = None \<Longrightarrow> rs = [] \<and> ab' = ab"
  by (erule cascades_from) simp_all

text \<open>What is drawn is not in the book yet.\<close>

lemma starts_own_id:
  assumes "starts ab ord r ab1"
  shows "\<not> held_in ab (from_sequence (ab_seq ab))" and "x \<in> set (stop_orders ab) \<Longrightarrow> order_id x \<noteq> from_sequence (ab_seq ab)"
proof -
  let ?ab = "ab\<lparr>ab_seq := ab_seq ab + 1\<rparr>"
  have "\<not> is_live ?ab (from_sequence (ab_seq ab))"
    using assms by (auto simp: starts_def parks_def executes_def activate_id numbered_def)
  then have live: "\<not> is_live ab (from_sequence (ab_seq ab))" by (simp add: is_live_def ab_orders_def)
  show "\<not> held_in ab (from_sequence (ab_seq ab))"
    using live rests_orders by (force simp: held_in_def is_live_cases)
  show "order_id x \<noteq> from_sequence (ab_seq ab)" if "x \<in> set (stop_orders ab)"
    using live that by (force simp: stop_orders_def is_live_cases)
qed

lemma seq_same [simp]: "rests (ab\<lparr>ab_seq := n\<rparr>) = rests ab" "held_in (ab\<lparr>ab_seq := n\<rparr>) = held_in ab"
  "stop_orders (ab\<lparr>ab_seq := n\<rparr>) = stop_orders ab" "side_units (ab\<lparr>ab_seq := n\<rparr>) = side_units ab"
  by (simp_all add: rests_def [abs_def] held_in_def [abs_def] stop_orders_def side_units_def)

lemma seq_settled [simp]: "spec_pop (ab\<lparr>ab_seq := n\<rparr>) = None \<longleftrightarrow> spec_pop ab = None"
proof -
  have "stop_due (ab\<lparr>ab_seq := n\<rparr>) sd = stop_due ab sd" for sd
    by (auto simp: stop_due_def split: list.split)
  then show ?thesis by (simp add: spec_pop_def split: option.split)
qed

context book_engine begin

lemma total_depth_units:
  assumes "book_ok S ok covers A b"
  shows "total_depth S A b = Some (Qty (of_nat (side_units (abs_of S A b))))"
proof -
  obtain K where K: "book_rel S ok covers A b K" using assms by (auto simp: book_ok_def)
  have total: "qty_sum (map (\<lambda>(p, os). qty_sum (map remaining_quantity os)) L) = Qty (of_nat (order_units (ladder_orders L)))" for L
  proof -
    have "sum_list (map (\<lambda>(p, os). Qty (of_nat (order_units os))) L) = Qty (of_nat (order_units (ladder_orders L)))"
      by (induction L) (auto simp: qty_plus zero_qty_def)
    then show ?thesis by (simp only: qty_sum_orders) (simp only: qty_sum_eq)
  qed
  show ?thesis unfolding total_depth_reads [OF K] total by (simp add: both_sides_def side_units_def)
qed

lemma rested_remaining_iff:
  assumes "book_ok S ok covers A b"
  shows "rested_remaining A b i = Some q \<longleftrightarrow> (\<exists>sd p x. rests (abs_of S A b) sd p x \<and> order_id x = i \<and> remaining_quantity x = q)"
    and "parked_remaining A b i = Some q \<longleftrightarrow> (\<exists>x\<in>set (stop_orders (abs_of S A b)). order_id x = i \<and> remaining_quantity x = q)"
proof -
  obtain K where K: "book_rel S ok covers A b K" using assms by (auto simp: book_ok_def)
  note get = get_order_iff [OF K] and ids = ids_unique [OF K]
  have same: "x = y" if "x \<in> set (ab_orders (abs_of S A b))" "y \<in> set (ab_orders (abs_of S A b))" "order_id x = order_id y" for x y
    using ids that by (auto simp: distinct_map dest: inj_onD)
  have in_book: "x \<in> set (ab_orders (abs_of S A b))" if "rests (abs_of S A b) sd p x" for sd p x
    using rests_orders [OF that] by (cases sd) (simp_all add: ab_orders_def)
  have in_stops: "x \<in> set (ab_orders (abs_of S A b))" if "x \<in> set (stop_orders (abs_of S A b))" for x
    using that by (auto simp: ab_orders_def stop_orders_def)
  have book: "order_location_of b i = Some (In_Book sd p) \<longleftrightarrow> (\<exists>x. rests (abs_of S A b) sd p x \<and> order_id x = i)" for sd p
    unfolding location_in_book [OF K] by (auto simp: rests_def)
  have stop: "order_location_of b i = Some (In_Stop_Book sd t) \<longleftrightarrow> (\<exists>q. (t, q) \<in> set (stops_of b sd) \<and> i \<in> order_id ` set q)" for sd t
    by (rule location_in_stops [OF K])
  have stop_mem: "(\<exists>sd t q. (t, q) \<in> set (stops_of b sd) \<and> x \<in> set q) \<longleftrightarrow> x \<in> set (stop_orders (abs_of S A b))" for x
    by (force simp: stop_orders_def ladder_orders_def ex_side)
  show "rested_remaining A b i = Some q \<longleftrightarrow> (\<exists>sd p x. rests (abs_of S A b) sd p x \<and> order_id x = i \<and> remaining_quantity x = q)"
  proof
    assume "rested_remaining A b i = Some q"
    then obtain sd p y where "order_location_of b i = Some (In_Book sd p)" "get_order A b i = Some y" "remaining_quantity y = q"
      by (auto simp: rested_remaining_def split: option.splits order_location.splits)
    with book get same in_book show "\<exists>sd p x. rests (abs_of S A b) sd p x \<and> order_id x = i \<and> remaining_quantity x = q" by metis
  next
    assume "\<exists>sd p x. rests (abs_of S A b) sd p x \<and> order_id x = i \<and> remaining_quantity x = q"
    then obtain sd p x where x: "rests (abs_of S A b) sd p x" "order_id x = i" "remaining_quantity x = q" by blast
    then have "order_location_of b i = Some (In_Book sd p)" "get_order A b i = Some x"
      unfolding book get using in_book by blast+
    with x(3) show "rested_remaining A b i = Some q" by (simp add: rested_remaining_def)
  qed
  show "parked_remaining A b i = Some q \<longleftrightarrow> (\<exists>x\<in>set (stop_orders (abs_of S A b)). order_id x = i \<and> remaining_quantity x = q)"
  proof
    assume "parked_remaining A b i = Some q"
    then obtain sd t y where y: "order_location_of b i = Some (In_Stop_Book sd t)" "get_order A b i = Some y" "remaining_quantity y = q"
      by (auto simp: parked_remaining_def split: option.splits order_location.splits)
    from y(1) stop stop_mem obtain x where "x \<in> set (stop_orders (abs_of S A b))" "order_id x = i" by blast
    with y(2,3) get same in_stops show "\<exists>x\<in>set (stop_orders (abs_of S A b)). order_id x = i \<and> remaining_quantity x = q" by metis
  next
    assume "\<exists>x\<in>set (stop_orders (abs_of S A b)). order_id x = i \<and> remaining_quantity x = q"
    then obtain x where x: "x \<in> set (stop_orders (abs_of S A b))" "order_id x = i" "remaining_quantity x = q" by blast
    from x(1) obtain sd t where "order_location_of b i = Some (In_Stop_Book sd t)"
      unfolding stop stop_mem [symmetric] using x(2) by blast
    moreover have "get_order A b i = Some x" unfolding get using in_stops x by blast
    ultimately show "parked_remaining A b i = Some q" using x(3) by (simp add: parked_remaining_def)
  qed
qed

end

end
