(* ===== verification/Property_Conservation.thy ===== *)
theory Property_Conservation
  imports Property_Quantities
begin

text \<open>
  Invariant 1 of the property-based tests, \<^verbatim>\<open>src/tests/properties.rs\<close>: of every order, submitted or
  fired, the quantity is what was filled, what came to rest and what was killed, and the outcome the
  report names is the one the quantities show.
\<close>

section \<open>The test\<close>

text \<open>
  What an outcome says of the quantities. What rests is compared with what later runs of the same
  submission left of it: \<open>rested\<close> is what rests in the end, \<open>eaten\<close> what was traded with it.
\<close>

definition outcome_accounts :: "qty \<Rightarrow> execution_report \<Rightarrow> qty option \<Rightarrow> qty \<Rightarrow> bool \<Rightarrow> bool" where
  "outcome_accounts original r rested eaten cancelled_later \<longleftrightarrow>
     (let filled = qty_sum (map trade_quantity (report_trades r)) in
      case report_outcome r of
        Completed \<Rightarrow> filled = original \<and> rested = None
      | Rested \<Rightarrow> report_trades r = [] \<and>
          (if cancelled_later then rested = None else or_zero rested + eaten = original)
      | PartiallyFilledAndRested \<Rightarrow> filled \<noteq> 0 \<and> filled < original \<and>
          (if cancelled_later then rested = None else or_zero rested + eaten = original - filled)
      | Killed \<Rightarrow> filled < original \<and> rested = None
      | StopPending \<Rightarrow> False)"

text \<open>The kinds of order whose unfilled remainder is discarded.\<close>

fun can_kill :: "order_type \<Rightarrow> bool" where
  "can_kill Market = True"
| "can_kill (Limit p tif) = (tif = IOC \<or> tif = FOK)"
| "can_kill (StopMarket t) = True"
| "can_kill (StopLimit t p tif) = (tif = IOC \<or> tif = FOK)"

definition is_fok :: "order_type \<Rightarrow> bool" where
  "is_fok kd = (case kd of Limit p tif \<Rightarrow> tif = FOK | _ \<Rightarrow> False)"

text \<open>What is asserted of the submitted order and of a fired stop.\<close>

definition submitted_accounts ::
    "('m, 'k) arena_ops \<Rightarrow> ('s, 'm, 'k) order_book \<Rightarrow> order \<Rightarrow> execution_report \<Rightarrow> qty \<Rightarrow> bool \<Rightarrow> bool" where
  "submitted_accounts A b ord report eaten cancelled_later \<longleftrightarrow>
     (case report_outcome report of
        Killed \<Rightarrow> can_kill (otype ord) \<and>
          outcome_accounts (original_quantity ord) report (rested_remaining A b (report_id report)) eaten cancelled_later \<and>
          (is_fok (otype ord) \<longrightarrow> qty_sum (map trade_quantity (report_trades report)) = 0 \<and> report_cancelled report = [])
      | StopPending \<Rightarrow> is_stop ord \<and> report_trades report = [] \<and>
          parked_remaining A b (report_id report) = Some (original_quantity ord)
      | _ \<Rightarrow> outcome_accounts (original_quantity ord) report (rested_remaining A b (report_id report)) eaten cancelled_later)"

definition triggered_report ::
    "('m, 'k) arena_ops \<Rightarrow> ('s, 'm, 'k) order_book \<Rightarrow> (exchange_id \<rightharpoonup> qty) \<Rightarrow> (exchange_id \<Rightarrow> bool) \<Rightarrow> execution_report \<Rightarrow>
       (exchange_id \<rightharpoonup> qty) \<Rightarrow> (exchange_id \<rightharpoonup> qty) option" where
  "triggered_report A b consumed_later stp_cancelled r waiting = do {
     original \<leftarrow> waiting (report_id r);
     assert_that (report_triggered r = []);
     assert_that (outcome_accounts original r (rested_remaining A b (report_id r))
       (or_zero (consumed_later (report_id r))) (stp_cancelled (report_id r)));
     Some (waiting(report_id r := None))
   }"

definition conservation_body ::
    "('m, 'k) arena_ops \<Rightarrow> ('s, 'm, 'k) order_book \<Rightarrow> order \<Rightarrow> execution_report \<Rightarrow> ('s, 'm, 'k) order_book \<Rightarrow>
       (exchange_id \<rightharpoonup> qty) \<Rightarrow> (exchange_id \<rightharpoonup> qty) option" where
  "conservation_body A before ord report b waiting = do {
     let consumed_later = fills_by_maker report;
     assert_that (\<forall>r\<in>set (all_reports report). \<forall>t\<in>set (report_trades r). trade_quantity t \<noteq> 0);
     let stp_cancelled = (\<lambda>i. \<exists>r\<in>set (all_reports report). i \<in> set (report_cancelled r));
     assert_that (submitted_accounts A b ord report (or_zero (consumed_later (report_id report)))
       (stp_cancelled (report_id report)));
     let waiting = (if report_outcome report = StopPending then waiting(report_id report \<mapsto> original_quantity ord) else waiting);
     over_reports (\<lambda>i. triggered_report A b consumed_later stp_cancelled) 1 (report_triggered report) waiting
   }"

definition check_conservation ::
    "'d decimal_ops \<Rightarrow> ('s, 'k) store_ops \<Rightarrow> ('m, 'k) arena_ops \<Rightarrow> matcher \<Rightarrow> order list \<Rightarrow> unit option" where
  "check_conservation D S A mtch stream = do {
     spec \<leftarrow> prop_spec D;
     b \<leftarrow> new_book S A spec mtch;
     over_stream S A (conservation_body A) stream b Map.empty;
     Some ()
   }"

section \<open>One run\<close>

context book_engine begin

lemma not_held_rested: "book_ok S ok covers A b \<Longrightarrow> \<not> held_in (abs_of S A b) i \<Longrightarrow> rested_remaining A b i = None"
proof (rule ccontr)
  assume b: "book_ok S ok covers A b" and none: "\<not> held_in (abs_of S A b) i" and "rested_remaining A b i \<noteq> None"
  then obtain q where "rested_remaining A b i = Some q" by blast
  with rested_remaining_iff(1) [OF b] none show False unfolding held_in_def by blast
qed

lemma run_accounts:
  assumes exec: "executes ab ord r ab1" and later: "cascades ab1 rs (abs_of S A b)" and b: "book_ok S ok covers A b"
    and eaten: "eaten = Qty (of_nat (traded_to (trades_of rs) (order_id ord)))"
    and stp: "stp \<longleftrightarrow> (\<exists>r\<in>set rs. order_id ord \<in> set (report_cancelled r))"
  shows "outcome_accounts (remaining_quantity ord) r (rested_remaining A b (order_id ord)) eaten stp"
proof -
  let ?rem = "remaining_quantity ord" and ?id = "order_id ord" and ?ts = "report_trades r"
  let ?filled = "qty_sum (map trade_quantity ?ts)"
  obtain gone where le: "traded_units ?ts \<le> units ?rem" by (rule run_units [OF exec])
  have filled: "units ?filled = traded_units ?ts" by (rule filled_units [OF exec])
  define left where "left = ?rem - ?filled"
  have diff: "units left = units ?rem - traded_units ?ts"
    using units_diff [of ?filled ?rem] le unfolding qty_le_units filled left_def by simp
  have out: "outcome_ok ord r" by (rule run_tells(4) [OF exec])
  have stops: "?id \<notin> order_id ` set (stop_orders ab1)"
    unfolding executes_ids(4) [OF exec] using executes_ids(3) [OF exec] by (metis imageE)
  show ?thesis
  proof (cases "came_to_rest r")
    case False
    have "\<not> held_in ab1 ?id" using held_after [OF exec, of ?id] run_own_id(1) [OF exec] False by blast
    with cascade_spares [OF later _ stops] have none: "rested_remaining A b ?id = None" by (simp add: not_held_rested [OF b])
    have "?filled = ?rem" if "traded_units ?ts = units ?rem" using that by (simp only: qty_eq_units filled)
    moreover have "?filled < ?rem" if "traded_units ?ts < units ?rem" using that by (simp only: qty_less_units filled)
    ultimately show ?thesis using out False none
      by (cases "report_outcome r") (simp_all add: outcome_accounts_def outcome_ok_def came_to_rest_def Let_def)
  next
    case True
    let ?x = "(left_over ord r)\<lparr>arrival := ab_arrival ab\<rparr>"
    obtain p where p: "limit_price (otype ord) = Some p" using out True by (auto simp: outcome_ok_def came_to_rest_def)
    have x: "units (remaining_quantity ?x) = units ?rem - traded_units ?ts"
      using fill_storyD(8) [OF run_tells(1) [OF exec]] by simp
    have "?rem \<noteq> 0" using exec by (simp add: executes_def on_lattice_def tradable_def)
    then have some: "units ?rem - traded_units ?ts \<noteq> 0"
      using out True units_eq_0_iff [of ?rem] by (auto simp: outcome_ok_def came_to_rest_def)
    have "?x \<in> set (ladder_orders (ab_sides ab1 (order_side ord)))"
      using True p by (simp add: run_tells(2) [OF exec] after_report_def Let_def rest_at_orders)
    then obtain p' where rest: "rests ab1 (order_side ord) p' ?x" by (force simp: rests_def ladder_orders_def)
    have id: "order_id ?x = ?id" by (simp add: left_over_def)
    have "remaining_quantity ?x \<noteq> 0" using x some by (metis units_eq_0_iff)
    from cascade_accounts [OF later rest _ this] stops
    have acc: "accounted rs (abs_of S A b) ?id (units left)" unfolding id x diff by simp
    have "if stp then rested_remaining A b ?id = None else or_zero (rested_remaining A b ?id) + eaten = left"
    proof (cases stp)
      case True
      with acc stp show ?thesis by (simp add: accounted_def not_held_rested [OF b])
    next
      case False
      let ?n = "traded_to (trades_of rs) ?id"
      have n: "?n \<le> units (left)" using acc stp False by (simp add: accounted_def)
      have e: "units eaten = ?n" using units_bound [OF n] by (simp add: eaten unat_of_nat)
      have "units (or_zero (rested_remaining A b ?id)) + ?n = units (left)"
      proof (cases "?n = units (left)")
        case True
        with acc stp False show ?thesis by (simp add: accounted_def not_held_rested [OF b] or_zero_def)
      next
        case held: False
        with acc stp False obtain sd p y where y: "rests (abs_of S A b) sd p y" "order_id y = ?id"
          "units (remaining_quantity y) + ?n = units (left)" by (auto simp: accounted_def)
        then have "rested_remaining A b ?id = Some (remaining_quantity y)" using rested_remaining_iff(1) [OF b] by blast
        with y(3) show ?thesis by (simp add: or_zero_def)
      qed
      then have "units (or_zero (rested_remaining A b ?id) + eaten) = units (left)"
        using units_add [of "or_zero (rested_remaining A b ?id)" eaten] units_bound [OF order_refl, of "left"]
        unfolding e by simp
      with False show ?thesis by (simp only: qty_eq_units if_False)
    qed
    moreover have "left = ?rem" if "?ts = []" using that by (simp add: left_def qty_sum_def)
    moreover have "?filled \<noteq> 0" if "?ts \<noteq> []"
    proof -
      from that obtain t where t: "t \<in> set ?ts" by (meson last_in_set)
      have "units (trade_quantity t) \<le> traded_units ?ts"
        unfolding traded_units_def by (rule member_le_sum_list) (use t in auto)
      moreover have "units (trade_quantity t) \<noteq> 0" using executes_trades(1) [OF exec t] by simp
      ultimately have "units ?filled \<noteq> 0" unfolding filled by linarith
      then show ?thesis by (metis units_eq_0_iff)
    qed
    moreover have "?filled < ?rem" if "traded_units ?ts < units ?rem" using that by (simp only: qty_less_units filled)
    ultimately show ?thesis using out True
      by (auto simp: outcome_accounts_def outcome_ok_def came_to_rest_def Let_def left_def)
  qed
qed

lemma submitted_run:
  assumes exec: "executes ab (activate ord) r ab1" and later: "cascades ab1 rs (abs_of S A b)" and b: "book_ok S ok covers A b"
    and report: "report_id report = order_id ord" "report_outcome report = report_outcome r" "report_trades report = report_trades r"
      "report_cancelled report = report_cancelled r"
    and same: "original_quantity ord = remaining_quantity ord"
    and eaten: "eaten = Qty (of_nat (traded_to (trades_of rs) (order_id ord)))"
    and stp: "stp \<longleftrightarrow> (\<exists>r\<in>set rs. order_id ord \<in> set (report_cancelled r))"
  shows "submitted_accounts A b ord report eaten stp"
proof -
  have "outcome_accounts (remaining_quantity (activate ord)) r (rested_remaining A b (order_id (activate ord))) eaten stp"
    by (rule run_accounts [OF exec later b]) (simp_all add: activate_id eaten stp)
  then have acc: "outcome_accounts (original_quantity ord) report (rested_remaining A b (report_id report)) eaten stp"
    unfolding outcome_accounts_def report same activate_id activate_simps .
  have out: "outcome_ok (activate ord) r" by (rule run_tells(4) [OF exec])
  then have "can_kill (otype ord)" if "report_outcome r = Killed"
    using that by (cases "otype ord") (auto simp: outcome_ok_def activate_def intro: time_in_force.exhaust)
  moreover have "report_trades r = [] \<and> report_cancelled r = []" if "report_outcome r = Killed" "is_fok (otype ord)"
    using that out by (cases "otype ord") (simp_all add: outcome_ok_def activate_def is_fok_def)
  moreover have "report_outcome r \<noteq> StopPending" using out by (auto simp: outcome_ok_def)
  ultimately show ?thesis
    using acc by (cases "report_outcome r") (simp_all add: submitted_accounts_def report qty_sum_def)
qed

lemma submitted_accounts_cong:
  assumes "otype o1 = otype o2" and "original_quantity o1 = original_quantity o2"
  shows "submitted_accounts A b o1 report eaten stp \<longleftrightarrow> submitted_accounts A b o2 report eaten stp"
  using assms by (cases "report_outcome report") (simp_all add: submitted_accounts_def is_stop_def)

section \<open>It passes\<close>

lemma conservation_body_passes:
  assumes run: "run_ok S ok covers A spec (Suc k) b" and ord: "streamable spec ord" "original_quantity ord = remaining_quantity ord"
    and submit: "spec_submit (abs_of S A b) ord = (Inr report, abs_of S A b')" and run': "run_ok S ok covers A spec k b'"
    and settled: "spec_pop (abs_of S A b) = None"
    and waiting: "\<forall>x\<in>set (stop_orders (abs_of S A b)). waiting (order_id x) = Some (remaining_quantity x)"
  shows "\<exists>waiting'. conservation_body A b ord report b' waiting = Some waiting' \<and>
    (\<forall>x\<in>set (stop_orders (abs_of S A b')). waiting' (order_id x) = Some (remaining_quantity x))"
proof -
  let ?ab = "abs_of S A b" and ?ord = "numbered (abs_of S A b) ord"
  let ?id = "from_sequence (ab_seq ?ab)" and ?rs = "report_triggered report"
  note b' = run_okD(1) [OF run']
  obtain r ab1 where runs: "starts ?ab ord r ab1" "cascades ab1 ?rs (abs_of S A b')" "report = with_triggered r ?rs"
    by (rule run_submission [OF run ord(1) submit])
  note fresh = starts_own_id [OF runs(1)]
  have report: "report_id report = ?id" "report_outcome report = report_outcome r" "report_trades report = report_trades r"
    "report_cancelled report = report_cancelled r" "all_reports report = report # ?rs"
    using with_triggered_facts [OF starts_report(2) [OF runs(1)], of ?rs] starts_report(1) [OF runs(1)]
    unfolding runs(3) [symmetric] by simp_all
  let ?fills = "fills_by_maker report" and ?stp = "\<lambda>i. \<exists>r\<in>set (all_reports report). i \<in> set (report_cancelled r)"
  have fills: "or_zero (?fills i) = Qty (of_nat (traded_to (trades_of (all_reports report)) i))" for i by (rule fills_by_maker_at)
  define w where "w = (if report_outcome report = StopPending then waiting(report_id report \<mapsto> original_quantity ord) else waiting)"
  let ?f = "\<lambda>i :: nat. triggered_report A b' ?fills ?stp"
  let ?J = "\<lambda>ab rs w. \<exists>P. all_reports report = P @ rs \<and> (\<forall>r\<in>set P. \<forall>t\<in>set (report_trades r). trade_quantity t \<noteq> 0) \<and>
      (\<forall>x\<in>set (stop_orders ab). w (order_id x) = Some (remaining_quantity x) \<and> traded_to (trades_of P) (order_id x) = 0 \<and>
         (\<forall>r\<in>set P. order_id x \<notin> set (report_cancelled r)))"
  have spared: "traded_to (report_trades r) (order_id x) = 0 \<and> order_id x \<notin> set (report_cancelled r)"
    if "executes ab o1 r ab2" "x \<in> set (stop_orders ab)" for ab o1 r ab2 x
  proof -
    have "\<not> held_in ab (order_id x)" using rests_no_stop [OF executes_ids(1) [OF that(1)] _ that(2)] by (metis held_in_def)
    from run_spares [OF that(1) this] show ?thesis by blast
  qed
  have first: "submitted_accounts A b' ord report (or_zero (?fills ?id)) (?stp ?id) \<and> ?J ab1 ?rs w"
  proof -
    from runs(1) consider "executes (?ab\<lparr>ab_seq := ab_seq ?ab + 1\<rparr>) (activate ?ord) r ab1"
      | "parks (?ab\<lparr>ab_seq := ab_seq ?ab + 1\<rparr>) ?ord r ab1" by (auto simp: starts_def)
    then show ?thesis
    proof cases
      case 1
      have own: "order_id (activate ?ord) = ?id" by (simp add: numbered_def activate_id)
      have "submitted_accounts A b' ?ord report (or_zero (?fills ?id)) (?stp ?id)"
        by (rule submitted_run [OF 1 runs(2) b'])
          (use run_own_id(2,3) [OF 1] own ord(2) in \<open>simp_all add: numbered_def report fills\<close>)
      then have "submitted_accounts A b' ord report (or_zero (?fills ?id)) (?stp ?id)"
        by (subst submitted_accounts_cong [where ?o2.0 = ?ord]) (simp_all add: numbered_def)
      moreover have "w = waiting" using run_tells(4) [OF 1] report(2) by (auto simp: w_def outcome_ok_def)
      then have "?J ab1 ?rs w"
        using executes_trades(1) [OF 1] spared [OF 1] waiting executes_ids(4) [OF 1]
        by (intro exI [of _ "[report]"]) (simp add: report)
      ultimately show ?thesis by blast
    next
      case 2
      then have none: "?rs = []" and eq: "abs_of S A b' = ab1" using settled_cascade [OF runs(2)] settled by (simp_all add: parks_def)
      have r: "r = ExecutionReport ?id [] StopPending [] []" using 2 by (simp add: parks_def numbered_def)
      have set: "set (stop_orders ab1) = insert ?ord (set (stop_orders ?ab))"
      proof -
        have "stop_orders (?ab\<lparr>ab_seq := ab_seq ?ab + 1\<rparr>) = stop_orders ?ab" by (simp add: stop_orders_def)
        then have "mset (stop_orders ab1) = add_mset ?ord (mset (stop_orders ?ab))" using 2 by (simp only: parks_def)
        from arg_cong [OF this, of set_mset] show ?thesis by simp
      qed
      have own: "order_id ?ord = ?id" "remaining_quantity ?ord = remaining_quantity ord" by (simp_all add: numbered_def)
      have "parked_remaining A b' ?id = Some (remaining_quantity ord)"
        unfolding rested_remaining_iff(2) [OF b'] eq using set own by blast
      then have "submitted_accounts A b' ord report (or_zero (?fills ?id)) (?stp ?id)"
        using 2 ord(2) by (simp add: submitted_accounts_def report r parks_def is_stop_def numbered_def)
      moreover have "w (order_id x) = Some (remaining_quantity x)" if "x \<in> set (stop_orders ab1)" for x
      proof (cases "x = ?ord")
        case False
        with that set have x: "x \<in> set (stop_orders ?ab)" by simp
        with fresh(2) [OF x] waiting show ?thesis by (simp add: w_def report)
      qed (simp add: w_def report r own ord(2))
      then have "?J ab1 ?rs w" by (intro exI [of _ "[report]"]) (simp add: report r none traded_to_def)
      ultimately show ?thesis by blast
    qed
  qed
  have "\<exists>w'. over_reports ?f 1 ?rs w = Some w' \<and> ?J (abs_of S A b') [] w'"
  proof (rule cascade_passes [OF runs(2), where J = ?J])
    fix i :: nat and ab stop ab2 r ab3 rs w
    assume J: "?J ab (r # rs) w" and pop: "spec_pop ab = Some (stop, ab2)"
      and exec: "executes ab2 (activate stop) r ab3" and later: "cascades ab3 rs (abs_of S A b')"
    obtain P where P: "all_reports report = P @ r # rs" "\<forall>r\<in>set P. \<forall>t\<in>set (report_trades r). trade_quantity t \<noteq> 0"
      and stops: "\<And>x. x \<in> set (stop_orders ab) \<Longrightarrow> w (order_id x) = Some (remaining_quantity x) \<and> traded_to (trades_of P) (order_id x) = 0 \<and>
        (\<forall>r\<in>set P. order_id x \<notin> set (report_cancelled r))" using J by blast
    have id: "report_id r = order_id stop" "order_id (activate stop) = order_id stop" using run_tells(5) [OF exec] by (simp_all add: activate_id)
    have mem: "set (stop_orders ab) = insert stop (set (stop_orders ab3))"
      using popped_sides(3) [OF pop] executes_ids(4) [OF exec] by simp
    then have stop: "w (order_id stop) = Some (remaining_quantity stop)" "traded_to (trades_of P) (order_id stop) = 0"
      "\<forall>r\<in>set P. order_id stop \<notin> set (report_cancelled r)" using stops by blast+
    note own = run_own_id [OF exec, unfolded id(2)]
    have "outcome_accounts (remaining_quantity (activate stop)) r (rested_remaining A b' (order_id (activate stop)))
        (or_zero (?fills (order_id stop))) (?stp (order_id stop))"
      by (rule run_accounts [OF exec later b'])
        (use own stop in \<open>auto simp: fills P(1) id(2)\<close>)
    then have "?f i r w = Some (w(order_id stop := None))"
      using stop(1) run_tells(6) [OF exec] by (simp add: triggered_report_def id)
    moreover have "?J ab3 rs (w(order_id stop := None))"
    proof (intro exI [of _ "P @ [r]"] conjI ballI)
      show "all_reports report = (P @ [r]) @ rs" by (simp add: P(1))
      show "trade_quantity t \<noteq> 0" if "r' \<in> set (P @ [r])" "t \<in> set (report_trades r')" for r' t
        using that P(2) executes_trades(1) [OF exec] by auto
      fix x assume x: "x \<in> set (stop_orders ab3)"
      then have x2: "x \<in> set (stop_orders ab2)" using executes_ids(4) [OF exec] by simp
      note old = stops [of x] and spared = spared [OF exec x2]
      show "(w(order_id stop := None)) (order_id x) = Some (remaining_quantity x)"
        using old executes_ids(3) [OF exec x2] x mem by (simp add: id(2))
      show "traded_to (trades_of (P @ [r])) (order_id x) = 0" using old spared x mem by simp
      show "order_id x \<notin> set (report_cancelled r')" if "r' \<in> set (P @ [r])" for r' using that old spared x mem by auto
    qed
    ultimately show "\<exists>w'. ?f i r w = Some w' \<and> ?J ab3 rs w'" by blast
  qed (use first in auto)
  then obtain w' where w': "over_reports ?f 1 ?rs w = Some w'" "\<forall>r\<in>set (all_reports report). \<forall>t\<in>set (report_trades r). trade_quantity t \<noteq> 0"
    "\<forall>x\<in>set (stop_orders (abs_of S A b')). w' (order_id x) = Some (remaining_quantity x)" by auto
  have "conservation_body A b ord report b' waiting = Some w'"
    using w'(1,2) first by (simp add: conservation_body_def report(1) w_def)
  with w'(3) show ?thesis by blast
qed

lemma conservation_passes:
  assumes "prop_spec D = Some spec" and "spec_ok spec" and "new_book S A spec mtch = Some b"
    and "matching_algorithm mtch (lot_size spec)" and "\<forall>ord\<in>set stream. streamable spec ord" and "length stream + 1 < 2 ^ 32"
    and "\<forall>ord\<in>set stream. original_quantity ord = remaining_quantity ord"
  shows "check_conservation D S A mtch stream = Some ()"
proof -
  let ?J = "\<lambda>(ords :: order list) b waiting. spec_pop (abs_of S A b) = None \<and>
    (\<forall>x\<in>set (stop_orders (abs_of S A b)). waiting (order_id x) = Some (remaining_quantity x)) \<and>
    (\<forall>ord\<in>set ords. original_quantity ord = remaining_quantity ord)"
  note new = new_book_run_ok [OF assms(3,2,4,6)]
  have "run_ok S ok covers A spec (length stream + 0) b" "?J stream b Map.empty"
    using new assms(7) by (simp_all add: spec_pop_def stop_due_def nearest_def stop_orders_def)
  then have "\<exists>b' st'. over_stream S A (conservation_body A) stream b Map.empty = Some (b', st') \<and> run_ok S ok covers A spec 0 b' \<and> ?J [] b' st'"
  proof (intro over_stream_keeps [where J = ?J and n = 0])
    fix k b ord ords report b' waiting
    assume "run_ok S ok covers A spec (Suc k) b" "streamable spec ord" "spec_submit (abs_of S A b) ord = (Inr report, abs_of S A b')"
      "run_ok S ok covers A spec k b'" "spec_pop (abs_of S A b') = None" "?J (ord # ords) b waiting"
    with conservation_body_passes [of spec k b ord report b' waiting]
    show "\<exists>st'. conservation_body A b ord report b' waiting = Some st' \<and> ?J ords b' st'" by fastforce
  qed (simp_all add: assms(5))
  with assms(1,3) show ?thesis by (auto simp: check_conservation_def)
qed

end

end
