(* ===== verification/Property_Depth.thy ===== *)
theory Property_Depth
  imports Property_Quantities
begin

text \<open>
  Invariant 2 of the property-based tests, \<^verbatim>\<open>src/tests/properties.rs\<close>: every submission changes the
  depth of the book by exactly what came to rest less what was filled and what was cancelled.
\<close>

section \<open>The test\<close>

type_synonym depth_state = "qty \<times> qty \<times> qty \<times> (exchange_id \<rightharpoonup> qty)"

text \<open>What remained of the cancelled orders: what they had when they came to rest less all they traded.\<close>

fun cancelled_walk ::
    "(exchange_id \<rightharpoonup> side \<times> price \<times> qty) \<Rightarrow> (exchange_id \<rightharpoonup> qty) \<Rightarrow> (exchange_id \<rightharpoonup> qty) \<Rightarrow> exchange_id list \<Rightarrow> qty \<Rightarrow>
       qty option" where
  "cancelled_walk held fills rest_qty [] acc = Some acc"
| "cancelled_walk held fills rest_qty (i # js) acc = do {
     start \<leftarrow> (case held i of Some (_, _, remaining) \<Rightarrow> Some remaining | None \<Rightarrow> rest_qty i);
     cancelled_walk held fills rest_qty js (acc + (start - or_zero (fills i)))
   }"

definition depth_report ::
    "(exchange_id \<rightharpoonup> side \<times> price \<times> qty) \<Rightarrow> (exchange_id \<rightharpoonup> qty) \<Rightarrow> qty \<Rightarrow> execution_report \<Rightarrow> depth_state \<Rightarrow>
       depth_state option" where
  "depth_report held fills original r st = (case st of (filled_total, rested_total, cancelled_total, rest_qty) \<Rightarrow> do {
     let filled = qty_sum (map trade_quantity (report_trades r));
     let filled_total = filled_total + filled;
     let at_rest = original - filled;
     let (rested_total, rest_qty) =
       (if report_outcome r = Rested \<or> report_outcome r = PartiallyFilledAndRested
        then (rested_total + at_rest, rest_qty(report_id r \<mapsto> at_rest)) else (rested_total, rest_qty));
     cancelled_total \<leftarrow> cancelled_walk held fills rest_qty (report_cancelled r) cancelled_total;
     Some (filled_total, rested_total, cancelled_total, rest_qty)
   })"

definition forget_triggered :: "execution_report \<Rightarrow> (exchange_id \<rightharpoonup> qty) \<Rightarrow> (exchange_id \<rightharpoonup> qty)" where
  "forget_triggered report waiting = fold (\<lambda>r waiting. waiting(report_id r := None)) (report_triggered report) waiting"

definition depth_body ::
    "('s, 'k) store_ops \<Rightarrow> ('m, 'k) arena_ops \<Rightarrow> ('s, 'm, 'k) order_book \<Rightarrow> order \<Rightarrow> execution_report \<Rightarrow>
       ('s, 'm, 'k) order_book \<Rightarrow> (exchange_id \<rightharpoonup> qty) \<Rightarrow> (exchange_id \<rightharpoonup> qty) option" where
  "depth_body S A before ord report b waiting = do {
     let original = original_quantity ord;
     held \<leftarrow> resting_snapshot S A before;
     depth_before \<leftarrow> total_depth S A before;
     let fills = fills_by_maker report;
     (filled_total, rested_total, cancelled_total, rest_qty) \<leftarrow> over_reports (\<lambda>i r st. do {
         exec_original \<leftarrow> (if i = 0 then Some original else waiting (report_id r));
         depth_report held fills exec_original r st
       }) 0 (all_reports report) (0, 0, 0, Map.empty);
     let waiting = forget_triggered report waiting;
     let waiting = (if report_outcome report = StopPending then waiting(report_id report \<mapsto> original) else waiting);
     depth_after \<leftarrow> total_depth S A b;
     assert_that (int (units depth_after) =
       int (units depth_before) + int (units rested_total) - int (units filled_total) - int (units cancelled_total));
     Some waiting
   }"

definition check_depth_accounting ::
    "'d decimal_ops \<Rightarrow> ('s, 'k) store_ops \<Rightarrow> ('m, 'k) arena_ops \<Rightarrow> matcher \<Rightarrow> order list \<Rightarrow> unit option" where
  "check_depth_accounting D S A mtch stream = do {
     spec \<leftarrow> prop_spec D;
     b \<leftarrow> new_book S A spec mtch;
     over_stream S A (depth_body S A) stream b Map.empty;
     Some ()
   }"

section \<open>The walk over the cancelled\<close>

lemma cancelled_walk_passes:
  assumes "\<forall>x\<in>set gone. \<exists>q. (case held (order_id x) of Some (_, _, q) \<Rightarrow> Some q | None \<Rightarrow> rq (order_id x)) = Some q \<and>
      units q - units (or_zero (fills (order_id x))) = units (remaining_quantity x) \<and>
      units (or_zero (fills (order_id x))) \<le> units q"
    and "units ct + order_units gone < 2 ^ 64"
  shows "\<exists>ct'. cancelled_walk held fills rq (map order_id gone) ct = Some ct' \<and> units ct' = units ct + order_units gone"
  using assms
proof (induction gone arbitrary: ct)
  case (Cons x gone)
  obtain q where q: "(case held (order_id x) of Some (_, _, q) \<Rightarrow> Some q | None \<Rightarrow> rq (order_id x)) = Some q"
    "units q - units (or_zero (fills (order_id x))) = units (remaining_quantity x)"
    "units (or_zero (fills (order_id x))) \<le> units q" using Cons.prems(1) by auto
  let ?q = "q - or_zero (fills (order_id x))"
  have "units ?q = units (remaining_quantity x)" using q(2,3) units_diff [of "or_zero (fills (order_id x))" q]
    by (simp only: qty_le_units)
  with Cons.prems(2) units_add [of ct ?q] have ct: "units (ct + ?q) = units ct + units (remaining_quantity x)" by simp
  obtain ct' where "cancelled_walk held fills rq (map order_id gone) (ct + ?q) = Some ct'" "units ct' = units (ct + ?q) + order_units gone"
    using Cons.IH [of "ct + ?q"] Cons.prems unfolding ct by auto
  with q(1) show ?case unfolding ct by simp
qed simp

section \<open>One run\<close>

text \<open>
  The books of the loop: \<open>N\<close> bounds all there is; \<open>T\<close> is what was traded so far, and every order that
  rests has what it came to rest with less its share of that.
\<close>

definition balanced ::
    "nat \<Rightarrow> nat \<Rightarrow> nat \<Rightarrow> (exchange_id \<rightharpoonup> side \<times> price \<times> qty) \<Rightarrow> (exchange_id \<rightharpoonup> qty) \<Rightarrow> trade list \<Rightarrow> depth_state \<Rightarrow>
       abs_book \<Rightarrow> bool" where
  "balanced N D n held waiting T st ab \<longleftrightarrow> (case st of (ft, rt, ct, rq) \<Rightarrow>
     D + units rt = side_units ab + units ft + units ct \<and>
     D + units rt + order_units (stop_orders ab) + n \<le> N \<and>
     (\<forall>sd p x. rests ab sd p x \<longrightarrow>
        (\<exists>q. (case held (order_id x) of Some (_, _, q) \<Rightarrow> Some q | None \<Rightarrow> rq (order_id x)) = Some q \<and>
           units (remaining_quantity x) + traded_to T (order_id x) = units q)) \<and>
     (\<forall>x\<in>set (stop_orders ab). waiting (order_id x) = Some (remaining_quantity x) \<and> held (order_id x) = None \<and>
        traded_to T (order_id x) = 0))"

lemma balanced_run:
  assumes exec: "executes ab ord r ab'" and later: "cascades ab' rs ab3" and N: "N < 2 ^ 64"
    and bal: "balanced N D (units (remaining_quantity ord)) held waiting T st ab"
    and own: "held (order_id ord) = None" "traded_to T (order_id ord) = 0"
    and fills: "\<And>i. or_zero (fills i) = Qty (of_nat (traded_to (T @ report_trades r @ trades_of rs) i))"
  shows "\<exists>st'. depth_report held fills (remaining_quantity ord) r st = Some st' \<and>
    balanced N D 0 held waiting (T @ report_trades r) st' ab'"
proof -
  obtain ft rt ct rq where st: "st = (ft, rt, ct, rq)" by (cases st) auto
  let ?ts = "report_trades r" and ?id = "order_id ord" and ?rem = "remaining_quantity ord"
  obtain gone where gone: "report_cancelled r = map order_id gone" "\<forall>x\<in>set gone. \<exists>sd p. rests ab sd p x"
    "side_units ab + (if came_to_rest r then units ?rem - traded_units ?ts else 0) =
      side_units ab' + traded_units ?ts + order_units gone" "traded_units ?ts \<le> units ?rem"
    by (rule run_units [OF exec])
  have D: "D + units rt = side_units ab + units ft + units ct"
    and cap: "D + units rt + order_units (stop_orders ab) + units ?rem \<le> N"
    and starts: "\<And>sd p x. rests ab sd p x \<Longrightarrow>
        \<exists>q. (case held (order_id x) of Some (_, _, q) \<Rightarrow> Some q | None \<Rightarrow> rq (order_id x)) = Some q \<and>
           units (remaining_quantity x) + traded_to T (order_id x) = units q"
    and stops: "\<And>x. x \<in> set (stop_orders ab) \<Longrightarrow> waiting (order_id x) = Some (remaining_quantity x) \<and> held (order_id x) = None \<and>
        traded_to T (order_id x) = 0"
    using bal unfolding balanced_def st by auto
  let ?filled = "qty_sum (map trade_quantity ?ts)"
  let ?at_rest = "?rem - ?filled"
  let ?rt = "if came_to_rest r then rt + ?at_rest else rt" and ?rq = "if came_to_rest r then rq(?id \<mapsto> ?at_rest) else rq"
  note filled = filled_units [OF exec]
  have at_rest: "units ?at_rest = units ?rem - traded_units ?ts"
    using units_diff [of ?filled ?rem] gone(4) unfolding qty_le_units filled by simp
  have rt: "units ?rt = units rt + (if came_to_rest r then units ?rem - traded_units ?ts else 0)"
    using units_add [of rt ?at_rest] cap N unfolding at_rest by (cases "came_to_rest r") auto
  have total: "D + units ?rt = side_units ab' + (units ft + traded_units ?ts) + (units ct + order_units gone)"
    unfolding rt using D gone(3) by linarith
  have cap': "D + units ?rt + order_units (stop_orders ab') + 0 \<le> N"
  proof -
    have "(if came_to_rest r then units ?rem - traded_units ?ts else 0) \<le> units ?rem" by simp
    then show ?thesis unfolding rt executes_ids(4) [OF exec] using cap by linarith
  qed
  have ft: "units (ft + ?filled) = units ft + traded_units ?ts"
    using units_add [of ft ?filled] total cap' N unfolding filled by linarith
  have ids: "order_id x \<noteq> ?id" if "rests ab sd p x" for sd p x by (rule executes_ids(2) [OF exec that])
  have "\<exists>ct'. cancelled_walk held fills ?rq (map order_id gone) ct = Some ct' \<and> units ct' = units ct + order_units gone"
  proof (rule cancelled_walk_passes)
    show "units ct + order_units gone < 2 ^ 64" using total cap' N by linarith
    show "\<forall>x\<in>set gone. \<exists>q. (case held (order_id x) of Some (_, _, q) \<Rightarrow> Some q | None \<Rightarrow> ?rq (order_id x)) = Some q \<and>
      units q - units (or_zero (fills (order_id x))) = units (remaining_quantity x) \<and> units (or_zero (fills (order_id x))) \<le> units q"
    proof
      fix x assume x: "x \<in> set gone"
      obtain sd p where rest: "rests ab sd p x" using gone(2) x by blast
      obtain q where q: "(case held (order_id x) of Some (_, _, q) \<Rightarrow> Some q | None \<Rightarrow> rq (order_id x)) = Some q"
        "units (remaining_quantity x) + traded_to T (order_id x) = units q" using starts [OF rest] by blast
      have mem: "order_id x \<in> set (report_cancelled r)" using gone(1) x by simp
      have "\<not> held_in ab' (order_id x)" by (rule gone_after [OF exec rest disjI1 [OF mem]])
      moreover have "order_id x \<notin> order_id ` set (stop_orders ab')"
        unfolding executes_ids(4) [OF exec] using rests_no_stop [OF executes_ids(1) [OF exec] rest] by (metis imageE)
      ultimately have "traded_to (trades_of rs) (order_id x) = 0" using cascade_spares [OF later] by blast
      moreover have "traded_to ?ts (order_id x) = 0" using fill_storyD(3) [OF run_tells(1) [OF exec]] mem by blast
      ultimately have "or_zero (fills (order_id x)) = Qty (of_nat (traded_to T (order_id x)))" by (simp add: fills)
      moreover have "traded_to T (order_id x) < 2 ^ 64" by (rule units_bound [of _ q]) (use q(2) in simp)
      ultimately have "units (or_zero (fills (order_id x))) = traded_to T (order_id x)" by (simp add: unat_of_nat)
      with q(2) have "units q - units (or_zero (fills (order_id x))) = units (remaining_quantity x)"
        "units (or_zero (fills (order_id x))) \<le> units q" by linarith+
      moreover have "?rq (order_id x) = rq (order_id x)" using ids [OF rest] by simp
      ultimately show "\<exists>q. (case held (order_id x) of Some (_, _, q) \<Rightarrow> Some q | None \<Rightarrow> ?rq (order_id x)) = Some q \<and>
        units q - units (or_zero (fills (order_id x))) = units (remaining_quantity x) \<and> units (or_zero (fills (order_id x))) \<le> units q"
        using q(1) by metis
    qed
  qed
  then obtain ct' where ct': "cancelled_walk held fills ?rq (report_cancelled r) ct = Some ct'" "units ct' = units ct + order_units gone"
    unfolding gone(1) by blast
  have rest: "report_outcome r = Rested \<or> report_outcome r = PartiallyFilledAndRested \<longleftrightarrow> came_to_rest r"
    by (simp add: came_to_rest_def)
  have "depth_report held fills ?rem r st = Some (ft + ?filled, ?rt, ct', ?rq)"
    using ct'(1) run_tells(5) [OF exec] by (cases "came_to_rest r") (simp_all add: depth_report_def st rest Let_def)
  moreover have "balanced N D 0 held waiting (T @ ?ts) (ft + ?filled, ?rt, ct', ?rq) ab'"
  proof -
    have "\<exists>q. (case held (order_id x) of Some (_, _, q) \<Rightarrow> Some q | None \<Rightarrow> ?rq (order_id x)) = Some q \<and>
        units (remaining_quantity x) + traded_to (T @ ?ts) (order_id x) = units q" if x: "rests ab' sd p x" for sd p x
      using rests_after [OF exec x]
    proof (elim disjE exE conjE)
      fix y assume y: "rests ab sd p y" "x = settle_order ?ts y"
      have x: "units (remaining_quantity x) + traded_to ?ts (order_id y) = units (remaining_quantity y)" "order_id x = order_id y"
        using units_settle_order [of ?ts y] run_traded_le [OF exec y(1)] y(2) by simp_all
      have same: "?rq (order_id y) = rq (order_id y)" using ids [OF y(1)] by simp
      obtain q where q: "(case held (order_id y) of Some (_, _, q) \<Rightarrow> Some q | None \<Rightarrow> rq (order_id y)) = Some q"
        "units (remaining_quantity y) + traded_to T (order_id y) = units q" using starts [OF y(1)] by blast
      have "units (remaining_quantity x) + traded_to (T @ ?ts) (order_id x) = units q"
        using x q(2) by simp
      then show ?thesis unfolding x(2) same using q(1) by blast
    next
      assume new: "came_to_rest r" "x = (left_over ord r)\<lparr>arrival := ab_arrival ab\<rparr>"
      have "units (remaining_quantity (left_over ord r)) = units ?at_rest"
        using fill_storyD(8) [OF run_tells(1) [OF exec]] at_rest by simp
      then have "remaining_quantity x = ?at_rest" using qty_eq_units by (simp add: new(2))
      then show ?thesis
        using new own run_own_id(2) [OF exec] by (simp add: left_over_def)
    qed
    moreover have "waiting (order_id x) = Some (remaining_quantity x) \<and> held (order_id x) = None \<and> traded_to (T @ ?ts) (order_id x) = 0"
      if "x \<in> set (stop_orders ab')" for x
    proof -
      have x: "x \<in> set (stop_orders ab)" using that executes_ids(4) [OF exec] by simp
      have "\<not> held_in ab (order_id x)"
        using rests_no_stop [OF executes_ids(1) [OF exec] _ x] by (metis held_in_def)
      with stops [OF x] run_spares(1) [OF exec] show ?thesis by simp
    qed
    ultimately show ?thesis unfolding balanced_def prod.case using total cap' ft ct'(2) by simp
  qed
  ultimately show ?thesis by blast
qed

section \<open>It passes\<close>

lemma forget_triggered_at:
  "forget_triggered report w i = (if i \<in> report_id ` set (report_triggered report) then None else w i)"
proof -
  have "fold (\<lambda>r w. w(report_id r := None)) rs w i = (if i \<in> report_id ` set rs then None else w i)" for rs w
    by (induction rs arbitrary: w) auto
  then show ?thesis unfolding forget_triggered_def .
qed

lemma depth_report_triggered: "depth_report held fills q (with_triggered r rs) st = depth_report held fills q r st"
  by (cases r; cases st) (auto simp: depth_report_def Let_def)

context book_engine begin

lemma depth_body_passes:
  assumes run: "run_ok S ok covers A spec (Suc k) b" and ord: "streamable spec ord" "original_quantity ord = remaining_quantity ord"
    and submit: "spec_submit (abs_of S A b) ord = (Inr report, abs_of S A b')" and run': "run_ok S ok covers A spec k b'"
    and settled: "spec_pop (abs_of S A b) = None"
    and waiting: "\<forall>x\<in>set (stop_orders (abs_of S A b)). waiting (order_id x) = Some (remaining_quantity x)"
    and room: "side_units (abs_of S A b) + order_units (stop_orders (abs_of S A b)) + units (remaining_quantity ord) < 2 ^ 64"
  shows "\<exists>waiting'. depth_body S A b ord report b' waiting = Some waiting' \<and>
    (\<forall>x\<in>set (stop_orders (abs_of S A b')). waiting' (order_id x) = Some (remaining_quantity x)) \<and>
    side_units (abs_of S A b') + order_units (stop_orders (abs_of S A b')) \<le>
      side_units (abs_of S A b) + order_units (stop_orders (abs_of S A b)) + units (remaining_quantity ord)"
proof -
  let ?ab = "abs_of S A b" and ?ord = "numbered (abs_of S A b) ord" and ?rem = "remaining_quantity ord"
  let ?id = "from_sequence (ab_seq ?ab)" and ?rs = "report_triggered report" and ?D = "side_units (abs_of S A b)"
  let ?N = "?D + order_units (stop_orders ?ab) + units ?rem"
  obtain r ab1 where runs: "starts ?ab ord r ab1" "cascades ab1 ?rs (abs_of S A b')" "report = with_triggered r ?rs"
    by (rule run_submission [OF run ord(1) submit])
  note fresh = starts_own_id [OF runs(1)]
  have ids: "distinct (map order_id (ab_orders ?ab))" by (rule represented_ids(1) [OF run_okD(5) [OF run]])
  obtain held where held: "resting_snapshot S A b = Some held"
    "\<And>i sd p q. held i = Some (sd, p, q) \<longleftrightarrow> (\<exists>x. rests ?ab sd p x \<and> order_id x = i \<and> remaining_quantity x = q)"
    by (rule snapshot_at [OF run_okD(1) [OF run]]) blast
  have unheld: "held i = None" if "\<not> held_in ?ab i" for i
    using that held(2) [of i] unfolding held_in_def by (cases "held i") (auto, metis)
  let ?fills = "fills_by_maker report"
  have report: "report_id report = ?id" "report_outcome report = report_outcome r" "report_trades report = report_trades r"
    "all_reports report = report # ?rs"
    using with_triggered_facts [OF starts_report(2) [OF runs(1)], of ?rs] starts_report(1) [OF runs(1)]
    unfolding runs(3) [symmetric] by simp_all
  have fills: "or_zero (?fills i) = Qty (of_nat (traded_to (report_trades r @ trades_of ?rs) i))" for i
    by (simp add: fills_by_maker_at report(3,4))
  define w where "w = (if report_outcome report = StopPending then waiting(?id \<mapsto> ?rem) else waiting)"
  let ?f = "\<lambda>i r st. do { exec_original \<leftarrow> (if i = 0 then Some (original_quantity ord) else waiting (report_id r));
      depth_report held ?fills exec_original r st }"
  let ?J = "\<lambda>ab rs st. (w = waiting \<or> rs = []) \<and> (\<exists>T. balanced ?N ?D 0 held w T st ab \<and>
      (\<forall>i. or_zero (?fills i) = Qty (of_nat (traded_to (T @ trades_of rs) i))))"
  have start: "balanced ?N ?D (units ?rem) held waiting [] (0, 0, 0, Map.empty) ?ab"
  proof -
    have "\<exists>q. (case held (order_id x) of Some (_, _, q) \<Rightarrow> Some q | None \<Rightarrow> None) = Some q \<and> units (remaining_quantity x) = units q"
      if "rests ?ab sd p x" for sd p x
    proof -
      have "held (order_id x) = Some (sd, p, remaining_quantity x)" using that held(2) by blast
      then show ?thesis by simp
    qed
    moreover have "held (order_id x) = None" if "x \<in> set (stop_orders ?ab)" for x
      using rests_no_stop [OF ids _ that] unheld [of "order_id x"] by (metis held_in_def)
    ultimately show ?thesis using waiting unfolding balanced_def prod.case by (simp add: traded_to_def)
  qed
  have "\<exists>st'. over_reports ?f 0 (all_reports report) (0, 0, 0, Map.empty) = Some st' \<and> ?J (abs_of S A b') [] st'"
  proof (rule submission_passes [OF runs, where J = ?J])
    from runs(1) consider "executes (?ab\<lparr>ab_seq := ab_seq ?ab + 1\<rparr>) (activate ?ord) r ab1"
      | "parks (?ab\<lparr>ab_seq := ab_seq ?ab + 1\<rparr>) ?ord r ab1" by (auto simp: starts_def)
    then show "\<exists>st'. ?f 0 (with_triggered r ?rs) (0, 0, 0, Map.empty) = Some st' \<and> ?J ab1 ?rs st'"
    proof cases
      case 1
      have "report_outcome report \<noteq> StopPending" using run_tells(4) [OF 1] report(2) by (auto simp: outcome_ok_def)
      then have w: "w = waiting" by (simp add: w_def)
      have own: "remaining_quantity (activate ?ord) = ?rem" "order_id (activate ?ord) = ?id"
        by (simp_all add: numbered_def activate_id)
      have "balanced ?N ?D (units ?rem) held waiting [] (0, 0, 0, Map.empty) (?ab\<lparr>ab_seq := ab_seq ?ab + 1\<rparr>)"
        using start by (simp add: balanced_def)
      from balanced_run [OF 1 runs(2) room, unfolded own, OF this unheld [OF fresh(1)] _ , of ?fills] fills ord(2)
      show ?thesis unfolding w by (auto simp: depth_report_triggered traded_to_def)
    next
      case 2
      then have none: "?rs = []" using settled_cascade [OF runs(2)] settled by (simp add: parks_def)
      have r: "r = ExecutionReport ?id [] StopPending [] []" using 2 by (simp add: parks_def numbered_def)
      have stops: "mset (stop_orders ab1) = add_mset ?ord (mset (stop_orders ?ab))" "side_units ab1 = ?D" "rests ab1 = rests ?ab"
        using 2 by (simp_all add: parks_def side_units_def rests_def [abs_def])
      have set: "set (stop_orders ab1) = insert ?ord (set (stop_orders ?ab))" using arg_cong [OF stops(1), of set_mset] by simp
      have units: "order_units (stop_orders ab1) = units ?rem + order_units (stop_orders ?ab)"
        using order_units_mset [of "stop_orders ab1" "?ord # stop_orders ?ab"] stops(1) by (simp add: numbered_def)
      have "w (order_id x) = Some (remaining_quantity x) \<and> held (order_id x) = None" if "x \<in> set (stop_orders ab1)" for x
      proof (cases "x = ?ord")
        case True
        then show ?thesis using unheld [OF fresh(1)] by (simp add: w_def report(2) r numbered_def)
      next
        case False
        with that set have x: "x \<in> set (stop_orders ?ab)" by simp
        with fresh(2) [OF x] waiting start show ?thesis by (auto simp: w_def balanced_def)
      qed
      with start have "balanced ?N ?D 0 held w [] (0, 0, 0, Map.empty) ab1" by (simp add: balanced_def stops(2,3) units)
      then show ?thesis
        using fills none by (auto simp: r depth_report_def qty_sum_def came_to_rest_def)
    qed
  next
    fix i :: nat and ab stop ab1 r ab2 rs st
    assume i: "0 < i" and J: "?J ab (r # rs) st" and pop: "spec_pop ab = Some (stop, ab1)"
      and exec: "executes ab1 (activate stop) r ab2" and later: "cascades ab2 rs (abs_of S A b')"
    obtain T where T: "balanced ?N ?D 0 held w T st ab" "\<And>i. or_zero (?fills i) = Qty (of_nat (traded_to (T @ trades_of (r # rs)) i))"
      and w: "w = waiting" using J by auto
    note popped = popped_sides [OF pop]
    have units: "order_units (stop_orders ab) = units (remaining_quantity stop) + order_units (stop_orders ab1)"
      using order_units_mset [OF pop_stops(1) [OF pop]] by simp
    have stop: "w (order_id stop) = Some (remaining_quantity stop)" "held (order_id stop) = None" "traded_to T (order_id stop) = 0"
      using T(1) popped(3) by (auto simp: balanced_def)
    have "balanced ?N ?D (units (remaining_quantity stop)) held w T st ab1"
      using T(1) by (auto simp: balanced_def units popped side_units_def)
    from balanced_run [OF exec later room, unfolded activate_simps activate_id, OF this stop(2,3), of ?fills] T(2)
    obtain st' where st': "depth_report held ?fills (remaining_quantity stop) r st = Some st'"
      "balanced ?N ?D 0 held w (T @ report_trades r) st' ab2" by auto
    have "waiting (report_id r) = Some (remaining_quantity stop)"
      using stop(1) run_tells(5) [OF exec] by (simp add: w activate_id)
    with st'(1) i have "?f i r st = Some st'" by simp
    moreover have "\<forall>i. or_zero (?fills i) = Qty (of_nat (traded_to ((T @ report_trades r) @ trades_of rs) i))" using T(2) by simp
    with st'(2) w have "?J ab2 rs st'" by blast
    ultimately show "\<exists>st'. ?f i r st = Some st' \<and> ?J ab2 rs st'" by blast
  qed
  then obtain ft rt ct rq T where loop: "over_reports ?f 0 (all_reports report) (0, 0, 0, Map.empty) = Some (ft, rt, ct, rq)"
    and bal: "balanced ?N ?D 0 held w T (ft, rt, ct, rq) (abs_of S A b')" by auto
  let ?w' = "if report_outcome report = StopPending then (forget_triggered report waiting)(report_id report \<mapsto> original_quantity ord)
    else forget_triggered report waiting"
  have eq: "?D + units rt = side_units (abs_of S A b') + units ft + units ct"
    and cap: "?D + units rt + order_units (stop_orders (abs_of S A b')) \<le> ?N"
    and stops: "\<And>x. x \<in> set (stop_orders (abs_of S A b')) \<Longrightarrow> w (order_id x) = Some (remaining_quantity x)"
    using bal by (simp_all add: balanced_def)
  have "units (Qty (of_nat (side_units (abs_of S A b')))) = side_units (abs_of S A b')" "units (Qty (of_nat ?D)) = ?D"
    using eq cap room by (simp_all add: unat_of_nat)
  with eq have "int (units (Qty (of_nat (side_units (abs_of S A b'))))) =
      int (units (Qty (of_nat ?D))) + int (units rt) - int (units ft) - int (units ct)" by linarith
  then have "depth_body S A b ord report b' waiting = Some ?w'"
    using total_depth_units [OF run_okD(1) [OF run]] total_depth_units [OF run_okD(1) [OF run']]
    by (simp add: depth_body_def held(1) loop)
  moreover have "?w' (order_id x) = Some (remaining_quantity x)" if x: "x \<in> set (stop_orders (abs_of S A b'))" for x
    using stops [OF x] cascade_stops(2) [OF runs(2) x] ord(2) by (auto simp: w_def forget_triggered_at report(1) split: if_splits)
  moreover have "side_units (abs_of S A b') + order_units (stop_orders (abs_of S A b')) \<le> ?N" using eq cap by linarith
  ultimately show ?thesis by blast
qed

lemma depth_accounting_passes:
  assumes "prop_spec D = Some spec" and "spec_ok spec" and "new_book S A spec mtch = Some b"
    and "matching_algorithm mtch (lot_size spec)" and "\<forall>ord\<in>set stream. streamable spec ord" and "length stream + 1 < 2 ^ 32"
    and "\<forall>ord\<in>set stream. original_quantity ord = remaining_quantity ord" and "order_units stream < 2 ^ 64"
  shows "check_depth_accounting D S A mtch stream = Some ()"
proof -
  let ?J = "\<lambda>ords b waiting. spec_pop (abs_of S A b) = None \<and>
    (\<forall>x\<in>set (stop_orders (abs_of S A b)). waiting (order_id x) = Some (remaining_quantity x)) \<and>
    side_units (abs_of S A b) + order_units (stop_orders (abs_of S A b)) + order_units ords < 2 ^ 64 \<and>
    (\<forall>ord\<in>set ords. original_quantity ord = remaining_quantity ord)"
  note new = new_book_run_ok [OF assms(3,2,4,6)]
  have "run_ok S ok covers A spec (length stream + 0) b" "?J stream b Map.empty"
    using new assms(7,8) by (simp_all add: spec_pop_def stop_due_def nearest_def stop_orders_def side_units_def)
  then have "\<exists>b' st'. over_stream S A (depth_body S A) stream b Map.empty = Some (b', st') \<and> run_ok S ok covers A spec 0 b' \<and> ?J [] b' st'"
  proof (intro over_stream_keeps [where J = ?J and n = 0])
    fix k b ord ords report b' waiting
    assume "run_ok S ok covers A spec (Suc k) b" "streamable spec ord" "spec_submit (abs_of S A b) ord = (Inr report, abs_of S A b')"
      "run_ok S ok covers A spec k b'" "spec_pop (abs_of S A b') = None" "?J (ord # ords) b waiting"
    with depth_body_passes [of spec k b ord report b' waiting]
    show "\<exists>st'. depth_body S A b ord report b' waiting = Some st' \<and> ?J ords b' st'" by fastforce
  qed (simp_all add: assms(5))
  with assms(1,3) show ?thesis by (auto simp: check_depth_accounting_def)
qed

end

end
