(* ===== verification/Property_Trades.thy ===== *)
theory Property_Trades
  imports Property_Reports
begin

text \<open>
  The property-based tests of \<^verbatim>\<open>src/tests/properties.rs\<close> that look at trades: at what price they print,
  between whom, and in what order they take the orders of a level.
\<close>

section \<open>The bodies\<close>

text \<open>Invariant 3: the prices of the trades of one execution.\<close>

fun price_walk ::
    "(exchange_id \<rightharpoonup> side \<times> price \<times> qty) \<Rightarrow> bool \<Rightarrow> side \<Rightarrow> price option \<Rightarrow> exchange_id \<Rightarrow> price option \<Rightarrow>
       trade list \<Rightarrow> unit option" where
  "price_walk held first sd limit i prev [] = Some ()"
| "price_walk held first sd limit i prev (t # ts) = do {
     assert_that (maker_client t \<noteq> taker_client t);
     assert_that (case held (maker_order_id t) of
         None \<Rightarrow> True
       | Some (maker_side, maker_price, _) \<Rightarrow> trade_price t = maker_price \<and> maker_side = opposite (taker_side t));
     assert_that (taker_order_id t = i);
     assert_that (first \<longrightarrow> taker_side t = sd \<and>
       (case limit of
          None \<Rightarrow> True
        | Some limit \<Rightarrow> (case sd of Bid \<Rightarrow> trade_price t \<le> limit | Ask \<Rightarrow> limit \<le> trade_price t)));
     assert_that (case prev of
         None \<Rightarrow> True
       | Some prev \<Rightarrow> (case taker_side t of Bid \<Rightarrow> prev \<le> trade_price t | Ask \<Rightarrow> trade_price t \<le> prev));
     price_walk held first sd limit i (Some (trade_price t)) ts
   }"

definition price_validity_body ::
    "('s, 'k) store_ops \<Rightarrow> ('m, 'k) arena_ops \<Rightarrow> ('s, 'm, 'k) order_book \<Rightarrow> order \<Rightarrow> execution_report \<Rightarrow>
       ('s, 'm, 'k) order_book \<Rightarrow> unit \<Rightarrow> unit option" where
  "price_validity_body S A before ord report b st = do {
     held \<leftarrow> resting_snapshot S A before;
     over_reports (\<lambda>i r st. price_walk held (i = 0) (order_side ord)
       (case otype ord of Limit p tif \<Rightarrow> Some p | _ \<Rightarrow> None) (report_id r) None (report_trades r)) 0 (all_reports report) ()
   }"

definition check_price_validity ::
    "'d decimal_ops \<Rightarrow> ('s, 'k) store_ops \<Rightarrow> ('m, 'k) arena_ops \<Rightarrow> matcher \<Rightarrow> order list \<Rightarrow> unit option" where
  "check_price_validity D S A mtch stream = do {
     spec \<leftarrow> prop_spec D;
     b \<leftarrow> new_book S A spec mtch;
     over_stream S A (price_validity_body S A) stream b ();
     Some ()
   }"

text \<open>
  Invariant 4: every order is stamped when it comes to rest; the stamps of the makers traded at one
  side and price do not decrease. The walk takes the last stamps traded and returns those after it.
\<close>

type_synonym rest_stamps = "nat \<times> (exchange_id \<rightharpoonup> nat)"
type_synonym last_stamps = "bool \<times> price \<rightharpoonup> nat"

fun queue_walk :: "(exchange_id \<rightharpoonup> nat) \<Rightarrow> last_stamps \<Rightarrow> trade list \<Rightarrow> last_stamps option" where
  "queue_walk stamps last_traded [] = Some last_traded"
| "queue_walk stamps last_traded (t # ts) = do {
     stamp \<leftarrow> stamps (maker_order_id t);
     let key = (opposite (taker_side t) = Bid, trade_price t);
     assert_that (case last_traded key of None \<Rightarrow> True | Some prev \<Rightarrow> prev \<le> stamp);
     queue_walk stamps (last_traded(key \<mapsto> stamp)) ts
   }"

definition stamp_rest :: "execution_report \<Rightarrow> rest_stamps \<Rightarrow> rest_stamps" where
  "stamp_rest r st = (case st of (next_stamp, stamps) \<Rightarrow>
     if report_outcome r = Rested \<or> report_outcome r = PartiallyFilledAndRested
     then (next_stamp + 1, stamps(report_id r \<mapsto> next_stamp)) else (next_stamp, stamps))"

definition queue_order_body ::
    "('s, 'm, 'k) order_book \<Rightarrow> order \<Rightarrow> execution_report \<Rightarrow> ('s, 'm, 'k) order_book \<Rightarrow> rest_stamps \<Rightarrow>
       rest_stamps option" where
  "queue_order_body before ord report b st =
     over_reports (\<lambda>i r st. do {
       queue_walk (snd st) Map.empty (report_trades r);
       Some (stamp_rest r st)
     }) 0 (all_reports report) st"

definition check_queue_order_within_execution ::
    "'d decimal_ops \<Rightarrow> ('s, 'k) store_ops \<Rightarrow> ('m, 'k) arena_ops \<Rightarrow> matcher \<Rightarrow> order list \<Rightarrow> unit option" where
  "check_queue_order_within_execution D S A mtch stream = do {
     spec \<leftarrow> prop_spec D;
     b \<leftarrow> new_book S A spec mtch;
     over_stream S A queue_order_body stream b (0, Map.empty);
     Some ()
   }"

section \<open>Prices\<close>

definition trade_fine ::
    "(exchange_id \<rightharpoonup> side \<times> price \<times> qty) \<Rightarrow> bool \<Rightarrow> side \<Rightarrow> price option \<Rightarrow> exchange_id \<Rightarrow> side \<Rightarrow> trade \<Rightarrow> bool" where
  "trade_fine held first sd limit i tsd t \<longleftrightarrow> maker_client t \<noteq> taker_client t \<and> taker_order_id t = i \<and> taker_side t = tsd \<and>
     (\<forall>msd p q. held (maker_order_id t) = Some (msd, p, q) \<longrightarrow> trade_price t = p \<and> msd = opposite tsd) \<and>
     (first \<longrightarrow> tsd = sd \<and> (\<forall>l. limit = Some l \<longrightarrow> crosses_limit sd (Some l) (trade_price t)))"

lemma price_walk_passes:
  assumes "sorted_wrt (\<lambda>t t'. trade_price t = trade_price t' \<or> better (opposite tsd) (trade_price t) (trade_price t')) ts"
    and "\<forall>t\<in>set ts. trade_fine held first sd limit i tsd t"
    and "\<forall>p. prev = Some p \<longrightarrow> (\<forall>t\<in>set ts. p = trade_price t \<or> better (opposite tsd) p (trade_price t))"
  shows "price_walk held first sd limit i prev ts = Some ()"
  using assms
proof (induction ts arbitrary: prev)
  case (Cons t ts)
  have "price_walk held first sd limit i (Some (trade_price t)) ts = Some ()"
    by (rule Cons.IH) (use Cons.prems(1,2) in simp_all)
  moreover have t: "trade_fine held first sd limit i tsd t" using Cons.prems(2) by simp
  then have "case limit of None \<Rightarrow> True | Some limit \<Rightarrow> (case sd of Bid \<Rightarrow> trade_price t \<le> limit | Ask \<Rightarrow> limit \<le> trade_price t)"
    if first using that by (cases sd) (simp_all add: trade_fine_def split: option.split)
  moreover have "case held (maker_order_id t) of None \<Rightarrow> True
      | Some (msd, p, _) \<Rightarrow> trade_price t = p \<and> msd = opposite (taker_side t)"
    using t by (simp add: trade_fine_def split: option.split)
  moreover have "case prev of None \<Rightarrow> True | Some prev \<Rightarrow> (case taker_side t of Bid \<Rightarrow> prev \<le> trade_price t | Ask \<Rightarrow> trade_price t \<le> prev)"
    using t Cons.prems(3) by (cases tsd) (auto simp: trade_fine_def split: option.split)
  ultimately show ?case using t by (simp add: trade_fine_def)
qed simp

text \<open>What was resting before a submission and still rests, rests where it did.\<close>

definition in_place :: "(exchange_id \<rightharpoonup> side \<times> price \<times> qty) \<Rightarrow> abs_book \<Rightarrow> bool" where
  "in_place held ab \<longleftrightarrow> (\<forall>sd p x. rests ab sd p x \<longrightarrow>
     (\<forall>sd' p' q. held (order_id x) = Some (sd', p', q) \<longrightarrow> sd' = sd \<and> p' = p)) \<and>
     (\<forall>x\<in>set (stop_orders ab). held (order_id x) = None)"

lemma run_prices:
  assumes "executes ab ord r ab'" and "in_place held ab"
    and "first \<Longrightarrow> order_side ord = sd \<and> (\<forall>l. limit = Some l \<longrightarrow> limit_price (otype ord) = Some l)"
  shows "price_walk held first sd limit (report_id r) None (report_trades r) = Some ()"
proof (rule price_walk_passes [where tsd = "order_side ord"])
  show "sorted_wrt (\<lambda>t t'. trade_price t = trade_price t' \<or> better (opposite (order_side ord)) (trade_price t) (trade_price t'))
    (report_trades r)" by (rule fill_storyD(7) [OF run_tells(1) [OF assms(1)]])
  show "\<forall>t\<in>set (report_trades r). trade_fine held first sd limit (report_id r) (order_side ord) t"
  proof
    fix t assume t: "t \<in> set (report_trades r)"
    note facts = executes_trades [OF assms(1) t]
    obtain mk where mk: "rests ab (opposite (order_side ord)) (trade_price t) mk" "order_id mk = maker_order_id t"
      using facts(6) by blast
    with assms(2) have "\<forall>msd p q. held (maker_order_id t) = Some (msd, p, q) \<longrightarrow> trade_price t = p \<and> msd = opposite (order_side ord)"
      unfolding in_place_def by metis
    with facts assms(3) run_tells(5) [OF assms(1)]
    show "trade_fine held first sd limit (report_id r) (order_side ord) t" by (auto simp: trade_fine_def)
  qed
qed simp

lemma in_place_run:
  assumes "executes ab ord r ab'" and "in_place held ab" and "held (order_id ord) = None"
  shows "in_place held ab'"
  unfolding in_place_def
proof (intro conjI allI impI)
  fix sd p x sd' p' q assume x: "rests ab' sd p x" "held (order_id x) = Some (sd', p', q)"
  from rests_after [OF assms(1) x(1)] x(2) assms(3) obtain y where "rests ab sd p y" "order_id y = order_id x"
    by (auto simp: left_over_def)
  with assms(2) x(2) show "sd' = sd" "p' = p" unfolding in_place_def by metis+
qed (use assms(2) executes_ids(4) [OF assms(1)] in \<open>simp add: in_place_def\<close>)

lemma in_place_pop: "spec_pop ab = Some (stop, ab1) \<Longrightarrow> in_place held ab \<Longrightarrow> in_place held ab1 \<and> held (order_id stop) = None"
  using popped_sides [of ab stop ab1] by (auto simp: in_place_def)

lemma in_place_snapshot:
  assumes "distinct (map order_id (ab_orders ab))"
    and "\<And>i sd p q. held i = Some (sd, p, q) \<longleftrightarrow> (\<exists>x. rests ab sd p x \<and> order_id x = i \<and> remaining_quantity x = q)"
  shows "in_place held ab" and "(\<And>sd p x. rests ab sd p x \<Longrightarrow> order_id x \<noteq> i) \<Longrightarrow> held i = None"
proof -
  show none: "held i = None" if "\<And>sd p x. rests ab sd p x \<Longrightarrow> order_id x \<noteq> i" for i
  proof (rule ccontr)
    assume "held i \<noteq> None"
    then obtain sd p q where "held i = Some (sd, p, q)" by (cases "held i") auto
    then obtain x where "rests ab sd p x" "order_id x = i" unfolding assms(2) by blast
    with that show False by blast
  qed
  show "in_place held ab"
    unfolding in_place_def
  proof (intro conjI allI impI ballI)
    fix sd p x sd' p' q assume x: "rests ab sd p x" "held (order_id x) = Some (sd', p', q)"
    then obtain y where "rests ab sd' p' y" "order_id y = order_id x" unfolding assms(2) by blast
    with rests_unique [OF assms(1) _ x(1)] show "sd' = sd" "p' = p" by blast+
  next
    fix x assume "x \<in> set (stop_orders ab)"
    with rests_no_stop [OF assms(1)] show "held (order_id x) = None" by (intro none) metis
  qed
qed

context book_engine begin

lemma price_validity_passes:
  assumes "prop_spec D = Some spec" and "spec_ok spec" and "new_book S A spec mtch = Some b"
    and "matching_algorithm mtch (lot_size spec)" and "\<forall>ord\<in>set stream. streamable spec ord" and "length stream + 1 < 2 ^ 32"
  shows "check_price_validity D S A mtch stream = Some ()"
proof -
  have "run_ok S ok covers A spec (length stream + 0) b" using new_book_run_ok(1) [OF assms(3,2,4,6)] by simp
  then have "\<exists>b' st'. over_stream S A (price_validity_body S A) stream b () = Some (b', st') \<and> run_ok S ok covers A spec 0 b' \<and> True"
  proof (intro over_stream_passes [where J = "\<lambda>b st. True" and n = 0])
    fix k b ord report b' and st :: unit
    assume run: "run_ok S ok covers A spec (Suc k) b" and ord: "streamable spec ord"
      and submit: "spec_submit (abs_of S A b) ord = (Inr report, abs_of S A b')"
    let ?ab = "abs_of S A b" and ?ord = "numbered (abs_of S A b) ord"
    let ?limit = "case otype ord of Limit p tif \<Rightarrow> Some p | _ \<Rightarrow> None"
    obtain r ab1 where runs: "starts ?ab ord r ab1" "cascades ab1 (report_triggered report) (abs_of S A b')"
      "report = with_triggered r (report_triggered report)" by (rule run_submission [OF run ord submit])
    obtain held where held: "resting_snapshot S A b = Some held"
      "\<And>i sd p q. held i = Some (sd, p, q) \<longleftrightarrow> (\<exists>x. rests ?ab sd p x \<and> order_id x = i \<and> remaining_quantity x = q)"
      by (rule snapshot_at [OF run_okD(1) [OF run]]) blast
    let ?f = "\<lambda>i r (st :: unit). price_walk held (i = 0) (order_side ord) ?limit (report_id r) None (report_trades r)"
    have "distinct (map order_id (ab_orders ?ab))" by (rule represented_ids(1) [OF run_okD(5) [OF run]])
    note place = in_place_snapshot [OF this held(2)]
    have fresh: "held (order_id ?ord) = None"
      by (rule place(2)) (use run_okD(6) [OF run] rests_orders in \<open>force simp: numbered_def is_live_cases\<close>)
    have "\<exists>st'. over_reports ?f 0 (all_reports report) () = Some st' \<and> in_place held (abs_of S A b')"
    proof (rule submission_passes [OF runs, where J = "\<lambda>ab rs st. in_place held ab"])
      let ?rs = "report_triggered report"
      have seq: "in_place held (?ab\<lparr>ab_seq := ab_seq ?ab + 1\<rparr>)"
        using place(1) by (simp add: in_place_def rests_def stop_orders_def)
      from runs(1) consider "executes (?ab\<lparr>ab_seq := ab_seq ?ab + 1\<rparr>) (activate ?ord) r ab1"
        | "parks (?ab\<lparr>ab_seq := ab_seq ?ab + 1\<rparr>) ?ord r ab1" by (auto simp: starts_def)
      then show "\<exists>st'. ?f 0 (with_triggered r ?rs) () = Some st' \<and> in_place held ab1"
      proof cases
        case 1
        have "?f 0 r () = Some ()"
          by (rule run_prices [OF 1 seq]) (auto simp: numbered_def activate_def split: order_type.split)
        moreover have "in_place held ab1" by (rule in_place_run [OF 1 seq]) (simp add: fresh activate_id)
        ultimately show ?thesis by (cases r) simp
      next
        case 2
        then have "in_place held ab1"
          using seq fresh arg_cong [of _ _ set_mset] by (fastforce simp: parks_def in_place_def rests_def dest: arg_cong [of _ _ set_mset])
        with 2 show ?thesis by (simp add: parks_def)
      qed
    next
      fix i :: nat and ab stop ab1 r ab2 rs and st :: unit
      assume "0 < i" "in_place held ab" "spec_pop ab = Some (stop, ab1)" and exec: "executes ab1 (activate stop) r ab2"
      with in_place_pop [of ab stop ab1 held] have place: "in_place held ab1" "held (order_id (activate stop)) = None" "i \<noteq> 0"
        by (simp_all add: activate_id)
      with run_prices [OF exec place(1), of "i = 0"] in_place_run [OF exec place(1,2)]
      show "\<exists>st'. ?f i r st = Some st' \<and> in_place held ab2" by simp
    qed
    then show "\<exists>st'. price_validity_body S A b ord report b' st = Some st' \<and> True"
      by (simp add: price_validity_body_def held(1))
  qed (simp_all add: assms(5))
  with assms(1,3) show ?thesis by (auto simp: check_price_validity_def)
qed

end

section \<open>Queue order\<close>

text \<open>Every level in the order of its stamps, which are all below the next one.\<close>

definition queued :: "rest_stamps \<Rightarrow> abs_book \<Rightarrow> bool" where
  "queued st ab \<longleftrightarrow>
     (\<forall>sd. \<forall>(p, os)\<in>set (ab_sides ab sd). sorted_wrt (\<lambda>i j. the (snd st i) < the (snd st j)) (map order_id os)) \<and>
     (\<forall>sd p x. rests ab sd p x \<longrightarrow> (\<exists>k<fst st. snd st (order_id x) = Some k))"

lemma queuedD:
  assumes "queued st ab"
  shows "(p, os) \<in> set (ab_sides ab sd) \<Longrightarrow> sorted_wrt (\<lambda>i j. the (snd st i) < the (snd st j)) (map order_id os)"
    and "rests ab sd p x \<Longrightarrow> \<exists>k<fst st. snd st (order_id x) = Some k"
  using assms unfolding queued_def by blast+

text \<open>The walk passes over trades in stamp order, and notes the stamps of these trades only.\<close>

lemma queue_walk_passes:
  assumes "\<forall>t\<in>set ts. stamps (maker_order_id t) \<noteq> None \<and> taker_side t = tsd"
    and "sorted_wrt (\<lambda>t t'. trade_price t = trade_price t' \<longrightarrow> the (stamps (maker_order_id t)) \<le> the (stamps (maker_order_id t'))) ts"
    and "\<forall>t\<in>set ts. \<forall>k. lst (opposite tsd = Bid, trade_price t) = Some k \<longrightarrow> k \<le> the (stamps (maker_order_id t))"
  shows "\<exists>lst'. queue_walk stamps lst ts = Some lst' \<and> (\<forall>key k. lst' key = Some k \<longrightarrow> lst key = Some k \<or>
    (\<exists>t\<in>set ts. key = (opposite tsd = Bid, trade_price t) \<and> k = the (stamps (maker_order_id t))))"
  using assms
proof (induction ts arbitrary: lst)
  case (Cons t ts)
  obtain n where n: "stamps (maker_order_id t) = Some n" "taker_side t = tsd" using Cons.prems(1) by auto
  let ?key = "(opposite tsd = Bid, trade_price t)"
  have low: "case lst ?key of None \<Rightarrow> True | Some prev \<Rightarrow> prev \<le> n"
    using Cons.prems(3) n by (auto split: option.split)
  have upd: "\<forall>t'\<in>set ts. \<forall>k. (lst(?key \<mapsto> n)) (opposite tsd = Bid, trade_price t') = Some k \<longrightarrow> k \<le> the (stamps (maker_order_id t'))"
    using Cons.prems(2,3) n(1) by auto
  have tail: "\<forall>t\<in>set ts. stamps (maker_order_id t) \<noteq> None \<and> taker_side t = tsd"
    "sorted_wrt (\<lambda>t t'. trade_price t = trade_price t' \<longrightarrow> the (stamps (maker_order_id t)) \<le> the (stamps (maker_order_id t'))) ts"
    using Cons.prems(1,2) by simp_all
  from Cons.IH [OF tail upd] obtain lst' where
    lst': "queue_walk stamps (lst(?key \<mapsto> n)) ts = Some lst'"
    and only: "\<And>key k. lst' key = Some k \<Longrightarrow> (lst(?key \<mapsto> n)) key = Some k \<or>
      (\<exists>t\<in>set ts. key = (opposite tsd = Bid, trade_price t) \<and> k = the (stamps (maker_order_id t)))" by blast
  have "lst key = Some k \<or> (\<exists>t\<in>set (t # ts). key = (opposite tsd = Bid, trade_price t) \<and> k = the (stamps (maker_order_id t)))"
    if "lst' key = Some k" for key k
    using only [OF that] n(1) by (auto split: if_splits)
  then have "\<forall>key k. lst' key = Some k \<longrightarrow> lst key = Some k \<or>
      (\<exists>t\<in>set (t # ts). key = (opposite tsd = Bid, trade_price t) \<and> k = the (stamps (maker_order_id t)))" by blast
  moreover have "queue_walk stamps lst (t # ts) = Some lst'" using lst' low n by simp
  ultimately show ?case by blast
qed simp

lemma run_walk:
  assumes "executes ab ord r ab'" and "queued st ab"
    and "\<forall>t\<in>set (report_trades r). \<forall>k. lst (opposite (order_side ord) = Bid, trade_price t) = Some k \<longrightarrow>
      k \<le> the (snd st (maker_order_id t))"
  shows "\<exists>lst'. queue_walk (snd st) lst (report_trades r) = Some lst' \<and> (\<forall>key k. lst' key = Some k \<longrightarrow> lst key = Some k \<or>
    (\<exists>t\<in>set (report_trades r). key = (opposite (order_side ord) = Bid, trade_price t) \<and> k = the (snd st (maker_order_id t))))"
proof (rule queue_walk_passes)
  let ?R = "\<lambda>i j. the (snd st i) < the (snd st j)"
  have "sorted_wrt (\<lambda>t t'. trade_price t = trade_price t' \<longrightarrow> ?R (maker_order_id t) (maker_order_id t')) (report_trades r)"
    by (rule fill_storyD(10) [OF run_tells(1) [OF assms(1)]]) (use assms(2) in \<open>simp add: queued_def\<close>)
  then show "sorted_wrt (\<lambda>t t'. trade_price t = trade_price t' \<longrightarrow>
      the (snd st (maker_order_id t)) \<le> the (snd st (maker_order_id t'))) (report_trades r)"
    by (rule sorted_wrt_mono_rel [rotated]) auto
  show "\<forall>t\<in>set (report_trades r). snd st (maker_order_id t) \<noteq> None \<and> taker_side t = order_side ord"
  proof
    fix t assume t: "t \<in> set (report_trades r)"
    obtain mk where "rests ab (opposite (order_side ord)) (trade_price t) mk" "order_id mk = maker_order_id t"
      using executes_trades(6) [OF assms(1) t] by blast
    with queuedD(2) [OF assms(2)] executes_trades(3) [OF assms(1) t]
    show "snd st (maker_order_id t) \<noteq> None \<and> taker_side t = order_side ord" by force
  qed
qed (rule assms(3))

lemma queued_run:
  assumes "executes ab ord r ab'" and "queued st ab"
  shows "queued (stamp_rest r st) ab'"
proof -
  obtain n stamps where st: "st = (n, stamps)" by (cases st)
  let ?id = "order_id ord"
  have id: "report_id r = ?id" by (rule run_tells(5) [OF assms(1)])
  have rest: "stamp_rest r (n, stamps) = (if came_to_rest r then (n + 1, stamps(?id \<mapsto> n)) else (n, stamps))"
    by (auto simp: stamp_rest_def came_to_rest_def id)
  have old: "order_id x \<noteq> ?id" if "rests ab sd p x" for sd p x by (rule executes_ids(2) [OF assms(1) that])
  have same: "snd (stamp_rest r st) i = stamps i" if "i \<noteq> ?id" for i using that by (simp add: rest st)
  have rests: "\<exists>k<fst (stamp_rest r st). snd (stamp_rest r st) (order_id x) = Some k" if x: "rests ab' sd p x" for sd p x
    using rests_after [OF assms(1) x]
  proof (elim disjE exE conjE)
    fix y assume y: "rests ab sd p y" "x = settle_order (report_trades r) y"
    obtain k where "k < n" "stamps (order_id y) = Some k" using queuedD(2) [OF assms(2) y(1)] by (auto simp: st)
    with same [OF old [OF y(1)]] y(2) show ?thesis by (auto simp: rest st)
  qed (simp add: rest st left_over_def)
  have levels: "sorted_wrt (\<lambda>i j. the (snd (stamp_rest r st) i) < the (snd (stamp_rest r st) j)) (map order_id os')"
    if mem: "(p, os') \<in> set (ab_sides ab' sd)" for p os' sd
  proof -
    obtain os where os: "os = [] \<or> (p, os) \<in> set (ab_sides ab sd)"
      and cases: "os' = settle_level (report_trades r) (report_cancelled r) os \<or>
       came_to_rest r \<and> sd = order_side ord \<and> limit_price (otype ord) = Some p \<and>
         os' = settle_level (report_trades r) (report_cancelled r) os @ [(left_over ord r)\<lparr>arrival := ab_arrival ab\<rparr>]"
      using executes_levels [OF assms(1) mem] by blast
    have stamped: "\<exists>k<n. stamps (order_id x) = Some k \<and> order_id x \<noteq> ?id" if "x \<in> set os" for x
    proof -
      have "rests ab sd p x" using os that by (auto simp: rests_def)
      with queuedD(2) [OF assms(2) this] old [OF this] show ?thesis by (auto simp: st)
    qed
    have "sorted_wrt (\<lambda>i j. the (stamps i) < the (stamps j)) (map order_id os)"
      using os queuedD(1) [OF assms(2)] by (auto simp: st)
    then have settled: "sorted_wrt (\<lambda>i j. the (stamps i) < the (stamps j))
        (map order_id (settle_level (report_trades r) (report_cancelled r) os))" by (rule settle_level_sorted)
    have ids: "\<exists>k<n. stamps i = Some k \<and> i \<noteq> ?id"
      if "i \<in> set (map order_id (settle_level (report_trades r) (report_cancelled r) os))" for i
      using that stamped by (auto simp: settle_level_mem)
    have kept: "sorted_wrt (\<lambda>i j. the (snd (stamp_rest r st) i) < the (snd (stamp_rest r st) j))
        (map order_id (settle_level (report_trades r) (report_cancelled r) os))"
    proof (rule sorted_wrt_mono_rel [OF _ settled])
      fix i j assume "i \<in> set (map order_id (settle_level (report_trades r) (report_cancelled r) os))"
        "j \<in> set (map order_id (settle_level (report_trades r) (report_cancelled r) os))" "the (stamps i) < the (stamps j)"
      with same ids [of i] ids [of j] show "the (snd (stamp_rest r st) i) < the (snd (stamp_rest r st) j)" by auto
    qed
    show ?thesis
      using cases
    proof (elim disjE conjE)
      assume "came_to_rest r" and os': "os' = settle_level (report_trades r) (report_cancelled r) os @
        [(left_over ord r)\<lparr>arrival := ab_arrival ab\<rparr>]"
      then have "the (snd (stamp_rest r st) i) < the (snd (stamp_rest r st) ?id)"
        if "i \<in> set (map order_id (settle_level (report_trades r) (report_cancelled r) os))" for i
        using ids [OF that] by (auto simp: rest st)
      with kept show ?thesis by (auto simp: os' sorted_wrt_append left_over_def)
    qed (simp add: kept)
  qed
  show ?thesis unfolding queued_def using rests levels by blast
qed

context book_engine begin

lemma queue_order_passes:
  assumes "prop_spec D = Some spec" and "spec_ok spec" and "new_book S A spec mtch = Some b"
    and "matching_algorithm mtch (lot_size spec)" and "\<forall>ord\<in>set stream. streamable spec ord" and "length stream + 1 < 2 ^ 32"
  shows "check_queue_order_within_execution D S A mtch stream = Some ()"
proof -
  let ?J = "\<lambda>b st. queued st (abs_of S A b)"
  note new = new_book_run_ok [OF assms(3,2,4,6)]
  have "run_ok S ok covers A spec (length stream + 0) b" "?J b (0, Map.empty)"
    using new by (simp_all add: queued_def rests_def)
  then have "\<exists>b' st'. over_stream S A queue_order_body stream b (0, Map.empty) = Some (b', st') \<and> run_ok S ok covers A spec 0 b' \<and> ?J b' st'"
  proof (intro over_stream_passes [where J = ?J and n = 0])
    fix k b ord report b' st
    assume run: "run_ok S ok covers A spec (Suc k) b" and ord: "streamable spec ord" and queued: "?J b st"
      and submit: "spec_submit (abs_of S A b) ord = (Inr report, abs_of S A b')"
    let ?ab = "abs_of S A b" and ?ord = "numbered (abs_of S A b) ord"
    obtain r ab1 where runs: "starts ?ab ord r ab1" "cascades ab1 (report_triggered report) (abs_of S A b')"
      "report = with_triggered r (report_triggered report)" by (rule run_submission [OF run ord submit])
    let ?f = "\<lambda>(i :: nat) r st. do { queue_walk (snd st) Map.empty (report_trades r); Some (stamp_rest r st) }"
    have one: "\<exists>st'. ?f i r st = Some st' \<and> queued st' ab'" if "executes ab ord r ab'" "queued st ab" for i ab ord r ab' st
      using run_walk [OF that, of Map.empty] queued_run [OF that] by (auto simp del: split_paired_Ex)
    have "\<exists>st'. over_reports ?f 0 (all_reports report) st = Some st' \<and> queued st' (abs_of S A b')"
    proof (rule submission_passes [OF runs, where J = "\<lambda>ab rs st. queued st ab"])
      let ?rs = "report_triggered report"
      have seq: "queued st (?ab\<lparr>ab_seq := ab_seq ?ab + 1\<rparr>)" using queued by (simp add: queued_def rests_def)
      have same: "?f 0 (with_triggered r ?rs) st = ?f 0 r st" by (cases r; cases st) (simp add: stamp_rest_def)
      from runs(1) consider "executes (?ab\<lparr>ab_seq := ab_seq ?ab + 1\<rparr>) (activate ?ord) r ab1"
        | "parks (?ab\<lparr>ab_seq := ab_seq ?ab + 1\<rparr>) ?ord r ab1" by (auto simp: starts_def)
      then show "\<exists>st'. ?f 0 (with_triggered r ?rs) st = Some st' \<and> queued st' ab1"
      proof cases
        case 2
        then have "queued st ab1" using seq by (simp add: queued_def rests_def parks_def)
        with 2 show ?thesis unfolding same by (auto simp: parks_def stamp_rest_def split: prod.split)
      qed (unfold same, rule one [OF _ seq])
    next
      fix i :: nat and ab stop ab1 r ab2 rs st
      assume queued: "queued st ab" and pop: "spec_pop ab = Some (stop, ab1)" and exec: "executes ab1 (activate stop) r ab2"
      have "queued st ab1" using queued popped_sides(1) [OF pop] by (simp add: queued_def rests_def)
      with one [OF exec] show "\<exists>st'. ?f i r st = Some st' \<and> queued st' ab2" by blast
    qed
    then show "\<exists>st'. queue_order_body b ord report b' st = Some st' \<and> ?J b' st'" by (simp add: queue_order_body_def)
  qed (simp_all add: assms(5))
  with assms(1,3) show ?thesis by (auto simp: check_queue_order_within_execution_def)
qed

end

end
