(* ===== verification/Fifo_Priority.thy ===== *)
theory Fifo_Priority
  imports Property_Trades
begin

text \<open>
  The strong form of time priority of \<^verbatim>\<open>src/tests/properties.rs\<close>, which only \<open>FifoMatcher\<close> gives:
  over a whole stream the makers of a side and price are consumed in the order they came to rest.
\<close>

section \<open>The test\<close>

definition fifo_priority_body ::
    "('s, 'm, 'k) order_book \<Rightarrow> order \<Rightarrow> execution_report \<Rightarrow> ('s, 'm, 'k) order_book \<Rightarrow> rest_stamps \<times> last_stamps \<Rightarrow>
       (rest_stamps \<times> last_stamps) option" where
  "fifo_priority_body before ord report b st =
     over_reports (\<lambda>i r (st, last_traded). do {
       last_traded \<leftarrow> queue_walk (snd st) last_traded (report_trades r);
       Some (stamp_rest r st, last_traded)
     }) 0 (all_reports report) st"

definition fifo_same_price_priority ::
    "'d decimal_ops \<Rightarrow> ('s, 'k) store_ops \<Rightarrow> ('m, 'k) arena_ops \<Rightarrow> draw list \<Rightarrow> unit option" where
  "fifo_same_price_priority D S A drawn = do {
     stream \<leftarrow> arb_stream D drawn;
     spec \<leftarrow> prop_spec D;
     b \<leftarrow> book_new S A spec fifo_matcher;
     over_stream S A fifo_priority_body stream b ((0, Map.empty), Map.empty);
     Some ()
   }"

section \<open>It passes\<close>

text \<open>Nothing that rests was stamped before what was last traded at its side and price.\<close>

definition served :: "rest_stamps \<Rightarrow> last_stamps \<Rightarrow> abs_book \<Rightarrow> bool" where
  "served st lst ab \<longleftrightarrow> queued st ab \<and> ab_matcher ab = fifo_matcher \<and>
     (\<forall>sd p x k. rests ab sd p x \<longrightarrow> lst (sd = Bid, p) = Some k \<longrightarrow> k \<le> the (snd st (order_id x))) \<and>
     (\<forall>key k. lst key = Some k \<longrightarrow> k < fst st)"

text \<open>Where a run trades, what it leaves was behind what it traded.\<close>

lemma front_first_stamps:
  assumes "executes ab ord r ab'" and "queued st ab" and "ab_matcher ab = fifo_matcher"
    and "rests ab (opposite (order_side ord)) p y" and "order_id y \<notin> set (report_cancelled r)"
    and "remaining_quantity (settle_order (report_trades r) y) \<noteq> 0"
    and "t \<in> set (report_trades r)" and "trade_price t = p"
  shows "the (snd st (maker_order_id t)) \<le> the (snd st (order_id y))"
proof -
  let ?sd = "opposite (order_side ord)" and ?ts = "report_trades r"
  obtain os where os: "(p, os) \<in> set (ab_sides ab ?sd)" "y \<in> set os" using assms(4) by (auto simp: rests_def)
  obtain mk os' where mk: "(p, os') \<in> set (ab_sides ab ?sd)" "mk \<in> set os'" "order_id mk = maker_order_id t"
    using executes_trades(6) [OF assms(1,7)] assms(8) by (auto simp: rests_def)
  have "ladder_sorted ?sd (ab_sides ab ?sd)" using assms(1) by (simp add: executes_def abs_ok_def)
  from ladder_sorted_distinct [OF this] os(1) mk(1) have [simp]: "os' = os" by (metis map_of_is_SomeI option.inject)
  obtain i where i: "i < length os" "os ! i = y" using os(2) by (metis in_set_conv_nth)
  obtain j where j: "j < length os" "os ! j = mk" using mk(2) by (auto simp: in_set_conv_nth)
  have stamps: "sorted_wrt (\<lambda>i j. the (snd st i) < the (snd st j)) (map order_id os)" by (rule queuedD(1) [OF assms(2) os(1)])
  have "traded_to ?ts (order_id mk) \<noteq> 0"
  proof -
    have "units (trade_quantity t) \<le> traded_to ?ts (order_id mk)"
      unfolding traded_to_def traded_units_def by (rule member_le_sum_list) (use assms(7) mk(3) in auto)
    moreover have "units (trade_quantity t) \<noteq> 0" using executes_trades(1) [OF assms(1,7)] by simp
    ultimately show ?thesis by linarith
  qed
  moreover have "\<not> units (remaining_quantity y) \<le> traded_to ?ts (order_id y)"
    using assms(6) units_settle_order [of ?ts y] by auto
  moreover have "front_first ?ts (report_cancelled r) os"
    using fill_storyD(11) [OF run_tells(1) [OF assms(1)] assms(3)] os(1) by blast
  ultimately have "\<not> i < j" unfolding front_first_def sorted_wrt_iff_nth_less using i j assms(5) by metis
  then consider "j < i" | "i = j" by linarith
  then show ?thesis
  proof cases
    case 1
    with stamps i j show ?thesis by (auto simp: sorted_wrt_iff_nth_less simp flip: mk(3) intro: less_imp_le)
  qed (use i j mk(3) in auto)
qed

lemma served_run:
  assumes "executes ab ord r ab'" and "served st lst ab"
  shows "\<exists>lst'. queue_walk (snd st) lst (report_trades r) = Some lst' \<and> served (stamp_rest r st) lst' ab'"
proof -
  obtain n stamps where st: "st = (n, stamps)" by (cases st)
  let ?id = "order_id ord" and ?sd = "opposite (order_side ord)"
  have fifo: "ab_matcher ab = fifo_matcher" and queued: "queued st ab"
    and low: "\<And>sd p x k. rests ab sd p x \<Longrightarrow> lst (sd = Bid, p) = Some k \<Longrightarrow> k \<le> the (stamps (order_id x))"
    and bound: "\<And>key k. lst key = Some k \<Longrightarrow> k < n" using assms(2) by (auto simp: served_def st)
  have makers: "\<exists>mk. rests ab ?sd (trade_price t) mk \<and> order_id mk = maker_order_id t" if "t \<in> set (report_trades r)" for t
    by (rule executes_trades(6) [OF assms(1) that])
  have "\<forall>t\<in>set (report_trades r). \<forall>k. lst (?sd = Bid, trade_price t) = Some k \<longrightarrow> k \<le> the (snd st (maker_order_id t))"
    using makers low by (metis st snd_conv)
  from run_walk [OF assms(1) queued this] obtain lst' where walk: "queue_walk (snd st) lst (report_trades r) = Some lst'"
    and only: "\<And>key k. lst' key = Some k \<Longrightarrow> lst key = Some k \<or>
      (\<exists>t\<in>set (report_trades r). key = (?sd = Bid, trade_price t) \<and> k = the (stamps (maker_order_id t)))"
    by (auto simp: st)
  have stamped: "\<exists>k<n. stamps (order_id x) = Some k" if "rests ab sd p x" for sd p x
    using queuedD(2) [OF queued that] by (simp add: st)
  have bound': "k < n" if "lst' key = Some k" for key k
    using only [OF that] bound makers stamped by fastforce
  have rest: "stamp_rest r (n, stamps) = (if came_to_rest r then (n + 1, stamps(?id \<mapsto> n)) else (n, stamps))"
    using run_tells(5) [OF assms(1)] by (auto simp: stamp_rest_def came_to_rest_def)
  have new: "k \<le> the (snd (stamp_rest r st) (order_id x))" if x: "rests ab' sd p x" and k: "lst' (sd = Bid, p) = Some k" for sd p x k
  proof -
    from rests_after [OF assms(1) x] consider
      y where "rests ab sd p y" "x = settle_order (report_trades r) y" "order_id y \<notin> set (report_cancelled r)" "remaining_quantity x \<noteq> 0"
      | "came_to_rest r" "order_id x = ?id" by (auto simp: left_over_def)
    then show ?thesis
    proof cases
      case 1
      have "k \<le> the (stamps (order_id y))"
        using only [OF k]
      proof (elim disjE bexE conjE)
        fix t assume t: "t \<in> set (report_trades r)" and key: "(sd = Bid, p) = (?sd = Bid, trade_price t)"
          and k: "k = the (stamps (maker_order_id t))"
        from key have sd: "sd = ?sd" by (cases sd; cases ?sd) simp_all
        from key have p: "trade_price t = p" by simp
        have "remaining_quantity (settle_order (report_trades r) y) \<noteq> 0" using 1(2,4) by blast
        from front_first_stamps [OF assms(1) queued fifo 1(1) [unfolded sd] 1(3) this t p]
        show ?thesis by (simp add: st k)
      qed (rule low [OF 1(1)])
      moreover have "order_id y \<noteq> ?id" by (rule executes_ids(2) [OF assms(1) 1(1)])
      ultimately show ?thesis using 1(2) by (simp add: rest st)
    next
      case 2
      with bound' [OF k] show ?thesis by (simp add: rest st)
    qed
  qed
  have "ab_matcher ab' = fifo_matcher"
    using fifo assms(1) fixed_spec_run [of ab ord] by (simp add: executes_def fixed_def)
  moreover have "k < fst (stamp_rest r st)" if "lst' key = Some k" for key k using bound' [OF that] by (simp add: rest st)
  ultimately have "served (stamp_rest r st) lst' ab'" unfolding served_def using queued_run [OF assms(1) queued] new by blast
  with walk show ?thesis by blast
qed

lemma served_pop:
  assumes "served st lst ab" and "spec_pop ab = Some (stop, ab1)"
  shows "served st lst ab1"
  using assms(1) popped_sides(1) [OF assms(2)] fixed_spec_pop [OF assms(2)] by (simp add: served_def queued_def rests_def fixed_def)

context book_engine begin

lemma fifo_priority_passes:
  assumes "run_ok S ok covers A spec (length stream + 0) b" and "abs_of S A b = empty_abs spec fifo_matcher"
    and "\<forall>ord\<in>set stream. streamable spec ord"
  shows "\<exists>res. over_stream S A fifo_priority_body stream b ((0, Map.empty), Map.empty) = Some res"
proof -
  let ?J = "\<lambda>b st. served (fst st) (snd st) (abs_of S A b)"
  have "?J b ((0, Map.empty), Map.empty)" by (simp add: served_def queued_def rests_def assms(2))
  with assms(1) have "\<exists>b' st'. over_stream S A fifo_priority_body stream b ((0, Map.empty), Map.empty) = Some (b', st') \<and>
      run_ok S ok covers A spec 0 b' \<and> ?J b' st'"
  proof (intro over_stream_passes [where J = ?J and n = 0])
    fix k b ord report b' st
    assume run: "run_ok S ok covers A spec (Suc k) b" and ord: "streamable spec ord" and served: "?J b st"
      and submit: "spec_submit (abs_of S A b) ord = (Inr report, abs_of S A b')"
    let ?ab = "abs_of S A b" and ?ord = "numbered (abs_of S A b) ord"
    obtain r ab1 where runs: "starts ?ab ord r ab1" "cascades ab1 (report_triggered report) (abs_of S A b')"
      "report = with_triggered r (report_triggered report)" by (rule run_submission [OF run ord submit])
    let ?f = "\<lambda>(i :: nat) r (st, lst). do { lst \<leftarrow> queue_walk (snd st) lst (report_trades r); Some (stamp_rest r st, lst) }"
    have one: "\<exists>st'. ?f i r st = Some st' \<and> served (fst st') (snd st') ab'" if "executes ab ord r ab'" "served (fst st) (snd st) ab"
      for i ab ord r ab' st
      using served_run [OF that] by (cases st) (auto simp del: split_paired_Ex)
    have "\<exists>st'. over_reports ?f 0 (all_reports report) st = Some st' \<and> served (fst st') (snd st') (abs_of S A b')"
    proof (rule submission_passes [OF runs, where J = "\<lambda>ab rs st. served (fst st) (snd st) ab"])
      let ?rs = "report_triggered report"
      have seq: "served (fst st) (snd st) (?ab\<lparr>ab_seq := ab_seq ?ab + 1\<rparr>)"
        using served by (simp add: served_def queued_def rests_def)
      have same: "?f 0 (with_triggered r ?rs) st = ?f 0 r st" by (cases r; cases st) (simp add: stamp_rest_def split_beta)
      from runs(1) consider "executes (?ab\<lparr>ab_seq := ab_seq ?ab + 1\<rparr>) (activate ?ord) r ab1"
        | "parks (?ab\<lparr>ab_seq := ab_seq ?ab + 1\<rparr>) ?ord r ab1" by (auto simp: starts_def)
      then show "\<exists>st'. ?f 0 (with_triggered r ?rs) st = Some st' \<and> served (fst st') (snd st') ab1"
      proof cases
        case 2
        then have "ab_matcher ab1 = ab_matcher ?ab" by (simp add: parks_def fixed_def)
        with 2 have "served (fst st) (snd st) ab1" using seq by (simp add: served_def queued_def rests_def parks_def)
        with 2 show ?thesis unfolding same by (cases st) (auto simp: parks_def stamp_rest_def split: prod.split)
      qed (unfold same, rule one [OF _ seq])
    next
      fix i :: nat and ab stop ab1 r ab2 rs st
      assume served: "served (fst st) (snd st) ab" and pop: "spec_pop ab = Some (stop, ab1)" and exec: "executes ab1 (activate stop) r ab2"
      show "\<exists>st'. ?f i r st = Some st' \<and> served (fst st') (snd st') ab2" by (rule one [OF exec served_pop [OF served pop]])
    qed
    then show "\<exists>st'. fifo_priority_body b ord report b' st = Some st' \<and> ?J b' st'" by (simp add: fifo_priority_body_def)
  qed (simp_all add: assms(3))
  then show ?thesis by blast
qed

end

end
