(* ===== verification/Property_Lattice.thy ===== *)
theory Property_Lattice
  imports Property_Reports Property_Suite
begin

text \<open>
  The lattice test of \<^verbatim>\<open>src/tests/properties.rs\<close>: whatever trades, rests or is parked lies on the tick
  and lot grid of the instrument, checked on decimals. The remainder of two decimals belongs to
  \<^verbatim>\<open>rust_decimal\<close> and is a parameter; \<open>None\<close> is its panic.
\<close>

section \<open>The body\<close>

type_synonym 'd decimal_rem = "'d \<Rightarrow> 'd \<Rightarrow> 'd option"

text \<open>
  What the test relies on: of two decimals of one scale, the second not zero, the remainder is the
  one that truncating division leaves.
\<close>

definition remainder_laws :: "'d decimal_ops \<Rightarrow> 'd decimal_rem \<Rightarrow> bool" where
  "remainder_laws D rem \<longleftrightarrow>
     (\<forall>d e. decimal_scale D d = decimal_scale D e \<and> mantissa D e \<noteq> 0 \<longrightarrow>
        (\<exists>r. rem d e = Some r \<and>
           mantissa D r * 10 ^ unat (decimal_scale D d) = (mantissa D d smod mantissa D e) * 10 ^ unat (decimal_scale D r)))"

text \<open>The assertion \<^verbatim>\<open>d % e == Decimal::ZERO\<close>.\<close>

definition on_grid :: "'d decimal_ops \<Rightarrow> 'd decimal_rem \<Rightarrow> 'd \<Rightarrow> 'd \<Rightarrow> unit option" where
  "on_grid D rem d e = do { r \<leftarrow> rem d e; assert_that (mantissa D r = 0) }"

fun lattice_trades ::
    "'d decimal_ops \<Rightarrow> 'd decimal_rem \<Rightarrow> instrument_spec \<Rightarrow> 'd \<Rightarrow> 'd \<Rightarrow> trade list \<Rightarrow> unit option" where
  "lattice_trades D rem spec tick_dec lot_dec [] = Some ()"
| "lattice_trades D rem spec tick_dec lot_dec (t # ts) = do {
     q \<leftarrow> qty_to_decimal D spec (trade_quantity t);
     on_grid D rem q lot_dec;
     p \<leftarrow> to_decimal D spec (trade_price t);
     on_grid D rem p tick_dec;
     lattice_trades D rem spec tick_dec lot_dec ts
   }"

fun lattice_orders ::
    "'d decimal_ops \<Rightarrow> 'd decimal_rem \<Rightarrow> instrument_spec \<Rightarrow> 'd \<Rightarrow> order list \<Rightarrow> unit option" where
  "lattice_orders D rem spec lot_dec [] = Some ()"
| "lattice_orders D rem spec lot_dec (x # xs) = do {
     q \<leftarrow> qty_to_decimal D spec (remaining_quantity x);
     on_grid D rem q lot_dec;
     r \<leftarrow> spec_qty D spec q;
     back \<leftarrow> unwrap r;
     assert_that (back = remaining_quantity x);
     lattice_orders D rem spec lot_dec xs
   }"

fun lattice_levels ::
    "'d decimal_ops \<Rightarrow> 'd decimal_rem \<Rightarrow> ('m, 'k) arena_ops \<Rightarrow> instrument_spec \<Rightarrow> 'd \<Rightarrow> 'd \<Rightarrow>
       ('m, 'k) level_view list \<Rightarrow> unit option" where
  "lattice_levels D rem A spec tick_dec lot_dec [] = Some ()"
| "lattice_levels D rem A spec tick_dec lot_dec (v # vs) = do {
     p \<leftarrow> to_decimal D spec (view_price v);
     on_grid D rem p tick_dec;
     r \<leftarrow> spec_price D spec p;
     back \<leftarrow> unwrap r;
     assert_that (back = view_price v);
     os \<leftarrow> view_orders A v;
     lattice_orders D rem spec lot_dec os;
     lattice_levels D rem A spec tick_dec lot_dec vs
   }"

fun parked_quantities ::
    "'d decimal_ops \<Rightarrow> 'd decimal_rem \<Rightarrow> instrument_spec \<Rightarrow> 'd \<Rightarrow> order list \<Rightarrow> unit option" where
  "parked_quantities D rem spec lot_dec [] = Some ()"
| "parked_quantities D rem spec lot_dec (x # xs) = do {
     q \<leftarrow> qty_to_decimal D spec (remaining_quantity x);
     on_grid D rem q lot_dec;
     parked_quantities D rem spec lot_dec xs
   }"

fun lattice_parked ::
    "'d decimal_ops \<Rightarrow> 'd decimal_rem \<Rightarrow> instrument_spec \<Rightarrow> 'd \<Rightarrow> 'd \<Rightarrow> ladder \<Rightarrow> unit option" where
  "lattice_parked D rem spec tick_dec lot_dec [] = Some ()"
| "lattice_parked D rem spec tick_dec lot_dec ((trigger, queue) # rest) = do {
     t \<leftarrow> to_decimal D spec trigger;
     on_grid D rem t tick_dec;
     parked_quantities D rem spec lot_dec queue;
     lattice_parked D rem spec tick_dec lot_dec rest
   }"

definition lattice_body ::
    "'d decimal_ops \<Rightarrow> 'd decimal_rem \<Rightarrow> instrument_spec \<Rightarrow> 'd \<Rightarrow> 'd \<Rightarrow> ('s, 'm, 'k) order_book \<Rightarrow> order \<Rightarrow>
       execution_report \<Rightarrow> ('s, 'm, 'k) order_book \<Rightarrow> unit \<Rightarrow> unit option" where
  "lattice_body D rem spec tick_dec lot_dec before ord report b st =
     lattice_trades D rem spec tick_dec lot_dec (concat (map report_trades (all_reports report)))"

definition check_lattice_closure ::
    "'d decimal_ops \<Rightarrow> 'd decimal_rem \<Rightarrow> ('s, 'k) store_ops \<Rightarrow> ('m, 'k) arena_ops \<Rightarrow> matcher \<Rightarrow> instrument_spec \<Rightarrow>
       order list \<Rightarrow> unit option" where
  "check_lattice_closure D rem S A mtch spec stream = do {
     tick_dec \<leftarrow> tick_decimal D spec;
     lot_dec \<leftarrow> lot_decimal D spec;
     b \<leftarrow> new_book S A spec mtch;
     (b, st) \<leftarrow> over_stream S A (lattice_body D rem spec tick_dec lot_dec) stream b ();
     lattice_levels D rem A spec tick_dec lot_dec (book_levels S b Bid @ book_levels S b Ask);
     lattice_parked D rem spec tick_dec lot_dec (stop_bids b @ stop_asks b)
   }"

section \<open>The grid in decimals\<close>

definition price_on_tick :: "instrument_spec \<Rightarrow> price \<Rightarrow> bool" where
  "price_on_tick spec p \<longleftrightarrow> is_multiple_of (minor p) (tick_size spec)"

definition qty_on_lot :: "instrument_spec \<Rightarrow> qty \<Rightarrow> bool" where
  "qty_on_lot spec q \<longleftrightarrow> is_multiple_of (base q) (lot_size spec)"

lemma on_grid_multiple:
  fixes n k :: u64
  assumes "decimal_laws D" and "remainder_laws D rem" and "unat s \<le> 28" and "is_multiple_of n k" and "k \<noteq> 0"
    and "from_i128_with_scale D (uint k) s = Some e"
  shows "\<exists>d. from_i128_with_scale D (uint n) s = Some d \<and> on_grid D rem d e = Some () \<and> mantissa D d = uint n \<and> decimal_scale D d = s"
proof -
  have e: "mantissa D e = uint k" "decimal_scale D e = s"
    using decimal_of_u64 [OF assms(1,3), of k] assms(6) by auto
  from decimal_of_u64 [OF assms(1,3)] obtain d where
    d: "from_i128_with_scale D (uint n) s = Some d" "mantissa D d = uint n" "decimal_scale D d = s" by blast
  have k: "uint k \<noteq> 0" using assms(5) by (metis uint_0_iff)
  have "unat k dvd unat n" using assms(4) by (simp add: is_multiple_of_unat)
  then have "uint k dvd uint n" by (simp only: uint_nat of_nat_dvd_iff)
  then have "uint n smod uint k = 0" by (simp add: smod_int_alt_def)
  moreover obtain r where "rem d e = Some r"
    "mantissa D r * 10 ^ unat s = (uint n smod uint k) * 10 ^ unat (decimal_scale D r)"
    using assms(2) [unfolded remainder_laws_def, rule_format, of d e] k unfolding d(2,3) e by blast
  ultimately have "on_grid D rem d e = Some ()" by (simp add: on_grid_def)
  with d show ?thesis by blast
qed


text \<open>What the decimals must be for the test, and the walks over values of the grid.\<close>

definition grid_decimals :: "'d decimal_ops \<Rightarrow> 'd decimal_rem \<Rightarrow> instrument_spec \<Rightarrow> 'd \<Rightarrow> 'd \<Rightarrow> bool" where
  "grid_decimals D rem spec tick_dec lot_dec \<longleftrightarrow> decimal_laws D \<and> remainder_laws D rem \<and> spec_ok spec \<and>
     tick_decimal D spec = Some tick_dec \<and> lot_decimal D spec = Some lot_dec"

lemma grid_price:
  assumes "grid_decimals D rem spec tick_dec lot_dec" and "price_on_tick spec p"
  obtains d where "to_decimal D spec p = Some d" and "on_grid D rem d tick_dec = Some ()" and "spec_price D spec d = Some (Inr p)"
proof -
  have D: "decimal_laws D" "remainder_laws D rem" "spec_ok spec" "tick_decimal D spec = Some tick_dec"
    using assms(1) by (simp_all add: grid_decimals_def)
  then have "unat (price_scale spec) \<le> 28" "tick_size spec \<noteq> 0" by (simp_all add: spec_ok_def)
  from on_grid_multiple [OF D(1,2) this(1) assms(2) [unfolded price_on_tick_def] this(2) D(4) [unfolded tick_decimal_def]]
  obtain d where d: "to_decimal D spec p = Some d" "on_grid D rem d tick_dec = Some ()" "mantissa D d = uint (minor p)"
    "decimal_scale D d = price_scale spec" by (auto simp: to_decimal_def)
  then have "spec_price D spec d = Some (Inr p)"
    using assms(2) by (simp add: spec_price_iff [OF D(1,3)] scaled_def denom_def price_on_tick_def)
  with d(1,2) that show thesis by blast
qed

lemma grid_qty:
  assumes "grid_decimals D rem spec tick_dec lot_dec" and "qty_on_lot spec q"
  obtains d where "qty_to_decimal D spec q = Some d" and "on_grid D rem d lot_dec = Some ()" and "spec_qty D spec d = Some (Inr q)"
proof -
  have D: "decimal_laws D" "remainder_laws D rem" "spec_ok spec" "lot_decimal D spec = Some lot_dec"
    using assms(1) by (simp_all add: grid_decimals_def)
  then have "unat (qty_scale spec) \<le> 28" "lot_size spec \<noteq> 0" by (simp_all add: spec_ok_def)
  from on_grid_multiple [OF D(1,2) this(1) assms(2) [unfolded qty_on_lot_def] this(2) D(4) [unfolded lot_decimal_def]]
  obtain d where d: "qty_to_decimal D spec q = Some d" "on_grid D rem d lot_dec = Some ()" "mantissa D d = uint (base q)"
    "decimal_scale D d = qty_scale spec" by (auto simp: qty_to_decimal_def)
  then have "spec_qty D spec d = Some (Inr q)"
    using assms(2) by (simp add: spec_qty_iff [OF D(1,3)] scaled_def denom_def qty_on_lot_def)
  with d(1,2) that show thesis by blast
qed

lemma lattice_trades_pass:
  "grid_decimals D rem spec tick_dec lot_dec \<Longrightarrow>
     \<forall>t\<in>set ts. qty_on_lot spec (trade_quantity t) \<and> price_on_tick spec (trade_price t) \<Longrightarrow>
     lattice_trades D rem spec tick_dec lot_dec ts = Some ()"
proof (induction ts)
  case (Cons t ts)
  obtain q where "qty_to_decimal D spec (trade_quantity t) = Some q" "on_grid D rem q lot_dec = Some ()"
    by (rule grid_qty [OF Cons.prems(1), of "trade_quantity t"]) (use Cons.prems(2) in auto)
  moreover obtain p where "to_decimal D spec (trade_price t) = Some p" "on_grid D rem p tick_dec = Some ()"
    by (rule grid_price [OF Cons.prems(1), of "trade_price t"]) (use Cons.prems(2) in auto)
  ultimately show ?case using Cons by simp
qed simp

lemma quantities_pass:
  assumes "grid_decimals D rem spec tick_dec lot_dec" and "\<forall>x\<in>set xs. qty_on_lot spec (remaining_quantity x)"
  shows "lattice_orders D rem spec lot_dec xs = Some ()" and "parked_quantities D rem spec lot_dec xs = Some ()"
proof -
  have "lattice_orders D rem spec lot_dec xs = Some () \<and> parked_quantities D rem spec lot_dec xs = Some ()"
    using assms(2)
  proof (induction xs)
    case (Cons x xs)
    obtain q where "qty_to_decimal D spec (remaining_quantity x) = Some q" "on_grid D rem q lot_dec = Some ()"
      "spec_qty D spec q = Some (Inr (remaining_quantity x))"
      by (rule grid_qty [OF assms(1), of "remaining_quantity x"]) (use Cons.prems in auto)
    then show ?case using Cons by (simp add: unwrap_def)
  qed simp
  then show "lattice_orders D rem spec lot_dec xs = Some ()" "parked_quantities D rem spec lot_dec xs = Some ()" by simp_all
qed

lemma lattice_levels_pass:
  "grid_decimals D rem spec tick_dec lot_dec \<Longrightarrow>
     \<forall>v\<in>set vs. price_on_tick spec (view_price v) \<and>
       (\<exists>os. view_orders A v = Some os \<and> (\<forall>x\<in>set os. qty_on_lot spec (remaining_quantity x))) \<Longrightarrow>
     lattice_levels D rem A spec tick_dec lot_dec vs = Some ()"
proof (induction vs)
  case (Cons v vs)
  obtain p where "to_decimal D spec (view_price v) = Some p" "on_grid D rem p tick_dec = Some ()"
    "spec_price D spec p = Some (Inr (view_price v))"
    by (rule grid_price [OF Cons.prems(1), of "view_price v"]) (use Cons.prems(2) in auto)
  moreover obtain os where "view_orders A v = Some os" "\<forall>x\<in>set os. qty_on_lot spec (remaining_quantity x)"
    using Cons.prems(2) by auto
  moreover note quantities_pass(1) [OF Cons.prems(1) this(2)]
  ultimately show ?case using Cons by (simp add: unwrap_def)
qed simp

lemma lattice_parked_pass:
  "grid_decimals D rem spec tick_dec lot_dec \<Longrightarrow>
     \<forall>(t, q)\<in>set L. price_on_tick spec t \<and> (\<forall>x\<in>set q. qty_on_lot spec (remaining_quantity x)) \<Longrightarrow>
     lattice_parked D rem spec tick_dec lot_dec L = Some ()"
proof (induction L)
  case (Cons l L)
  obtain t q where l: "l = (t, q)" by (cases l)
  obtain d where "to_decimal D spec t = Some d" "on_grid D rem d tick_dec = Some ()"
    by (rule grid_price [OF Cons.prems(1), of t]) (use Cons.prems(2) l in auto)
  moreover have "parked_quantities D rem spec lot_dec q = Some ()"
    by (rule quantities_pass(2) [OF Cons.prems(1)]) (use Cons.prems(2) l in auto)
  ultimately show ?case using Cons by (simp add: l)
qed simp

section \<open>What the runs keep\<close>

definition order_on_tick :: "instrument_spec \<Rightarrow> order \<Rightarrow> bool" where
  "order_on_tick spec ord \<longleftrightarrow> (\<forall>p. Some p \<in> set (prices (otype ord)) \<longrightarrow> price_on_tick spec p)"

definition trades_on_grid :: "instrument_spec \<Rightarrow> execution_report \<Rightarrow> bool" where
  "trades_on_grid spec r \<longleftrightarrow> (\<forall>t\<in>set (report_trades r). qty_on_lot spec (trade_quantity t) \<and> price_on_tick spec (trade_price t))"

definition on_ticks :: "instrument_spec \<Rightarrow> abs_book \<Rightarrow> bool" where
  "on_ticks spec ab \<longleftrightarrow> ab_spec ab = spec \<and> (\<forall>sd p x. rests ab sd p x \<longrightarrow> price_on_tick spec p) \<and>
     (\<forall>x\<in>set (stop_orders ab). order_on_tick spec x)"

lemma order_on_tick_activate: "order_on_tick spec ord \<Longrightarrow> order_on_tick spec (activate ord)"
  by (cases "otype ord") (simp_all add: order_on_tick_def activate_def)

lemma order_on_tick_limit: "order_on_tick spec ord \<Longrightarrow> limit_price (otype ord) = Some p \<Longrightarrow> price_on_tick spec p"
  by (cases "otype ord") (auto simp: order_on_tick_def)

lemma executes_on_grid:
  assumes "executes ab ord r ab'" and "on_ticks spec ab" and "order_on_tick spec ord"
  shows "trades_on_grid spec r" and "on_ticks spec ab'"
proof -
  have ab: "ab_spec ab = spec" "\<And>sd p x. rests ab sd p x \<Longrightarrow> price_on_tick spec p" "\<forall>x\<in>set (stop_orders ab). order_on_tick spec x"
    using assms(2) by (auto simp: on_ticks_def)
  show "trades_on_grid spec r"
    unfolding trades_on_grid_def qty_on_lot_def using executes_trades(6,7) [OF assms(1)] ab(1,2) by metis
  have "fixed ab' = fixed ab" using assms(1) fixed_spec_run [of ab ord] by (simp add: executes_def)
  then have "ab_spec ab' = spec" using ab(1) by (simp add: fixed_def)
  moreover have "price_on_tick spec p" if "rests ab' sd p x" for sd p x
    using rests_after [OF assms(1) that] ab(2) order_on_tick_limit [OF assms(3)] by blast
  ultimately show "on_ticks spec ab'" using ab(3) executes_ids(4) [OF assms(1)] by (auto simp: on_ticks_def)
qed

lemma cascades_on_grid:
  "cascades ab rs ab' \<Longrightarrow> on_ticks spec ab \<Longrightarrow> (\<forall>r\<in>set rs. trades_on_grid spec r) \<and> on_ticks spec ab'"
proof (induction ab rs ab' rule: cascades.induct)
  case (fires ab stop ab1 r ab2 rs ab3)
  have "fixed ab1 = fixed ab" by (rule fixed_spec_pop [OF fires.hyps(1)])
  then have "on_ticks spec ab1" "order_on_tick spec stop"
    using fires.prems popped_sides(2,3) [OF fires.hyps(1)] by (auto simp: on_ticks_def fixed_def)
  from executes_on_grid [OF fires.hyps(2) this(1) order_on_tick_activate [OF this(2)]] fires.IH show ?case by simp
qed simp

lemma starts_on_grid:
  assumes "starts ab ord r ab'" and "on_ticks spec ab" and "order_on_tick spec ord"
  shows "trades_on_grid spec r" and "on_ticks spec ab'"
proof -
  let ?ab = "ab\<lparr>ab_seq := ab_seq ab + 1\<rparr>" and ?ord = "numbered ab ord"
  have ab: "on_ticks spec ?ab" using assms(2) by (simp add: on_ticks_def rests_def stop_orders_def)
  have ord: "order_on_tick spec ?ord" using assms(3) by (simp add: order_on_tick_def numbered_def)
  have "trades_on_grid spec r \<and> on_ticks spec ab'"
  proof (cases "executes ?ab (activate ?ord) r ab'")
    case True
    with executes_on_grid [OF True ab order_on_tick_activate [OF ord]] show ?thesis by blast
  next
    case False
    then have parks: "report_trades r = []" "ab_sides ab' = ab_sides ?ab" "fixed ab' = fixed ?ab"
      "mset (stop_orders ab') = add_mset ?ord (mset (stop_orders ?ab))" using assms(1) by (auto simp: starts_def parks_def)
    from arg_cong [OF parks(4), of set_mset] ab ord parks(1-3) show ?thesis
      by (auto simp: trades_on_grid_def on_ticks_def rests_def fixed_def)
  qed
  then show "trades_on_grid spec r" "on_ticks spec ab'" by simp_all
qed

section \<open>It passes\<close>

context book_engine begin

lemma lattice_holds:
  assumes "book_ok S ok covers A b" and "on_ticks (ob_spec b) (abs_of S A b)"
    and D: "grid_decimals D rem (ob_spec b) tick_dec lot_dec"
  shows "lattice_levels D rem A (ob_spec b) tick_dec lot_dec (book_levels S b Bid @ book_levels S b Ask) = Some ()"
    and "lattice_parked D rem (ob_spec b) tick_dec lot_dec (stop_bids b @ stop_asks b) = Some ()"
proof -
  obtain K where K: "book_rel S ok covers A b K" using assms(1) by (auto simp: book_ok_def)
  have "price_on_tick (ob_spec b) (view_price v) \<and>
      (\<exists>os. view_orders A v = Some os \<and> (\<forall>x\<in>set os. qty_on_lot (ob_spec b) (remaining_quantity x)))"
    if v: "v \<in> set (book_levels S b Bid @ book_levels S b Ask)" for v
  proof -
    from v have "(view_price v, view_orders A v) \<in> set (map (\<lambda>v. (view_price v, view_orders A v)) (book_levels S b Bid @ book_levels S b Ask))"
      by auto
    then obtain os sd where os: "(view_price v, os) \<in> set (ab_sides (abs_of S A b) sd)" "view_orders A v = Some os"
      unfolding views_ladder [OF K] both_sides_def by auto
    have rests: "rests (abs_of S A b) sd (view_price v) x" if "x \<in> set os" for x using os(1) that by (auto simp: rests_def)
    have "os \<noteq> []" using represented_abs_ok [of "abs_of S A b"] assms(1) os(1)
      by (force simp: represented_def abs_ok_def tradable_ladder_def)
    then obtain x where "x \<in> set os" by (meson last_in_set)
    with rests assms(2) have "price_on_tick (ob_spec b) (view_price v)" by (auto simp: on_ticks_def)
    moreover have "qty_on_lot (ob_spec b) (remaining_quantity x)" if "x \<in> set os" for x
      using rests_where(3) [OF assms(1) rests [OF that]] by (simp add: tradable_def qty_on_lot_def)
    ultimately show ?thesis using os(2) by blast
  qed
  then show "lattice_levels D rem A (ob_spec b) tick_dec lot_dec (book_levels S b Bid @ book_levels S b Ask) = Some ()"
    by (intro lattice_levels_pass [OF D]) blast
  have "price_on_tick (ob_spec b) t \<and> (\<forall>x\<in>set q. qty_on_lot (ob_spec b) (remaining_quantity x))"
    if tq: "(t, q) \<in> set (stops_of b sd)" for t q sd
  proof -
    note stops = stops_relD [OF book_relD(7) [OF K]]
    have mem: "x \<in> set (stop_orders (abs_of S A b))" if "x \<in> set q" for x
      using tq that by (cases sd) (force simp: stop_orders_def ladder_orders_def)+
    obtain x where x: "x \<in> set q" using stops(3) [OF tq] by (meson last_in_set)
    then have "trigger_of (otype x) = Some t" using stops(5) [OF tq] by (auto simp: parked_def)
    then have "Some t \<in> set (prices (otype x))" by (cases "otype x") auto
    then have "price_on_tick (ob_spec b) t" using assms(2) mem [OF x] by (auto simp: on_ticks_def order_on_tick_def)
    moreover have "\<forall>x\<in>set q. qty_on_lot (ob_spec b) (remaining_quantity x)"
      using stops(5) [OF tq] by (auto simp: parked_def on_lattice_def tradable_def qty_on_lot_def)
    ultimately show ?thesis by blast
  qed
  from this [of _ _ Bid] this [of _ _ Ask]
  show "lattice_parked D rem (ob_spec b) tick_dec lot_dec (stop_bids b @ stop_asks b) = Some ()"
    by (intro lattice_parked_pass [OF D]) (auto simp: stops_of_def)
qed

lemma lattice_closure_passes:
  assumes "decimal_laws D" and "remainder_laws D rem" and "spec_ok spec" and "new_book S A spec mtch = Some b"
    and "matching_algorithm mtch (lot_size spec)" and "\<forall>ord\<in>set stream. streamable spec ord" and "length stream + 1 < 2 ^ 32"
    and "\<forall>ord\<in>set stream. order_on_tick spec ord"
  shows "check_lattice_closure D rem S A mtch spec stream = Some ()"
proof -
  have "unat (price_scale spec) \<le> 28" "unat (qty_scale spec) \<le> 28" using assms(3) by (simp_all add: spec_ok_def)
  from this [THEN decimal_of_u64 [OF assms(1)]] obtain tick_dec lot_dec where
    decs: "tick_decimal D spec = Some tick_dec" "lot_decimal D spec = Some lot_dec"
    unfolding tick_decimal_def lot_decimal_def by metis
  with assms(1-3) have D: "grid_decimals D rem spec tick_dec lot_dec" by (simp add: grid_decimals_def)
  let ?J = "\<lambda>ords b (st :: unit). on_ticks spec (abs_of S A b) \<and> (\<forall>ord\<in>set ords. order_on_tick spec ord)"
  note new = new_book_run_ok [OF assms(4,3,5,7)]
  have "run_ok S ok covers A spec (length stream + 0) b" "?J stream b ()"
    using new assms(8) by (simp_all add: on_ticks_def rests_def stop_orders_def)
  then have "\<exists>b' st'. over_stream S A (lattice_body D rem spec tick_dec lot_dec) stream b () = Some (b', st') \<and>
      run_ok S ok covers A spec 0 b' \<and> ?J [] b' st'"
  proof (intro over_stream_keeps [where J = ?J and n = 0])
    fix k b ord ords report b' and st :: unit
    assume run: "run_ok S ok covers A spec (Suc k) b" and J: "?J (ord # ords) b st" and ord: "streamable spec ord"
      and submit: "spec_submit (abs_of S A b) ord = (Inr report, abs_of S A b')"
    obtain r ab1 where runs: "starts (abs_of S A b) ord r ab1" "cascades ab1 (report_triggered report) (abs_of S A b')"
      "report = with_triggered r (report_triggered report)" by (rule run_submission [OF run ord submit])
    note first = starts_on_grid [OF runs(1), of spec] and facts = with_triggered_facts [OF starts_report(2) [OF runs(1)], of "report_triggered report"]
    have "trades_on_grid spec r" "on_ticks spec ab1" using first J by simp_all
    moreover note cascades_on_grid [OF runs(2) this(2)]
    ultimately have "\<forall>r\<in>set (all_reports report). trades_on_grid spec r" "on_ticks spec (abs_of S A b')"
      using facts unfolding runs(3) [symmetric] by (simp_all add: trades_on_grid_def)
    with J lattice_trades_pass [OF D] show "\<exists>st'. lattice_body D rem spec tick_dec lot_dec b ord report b' st = Some st' \<and> ?J ords b' st'"
      by (auto simp: lattice_body_def trades_on_grid_def)
  qed (use assms(6) in auto)
  then obtain b' where b': "over_stream S A (lattice_body D rem spec tick_dec lot_dec) stream b () = Some (b', ())"
    "run_ok S ok covers A spec 0 b'" "on_ticks spec (abs_of S A b')" by auto
  note run = run_okD [OF b'(2)]
  note holds = lattice_holds [OF run(1), unfolded run(2), OF b'(3) D]
  show ?thesis by (simp add: check_lattice_closure_def decs assms(4) b'(1) holds)
qed

end

end
