(* ===== verification/Property_Suite_Trades.thy ===== *)
theory Property_Suite_Trades
  imports Property_Suite Property_Conservation Property_Depth Fifo_Priority Property_Lattice
begin

text \<open>
  The property-based tests that look into the reports: trades, queue order, quantities and the grid, in
  every configuration of policy and store, for every stream that can be drawn and for longer ones.
\<close>

section \<open>The tests\<close>

definition conservation_per_submit ::
    "'d decimal_ops \<Rightarrow> ('m, 'k) arena_ops \<Rightarrow> (usize \<Rightarrow> bool) \<Rightarrow> (usize \<Rightarrow> bool) \<Rightarrow> draw list \<Rightarrow> unit option" where
  "conservation_per_submit D A rb ra drawn = do {
     stream \<leftarrow> arb_stream D drawn;
     spec \<leftarrow> prop_spec D;
     for_each_configuration (lot_size spec)
       (\<lambda>m. check_conservation D btree_store A m stream)
       (\<lambda>m. check_conservation D (ladder_store rb ra) A m stream)
       (\<lambda>m. check_conservation D hash_store A m stream)
   }"

definition book_depth_accounting ::
    "'d decimal_ops \<Rightarrow> ('m, 'k) arena_ops \<Rightarrow> (usize \<Rightarrow> bool) \<Rightarrow> (usize \<Rightarrow> bool) \<Rightarrow> draw list \<Rightarrow> unit option" where
  "book_depth_accounting D A rb ra drawn = do {
     stream \<leftarrow> arb_stream D drawn;
     spec \<leftarrow> prop_spec D;
     for_each_configuration (lot_size spec)
       (\<lambda>m. check_depth_accounting D btree_store A m stream)
       (\<lambda>m. check_depth_accounting D (ladder_store rb ra) A m stream)
       (\<lambda>m. check_depth_accounting D hash_store A m stream)
   }"

definition trades_at_maker_price_within_taker_limit ::
    "'d decimal_ops \<Rightarrow> ('m, 'k) arena_ops \<Rightarrow> (usize \<Rightarrow> bool) \<Rightarrow> (usize \<Rightarrow> bool) \<Rightarrow> draw list \<Rightarrow> unit option" where
  "trades_at_maker_price_within_taker_limit D A rb ra drawn = do {
     stream \<leftarrow> arb_stream D drawn;
     spec \<leftarrow> prop_spec D;
     for_each_configuration (lot_size spec)
       (\<lambda>m. check_price_validity D btree_store A m stream)
       (\<lambda>m. check_price_validity D (ladder_store rb ra) A m stream)
       (\<lambda>m. check_price_validity D hash_store A m stream)
   }"

definition queue_order_within_one_execution ::
    "'d decimal_ops \<Rightarrow> ('m, 'k) arena_ops \<Rightarrow> (usize \<Rightarrow> bool) \<Rightarrow> (usize \<Rightarrow> bool) \<Rightarrow> draw list \<Rightarrow> unit option" where
  "queue_order_within_one_execution D A rb ra drawn = do {
     stream \<leftarrow> arb_stream D drawn;
     spec \<leftarrow> prop_spec D;
     for_each_configuration (lot_size spec)
       (\<lambda>m. check_queue_order_within_execution D btree_store A m stream)
       (\<lambda>m. check_queue_order_within_execution D (ladder_store rb ra) A m stream)
       (\<lambda>m. check_queue_order_within_execution D hash_store A m stream)
   }"

definition everything_the_book_holds_stays_on_the_lattice ::
    "'d decimal_ops \<Rightarrow> 'd decimal_rem \<Rightarrow> ('m, 'k) arena_ops \<Rightarrow> (usize \<Rightarrow> bool) \<Rightarrow> (usize \<Rightarrow> bool) \<Rightarrow>
       draw list \<Rightarrow> unit option" where
  "everything_the_book_holds_stays_on_the_lattice D rem A rb ra drawn = do {
     stream \<leftarrow> arb_stream D drawn;
     spec \<leftarrow> prop_spec D;
     for_each_configuration (lot_size spec)
       (\<lambda>m. check_lattice_closure D rem btree_store A m spec stream)
       (\<lambda>m. check_lattice_closure D rem (ladder_store rb ra) A m spec stream)
       (\<lambda>m. check_lattice_closure D rem hash_store A m spec stream)
   }"

text \<open>The nine calls with the lot of ten are the configurations, one by one.\<close>

definition the_lattice_holds_on_a_non_unit_lot ::
    "'d decimal_ops \<Rightarrow> 'd decimal_rem \<Rightarrow> ('m, 'k) arena_ops \<Rightarrow> (usize \<Rightarrow> bool) \<Rightarrow> (usize \<Rightarrow> bool) \<Rightarrow>
       draw list \<Rightarrow> unit option" where
  "the_lattice_holds_on_a_non_unit_lot D rem A rb ra drawn = do {
     stream \<leftarrow> arb_lot_ten_stream D drawn;
     spec \<leftarrow> lot_ten_spec D;
     for_each_configuration (lot_size spec)
       (\<lambda>m. check_lattice_closure D rem btree_store A m spec stream)
       (\<lambda>m. check_lattice_closure D rem (ladder_store rb ra) A m spec stream)
       (\<lambda>m. check_lattice_closure D rem hash_store A m spec stream)
   }"

section \<open>They pass\<close>

text \<open>
  C15. Trades are fair, for every stream. On each store, over any arena that keeps
  the documented contract, and with each policy: every trade is at the price
  its maker rests at, on the other side, between different clients, within the limit of the order
  submitted, and the prices of one execution only get worse; and within one execution the makers at
  one price trade in the order in which they came to rest there. Under FIFO this holds across the whole
  stream: at one side and price no maker trades after a maker that came to rest later.
\<close>

theorem trade_tests_pass:
  assumes "arena_laws A" and "\<forall>d\<in>set drawn. draw_ok d" and "length drawn + 1 < 2 ^ 32" and "rb 41" and "ra 41"
  shows "trades_at_maker_price_within_taker_limit D A rb ra drawn = Some () \<and>
    queue_order_within_one_execution D A rb ra drawn = Some () \<and>
    fifo_same_price_priority D btree_store A drawn = Some ()"
proof -
  note btree_law = btree_lawful [OF assms(1)] and hash_law = hash_lawful [OF assms(1)] and ladder_law = ladder_lawful [OF assms(1)]
  obtain spec stream where spec: "prop_spec D = Some spec" "spec_ok spec" "lot_size spec = 1"
    and stream: "arb_stream D drawn = Some stream" "\<forall>ord\<in>set stream. streamable spec ord" "length stream + 1 < 2 ^ 32"
    by (rule drawn_stream [OF assms(2,3)])
  note configurations = plain_configurations [where A = A and rb = rb and ra = ra, OF spec(1) assms(4,5)]
  have "trades_at_maker_price_within_taker_limit D A rb ra drawn = Some ()"
    unfolding trades_at_maker_price_within_taker_limit_def stream(1) spec(1,3) Option.bind.bind_lunit
    by (rule configurations)
      (rule book_engine.price_validity_passes [OF btree_law spec(1,2) _ _ stream(2,3), unfolded spec(3)]
        book_engine.price_validity_passes [OF ladder_law spec(1,2) _ _ stream(2,3), unfolded spec(3)]
        book_engine.price_validity_passes [OF hash_law spec(1,2) _ _ stream(2,3), unfolded spec(3)]; assumption)+
  moreover have "queue_order_within_one_execution D A rb ra drawn = Some ()"
    unfolding queue_order_within_one_execution_def stream(1) spec(1,3) Option.bind.bind_lunit
    by (rule configurations)
      (rule book_engine.queue_order_passes [OF btree_law spec(1,2) _ _ stream(2,3), unfolded spec(3)]
        book_engine.queue_order_passes [OF ladder_law spec(1,2) _ _ stream(2,3), unfolded spec(3)]
        book_engine.queue_order_passes [OF hash_law spec(1,2) _ _ stream(2,3), unfolded spec(3)]; assumption)+
  moreover have "fifo_same_price_priority D btree_store A drawn = Some ()"
  proof -
    have m: "matching_algorithm fifo_matcher (lot_size spec)" by (rule fifo.matching_algorithm_axioms)
    have "matcher_lot_size fifo_matcher = None \<or> matcher_lot_size fifo_matcher = Some (lot_size spec)"
      by (rule matching_algorithm.declared_lot [OF m])
    from btree_try_new_total [OF this, of A] obtain b where
      b: "book_new btree_store A spec fifo_matcher = Some b" "new_book btree_store A spec fifo_matcher = Some b"
      by (auto simp: book_new_def new_book_def)
    note new = book_engine.new_book_run_ok [OF btree_law b(2) spec(2) m stream(3)]
    have "run_ok btree_store btree_ok (\<lambda>_ _. True) A spec (length stream + 0) b" using new(1) by simp
    from book_engine.fifo_priority_passes [OF btree_law this new(2) stream(2)] show ?thesis
      by (auto simp: fifo_same_price_priority_def stream(1) spec(1) b(1))
  qed
  ultimately show ?thesis by blast
qed

theorem trade_tests_pass_witness:
  "trades_at_maker_price_within_taker_limit pair_decimal_ops slot_arena (\<lambda>_. True) (\<lambda>_. True) sample_draws = Some () \<and>
   fifo_same_price_priority pair_decimal_ops btree_store slot_arena sample_draws = Some ()"
  using trade_tests_pass [of slot_arena sample_draws "\<lambda>_. True" "\<lambda>_. True" pair_decimal_ops, OF slot_arena_laws sample_draws_ok] by simp

text \<open>
  C14. Nothing is lost, for every stream. On each store, over any arena that keeps
  the documented contract, and with each policy: after every submission the
  quantity of the order, and of every stop it fired, is what it traded, what rests of it and what
  later executions took from it, the outcome reported fits, and a killed fill-or-kill order left no
  trace; and the depth of the book is what it was before, plus what came to rest, less what traded
  and what was cancelled.
\<close>

theorem quantity_tests_pass:
  assumes "arena_laws A" and "\<forall>d\<in>set drawn. draw_ok d" and "length drawn + 1 < 2 ^ 32" and "rb 41" and "ra 41"
  shows "conservation_per_submit D A rb ra drawn = Some () \<and>
    book_depth_accounting D A rb ra drawn = Some ()"
proof -
  note btree_law = btree_lawful [OF assms(1)] and hash_law = hash_lawful [OF assms(1)] and ladder_law = ladder_lawful [OF assms(1)]
  obtain spec stream where spec: "prop_spec D = Some spec" "spec_ok spec" "lot_size spec = 1"
    and stream: "arb_stream D drawn = Some stream" "\<forall>ord\<in>set stream. streamable spec ord" "length stream + 1 < 2 ^ 32"
      "\<forall>ord\<in>set stream. original_quantity ord = remaining_quantity ord" "order_units stream < 2 ^ 64"
    by (rule drawn_stream [OF assms(2,3)])
  note configurations = plain_configurations [where A = A and rb = rb and ra = ra, OF spec(1) assms(4,5)]
  have "conservation_per_submit D A rb ra drawn = Some ()"
    unfolding conservation_per_submit_def stream(1) spec(1,3) Option.bind.bind_lunit
    by (rule configurations)
      (rule book_engine.conservation_passes [OF btree_law spec(1,2) _ _ stream(2-4), unfolded spec(3)]
        book_engine.conservation_passes [OF ladder_law spec(1,2) _ _ stream(2-4), unfolded spec(3)]
        book_engine.conservation_passes [OF hash_law spec(1,2) _ _ stream(2-4), unfolded spec(3)]; assumption)+
  moreover have "book_depth_accounting D A rb ra drawn = Some ()"
    unfolding book_depth_accounting_def stream(1) spec(1,3) Option.bind.bind_lunit
    by (rule configurations)
      (rule book_engine.depth_accounting_passes [OF btree_law spec(1,2) _ _ stream(2-5), unfolded spec(3)]
        book_engine.depth_accounting_passes [OF ladder_law spec(1,2) _ _ stream(2-5), unfolded spec(3)]
        book_engine.depth_accounting_passes [OF hash_law spec(1,2) _ _ stream(2-5), unfolded spec(3)]; assumption)+
  ultimately show ?thesis by blast
qed

theorem quantity_tests_pass_witness:
  "conservation_per_submit pair_decimal_ops slot_arena (\<lambda>_. True) (\<lambda>_. True) sample_draws = Some () \<and>
   book_depth_accounting pair_decimal_ops slot_arena (\<lambda>_. True) (\<lambda>_. True) sample_draws = Some ()"
  by (rule quantity_tests_pass [OF slot_arena_laws sample_draws_ok]) simp_all

section \<open>The grid\<close>

lemma lattice_configurations:
  assumes "arena_laws A" and "decimal_laws D" and "remainder_laws D rem" and "rb 41" and "ra 41"
    and spec: "prop_spec_on D lot = Some spec" "lot \<noteq> 0" and "length stream + 1 < 2 ^ 32"
    and "\<forall>ord\<in>set stream. \<exists>q c. drawn_for spec q c ord"
  shows "for_each_configuration (lot_size spec)
       (\<lambda>m. check_lattice_closure D rem btree_store A m spec stream)
       (\<lambda>m. check_lattice_closure D rem (ladder_store rb ra) A m spec stream)
       (\<lambda>m. check_lattice_closure D rem hash_store A m spec stream) = Some ()"
proof -
  note btree_law = btree_lawful [OF assms(1)] and hash_law = hash_lawful [OF assms(1)] and ladder_law = ladder_lawful [OF assms(1)]
  note ok = prop_spec_ok [OF spec]
  have stream: "\<forall>ord\<in>set stream. streamable spec ord" "\<forall>ord\<in>set stream. order_on_tick spec ord"
    using assms(9) drawn_forD(1,4) unfolding order_on_tick_def price_on_tick_def by metis+
  show ?thesis
    unfolding ok(2)
    by (rule configurations_pass [where A = A and rb = rb and ra = ra, OF spec disjI1 [OF refl] assms(4,5)])
      (rule book_engine.lattice_closure_passes [OF btree_law assms(2,3) ok(1) _ _ stream(1) assms(8) stream(2), unfolded ok(2)]
        book_engine.lattice_closure_passes [OF ladder_law assms(2,3) ok(1) _ _ stream(1) assms(8) stream(2), unfolded ok(2)]
        book_engine.lattice_closure_passes [OF hash_law assms(2,3) ok(1) _ _ stream(1) assms(8) stream(2), unfolded ok(2)]; assumption)+
qed

text \<open>
  C16. Prices and quantities keep their type: on a lot of one and on a lot of ten, on each store, over any
  arena that keeps the documented contract, and with each policy, for every stream, every trade, every level, every resting order and every parked stop
  is on the tick and lot grid when read as a decimal, and reading the decimal back gives the same
  price and quantity. Decimals and their remainder are those of the library, by their documented laws.
\<close>

theorem lattice_tests_pass:
  assumes "arena_laws A" and "decimal_laws D" and "remainder_laws D rem" and "\<forall>d\<in>set drawn. draw_ok d" and "length drawn + 1 < 2 ^ 32"
    and "rb 41" and "ra 41"
  shows "everything_the_book_holds_stays_on_the_lattice D rem A rb ra drawn = Some () \<and>
    the_lattice_holds_on_a_non_unit_lot D rem A rb ra drawn = Some ()"
proof -
  note passes = lattice_configurations [where rb = rb and ra = ra, OF assms(1-3,6,7)]
  obtain spec ten where specs: "prop_spec_on D 1 = Some spec" "prop_spec_on D 10 = Some ten"
    using prop_spec_on_value [of 1 D] prop_spec_on_value [of 10 D] by simp
  obtain stream where stream: "arb_stream D drawn = Some stream" "length stream = length drawn"
    "\<forall>ord\<in>set stream. \<exists>q c. drawn_for spec q c ord"
    using arb_stream_ok [of D spec drawn] specs(1) assms(4) unfolding prop_specs by metis
  obtain tens where tens: "arb_lot_ten_stream D drawn = Some tens" "length tens = length drawn"
    "\<forall>ord\<in>set tens. \<exists>q c. drawn_for ten q c ord"
    using arb_lot_ten_stream_ok [of D ten drawn] specs(2) assms(4) by (auto simp: prop_specs)
  have "length stream + 1 < 2 ^ 32" "length tens + 1 < 2 ^ 32" using assms(5) stream(2) tens(2) by simp_all
  with passes [OF specs(1) _ _ stream(3)] passes [OF specs(2) _ _ tens(3)] show ?thesis
    by (simp add: everything_the_book_holds_stays_on_the_lattice_def the_lattice_holds_on_a_non_unit_lot_def
        stream(1) tens(1) prop_specs specs)
qed

text \<open>The remainder of pairs, for the instance.\<close>

definition pair_rem :: "pair_decimal decimal_rem" where
  "pair_rem d e =
     (if pair_mantissa e = 0 \<or> pair_scale d \<noteq> pair_scale e then None
      else Some (pair_decimal_of (pair_mantissa d smod pair_mantissa e) (pair_scale d)))"

lemma pair_remainder_laws: "remainder_laws pair_decimal_ops pair_rem"
proof -
  have "\<bar>m smod n\<bar> < 2 ^ 96" if "\<bar>n\<bar> < 2 ^ 96" "n \<noteq> 0" for m n :: int
    using smod_int_range [where a = m and b = n] that by auto
  moreover have "\<bar>pair_mantissa d\<bar> < 2 ^ 96 \<and> unat (pair_scale d) \<le> 28" for d
    using Rep_pair_decimal [of d] by (auto simp: pair_mantissa_def pair_scale_def)
  ultimately show ?thesis by (simp add: remainder_laws_def pair_rem_def pair_decimal_ops_def)
qed

theorem lattice_tests_pass_witness:
  "everything_the_book_holds_stays_on_the_lattice pair_decimal_ops pair_rem slot_arena (\<lambda>_. True) (\<lambda>_. True) sample_draws = Some () \<and>
   the_lattice_holds_on_a_non_unit_lot pair_decimal_ops pair_rem slot_arena (\<lambda>_. True) (\<lambda>_. True) sample_draws = Some ()"
  by (rule lattice_tests_pass [OF slot_arena_laws pair_decimal_laws pair_remainder_laws sample_draws_ok]) simp_all

end
