(* ===== verification/Policies_Agree.thy ===== *)
theory Policies_Agree
  imports Property_Agreement
begin

text \<open>
  The policy decides who fills, never how much: two books under any two policies, on any two stores and
  arenas, that are fed the same orders of clients of their own. The simulation of
  \<open>Stream_Agreement\<close> carried over whole streams and to the queries of the book.
\<close>

section \<open>Streams on two books\<close>

fun responses_alike :: "response \<Rightarrow> response \<Rightarrow> bool" where
  "responses_alike (Submitted x) (Submitted y) = rel_sum (=) reports_alike x y"
| "responses_alike (Done x) (Done y) = (x = y)"
| "responses_alike _ _ = False"

lemma streams_alike:
  assumes E: "book_engine S ok covers A" and E': "book_engine S' ok' covers' A'"
  shows "streaming S ok covers A C n (length ords) ab \<Longrightarrow> streaming S' ok' covers' A' C n (length ords) ab' \<Longrightarrow>
    alike ab ab' \<Longrightarrow> \<forall>ord\<in>set ords. on_lattice (ab_spec ab) ord \<Longrightarrow> distinct (map client ords) \<Longrightarrow>
    client ` set ords \<inter> C = {} \<Longrightarrow> n + order_units ords < 2 ^ 64 \<Longrightarrow>
    list_all2 responses_alike (fst (spec_session ab (map Submit ords))) (fst (spec_session ab' (map Submit ords))) \<and>
    alike (snd (spec_session ab (map Submit ords))) (snd (spec_session ab' (map Submit ords)))"
proof (induction ords arbitrary: ab ab' C n)
  case (Cons ord ords)
  let ?ab = "snd (spec_submit ab ord)" and ?ab' = "snd (spec_submit ab' ord)"
  let ?C = "insert (client ord) C" and ?n = "n + units (remaining_quantity ord)"
  have ord: "on_lattice (ab_spec ab) ord" "client ord \<notin> C" "?n < 2 ^ 64" using Cons.prems(4,6,7) by auto
  have streaming: "streaming S ok covers A C n (Suc (length ords)) ab" "streaming S' ok' covers' A' C n (Suc (length ords)) ab'"
    using Cons.prems(1,2) by simp_all
  note step = submit_alike [OF E E' streaming Cons.prems(3) ord]
  have spec: "ab_spec ?ab = ab_spec ab" using fixed_spec_perform(1) [of ab "Submit ord"] by simp
  have "list_all2 responses_alike (fst (spec_session ?ab (map Submit ords))) (fst (spec_session ?ab' (map Submit ords))) \<and>
    alike (snd (spec_session ?ab (map Submit ords))) (snd (spec_session ?ab' (map Submit ords)))"
    by (rule Cons.IH [OF step(3,4,2)]) (use Cons.prems(4-7) spec in \<open>auto simp: add.assoc\<close>)
  with step(1) show ?case by (simp add: split_beta)
qed simp

section \<open>What the queries read\<close>

lemma queries_alike:
  assumes E: "book_engine S ok covers A" and E': "book_engine S' ok' covers' A'"
    and "book_ok S ok covers A b" and "book_ok S' ok' covers' A' b'"
    and alike: "alike (abs_of S A b) (abs_of S' A' b')"
  shows "best_bid S' b' = best_bid S b" and "best_ask S' b' = best_ask S b"
    and "last_trade_price b' = last_trade_price b" and "depth S' A' b' sd k = depth S A b sd k"
proof -
  obtain K where K: "book_rel S ok covers A b K" using assms(3) by (auto simp: book_ok_def)
  obtain K' where K': "book_rel S' ok' covers' A' b' K'" using assms(4) by (auto simp: book_ok_def)
  have totals: "level_totals (ladder_of S' A' b' sd) = level_totals (ladder_of S A b sd)" for sd
    using alikeD(1) [OF alike, of sd] by simp
  have rows: "map (\<lambda>(p, os). (p, qty_sum (map remaining_quantity os))) L = map (\<lambda>(p, n). (p, Qty (of_nat n))) (level_totals L)"
    and first: "map_option fst (case L of [] \<Rightarrow> None | l # _ \<Rightarrow> Some l) = map_option fst (case level_totals L of [] \<Rightarrow> None | l # _ \<Rightarrow> Some l)"
    for L by (auto simp: level_totals_def qty_sum_orders split_beta split: list.split)
  have best: "best_price S' (ob_store b') sd = best_price S (ob_store b) sd" for sd
    unfolding book_engine.best_price_ladder [OF E K] book_engine.best_price_ladder [OF E' K'] first totals ..
  show "best_bid S' b' = best_bid S b" "best_ask S' b' = best_ask S b" by (simp_all add: best_bid_def best_ask_def best)
  show "last_trade_price b' = last_trade_price b" using alikeD(3) [OF alike] by simp
  show "depth S' A' b' sd k = depth S A b sd k"
    unfolding book_engine.depth_ladder [OF E K] book_engine.depth_ladder [OF E' K'] take_map [symmetric] rows totals ..
qed

lemma new_streaming:
  assumes E: "book_engine S ok covers A" and "spec_ok spec" and "matching_algorithm mtch (lot_size spec)"
    and "try_new S A spec mtch = Some (Inr b)" and "k + 1 < 2 ^ 32"
  shows "book_ok S ok covers A b \<and> abs_of S A b = empty_abs spec mtch \<and> ob_spec b = spec \<and>
    streaming S ok covers A {} 0 k (abs_of S A b)"
proof -
  have new: "book_ok S ok covers A b" "abs_of S A b = empty_abs spec mtch"
    using book_engine.try_new_ok [OF assms(1-4), folded empty_abs_def] by simp_all
  then have "ob_spec b = spec" by (metis abs_of_simps(6) empty_abs_simps(6))
  moreover have "ids_drawn (empty_abs spec mtch)" by (simp add: ids_drawn_def is_live_def ab_orders_def)
  moreover have "tidy (empty_abs spec mtch) {} 0" by (simp add: tidy_def apart_def clients_in_def stop_orders_def side_units_def)
  ultimately show ?thesis
    using new room_empty [OF assms(5), of spec mtch] by (auto simp: streaming_def represented_def)
qed

text \<open>
  C12. The policy decides who fills, never how much. Take two new books for one instrument, each on any
  store and arena that keep their contracts, under any two policies that honour the contract of
  \<open>MatchingAlgorithm\<close>, and submit the same orders to both: of pairwise distinct clients, on the lattice,
  less than \<open>2 ^ 64\<close> base units and fewer than \<open>2 ^ 32 - 1\<close> orders in all. Neither panics; order by
  order they accept and refuse alike, and report the same identifier, the same outcome, the same
  quantity traded at each price, the same stops fired, and no cancellation; and the two books show the
  same best prices, last price and depth of every level, in the end and so after every order.
\<close>

theorem policies_agree_on_the_totals:
  assumes "book_engine S ok covers A" and "book_engine S' ok' covers' A'" and "spec_ok spec"
    and "matching_algorithm mtch (lot_size spec)" and "matching_algorithm mtch' (lot_size spec)"
    and "try_new S A spec mtch = Some (Inr b)" and "try_new S' A' spec mtch' = Some (Inr b')"
    and "\<forall>ord\<in>set ords. on_lattice spec ord" and "distinct (map client ords)"
    and "order_units ords < 2 ^ 64" and "length ords + 1 < 2 ^ 32"
  shows "\<exists>rs c rs' c'. session S A b (map Submit ords) = Some (rs, c) \<and>
    session S' A' b' (map Submit ords) = Some (rs', c') \<and> list_all2 responses_alike rs rs' \<and>
    best_bid S' c' = best_bid S c \<and> best_ask S' c' = best_ask S c \<and> last_trade_price c' = last_trade_price c \<and>
    (\<forall>sd k. depth S' A' c' sd k = depth S A c sd k)"
proof -
  note new = new_streaming [OF assms(1,3,4,6,11)] and new' = new_streaming [OF assms(2,3,5,7,11)]
  have cmds: "\<forall>c\<in>set (map Submit ords). command_ok spec c" using assms(8) by auto
  obtain c where c: "session S A b (map Submit ords) = Some (fst (spec_session (empty_abs spec mtch) (map Submit ords)), c)"
    "book_ok S ok covers A c" "abs_of S A c = snd (spec_session (empty_abs spec mtch) (map Submit ords))"
    using book_engine.session_refines [OF assms(1), of b "map Submit ords"] new cmds by (auto simp: streaming_def)
  obtain c' where c': "session S' A' b' (map Submit ords) = Some (fst (spec_session (empty_abs spec mtch') (map Submit ords)), c')"
    "book_ok S' ok' covers' A' c'" "abs_of S' A' c' = snd (spec_session (empty_abs spec mtch') (map Submit ords))"
    using book_engine.session_refines [OF assms(2), of b' "map Submit ords"] new' cmds by (auto simp: streaming_def)
  have empty: "alike (empty_abs spec mtch) (empty_abs spec mtch')" by (simp add: alike_def)
  have "streaming S ok covers A {} 0 (length ords) (empty_abs spec mtch)"
    "streaming S' ok' covers' A' {} 0 (length ords) (empty_abs spec mtch')" using new new' by metis+
  from streams_alike [OF assms(1,2) this empty] assms(8-10)
  have alike: "list_all2 responses_alike (fst (spec_session (empty_abs spec mtch) (map Submit ords)))
      (fst (spec_session (empty_abs spec mtch') (map Submit ords)))" "alike (abs_of S A c) (abs_of S' A' c')"
    by (simp_all add: c(3) c'(3))
  with c(1) c'(1) queries_alike [OF assms(1,2) c(2) c'(2) alike(2)] show ?thesis by blast
qed

text \<open>
  First come, first served on the ordered map, and pro-rata on the hash map: a bid that takes seven of
  the eight at 20 leaves one, of the second maker there and of the first here.
\<close>

definition shared_orders :: "order list" where
  "shared_orders =
     [sample_limit ''m'' Ask 20 GTC 5, sample_limit ''n'' Ask 20 GTC 3, sample_limit ''t'' Bid 20 GTC 7]"

theorem policies_agree_on_the_totals_witness:
  "\<exists>b b' rs c rs' c'. try_new btree_store slot_arena five_tick_spec fifo_matcher = Some (Inr b) \<and>
     try_new hash_store slot_arena five_tick_spec (pro_rata_matcher 1) = Some (Inr b') \<and>
     session btree_store slot_arena b (map Submit shared_orders) = Some (rs, c) \<and>
     session hash_store slot_arena b' (map Submit shared_orders) = Some (rs', c') \<and>
     list_all2 responses_alike rs rs' \<and> depth hash_store slot_arena c' Ask 1 = depth btree_store slot_arena c Ask 1"
proof -
  have lot: "lot_size five_tick_spec = 1" by (simp add: five_tick_spec_def)
  have pro: "matching_algorithm (pro_rata_matcher 1) (lot_size five_tick_spec)"
    unfolding lot by (rule pro_rata.matching_algorithm_axioms)
  from btree_try_new_total [of fifo_matcher five_tick_spec slot_arena] fifo_lot lot obtain b where
    b: "try_new btree_store slot_arena five_tick_spec fifo_matcher = Some (Inr b)" by auto
  from hash_try_new_total [OF matching_algorithm.declared_lot [OF pro], of slot_arena] obtain b' where
    b': "try_new hash_store slot_arena five_tick_spec (pro_rata_matcher 1) = Some (Inr b')" by blast
  have "\<forall>ord\<in>set shared_orders. on_lattice five_tick_spec ord" "distinct (map client shared_orders)" by code_simp+
  moreover have "order_units shared_orders < 2 ^ 64" "length shared_orders + 1 < 2 ^ 32"
    by (simp_all add: shared_orders_def sample_limit_def sample_order_def)
  ultimately show ?thesis
    using policies_agree_on_the_totals [OF btree_engine.book_engine_axioms hash_engine.book_engine_axioms five_tick_ok
        fifo_five_tick pro b b', of shared_orders] b b' by blast
qed

end
