(* ===== verification/Spec2Isabelle.thy ===== *)
theory Spec2Isabelle
  imports Instrument_Facts Fifo_Matcher Pro_Rata_Matcher Time_Pro_Rata_Matcher Slot_Arena Stores_Agree
    Engine_Properties Trading_Properties Book_Properties Engine_Limits Exercise Allocation_Oracles
    Matching_Tests Book_Tests Allocation_Tests Component_Tests Instrument_Tests Property_Suite Property_Suite_Trades
    Policies_Agree
begin

text \<open>
  A verification library for the limit order book of this repository: a Rust crate that matches
  orders for one instrument, with a pluggable allocation policy and a pluggable storage backend.

  \<^bold>\<open>The program.\<close> A client builds an \<open>InstrumentSpec\<close>, which turns decimals into prices and
  quantities on the instrument's grid, and an \<open>OrderBook\<close> over it. \<open>submit\<close> admits an order against
  the specification, gives it an identifier, sweeps it through the opposite side, rests, kills or
  parks what is left, and then fires the stops that the last price has reached. \<open>add_order\<close> rests an
  order without matching, \<open>cancel_order\<close> takes one out. The book owns a store of price levels (an
  ordered map, a hash map with heaps, or a tick ladder), one arena of queue nodes shared by all
  levels, an index from identifiers to addresses, two maps of waiting stops, and three counters.
  Within a level a matcher (FIFO, pro-rata, time-weighted pro-rata) allocates the taker's quantity.

  \<^bold>\<open>The model.\<close> Each theory translates one file of \<^verbatim>\<open>src/src\<close>, function by function, with the
  names of the source:

  \<^item> \<open>Prelude\<close>: checked integer operations, borrows, list searches, and shared lemmas.
  \<^item> \<open>Std_Collections\<close>: ordered map, hash map, binary heap as association lists and lists.
  \<^item> \<open>Instrument\<close> (\<^verbatim>\<open>instrument.rs\<close>): prices, quantities, ticks, notionals, the specification and its
    builders, the conversions between decimals and the grid, rounding, admission.
  \<^item> \<open>Order_Types\<close> (\<^verbatim>\<open>types.rs\<close>): identifiers, order types, orders, the builder, the price level.
  \<^item> \<open>Allocation\<close>, \<open>Fifo_Matcher\<close>, \<open>Pro_Rata_Matcher\<close>, \<open>Time_Pro_Rata_Matcher\<close>
    (\<^verbatim>\<open>allocation.rs\<close>, and \<open>debug_assert_fills\<close> of \<^verbatim>\<open>matching.rs\<close>): the trait as the record
    \<open>matcher\<close>, the three policies, and the five clauses of their contract.
  \<^item> \<open>Order_Queue\<close> (\<^verbatim>\<open>order_queue.rs\<close>): the doubly linked queue over the arena; a Rust mutable borrow
    is a pair of the value and the function that writes it back.
  \<^item> \<open>Storage\<close>, \<open>BTree_Store\<close>, \<open>HashMap_Store\<close>, \<open>Tick_Ladder_Store\<close> (\<^verbatim>\<open>storage.rs\<close>): the trait as the
    record \<open>store_ops\<close> of its methods, and its three implementations.
  \<^item> \<open>Order_Book\<close> (\<^verbatim>\<open>orderbook.rs\<close>, the views of \<^verbatim>\<open>types.rs\<close>): the book as the record \<open>order_book\<close>,
    construction, admission, adding, cancelling, every query.
  \<^item> \<open>Matching\<close> (\<^verbatim>\<open>matching.rs\<close>): the sweep, the order types, the dry run of fill-or-kill orders, the
    stops, the cascade, \<open>submit\<close>.

  Words have their width in the source and wrap as a release build does; \<open>checked_add\<close> and its kin
  are modelled as such. A panic is \<open>None\<close> of an outer option, an error of the source a value of a
  sum. Loops without a structural measure are \<open>partial_function (option)\<close>, so that running for ever
  is \<open>None\<close> too; no fuel is used. Everything evaluates in the kernel (\<open>code_simp\<close>).

  \<^bold>\<open>Parameters.\<close> Code outside the repository is an argument with stated laws: \<open>rust_decimal\<close> by
  \<open>decimal_laws\<close> in \<open>Instrument\<close> and, for the remainder the lattice test takes, \<open>remainder_laws\<close> in
  \<open>Property_Lattice\<close> (each with a concrete model for the witnesses), \<open>slotmap\<close> by
  \<open>arena_laws\<close> in \<open>Order_Queue\<close>, the clock of the order builder, and the fallible reservation of
  memory in the tick ladder. Every property of the engine and of the randomised tests is stated for
  any arena with these laws. \<open>Slot_Arena\<close> is a model of them, with versioned keys and the limit of
  \<open>2^32 - 2\<close> slots, for the witnesses and for evaluating the unit tests of the crate.

  \<^bold>\<open>The interfaces\<close> are locales, each interpreted on the model's own definitions.
  \<open>matching_algorithm\<close> holds the allocation contract (interpretations \<open>fifo\<close>, \<open>pro_rata\<close>,
  \<open>time_pro_rata\<close>); \<open>order_book_store\<close> says that a store is a map of levels whose best level and
  listing follow from the map (\<open>btree\<close>, \<open>hash\<close>, \<open>ladder\<close>); \<open>book_engine\<close> extends it by a lawful arena,
  and is where the engine is proved once for all backends (\<open>btree_engine\<close>, \<open>hash_engine\<close>,
  \<open>ladder_engine\<close>).

  \<^bold>\<open>The abstract engine\<close> (\<open>Engine_Spec\<close>) is what the book promises: a side is a list of levels, best
  price first, each the list of its orders in time priority; resting, cancelling, sweeping and firing
  stops are total functions on those lists. \<open>Book_Invariant\<close> defines when store, arena, index and
  stop book of a book agree (\<open>book_ok\<close>) and the abstract book it shows (\<open>abs_of\<close>). The refinement
  goes level by level: \<open>Queue_Facts\<close> (a queue is a list), \<open>Level_Change\<close> and \<open>Book_Refinement\<close>
  (adding, cancelling, parking), \<open>Level_Trades\<close> (one level is traded), \<open>Sweep_Refinement\<close> (the
  sweep), \<open>Engine_Refinement\<close> (order types, cascade, \<open>submit\<close>). \<open>Sweep_Properties\<close>, \<open>Spec_Facts\<close> and
  \<open>Engine_Invariants\<close> prove what holds of the abstract engine: conservation, price order, exact
  fills, a touch that never crosses, orders that never fail. \<open>Sessions\<close> has the clients: sequences of
  commands, and the books reachable by them; \<open>Book_Facts\<close> the queries; \<open>Engines\<close> the three backends and
  the books of the examples.

  \<^bold>\<open>The properties.\<close> \<open>Engine_Properties\<close>: \<open>submit\<close> implements the abstract engine on every backend and
  so never panics or loops; the three backends answer a client alike whose orders are on the
  lattice; the books such a client can reach are consistent, and their touch never crosses when it
  only submits and cancels; where the identifiers are the book's own, the only errors of \<open>submit\<close> are
  those of admission and no due stop is left.
  \<open>Trading_Properties\<close>: the sweep conserves quantity, trades best price first with others only, fills
  all it can; fill-or-kill is all or nothing; policies differ in who trades, not in how much.
  \<open>Book_Properties\<close>: the index, the priorities, the depth, adding, cancelling, and the order in which
  stops fire. The component theories prove theirs: the allocation policies, the stores, the queue,
  the conversions and roundings of \<open>Instrument_Facts\<close>. \<open>Policies_Agree\<close>: books under any two policies
  agree on everything but who fills. \<open>Engine_Limits\<close> has the laws at the edges: what a fill-or-kill
  order does when the sums of the dry run wrap, a submission refused after it traded, the end of the
  arrival counter, and one run with an order that has nothing left; the last properties of
  \<open>Instrument_Facts\<close> and \<open>Time_Pro_Rata_Matcher\<close> are of the same kind.

  \<^bold>\<open>The tests of the crate.\<close> \<open>Test_Support\<close> has \<^verbatim>\<open>test_helpers.rs\<close> and the test monad: a failed assertion
  is \<open>None\<close>. \<open>Matching_Tests\<close>, \<open>Book_Tests\<close>, \<open>Allocation_Tests\<close>, \<open>Instrument_Tests\<close> and
  \<open>Component_Tests\<close> (price levels, stores, queues) are the unit tests of the modules, one definition each under the name of the test, and the kernel evaluates them all
  on the model, which so behaves as the authors of the program expect of it. The oracles and the
  randomised tests are translated as well and proved to pass on all inputs: \<open>Ownership_Oracle\<close> and
  \<open>Exercise\<close> (the ownership of the shared arena after any sequence of the operations the test draws, \<^verbatim>\<open>orderbook.rs\<close>),
  \<open>Allocation_Oracles\<close> (the contract, the proportional bound, \<^verbatim>\<open>allocation.rs\<close>), with \<open>Age_Priority\<close> for
  what they say of the age of makers.

  \<^bold>\<open>The property-based tests\<close> (\<^verbatim>\<open>tests/properties.rs\<close>) are translated in \<open>Property_Fixtures\<close> (the
  strategies as functions of the drawn numbers, the helpers), \<open>Property_Tests\<close>, \<open>Property_Audit\<close>,
  \<open>Property_Agreement\<close>, \<open>Property_Trades\<close>, \<open>Fifo_Priority\<close>, \<open>Property_Conservation\<close>, \<open>Property_Depth\<close>
  and \<open>Property_Lattice\<close> (the checks), and \<open>Property_Suite\<close> and \<open>Property_Suite_Trades\<close> prove that they
  pass for every stream, in every configuration of policy and store. \<open>Policy_Agreement\<close> and
  \<open>Stream_Agreement\<close> are the simulation behind the test of the policies: under two policies, books of
  the same level totals stay so. The checks of reports rest on \<open>Settlement\<close> (a sweep, read off its
  trades and cancellations: every level is settled in place), \<open>Executions\<close> (one run of an order, told
  by its report), \<open>Cascades\<close> (a submission as the inductive sequence of the runs it reports),
  \<open>Property_Reports\<close> (the rule that reduces a check to one run) and \<open>Property_Quantities\<close> (what becomes
  of an order over a whole cascade).

  \<^bold>\<open>Bounds.\<close> The engine needs of a book that its arrival stamps last: one for each order it may
  still rest, that is one per waiting stop and one for the order submitted (\<open>load\<close>), below \<open>2^32\<close>;
  and for fresh identifiers that fewer than \<open>2^64\<close> orders were admitted (\<open>room\<close>). Of an order it needs
  what \<open>Price\<close> and \<open>Qty\<close> are built to keep (\<open>on_lattice\<close>; \<open>command_ok\<close> for a command): something left
  to trade, in whole lots, and a limit on a tick. No call checks it: the premise is named in each
  property that has it, and it is needed. \<open>off_tick_adds_differ\<close> in \<open>Engine_Properties\<close> shows two
  backends that differ on an order off the tick, and \<open>Engine_Limits\<close> what an order with nothing left
  does. \<open>Book_Properties\<close> says what \<open>add_order\<close> does without it.

  \<^bold>\<open>Not modelled.\<close> \<^verbatim>\<open>lib.rs\<close> declares modules only. The benchmarks are not translated. Derived traits (\<open>Debug\<close>, \<open>Clone\<close>, comparison of identifiers) and the texts of panics
  and errors are left out, as are the capacity and growth of collections: allocation fails only
  where the source handles it, in the tick ladder. The iteration order of the hash map is that of
  the association list, and no property depends on it. A debug build would panic where the model
  wraps; \<open>fillable_quantity\<close> and the totals of views are the only such sums the engine makes.
\<close>

end
